(* ===== verification/Prelude.thy ===== *)
theory Prelude
  imports Main "HOL-Library.Word"
begin

unbundle bit_operations_syntax

text \<open>
  Shared vocabulary of the development: bytes and JavaScript strings, the numbers a
  caller may pass where the code tests \<^verbatim>\<open>Number.isInteger\<close>, sequencing of computations that
  may throw, big-endian numerals as a specification, and the generic list lemmas the
  components share.
\<close>

section \<open>Types\<close>

type_synonym byte = "8 word"

type_synonym bytes = "byte list"

text \<open>A JavaScript string is a sequence of 16-bit code units.\<close>

type_synonym jsstr = "16 word list"

definition js :: "string \<Rightarrow> jsstr" where
  "js s = map (\<lambda>c. of_nat (of_char c)) s"

text \<open>
  A JavaScript number as the guards of the code see it: an integer, or a value for which
  \<^verbatim>\<open>Number.isInteger\<close> is false (a fraction, an infinity, NaN); the flag of the latter says
  whether the value compares greater than zero.
\<close>

datatype jsnum = JInt int | JNonInt bool

fun jsPositive :: "jsnum \<Rightarrow> bool" where
  "jsPositive (JInt i) = (0 < i)"
| "jsPositive (JNonInt p) = p"

named_theorems reader_simps \<open>what each read of the buffer reader returns\<close>
named_theorems layout_simps \<open>what each write of an encoder leaves in its buffer\<close>

section \<open>Computations that may throw\<close>

definition andThen :: "'e + 'a \<Rightarrow> ('a \<Rightarrow> 'e + 'b) \<Rightarrow> 'e + 'b" where
  "andThen m f = (case m of Inl e \<Rightarrow> Inl e | Inr x \<Rightarrow> f x)"

lemma andThen_Inl [simp]: "andThen (Inl e) f = Inl e"
  by (simp add: andThen_def)

lemma andThen_Inr [simp]: "andThen (Inr x) f = f x"
  by (simp add: andThen_def)

lemma andThen_Inr_right [simp]: "andThen m Inr = m"
  by (cases m) simp_all

lemma andThen_cong [fundef_cong]:
  "m = m' \<Longrightarrow> (\<And>x. m' = Inr x \<Longrightarrow> f x = g x) \<Longrightarrow> andThen m f = andThen m' g"
  by (cases m') (simp_all add: andThen_def)

lemma andThen_eq_Inr: "andThen m f = Inr y \<longleftrightarrow> (\<exists>x. m = Inr x \<and> f x = Inr y)"
  by (cases m) auto

lemma andThen_assoc: "andThen (andThen m f) g = andThen m (\<lambda>x. andThen (f x) g)"
  by (cases m) auto

lemma andThen_InrE:
  assumes "andThen m f = Inr y"
  obtains x where "m = Inr x" and "f x = Inr y"
  using assms by (auto simp: andThen_eq_Inr)

section \<open>Big-endian numerals\<close>

text \<open>The specification of every fixed-width field: \<open>n\<close> bytes, most significant first.\<close>

primrec be :: "nat \<Rightarrow> int \<Rightarrow> bytes" where
  "be 0 v = []"
| "be (Suc n) v = word_of_int (v div 256 ^ n) # be n v"

definition unbe :: "bytes \<Rightarrow> nat" where
  "unbe bs = foldl (\<lambda>a b. a * 256 + unat b) 0 bs"

lemma length_be [simp]: "length (be n v) = n"
  by (induction n) auto

lemma be_eq_Nil [simp]: "be n v = [] \<longleftrightarrow> n = 0"
  by (cases n) simp_all

lemma unbe_foldl:
  "foldl (\<lambda>a b. a * 256 + unat (b :: byte)) a bs = a * 256 ^ length bs + unbe bs"
proof (induction bs arbitrary: a rule: list.induct)
  case Nil
  then show ?case by (simp add: unbe_def)
next
  case (Cons b bs)
  show ?case
    unfolding unbe_def using Cons by (simp add: algebra_simps)
qed

lemma unbe_Nil [simp]: "unbe [] = 0"
  by (simp add: unbe_def)

lemma unbe_Cons: "unbe (b # bs) = unat b * 256 ^ length bs + unbe bs"
proof -
  have "unbe (b # bs) = foldl (\<lambda>a b. a * 256 + unat b) (unat b) bs"
    by (simp add: unbe_def)
  then show ?thesis by (simp only: unbe_foldl)
qed

lemma unbe_append: "unbe (xs @ ys) = unbe xs * 256 ^ length ys + unbe ys"
  by (induction xs) (auto simp: unbe_Cons algebra_simps power_add)

lemma unat_byte_of_int: "int (unat (word_of_int v :: byte)) = v mod 256"
  by (simp add: unsigned_of_int take_bit_eq_mod)

lemma unbe_be_mod: "int (unbe (be n v)) = v mod 256 ^ n"
proof (induction n)
  case 0
  then show ?case by simp
next
  case (Suc n)
  have "v mod 256 ^ Suc n = v mod (256 ^ n * 256)"
    by (simp add: mult.commute)
  also have "\<dots> = 256 ^ n * (v div 256 ^ n mod 256) + v mod 256 ^ n"
    by (simp add: zmod_zmult2_eq)
  finally show ?case
    using Suc unat_byte_of_int [of "v div 256 ^ n"] by (simp add: unbe_Cons mult.commute)
qed

lemma unbe_be [simp]: "v < 256 ^ n \<Longrightarrow> unbe (be n (int v)) = v"
proof -
  assume "v < 256 ^ n"
  then have "int v < 256 ^ n"
    by (metis of_nat_less_iff of_nat_numeral of_nat_power)
  then have "int (unbe (be n (int v))) = int v"
    by (simp add: unbe_be_mod)
  then show ?thesis by simp
qed

lemma unbe_be_nat: "0 \<le> v \<Longrightarrow> v < 256 ^ n \<Longrightarrow> unbe (be n v) = nat v"
  using unbe_be [of "nat v" n] by (simp add: nat_less_iff)

lemma unbe_less: "unbe bs < 256 ^ length bs"
proof (induction bs)
  case Nil
  then show ?case by simp
next
  case (Cons b bs)
  have "unat b < 256"
    using unsigned_less [of b] by simp
  then have "unat b + 1 \<le> 256" by simp
  then have "(unat b + 1) * 256 ^ length bs \<le> 256 * 256 ^ length bs"
    by (rule mult_le_mono1)
  then have "unat b * 256 ^ length bs + 256 ^ length bs \<le> 256 ^ length (b # bs)"
    by (simp only: add_mult_distrib mult_1 list.size power_Suc) simp
  moreover have "unbe (b # bs) < unat b * 256 ^ length bs + 256 ^ length bs"
    using Cons by (simp only: unbe_Cons nat_add_left_cancel_less)
  ultimately show ?case by linarith
qed

lemma be_add_high: "be n (v + 256 ^ n * w) = be n v"
proof (induction n arbitrary: w)
  case 0
  then show ?case by simp
next
  case (Suc n)
  have eq: "v + 256 ^ Suc n * w = v + 256 ^ n * (256 * w)" by simp
  have "(v + 256 ^ n * (256 * w)) div 256 ^ n = v div 256 ^ n + 256 * w"
    by simp
  moreover have "(word_of_int (v div 256 ^ n + 256 * w) :: byte) = word_of_int (v div 256 ^ n)"
    by (simp only: word_of_int_eq_iff take_bit_eq_mod) simp
  moreover have "be n (v + 256 ^ n * (256 * w)) = be n v"
    by (rule Suc.IH)
  ultimately show ?case by (simp only: eq be.simps)
qed

lemma be_unbe [simp]: "length bs = n \<Longrightarrow> be n (int (unbe bs)) = bs"
proof (induction bs arbitrary: n)
  case Nil
  then show ?case by simp
next
  case (Cons b bs)
  then obtain m where n: "n = Suc m" and m: "m = length bs" by auto
  have lt: "int (unbe bs) < 256 ^ m"
    using unbe_less [of bs] m by (metis of_nat_less_iff of_nat_numeral of_nat_power)
  have v: "int (unbe (b # bs)) = int (unbe bs) + 256 ^ m * int (unat b)"
    by (simp add: unbe_Cons m mult.commute)
  have "(int (unbe bs) + 256 ^ m * int (unat b)) div 256 ^ m = int (unat b)"
    using lt by simp
  moreover have "be m (int (unbe bs) + 256 ^ m * int (unat b)) = bs"
    by (simp only: be_add_high Cons.IH [OF m [symmetric]])
  ultimately show ?case
    by (simp only: n v be.simps) simp
qed

section \<open>Lists\<close>

lemma drop_split: "drop n xs = ys @ zs \<Longrightarrow> drop (n + length ys) xs = zs"
  by (metis add.commute append_eq_conv_conj drop_drop)

lemma nth_drop_Cons: "drop n xs = y # ys \<Longrightarrow> n < length xs \<and> xs ! n = y"
  by (metis drop_eq_Nil2 hd_drop_conv_nth leI list.distinct(1) list.sel(1))

lemma length_drop_split: "drop n xs = ys @ zs \<Longrightarrow> n \<le> length xs \<Longrightarrow>
    length xs = n + length ys + length zs"
  by (metis add.assoc append_take_drop_id length_append length_take min.absorb2)

end
