(* ===== verification/Errors.thy ===== *)
theory Errors
  imports Prelude
begin

text \<open>
  The error classes of \<^verbatim>\<open>src/core/errors.ts\<close> and the retry classification of
  \<^verbatim>\<open>src/client/resilience.ts\<close>. A thrown value is a record: its class, the stable code, the
  optional broker code, the disposition a broker response attached and the retry metadata a
  connection attached. Messages and diagnostic contexts are left out: the source says that
  they are not a programmatic contract. The one thing the code reads in a context is whether its
  \<^verbatim>\<open>state\<close> is \<^verbatim>\<open>CLOSED\<close>, kept here as \<open>eClosed\<close>.
\<close>

section \<open>Thrown values\<close>

text \<open>The states of a connection, from \<^verbatim>\<open>src/core/types.ts\<close>; errors report them.\<close>

datatype connectionState =
    Disconnected | Connecting | Connected | Authenticating | Authenticated | Reconnecting | Closed

datatype errKind =
    FitzErrorK | TransportErrorK | ConnectionErrorK | RequestQueueFullErrorK
  | AsyncHandlerOverflowErrorK | AuthenticationErrorK | TimeoutErrorK | ProtocolErrorK
  | CodecErrorK | KvErrorK | QueueErrorK | NoticeErrorK | RpcErrorK | LeaseErrorK
  | StreamErrorK | StreamReadStalledErrorK | ScheduleErrorK
  | RangeErrorK | TypeErrorK | ErrorK | AbortErrorK

datatype attemptBoundary = PreSend | PostSend

datatype failureKind = FTransport | FConnection | FTimeout | FDomain | FOther

record resilienceMeta =
  rmBoundary :: attemptBoundary
  rmFailure :: failureKind
  rmExplicitNegative :: bool

record jserror =
  ekind :: errKind
  ecode :: string
  eDomain :: "nat option"
  eClass :: "nat option"
  eEffect :: "nat option"
  emeta :: "resilienceMeta option"
  eClosed :: bool

type_synonym 'a result = "jserror + 'a"

definition mkError :: "errKind \<Rightarrow> string \<Rightarrow> nat option \<Rightarrow> jserror" where
  "mkError k c d = \<lparr>ekind = k, ecode = c, eDomain = d, eClass = None, eEffect = None,
    emeta = None, eClosed = False\<rparr>"

definition TransportError :: jserror where
  "TransportError = mkError TransportErrorK ''TRANSPORT_ERROR'' None"

definition ConnectionError :: jserror where
  "ConnectionError = mkError ConnectionErrorK ''CONNECTION_ERROR'' None"

definition connectionClosedError :: jserror where
  "connectionClosedError = ConnectionError\<lparr>eClosed := True\<rparr>"

definition RequestQueueFullError :: jserror where
  "RequestQueueFullError = mkError RequestQueueFullErrorK ''REQUEST_QUEUE_FULL'' None"

definition AsyncHandlerOverflowError :: jserror where
  "AsyncHandlerOverflowError = mkError AsyncHandlerOverflowErrorK ''ASYNC_HANDLER_OVERFLOW'' None"

definition AuthenticationError :: jserror where
  "AuthenticationError = mkError AuthenticationErrorK ''AUTH_ERROR'' None"

definition TimeoutError :: jserror where
  "TimeoutError = mkError TimeoutErrorK ''TIMEOUT'' None"

definition ProtocolError :: "nat option \<Rightarrow> jserror" where
  "ProtocolError d = mkError ProtocolErrorK ''PROTOCOL_ERROR'' d"

definition CodecError :: jserror where
  "CodecError = mkError CodecErrorK ''CODEC_ERROR'' None"

definition KvError :: "string \<Rightarrow> nat option \<Rightarrow> jserror" where
  "KvError c d = mkError KvErrorK (''KV_'' @ c) d"

definition QueueError :: "string \<Rightarrow> nat option \<Rightarrow> jserror" where
  "QueueError c d = mkError QueueErrorK (''QUEUE_'' @ c) d"

definition NoticeError :: "string \<Rightarrow> nat option \<Rightarrow> jserror" where
  "NoticeError c d = mkError NoticeErrorK (''NOTICE_'' @ c) d"

definition RpcError :: "string \<Rightarrow> nat option \<Rightarrow> jserror" where
  "RpcError c d = mkError RpcErrorK (''RPC_'' @ c) d"

definition LeaseError :: "string \<Rightarrow> nat option \<Rightarrow> jserror" where
  "LeaseError c d = mkError LeaseErrorK (''LEASE_'' @ c) d"

definition StreamError :: "string \<Rightarrow> nat option \<Rightarrow> jserror" where
  "StreamError c d = mkError StreamErrorK (''STREAM_'' @ c) d"

definition StreamReadStalledError :: jserror where
  "StreamReadStalledError = mkError StreamReadStalledErrorK ''STREAM_READ_STALLED'' None"

definition ScheduleError :: "string \<Rightarrow> nat option \<Rightarrow> jserror" where
  "ScheduleError c d = mkError ScheduleErrorK (''SCHEDULE_'' @ c) d"

definition RangeError :: jserror where
  "RangeError = mkError RangeErrorK '''' None"

definition TypeError :: jserror where
  "TypeError = mkError TypeErrorK '''' None"

definition PlainError :: jserror where
  "PlainError = mkError ErrorK '''' None"

definition abortError :: jserror where
  "abortError = mkError AbortErrorK '''' None"

definition isAbortError :: "jserror \<Rightarrow> bool" where
  "isAbortError e \<longleftrightarrow> ekind e = AbortErrorK"

lemmas error_defs = mkError_def TransportError_def ConnectionError_def RequestQueueFullError_def
  AsyncHandlerOverflowError_def AuthenticationError_def TimeoutError_def ProtocolError_def
  CodecError_def KvError_def QueueError_def NoticeError_def RpcError_def LeaseError_def
  StreamError_def StreamReadStalledError_def ScheduleError_def RangeError_def TypeError_def
  PlainError_def abortError_def connectionClosedError_def

section \<open>The class hierarchy\<close>

text \<open>\<^verbatim>\<open>error instanceof FitzError\<close>: every class but the ones of the language.\<close>

definition instanceofFitzError :: "jserror \<Rightarrow> bool" where
  "instanceofFitzError e \<longleftrightarrow> ekind e \<notin> {RangeErrorK, TypeErrorK, ErrorK, AbortErrorK}"

definition attachErrorDisposition :: "jserror \<Rightarrow> nat option \<Rightarrow> nat option \<Rightarrow> jserror" where
  "attachErrorDisposition e c f = e\<lparr>eClass := c, eEffect := f\<rparr>"

section \<open>Retry classification\<close>

text \<open>Decimal rendering of a non-negative number inside a template string.\<close>

fun decimal :: "nat \<Rightarrow> string" where
  "decimal n = (if n < 10 then [char_of (48 + n)]
     else decimal (n div 10) @ [char_of (48 + n mod 10)])"

declare decimal.simps [simp del]

definition retryableErrorCodes :: "string list" where
  "retryableErrorCodes =
    [''KV_'' @ decimal 1053, ''LEASE_'' @ decimal 5050, ''LEASE_'' @ decimal 5056,
     ''RPC_'' @ decimal 6051]"

definition retryableKey :: "jserror \<Rightarrow> string option" where
  "retryableKey e =
    (let prefix = takeWhile (\<lambda>c. c \<noteq> CHR ''_'') (ecode e) in
     case eDomain e of
       None \<Rightarrow> None
     | Some d \<Rightarrow> Some (prefix @ ''_'' @ decimal d))"

definition isRetryable :: "jserror \<Rightarrow> bool" where
  "isRetryable e =
    (if \<not> instanceofFitzError e then False
     else if ekind e = TimeoutErrorK \<or> ekind e = TransportErrorK then True
     else if eEffect e \<noteq> Some 0 then False
     else if eClass e = Some 5 then True
     else (case retryableKey e of
             Some key \<Rightarrow> key \<in> set retryableErrorCodes
           | None \<Rightarrow> False))"

datatype retryClass = ReplayableRead | ConfirmedNegativeRetry | WaitOnly

definition attachResilienceMeta :: "jserror \<Rightarrow> resilienceMeta \<Rightarrow> jserror" where
  "attachResilienceMeta e m = e\<lparr>emeta := Some m\<rparr>"

definition classifyFailureKind :: "jserror \<Rightarrow> failureKind" where
  "classifyFailureKind e =
    (if ekind e = TimeoutErrorK then FTimeout
     else if ekind e = TransportErrorK then FTransport
     else if ekind e = ConnectionErrorK then FConnection
     else if instanceofFitzError e then FDomain
     else FOther)"

definition isTransientRetryError :: "jserror \<Rightarrow> bool" where
  "isTransientRetryError e \<longleftrightarrow>
     ekind e = TimeoutErrorK \<or> ekind e = TransportErrorK \<or> ekind e = ConnectionErrorK \<or>
     ekind e = RequestQueueFullErrorK \<or> isRetryable e"

fun shouldRetryOperation :: "retryClass \<Rightarrow> jserror \<Rightarrow> bool" where
  "shouldRetryOperation WaitOnly e = False"
| "shouldRetryOperation ReplayableRead e = isTransientRetryError e"
| "shouldRetryOperation ConfirmedNegativeRetry e =
    (case emeta e of
       None \<Rightarrow> False
     | Some m \<Rightarrow> rmExplicitNegative m \<and> rmBoundary m = PostSend \<and> isRetryable e)"

section \<open>Lemmas\<close>

text \<open>Reading a decimal numeral back; it makes the rendering injective.\<close>

definition undecimal :: "string \<Rightarrow> nat" where
  "undecimal s = foldl (\<lambda>a c. a * 10 + (of_char c - 48)) 0 s"

lemma undecimal_snoc: "d < 10 \<Longrightarrow> undecimal (s @ [char_of (48 + d :: nat)]) = undecimal s * 10 + d"
  by (simp add: undecimal_def)

lemma undecimal_Nil [simp]: "undecimal [] = 0"
  by (simp add: undecimal_def)

lemma undecimal_decimal: "undecimal (decimal n) = n"
proof (induction n rule: decimal.induct)
  case (1 n)
  show ?case
  proof (cases "n < 10")
    case True
    then show ?thesis
      using undecimal_snoc [of n "[]"] by (simp add: decimal.simps [of n])
  next
    case False
    then have "decimal n = decimal (n div 10) @ [char_of (48 + n mod 10)]"
      by (simp add: decimal.simps [of n])
    then have "undecimal (decimal n) = undecimal (decimal (n div 10)) * 10 + n mod 10"
      by (simp only:) (rule undecimal_snoc, simp)
    with False 1 show ?thesis by simp
  qed
qed

lemma decimal_inject [simp]: "decimal m = decimal n \<longleftrightarrow> m = n"
  by (metis undecimal_decimal)

lemma prefix_key_eq:
  assumes "CHR ''_'' \<notin> set p" and "CHR ''_'' \<notin> set q"
  shows "p @ CHR ''_'' # x = q @ CHR ''_'' # y \<longleftrightarrow> p = q \<and> x = y"
proof
  assume eq: "p @ CHR ''_'' # x = q @ CHR ''_'' # y"
  have tw: "takeWhile (\<lambda>c. c \<noteq> CHR ''_'') (r @ CHR ''_'' # z) = r" if "CHR ''_'' \<notin> set r" for r z
    using that by (induction r) auto
  have "p = q" using arg_cong [OF eq, of "takeWhile (\<lambda>c. c \<noteq> CHR ''_'')"] assms by (simp add: tw)
  with eq show "p = q \<and> x = y" by simp
qed simp

text \<open>The prefix of an error's code, up to the first underscore.\<close>

definition codePrefix :: "jserror \<Rightarrow> string" where
  "codePrefix e = takeWhile (\<lambda>c. c \<noteq> CHR ''_'') (ecode e)"

lemma codePrefix_no_underscore: "CHR ''_'' \<notin> set (codePrefix e)"
  by (auto simp: codePrefix_def dest: set_takeWhileD)

lemma retryableKey_in_codes:
  "retryableKey e = Some key \<Longrightarrow> key \<in> set retryableErrorCodes \<longleftrightarrow>
    (codePrefix e, the (eDomain e)) \<in>
      {(''KV'', 1053), (''LEASE'', 5050), (''LEASE'', 5056), (''RPC'', 6051)}"
  using codePrefix_no_underscore [of e]
    prefix_key_eq [of "codePrefix e" "''KV''"] prefix_key_eq [of "codePrefix e" "''LEASE''"]
    prefix_key_eq [of "codePrefix e" "''RPC''"]
  by (auto simp: retryableKey_def retryableErrorCodes_def codePrefix_def Let_def
      split: option.splits)

lemma isRetryable_iff:
  "isRetryable e \<longleftrightarrow> instanceofFitzError e \<and>
    (ekind e \<in> {TimeoutErrorK, TransportErrorK} \<or>
     eEffect e = Some 0 \<and>
       (eClass e = Some 5 \<or>
        (\<exists>d. eDomain e = Some d \<and> (codePrefix e, d) \<in>
          {(''KV'', 1053), (''LEASE'', 5050), (''LEASE'', 5056), (''RPC'', 6051)})))"
proof (cases "eDomain e")
  case None
  then show ?thesis by (auto simp: isRetryable_def retryableKey_def Let_def)
next
  case (Some d)
  then obtain key where key: "retryableKey e = Some key"
    by (simp add: retryableKey_def Let_def)
  show ?thesis
    using retryableKey_in_codes [OF key] Some key by (simp add: isRetryable_def)
qed

section \<open>Properties\<close>

text \<open>
  The retry table says yes exactly for a timeout, a transport failure, or a refusal that the
  server confirmed to be without effect and that carries the overload class or one of four codes.
\<close>

theorem retryable_errors:
  "isRetryable e \<longleftrightarrow> instanceofFitzError e \<and>
    (ekind e \<in> {TimeoutErrorK, TransportErrorK} \<or>
     eEffect e = Some 0 \<and>
       (eClass e = Some 5 \<or>
        (\<exists>d. eDomain e = Some d \<and> (codePrefix e, d) \<in>
          {(''KV'', 1053), (''LEASE'', 5050), (''LEASE'', 5056), (''RPC'', 6051)})))"
  by (rule isRetryable_iff)

end
