(* ===== verification/Utf8.thy ===== *)
theory Utf8
  imports Prelude
begin

text \<open>
  The text codecs of the language's standard library that \<^verbatim>\<open>src/core/buffer.ts\<close> instantiates
  (\<^verbatim>\<open>new TextEncoder()\<close>, \<^verbatim>\<open>new TextDecoder()\<close>): conversion of a JavaScript string to scalar
  values, UTF-8 encoding, and the decoder as the state machine of the encoding standard,
  with replacement characters for malformed input and the byte order mark removed.
\<close>

section \<open>Strings as scalar values\<close>

definition isHigh :: "16 word \<Rightarrow> bool" where
  "isHigh u \<longleftrightarrow> 0xD800 \<le> unat u \<and> unat u \<le> 0xDBFF"

definition isLow :: "16 word \<Rightarrow> bool" where
  "isLow u \<longleftrightarrow> 0xDC00 \<le> unat u \<and> unat u \<le> 0xDFFF"

text \<open>Scalar values of a string; a surrogate with no partner becomes U+FFFD.\<close>

fun toScalars :: "jsstr \<Rightarrow> nat list" where
  "toScalars [] = []"
| "toScalars [u] = [if isHigh u \<or> isLow u then 0xFFFD else unat u]"
| "toScalars (u # v # s) =
    (if isHigh u \<and> isLow v
     then (0x10000 + (unat u - 0xD800) * 0x400 + (unat v - 0xDC00)) # toScalars s
     else (if isHigh u \<or> isLow u then 0xFFFD else unat u) # toScalars (v # s))"

definition fromScalar :: "nat \<Rightarrow> jsstr" where
  "fromScalar c =
    (if c < 0x10000 then [of_nat c]
     else [of_nat (0xD800 + (c - 0x10000) div 0x400), of_nat (0xDC00 + (c - 0x10000) mod 0x400)])"

definition scalar :: "nat \<Rightarrow> bool" where
  "scalar c \<longleftrightarrow> c < 0xD800 \<or> (0xE000 \<le> c \<and> c < 0x110000)"

text \<open>Well-formed UTF-16: every surrogate is half of a pair.\<close>

fun wellFormed :: "jsstr \<Rightarrow> bool" where
  "wellFormed [] = True"
| "wellFormed [u] = (\<not> isHigh u \<and> \<not> isLow u)"
| "wellFormed (u # v # s) =
    (if isHigh u then isLow v \<and> wellFormed s else \<not> isLow u \<and> wellFormed (v # s))"

section \<open>Encoding\<close>

definition encodeScalar :: "nat \<Rightarrow> bytes" where
  "encodeScalar c =
    (if c < 0x80 then [of_nat c]
     else if c < 0x800 then [of_nat (0xC0 + c div 64), of_nat (0x80 + c mod 64)]
     else if c < 0x10000 then
       [of_nat (0xE0 + c div 4096), of_nat (0x80 + c div 64 mod 64), of_nat (0x80 + c mod 64)]
     else
       [of_nat (0xF0 + c div 262144), of_nat (0x80 + c div 4096 mod 64),
        of_nat (0x80 + c div 64 mod 64), of_nat (0x80 + c mod 64)])"

definition utf8Encode :: "jsstr \<Rightarrow> bytes" where
  "utf8Encode s = concat (map encodeScalar (toScalars s))"

text \<open>\<^verbatim>\<open>encodeInto\<close> stops before the first scalar value that does not fit.\<close>

fun fitScalars :: "nat list \<Rightarrow> nat \<Rightarrow> bytes" where
  "fitScalars [] n = []"
| "fitScalars (c # cs) n =
    (let bs = encodeScalar c in
     if length bs \<le> n then bs @ fitScalars cs (n - length bs) else [])"

definition utf8EncodeInto :: "jsstr \<Rightarrow> nat \<Rightarrow> bytes" where
  "utf8EncodeInto s n = fitScalars (toScalars s) n"

section \<open>Decoding\<close>

record decState =
  cp :: nat
  seen :: nat
  needed :: nat
  lowerB :: nat
  upperB :: nat

definition decInit :: decState where
  "decInit = \<lparr>cp = 0, seen = 0, needed = 0, lowerB = 0x80, upperB = 0xBF\<rparr>"

lemma needed_decInit [simp]: "needed decInit = 0"
  by (simp add: decInit_def)

text \<open>A byte read while no continuation is expected: the scalars emitted, the next state.\<close>

definition decLead :: "byte \<Rightarrow> nat list \<times> decState" where
  "decLead b0 =
    (let b = unat b0 in
     if b \<le> 0x7F then ([b], decInit)
     else if 0xC2 \<le> b \<and> b \<le> 0xDF then ([], decInit\<lparr>needed := 1, cp := b mod 32\<rparr>)
     else if 0xE0 \<le> b \<and> b \<le> 0xEF then
       ([], decInit\<lparr>needed := 2, cp := b mod 16,
              lowerB := (if b = 0xE0 then 0xA0 else 0x80),
              upperB := (if b = 0xED then 0x9F else 0xBF)\<rparr>)
     else if 0xF0 \<le> b \<and> b \<le> 0xF4 then
       ([], decInit\<lparr>needed := 3, cp := b mod 8,
              lowerB := (if b = 0xF0 then 0x90 else 0x80),
              upperB := (if b = 0xF4 then 0x8F else 0xBF)\<rparr>)
     else ([0xFFFD], decInit))"

text \<open>A continuation out of bounds emits U+FFFD and is read again as a lead byte.\<close>

definition decByte :: "decState \<Rightarrow> byte \<Rightarrow> nat list \<times> decState" where
  "decByte st b0 =
    (let b = unat b0 in
     if needed st = 0 then decLead b0
     else if \<not> (lowerB st \<le> b \<and> b \<le> upperB st)
       then (case decLead b0 of (out, st') \<Rightarrow> (0xFFFD # out, st'))
     else (let c = cp st * 64 + b mod 64 in
       if seen st + 1 = needed st then ([c], decInit)
       else ([], st\<lparr>lowerB := 0x80, upperB := 0xBF, cp := c, seen := seen st + 1\<rparr>)))"

fun decLoop :: "decState \<Rightarrow> bytes \<Rightarrow> nat list" where
  "decLoop st [] = (if needed st = 0 then [] else [0xFFFD])"
| "decLoop st (b # bs) = (case decByte st b of (out, st') \<Rightarrow> out @ decLoop st' bs)"

definition dropBom :: "nat list \<Rightarrow> nat list" where
  "dropBom cs = (case cs of [] \<Rightarrow> [] | c # cs' \<Rightarrow> if c = 0xFEFF then cs' else c # cs')"

definition utf8Decode :: "bytes \<Rightarrow> jsstr" where
  "utf8Decode bs = concat (map fromScalar (dropBom (decLoop decInit bs)))"

section \<open>Round trip\<close>

lemma unat_byte_of_nat [simp]: "n < 256 \<Longrightarrow> unat (of_nat n :: byte) = n"
  by (simp add: unsigned_of_nat take_bit_eq_mod)

lemma unat_unit_of_nat [simp]: "n < 65536 \<Longrightarrow> unat (of_nat n :: 16 word) = n"
  by (simp add: unsigned_of_nat take_bit_eq_mod)

lemma unat_unit_less: "unat (u :: 16 word) < 65536"
  using unsigned_less [of u] by simp

lemma of_nat_unat_unit [simp]: "(of_nat (unat (u :: 16 word)) :: 16 word) = u"
  by simp

text \<open>Lead and continuation bytes carry the digits of the scalar value.\<close>

lemma lead_digits:
  "a < 32 \<Longrightarrow> (192 + a) mod 32 = (a :: nat)" "a < 16 \<Longrightarrow> (224 + a) mod 16 = (a :: nat)"
  "a < 8 \<Longrightarrow> (240 + a) mod 8 = (a :: nat)" "a < 64 \<Longrightarrow> (128 + a) mod 64 = (a :: nat)"
  by (subst mod_add_left_eq [symmetric], simp)+

lemma digits3: "((c div 4096) * 64 + c div 64 mod 64) * 64 + c mod 64 = (c :: nat)"
proof -
  have "c div 4096 = c div 64 div 64" by (simp flip: div_mult2_eq)
  then show ?thesis by (simp only: div_mult_mod_eq)
qed

lemma digits4:
  "(((c div 262144) * 64 + c div 4096 mod 64) * 64 + c div 64 mod 64) * 64 + c mod 64 = (c :: nat)"
proof -
  have "c div 262144 = c div 4096 div 64" by (simp flip: div_mult2_eq)
  then show ?thesis by (simp only: div_mult_mod_eq digits3)
qed

lemma decLoop_scalar1:
  "c < 0x80 \<Longrightarrow> decLoop decInit (encodeScalar c @ bs) = c # decLoop decInit bs"
  by (simp add: encodeScalar_def decByte_def decLead_def decInit_def)

lemma decLoop_scalar2:
  assumes "0x80 \<le> c" and "c < 0x800"
  shows "decLoop decInit (encodeScalar c @ bs) = c # decLoop decInit bs"
proof -
  define hi lo where "hi = c div 64" and "lo = c mod 64"
  have b: "2 \<le> hi" "hi < 32" "lo < 64" and c: "hi * 64 + lo = c"
    using assms by (auto simp: hi_def lo_def)
  have e: "encodeScalar c = [of_nat (0xC0 + hi), of_nat (0x80 + lo)]"
    using assms by (simp add: encodeScalar_def hi_def lo_def)
  show ?thesis
    using b by (simp add: e decByte_def decLead_def decInit_def Let_def lead_digits c
        del: of_nat_add)
qed

lemma decLoop_scalar3:
  assumes "0x800 \<le> c" and "c < 0x10000" and "scalar c"
  shows "decLoop decInit (encodeScalar c @ bs) = c # decLoop decInit bs"
proof -
  define x y z where "x = c div 4096" and "y = c div 64 mod 64" and "z = c mod 64"
  have b: "x < 16" "y < 64" "z < 64"
    using assms by (auto simp: x_def y_def z_def)
  have c: "(x * 64 + y) * 64 + z = c"
    by (simp only: x_def y_def z_def digits3)
  have lo: "x = 0 \<Longrightarrow> 32 \<le> y" and hi: "x = 13 \<Longrightarrow> y < 32"
    using assms(1,3) c b by (auto simp: scalar_def)
  have e: "encodeScalar c = [of_nat (0xE0 + x), of_nat (0x80 + y), of_nat (0x80 + z)]"
    using assms by (simp add: encodeScalar_def x_def y_def z_def)
  show ?thesis
    using b lo hi c
    by (auto simp: e decByte_def decLead_def decInit_def Let_def lead_digits simp del: of_nat_add)
qed

lemma decLoop_scalar4:
  assumes "0x10000 \<le> c" and "c < 0x110000"
  shows "decLoop decInit (encodeScalar c @ bs) = c # decLoop decInit bs"
proof -
  define w x y z where "w = c div 262144" and "x = c div 4096 mod 64"
    and "y = c div 64 mod 64" and "z = c mod 64"
  have b: "w < 5" "x < 64" "y < 64" "z < 64"
    using assms by (auto simp: w_def x_def y_def z_def)
  have c: "((w * 64 + x) * 64 + y) * 64 + z = c"
    by (simp only: w_def x_def y_def z_def digits4)
  have lo: "w = 0 \<Longrightarrow> 16 \<le> x" and hi: "w = 4 \<Longrightarrow> x < 16"
    using assms c b by auto
  have e: "encodeScalar c =
      [of_nat (0xF0 + w), of_nat (0x80 + x), of_nat (0x80 + y), of_nat (0x80 + z)]"
    using assms by (simp add: encodeScalar_def w_def x_def y_def z_def)
  show ?thesis
    using b lo hi c
    by (auto simp: e decByte_def decLead_def decInit_def Let_def lead_digits simp del: of_nat_add)
qed

lemma decLoop_scalar:
  assumes "scalar c"
  shows "decLoop decInit (encodeScalar c @ bs) = c # decLoop decInit bs"
proof -
  consider "c < 0x80" | "0x80 \<le> c" "c < 0x800" | "0x800 \<le> c" "c < 0x10000"
    | "0x10000 \<le> c" "c < 0x110000"
    using assms by (force simp: scalar_def)
  then show ?thesis
    by cases (use assms in \<open>auto intro: decLoop_scalar1 decLoop_scalar2 decLoop_scalar3
        decLoop_scalar4\<close>)
qed

lemma decLoop_scalars:
  "list_all scalar cs \<Longrightarrow> decLoop decInit (concat (map encodeScalar cs)) = cs"
  by (induction cs) (auto simp: decLoop_scalar)

lemma toScalars_scalar: "list_all scalar (toScalars s)"
proof (induction s rule: toScalars.induct)
  case 1
  then show ?case by simp
next
  case (2 u)
  then show ?case
    using unat_unit_less [of u] by (auto simp: scalar_def isHigh_def isLow_def)
next
  case (3 u v s)
  then show ?case
    using unat_unit_less [of u] by (auto simp: scalar_def isHigh_def isLow_def)
qed

lemma fromScalar_unit:
  "\<not> isHigh u \<Longrightarrow> \<not> isLow u \<Longrightarrow> fromScalar (unat u) = [u]"
  using unat_unit_less [of u] by (simp add: fromScalar_def)

lemma fromScalar_pair:
  assumes "isHigh u" and "isLow v"
  shows "fromScalar (0x10000 + (unat u - 0xD800) * 0x400 + (unat v - 0xDC00)) = [u, v]"
proof -
  define a b where "a = unat u - 0xD800" and "b = unat v - 0xDC00"
  have "b < 1024" and "0xD800 + a = unat u" and "0xDC00 + b = unat v"
    using assms by (auto simp: a_def b_def isHigh_def isLow_def)
  then show ?thesis
    by (simp add: fromScalar_def flip: a_def b_def del: of_nat_add)
qed

lemma scalars_roundtrip:
  "wellFormed s \<Longrightarrow> concat (map fromScalar (toScalars s)) = s"
  by (induction s rule: toScalars.induct)
    (auto simp: fromScalar_unit fromScalar_pair split: if_splits)

text \<open>
  Decoding an encoded string: lone surrogates are replaced and a leading byte order mark is
  dropped, nothing else changes.
\<close>

lemma utf8Decode_utf8Encode:
  "utf8Decode (utf8Encode s) = concat (map fromScalar (dropBom (toScalars s)))"
  by (simp add: utf8Decode_def utf8Encode_def decLoop_scalars toScalars_scalar)

definition bomFree :: "jsstr \<Rightarrow> bool" where
  "bomFree s \<longleftrightarrow> (case s of [] \<Rightarrow> True | u # _ \<Rightarrow> u \<noteq> 0xFEFF)"

text \<open>The strings a wire field carries unchanged.\<close>

definition wireText :: "jsstr \<Rightarrow> bool" where
  "wireText s \<longleftrightarrow> wellFormed s \<and> bomFree s"

lemma dropBom_wireText: "wireText s \<Longrightarrow> dropBom (toScalars s) = toScalars s"
proof (cases s rule: toScalars.cases)
  case (2 u)
  assume "wireText s"
  with 2 have "u \<noteq> 0xFEFF" by (simp add: wireText_def bomFree_def)
  then have "unat u \<noteq> 0xFEFF"
    by (metis of_nat_numeral of_nat_unat_unit)
  with 2 show ?thesis by (simp add: dropBom_def)
next
  case (3 u v t)
  assume "wireText s"
  with 3 have "u \<noteq> 0xFEFF" by (simp add: wireText_def bomFree_def)
  then have "unat u \<noteq> 0xFEFF"
    by (metis of_nat_numeral of_nat_unat_unit)
  with 3 show ?thesis by (simp add: dropBom_def)
qed (simp add: dropBom_def)

lemma utf8_roundtrip [simp]: "wireText s \<Longrightarrow> utf8Decode (utf8Encode s) = s"
  by (simp add: utf8Decode_utf8Encode dropBom_wireText scalars_roundtrip wireText_def)

lemma utf8Encode_Nil [simp]: "utf8Encode [] = []"
  by (simp add: utf8Encode_def)

lemma wireText_Nil [simp]: "wireText []"
  by (simp add: wireText_def bomFree_def)

section \<open>Lengths\<close>

lemma length_encodeScalar: "length (encodeScalar c) \<le> 4" "0 < length (encodeScalar c)"
  by (auto simp: encodeScalar_def)

lemma length_toScalars: "length (toScalars s) \<le> length s"
  by (induction s rule: toScalars.induct) auto

lemma toScalars_eq_Nil [simp]: "toScalars s = [] \<longleftrightarrow> s = []"
  by (cases s rule: toScalars.cases) auto

lemma length_utf8Encode: "length (utf8Encode s) \<le> 4 * length s"
proof -
  have "length (concat (map encodeScalar cs)) \<le> 4 * length cs" for cs
  proof (induction cs)
    case (Cons c cs)
    then show ?case using length_encodeScalar(1) [of c] by simp
  qed simp
  from this [of "toScalars s"] show ?thesis
    using length_toScalars [of s] by (simp add: utf8Encode_def)
qed

lemma utf8Encode_eq_Nil [simp]: "utf8Encode s = [] \<longleftrightarrow> s = []"
proof (cases "toScalars s")
  case Nil
  then show ?thesis by (simp add: utf8Encode_def)
next
  case (Cons c cs)
  moreover have "encodeScalar c \<noteq> []" using length_encodeScalar(2) [of c] by auto
  moreover have "s \<noteq> []" using Cons by auto
  ultimately show ?thesis by (simp add: utf8Encode_def)
qed

lemma fitScalars_all:
  "length (concat (map encodeScalar cs)) \<le> n \<Longrightarrow> fitScalars cs n = concat (map encodeScalar cs)"
  by (induction cs arbitrary: n) (auto simp: Let_def)

text \<open>Four bytes per code unit are room enough for \<^verbatim>\<open>encodeInto\<close>.\<close>

lemma utf8EncodeInto_enough: "4 * length s \<le> n \<Longrightarrow> utf8EncodeInto s n = utf8Encode s"
  using length_utf8Encode [of s]
  by (simp add: utf8EncodeInto_def utf8Encode_def fitScalars_all)

end
