(* ===== verification/Buffer.thy ===== *)
theory Buffer
  imports Errors Utf8
begin

text \<open>
  The byte-level primitives of \<^verbatim>\<open>src/core/buffer.ts\<close>: stores into a \<^verbatim>\<open>Uint8Array\<close> at an
  offset, the big-endian writes and reads, and the encoding of a route with its cache.
  A buffer is its list of bytes; a write returns the buffer and the next offset.
\<close>

section \<open>Typed arrays\<close>

definition newUint8Array :: "nat \<Rightarrow> bytes" where
  "newUint8Array n = replicate n 0"

text \<open>\<^verbatim>\<open>buffer[i] = b\<close>: a store out of range is ignored, as \<^verbatim>\<open>xs[i := b]\<close> does.\<close>

text \<open>\<^verbatim>\<open>buffer.set(data, offset)\<close> throws a \<^verbatim>\<open>RangeError\<close> when the data does not fit.\<close>

definition u8set :: "bytes \<Rightarrow> bytes \<Rightarrow> nat \<Rightarrow> bytes result" where
  "u8set buffer data off =
    (if off + length data > length buffer then Inl RangeError
     else Inr (take off buffer @ data @ drop (off + length data) buffer))"

text \<open>\<^verbatim>\<open>ToInt32\<close>, the shifts of 32-bit integers, and the low byte of one.\<close>

definition toInt32 :: "int \<Rightarrow> 32 word" where
  "toInt32 v = word_of_int v"

definition lowByte :: "32 word \<Rightarrow> byte" where
  "lowByte w = ucast (w AND 0xff)"

definition byteOf32 :: "nat \<Rightarrow> int \<Rightarrow> byte" where
  "byteOf32 k v = lowByte (signed_drop_bit k (toInt32 v))"

definition ubyteOf32 :: "nat \<Rightarrow> int \<Rightarrow> byte" where
  "ubyteOf32 k v = lowByte (drop_bit k (toInt32 v))"

text \<open>\<^verbatim>\<open>Number((value >> k) & 0xffn)\<close> of a bigint.\<close>

definition byteOfBig :: "nat \<Rightarrow> int \<Rightarrow> byte" where
  "byteOfBig k v = word_of_int (drop_bit k v AND 0xff)"

section \<open>Writes at an offset\<close>

definition writeU32BEAt :: "bytes \<Rightarrow> nat \<Rightarrow> int \<Rightarrow> bytes \<times> nat" where
  "writeU32BEAt buffer offset v =
    (buffer[offset := byteOf32 24 v, offset + 1 := byteOf32 16 v, offset + 2 := byteOf32 8 v,
            offset + 3 := byteOf32 0 v],
     offset + 4)"

definition writeU64BEAt :: "bytes \<Rightarrow> nat \<Rightarrow> int \<Rightarrow> bytes \<times> nat" where
  "writeU64BEAt buffer offset v =
    (buffer[offset := byteOfBig 56 v, offset + 1 := byteOfBig 48 v, offset + 2 := byteOfBig 40 v,
            offset + 3 := byteOfBig 32 v, offset + 4 := byteOfBig 24 v,
            offset + 5 := byteOfBig 16 v, offset + 6 := byteOfBig 8 v,
            offset + 7 := byteOfBig 0 v],
     offset + 8)"

definition maxSafeInteger :: int where
  "maxSafeInteger = 9007199254740991"

fun isInteger :: "jsnum \<Rightarrow> bool" where
  "isInteger (JInt i) = True"
| "isInteger (JNonInt p) = False"

definition isSafeInteger :: "jsnum \<Rightarrow> bool" where
  "isSafeInteger n = (case n of JInt i \<Rightarrow> \<bar>i\<bar> \<le> maxSafeInteger | JNonInt _ \<Rightarrow> False)"

text \<open>The integer a number holds once a guard has established that it is one.\<close>

definition jsInt :: "jsnum \<Rightarrow> int" where
  "jsInt n = (case n of JInt i \<Rightarrow> i | JNonInt _ \<Rightarrow> 0)"

definition writeU64BENumberAt :: "bytes \<Rightarrow> nat \<Rightarrow> jsnum \<Rightarrow> (bytes \<times> nat) result" where
  "writeU64BENumberAt buffer offset value =
    (if \<not> isSafeInteger value \<or> jsInt value < 0 then Inl RangeError
     else (let high = jsInt value div 0x100000000; low = jsInt value in
       Inr (buffer[offset := ubyteOf32 24 high, offset + 1 := ubyteOf32 16 high,
                   offset + 2 := ubyteOf32 8 high, offset + 3 := ubyteOf32 0 high,
                   offset + 4 := ubyteOf32 24 low, offset + 5 := ubyteOf32 16 low,
                   offset + 6 := ubyteOf32 8 low, offset + 7 := ubyteOf32 0 low],
            offset + 8)))"

section \<open>Reads at an offset\<close>

text \<open>\<^verbatim>\<open>DataView.getUint32(offset)\<close> is big-endian and throws a \<^verbatim>\<open>RangeError\<close> out of bounds.\<close>

definition readU32BEAt :: "bytes \<Rightarrow> nat \<Rightarrow> nat result" where
  "readU32BEAt buffer offset =
    (if offset + 4 > length buffer then Inl RangeError
     else Inr (unbe (take 4 (drop offset buffer))))"

definition readU128BEAt :: "bytes \<Rightarrow> nat \<Rightarrow> nat result" where
  "readU128BEAt buffer offset =
    andThen (readU32BEAt buffer offset) (\<lambda>part0.
    andThen (readU32BEAt buffer (offset + 4)) (\<lambda>part1.
    andThen (readU32BEAt buffer (offset + 8)) (\<lambda>part2.
    andThen (readU32BEAt buffer (offset + 12)) (\<lambda>part3.
    Inr (push_bit 96 part0 OR push_bit 64 part1 OR push_bit 32 part2 OR part3)))))"

section \<open>Stores as big-endian numerals\<close>

lemma bit_255: "bit (255 :: int) n \<longleftrightarrow> n < 8" "bit (255 :: 32 word) n \<longleftrightarrow> n < 8"
proof -
  have "(255 :: int) = mask 8" "(255 :: 32 word) = mask 8"
    by (simp_all add: mask_eq_exp_minus_1)
  note m = this
  show "bit (255 :: int) n \<longleftrightarrow> n < 8" "bit (255 :: 32 word) n \<longleftrightarrow> n < 8"
    unfolding m by (auto simp: bit_mask_iff)
qed

lemma byteOfBig_eq: "byteOfBig k v = word_of_int (v div 2 ^ k)"
  unfolding byteOfBig_def drop_bit_eq_div [symmetric]
  by (rule bit_word_eqI) (auto simp: bit_simps bit_255)

lemma byteOf32_eq: "k \<le> 24 \<Longrightarrow> byteOf32 k v = word_of_int (v div 2 ^ k)"
  unfolding byteOf32_def lowByte_def toInt32_def drop_bit_eq_div [symmetric]
  by (rule bit_word_eqI) (auto simp: bit_simps bit_255)

lemma ubyteOf32_eq: "k \<le> 24 \<Longrightarrow> ubyteOf32 k v = word_of_int (v div 2 ^ k)"
  unfolding ubyteOf32_def lowByte_def toInt32_def drop_bit_eq_div [symmetric]
  by (rule bit_word_eqI) (auto simp: bit_simps bit_255)

lemma be4_eq: "be 4 v = [byteOf32 24 v, byteOf32 16 v, byteOf32 8 v, byteOf32 0 v]"
  by (simp add: byteOf32_eq numeral_eq_Suc)

lemma be8_eq: "be 8 v = [byteOfBig 56 v, byteOfBig 48 v, byteOfBig 40 v, byteOfBig 32 v,
    byteOfBig 24 v, byteOfBig 16 v, byteOfBig 8 v, byteOfBig 0 v]"
  by (simp add: byteOfBig_eq numeral_eq_Suc)

lemma be8_number_eq: "be 8 v =
    [ubyteOf32 24 (v div 0x100000000), ubyteOf32 16 (v div 0x100000000),
     ubyteOf32 8 (v div 0x100000000), ubyteOf32 0 (v div 0x100000000),
     ubyteOf32 24 v, ubyteOf32 16 v, ubyteOf32 8 v, ubyteOf32 0 v]"
proof -
  have "v div 0x100000000 div n = v div (0x100000000 * n)" if "0 \<le> n" for n
    by (rule zdiv_zmult2_eq [symmetric, OF that])
  note d = this [of "2 ^ 24", simplified] this [of "2 ^ 16", simplified] this [of "2 ^ 8", simplified]
  show ?thesis
    by (simp add: ubyteOf32_eq numeral_eq_Suc) (simp add: d)
qed

section \<open>Encoders: a freshly allocated buffer filled from the left\<close>

text \<open>
  The encoders of the repository allocate a buffer of the exact size and then write it field
  by field, threading an offset. A cursor is that pair of buffer and offset.
\<close>

type_synonym cursor = "bytes \<times> nat"

definition alloc :: "nat \<Rightarrow> cursor" where
  "alloc n = (newUint8Array n, 0)"

definition putU8 :: "byte \<Rightarrow> cursor \<Rightarrow> cursor" where
  "putU8 b c = ((fst c)[snd c := b], snd c + 1)"

definition putU32 :: "int \<Rightarrow> cursor \<Rightarrow> cursor" where
  "putU32 v c = writeU32BEAt (fst c) (snd c) v"

definition putU64 :: "int \<Rightarrow> cursor \<Rightarrow> cursor" where
  "putU64 v c = writeU64BEAt (fst c) (snd c) v"

definition putU64Number :: "jsnum \<Rightarrow> cursor \<Rightarrow> cursor result" where
  "putU64Number v c = writeU64BENumberAt (fst c) (snd c) v"

text \<open>\<^verbatim>\<open>buffer.set(data, offset); offset += data.length\<close>\<close>

definition putBytes :: "bytes \<Rightarrow> cursor \<Rightarrow> cursor result" where
  "putBytes data c = andThen (u8set (fst c) data (snd c)) (\<lambda>b. Inr (b, snd c + length data))"

definition finish :: "cursor \<Rightarrow> bytes" where
  "finish c = fst c"

text \<open>The cursor after the bytes \<open>d\<close>, with \<open>k\<close> zero bytes still to be written.\<close>

definition Out :: "bytes \<Rightarrow> nat \<Rightarrow> cursor" where
  "Out d k = (d @ replicate k 0, length d)"

lemma alloc_Out [layout_simps]: "alloc n = Out [] n"
  by (simp add: alloc_def Out_def newUint8Array_def)

lemma finish_Out [layout_simps]: "finish (Out d 0) = d"
  by (simp add: finish_def Out_def)

lemma putU8_Out [layout_simps]: "0 < k \<Longrightarrow> putU8 b (Out d k) = Out (d @ [b]) (k - 1)"
  by (cases k) (simp_all add: putU8_def Out_def list_update_append)

lemma putBytes_Out [layout_simps]:
  "length bs \<le> k \<Longrightarrow> putBytes bs (Out d k) = Inr (Out (d @ bs) (k - length bs))"
  by (simp add: putBytes_def u8set_def Out_def)

lemma replicate4: "replicate (4 + m) (0 :: byte) = 0 # 0 # 0 # 0 # replicate m 0"
  by (simp add: numeral_eq_Suc)

lemma replicate8: "replicate (8 + m) (0 :: byte) = 0 # 0 # 0 # 0 # 0 # 0 # 0 # 0 # replicate m 0"
  by (simp add: numeral_eq_Suc)

lemma putU32_Out [layout_simps]:
  assumes "4 \<le> k"
  shows "putU32 v (Out d k) = Out (d @ be 4 v) (k - 4)"
proof -
  obtain m where "k = 4 + m" using assms le_Suc_ex by blast
  then show ?thesis
    by (simp add: putU32_def writeU32BEAt_def Out_def list_update_append be4_eq replicate4)
qed

lemma putU64_Out [layout_simps]:
  assumes "8 \<le> k"
  shows "putU64 v (Out d k) = Out (d @ be 8 v) (k - 8)"
proof -
  obtain m where "k = 8 + m" using assms le_Suc_ex by blast
  then show ?thesis
    by (simp add: putU64_def writeU64BEAt_def Out_def list_update_append be8_eq replicate8)
qed

lemma putU64Number_Out [layout_simps]:
  assumes "8 \<le> k" and "0 \<le> i" and "i \<le> maxSafeInteger"
  shows "putU64Number (JInt i) (Out d k) = Inr (Out (d @ be 8 i) (k - 8))"
proof -
  obtain m where "k = 8 + m" using assms le_Suc_ex by blast
  then show ?thesis
    using assms
    by (simp add: putU64Number_def writeU64BENumberAt_def isSafeInteger_def jsInt_def Out_def
        list_update_append be8_number_eq Let_def replicate8)
qed

lemma putU64Number_invalid [layout_simps]:
  "\<not> isSafeInteger v \<or> jsInt v < 0 \<Longrightarrow> putU64Number v c = Inl RangeError"
  by (simp add: putU64Number_def writeU64BENumberAt_def)

section \<open>Route encoding and its cache\<close>

text \<open>The length-prefixed text field of the wire format.\<close>

definition strField :: "jsstr \<Rightarrow> bytes" where
  "strField s = be 4 (int (length (utf8Encode s))) @ utf8Encode s"

definition routePayload :: "jsstr \<Rightarrow> bytes result" where
  "routePayload route =
    (let encoded = utf8Encode route; len = int (length encoded);
         buf = (newUint8Array (4 + length encoded))
           [0 := byteOf32 24 len, 1 := byteOf32 16 len, 2 := byteOf32 8 len, 3 := byteOf32 0 len]
     in u8set buf encoded 4)"

text \<open>A \<^verbatim>\<open>Map\<close> iterates in insertion order: the cache is the list of its entries.\<close>

type_synonym routeCache = "(jsstr \<times> bytes) list"

definition routeEncodingCacheMaxEntries :: nat where
  "routeEncodingCacheMaxEntries = 256"

definition getRouteEncoding :: "routeCache \<Rightarrow> jsstr \<Rightarrow> (bytes \<times> routeCache) result" where
  "getRouteEncoding cache route =
    (case map_of cache route of
       Some cached \<Rightarrow> Inr (cached, cache)
     | None \<Rightarrow> andThen (routePayload route) (\<lambda>payload.
         let kept = (if length cache \<ge> routeEncodingCacheMaxEntries then tl cache else cache)
         in Inr (payload, kept @ [(route, payload)])))"

definition cacheOk :: "routeCache \<Rightarrow> bool" where
  "cacheOk cache \<longleftrightarrow> distinct (map fst cache) \<and> length cache \<le> routeEncodingCacheMaxEntries \<and>
     (\<forall>(r, p) \<in> set cache. p = strField r)"

lemma length_strField [simp]: "length (strField s) = 4 + length (utf8Encode s)"
  by (simp add: strField_def)

lemma routePayload_eq: "routePayload route = Inr (strField route)"
  by (simp add: routePayload_def u8set_def strField_def newUint8Array_def Let_def be4_eq replicate4)

lemma getRouteEncoding_hit:
  "cacheOk cache \<Longrightarrow> map_of cache route = Some p \<Longrightarrow> p = strField route"
  by (auto simp: cacheOk_def dest: map_of_SomeD)

lemma cacheOk_Nil: "cacheOk []"
  by (simp add: cacheOk_def)

lemma cacheOk_add:
  assumes "cacheOk cache" and "map_of cache route = None"
  shows "cacheOk ((if length cache \<ge> routeEncodingCacheMaxEntries then tl cache else cache)
    @ [(route, strField route)])"
proof -
  have "route \<notin> fst ` set cache" using assms(2) by (simp add: map_of_eq_None_iff)
  moreover have "set (tl cache) \<subseteq> set cache" by (cases cache) auto
  moreover have "distinct (map fst (tl cache))"
    using assms(1) by (cases cache) (auto simp: cacheOk_def)
  ultimately show ?thesis
    using assms(1) by (auto simp: cacheOk_def routeEncodingCacheMaxEntries_def)
qed

text \<open>Every call returns the encoding of its route, whatever the cache held before.\<close>

lemma getRouteEncoding_ok:
  assumes "cacheOk cache"
  obtains cache' where "getRouteEncoding cache route = Inr (strField route, cache')"
    and "cacheOk cache'"
proof (cases "map_of cache route")
  case None
  with assms that show ?thesis
    by (simp add: getRouteEncoding_def routePayload_eq Let_def cacheOk_add)
next
  case (Some p)
  with assms that show ?thesis
    by (simp add: getRouteEncoding_def getRouteEncoding_hit)
qed

section \<open>Properties\<close>

text \<open>
  The cache of encoded routes is transparent: hit or miss, full or not, the bytes are those of a
  fresh encoding, and the cache it leaves is right again.
\<close>

theorem route_cache_transparent:
  assumes "cacheOk cache"
  shows "\<exists>cache'. getRouteEncoding cache route = Inr (strField route, cache') \<and> cacheOk cache'"
  using getRouteEncoding_ok [OF assms] by metis

lemma route_cache_transparent_witness:
  "\<exists>cache'. getRouteEncoding [([65], strField [65])] [66] = Inr (strField [66], cache') \<and> cacheOk cache'"
  by (rule route_cache_transparent) (simp add: cacheOk_def routeEncodingCacheMaxEntries_def)

end
