(* ===== verification/Reader.thy ===== *)
theory Reader
  imports Buffer
begin

text \<open>
  The bounds-checked reader that \<^verbatim>\<open>createBufferReader\<close> of \<^verbatim>\<open>src/core/buffer.ts\<close> returns: its
  buffer and offset, one function per read, the contract of a read and of a wire field as
  locales with the loops over them, and the interpretation of both for the reader's own
  operations.
\<close>

section \<open>The reader\<close>

record reader =
  internalBuffer :: bytes
  readerOffset :: nat

definition createBufferReader :: "bytes \<Rightarrow> reader" where
  "createBufferReader buffer = \<lparr>internalBuffer = buffer, readerOffset = 0\<rparr>"

definition advance :: "nat \<Rightarrow> reader \<Rightarrow> reader" where
  "advance n r = r\<lparr>readerOffset := readerOffset r + n\<rparr>"

definition readU8 :: "reader \<Rightarrow> (nat \<times> reader) result" where
  "readU8 r =
    (if readerOffset r \<ge> length (internalBuffer r) then Inl CodecError
     else Inr (unat (internalBuffer r ! readerOffset r), advance 1 r))"

definition readU16BE :: "reader \<Rightarrow> (nat \<times> reader) result" where
  "readU16BE r =
    (if readerOffset r + 2 > length (internalBuffer r) then Inl CodecError
     else Inr (push_bit 8 (unat (internalBuffer r ! readerOffset r))
                 OR unat (internalBuffer r ! (readerOffset r + 1)), advance 2 r))"

definition readU32BE :: "reader \<Rightarrow> (nat \<times> reader) result" where
  "readU32BE r =
    (if readerOffset r + 4 > length (internalBuffer r) then Inl CodecError
     else andThen (readU32BEAt (internalBuffer r) (readerOffset r)) (\<lambda>v. Inr (v, advance 4 r)))"

text \<open>Four bytes of a bigint, shifted together and masked to 32 bits.\<close>

definition quad :: "bytes \<Rightarrow> nat \<Rightarrow> nat" where
  "quad b i =
    (push_bit 24 (unat (b ! i)) OR push_bit 16 (unat (b ! (i + 1)))
       OR push_bit 8 (unat (b ! (i + 2))) OR unat (b ! (i + 3))) AND 0xffffffff"

definition readU64BE :: "reader \<Rightarrow> (nat \<times> reader) result" where
  "readU64BE r =
    (if readerOffset r + 8 > length (internalBuffer r) then Inl CodecError
     else (let high = quad (internalBuffer r) (readerOffset r);
               low = quad (internalBuffer r) (readerOffset r + 4)
           in Inr (push_bit 32 high OR low, advance 8 r)))"

definition readBytes :: "nat \<Rightarrow> reader \<Rightarrow> (bytes \<times> reader) result" where
  "readBytes count r =
    (if readerOffset r + count > length (internalBuffer r) then Inl CodecError
     else Inr (take count (drop (readerOffset r) (internalBuffer r)), advance count r))"

definition readString :: "reader \<Rightarrow> (jsstr \<times> reader) result" where
  "readString r =
    andThen (readU32BE r) (\<lambda>(len, r).
      if len = 0 then Inr ([], r)
      else if readerOffset r + len > length (internalBuffer r) then Inl CodecError
      else Inr (utf8Decode (take len (drop (readerOffset r) (internalBuffer r))), advance len r))"

definition readRoute :: "reader \<Rightarrow> (jsstr \<times> reader) result" where
  "readRoute r = readString r"

definition remainingBytes :: "reader \<Rightarrow> nat" where
  "remainingBytes r = length (internalBuffer r) - readerOffset r"

definition isEOF :: "reader \<Rightarrow> bool" where
  "isEOF r \<longleftrightarrow> readerOffset r \<ge> length (internalBuffer r)"

definition setOffset :: "int \<Rightarrow> reader \<Rightarrow> reader result" where
  "setOffset v r =
    (if v < 0 \<or> v > int (length (internalBuffer r)) then Inl CodecError
     else Inr (r\<lparr>readerOffset := nat v\<rparr>))"

definition peekU8 :: "reader \<Rightarrow> nat result" where
  "peekU8 r =
    (if readerOffset r \<ge> length (internalBuffer r) then Inl CodecError
     else Inr (unat (internalBuffer r ! readerOffset r)))"

definition remaining :: "reader \<Rightarrow> bytes" where
  "remaining r = drop (readerOffset r) (internalBuffer r)"

text \<open>A presence flag followed by the value when the flag is not zero.\<close>

definition readOptional :: "(reader \<Rightarrow> ('a \<times> reader) result) \<Rightarrow> reader \<Rightarrow> ('a option \<times> reader) result"
where
  "readOptional get r =
    andThen (readU8 r) (\<lambda>(hasValue, r).
      if hasValue = 0 then Inr (None, r)
      else andThen (get r) (\<lambda>(v, r). Inr (Some v, r)))"

text \<open>\<^verbatim>\<open>reader.readBytes(reader.readU32BE())\<close>\<close>

definition readBlob :: "reader \<Rightarrow> (bytes \<times> reader) result" where
  "readBlob r = andThen (readU32BE r) (\<lambda>(len, r). readBytes len r)"

definition readOptionalU64 :: "reader \<Rightarrow> (nat option \<times> reader) result" where
  "readOptionalU64 = readOptional readU64BE"

definition readOptionalString :: "reader \<Rightarrow> (jsstr option \<times> reader) result" where
  "readOptionalString = readOptional readString"

definition readOptionalBytes :: "reader \<Rightarrow> (bytes option \<times> reader) result" where
  "readOptionalBytes = readOptional readBlob"

text \<open>\<^verbatim>\<open>for (let i = 0; i < count; i++) items.push(read())\<close>\<close>

fun readTimes :: "nat \<Rightarrow> (reader \<Rightarrow> ('a \<times> reader) result) \<Rightarrow> reader \<Rightarrow> ('a list \<times> reader) result" where
  "readTimes 0 get r = Inr ([], r)"
| "readTimes (Suc n) get r =
    andThen (get r) (\<lambda>(x, r). andThen (readTimes n get r) (\<lambda>(xs, r). Inr (x # xs, r)))"

section \<open>A reader between what it has read and what is left\<close>

definition In :: "bytes \<Rightarrow> bytes \<Rightarrow> reader" where
  "In p t = \<lparr>internalBuffer = p @ t, readerOffset = length p\<rparr>"

definition validReader :: "reader \<Rightarrow> bool" where
  "validReader r \<longleftrightarrow> readerOffset r \<le> length (internalBuffer r)"

lemma validReader_In [simp]: "validReader (In p t)"
  by (simp add: validReader_def In_def)

lemma validReader_cases:
  assumes "validReader r"
  obtains p t where "r = In p t" and "internalBuffer r = p @ t"
proof
  show "r = In (take (readerOffset r) (internalBuffer r)) (drop (readerOffset r) (internalBuffer r))"
    using assms by (simp add: In_def validReader_def)
qed simp

lemma createBufferReader_In [reader_simps]: "createBufferReader buffer = In [] buffer"
  by (simp add: createBufferReader_def In_def)

lemma advance_In: "n = length x \<Longrightarrow> advance n (In p (x @ t)) = In (p @ x) t"
  by (simp add: advance_def In_def)

lemma isEOF_In [reader_simps]: "isEOF (In p t) \<longleftrightarrow> t = []"
  by (simp add: isEOF_def In_def)

lemma remaining_In [reader_simps]: "remaining (In p t) = t"
  by (simp add: remaining_def In_def)

lemma remainingBytes_In [reader_simps]: "remainingBytes (In p t) = length t"
  by (simp add: remainingBytes_def In_def)

lemma readU8_In [reader_simps]: "readU8 (In p (b # t)) = Inr (unat b, In (p @ [b]) t)"
  using advance_In [of 1 "[b]" p t] by (simp add: readU8_def In_def)

lemma readU8_Nil [reader_simps]: "readU8 (In p []) = Inl CodecError"
  by (simp add: readU8_def In_def)

lemma take_drop_In: "readerOffset (In p t) = length p" "internalBuffer (In p t) = p @ t"
  by (simp_all add: In_def)

lemma readU32BEAt_eq: "length p = n \<Longrightarrow> length x = 4 \<Longrightarrow> readU32BEAt (p @ x @ t) n = Inr (unbe x)"
  by (auto simp: readU32BEAt_def)

lemma readU32BE_In: "length x = 4 \<Longrightarrow> readU32BE (In p (x @ t)) = Inr (unbe x, In (p @ x) t)"
  by (simp add: readU32BE_def take_drop_In readU32BEAt_eq advance_In)

lemma readU32BE_short [reader_simps]: "length t < 4 \<Longrightarrow> readU32BE (In p t) = Inl CodecError"
  by (simp add: readU32BE_def In_def)

lemma readBytes_In: "length x = n \<Longrightarrow> readBytes n (In p (x @ t)) = Inr (x, In (p @ x) t)"
  by (simp add: readBytes_def take_drop_In advance_In)

lemma readBytes_short [reader_simps]: "length t < n \<Longrightarrow> readBytes n (In p t) = Inl CodecError"
  by (simp add: readBytes_def In_def)

lemma push_bit_or: "b < 2 ^ k \<Longrightarrow> push_bit k a OR b = a * 2 ^ k + (b :: nat)"
proof -
  assume "b < 2 ^ k"
  then have "take_bit k b = b" by (simp add: take_bit_nat_eq_self)
  then have "push_bit k a AND b = 0"
    by (metis (no_types, opaque_lifting) and_zero_eq bit_eq_iff bit_push_bit_iff bit_take_bit_iff
        bit_and_iff bit_0_eq bot_apply bot_bool_def leD)
  then show ?thesis
    by (simp add: disjunctive_add_eq_or [symmetric] push_bit_eq_mult)
qed

lemma unat_byte_less [simp]: "unat (b :: byte) < 256"
  using unsigned_less [of b] by simp

lemma unat_byte_le: "unat (b :: byte) \<le> 255"
  using unat_byte_less [of b] by linarith

lemma readU16BE_In: "length x = 2 \<Longrightarrow> readU16BE (In p (x @ t)) = Inr (unbe x, In (p @ x) t)"
proof -
  assume "length x = 2"
  then obtain a b where x: "x = [a, b]"
    by (auto simp: length_Suc_conv numeral_2_eq_2)
  have "push_bit 8 (unat a) OR unat b = unat a * 2 ^ 8 + unat b"
    by (rule push_bit_or) simp
  then show ?thesis
    using advance_In [of 2 x p t] by (simp add: readU16BE_def take_drop_In nth_append unbe_Cons x)
qed

lemma readU16BE_short [reader_simps]: "length t < 2 \<Longrightarrow> readU16BE (In p t) = Inl CodecError"
  by (simp add: readU16BE_def In_def)

lemma quad_bytes:
  fixes a b c d :: nat
  assumes "a < 256" "b < 256" "c < 256" "d < 256"
  shows "(push_bit 24 a OR push_bit 16 b OR push_bit 8 c OR d) AND 0xffffffff =
    a * 2 ^ 24 + (b * 2 ^ 16 + (c * 2 ^ 8 + d))" (is "?v AND _ = ?s")
proof -
  have "push_bit 8 c OR d = c * 2 ^ 8 + d"
    using assms by (intro push_bit_or) simp
  moreover have "push_bit 16 b OR (c * 2 ^ 8 + d) = b * 2 ^ 16 + (c * 2 ^ 8 + d)"
    using assms by (intro push_bit_or) simp
  moreover have "push_bit 24 a OR (b * 2 ^ 16 + (c * 2 ^ 8 + d)) = ?s"
    using assms by (intro push_bit_or) simp
  ultimately have v: "?v = ?s" by (simp only:)
  have m: "(0xffffffff :: nat) = mask 32" by (simp add: mask_eq_exp_minus_1)
  have "?s < 2 ^ 32" using assms by simp
  then show ?thesis by (simp only: v m flip: take_bit_eq_mask) (simp add: take_bit_nat_eq_self)
qed

lemma quad_eq:
  assumes "length x = 4"
  shows "quad (p @ x @ t) (length p) = unbe x"
proof -
  obtain a b c d where x: "x = [a, b, c, d]"
    using assms by (auto simp: length_Suc_conv numeral_eq_Suc)
  show ?thesis
    using quad_bytes [of "unat a" "unat b" "unat c" "unat d"]
    by (simp add: quad_def x nth_append unbe_Cons)
qed

lemma readU64BE_In:
  assumes "length x = 8"
  shows "readU64BE (In p (x @ t)) = Inr (unbe x, In (p @ x) t)"
proof -
  define h l where "h = take 4 x" and "l = drop 4 x"
  have x: "x = h @ l" and h: "length h = 4" and l: "length l = 4"
    using assms by (simp_all add: h_def l_def)
  have "quad (p @ x @ t) (length p) = unbe h"
    using quad_eq [of h p "l @ t"] by (simp add: x h)
  moreover have "quad (p @ x @ t) (length p + 4) = unbe l"
    using quad_eq [of l "p @ h" t] by (simp add: x h l)
  moreover have "push_bit 32 (unbe h) OR unbe l = unbe h * 2 ^ 32 + unbe l"
    using unbe_less [of l] by (intro push_bit_or) (simp add: l)
  ultimately show ?thesis
    using assms
    by (simp add: readU64BE_def take_drop_In advance_In Let_def) (simp add: x unbe_append l)
qed

lemma readU64BE_short [reader_simps]: "length t < 8 \<Longrightarrow> readU64BE (In p t) = Inl CodecError"
  by (simp add: readU64BE_def In_def)

text \<open>Reads of the fields an encoder writes.\<close>

lemma readU16BE_be [reader_simps]:
  "v < 65536 \<Longrightarrow> readU16BE (In p (be 2 (int v) @ t)) = Inr (v, In (p @ be 2 (int v)) t)"
  by (simp add: readU16BE_In)

lemma readU32BE_be [reader_simps]:
  "v < 4294967296 \<Longrightarrow> readU32BE (In p (be 4 (int v) @ t)) = Inr (v, In (p @ be 4 (int v)) t)"
  by (simp add: readU32BE_In)

lemma readU64BE_be [reader_simps]:
  "v < 18446744073709551616 \<Longrightarrow>
    readU64BE (In p (be 8 (int v) @ t)) = Inr (v, In (p @ be 8 (int v)) t)"
  by (simp add: readU64BE_In)

lemmas readU32BE_be_end [reader_simps] = readU32BE_be [where t = "[]", simplified]
lemmas readU64BE_be_end [reader_simps] = readU64BE_be [where t = "[]", simplified]

text \<open>A text field fits its length prefix when its encoding is shorter than \<open>2 ^ 32\<close> bytes.\<close>

definition wireString :: "jsstr \<Rightarrow> bool" where
  "wireString s \<longleftrightarrow> wireText s \<and> length (utf8Encode s) < 4294967296"

lemma wireString_Nil [simp]: "wireString []"
  by (simp add: wireString_def)

lemma readString_raw:
  "length (utf8Encode s) < 4294967296 \<Longrightarrow>
    readString (In p (strField s @ t)) =
      Inr (if s = [] then [] else utf8Decode (utf8Encode s), In (p @ strField s) t)"
proof -
  assume len: "length (utf8Encode s) < 4294967296"
  have "readU32BE (In p (strField s @ t)) =
      Inr (length (utf8Encode s), In (p @ be 4 (int (length (utf8Encode s)))) (utf8Encode s @ t))"
    using len by (simp add: strField_def reader_simps)
  then show ?thesis
    by (simp add: readString_def take_drop_In advance_In) (simp add: strField_def)
qed

lemma readString_field [reader_simps]:
  "wireString s \<Longrightarrow> readString (In p (strField s @ t)) = Inr (s, In (p @ strField s) t)"
  by (simp add: wireString_def readString_raw)

lemma readRoute_field [reader_simps]:
  "wireString s \<Longrightarrow> readRoute (In p (strField s @ t)) = Inr (s, In (p @ strField s) t)"
  by (simp add: readRoute_def readString_field)

lemmas readString_field_end [reader_simps] = readString_field [where t = "[]", simplified]
lemmas readRoute_field_end [reader_simps] = readRoute_field [where t = "[]", simplified]

text \<open>A length-prefixed byte field.\<close>

definition blob :: "bytes \<Rightarrow> bytes" where
  "blob bs = be 4 (int (length bs)) @ bs"

definition wireBlob :: "bytes \<Rightarrow> bool" where
  "wireBlob bs \<longleftrightarrow> length bs < 4294967296"

lemma length_blob [simp]: "length (blob bs) = 4 + length bs"
  by (simp add: blob_def)

lemma readBlob_blob [reader_simps]:
  "wireBlob bs \<Longrightarrow> readBlob (In p (blob bs @ t)) = Inr (bs, In (p @ blob bs) t)"
  by (simp add: readBlob_def blob_def wireBlob_def readU32BE_be readBytes_In)

lemmas readBlob_blob_end [reader_simps] = readBlob_blob [where t = "[]", simplified]

section \<open>The contract of a read, and of a wire field\<close>

text \<open>
  Every read keeps the buffer and moves the offset forward inside it. The laws are stated of
  one operation; optional values and counted loops inherit them.
\<close>

definition stays :: "reader \<Rightarrow> reader \<Rightarrow> bool" where
  "stays r r' \<longleftrightarrow> internalBuffer r' = internalBuffer r \<and> readerOffset r \<le> readerOffset r' \<and>
     readerOffset r' \<le> length (internalBuffer r)"

lemma stays_refl: "validReader r \<Longrightarrow> stays r r"
  by (simp add: stays_def validReader_def)

lemma stays_trans: "stays r r' \<Longrightarrow> stays r' r'' \<Longrightarrow> stays r r''"
  by (auto simp: stays_def)

lemma stays_valid: "stays r r' \<Longrightarrow> validReader r'"
  by (simp add: stays_def validReader_def)

lemma stays_advance: "readerOffset r + n \<le> length (internalBuffer r) \<Longrightarrow> stays r (advance n r)"
  by (simp add: stays_def advance_def)

locale reader_op =
  fixes get :: "reader \<Rightarrow> ('a \<times> reader) result"
  assumes get_stays: "validReader r \<Longrightarrow> get r = Inr (v, r') \<Longrightarrow> stays r r'"
begin

lemma times_stays:
  "validReader r \<Longrightarrow> readTimes n get r = Inr (vs, r') \<Longrightarrow> stays r r' \<and> length vs = n"
proof (induction n arbitrary: r vs)
  case 0
  then show ?case by (simp add: stays_refl)
next
  case (Suc n)
  then obtain x r1 xs where g: "get r = Inr (x, r1)"
    and rt: "readTimes n get r1 = Inr (xs, r')" and vs: "vs = x # xs"
    by (auto simp: andThen_eq_Inr)
  from Suc.prems(1) g have s1: "stays r r1" by (rule get_stays)
  with Suc.IH [OF stays_valid [OF s1] rt] vs show ?case
    by (auto intro: stays_trans)
qed

lemma optional_stays:
  assumes "validReader r" and "readOptional get r = Inr (v, r')"
  shows "stays r r'"
proof -
  obtain f r1 where f: "readU8 r = Inr (f, r1)"
    and rest: "(if f = 0 then Inr (None, r1)
      else andThen (get r1) (\<lambda>(v, r). Inr (Some v, r))) = Inr (v, r')"
    using assms(2) by (auto simp: readOptional_def andThen_eq_Inr)
  have s1: "stays r r1"
    using f by (auto simp: readU8_def split: if_splits intro!: stays_advance)
  show ?thesis
  proof (cases "f = 0")
    case True
    with rest s1 show ?thesis by simp
  next
    case False
    with rest obtain w where "get r1 = Inr (w, r')"
      by (auto simp: andThen_eq_Inr)
    with s1 show ?thesis
      by (blast intro: stays_trans get_stays stays_valid)
  qed
qed

end

text \<open>A field is a writer and a read that gets back what was written and stops behind it.\<close>

locale wire_field = reader_op get for get :: "reader \<Rightarrow> ('a \<times> reader) result" +
  fixes put :: "'a \<Rightarrow> bytes"
    and ok :: "'a \<Rightarrow> bool"
  assumes get_put: "ok v \<Longrightarrow> get (In p (put v @ t)) = Inr (v, In (p @ put v) t)"
begin

lemma times_put:
  "list_all ok vs \<Longrightarrow> readTimes (length vs) get (In p (concat (map put vs) @ t)) =
    Inr (vs, In (p @ concat (map put vs)) t)"
  by (induction vs arbitrary: p) (simp_all add: get_put)

lemma optional_put:
  "ok v \<Longrightarrow> readOptional get (In p (1 # put v @ t)) = Inr (Some v, In (p @ 1 # put v) t)"
  by (simp add: readOptional_def readU8_In get_put)

text \<open>Two fields that start the same bytes are equal, and so is what follows them.\<close>

lemma put_unique:
  assumes "ok v" and "ok w" and "put v @ s = put w @ t"
  shows "v = w \<and> s = t"
proof -
  have "get (In [] (put w @ t)) = Inr (v, In (put v) s)"
    using get_put [OF assms(1), of "[]" s] assms(3) by simp
  then have "v = w" using get_put [OF assms(2), of "[]" t] by simp
  with assms(3) show ?thesis by simp
qed

end

lemma optional_absent [reader_simps]:
  "readOptional get (In p (0 # t)) = Inr (None, In (p @ [0]) t)"
  by (simp add: readOptional_def readU8_In)

lemma readU8_stays: "readU8 r = Inr (v, r') \<Longrightarrow> stays r r'"
  by (auto simp: readU8_def split: if_splits intro!: stays_advance)

lemma readU16BE_stays: "readU16BE r = Inr (v, r') \<Longrightarrow> stays r r'"
  by (auto simp: readU16BE_def split: if_splits intro!: stays_advance)

lemma readU32BE_stays: "readU32BE r = Inr (v, r') \<Longrightarrow> stays r r'"
  by (auto simp: readU32BE_def andThen_eq_Inr split: if_splits intro!: stays_advance)

lemma readU64BE_stays: "readU64BE r = Inr (v, r') \<Longrightarrow> stays r r'"
  by (auto simp: readU64BE_def Let_def split: if_splits intro!: stays_advance)

interpretation u8: wire_field readU8 "\<lambda>v. [of_nat v]" "\<lambda>v. v < 256"
  by unfold_locales (auto intro: readU8_stays simp: readU8_In)

interpretation u16: wire_field readU16BE "\<lambda>v. be 2 (int v)" "\<lambda>v. v < 65536"
  by unfold_locales (auto intro: readU16BE_stays simp: readU16BE_be)

interpretation u32: wire_field readU32BE "\<lambda>v. be 4 (int v)" "\<lambda>v. v < 4294967296"
  by unfold_locales (auto intro: readU32BE_stays simp: readU32BE_be)

interpretation u64: wire_field readU64BE "\<lambda>v. be 8 (int v)" "\<lambda>v. v < 18446744073709551616"
  by unfold_locales (auto intro: readU64BE_stays simp: readU64BE_be)

lemma readBytes_stays: "readBytes n r = Inr (v, r') \<Longrightarrow> stays r r'"
  by (auto simp: readBytes_def split: if_splits intro: stays_advance)

interpretation str: wire_field readString strField wireString
proof unfold_locales
  fix r v r'
  assume valid: "validReader r" and read: "readString r = Inr (v, r')"
  then obtain len r1 where r1: "readU32BE r = Inr (len, r1)"
    and rest: "(if len = 0 then Inr ([], r1)
      else if readerOffset r1 + len > length (internalBuffer r1) then Inl CodecError
      else Inr (utf8Decode (take len (drop (readerOffset r1) (internalBuffer r1))), advance len r1))
      = Inr (v, r')"
    by (auto simp: readString_def andThen_eq_Inr)
  from valid r1 have "stays r r1" by (rule u32.get_stays)
  moreover have "stays r1 r'"
    using rest stays_refl [OF stays_valid [OF \<open>stays r r1\<close>]]
    by (auto split: if_splits intro: stays_advance)
  ultimately show "stays r r'" by (rule stays_trans)
next
  fix v p t
  assume "wireString v"
  then show "readString (In p (strField v @ t)) = Inr (v, In (p @ strField v) t)"
    by (rule readString_field)
qed

interpretation route: wire_field readRoute strField wireString
  by unfold_locales (auto simp: readRoute_def intro: str.get_stays readString_field)

interpretation blob: wire_field readBlob blob wireBlob
proof unfold_locales
  fix r v r'
  assume valid: "validReader r" and read: "readBlob r = Inr (v, r')"
  then obtain len r1 where r1: "readU32BE r = Inr (len, r1)" and rest: "readBytes len r1 = Inr (v, r')"
    by (auto simp: readBlob_def andThen_eq_Inr)
  show "stays r r'"
    using u32.get_stays [OF valid r1] readBytes_stays [OF rest] by (rule stays_trans)
next
  fix v p t
  assume "wireBlob v"
  then show "readBlob (In p (blob v @ t)) = Inr (v, In (p @ blob v) t)"
    by (rule readBlob_blob)
qed

lemmas reader_stays = u8.get_stays u16.get_stays u32.get_stays u64.get_stays str.get_stays
  route.get_stays blob.get_stays readBytes_stays u64.optional_stays str.optional_stays
  blob.optional_stays

text \<open>A read that succeeds stays in bounds whatever the reader was; the last step of a chain.\<close>

lemma success_valid: "readU32BE r = Inr (n, r1) \<Longrightarrow> validReader r"
  by (auto simp: readU32BE_def validReader_def split: if_splits)

lemma readString_stays: "readString r = Inr (v, r') \<Longrightarrow> stays r r'"
  by (rule str.get_stays) (auto simp: readString_def elim!: andThen_InrE intro: success_valid)

lemma readRoute_stays: "readRoute r = Inr (v, r') \<Longrightarrow> stays r r'"
  by (simp add: readRoute_def readString_stays)

lemma readBlob_stays: "readBlob r = Inr (v, r') \<Longrightarrow> stays r r'"
  by (rule blob.get_stays) (auto simp: readBlob_def elim!: andThen_InrE intro: success_valid)

lemmas stays_dests = readU8_stays readU16BE_stays readU32BE_stays readU64BE_stays readBytes_stays
  readString_stays readRoute_stays readBlob_stays

end
