(* ===== verification/Writer.thy ===== *)
theory Writer
  imports Reader
begin

text \<open>
  The growing buffer that \<^verbatim>\<open>createBufferWriter\<close> of \<^verbatim>\<open>src/core/buffer.ts\<close> returns. A write may
  reallocate the array; the theory shows that the writer refines appending to a byte list.
\<close>

section \<open>The writer\<close>

record bwriter =
  wbuf :: bytes
  woff :: nat

definition createBufferWriter :: "nat \<Rightarrow> bwriter" where
  "createBufferWriter capacity = \<lparr>wbuf = newUint8Array capacity, woff = 0\<rparr>"

definition ensureCapacity :: "nat \<Rightarrow> bwriter \<Rightarrow> bwriter" where
  "ensureCapacity need w =
    (if woff w + need > length (wbuf w)
     then (let newCapacity = max (length (wbuf w) * 2) (woff w + need)
           in w\<lparr>wbuf := wbuf w @ drop (length (wbuf w)) (newUint8Array newCapacity)\<rparr>)
     else w)"

text \<open>Stores of single bytes from the current offset on.\<close>

fun storeAt :: "bytes \<Rightarrow> nat \<Rightarrow> bytes \<Rightarrow> bytes" where
  "storeAt buf i [] = buf"
| "storeAt buf i (b # bs) = storeAt (buf[i := b]) (i + 1) bs"

definition store :: "bytes \<Rightarrow> bwriter \<Rightarrow> bwriter" where
  "store bs w = w\<lparr>wbuf := storeAt (wbuf w) (woff w) bs, woff := woff w + length bs\<rparr>"

definition writeU8 :: "int \<Rightarrow> bwriter \<Rightarrow> bwriter result" where
  "writeU8 v w = Inr (store [byteOf32 0 v] (ensureCapacity 1 w))"

definition writeU16BE :: "int \<Rightarrow> bwriter \<Rightarrow> bwriter result" where
  "writeU16BE v w = Inr (store [byteOf32 8 v, byteOf32 0 v] (ensureCapacity 2 w))"

definition writeU32BE :: "int \<Rightarrow> bwriter \<Rightarrow> bwriter result" where
  "writeU32BE v w =
    (let w = ensureCapacity 4 w; (buf, off) = writeU32BEAt (wbuf w) (woff w) v
     in Inr (w\<lparr>wbuf := buf, woff := off\<rparr>))"

definition writeU32LE :: "int \<Rightarrow> bwriter \<Rightarrow> bwriter result" where
  "writeU32LE v w =
    Inr (store [byteOf32 0 v, byteOf32 8 v, byteOf32 16 v, byteOf32 24 v] (ensureCapacity 4 w))"

definition u64Bytes :: "int \<Rightarrow> bytes" where
  "u64Bytes v = [byteOfBig 56 v, byteOfBig 48 v, byteOfBig 40 v, byteOfBig 32 v, byteOfBig 24 v,
    byteOfBig 16 v, byteOfBig 8 v, byteOfBig 0 v]"

definition writeU64BE :: "int \<Rightarrow> bwriter \<Rightarrow> bwriter result" where
  "writeU64BE v w = Inr (store (u64Bytes v) (ensureCapacity 8 w))"

definition writeU64BENumber :: "jsnum \<Rightarrow> bwriter \<Rightarrow> bwriter result" where
  "writeU64BENumber v w =
    (let w = ensureCapacity 8 w in
     andThen (writeU64BENumberAt (wbuf w) (woff w) v) (\<lambda>(buf, off).
     Inr (w\<lparr>wbuf := buf, woff := off\<rparr>)))"

definition writeU64LE :: "int \<Rightarrow> bwriter \<Rightarrow> bwriter result" where
  "writeU64LE v w = Inr (store (rev (u64Bytes v)) (ensureCapacity 8 w))"

definition writeBytes :: "bytes \<Rightarrow> bwriter \<Rightarrow> bwriter result" where
  "writeBytes data w =
    (let w = ensureCapacity (length data) w in
     andThen (u8set (wbuf w) data (woff w)) (\<lambda>buf.
     Inr (w\<lparr>wbuf := buf, woff := woff w + length data\<rparr>)))"

definition overwriteU32BE :: "nat \<Rightarrow> int \<Rightarrow> bwriter \<Rightarrow> bwriter result" where
  "overwriteU32BE position v w =
    (if position + 4 > length (wbuf w) then Inl CodecError
     else Inr (w\<lparr>wbuf := fst (writeU32BEAt (wbuf w) position v)\<rparr>))"

text \<open>
  A string is encoded in place behind room for its length prefix, whose bytes are stored
  afterwards. The three variants differ in the width and byte order of the prefix.
\<close>

definition writePrefixed :: "nat \<Rightarrow> (int \<Rightarrow> bytes) \<Rightarrow> jsstr \<Rightarrow> bwriter \<Rightarrow> bwriter result" where
  "writePrefixed width prefix str w =
    (let maxBytes = length str * 4;
         w = ensureCapacity (width + maxBytes) w;
         lengthOffset = woff w;
         start = lengthOffset + width;
         slice = take maxBytes (drop start (wbuf w));
         written = utf8EncodeInto str (length slice) in
     andThen (u8set (wbuf w) written start) (\<lambda>buf.
     Inr (w\<lparr>wbuf := storeAt buf lengthOffset (prefix (int (length written))),
            woff := start + length written\<rparr>)))"

definition u32Bytes :: "int \<Rightarrow> bytes" where
  "u32Bytes v = [byteOf32 24 v, byteOf32 16 v, byteOf32 8 v, byteOf32 0 v]"

definition writeString :: "jsstr \<Rightarrow> bwriter \<Rightarrow> bwriter result" where
  "writeString str w =
    (if length str = 0 then writeU32BE 0 w else writePrefixed 4 u32Bytes str w)"

definition writeStringU64 :: "jsstr \<Rightarrow> bwriter \<Rightarrow> bwriter result" where
  "writeStringU64 str w =
    (if length str = 0 then writeU64BE 0 w else writePrefixed 8 u64Bytes str w)"

definition writeStringU64LE :: "jsstr \<Rightarrow> bwriter \<Rightarrow> bwriter result" where
  "writeStringU64LE str w =
    (if length str = 0 then writeU64LE 0 w else writePrefixed 8 (\<lambda>v. rev (u64Bytes v)) str w)"

definition writeRoute :: "jsstr \<Rightarrow> bwriter \<Rightarrow> bwriter result" where
  "writeRoute route w = writeBytes (strField route) w"

definition getBuffer :: "bwriter \<Rightarrow> bytes" where
  "getBuffer w = take (woff w) (wbuf w)"

definition getLength :: "bwriter \<Rightarrow> nat" where
  "getLength w = woff w"

definition reset :: "bwriter \<Rightarrow> bwriter" where
  "reset w = w\<lparr>woff := 0\<rparr>"

definition writeOptionalU64 :: "int option \<Rightarrow> bwriter \<Rightarrow> bwriter result" where
  "writeOptionalU64 v w =
    (case v of None \<Rightarrow> writeU8 0 w
     | Some x \<Rightarrow> andThen (writeU8 1 w) (writeU64BE x))"

definition writeOptionalString :: "jsstr option \<Rightarrow> bwriter \<Rightarrow> bwriter result" where
  "writeOptionalString v w =
    (case v of None \<Rightarrow> writeU8 0 w
     | Some x \<Rightarrow> andThen (writeU8 1 w) (writeString x))"

definition writeOptionalBytes :: "bytes option \<Rightarrow> bwriter \<Rightarrow> bwriter result" where
  "writeOptionalBytes v w =
    (case v of None \<Rightarrow> writeU8 0 w
     | Some x \<Rightarrow> andThen (writeU8 1 w) (\<lambda>w.
         andThen (writeU32BE (int (length x)) w) (writeBytes x)))"

section \<open>Refinement: appending to a byte list\<close>

definition validWriter :: "bwriter \<Rightarrow> bool" where
  "validWriter w \<longleftrightarrow> woff w \<le> length (wbuf w)"

text \<open>A write that always succeeds and appends \<open>out\<close> to what the writer holds.\<close>

definition appends :: "(bwriter \<Rightarrow> bwriter result) \<Rightarrow> bytes \<Rightarrow> bool" where
  "appends write out \<longleftrightarrow>
    (\<forall>w. validWriter w \<longrightarrow>
      (\<exists>w'. write w = Inr w' \<and> validWriter w' \<and> getBuffer w' = getBuffer w @ out))"

lemma appendsI:
  assumes "\<And>d z. \<exists>w'. write \<lparr>wbuf = d @ z, woff = length d\<rparr> = Inr w' \<and> validWriter w' \<and>
    getBuffer w' = d @ out"
  shows "appends write out"
  unfolding appends_def
proof (intro allI impI)
  fix w
  assume "validWriter w"
  then have "w = \<lparr>wbuf = getBuffer w @ drop (woff w) (wbuf w), woff = length (getBuffer w)\<rparr>"
    by (simp add: getBuffer_def validWriter_def)
  with assms [of "getBuffer w" "drop (woff w) (wbuf w)"]
  show "\<exists>w'. write w = Inr w' \<and> validWriter w' \<and> getBuffer w' = getBuffer w @ out"
    by simp
qed

lemma appends_seq:
  "appends f a \<Longrightarrow> appends g b \<Longrightarrow> appends (\<lambda>w. andThen (f w) g) (a @ b)"
  unfolding appends_def by (metis andThen_Inr append.assoc)

lemma appends_Inr: "appends Inr []"
  by (simp add: appends_def)

text \<open>After room was made, at least \<open>need\<close> bytes follow the offset.\<close>

lemma ensureCapacity_room:
  obtains z' where "ensureCapacity need \<lparr>wbuf = d @ z, woff = length d\<rparr> =
    \<lparr>wbuf = d @ z', woff = length d\<rparr>" and "need \<le> length z'"
proof (cases "length z < need")
  case True
  let ?n = "drop (length (d @ z)) (newUint8Array (max (length (d @ z) * 2) (length d + need)))"
  show ?thesis
    by (rule that [of "z @ ?n"])
      (use True in \<open>simp_all add: ensureCapacity_def Let_def newUint8Array_def\<close>)
next
  case False
  then show ?thesis using that [of z] by (simp add: ensureCapacity_def)
qed

lemma storeAt_append:
  "length bs \<le> length z \<Longrightarrow> storeAt (d @ z) (length d) bs = d @ bs @ drop (length bs) z"
proof (induction bs arbitrary: d z)
  case (Cons b bs)
  then obtain y ys where z: "z = y # ys" by (cases z) auto
  have "storeAt ((d @ [b]) @ ys) (length (d @ [b])) bs = (d @ [b]) @ bs @ drop (length bs) ys"
    by (rule Cons.IH) (use Cons.prems z in simp)
  with z show ?case by (simp add: list_update_append)
qed simp

lemma appends_store:
  "length bs = n \<Longrightarrow> appends (\<lambda>w. Inr (store bs (ensureCapacity n w))) bs"
proof (rule appendsI)
  fix d z
  assume n: "length bs = n"
  obtain z' where "ensureCapacity n \<lparr>wbuf = d @ z, woff = length d\<rparr> =
      \<lparr>wbuf = d @ z', woff = length d\<rparr>" and "n \<le> length z'"
    by (rule ensureCapacity_room)
  with n show "\<exists>w'. Inr (store bs (ensureCapacity n \<lparr>wbuf = d @ z, woff = length d\<rparr>)) = Inr w' \<and>
      validWriter w' \<and> getBuffer w' = d @ bs"
    by (simp add: store_def storeAt_append validWriter_def getBuffer_def)
qed

lemma u32Bytes_eq: "u32Bytes v = be 4 v"
  by (simp add: u32Bytes_def be4_eq)

lemma u64Bytes_eq: "u64Bytes v = be 8 v"
  by (simp add: u64Bytes_def be8_eq)

lemma be1_eq: "be 1 v = [byteOf32 0 v]"
  by (simp add: byteOf32_eq)

lemma be2_eq: "be 2 v = [byteOf32 8 v, byteOf32 0 v]"
  by (simp add: byteOf32_eq numeral_eq_Suc)

lemma suc_offsets: "k + 3 = Suc (Suc (Suc k))" "k + 4 = Suc (Suc (Suc (Suc k)))"
  "k + 5 = Suc (Suc (Suc (Suc (Suc k))))" "k + 6 = Suc (Suc (Suc (Suc (Suc (Suc k)))))"
  "k + 7 = Suc (Suc (Suc (Suc (Suc (Suc (Suc k))))))"
  by simp_all

lemma writeU32BEAt_storeAt: "writeU32BEAt buf i v = (storeAt buf i (be 4 v), i + 4)"
  by (simp add: writeU32BEAt_def be4_eq suc_offsets)

lemma writeU64BENumberAt_storeAt:
  "0 \<le> i \<Longrightarrow> i \<le> maxSafeInteger \<Longrightarrow>
    writeU64BENumberAt buf k (JInt i) = Inr (storeAt buf k (be 8 i), k + 8)"
  by (simp add: writeU64BENumberAt_def isSafeInteger_def jsInt_def Let_def be8_number_eq suc_offsets)

lemma appends_U8: "appends (writeU8 v) (be 1 v)"
  unfolding writeU8_def be1_eq by (rule appends_store) simp

lemma appends_U16BE: "appends (writeU16BE v) (be 2 v)"
  unfolding writeU16BE_def be2_eq by (rule appends_store) simp

lemma appends_U32BE: "appends (writeU32BE v) (be 4 v)"
proof -
  have "writeU32BE v = (\<lambda>w. Inr (store (be 4 v) (ensureCapacity 4 w)))"
    by (rule ext) (simp add: writeU32BE_def writeU32BEAt_storeAt store_def Let_def)
  then show ?thesis by (simp add: appends_store)
qed

lemma appends_U32LE: "appends (writeU32LE v) (rev (be 4 v))"
  unfolding writeU32LE_def be4_eq by (simp add: appends_store)

lemma appends_U64BE: "appends (writeU64BE v) (be 8 v)"
  unfolding writeU64BE_def u64Bytes_eq by (rule appends_store) simp

lemma appends_U64LE: "appends (writeU64LE v) (rev (be 8 v))"
  unfolding writeU64LE_def u64Bytes_eq by (rule appends_store) simp

lemma appends_U64BENumber:
  assumes "0 \<le> i" and "i \<le> maxSafeInteger"
  shows "appends (writeU64BENumber (JInt i)) (be 8 i)"
proof -
  have "writeU64BENumber (JInt i) = (\<lambda>w. Inr (store (be 8 i) (ensureCapacity 8 w)))"
    by (rule ext)
      (simp add: writeU64BENumber_def writeU64BENumberAt_storeAt assms store_def Let_def)
  then show ?thesis by (simp add: appends_store)
qed

lemma appends_Bytes: "appends (writeBytes bs) bs"
proof (rule appendsI)
  fix d z
  obtain z' where "ensureCapacity (length bs) \<lparr>wbuf = d @ z, woff = length d\<rparr> =
      \<lparr>wbuf = d @ z', woff = length d\<rparr>" and "length bs \<le> length z'"
    by (rule ensureCapacity_room)
  then show "\<exists>w'. writeBytes bs \<lparr>wbuf = d @ z, woff = length d\<rparr> = Inr w' \<and> validWriter w' \<and>
      getBuffer w' = d @ bs"
    by (simp add: writeBytes_def u8set_def validWriter_def getBuffer_def)
qed

lemma appends_prefixed:
  assumes "\<And>v. length (prefix v) = width"
  shows "appends (writePrefixed width prefix s)
    (prefix (int (length (utf8Encode s))) @ utf8Encode s)"
proof (rule appendsI)
  fix d z
  let ?e = "utf8Encode s"
  obtain z' where room: "ensureCapacity (width + length s * 4) \<lparr>wbuf = d @ z, woff = length d\<rparr> =
      \<lparr>wbuf = d @ z', woff = length d\<rparr>" and le: "width + length s * 4 \<le> length z'"
    by (rule ensureCapacity_room)
  have "length ?e \<le> 4 * length s" by (rule length_utf8Encode)
  with le have fits: "width + length ?e \<le> length z'" by linarith
  define y where "y = take width z' @ ?e @ drop (width + length ?e) z'"
  have w: "utf8EncodeInto s (min (length z' - width) (length s * 4)) = ?e"
    by (rule utf8EncodeInto_enough) (use le in linarith)
  have set: "u8set (d @ z') ?e (length d + width) = Inr (d @ y)"
    using fits by (simp add: u8set_def y_def)
  have st: "storeAt (d @ y) (length d) (prefix v) = d @ prefix v @ drop width y" for v
    using storeAt_append [of "prefix v" y d] le assms [of v] by (simp add: y_def)
  have "drop width y = ?e @ drop (width + length ?e) z'"
    using le by (simp add: y_def)
  then show "\<exists>w'. writePrefixed width prefix s \<lparr>wbuf = d @ z, woff = length d\<rparr> = Inr w' \<and>
      validWriter w' \<and> getBuffer w' = d @ prefix (int (length ?e)) @ ?e"
    by (simp add: writePrefixed_def room w set st validWriter_def getBuffer_def assms Let_def)
qed

lemma appends_String: "appends (writeString s) (strField s)"
proof (cases "s = []")
  case True
  then have "writeString s = writeU32BE 0" by (auto simp: writeString_def)
  then show ?thesis using appends_U32BE [of 0] True by (simp add: strField_def)
next
  case False
  then have "writeString s = writePrefixed 4 u32Bytes s" by (auto simp: writeString_def)
  then show ?thesis
    using appends_prefixed [of u32Bytes 4 s] by (simp add: strField_def u32Bytes_eq)
qed

lemma appends_StringU64:
  "appends (writeStringU64 s) (be 8 (int (length (utf8Encode s))) @ utf8Encode s)"
proof (cases "s = []")
  case True
  then have "writeStringU64 s = writeU64BE 0" by (auto simp: writeStringU64_def)
  then show ?thesis using appends_U64BE [of 0] True by simp
next
  case False
  then have "writeStringU64 s = writePrefixed 8 u64Bytes s" by (auto simp: writeStringU64_def)
  then show ?thesis using appends_prefixed [of u64Bytes 8 s] by (simp add: u64Bytes_eq)
qed

lemma appends_StringU64LE:
  "appends (writeStringU64LE s) (rev (be 8 (int (length (utf8Encode s)))) @ utf8Encode s)"
proof (cases "s = []")
  case True
  then have "writeStringU64LE s = writeU64LE 0" by (auto simp: writeStringU64LE_def)
  then show ?thesis using appends_U64LE [of 0] True by simp
next
  case False
  then have "writeStringU64LE s = writePrefixed 8 (\<lambda>v. rev (u64Bytes v)) s"
    by (auto simp: writeStringU64LE_def)
  then show ?thesis
    using appends_prefixed [of "\<lambda>v. rev (u64Bytes v)" 8 s] by (simp add: u64Bytes_eq)
qed

lemma appends_Route: "appends (writeRoute s) (strField s)"
  unfolding writeRoute_def by (rule appends_Bytes)

lemma be1_small: "be 1 0 = [0]" "be 1 1 = [1]"
  by simp_all

text \<open>The optional fields: a presence byte, then the value.\<close>

definition optField :: "('a \<Rightarrow> bytes) \<Rightarrow> 'a option \<Rightarrow> bytes" where
  "optField put v = (case v of None \<Rightarrow> [0] | Some x \<Rightarrow> 1 # put x)"

lemma appends_flag: "appends f a \<Longrightarrow> appends (\<lambda>w. andThen (writeU8 1 w) f) (1 # a)"
  using appends_seq [OF appends_U8 [of 1], of f a] by simp

lemma appends_OptionalU64: "appends (writeOptionalU64 v) (optField (be 8) v)"
proof (cases v)
  case None
  then show ?thesis
    using appends_U8 [of 0] by (simp add: optField_def writeOptionalU64_def [abs_def])
next
  case (Some x)
  then show ?thesis
    using appends_flag [OF appends_U64BE] by (simp add: optField_def writeOptionalU64_def [abs_def])
qed

lemma appends_OptionalString: "appends (writeOptionalString v) (optField strField v)"
proof (cases v)
  case None
  then show ?thesis
    using appends_U8 [of 0] by (simp add: optField_def writeOptionalString_def [abs_def])
next
  case (Some x)
  then show ?thesis
    using appends_flag [OF appends_String]
    by (simp add: optField_def writeOptionalString_def [abs_def])
qed

lemma appends_blob:
  "appends (\<lambda>w. andThen (writeU32BE (int (length x)) w) (writeBytes x)) (blob x)"
  unfolding blob_def by (intro appends_seq appends_U32BE appends_Bytes)

lemma appends_OptionalBytes: "appends (writeOptionalBytes v) (optField blob v)"
proof (cases v)
  case None
  then show ?thesis
    using appends_U8 [of 0] by (simp add: optField_def writeOptionalBytes_def [abs_def])
next
  case (Some x)
  then show ?thesis
    using appends_flag [OF appends_blob]
    by (simp add: optField_def writeOptionalBytes_def [abs_def])
qed

lemmas appends_rules = appends_Inr appends_U8 appends_U16BE appends_U32BE appends_U64BE appends_Bytes
  appends_String appends_Route appends_OptionalU64 appends_OptionalString appends_OptionalBytes

lemma validWriter_create: "validWriter (createBufferWriter n)"
  by (simp add: validWriter_def createBufferWriter_def)

lemma getBuffer_create [simp]: "getBuffer (createBufferWriter n) = []"
  by (simp add: getBuffer_def createBufferWriter_def)

text \<open>A program of writes on a fresh writer leaves exactly the appended bytes.\<close>

lemma appends_run:
  assumes "appends f out"
  shows "andThen (f (createBufferWriter n)) (\<lambda>w. Inr (getBuffer w)) = Inr out"
proof -
  from assms validWriter_create [of n] obtain w' where "f (createBufferWriter n) = Inr w'"
    and "getBuffer w' = getBuffer (createBufferWriter n) @ out"
    unfolding appends_def by blast
  then show ?thesis by simp
qed

section \<open>Properties\<close>

text \<open>
  A string written by the growing writer, whatever its initial capacity, is read back by the
  reader, which then stands at the end.
\<close>

theorem string_written_is_read:
  assumes "writeString s (createBufferWriter n) = Inr w" and "wireString s"
  shows "\<exists>r. readString (createBufferReader (getBuffer w)) = Inr (s, r) \<and> isEOF r"
proof -
  have "getBuffer w = strField s" using appends_run [OF appends_String, of s n] assms(1) by simp
  then have "readString (createBufferReader (getBuffer w)) = Inr (s, In (strField s) [])"
    using str.get_put [OF assms(2), of "[]" "[]"] by (simp add: createBufferReader_In)
  then show ?thesis by (simp add: isEOF_In)
qed

lemma string_written_is_read_witness:
  "\<exists>w r. writeString [65, 66] (createBufferWriter 1) = Inr w \<and>
    readString (createBufferReader (getBuffer w)) = Inr ([65, 66], r) \<and> isEOF r"
proof -
  have "wireString [65, 66]"
    using length_utf8Encode [of "[65, 66]"]
    by (simp add: wireString_def wireText_def bomFree_def isHigh_def isLow_def)
  moreover obtain w where "writeString [65, 66] (createBufferWriter 1) = Inr w"
    using appends_String [of "[65, 66]"] validWriter_create unfolding appends_def by blast
  ultimately show ?thesis using string_written_is_read by blast
qed

end
