(* ===== verification/Frame.thy ===== *)
theory Frame
  imports Writer
begin

text \<open>
  The fixed message header and the control messages of \<^verbatim>\<open>src/frame/codec.ts\<close>, the parser that
  reassembles messages from transport chunks, and the message identifiers of
  \<^verbatim>\<open>src/frame/types.ts\<close> the clients dispatch on.
\<close>

section \<open>Views on a buffer\<close>

text \<open>\<^verbatim>\<open>DataView\<close> accesses of \<open>n\<close> bytes, big-endian, a \<^verbatim>\<open>RangeError\<close> out of bounds.\<close>

definition setUint :: "nat \<Rightarrow> bytes \<Rightarrow> nat \<Rightarrow> int \<Rightarrow> bytes result" where
  "setUint n buffer off v = u8set buffer (be n v) off"

definition getUint :: "nat \<Rightarrow> bytes \<Rightarrow> nat \<Rightarrow> nat result" where
  "getUint n buffer off =
    (if off + n > length buffer then Inl RangeError else Inr (unbe (take n (drop off buffer))))"

section \<open>The header\<close>

abbreviation HEADER_LENGTH :: nat where
  "HEADER_LENGTH \<equiv> 15"

definition DEFAULT_MAX_MESSAGE_BYTES :: nat where
  "DEFAULT_MAX_MESSAGE_BYTES = 1024 * 1024"

definition MAX_U64 :: int where
  "MAX_U64 = 0xffffffffffffffff"

record frame =
  frameType :: nat
  frameFlags :: nat
  frameCorrelation :: nat
  framePayload :: bytes

definition encodeFrame :: "jsnum \<Rightarrow> bytes \<Rightarrow> jsnum option \<Rightarrow> int option \<Rightarrow> bytes result" where
  "encodeFrame mtype pl flagsOpt corrOpt =
    (if \<not> isInteger mtype \<or> jsInt mtype < 0 \<or> jsInt mtype > 0xffff then Inl CodecError
     else (let fl = (case flagsOpt of None \<Rightarrow> JInt 0 | Some f \<Rightarrow> f);
               corr = (case corrOpt of None \<Rightarrow> 0 | Some c \<Rightarrow> c) in
       if \<not> isInteger fl \<or> jsInt fl < 0 \<or> jsInt fl > 0xff \<or> jsInt fl AND 0xf8 \<noteq> 0
         then Inl CodecError
       else if corr < 0 \<or> corr > MAX_U64 then Inl CodecError
       else if length pl + HEADER_LENGTH > DEFAULT_MAX_MESSAGE_BYTES then Inl CodecError
       else
         andThen (setUint 2 (newUint8Array (HEADER_LENGTH + length pl)) 0 (jsInt mtype)) (\<lambda>b.
         andThen (setUint 1 b 2 (jsInt fl)) (\<lambda>b.
         andThen (setUint 8 b 3 corr) (\<lambda>b.
         andThen (setUint 4 b 11 (int (length pl))) (\<lambda>b.
         u8set b pl HEADER_LENGTH))))))"

definition decodeFrame :: "bytes \<Rightarrow> nat \<Rightarrow> frame result" where
  "decodeFrame fr maxMessageBytes =
    (if length fr < HEADER_LENGTH then Inl CodecError
     else
       andThen (getUint 2 fr 0) (\<lambda>mtype.
       andThen (getUint 1 fr 2) (\<lambda>fl.
       if fl AND 0xf8 \<noteq> 0 then Inl CodecError
       else
         andThen (getUint 8 fr 3) (\<lambda>corr.
         andThen (getUint 4 fr 11) (\<lambda>payloadLength.
         if payloadLength + HEADER_LENGTH > maxMessageBytes then Inl CodecError
         else if length fr - HEADER_LENGTH \<noteq> payloadLength then Inl CodecError
         else Inr \<lparr>frameType = mtype, frameFlags = fl, frameCorrelation = corr,
                   framePayload = drop HEADER_LENGTH fr\<rparr>)))))"

definition withCorrelation :: "bytes \<Rightarrow> int \<Rightarrow> bytes result" where
  "withCorrelation fr corr =
    (if corr \<le> 0 \<or> corr > MAX_U64 then Inl CodecError
     else if length fr < HEADER_LENGTH then Inl CodecError
     else setUint 8 fr 3 corr)"

definition calculateFrameSize :: "nat \<Rightarrow> nat \<Rightarrow> nat" where
  "calculateFrameSize mtype payloadLength = HEADER_LENGTH + payloadLength"

section \<open>Control messages\<close>

definition encodeConnect :: "jsstr \<Rightarrow> jsstr \<Rightarrow> jsstr \<Rightarrow> bytes result" where
  "encodeConnect jwt serviceName clientBuild =
    andThen (andThen (writeU16BE 3 (createBufferWriter 4096)) (\<lambda>w.
      andThen (writeU16BE 3 w) (\<lambda>w.
      andThen (writeU32BE 0 w) (\<lambda>w.
      andThen (writeString jwt w) (\<lambda>w.
      andThen (writeString serviceName w) (\<lambda>w.
      writeString clientBuild w)))))) (\<lambda>w. Inr (getBuffer w))"

record hello =
  helloVersion :: nat
  helloCapabilities :: nat
  helloMaxMessageBytes :: nat
  helloMaxInFlight :: nat
  helloSessionId :: nat

definition decodeHello :: "bytes \<Rightarrow> hello result" where
  "decodeHello pl =
    (if length pl \<noteq> 2 + 4 + 4 + 4 + 8 then Inl CodecError
     else
       andThen (getUint 2 pl 0) (\<lambda>v.
       andThen (getUint 4 pl 2) (\<lambda>caps.
       andThen (getUint 4 pl 6) (\<lambda>maxBytes.
       andThen (getUint 4 pl 10) (\<lambda>inFlight.
       andThen (getUint 8 pl 14) (\<lambda>session.
       Inr \<lparr>helloVersion = v, helloCapabilities = caps, helloMaxMessageBytes = maxBytes,
             helloMaxInFlight = inFlight, helloSessionId = session\<rparr>))))))"

record connectRejected =
  rejectCode :: nat
  rejectMessage :: jsstr

definition decodeConnectRejected :: "bytes \<Rightarrow> connectRejected result" where
  "decodeConnectRejected pl =
    andThen (readU16BE (createBufferReader pl)) (\<lambda>(code, r).
    andThen (readString r) (\<lambda>(msg, r).
    if \<not> isEOF r then Inl CodecError
    else Inr \<lparr>rejectCode = code, rejectMessage = msg\<rparr>))"

record goAway =
  goAwayCode :: nat
  goAwayGraceMs :: nat
  goAwayReason :: jsstr

definition decodeGoAway :: "bytes \<Rightarrow> goAway result" where
  "decodeGoAway pl =
    andThen (readU16BE (createBufferReader pl)) (\<lambda>(code, r).
    andThen (readU32BE r) (\<lambda>(grace, r).
    andThen (readString r) (\<lambda>(text, r).
    if \<not> isEOF r then Inl CodecError
    else Inr \<lparr>goAwayCode = code, goAwayGraceMs = grace, goAwayReason = text\<rparr>)))"

section \<open>The frame parser\<close>

record frameParser =
  pbuffer :: bytes
  pmax :: nat

definition createFrameParser :: "nat \<Rightarrow> frameParser" where
  "createFrameParser m = \<lparr>pbuffer = [], pmax = m\<rparr>"

text \<open>
  A call may throw after it has stored the chunk, so it returns its outcome beside the next
  state.
\<close>

definition parseFrames :: "bytes \<Rightarrow> frameParser \<Rightarrow> frame list result \<times> frameParser" where
  "parseFrames chunk p =
    (if length chunk > 0 \<and> length (pbuffer p) + length chunk > pmax p
     then (Inl CodecError, p)
     else (let p = (if length chunk > 0 then p\<lparr>pbuffer := pbuffer p @ chunk\<rparr> else p);
               buf = pbuffer p in
       if length buf < HEADER_LENGTH then (Inr [], p)
       else (case getUint 4 buf 11 of
         Inl e \<Rightarrow> (Inl e, p)
       | Inr payloadLength \<Rightarrow>
           (let frameLength = HEADER_LENGTH + payloadLength in
            if frameLength > pmax p then (Inl CodecError, p)
            else if length buf < frameLength then (Inr [], p)
            else if length buf > frameLength then (Inl CodecError, p)
            else (andThen (decodeFrame buf (pmax p)) (\<lambda>f. Inr [f]), p\<lparr>pbuffer := []\<rparr>)))))"

datatype pendingState = PType | PLength | PPayload

record pendingFrameInfo =
  hasPending :: bool
  bufferedBytes :: nat
  pstate :: pendingState
  pendingType :: "nat option"
  payloadTotal :: "nat option"
  payloadBytesRead :: "nat option"
  payloadBytesRemaining :: "nat option"

definition getPendingFrameInfo :: "frameParser \<Rightarrow> pendingFrameInfo result" where
  "getPendingFrameInfo p =
    (let buf = pbuffer p in
     if length buf = 0
     then Inr \<lparr>hasPending = False, bufferedBytes = 0, pstate = PType, pendingType = None,
       payloadTotal = None, payloadBytesRead = None, payloadBytesRemaining = None\<rparr>
     else if length buf < HEADER_LENGTH
     then Inr \<lparr>hasPending = True, bufferedBytes = length buf,
       pstate = (if length buf < 2 then PType else PLength),
       pendingType = (if length buf \<ge> 2
         then Some (push_bit 8 (unat (buf ! 0)) OR unat (buf ! 1)) else None),
       payloadTotal = None, payloadBytesRead = None, payloadBytesRemaining = None\<rparr>
     else
       andThen (getUint 4 buf 11) (\<lambda>total.
       andThen (getUint 2 buf 0) (\<lambda>mtype.
       let got = length buf - HEADER_LENGTH in
       Inr \<lparr>hasPending = True, bufferedBytes = length buf, pstate = PPayload,
         pendingType = Some mtype, payloadTotal = Some total, payloadBytesRead = Some got,
         payloadBytesRemaining = Some (nat (max 0 (int total - int got)))\<rparr>)))"

definition resetParser :: "frameParser \<Rightarrow> frameParser" where
  "resetParser p = p\<lparr>pbuffer := []\<rparr>"

definition setMaxMessageBytes :: "jsnum \<Rightarrow> frameParser \<Rightarrow> frameParser result" where
  "setMaxMessageBytes v p =
    (if \<not> isInteger v \<or> jsInt v < int HEADER_LENGTH then Inl CodecError
     else Inr (p\<lparr>pmax := nat (jsInt v)\<rparr>))"

text \<open>A receive loop: the chunks of a connection in order, up to the first throw.\<close>

fun feed :: "bytes list \<Rightarrow> frameParser \<Rightarrow> frame list result \<times> frameParser" where
  "feed [] p = (Inr [], p)"
| "feed (c # cs) p =
    (case parseFrames c p of
       (Inl e, p') \<Rightarrow> (Inl e, p')
     | (Inr fs, p') \<Rightarrow>
         (case feed cs p' of
            (Inl e, p'') \<Rightarrow> (Inl e, p'')
          | (Inr gs, p'') \<Rightarrow> (Inr (fs @ gs), p'')))"

section \<open>Message identifiers\<close>

definition routeDomain :: "nat \<Rightarrow> string" where
  "routeDomain t =
    (if t \<ge> 100 \<and> t \<le> 199 then ''kv''
     else if t \<ge> 200 \<and> t \<le> 299 then ''queue''
     else if t \<ge> 300 \<and> t \<le> 399 then ''rpc''
     else if t \<ge> 400 \<and> t \<le> 499 then ''lease''
     else if t \<ge> 500 \<and> t \<le> 599 then ''notice''
     else if t \<ge> 600 \<and> t \<le> 699 then ''stream''
     else if t \<ge> 700 \<and> t \<le> 799 then ''schedule''
     else ''unknown'')"

definition NOTIFICATION_TYPES :: "nat set" where
  "NOTIFICATION_TYPES = {111, 209, 409, 504, 609, 705}"

section \<open>Lemmas\<close>

text \<open>The bytes of a message: header fields, then the payload.\<close>

definition frameBytes :: "int \<Rightarrow> int \<Rightarrow> int \<Rightarrow> bytes \<Rightarrow> bytes" where
  "frameBytes mtype fl corr pl =
    be 2 mtype @ be 1 fl @ be 8 corr @ be 4 (int (length pl)) @ pl"

lemma length_frameBytes [simp]: "length (frameBytes t f c pl) = 15 + length pl"
  by (simp add: frameBytes_def del: be.simps)

text \<open>A write into the zeros behind what has been written so far.\<close>

lemma setUint_zeros:
  "length d = i \<Longrightarrow> n \<le> k \<Longrightarrow>
    setUint n (d @ replicate k 0) i v = Inr ((d @ be n v) @ replicate (k - n) 0)"
  by (simp add: setUint_def u8set_def)

lemma getUint_at:
  "length d = i \<Longrightarrow> length x = n \<Longrightarrow> getUint n (d @ x @ t) i = Inr (unbe x)"
  by (auto simp: getUint_def)

lemma header_writes:
  "andThen (setUint 2 (newUint8Array (15 + length pl)) 0 t) (\<lambda>b.
   andThen (setUint 1 b 2 f) (\<lambda>b.
   andThen (setUint 8 b 3 c) (\<lambda>b.
   andThen (setUint 4 b 11 (int (length pl))) (\<lambda>b. u8set b pl 15)))) =
   Inr (frameBytes t f c pl)"
proof -
  have "setUint 2 (newUint8Array (15 + length pl)) 0 t =
      Inr (be 2 t @ replicate (13 + length pl) 0)"
    using setUint_zeros [of "[]" 0 2 "15 + length pl" t] by (simp add: newUint8Array_def)
  then show ?thesis
    by (simp add: setUint_zeros u8set_def frameBytes_def del: be.simps One_nat_def append_assoc)
qed

lemma flag_mask_small: "0 \<le> f \<Longrightarrow> f < 8 \<Longrightarrow> f AND 0xf8 = (0 :: int)"
proof -
  assume "0 \<le> f" and "f < 8"
  then consider "f = 0" | "f = 1" | "f = 2" | "f = 3" | "f = 4" | "f = 5" | "f = 6" | "f = 7"
    by linarith
  then show ?thesis by cases simp_all
qed

lemma flag_mask_le:
  assumes "0 \<le> f" and "f \<le> 0xff" and "f AND 0xf8 = (0 :: int)"
  shows "f < 8"
proof -
  have m: "(0xff :: int) = mask 8" "(0xf8 :: int) = push_bit 3 (mask 5)"
    by (simp_all add: mask_eq_exp_minus_1 push_bit_eq_mult)
  have "f = take_bit 8 f" using assms(1,2) by (simp add: take_bit_int_eq_self)
  also have "\<dots> = take_bit 3 f"
  proof (rule bit_eqI)
    fix n
    have "\<not> (bit f n \<and> 3 \<le> n \<and> n - 3 < 5)"
      using arg_cong [OF assms(3), of "\<lambda>x. bit x n"]
      unfolding m by (auto simp: bit_and_iff bit_push_bit_iff bit_mask_iff)
    then show "bit (take_bit 8 f) n = bit (take_bit 3 f) n"
      by (auto simp: bit_take_bit_iff)
  qed
  also have "\<dots> < 8" using take_bit_int_less_exp [of 3 f] by simp
  finally show ?thesis .
qed

text \<open>The arguments \<^verbatim>\<open>encodeFrame\<close> accepts: the flag bits above bit 2 are reserved.\<close>

definition frameArgs :: "int \<Rightarrow> int \<Rightarrow> int \<Rightarrow> bytes \<Rightarrow> bool" where
  "frameArgs t f c pl \<longleftrightarrow> 0 \<le> t \<and> t \<le> 0xffff \<and> 0 \<le> f \<and> f < 8 \<and> 0 \<le> c \<and> c \<le> MAX_U64 \<and>
     length pl + HEADER_LENGTH \<le> DEFAULT_MAX_MESSAGE_BYTES"

lemma encodeFrame_int:
  "encodeFrame (JInt t) pl (Some (JInt f)) (Some c) =
    (if frameArgs t f c pl then Inr (frameBytes t f c pl) else Inl CodecError)"
proof (cases "frameArgs t f c pl")
  case True
  then show ?thesis
    using flag_mask_small [of f]
    by (simp add: encodeFrame_def frameArgs_def jsInt_def header_writes
        del: One_nat_def)
next
  case False
  then show ?thesis
    using flag_mask_le [of f]
    by (auto simp: encodeFrame_def frameArgs_def jsInt_def Let_def)
qed

lemma frameBytes_type: "getUint 2 (frameBytes t f c pl) 0 = Inr (unbe (be 2 t))"
  using getUint_at [of "[]" 0 "be 2 t" 2] by (simp add: frameBytes_def)

lemma frameBytes_flags: "getUint 1 (frameBytes t f c pl) 2 = Inr (unbe (be 1 f))"
  using getUint_at [of "be 2 t" 2 "be 1 f" 1] by (simp only: frameBytes_def length_be)

lemma frameBytes_correlation: "getUint 8 (frameBytes t f c pl) 3 = Inr (unbe (be 8 c))"
  using getUint_at [of "be 2 t @ be 1 f" 3 "be 8 c" 8]
  by (simp only: frameBytes_def length_be length_append append_assoc)

lemma frameBytes_length: "getUint 4 (frameBytes t f c pl) 11 = Inr (unbe (be 4 (int (length pl))))"
  using getUint_at [of "be 2 t @ be 1 f @ be 8 c" 11 "be 4 (int (length pl))" 4]
  by (simp only: frameBytes_def length_be length_append append_assoc)

lemma frameBytes_payload: "drop 15 (frameBytes t f c pl) = pl"
  by (simp add: frameBytes_def)

lemmas frameBytes_fields = frameBytes_type frameBytes_flags frameBytes_correlation
  frameBytes_length frameBytes_payload

lemma nat_flag_mask: "f < 8 \<Longrightarrow> f AND 0xf8 = (0 :: nat)"
proof -
  assume "f < 8"
  then have "int f AND 0xf8 = 0" by (intro flag_mask_small) simp_all
  then have "int (f AND 0xf8) = 0" by (simp add: of_nat_and_eq)
  then show ?thesis by simp
qed

lemma nat_flag_mask_le: "f < 256 \<Longrightarrow> f AND 0xf8 = (0 :: nat) \<Longrightarrow> f < 8"
proof -
  assume "f < 256" and "f AND 0xf8 = 0"
  then have "int (f AND 0xf8) = 0" by simp
  then have "int f AND 0xf8 = 0" by (simp add: of_nat_and_eq)
  with \<open>f < 256\<close> show ?thesis using flag_mask_le [of "int f"] by simp
qed

text \<open>The header values the wire can carry.\<close>

definition wireHeader :: "nat \<Rightarrow> nat \<Rightarrow> nat \<Rightarrow> bytes \<Rightarrow> bool" where
  "wireHeader t f c pl \<longleftrightarrow> t < 65536 \<and> f < 8 \<and> c < 18446744073709551616 \<and>
     length pl < 4294967296"

lemma unbe_be1: "f < 256 \<Longrightarrow> unbe (be 1 (int f)) = f"
  by (rule unbe_be) simp

lemma decodeFrame_frameBytes:
  assumes "wireHeader t f c pl"
  shows "decodeFrame (frameBytes (int t) (int f) (int c) pl) m =
    (if length pl + HEADER_LENGTH > m then Inl CodecError
     else Inr \<lparr>frameType = t, frameFlags = f, frameCorrelation = c, framePayload = pl\<rparr>)"
  using assms nat_flag_mask [of f]
  by (simp add: decodeFrame_def frameBytes_fields wireHeader_def unbe_be1 del: One_nat_def)

lemma frameBytes_unique:
  assumes "15 \<le> length b" and "length b = 15 + unbe (take 4 (drop 11 b))"
  shows "b = frameBytes (int (unbe (take 2 b))) (int (unbe (take 1 (drop 2 b))))
    (int (unbe (take 8 (drop 3 b)))) (drop 15 b)"
proof -
  have "b = take 2 b @ take 1 (drop 2 b) @ take 8 (drop 3 b) @ take 4 (drop 11 b) @ drop 15 b"
  proof -
    have step: "take n (drop i b) @ drop j b = drop i b" if "j = i + n" for i j n
      using that by (metis add.commute append_take_drop_id drop_drop)
    have "take 1 (drop 2 b) @ drop 3 b = drop 2 b" "take 8 (drop 3 b) @ drop 11 b = drop 3 b"
      "take 4 (drop 11 b) @ drop 15 b = drop 11 b"
      by (rule step, simp)+
    then show ?thesis by (simp only: append_take_drop_id)
  qed
  moreover have "be 4 (int (length (drop 15 b))) = take 4 (drop 11 b)"
  proof -
    have "length (drop 15 b) = unbe (take 4 (drop 11 b))"
      using assms(2) by (simp only: length_drop)
    moreover have "length (take 4 (drop 11 b)) = 4" using assms(1) by simp
    ultimately show ?thesis by (simp only: be_unbe)
  qed
  moreover have "be 2 (int (unbe (take 2 b))) = take 2 b"
    "be 1 (int (unbe (take 1 (drop 2 b)))) = take 1 (drop 2 b)"
    "be 8 (int (unbe (take 8 (drop 3 b)))) = take 8 (drop 3 b)"
    by (rule be_unbe, use assms(1) in simp)+
  ultimately show ?thesis by (simp only: frameBytes_def)
qed

text \<open>What \<^verbatim>\<open>decodeFrame\<close> accepts is exactly a well-formed message within the limit.\<close>

lemma decodeFrame_iff:
  "decodeFrame b m = Inr fr \<longleftrightarrow>
    wireHeader (frameType fr) (frameFlags fr) (frameCorrelation fr) (framePayload fr) \<and>
    length b \<le> m \<and>
    b = frameBytes (int (frameType fr)) (int (frameFlags fr)) (int (frameCorrelation fr))
          (framePayload fr)" (is "?l \<longleftrightarrow> ?r")
proof
  assume ?r
  then show ?l
    using decodeFrame_frameBytes [of "frameType fr" "frameFlags fr" "frameCorrelation fr"
        "framePayload fr" m]
    by auto
next
  assume l: ?l
  let ?f = "unbe (take 1 (drop 2 b))"
  from l have len: "15 \<le> length b" and eq: "length b - 15 = unbe (take 4 (drop 11 b))"
    and le: "unbe (take 4 (drop 11 b)) + 15 \<le> m" and mask: "?f AND 0xf8 = 0"
    and fr: "fr = \<lparr>frameType = unbe (take 2 b), frameFlags = ?f,
      frameCorrelation = unbe (take 8 (drop 3 b)), framePayload = drop 15 b\<rparr>"
    by (auto simp: decodeFrame_def getUint_def andThen_eq_Inr split: if_splits)
  have bytes: "unbe (take 2 b) < 256 ^ 2" "?f < 256 ^ 1" "unbe (take 8 (drop 3 b)) < 256 ^ 8"
    "unbe (take 4 (drop 11 b)) < 256 ^ 4"
    using len unbe_less [of "take 2 b"] unbe_less [of "take 1 (drop 2 b)"]
      unbe_less [of "take 8 (drop 3 b)"] unbe_less [of "take 4 (drop 11 b)"]
    by (simp_all del: One_nat_def)
  then have "wireHeader (unbe (take 2 b)) ?f (unbe (take 8 (drop 3 b))) (drop 15 b)"
    using nat_flag_mask_le [OF _ mask] eq by (simp add: wireHeader_def)
  moreover have "length b \<le> m" using len eq le by linarith
  moreover have "b = frameBytes (int (unbe (take 2 b))) (int ?f)
      (int (unbe (take 8 (drop 3 b)))) (drop 15 b)"
    using len eq by (intro frameBytes_unique) linarith+
  ultimately show ?r unfolding fr frame.simps by blast
qed

lemma withCorrelation_frameBytes:
  assumes "0 < c'" and "c' \<le> MAX_U64"
  shows "withCorrelation (frameBytes t f c pl) c' = Inr (frameBytes t f c' pl)"
  using assms
  by (simp add: withCorrelation_def setUint_def u8set_def) (simp add: frameBytes_def)

section \<open>Parser lemmas\<close>

text \<open>The parser never buffers more than the negotiated limit.\<close>

definition parserOk :: "frameParser \<Rightarrow> bool" where
  "parserOk p \<longleftrightarrow> length (pbuffer p) \<le> pmax p"

lemma parseFrames_ok: "parserOk p \<Longrightarrow> parserOk (snd (parseFrames c p)) \<and> pmax (snd (parseFrames c p)) = pmax p"
  by (auto simp: parseFrames_def parserOk_def Let_def split: sum.splits)

lemma feed_ok: "parserOk p \<Longrightarrow> parserOk (snd (feed cs p)) \<and> pmax (snd (feed cs p)) = pmax p"
proof (induction cs arbitrary: p)
  case Nil
  then show ?case by simp
next
  case (Cons c cs)
  obtain o1 p1 where p1: "parseFrames c p = (o1, p1)" by (cases "parseFrames c p")
  obtain o2 p2 where p2: "feed cs p1 = (o2, p2)" by (cases "feed cs p1")
  have "parserOk p1" "pmax p1 = pmax p"
    using parseFrames_ok [OF Cons.prems, of c] by (simp_all add: p1)
  moreover from this(1) have "parserOk p2" "pmax p2 = pmax p1"
    using Cons.IH [of p1] by (simp_all add: p2)
  ultimately show ?case by (simp add: p1 p2 split: sum.splits)
qed

lemma getUint_prefix: "i + n \<le> length x \<Longrightarrow> getUint n (x @ y) i = getUint n x i"
  by (simp add: getUint_def)

lemma decodeFrame_length:
  assumes "decodeFrame b m = Inr fr"
  shows "getUint 4 b 11 = Inr (length b - 15)" "15 \<le> length b" "length b \<le> m"
  using assms by (auto simp: decodeFrame_def getUint_def andThen_eq_Inr split: if_splits)

lemma parseFrames_part:
  assumes dec: "decodeFrame (pre @ c @ rest) m = Inr fr" and "rest \<noteq> []"
  shows "parseFrames c \<lparr>pbuffer = pre, pmax = m\<rparr> = (Inr [], \<lparr>pbuffer = pre @ c, pmax = m\<rparr>)"
proof -
  note len = decodeFrame_length [OF dec]
  have "15 \<le> length (pre @ c) \<Longrightarrow> getUint 4 (pre @ c) 11 = Inr (length (pre @ c @ rest) - 15)"
    using len(1) getUint_prefix [of 11 4 "pre @ c" rest] by simp
  then show ?thesis
    using len(2,3) assms(2) by (auto simp: parseFrames_def Let_def)
qed

lemma parseFrames_last:
  assumes dec: "decodeFrame (pre @ c) m = Inr fr" and "c \<noteq> []"
  shows "parseFrames c \<lparr>pbuffer = pre, pmax = m\<rparr> = (Inr [fr], \<lparr>pbuffer = [], pmax = m\<rparr>)"
  using decodeFrame_length [OF dec] assms by (auto simp: parseFrames_def Let_def)

lemma parseFrames_empty:
  "parseFrames [] \<lparr>pbuffer = [], pmax = m\<rparr> = (Inr [], \<lparr>pbuffer = [], pmax = m\<rparr>)"
  by (simp add: parseFrames_def)

lemma feed_empties:
  "concat cs = [] \<Longrightarrow> feed cs \<lparr>pbuffer = [], pmax = m\<rparr> = (Inr [], \<lparr>pbuffer = [], pmax = m\<rparr>)"
  by (induction cs) (simp_all add: parseFrames_empty)

text \<open>However a message is cut into chunks, the parser returns it once, at its last byte.\<close>

lemma feed_message:
  assumes "decodeFrame (pre @ concat cs) m = Inr fr" and "concat cs \<noteq> []"
  shows "feed cs \<lparr>pbuffer = pre, pmax = m\<rparr> = (Inr [fr], \<lparr>pbuffer = [], pmax = m\<rparr>)"
  using assms
proof (induction cs arbitrary: pre)
  case Nil
  then show ?case by simp
next
  case (Cons c cs)
  show ?case
  proof (cases "concat cs = []")
    case True
    with Cons.prems have "c \<noteq> []" and "decodeFrame (pre @ c) m = Inr fr" by simp_all
    then show ?thesis using True by (simp add: parseFrames_last feed_empties)
  next
    case False
    with Cons.prems Cons.IH [of "pre @ c"] show ?thesis
      by (simp add: parseFrames_part [where rest = "concat cs" and fr = fr])
  qed
qed

lemma feed_append:
  "feed cs p = (Inr fs, p') \<Longrightarrow> feed ds p' = (Inr gs, p'') \<Longrightarrow>
    feed (cs @ ds) p = (Inr (fs @ gs), p'')"
  by (induction cs arbitrary: p fs) (auto split: sum.splits prod.splits)

lemma feed_messages:
  assumes "list_all2 (\<lambda>cs fr. decodeFrame (concat cs) m = Inr fr) css frs"
  shows "feed (concat css) (createFrameParser m) = (Inr frs, createFrameParser m)"
  using assms
proof (induction rule: list_all2_induct)
  case Nil
  then show ?case by simp
next
  case (Cons cs css fr frs)
  have "concat cs \<noteq> []"
    using decodeFrame_length(2) [OF Cons.hyps(1)] by (metis le_zero_eq list.size(3) zero_neq_numeral)
  then have "feed cs (createFrameParser m) = (Inr [fr], createFrameParser m)"
    using feed_message [of "[]" cs m fr] Cons.hyps(1) by (simp add: createFrameParser_def)
  then show ?case using feed_append [OF _ Cons.IH] by fastforce
qed

section \<open>Properties\<close>

text \<open>
  C35: a frame that the client encodes is decoded, under a bound it fits, to the type, flags,
  correlation identifier and payload it was made of.
\<close>

theorem encoded_frame_decodes:
  assumes "encodeFrame (JInt t) pl (Some (JInt f)) (Some c) = Inr b" and "length b \<le> m"
  shows "decodeFrame b m = Inr \<lparr>frameType = nat t, frameFlags = nat f, frameCorrelation = nat c,
    framePayload = pl\<rparr>"
proof -
  have a: "frameArgs t f c pl" and b: "b = frameBytes t f c pl"
    using assms(1) by (simp_all add: encodeFrame_int split: if_splits)
  then have "wireHeader (nat t) (nat f) (nat c) pl" "int (nat t) = t" "int (nat f) = f" "int (nat c) = c"
    by (auto simp: frameArgs_def wireHeader_def MAX_U64_def DEFAULT_MAX_MESSAGE_BYTES_def)
  with decodeFrame_frameBytes [of "nat t" "nat f" "nat c" pl m] assms(2) show ?thesis by (simp add: b)
qed

lemma encoded_frame_decodes_witness:
  "decodeFrame (frameBytes 500 4 9 [1, 2]) 64 = Inr \<lparr>frameType = 500, frameFlags = 4,
    frameCorrelation = 9, framePayload = [1, 2]\<rparr>"
  using encoded_frame_decodes [of 500 "[1, 2]" 4 9 "frameBytes 500 4 9 [1, 2]" 64]
  by (simp add: encodeFrame_int frameArgs_def MAX_U64_def DEFAULT_MAX_MESSAGE_BYTES_def)

text \<open>
  C36: the decoder accepts exactly the encodings of the frames it returns that respect the bound:
  nothing truncated, oversized, padded or with a reserved flag gets through.
\<close>

theorem decoder_accepts_exactly_encodings:
  "decodeFrame b m = Inr fr \<longleftrightarrow>
    wireHeader (frameType fr) (frameFlags fr) (frameCorrelation fr) (framePayload fr) \<and>
    length b \<le> m \<and>
    b = frameBytes (int (frameType fr)) (int (frameFlags fr)) (int (frameCorrelation fr))
          (framePayload fr)"
  by (rule decodeFrame_iff)

text \<open>
  C37: however the bytes of a sequence of messages are cut into chunks, the parser returns the
  frames of these messages in order, and keeps nothing behind.
\<close>

theorem chunking_does_not_matter:
  assumes "list_all2 (\<lambda>cs fr. decodeFrame (concat cs) m = Inr fr) css frs"
  shows "feed (concat css) (createFrameParser m) = (Inr frs, createFrameParser m)"
  using assms by (rule feed_messages)

lemma chunking_does_not_matter_witness:
  "feed (concat [[take 7 (frameBytes 500 0 1 [8]), drop 7 (frameBytes 500 0 1 [8])],
      [frameBytes 501 0 2 []]]) (createFrameParser 64) =
    (Inr [\<lparr>frameType = 500, frameFlags = 0, frameCorrelation = 1, framePayload = [8]\<rparr>,
          \<lparr>frameType = 501, frameFlags = 0, frameCorrelation = 2, framePayload = []\<rparr>],
     createFrameParser 64)"
proof (rule chunking_does_not_matter)
  show "list_all2 (\<lambda>cs fr. decodeFrame (concat cs) 64 = Inr fr)
     [[take 7 (frameBytes 500 0 1 [8]), drop 7 (frameBytes 500 0 1 [8])], [frameBytes 501 0 2 []]]
     [\<lparr>frameType = 500, frameFlags = 0, frameCorrelation = 1, framePayload = [8]\<rparr>,
      \<lparr>frameType = 501, frameFlags = 0, frameCorrelation = 2, framePayload = []\<rparr>]"
    using decodeFrame_frameBytes [of 500 0 1 "[8]" 64] decodeFrame_frameBytes [of 501 0 2 "[]" 64]
    by (simp add: wireHeader_def)
qed

text \<open>
  Giving an encoded frame a correlation identifier changes nothing else: the result is the
  encoding of the same frame with that identifier.
\<close>

theorem correlation_only_relabels:
  assumes "encodeFrame (JInt t) pl (Some (JInt f)) (Some c) = Inr b" and "0 < c'" and "c' \<le> MAX_U64"
  shows "withCorrelation b c' = encodeFrame (JInt t) pl (Some (JInt f)) (Some c')"
  using assms withCorrelation_frameBytes [OF assms(2,3)]
  by (auto simp: encodeFrame_int frameArgs_def split: if_splits)

lemma correlation_only_relabels_witness:
  "withCorrelation (frameBytes 500 0 0 [7]) 3 = encodeFrame (JInt 500) [7] (Some (JInt 0)) (Some 3)"
  by (rule correlation_only_relabels [of _ _ _ 0])
    (simp_all add: encodeFrame_int frameArgs_def MAX_U64_def DEFAULT_MAX_MESSAGE_BYTES_def)

end
