(* ===== verification/TimeoutHeap.thy ===== *)
theory TimeoutHeap
  imports Prelude "HOL-Library.Multiset"
begin

text \<open>
  The timeout heap of \<^verbatim>\<open>src/client/multiplexer.ts\<close>: a binary heap in an array, ordered by the
  deadline of a request, whose entries carry their own position (\<^verbatim>\<open>timeoutIndex\<close>) so that a
  settled request is removed from the middle. Requests are objects that the heap, the FIFO queues
  and the correlation map share: here they are identifiers, and a field of the object is a function
  of the identifier.
\<close>

section \<open>The heap\<close>

record timeoutHeap =
  thEntries :: "nat list"
  thDeadline :: "nat \<Rightarrow> int"
  thIndex :: "nat \<Rightarrow> int"

definition emptyHeap :: timeoutHeap where
  "emptyHeap = \<lparr>thEntries = [], thDeadline = (\<lambda>_. -1), thIndex = (\<lambda>_. -1)\<rparr>"

definition deadlineAt :: "timeoutHeap \<Rightarrow> nat \<Rightarrow> int" where
  "deadlineAt h i = thDeadline h (thEntries h ! i)"

definition swapTimeoutEntries :: "nat \<Rightarrow> nat \<Rightarrow> timeoutHeap \<Rightarrow> timeoutHeap" where
  "swapTimeoutEntries leftIndex rightIndex h =
    (let left = thEntries h ! leftIndex; right = thEntries h ! rightIndex in
     h\<lparr>thEntries := (thEntries h)[leftIndex := right, rightIndex := left],
       thIndex := (thIndex h)(left := int rightIndex, right := int leftIndex)\<rparr>)"

text \<open>\<^verbatim>\<open>(index - 1) >> 1\<close>\<close>

definition parentIndex :: "nat \<Rightarrow> nat" where
  "parentIndex i = (i - 1) div 2"

function heapifyUp :: "nat \<Rightarrow> timeoutHeap \<Rightarrow> timeoutHeap" where
  "heapifyUp i h =
    (if i = 0 then h
     else if deadlineAt h i \<ge> deadlineAt h (parentIndex i) then h
     else heapifyUp (parentIndex i) (swapTimeoutEntries i (parentIndex i) h))"
  by pat_completeness auto
termination
  by (relation "measure fst") (auto simp: parentIndex_def)

declare heapifyUp.simps [simp del]

definition smallestChild :: "nat \<Rightarrow> timeoutHeap \<Rightarrow> nat" where
  "smallestChild i h =
    (let len = length (thEntries h); leftIndex = i * 2 + 1; rightIndex = i * 2 + 2;
         smallest = (if leftIndex < len \<and> deadlineAt h leftIndex < deadlineAt h i
                     then leftIndex else i)
     in (if rightIndex < len \<and> deadlineAt h rightIndex < deadlineAt h smallest
         then rightIndex else smallest))"

lemma smallestChild_cases:
  "smallestChild i h = i \<or>
   (smallestChild i h \<in> {2 * i + 1, 2 * i + 2} \<and> smallestChild i h < length (thEntries h))"
  by (auto simp: smallestChild_def Let_def)

lemma swap_entries_length [simp]:
  "length (thEntries (swapTimeoutEntries i j h)) = length (thEntries h)"
  by (simp add: swapTimeoutEntries_def Let_def)

function heapifyDown :: "nat \<Rightarrow> timeoutHeap \<Rightarrow> timeoutHeap" where
  "heapifyDown i h =
    (let smallest = smallestChild i h in
     if smallest = i then h
     else heapifyDown smallest (swapTimeoutEntries i smallest h))"
  by pat_completeness auto
termination
proof (relation "measure (\<lambda>(i, h). length (thEntries h) - i)", goal_cases)
  case (2 i h s)
  then show ?case using smallestChild_cases [of i h] by auto
qed simp

declare heapifyDown.simps [simp del]

definition pushTimeoutEntry :: "nat \<Rightarrow> int \<Rightarrow> timeoutHeap \<Rightarrow> timeoutHeap" where
  "pushTimeoutEntry req deadline h =
    (let index = length (thEntries h) in
     heapifyUp index
       (h\<lparr>thEntries := thEntries h @ [req], thDeadline := (thDeadline h)(req := deadline),
          thIndex := (thIndex h)(req := int index)\<rparr>))"

text \<open>\<^verbatim>\<open>None\<close> is \<^verbatim>\<open>Infinity\<close>.\<close>

definition getNextTimeoutDeadline :: "timeoutHeap \<Rightarrow> int option" where
  "getNextTimeoutDeadline h = (if thEntries h = [] then None else Some (deadlineAt h 0))"

definition removeTimeoutEntry :: "nat \<Rightarrow> timeoutHeap \<Rightarrow> timeoutHeap" where
  "removeTimeoutEntry req h =
    (let index = thIndex h req in
     if index < 0 \<or> index \<ge> int (length (thEntries h)) then h
     else
       (let i = nat index; lastEntry = last (thEntries h); rest = butlast (thEntries h) in
        if i = length rest then h\<lparr>thEntries := rest, thIndex := (thIndex h)(req := -1)\<rparr>
        else heapifyUp i (heapifyDown i
          (h\<lparr>thEntries := rest[i := lastEntry],
             thIndex := (thIndex h)(lastEntry := index, req := -1)\<rparr>))))"

section \<open>The invariant\<close>

text \<open>Every entry knows its position; what is not in the heap has a negative one.\<close>

definition indexed :: "timeoutHeap \<Rightarrow> bool" where
  "indexed h \<longleftrightarrow> distinct (thEntries h) \<and>
     (\<forall>i < length (thEntries h). thIndex h (thEntries h ! i) = int i) \<and>
     (\<forall>r. r \<notin> set (thEntries h) \<longrightarrow> thIndex h r < 0)"

text \<open>The order holds at position \<open>j\<close> when its parent is due no later.\<close>

definition ordered :: "timeoutHeap \<Rightarrow> nat \<Rightarrow> bool" where
  "ordered h j \<longleftrightarrow> deadlineAt h (parentIndex j) \<le> deadlineAt h j"

definition heapOrdered :: "timeoutHeap \<Rightarrow> bool" where
  "heapOrdered h \<longleftrightarrow> (\<forall>j. 0 < j \<longrightarrow> j < length (thEntries h) \<longrightarrow> ordered h j)"

definition heapOk :: "timeoutHeap \<Rightarrow> bool" where
  "heapOk h \<longleftrightarrow> indexed h \<and> heapOrdered h"

definition members :: "timeoutHeap \<Rightarrow> nat set" where
  "members h = set (thEntries h)"

lemma parent_less: "0 < j \<Longrightarrow> parentIndex j < j"
  by (auto simp: parentIndex_def)

lemma parent_eq_iff: "0 < c \<Longrightarrow> parentIndex c = i \<longleftrightarrow> c = 2 * i + 1 \<or> c = 2 * i + 2"
  by (auto simp: parentIndex_def)

section \<open>Swapping keeps the entries and their positions\<close>

lemma swap_mset:
  "i < length (thEntries h) \<Longrightarrow> j < length (thEntries h) \<Longrightarrow>
    mset (thEntries (swapTimeoutEntries i j h)) = mset (thEntries h)"
  by (simp add: swapTimeoutEntries_def Let_def mset_swap)

lemma swap_deadline [simp]: "thDeadline (swapTimeoutEntries i j h) = thDeadline h"
  by (simp add: swapTimeoutEntries_def Let_def)

lemma deadlineAt_swap:
  "i < length (thEntries h) \<Longrightarrow> j < length (thEntries h) \<Longrightarrow> k < length (thEntries h) \<Longrightarrow>
    deadlineAt (swapTimeoutEntries i j h) k =
      (if k = j then deadlineAt h i else if k = i then deadlineAt h j else deadlineAt h k)"
  by (auto simp: deadlineAt_def swapTimeoutEntries_def Let_def nth_list_update)

lemma indexed_swap:
  assumes "indexed h" and "i < length (thEntries h)" and "j < length (thEntries h)"
  shows "indexed (swapTimeoutEntries i j h)"
proof -
  let ?es = "thEntries h" and ?h = "swapTimeoutEntries i j h"
  have "distinct (thEntries ?h)"
    using assms by (simp add: swapTimeoutEntries_def Let_def indexed_def distinct_swap)
  moreover have "set (thEntries ?h) = set ?es"
    using swap_mset [OF assms(2,3)] by (rule mset_eq_setD)
  moreover have "thIndex ?h (thEntries ?h ! k) = int k" if "k < length ?es" for k
    using assms that
    by (auto simp: swapTimeoutEntries_def Let_def indexed_def nth_list_update nth_eq_iff_index_eq)
  moreover have "thIndex ?h r < 0" if "r \<notin> set ?es" for r
    using assms that by (auto simp: swapTimeoutEntries_def Let_def indexed_def)
  ultimately show ?thesis unfolding indexed_def by (simp only: swap_entries_length) blast
qed

text \<open>A rearrangement: same entries, same deadlines, positions up to date.\<close>

definition rearranges :: "timeoutHeap \<Rightarrow> timeoutHeap \<Rightarrow> bool" where
  "rearranges h h' \<longleftrightarrow> mset (thEntries h') = mset (thEntries h) \<and> thDeadline h' = thDeadline h \<and>
     (indexed h \<longrightarrow> indexed h')"

lemma rearranges_refl: "rearranges h h"
  by (simp add: rearranges_def)

lemma rearranges_trans: "rearranges h h' \<Longrightarrow> rearranges h' h'' \<Longrightarrow> rearranges h h''"
  by (simp add: rearranges_def)

lemma rearranges_swap:
  "i < length (thEntries h) \<Longrightarrow> j < length (thEntries h) \<Longrightarrow>
    rearranges h (swapTimeoutEntries i j h)"
  by (simp add: rearranges_def swap_mset indexed_swap)

lemma rearranges_length: "rearranges h h' \<Longrightarrow> length (thEntries h') = length (thEntries h)"
  by (auto simp: rearranges_def dest: mset_eq_length)

lemma rearranges_members: "rearranges h h' \<Longrightarrow> members h' = members h"
  by (auto simp: rearranges_def members_def dest: mset_eq_setD)

lemma heapifyUp_rearranges: "i < length (thEntries h) \<Longrightarrow> rearranges h (heapifyUp i h)"
proof (induction i h rule: heapifyUp.induct)
  case (1 i h)
  show ?case
  proof (cases "i = 0 \<or> deadlineAt h i \<ge> deadlineAt h (parentIndex i)")
    case True
    then show ?thesis by (auto simp: heapifyUp.simps [of i h] rearranges_refl)
  next
    case False
    then have p: "parentIndex i < length (thEntries h)" using 1(2) parent_less [of i] by simp
    have "rearranges h (swapTimeoutEntries i (parentIndex i) h)"
      using 1(2) p by (rule rearranges_swap)
    moreover have "rearranges (swapTimeoutEntries i (parentIndex i) h) (heapifyUp i h)"
      using 1(1) False p by (simp add: heapifyUp.simps [of i h])
    ultimately show ?thesis by (rule rearranges_trans)
  qed
qed

lemma heapifyDown_rearranges: "i < length (thEntries h) \<Longrightarrow> rearranges h (heapifyDown i h)"
proof (induction i h rule: heapifyDown.induct)
  case (1 i h)
  let ?s = "smallestChild i h"
  show ?case
  proof (cases "?s = i")
    case True
    then show ?thesis by (simp add: heapifyDown.simps [of i h] rearranges_refl)
  next
    case False
    then have s: "?s < length (thEntries h)" using smallestChild_cases [of i h] by auto
    have "rearranges h (swapTimeoutEntries i ?s h)" using 1(2) s by (rule rearranges_swap)
    moreover have "rearranges (swapTimeoutEntries i ?s h) (heapifyDown i h)"
      using 1(1) [OF refl False] False s by (simp add: heapifyDown.simps [of i h] Let_def)
    ultimately show ?thesis by (rule rearranges_trans)
  qed
qed

section \<open>Restoring the order\<close>

text \<open>The order holds everywhere but above and below position \<open>i\<close>, and would hold without it.\<close>

definition exceptAt :: "nat \<Rightarrow> timeoutHeap \<Rightarrow> bool" where
  "exceptAt i h \<longleftrightarrow>
    (\<forall>j. 0 < j \<longrightarrow> j < length (thEntries h) \<longrightarrow> j \<noteq> i \<longrightarrow> parentIndex j \<noteq> i \<longrightarrow> ordered h j) \<and>
    (\<forall>c. 0 < i \<longrightarrow> 0 < c \<longrightarrow> c < length (thEntries h) \<longrightarrow> parentIndex c = i \<longrightarrow>
       deadlineAt h (parentIndex i) \<le> deadlineAt h c)"

text \<open>Nor below it.\<close>

definition belowOk :: "nat \<Rightarrow> timeoutHeap \<Rightarrow> bool" where
  "belowOk i h \<longleftrightarrow>
    (\<forall>c. 0 < c \<longrightarrow> c < length (thEntries h) \<longrightarrow> parentIndex c = i \<longrightarrow> ordered h c)"

lemma heapOrdered_parts:
  "i < length (thEntries h) \<Longrightarrow> exceptAt i h \<Longrightarrow> belowOk i h \<Longrightarrow> (0 < i \<Longrightarrow> ordered h i) \<Longrightarrow>
    heapOrdered h"
  unfolding heapOrdered_def exceptAt_def belowOk_def by metis

lemma heapifyUp_ordered:
  "i < length (thEntries h) \<Longrightarrow> exceptAt i h \<Longrightarrow> belowOk i h \<Longrightarrow> heapOrdered (heapifyUp i h)"
proof (induction i h rule: heapifyUp.induct)
  case (1 i h)
  note len = 1(2) and ex = 1(3) and below = 1(4)
  let ?p = "parentIndex i" and ?n = "length (thEntries h)"
  show ?case
  proof (cases "i = 0 \<or> deadlineAt h i \<ge> deadlineAt h ?p")
    case True
    then have "heapifyUp i h = h" by (auto simp: heapifyUp.simps [of i h])
    moreover have "0 < i \<Longrightarrow> ordered h i" using True by (auto simp: ordered_def)
    ultimately show ?thesis using heapOrdered_parts [OF len ex below] by simp
  next
    case False
    then have i: "0 < i" "deadlineAt h i < deadlineAt h ?p" by auto
    then have p: "?p < ?n" "?p < i" using len parent_less [of i] by auto
    let ?h = "swapTimeoutEntries i ?p h"
    note at = deadlineAt_swap [OF len p(1)]
    have par: "parentIndex j < ?n" if "j < ?n" "0 < j" for j using that parent_less [of j] by simp
    have "exceptAt ?p ?h"
      unfolding exceptAt_def
    proof (intro conjI allI impI)
      fix j assume j: "0 < j" "j < length (thEntries ?h)" "j \<noteq> ?p" "parentIndex j \<noteq> ?p"
      then have "j \<noteq> i" by auto
      moreover have "deadlineAt h ?p \<le> deadlineAt h j" if "parentIndex j = i"
        using ex that j i by (simp add: exceptAt_def)
      moreover have "ordered h j" if "parentIndex j \<noteq> i"
        using ex that j \<open>j \<noteq> i\<close> by (simp add: exceptAt_def)
      ultimately show "ordered ?h j"
        using j par by (auto simp: ordered_def at)
    next
      fix c assume c: "0 < ?p" "0 < c" "c < length (thEntries ?h)" "parentIndex c = ?p"
      have pp: "parentIndex ?p < ?p" using c(1) by (rule parent_less)
      have op: "ordered h ?p" using ex p c(1) parent_less [OF c(1)] by (simp add: exceptAt_def)
      have "ordered h c" if "c \<noteq> i" using ex that c p by (simp add: exceptAt_def)
      then show "deadlineAt ?h (parentIndex ?p) \<le> deadlineAt ?h c"
        using op c p pp by (auto simp: ordered_def at)
    qed
    moreover have "belowOk ?p ?h"
      unfolding belowOk_def
    proof (intro allI impI)
      fix c assume c: "0 < c" "c < length (thEntries ?h)" "parentIndex c = ?p"
      have "ordered h c" if "c \<noteq> i" using ex that c p by (simp add: exceptAt_def)
      moreover have "c \<noteq> ?p" using c parent_less [of c] by auto
      ultimately show "ordered ?h c"
        using c p i by (auto simp: ordered_def at)
    qed
    ultimately have "heapOrdered (heapifyUp ?p ?h)"
      using 1(1) False p by simp
    then show ?thesis using False by (simp add: heapifyUp.simps [of i h])
  qed
qed

lemma smallestChild_le:
  "c < length (thEntries h) \<Longrightarrow> c \<in> {i, 2 * i + 1, 2 * i + 2} \<Longrightarrow>
    deadlineAt h (smallestChild i h) \<le> deadlineAt h c"
  by (auto simp: smallestChild_def Let_def mult.commute)

lemma smallestChild_less:
  "smallestChild i h \<noteq> i \<Longrightarrow> deadlineAt h (smallestChild i h) < deadlineAt h i"
  by (auto simp: smallestChild_def Let_def split: if_splits)

lemma heapifyDown_ordered:
  "i < length (thEntries h) \<Longrightarrow> exceptAt i h \<Longrightarrow> (0 < i \<Longrightarrow> ordered h i) \<Longrightarrow>
    heapOrdered (heapifyDown i h)"
proof (induction i h rule: heapifyDown.induct)
  case (1 i h)
  note len = 1(2) and ex = 1(3) and above = 1(4)
  let ?s = "smallestChild i h" and ?n = "length (thEntries h)"
  show ?case
  proof (cases "?s = i")
    case True
    have "belowOk i h"
      unfolding belowOk_def
    proof (intro allI impI)
      fix c assume c: "0 < c" "c < ?n" "parentIndex c = i"
      then have "c \<in> {i, 2 * i + 1, 2 * i + 2}" by (simp add: parent_eq_iff)
      with c True smallestChild_le [of c h i] show "ordered h c" by (simp add: ordered_def)
    qed
    with heapOrdered_parts [OF len ex _ above] True show ?thesis
      by (simp add: heapifyDown.simps [of i h])
  next
    case False
    then have s: "?s \<in> {2 * i + 1, 2 * i + 2}" "?s < ?n" using smallestChild_cases [of i h] by auto
    then have ps: "parentIndex ?s = i" "0 < ?s" by (auto simp: parent_eq_iff)
    let ?h = "swapTimeoutEntries i ?s h"
    note at = deadlineAt_swap [OF len s(2)]
    note lt = smallestChild_less [OF False]
    have par: "parentIndex j < ?n" if "j < ?n" "0 < j" for j using that parent_less [of j] by simp
    have "exceptAt ?s ?h"
      unfolding exceptAt_def
    proof (intro conjI allI impI)
      fix j assume j: "0 < j" "j < length (thEntries ?h)" "j \<noteq> ?s" "parentIndex j \<noteq> ?s"
      consider (here) "j = i" | (sibling) "j \<noteq> i" "parentIndex j = i"
        | (other) "j \<noteq> i" "parentIndex j \<noteq> i" by blast
      then show "ordered ?h j"
      proof cases
        case here
        then have "deadlineAt h (parentIndex i) \<le> deadlineAt h ?s"
          using ex j(1) ps s(2) by (simp add: exceptAt_def)
        moreover have "parentIndex i < i" using here j(1) parent_less by simp
        ultimately show ?thesis
          using here len par [of i] j j(1) s(1) by (auto simp: ordered_def at)
      next
        case sibling
        then have "j \<in> {i, 2 * i + 1, 2 * i + 2}" using j(1) by (simp add: parent_eq_iff)
        then have "deadlineAt h ?s \<le> deadlineAt h j" using j(2) by (intro smallestChild_le) simp_all
        with sibling j len show ?thesis by (auto simp: ordered_def at False)
      next
        case other
        then have "ordered h j" using ex j by (simp add: exceptAt_def)
        with other j par [of j] show ?thesis by (simp add: ordered_def at)
      qed
    next
      fix c assume c: "0 < ?s" "0 < c" "c < length (thEntries ?h)" "parentIndex c = ?s"
      have "c \<noteq> i" using c parent_less [of c] ps parent_less [of ?s] by auto
      moreover have "c \<noteq> ?s" using c parent_less [of c] by auto
      moreover have "ordered h c" using ex c \<open>c \<noteq> i\<close> False by (simp add: exceptAt_def)
      ultimately show "deadlineAt ?h (parentIndex ?s) \<le> deadlineAt ?h c"
        using c len by (auto simp: ordered_def at ps(1))
    qed
    moreover have "ordered ?h ?s" using lt len s(2) False by (simp add: ordered_def ps(1) at)
    ultimately have "heapOrdered (heapifyDown ?s ?h)"
      using 1(1) [OF refl False] s(2) by simp
    then show ?thesis using False by (simp add: heapifyDown.simps [of i h] Let_def)
  qed
qed

text \<open>Without the order above: down and then up, as \<^verbatim>\<open>removeTimeoutEntry\<close> does.\<close>

lemma heapifyUp_id: "heapOrdered h \<Longrightarrow> i < length (thEntries h) \<Longrightarrow> heapifyUp i h = h"
  by (auto simp: heapifyUp.simps [of i h] heapOrdered_def ordered_def)

lemma down_up_ordered:
  assumes "i < length (thEntries h)" and "exceptAt i h"
  shows "heapOrdered (heapifyUp i (heapifyDown i h))"
proof (cases "smallestChild i h = i")
  case True
  have "belowOk i h"
    unfolding belowOk_def
  proof (intro allI impI)
    fix c assume c: "0 < c" "c < length (thEntries h)" "parentIndex c = i"
    then have "c \<in> {i, 2 * i + 1, 2 * i + 2}" by (simp add: parent_eq_iff)
    with c True smallestChild_le [of c h i] show "ordered h c" by (simp add: ordered_def)
  qed
  with True assms heapifyUp_ordered show ?thesis by (simp add: heapifyDown.simps [of i h])
next
  case False
  have len: "length (thEntries (heapifyDown i h)) = length (thEntries h)"
    by (rule rearranges_length [OF heapifyDown_rearranges [OF assms(1)]])
  show ?thesis
  proof (cases "0 < i \<longrightarrow> ordered h i")
    case True
    then have "heapOrdered (heapifyDown i h)" using assms by (intro heapifyDown_ordered) auto
    then show ?thesis using assms(1) len by (simp add: heapifyUp_id)
  next
    case above: False
    let ?s = "smallestChild i h"
    have s: "?s \<in> {2 * i + 1, 2 * i + 2}" "?s < length (thEntries h)"
      using smallestChild_cases [of i h] False by auto
    then have "parentIndex ?s = i" "0 < ?s" by (auto simp: parent_eq_iff)
    then have "deadlineAt h (parentIndex i) \<le> deadlineAt h ?s"
      using assms(2) above s(2) by (simp add: exceptAt_def)
    with smallestChild_less [OF False] have "ordered h i" by (simp add: ordered_def)
    with above show ?thesis by simp
  qed
qed

section \<open>The operations\<close>

lemma heapOk_empty: "heapOk emptyHeap" and members_empty: "members emptyHeap = {}"
  by (simp_all add: heapOk_def indexed_def heapOrdered_def emptyHeap_def members_def)

lemma push_facts:
  assumes "heapOk h" and "r \<notin> members h"
  shows "heapOk (pushTimeoutEntry r d h)"
    and "members (pushTimeoutEntry r d h) = insert r (members h)"
    and "thDeadline (pushTimeoutEntry r d h) = (thDeadline h)(r := d)"
proof -
  let ?n = "length (thEntries h)"
  let ?h = "h\<lparr>thEntries := thEntries h @ [r], thDeadline := (thDeadline h)(r := d),
     thIndex := (thIndex h)(r := int ?n)\<rparr>"
  have push: "pushTimeoutEntry r d h = heapifyUp ?n ?h"
    by (simp add: pushTimeoutEntry_def Let_def)
  have ind: "indexed ?h"
    using assms by (auto simp: heapOk_def indexed_def members_def nth_append less_Suc_eq)
  have at: "deadlineAt ?h j = deadlineAt h j" if "j < ?n" for j
    using that assms(2) nth_mem [OF that] by (auto simp: deadlineAt_def nth_append members_def)
  have ord: "ordered ?h j" if "0 < j" "j < ?n" for j
    using that assms(1) parent_less [of j] by (simp add: heapOk_def heapOrdered_def ordered_def at)
  have ex: "exceptAt ?n ?h"
    unfolding exceptAt_def using ord parent_less [of ?n]
    by (auto simp: less_Suc_eq dest: parent_less)
  have below: "belowOk ?n ?h"
    unfolding belowOk_def using parent_less [of ?n] by (auto simp: less_Suc_eq dest: parent_less)
  have r: "rearranges ?h (heapifyUp ?n ?h)" by (rule heapifyUp_rearranges) simp
  have "heapOrdered (heapifyUp ?n ?h)" using ex below by (intro heapifyUp_ordered) simp_all
  then show "heapOk (pushTimeoutEntry r d h)"
    using r ind by (simp add: push heapOk_def rearranges_def)
  show "members (pushTimeoutEntry r d h) = insert r (members h)"
    using rearranges_members [OF r] by (simp add: push members_def)
  show "thDeadline (pushTimeoutEntry r d h) = (thDeadline h)(r := d)"
    using r by (simp add: push rearranges_def)
qed

lemma remove_absent: "heapOk h \<Longrightarrow> r \<notin> members h \<Longrightarrow> removeTimeoutEntry r h = h"
  by (simp add: removeTimeoutEntry_def heapOk_def indexed_def members_def Let_def)

lemma butlast_nth: "i < length xs - 1 \<Longrightarrow> butlast xs ! i = xs ! i"
  by (simp add: nth_butlast)

lemma remove_facts:
  assumes "heapOk h"
  shows "heapOk (removeTimeoutEntry r h)"
    and "members (removeTimeoutEntry r h) = members h - {r}"
    and "thDeadline (removeTimeoutEntry r h) = thDeadline h"
proof -
  let ?es = "thEntries h" and ?r = "removeTimeoutEntry r h"
  have "heapOk ?r \<and> members ?r = members h - {r} \<and> thDeadline ?r = thDeadline h"
  proof (cases "r \<in> members h")
    case False
    then show ?thesis using assms remove_absent by auto
  next
    case True
    then obtain i where i: "i < length ?es" "?es ! i = r" by (auto simp: members_def in_set_conv_nth)
    have dist: "distinct ?es" and ix: "\<And>j. j < length ?es \<Longrightarrow> thIndex h (?es ! j) = int j"
      and out: "\<And>q. q \<notin> set ?es \<Longrightarrow> thIndex h q < 0"
      using assms by (auto simp: heapOk_def indexed_def)
    have idx: "thIndex h r = int i" using ix i by auto
    obtain rest l where es: "?es = rest @ [l]" using i(1) by (cases ?es rule: rev_cases) auto
    have n: "length ?es = Suc (length rest)" by (simp add: es)
    have restd: "distinct rest" "l \<notin> set rest" using dist by (auto simp: es)
    have par_ok: "ordered h j" if "0 < j" "j < length ?es" for j
      using assms that by (simp add: heapOk_def heapOrdered_def)
    show ?thesis
    proof (cases "i = length rest")
      case last: True
      then have rl: "r = l" using i es by simp
      have eq: "?r = h\<lparr>thEntries := rest, thIndex := (thIndex h)(r := -1)\<rparr>"
        using idx last by (simp add: removeTimeoutEntry_def es)
      have "indexed ?r"
        unfolding indexed_def
      proof (intro conjI allI impI)
        show "distinct (thEntries ?r)" using restd by (simp add: eq)
      next
        fix j assume "j < length (thEntries ?r)"
        then have j: "j < length rest" by (simp add: eq)
        then have "rest ! j \<noteq> r" using restd(2) rl by auto
        moreover have "thIndex h (rest ! j) = int j" using ix [of j] j by (simp add: es nth_append)
        ultimately show "thIndex ?r (thEntries ?r ! j) = int j" by (simp add: eq)
      next
        fix q assume "q \<notin> set (thEntries ?r)"
        then show "thIndex ?r q < 0" using out [of q] rl unfolding eq by (auto simp: es)
      qed
      moreover have "heapOrdered ?r"
        unfolding heapOrdered_def
      proof (intro allI impI)
        fix j assume j: "0 < j" "j < length (thEntries ?r)"
        then have "ordered h j" using par_ok by (simp add: eq es)
        with j parent_less [of j] show "ordered ?r j"
          by (simp add: ordered_def deadlineAt_def eq es nth_append)
      qed
      moreover have "members ?r = members h - {r}" using restd rl unfolding eq by (auto simp: members_def es)
      moreover have "thDeadline ?r = thDeadline h" by (simp add: eq)
      ultimately show ?thesis by (simp add: heapOk_def)
    next
      case False
      then have il: "i < length rest" using i(1) n by simp
      have ri: "rest ! i = r" using i il by (simp add: es nth_append)
      have rl: "r \<noteq> l" using ri il restd by auto
      let ?h = "h\<lparr>thEntries := rest[i := l], thIndex := (thIndex h)(l := int i, r := -1)\<rparr>"
      have eq: "?r = heapifyUp i (heapifyDown i ?h)"
        using idx False il by (simp add: removeTimeoutEntry_def es)
      have set: "set (rest[i := l]) = set ?es - {r}"
        using restd il ri rl by (auto simp: es set_update_distinct)
      have "indexed ?h"
        unfolding indexed_def
      proof (intro conjI allI impI)
        show "distinct (thEntries ?h)" using restd by (simp add: distinct_list_update)
      next
        fix j assume "j < length (thEntries ?h)"
        then have j: "j < length rest" by simp
        have "rest ! j = r \<longleftrightarrow> j = i" using restd(1) ri j il nth_eq_iff_index_eq by metis
        moreover have "rest ! j \<noteq> l" using restd(2) j by auto
        moreover have "thIndex h (rest ! j) = int j" using ix [of j] j by (simp add: es nth_append)
        ultimately show "thIndex ?h (thEntries ?h ! j) = int j"
          using j rl by (auto simp: nth_list_update)
      next
        fix q assume "q \<notin> set (thEntries ?h)"
        then show "thIndex ?h q < 0" using out [of q] set rl es by auto
      qed
      have at: "deadlineAt ?h j = deadlineAt h j" if "j < length rest" "j \<noteq> i" for j
        using that by (simp add: deadlineAt_def es nth_append)
      have ex: "exceptAt i ?h"
        unfolding exceptAt_def
      proof (intro conjI allI impI)
        fix j assume j: "0 < j" "j < length (thEntries ?h)" "j \<noteq> i" "parentIndex j \<noteq> i"
        then show "ordered ?h j"
          using par_ok [of j] at [of j] at [of "parentIndex j"] parent_less [of j] n
          by (simp add: ordered_def)
      next
        fix c assume c: "0 < i" "0 < c" "c < length (thEntries ?h)" "parentIndex c = i"
        have "c \<noteq> i" using c parent_less [of c] by auto
        moreover have "ordered h c" "ordered h i" using par_ok c il n by auto
        moreover have "parentIndex i < length rest" "parentIndex i \<noteq> i"
          using il c(1) parent_less [of i] by auto
        ultimately show "deadlineAt ?h (parentIndex i) \<le> deadlineAt ?h c"
          using c at [of c] at [of "parentIndex i"] by (simp add: ordered_def)
      qed
      have len: "i < length (thEntries ?h)" using il by simp
      have d: "rearranges ?h (heapifyDown i ?h)" by (rule heapifyDown_rearranges [OF len])
      have u: "rearranges (heapifyDown i ?h) ?r"
        unfolding eq using rearranges_length [OF d] len by (intro heapifyUp_rearranges) simp
      note ru = rearranges_trans [OF d u]
      have "heapOrdered ?r" unfolding eq by (rule down_up_ordered [OF len ex])
      moreover have "indexed ?r" using ru \<open>indexed ?h\<close> by (simp add: rearranges_def)
      moreover have "members ?r = members h - {r}"
        using rearranges_members [OF ru] set by (simp add: members_def)
      moreover have "thDeadline ?r = thDeadline h" using ru by (simp add: rearranges_def)
      ultimately show ?thesis by (simp add: heapOk_def)
    qed
  qed
  then show "heapOk ?r" and "members ?r = members h - {r}" and "thDeadline ?r = thDeadline h"
    by auto
qed

section \<open>The first entry is due first\<close>

lemma heapOrdered_root: "heapOrdered h \<Longrightarrow> j < length (thEntries h) \<Longrightarrow> deadlineAt h 0 \<le> deadlineAt h j"
proof (induction j rule: less_induct)
  case (less j)
  show ?case
  proof (cases "j = 0")
    case False
    then have "deadlineAt h 0 \<le> deadlineAt h (parentIndex j)"
      using less parent_less [of j] by auto
    also have "\<dots> \<le> deadlineAt h j"
      using less.prems False by (simp add: heapOrdered_def ordered_def)
    finally show ?thesis .
  qed simp
qed

lemma root_earliest:
  "heapOk h \<Longrightarrow> r \<in> members h \<Longrightarrow> deadlineAt h 0 \<le> thDeadline h r"
  using heapOrdered_root by (auto simp: heapOk_def members_def in_set_conv_nth deadlineAt_def)

lemma root_member: "thEntries h \<noteq> [] \<Longrightarrow> thEntries h ! 0 \<in> members h"
  by (simp add: members_def)

section \<open>The deadline of an entry that leaves\<close>

text \<open>
  A settled request gets the deadline -1, sometimes while it is still in the heap: its deadline is
  never compared once it is being removed.
\<close>

definition setDeadline :: "nat \<Rightarrow> int \<Rightarrow> timeoutHeap \<Rightarrow> timeoutHeap" where
  "setDeadline r d h = h\<lparr>thDeadline := (thDeadline h)(r := d)\<rparr>"

lemma setDeadline_sel [simp]:
  "thEntries (setDeadline r d h) = thEntries h" "thIndex (setDeadline r d h) = thIndex h"
  "members (setDeadline r d h) = members h"
  "thDeadline (setDeadline r d h) = (thDeadline h)(r := d)"
  by (simp_all add: setDeadline_def members_def)

lemma deadlineAt_set: "r \<notin> members h \<Longrightarrow> i < length (thEntries h) \<Longrightarrow>
    deadlineAt (setDeadline r d h) i = deadlineAt h i"
  using nth_mem [of i "thEntries h"] by (auto simp: deadlineAt_def members_def)

lemma swap_set: "swapTimeoutEntries i j (setDeadline r d h) = setDeadline r d (swapTimeoutEntries i j h)"
  by (simp add: swapTimeoutEntries_def setDeadline_def Let_def)

lemma members_swap: "i < length (thEntries h) \<Longrightarrow> j < length (thEntries h) \<Longrightarrow>
    members (swapTimeoutEntries i j h) = members h"
  by (rule rearranges_members [OF rearranges_swap])

lemma heapifyUp_set:
  "r \<notin> members h \<Longrightarrow> i < length (thEntries h) \<Longrightarrow>
    heapifyUp i (setDeadline r d h) = setDeadline r d (heapifyUp i h)"
proof (induction i h rule: heapifyUp.induct)
  case (1 i h)
  show ?case
  proof (cases "i = 0")
    case True
    then show ?thesis by (simp add: heapifyUp.simps)
  next
    case False
    then have p: "parentIndex i < length (thEntries h)" using 1(3) parent_less [of i] by simp
    show ?thesis
      unfolding heapifyUp.simps [of i h] heapifyUp.simps [of i "setDeadline r d h"]
      using 1 False p by (simp add: deadlineAt_set swap_set members_swap)
  qed
qed

lemma smallestChild_set:
  "r \<notin> members h \<Longrightarrow> i < length (thEntries h) \<Longrightarrow> smallestChild i (setDeadline r d h) = smallestChild i h"
  by (cases "Suc (i * 2) < length (thEntries h)"; cases "Suc (Suc (i * 2)) < length (thEntries h)")
    (simp_all add: smallestChild_def deadlineAt_set Let_def)

lemma heapifyDown_set:
  "r \<notin> members h \<Longrightarrow> i < length (thEntries h) \<Longrightarrow>
    heapifyDown i (setDeadline r d h) = setDeadline r d (heapifyDown i h)"
proof (induction i h rule: heapifyDown.induct)
  case (1 i h)
  have s: "smallestChild i h \<noteq> i \<Longrightarrow> smallestChild i h < length (thEntries h)"
    using smallestChild_cases [of i h] by auto
  show ?case
    unfolding heapifyDown.simps [of i h] heapifyDown.simps [of i "setDeadline r d h"]
    using 1(1) [OF refl] 1(2,3) s by (auto simp: smallestChild_set swap_set members_swap Let_def)
qed

lemma remove_set:
  assumes "indexed h"
  shows "removeTimeoutEntry r (setDeadline r d h) = setDeadline r d (removeTimeoutEntry r h)"
proof (cases "thIndex h r < 0 \<or> thIndex h r \<ge> int (length (thEntries h))")
  case True
  then show ?thesis by (simp add: removeTimeoutEntry_def)
next
  case False
  let ?es = "thEntries h" and ?i = "nat (thIndex h r)"
  have i: "?i < length ?es" using False by auto
  have at: "?es ! ?i = r"
  proof -
    have "r \<in> set ?es" using assms False by (auto simp: indexed_def)
    then obtain k where "k < length ?es" "?es ! k = r" by (auto simp: in_set_conv_nth)
    then show ?thesis using assms by (auto simp: indexed_def)
  qed
  obtain rest l where es: "?es = rest @ [l]" using i by (cases ?es rule: rev_cases) auto
  show ?thesis
  proof (cases "?i = length rest")
    case True
    with False show ?thesis by (simp add: removeTimeoutEntry_def Let_def es setDeadline_def)
  next
    case ne: False
    then have il: "?i < length rest" using i es by simp
    have "rest ! ?i = r" using at il by (simp add: es nth_append)
    moreover have "distinct rest" "l \<notin> set rest" using assms es by (auto simp: indexed_def)
    moreover have "r \<noteq> l" using calculation nth_mem [OF il] by auto
    ultimately have notin: "r \<notin> set (rest[?i := l])" using il by (auto simp: set_update_distinct)
    let ?h = "h\<lparr>thEntries := rest[?i := l], thIndex := (thIndex h)(l := thIndex h r, r := -1)\<rparr>"
    have m: "r \<notin> members ?h" using notin by (simp add: members_def)
    have len: "length (thEntries (heapifyDown ?i ?h)) = length rest"
      using rearranges_length [OF heapifyDown_rearranges, of ?i ?h] il by simp
    have md: "r \<notin> members (heapifyDown ?i ?h)"
      using rearranges_members [OF heapifyDown_rearranges, of ?i ?h] il m by simp
    have e: "(setDeadline r d h)\<lparr>thEntries := rest[?i := l],
        thIndex := (thIndex h)(l := thIndex h r, r := -1)\<rparr> = setDeadline r d ?h"
      by (simp add: setDeadline_def)
    have "removeTimeoutEntry r (setDeadline r d h) =
        heapifyUp ?i (heapifyDown ?i (setDeadline r d ?h))"
      using False ne by (simp add: removeTimeoutEntry_def Let_def es e)
    also have "\<dots> = setDeadline r d (heapifyUp ?i (heapifyDown ?i ?h))"
      using il m md len by (simp add: heapifyDown_set heapifyUp_set)
    also have "heapifyUp ?i (heapifyDown ?i ?h) = removeTimeoutEntry r h"
      using False ne by (simp add: removeTimeoutEntry_def Let_def es)
    finally show ?thesis .
  qed
qed

lemma heapOk_set: "heapOk h \<Longrightarrow> r \<notin> members h \<Longrightarrow> heapOk (setDeadline r d h)"
proof -
  assume h: "heapOk h" and r: "r \<notin> members h"
  have "ordered (setDeadline r d h) j" if "0 < j" "j < length (thEntries h)" for j
    using h that parent_less [of j] r
    by (simp add: heapOk_def heapOrdered_def ordered_def deadlineAt_set)
  then show ?thesis
    using h by (simp add: heapOk_def heapOrdered_def indexed_def)
qed

section \<open>The contract of a deadline queue\<close>

text \<open>
  What the multiplexer relies on: entries are added and removed one by one, and the first entry,
  when there is one, is due no later than any other.
\<close>

locale deadline_queue =
  fixes ok :: "'h \<Rightarrow> bool"
    and elems :: "'h \<Rightarrow> nat set"
    and due :: "'h \<Rightarrow> nat \<Rightarrow> int"
    and push :: "nat \<Rightarrow> int \<Rightarrow> 'h \<Rightarrow> 'h"
    and remove :: "nat \<Rightarrow> 'h \<Rightarrow> 'h"
    and first :: "'h \<Rightarrow> nat option"
  assumes finite_elems: "finite (elems h)"
    and push_ok: "ok h \<Longrightarrow> r \<notin> elems h \<Longrightarrow> ok (push r d h)"
    and push_elems: "ok h \<Longrightarrow> r \<notin> elems h \<Longrightarrow> elems (push r d h) = insert r (elems h)"
    and push_due: "ok h \<Longrightarrow> r \<notin> elems h \<Longrightarrow> due (push r d h) = (due h)(r := d)"
    and remove_ok: "ok h \<Longrightarrow> ok (remove r h)"
    and remove_elems: "ok h \<Longrightarrow> elems (remove r h) = elems h - {r}"
    and remove_due: "ok h \<Longrightarrow> due (remove r h) = due h"
    and first_None: "ok h \<Longrightarrow> first h = None \<longleftrightarrow> elems h = {}"
    and first_Some: "ok h \<Longrightarrow> first h = Some r \<Longrightarrow> r \<in> elems h \<and> (\<forall>q \<in> elems h. due h r \<le> due h q)"
begin

text \<open>When the first entry is not yet due, nothing is.\<close>

lemma none_due:
  assumes "ok h" and "\<And>r. first h = Some r \<Longrightarrow> now < due h r" and "q \<in> elems h"
  shows "now < due h q"
proof (cases "first h")
  case None
  with assms(1,3) show ?thesis by (simp add: first_None)
next
  case (Some r)
  then have "due h r \<le> due h q" using first_Some [OF assms(1) Some] assms(3) by blast
  with assms(2) [OF Some] show ?thesis by simp
qed

lemma remove_fewer: "ok h \<Longrightarrow> r \<in> elems h \<Longrightarrow> card (elems (remove r h)) < card (elems h)"
  using card_Diff1_less [OF finite_elems, of r h] by (simp add: remove_elems)

lemma remove_no_elem: "ok h \<Longrightarrow> r \<notin> elems h \<Longrightarrow> elems (remove r h) = elems h"
  by (simp add: remove_elems)

end

definition firstEntry :: "timeoutHeap \<Rightarrow> nat option" where
  "firstEntry h = (case thEntries h of [] \<Rightarrow> None | r # _ \<Rightarrow> Some r)"

lemma finite_members: "finite (members h)"
  by (simp add: members_def)

lemma firstEntry_None: "firstEntry h = None \<longleftrightarrow> members h = {}"
  by (simp add: firstEntry_def members_def split: list.splits)

interpretation heap: deadline_queue heapOk members thDeadline pushTimeoutEntry removeTimeoutEntry
  firstEntry
proof unfold_locales
  fix h :: timeoutHeap and r
  assume ok: "heapOk h" and f: "firstEntry h = Some r"
  have "thEntries h \<noteq> []" and r: "r = thEntries h ! 0"
    using f by (auto simp: firstEntry_def split: list.splits)
  then show "r \<in> members h \<and> (\<forall>q \<in> members h. thDeadline h r \<le> thDeadline h q)"
    using root_earliest [OF ok] root_member by (auto simp: deadlineAt_def)
qed (simp_all add: push_facts remove_facts finite_members firstEntry_None)

section \<open>Properties\<close>

text \<open>
  C39: the binary heap serves the earliest deadline: its first entry is due no later than any other,
  and taking it out leaves a heap of exactly the others.
\<close>

theorem heap_serves_earliest:
  assumes "heapOk h" and "firstEntry h = Some r"
  shows "r \<in> members h \<and> (\<forall>q \<in> members h. thDeadline h r \<le> thDeadline h q) \<and>
    heapOk (removeTimeoutEntry r h) \<and> members (removeTimeoutEntry r h) = members h - {r}"
  using heap.first_Some [OF assms] heap.remove_ok [OF assms(1)] heap.remove_elems [OF assms(1)] by blast

lemma heap_serves_earliest_witness:
  "\<exists>r. firstEntry (pushTimeoutEntry 7 5 (pushTimeoutEntry 3 9 emptyHeap)) = Some r \<and>
    thDeadline (pushTimeoutEntry 7 5 (pushTimeoutEntry 3 9 emptyHeap)) r \<le> 5"
proof -
  let ?h1 = "pushTimeoutEntry 3 9 emptyHeap" and ?h = "pushTimeoutEntry 7 5 (pushTimeoutEntry 3 9 emptyHeap)"
  have one: "heapOk ?h1" "members ?h1 = {3}"
    using push_facts [OF heapOk_empty] by (simp_all add: members_empty)
  have two: "heapOk ?h" "members ?h = {7, 3}" "thDeadline ?h 7 = 5"
    using push_facts [OF one(1)] one(2) by simp_all
  obtain r where r: "firstEntry ?h = Some r" using firstEntry_None [of ?h] two(2) by auto
  from heap_serves_earliest [OF two(1) r] have "thDeadline ?h r \<le> thDeadline ?h 7" using two(2) by blast
  with r two(3) show ?thesis by simp
qed

end
