(* ===== verification/PendingRing.thy ===== *)
theory PendingRing
  imports Errors
begin

text \<open>
  The FIFO queues of \<^verbatim>\<open>src/client/multiplexer.ts\<close> that match uncorrelated responses: a growing
  ring buffer of requests per message type. A request carries its slot (\<^verbatim>\<open>queueIndex\<close>), here a
  function of the request that every operation threads.
\<close>

section \<open>The ring\<close>

record pendingQueue =
  pqQueue :: "nat option list"
  pqHead :: nat
  pqTail :: nat
  pqSize :: nat

type_synonym slots = "nat \<Rightarrow> int"

definition newPendingQueue :: pendingQueue where
  "newPendingQueue = \<lparr>pqQueue = replicate 128 None, pqHead = 0, pqTail = 0, pqSize = 0\<rparr>"

text \<open>The copy loop of \<^verbatim>\<open>growPendingQueue\<close>, from index \<open>i\<close> for \<open>n\<close> more entries.\<close>

fun copyEntries ::
  "nat \<Rightarrow> nat \<Rightarrow> pendingQueue \<Rightarrow> nat option list \<times> slots \<Rightarrow> nat option list \<times> slots" where
  "copyEntries 0 i q st = st"
| "copyEntries (Suc n) i q (newQueue, ix) =
    (let entry = pqQueue q ! ((pqHead q + i) mod length (pqQueue q)) in
     copyEntries n (Suc i) q
       (newQueue[i := entry], (case entry of Some r \<Rightarrow> ix(r := int i) | None \<Rightarrow> ix)))"

definition growPendingQueue :: "pendingQueue \<Rightarrow> slots \<Rightarrow> pendingQueue \<times> slots" where
  "growPendingQueue q ix =
    (let newCapacity = max (length (pqQueue q) * 2) 16;
         (newQueue, ix) = copyEntries (pqSize q) 0 q (replicate newCapacity None, ix)
     in (\<lparr>pqQueue = newQueue, pqHead = 0, pqTail = pqSize q, pqSize = pqSize q\<rparr>, ix))"

definition enqueuePendingRequest :: "pendingQueue \<Rightarrow> nat \<Rightarrow> slots \<Rightarrow> pendingQueue \<times> slots" where
  "enqueuePendingRequest q r ix =
    (let (q, ix) = (if pqSize q \<ge> length (pqQueue q) then growPendingQueue q ix else (q, ix)) in
     (q\<lparr>pqQueue := (pqQueue q)[pqTail q := Some r],
        pqTail := (pqTail q + 1) mod length (pqQueue q),
        pqSize := pqSize q + 1\<rparr>,
      ix(r := int (pqTail q))))"

text \<open>
  Holes are skipped without changing the size, so a ring of holes with a size left would be
  scanned forever: \<^verbatim>\<open>None\<close> is the scan that does not return.
\<close>

partial_function (option) dequeuePendingRequest ::
  "pendingQueue \<Rightarrow> (nat result \<times> pendingQueue) option" where
  "dequeuePendingRequest q =
    (if pqSize q > 0 then
       (let request = pqQueue q ! pqHead q;
            q' = q\<lparr>pqQueue := (pqQueue q)[pqHead q := None],
                   pqHead := (pqHead q + 1) mod length (pqQueue q)\<rparr>
        in (case request of
              Some r \<Rightarrow> Some (Inr r, q'\<lparr>pqSize := pqSize q' - 1\<rparr>)
            | None \<Rightarrow> dequeuePendingRequest q'))
     else Some (Inl PlainError, q))"

declare dequeuePendingRequest.simps [code]

text \<open>\<^verbatim>\<open>while (size > 0 && queue[head] === undefined) head = (head + 1) % queue.length\<close>\<close>

partial_function (option) skipHoles :: "pendingQueue \<Rightarrow> pendingQueue option" where
  "skipHoles q =
    (if pqSize q > 0 \<and> pqQueue q ! pqHead q = None
     then skipHoles (q\<lparr>pqHead := (pqHead q + 1) mod length (pqQueue q)\<rparr>)
     else Some q)"

declare skipHoles.simps [code]

text \<open>
  The part of \<^verbatim>\<open>unregisterRequest\<close> that works on the queue of the request's type: \<^verbatim>\<open>Inl\<close> when
  the code returns early, with nothing changed.
\<close>

definition removeFromQueue :: "pendingQueue \<Rightarrow> nat \<Rightarrow> slots \<Rightarrow> (unit + pendingQueue) option" where
  "removeFromQueue q r ix =
    (if pqSize q = 0 then Some (Inl ())
     else (let index = ix r in
       if index < 0 \<or> index \<ge> int (length (pqQueue q)) then Some (Inl ())
       else if pqQueue q ! nat index \<noteq> Some r then Some (Inl ())
       else (let i = nat index;
                 q' = q\<lparr>pqQueue := (pqQueue q)[i := None], pqSize := pqSize q - 1\<rparr>
             in
             if i = pqHead q' then map_option Inr (skipHoles q')
             else (let expectedTailIndex =
                         (if pqTail q' = 0 then length (pqQueue q') - 1 else pqTail q' - 1)
                   in Some (Inr (if i = expectedTailIndex then q'\<lparr>pqTail := i\<rparr> else q'))))))"

section \<open>The queue of requests a ring stands for\<close>

definition slotOf :: "pendingQueue \<Rightarrow> nat \<Rightarrow> nat" where
  "slotOf q i = (pqHead q + i) mod length (pqQueue q)"

text \<open>The ring holds exactly the list, from its head on, and every request knows its slot.\<close>

definition holds :: "pendingQueue \<Rightarrow> slots \<Rightarrow> nat list \<Rightarrow> bool" where
  "holds q ix rs \<longleftrightarrow>
     pqSize q = length rs \<and> length rs \<le> length (pqQueue q) \<and> pqHead q < length (pqQueue q) \<and>
     pqTail q = slotOf q (length rs) \<and> distinct rs \<and>
     (\<forall>i < length rs. pqQueue q ! slotOf q i = Some (rs ! i) \<and> ix (rs ! i) = int (slotOf q i)) \<and>
     (\<forall>j < length (pqQueue q). (\<forall>i < length rs. slotOf q i \<noteq> j) \<longrightarrow> pqQueue q ! j = None)"

lemma holds_new: "holds newPendingQueue ix []"
  by (simp add: holds_def newPendingQueue_def slotOf_def)

lemma slotOf_less: "pqHead q < length (pqQueue q) \<Longrightarrow> slotOf q i < length (pqQueue q)"
  by (auto simp: slotOf_def intro: mod_less_divisor)

lemma mod_wrap: "h < n \<Longrightarrow> i \<le> n \<Longrightarrow> (h + i) mod n = (if h + i < n then h + i else h + i - n)"
  for h i n :: nat
  by (simp add: mod_if)

lemma slotOf_wrap:
  "pqHead q < length (pqQueue q) \<Longrightarrow> i \<le> length (pqQueue q) \<Longrightarrow>
    slotOf q i = (if pqHead q + i < length (pqQueue q) then pqHead q + i
                  else pqHead q + i - length (pqQueue q))"
  by (simp add: slotOf_def mod_wrap)

lemma slotOf_upd [simp]:
  "slotOf (pqSize_update f q) i = slotOf q i"
  "slotOf (pqTail_update f q) i = slotOf q i"
  "length xs = length (pqQueue q) \<Longrightarrow> slotOf (pqQueue_update (\<lambda>_. xs) q) i = slotOf q i"
  by (simp_all add: slotOf_def)

lemma slotOf_inj:
  "pqHead q < length (pqQueue q) \<Longrightarrow> i < length (pqQueue q) \<Longrightarrow> j < length (pqQueue q) \<Longrightarrow>
    slotOf q i = slotOf q j \<longleftrightarrow> i = j"
  by (auto simp: slotOf_wrap split: if_splits)

section \<open>Growing and enqueueing\<close>

lemma copyEntries_facts:
  assumes "\<And>j. j < length rs \<Longrightarrow> pqQueue q ! slotOf q j = Some (rs ! j)" and "distinct rs"
    and "i + n = length rs" and "length rs \<le> length nq"
    and "copyEntries n i q (nq, ix) = (nq', ix')"
  shows "length nq' = length nq \<and>
    (\<forall>j < length nq. nq' ! j = (if i \<le> j \<and> j < i + n then Some (rs ! j) else nq ! j)) \<and>
    (\<forall>j. i \<le> j \<longrightarrow> j < length rs \<longrightarrow> ix' (rs ! j) = int j) \<and>
    (\<forall>r. r \<notin> set (drop i rs) \<longrightarrow> ix' r = ix r)"
  using assms(3-)
proof (induction n arbitrary: i nq ix)
  case 0
  then show ?case by auto
next
  case (Suc n)
  have i: "i < length rs" using Suc.prems(1) by simp
  have entry: "pqQueue q ! ((pqHead q + i) mod length (pqQueue q)) = Some (rs ! i)"
    using assms(1) [OF i] by (simp add: slotOf_def)
  have rest: "copyEntries n (Suc i) q (nq[i := Some (rs ! i)], ix(rs ! i := int i)) = (nq', ix')"
    using Suc.prems(3) by (simp add: entry Let_def)
  have drop: "drop i rs = rs ! i # drop (Suc i) rs" using i by (simp add: Cons_nth_drop_Suc)
  have notin: "rs ! i \<notin> set (drop (Suc i) rs)"
    using assms(2) drop by (metis distinct.simps(2) distinct_drop)
  have p1: "Suc i + n = length rs" and p2: "length rs \<le> length (nq[i := Some (rs ! i)])"
    using Suc.prems(1,2) by simp_all
  have IH: "length nq' = length nq \<and>
    (\<forall>j < length nq. nq' ! j = (if Suc i \<le> j \<and> j < Suc i + n then Some (rs ! j)
        else nq[i := Some (rs ! i)] ! j)) \<and>
    (\<forall>j. Suc i \<le> j \<longrightarrow> j < length rs \<longrightarrow> ix' (rs ! j) = int j) \<and>
    (\<forall>r. r \<notin> set (drop (Suc i) rs) \<longrightarrow> ix' r = (ix(rs ! i := int i)) r)"
    using Suc.IH [OF p1 p2 rest] unfolding length_list_update .
  have "ix' (rs ! j) = int j" if "i \<le> j" "j < length rs" for j
    using that IH notin by (cases "j = i") auto
  moreover have "ix' r = ix r" if "r \<notin> set (drop i rs)" for r
    using that IH by (auto simp: drop)
  ultimately show ?case
    using IH i Suc.prems(2) by (auto simp: nth_list_update)
qed

lemma grow_holds:
  assumes "holds q ix rs" and "growPendingQueue q ix = (q', ix')"
  shows "holds q' ix' rs \<and> length rs < length (pqQueue q') \<and> (\<forall>r. r \<notin> set rs \<longrightarrow> ix' r = ix r)"
proof -
  let ?cap = "max (length (pqQueue q) * 2) 16"
  obtain nq where c: "copyEntries (pqSize q) 0 q (replicate ?cap None, ix) = (nq, ix')"
    and q': "q' = \<lparr>pqQueue = nq, pqHead = 0, pqTail = pqSize q, pqSize = pqSize q\<rparr>"
    using assms(2) by (auto simp: growPendingQueue_def Let_def split: prod.splits)
  have len: "pqSize q = length rs" "length rs < ?cap" using assms(1) by (auto simp: holds_def max_def)
  have facts: "length nq = ?cap \<and>
    (\<forall>j < ?cap. nq ! j = (if j < length rs then Some (rs ! j) else None)) \<and>
    (\<forall>j < length rs. ix' (rs ! j) = int j) \<and> (\<forall>r. r \<notin> set rs \<longrightarrow> ix' r = ix r)"
    using copyEntries_facts [of rs q 0 "pqSize q" "replicate ?cap None" ix nq ix'] assms(1) c len
    by (simp add: holds_def)
  have slot: "slotOf q' j = j" if "j < ?cap" for j using that facts by (simp add: slotOf_def q')
  show ?thesis
    using facts len assms(1)
    unfolding holds_def by (auto simp: slot q' simp: slotOf_def)
qed

lemma enqueue_room:
  assumes "holds q ix rs" and "length rs < length (pqQueue q)" and "r \<notin> set rs"
  shows "holds (q\<lparr>pqQueue := (pqQueue q)[pqTail q := Some r],
        pqTail := (pqTail q + 1) mod length (pqQueue q), pqSize := pqSize q + 1\<rparr>)
      (ix(r := int (pqTail q))) (rs @ [r])" (is "holds ?q ?ix _")
proof -
  let ?n = "length (pqQueue q)"
  have h: "pqHead q < ?n" and tail: "pqTail q = slotOf q (length rs)" and sz: "pqSize q = length rs"
    and dist: "distinct rs"
    using assms(1) by (auto simp: holds_def)
  have at: "pqQueue q ! slotOf q i = Some (rs ! i)" "ix (rs ! i) = int (slotOf q i)"
    if "i < length rs" for i
    using that assms(1) by (auto simp: holds_def)
  have slot: "slotOf ?q i = slotOf q i" for i by simp
  have ne: "slotOf q i \<noteq> pqTail q" if "i < length rs" for i
    using that assms(2) h slotOf_inj [OF h, of i "length rs"] by (simp add: tail)
  have rne: "rs ! i \<noteq> r" if "i < length rs" for i using that assms(3) nth_mem by metis
  have tl: "pqTail q < ?n" using h by (simp add: tail slotOf_less)
  show ?thesis
    unfolding holds_def
  proof (intro conjI allI impI)
    show "pqTail ?q = slotOf ?q (length (rs @ [r]))"
      by (simp add: tail slotOf_def mod_Suc_eq)
  next
    fix i assume "i < length (rs @ [r])"
    then consider (old) "i < length rs" | (new) "i = length rs" by fastforce
    then show "pqQueue ?q ! slotOf ?q i = Some ((rs @ [r]) ! i)"
    proof cases
      case old
      then show ?thesis using at(1) [OF old] ne [OF old, symmetric] by (simp add: nth_append)
    next
      case new
      then show ?thesis using tl by (simp add: slot tail)
    qed
  next
    fix i assume "i < length (rs @ [r])"
    then consider (old) "i < length rs" | (new) "i = length rs" by fastforce
    then show "?ix ((rs @ [r]) ! i) = int (slotOf ?q i)"
    proof cases
      case old
      then show ?thesis using at rne by (simp add: slot nth_append)
    next
      case new
      then show ?thesis by (simp add: slot tail)
    qed
  next
    fix j assume j: "j < length (pqQueue ?q)" "\<forall>i < length (rs @ [r]). slotOf ?q i \<noteq> j"
    then have "j \<noteq> pqTail q" using tail slot by (auto simp: slotOf_def)
    with j assms(1) show "pqQueue ?q ! j = None"
      by (auto simp: holds_def slot)
  qed (use h dist assms(2,3) sz in simp_all)
qed

lemma enqueue_holds:
  assumes "holds q ix rs" and "r \<notin> set rs" and "enqueuePendingRequest q r ix = (q', ix')"
  shows "holds q' ix' (rs @ [r])" and "\<forall>p. p \<notin> set rs \<longrightarrow> p \<noteq> r \<longrightarrow> ix' p = ix p"
proof -
  have "holds q' ix' (rs @ [r]) \<and> (\<forall>p. p \<notin> set rs \<longrightarrow> p \<noteq> r \<longrightarrow> ix' p = ix p)"
  proof (cases "pqSize q \<ge> length (pqQueue q)")
    case True
    obtain q1 ix1 where g: "growPendingQueue q ix = (q1, ix1)" by (cases "growPendingQueue q ix")
    note facts = grow_holds [OF assms(1) g]
    show ?thesis
      using assms(3) enqueue_room [OF _ _ assms(2), of q1 ix1] facts True
      by (auto simp: enqueuePendingRequest_def g Let_def)
  next
    case False
    then have "length rs < length (pqQueue q)" using assms(1) by (simp add: holds_def)
    then show ?thesis
      using assms(3) enqueue_room [OF assms(1) _ assms(2)] False
      by (auto simp: enqueuePendingRequest_def Let_def)
  qed
  then show "holds q' ix' (rs @ [r])" and "\<forall>p. p \<notin> set rs \<longrightarrow> p \<noteq> r \<longrightarrow> ix' p = ix p" by auto
qed

section \<open>Dequeueing and removing\<close>

lemma slotOf_Suc: "(slotOf q 1 + i) mod length (pqQueue q) = slotOf q (Suc i)"
  by (simp add: slotOf_def mod_add_left_eq)

text \<open>Dropping the head, with or without the size: the rest of the list is held.\<close>

lemma drop_head:
  assumes "holds q ix (r # rs)"
  shows "holds (q\<lparr>pqQueue := (pqQueue q)[pqHead q := None],
      pqHead := (pqHead q + 1) mod length (pqQueue q), pqSize := pqSize q - 1\<rparr>) ix rs"
    (is "holds ?q _ _")
proof -
  let ?n = "length (pqQueue q)"
  have h: "pqHead q < ?n" and sz: "pqSize q = Suc (length rs)" "Suc (length rs) \<le> ?n"
    and dist: "distinct (r # rs)"
    using assms by (auto simp: holds_def)
  have at: "pqQueue q ! slotOf q i = Some ((r # rs) ! i)" "ix ((r # rs) ! i) = int (slotOf q i)"
    if "i < Suc (length rs)" for i
    using that assms by (auto simp: holds_def)
  have none: "pqQueue q ! j = None" if "j < ?n" "\<forall>i < Suc (length rs). slotOf q i \<noteq> j" for j
    using that assms by (auto simp: holds_def)
  have slot: "slotOf ?q i = slotOf q (Suc i)" for i
    by (simp add: slotOf_def mod_add_left_eq)
  have zero: "slotOf q 0 = pqHead q" using h by (simp add: slotOf_def)
  have ne: "slotOf q (Suc i) \<noteq> pqHead q" if "i < length rs" for i
    using slotOf_inj [OF h, of "Suc i" 0] that sz h zero by (cases "pqQueue q") simp_all
  show ?thesis
    unfolding holds_def
  proof (intro conjI allI impI)
    show "pqHead ?q < length (pqQueue ?q)" 
    proof -
      have "0 < ?n" using h by linarith
      then show ?thesis using mod_less_divisor [of ?n "pqHead q + 1"] by simp
    qed
    show "pqTail ?q = slotOf ?q (length rs)" unfolding slot using assms by (simp add: holds_def)
  next
    fix i assume i: "i < length rs"
    show "pqQueue ?q ! slotOf ?q i = Some (rs ! i)"
      using at(1) [of "Suc i"] ne [OF i, symmetric] i unfolding slot by simp
    show "ix (rs ! i) = int (slotOf ?q i)"
      using at(2) [of "Suc i"] i unfolding slot by simp
  next
    fix j assume j: "j < length (pqQueue ?q)" "\<forall>i < length rs. slotOf ?q i \<noteq> j"
    show "pqQueue ?q ! j = None"
    proof (cases "j = pqHead q")
      case True
      then show ?thesis using h by simp
    next
      case False
      have "slotOf q i \<noteq> j" if "i < Suc (length rs)" for i
        using that j(2) False zero unfolding slot by (cases i) auto
      then show ?thesis using none [of j] j(1) False by simp
    qed
  qed (use sz dist in simp_all)
qed

lemma dequeue_holds:
  assumes "holds q ix (r # rs)"
  shows "\<exists>q'. dequeuePendingRequest q = Some (Inr r, q') \<and> holds q' ix rs"
proof -
  have "pqQueue q ! pqHead q = Some r" and sz: "0 < pqSize q"
    using assms by (auto simp: holds_def slotOf_def)
  then have "dequeuePendingRequest q = Some (Inr r, q\<lparr>pqQueue := (pqQueue q)[pqHead q := None],
      pqHead := (pqHead q + 1) mod length (pqQueue q), pqSize := pqSize q - 1\<rparr>)"
    by (simp add: dequeuePendingRequest.simps [of q] Let_def)
  with drop_head [OF assms] show ?thesis by blast
qed

text \<open>The newest request of a ring, and the oldest, are removed in place.\<close>

lemma removeFromQueue_newest:
  assumes "holds q ix (rs @ [r])"
  shows "\<exists>q'. removeFromQueue q r ix = Some (Inr q') \<and> (rs \<noteq> [] \<longrightarrow> holds q' ix rs) \<and>
    pqSize q' = length rs"
proof -
  let ?n = "length (pqQueue q)" and ?i = "slotOf q (length rs)"
  have h: "pqHead q < ?n" and sz: "pqSize q = Suc (length rs)" "Suc (length rs) \<le> ?n"
    and dist: "distinct (rs @ [r])" and tail: "pqTail q = slotOf q (Suc (length rs))"
    using assms by (auto simp: holds_def)
  have at: "pqQueue q ! slotOf q i = Some ((rs @ [r]) ! i)" "ix ((rs @ [r]) ! i) = int (slotOf q i)"
    if "i < Suc (length rs)" for i
    using that assms by (auto simp: holds_def)
  have none: "pqQueue q ! j = None" if "j < ?n" "\<forall>i < Suc (length rs). slotOf q i \<noteq> j" for j
    using that assms by (auto simp: holds_def)
  have here: "pqQueue q ! ?i = Some r" "ix r = int ?i" using at [of "length rs"] by simp_all
  have il: "?i < ?n" by (rule slotOf_less [OF h])
  have head: "?i = pqHead q \<longleftrightarrow> rs = []"
    using slotOf_inj [OF h, of "length rs" 0] h sz by (cases "pqQueue q") (simp_all add: slotOf_def)
  have exp: "(if pqTail q = 0 then ?n - 1 else pqTail q - 1) = ?i"
    using h sz by (auto simp: tail slotOf_wrap split: if_splits)
  let ?q = "q\<lparr>pqQueue := (pqQueue q)[?i := None], pqSize := pqSize q - 1\<rparr>"
  show ?thesis
  proof (cases "rs = []")
    case True
    then have "skipHoles ?q = Some ?q" using sz by (subst skipHoles.simps) simp
    then show ?thesis
      using True here il head sz by (simp add: removeFromQueue_def Let_def)
  next
    case False
    let ?q' = "?q\<lparr>pqTail := ?i\<rparr>"
    have eq: "removeFromQueue q r ix = Some (Inr ?q')"
      using False here il head sz exp by (auto simp: removeFromQueue_def Let_def split: if_splits)
    have ne: "slotOf q i \<noteq> ?i" if "i < length rs" for i
      using slotOf_inj [OF h, of i "length rs"] that sz by simp
    have "holds ?q' ix rs"
      unfolding holds_def
    proof (intro conjI allI impI)
      fix i assume i: "i < length rs"
      show "pqQueue ?q' ! slotOf ?q' i = Some (rs ! i)"
        using at(1) [of i] ne [OF i, symmetric] i by (simp add: nth_append)
      show "ix (rs ! i) = int (slotOf ?q' i)" using at(2) [of i] i by (simp add: nth_append)
    next
      fix j assume j: "j < length (pqQueue ?q')" "\<forall>i < length rs. slotOf ?q' i \<noteq> j"
      show "pqQueue ?q' ! j = None"
      proof (cases "j = ?i")
        case True
        then show ?thesis using il by simp
      next
        case False
        then have "slotOf q i \<noteq> j" if "i < Suc (length rs)" for i
          using that j(2) by (cases "i = length rs") auto
        then show ?thesis using none [of j] j(1) False by simp
      qed
    qed (use h sz dist in simp_all)
    with eq sz show ?thesis by auto
  qed
qed

section \<open>The contract of a FIFO\<close>

text \<open>
  The multiplexer's view: a ring stands for the list of requests awaiting a response of one type,
  oldest first.
\<close>

datatype fifoOp = Put nat | Take

text \<open>A request is put while it is not waiting.\<close>

fun freshPuts :: "fifoOp list \<Rightarrow> nat list \<Rightarrow> bool" where
  "freshPuts [] rs = True"
| "freshPuts (Put r # ops) rs = (r \<notin> set rs \<and> freshPuts ops (rs @ [r]))"
| "freshPuts (Take # ops) rs = freshPuts ops (tl rs)"

fun servedInOrder :: "fifoOp list \<Rightarrow> nat list \<Rightarrow> nat result list" where
  "servedInOrder [] rs = []"
| "servedInOrder (Put r # ops) rs = servedInOrder ops (rs @ [r])"
| "servedInOrder (Take # ops) [] = Inl PlainError # servedInOrder ops []"
| "servedInOrder (Take # ops) (r # rs) = Inr r # servedInOrder ops rs"

locale fifo =
  fixes rep :: "'q \<Rightarrow> 'i \<Rightarrow> nat list \<Rightarrow> bool"
    and empty :: 'q
    and enq :: "'q \<Rightarrow> nat \<Rightarrow> 'i \<Rightarrow> 'q \<times> 'i"
    and deq :: "'q \<Rightarrow> (nat result \<times> 'q) option"
  assumes rep_empty: "rep empty ix []"
    and rep_enq: "rep q ix rs \<Longrightarrow> r \<notin> set rs \<Longrightarrow> enq q r ix = (q', ix') \<Longrightarrow> rep q' ix' (rs @ [r])"
    and rep_deq: "rep q ix (r # rs) \<Longrightarrow> \<exists>q'. deq q = Some (Inr r, q') \<and> rep q' ix rs"
    and rep_none: "rep q ix [] \<Longrightarrow> deq q = Some (Inl PlainError, q)"
begin

text \<open>
  Any interleaving of puts and takes, and the list that says what the takes return: the oldest request, or an error
  when there is none.
\<close>

fun serve :: "fifoOp list \<Rightarrow> 'q \<Rightarrow> 'i \<Rightarrow> nat result list option" where
  "serve [] q ix = Some []"
| "serve (Put r # ops) q ix = (case enq q r ix of (q, ix) \<Rightarrow> serve ops q ix)"
| "serve (Take # ops) q ix = (case deq q of Some (v, q) \<Rightarrow> map_option ((#) v) (serve ops q ix) | None \<Rightarrow> None)"

lemma serve_rep: "rep q ix rs \<Longrightarrow> freshPuts ops rs \<Longrightarrow> serve ops q ix = Some (servedInOrder ops rs)"
proof (induction ops arbitrary: q ix rs)
  case (Cons p ops)
  show ?case
  proof (cases p)
    case (Put r)
    obtain q1 ix1 where e: "enq q r ix = (q1, ix1)" by (cases "enq q r ix")
    have "rep q1 ix1 (rs @ [r])" using rep_enq [OF Cons.prems(1) _ e] Cons.prems(2) Put by simp
    from Cons.IH [OF this] Cons.prems Put e show ?thesis by simp
  next
    case Take
    show ?thesis
    proof (cases rs)
      case Nil
      then show ?thesis using Take Cons.IH [of q ix "[]"] Cons.prems rep_none [of q ix] by simp
    next
      case (Cons r rs')
      then obtain q1 where "deq q = Some (Inr r, q1)" "rep q1 ix rs'" using rep_deq Cons.prems(1) by blast
      then show ?thesis using Take Cons Cons.IH [of q1 ix rs'] Cons.prems(2) by simp
    qed
  qed
qed simp

text \<open>Whatever is put in comes out in the same order, however puts and takes alternate.\<close>

lemma first_in_first_out: "freshPuts ops [] \<Longrightarrow> serve ops empty ix = Some (servedInOrder ops [])"
  by (rule serve_rep [OF rep_empty])

end

lemma dequeue_none: "holds q ix [] \<Longrightarrow> dequeuePendingRequest q = Some (Inl PlainError, q)"
  by (simp add: dequeuePendingRequest.simps [of q] holds_def)

interpretation ring: fifo holds newPendingQueue enqueuePendingRequest dequeuePendingRequest
  by unfold_locales (auto intro: holds_new enqueue_holds(1) dequeue_holds dequeue_none)

section \<open>Properties\<close>

text \<open>
  C40: the ring is a first-in first-out queue. However puts and takes alternate, so wherever its head has moved to, whether it has
  wrapped around its end and however often it had to grow, every take returns the oldest request
  that is still waiting, and the error of the code when there is none.
\<close>

theorem pending_queue_fifo:
  assumes "freshPuts ops []"
  shows "ring.serve ops newPendingQueue ix = Some (servedInOrder ops [])"
  using assms by (rule ring.first_in_first_out)

text \<open>
  A run that puts \<open>m\<close> requests, takes \<open>k\<close> of them, puts the requests up to \<open>n\<close> and takes one more than are left. With
  \<open>m = 100\<close>, \<open>k = 90\<close> and \<open>n = 240\<close> the entries wrap around the end of the ring of 128, which then fills up
  and grows with its head in the middle.
\<close>

definition wrappingRun :: "nat \<Rightarrow> nat \<Rightarrow> nat \<Rightarrow> fifoOp list" where
  "wrappingRun m k n = map Put [0..<m] @ replicate k Take @ map Put [m..<n] @ replicate (n - k) Take @ [Take]"

lemma freshPuts_app: "distinct (rs @ new) \<Longrightarrow> freshPuts (map Put new @ ops) rs = freshPuts ops (rs @ new)"
  by (induction new arbitrary: rs) simp_all

lemma freshPuts_takes: "freshPuts (replicate n Take @ ops) rs = freshPuts ops (drop n rs)"
  by (induction n arbitrary: rs) (simp_all add: drop_Suc)

lemma served_puts: "servedInOrder (map Put new @ ops) rs = servedInOrder ops (rs @ new)"
  by (induction new arbitrary: rs) simp_all

lemma served_takes: "n \<le> length rs \<Longrightarrow> servedInOrder (replicate n Take @ ops) rs = map Inr (take n rs) @ servedInOrder ops (drop n rs)"
proof (induction n arbitrary: rs)
  case (Suc n)
  then show ?case by (cases rs) simp_all
qed simp

lemma wrappingRun_served:
  assumes "k \<le> m" and "m \<le> n"
  shows "freshPuts (wrappingRun m k n) [] \<and> servedInOrder (wrappingRun m k n) [] = map Inr [0..<n] @ [Inl PlainError]"
proof -
  have "[k..<m] @ [m..<n] = [k..<n]" "[0..<k] @ [k..<n] = [0..<n]"
    using upt_add_eq_append [of k m "n - m"] upt_add_eq_append [of 0 k "n - k"] assms by simp_all
  moreover have "freshPuts (wrappingRun m k n) []"
    using assms by (simp add: wrappingRun_def freshPuts_app freshPuts_takes)
  moreover have "servedInOrder (wrappingRun m k n) [] = map Inr ([0..<k] @ [k..<m] @ [m..<n]) @ [Inl PlainError]"
    using assms by (simp add: wrappingRun_def served_puts served_takes)
  ultimately show ?thesis by simp
qed

theorem pending_queue_fifo_witness:
  "ring.serve (wrappingRun 100 90 240) newPendingQueue (\<lambda>_. -1) = Some (map Inr [0..<240] @ [Inl PlainError])"
proof -
  have "(90 :: nat) \<le> 100" "(100 :: nat) \<le> 240" by simp_all
  note run = wrappingRun_served [OF this]
  show ?thesis using pending_queue_fifo [OF conjunct1 [OF run], of "\<lambda>_. -1"] by (simp only: conjunct2 [OF run])
qed

end
