(* ===== verification/Multiplexer.thy ===== *)
theory Multiplexer
  imports Frame TimeoutHeap PendingRing "HOL-Library.AList"
begin

text \<open>
  The request multiplexer of \<^verbatim>\<open>src/client/multiplexer.ts\<close>. Its state is one record; a request is an
  object shared by the timeout heap, the correlation map and the queues, so it is an identifier
  and its fields are functions of the identifier. Every callback the code hands out (the send
  promise, the abort listener, the timer, the receive loop) is one operation on that state.
  \<^verbatim>\<open>None\<close> stands for a queue scan that never returns; the invariant excludes it.
\<close>

section \<open>State\<close>

text \<open>
  \<^verbatim>\<open>mxTimer\<close> is the deadline the armed timer was set for (\<^verbatim>\<open>timeoutHandle\<close> together with
  \<^verbatim>\<open>nextTimeoutDeadline\<close>). \<^verbatim>\<open>mxOutcome\<close> is how the promise returned to the caller was settled. A
  push classifier carries a token that stands for the identity of its function object.
\<close>

record mux =
  mxNext :: nat
  mxType :: "nat \<Rightarrow> nat"
  mxCorrelation :: "nat \<Rightarrow> nat option"
  mxDiscard :: "nat \<Rightarrow> bool"
  mxSettled :: "nat \<Rightarrow> bool"
  mxOutcome :: "nat \<Rightarrow> bytes result option"
  mxSlots :: slots
  mxHeap :: timeoutHeap
  mxTimer :: "int option"
  mxPending :: "(nat \<times> pendingQueue) list"
  mxByCorrelation :: "(nat \<times> nat) list"
  mxCorrelationEnabled :: bool
  mxProtocolVersion :: nat
  mxCapabilities :: nat
  mxCapabilityIds :: "nat list"
  mxNextCorrelation :: nat
  mxHandlers :: "nat set"
  mxClassifiers :: "nat \<Rightarrow> (nat \<times> (bytes \<Rightarrow> bool)) option"
  mxOptional :: "nat \<Rightarrow> nat"
  mxState :: connectionState
  mxNotified :: "(nat \<times> bytes) list"
  mxInFlight :: int
  mxTotal :: nat
  mxResponses :: nat
  mxDropped :: nat
  mxIgnored :: nat

definition createMultiplexer :: mux where
  "createMultiplexer = \<lparr>mxNext = 0, mxType = (\<lambda>_. 0), mxCorrelation = (\<lambda>_. None),
     mxDiscard = (\<lambda>_. False), mxSettled = (\<lambda>_. False), mxOutcome = (\<lambda>_. None),
     mxSlots = (\<lambda>_. -1), mxHeap = emptyHeap, mxTimer = None, mxPending = [], mxByCorrelation = [],
     mxCorrelationEnabled = True, mxProtocolVersion = 0, mxCapabilities = 0, mxCapabilityIds = [],
     mxNextCorrelation = 1, mxHandlers = {}, mxClassifiers = (\<lambda>_. None), mxOptional = (\<lambda>_. 0),
     mxState = Disconnected, mxNotified = [], mxInFlight = 0, mxTotal = 0, mxResponses = 0,
     mxDropped = 0, mxIgnored = 0\<rparr>"

section \<open>Session settings\<close>

definition setConnected :: "mux \<Rightarrow> mux" where
  "setConnected m = m\<lparr>mxState := Authenticated, mxNextCorrelation := 1\<rparr>"

definition setCapabilities :: "nat \<Rightarrow> nat \<Rightarrow> nat list \<Rightarrow> mux \<Rightarrow> mux" where
  "setCapabilities protocolVersion capabilities capabilityIds m =
    m\<lparr>mxProtocolVersion := protocolVersion, mxCapabilities := capabilities,
      mxCorrelationEnabled := (protocolVersion \<ge> 2),
      mxCapabilityIds := filter (\<lambda>i. i = 1 \<or> i = 2) capabilityIds\<rparr>"

definition allocateCorrelationId :: "mux \<Rightarrow> nat result \<times> mux" where
  "allocateCorrelationId m =
    (if mxNextCorrelation m = 0 then (Inl ConnectionError, m)
     else (let correlationId = mxNextCorrelation m in
       (Inr correlationId,
        m\<lparr>mxNextCorrelation :=
           (if correlationId = 0xffffffffffffffff then 0 else correlationId + 1)\<rparr>)))"

definition registerNotificationHandler :: "nat \<Rightarrow> mux \<Rightarrow> mux" where
  "registerNotificationHandler mtype m = m\<lparr>mxHandlers := insert mtype (mxHandlers m)\<rparr>"

definition unregisterNotificationHandler :: "nat \<Rightarrow> mux \<Rightarrow> mux" where
  "unregisterNotificationHandler mtype m = m\<lparr>mxHandlers := mxHandlers m - {mtype}\<rparr>"

definition registerPushFrameClassifier :: "nat \<Rightarrow> nat \<Rightarrow> (bytes \<Rightarrow> bool) \<Rightarrow> mux \<Rightarrow> mux" where
  "registerPushFrameClassifier mtype token classifier m =
    m\<lparr>mxClassifiers := (mxClassifiers m)(mtype := Some (token, classifier))\<rparr>"

text \<open>The function that registration returns.\<close>

definition unregisterPushFrameClassifier :: "nat \<Rightarrow> nat \<Rightarrow> mux \<Rightarrow> mux" where
  "unregisterPushFrameClassifier mtype token m =
    (if map_option fst (mxClassifiers m mtype) = Some token
     then m\<lparr>mxClassifiers := (mxClassifiers m)(mtype := None)\<rparr> else m)"

definition expectOptionalResponse :: "nat \<Rightarrow> mux \<Rightarrow> mux" where
  "expectOptionalResponse mtype m =
    m\<lparr>mxOptional := (mxOptional m)(mtype := mxOptional m mtype + 1)\<rparr>"

definition releaseOptionalResponse :: "nat \<Rightarrow> mux \<Rightarrow> mux" where
  "releaseOptionalResponse mtype m =
    (let currentCount = mxOptional m mtype in
     if currentCount \<le> 1 then m\<lparr>mxOptional := (mxOptional m)(mtype := 0)\<rparr>
     else m\<lparr>mxOptional := (mxOptional m)(mtype := currentCount - 1)\<rparr>)"

section \<open>Settling a request\<close>

definition recordRequestFinished :: "mux \<Rightarrow> mux" where
  "recordRequestFinished m = m\<lparr>mxInFlight := mxInFlight m - 1\<rparr>"

text \<open>Settling a promise a second time has no effect.\<close>

definition settle :: "nat \<Rightarrow> bytes result \<Rightarrow> mux \<Rightarrow> mux" where
  "settle r v m =
    (if mxOutcome m r = None then m\<lparr>mxOutcome := (mxOutcome m)(r := Some v)\<rparr> else m)"

definition clearDeadline :: "nat \<Rightarrow> mux \<Rightarrow> mux" where
  "clearDeadline r m = m\<lparr>mxHeap := setDeadline r (-1) (mxHeap m)\<rparr>"

definition dropTimeout :: "nat \<Rightarrow> mux \<Rightarrow> mux" where
  "dropTimeout r m = m\<lparr>mxHeap := removeTimeoutEntry r (mxHeap m)\<rparr>"

definition finalize :: "nat \<Rightarrow> mux \<Rightarrow> bool \<times> mux" where
  "finalize r m =
    (if mxSettled m r then (False, m)
     else (True, clearDeadline r (dropTimeout r (m\<lparr>mxSettled := (mxSettled m)(r := True)\<rparr>))))"

definition failRequest :: "nat \<Rightarrow> jserror \<Rightarrow> mux \<Rightarrow> mux" where
  "failRequest r err m =
    (case finalize r m of
       (False, m) \<Rightarrow> m
     | (True, m) \<Rightarrow>
         settle r (Inl err)
           (recordRequestFinished (m\<lparr>mxDiscard := (mxDiscard m)(r := True)\<rparr>)))"

definition unregisterRequest :: "nat \<Rightarrow> mux \<Rightarrow> mux option" where
  "unregisterRequest r m =
    (case mxCorrelation m r of
       Some c \<Rightarrow> Some (m\<lparr>mxByCorrelation := AList.delete c (mxByCorrelation m)\<rparr>)
     | None \<Rightarrow>
         (let mtype = mxType m r in
          case map_of (mxPending m) mtype of
            None \<Rightarrow> Some m
          | Some queueEntry \<Rightarrow>
              (case removeFromQueue queueEntry r (mxSlots m) of
                 None \<Rightarrow> None
               | Some (Inl _) \<Rightarrow> Some m
               | Some (Inr q) \<Rightarrow>
                   Some (recordRequestFinished
                     (m\<lparr>mxPending := (if pqSize q = 0 then AList.delete mtype (mxPending m)
                                      else AList.update mtype q (mxPending m))\<rparr>)))))"

definition rejectRetained :: "nat \<Rightarrow> jserror \<Rightarrow> mux \<Rightarrow> mux" where
  "rejectRetained r err m =
    (case finalize r m of
       (False, m) \<Rightarrow> m
     | (True, m) \<Rightarrow>
         settle r (Inl err)
           (recordRequestFinished ((dropTimeout r m)\<lparr>mxDiscard := (mxDiscard m)(r := True)\<rparr>)))"

text \<open>\<^verbatim>\<open>rejectRequest(error, retainQueueSlot)\<close>\<close>

definition rejectRequest :: "nat \<Rightarrow> jserror \<Rightarrow> bool \<Rightarrow> mux \<Rightarrow> mux option" where
  "rejectRequest r err retainQueueSlot m =
    (if retainQueueSlot then Some (rejectRetained r err m)
     else (case finalize r m of
         (False, m) \<Rightarrow> Some m
       | (True, m) \<Rightarrow> map_option (settle r (Inl err)) (unregisterRequest r (dropTimeout r m))))"

section \<open>Timeouts\<close>

definition scheduleTimeout :: "int \<Rightarrow> mux \<Rightarrow> mux" where
  "scheduleTimeout deadline m =
    (case mxTimer m of
       Some t \<Rightarrow> if deadline \<ge> t then m else m\<lparr>mxTimer := Some deadline\<rparr>
     | None \<Rightarrow> m\<lparr>mxTimer := Some deadline\<rparr>)"

text \<open>
  The loop of \<^verbatim>\<open>handleTimeouts\<close>. Every turn takes the first entry out of the heap, so as many turns
  as the heap has entries are enough.
\<close>

fun expireLoop :: "nat \<Rightarrow> int \<Rightarrow> mux \<Rightarrow> mux" where
  "expireLoop 0 now m = m"
| "expireLoop (Suc n) now m =
    (case firstEntry (mxHeap m) of
       None \<Rightarrow> m
     | Some r \<Rightarrow>
         if thDeadline (mxHeap m) r \<le> now
         then expireLoop n now (rejectRetained r TimeoutError (clearDeadline r (dropTimeout r m)))
         else m)"

definition handleTimeouts :: "int \<Rightarrow> mux \<Rightarrow> mux" where
  "handleTimeouts now m =
    (let m = expireLoop (length (thEntries (mxHeap m))) now (m\<lparr>mxTimer := None\<rparr>) in
     m\<lparr>mxTimer := getNextTimeoutDeadline (mxHeap m)\<rparr>)"

section \<open>Issuing a request\<close>

definition getOrCreatePendingQueue :: "nat \<Rightarrow> mux \<Rightarrow> pendingQueue" where
  "getOrCreatePendingQueue mtype m =
    (case map_of (mxPending m) mtype of Some q \<Rightarrow> q | None \<Rightarrow> newPendingQueue)"

text \<open>The request object, its timeout and its place among the pending requests.\<close>

definition registerRequest :: "nat \<Rightarrow> nat option \<Rightarrow> int \<Rightarrow> mux \<Rightarrow> mux" where
  "registerRequest mtype correlationId deadline m =
    (let r = mxNext m;
         m = m\<lparr>mxNext := r + 1, mxType := (mxType m)(r := mtype),
               mxCorrelation := (mxCorrelation m)(r := correlationId),
               mxDiscard := (mxDiscard m)(r := False), mxSettled := (mxSettled m)(r := False),
               mxOutcome := (mxOutcome m)(r := None),
               mxHeap := pushTimeoutEntry r deadline (mxHeap m)\<rparr>;
         m = scheduleTimeout deadline m;
         m = (case correlationId of
                Some c \<Rightarrow> m\<lparr>mxByCorrelation := AList.update c r (mxByCorrelation m)\<rparr>
              | None \<Rightarrow>
                  (let (q, slots) =
                     enqueuePendingRequest (getOrCreatePendingQueue mtype m) r (mxSlots m)
                   in m\<lparr>mxPending := AList.update mtype q (mxPending m), mxSlots := slots\<rparr>))
     in m\<lparr>mxInFlight := mxInFlight m + 1, mxTotal := mxTotal m + 1\<rparr>)"

text \<open>
  Up to the call of \<^verbatim>\<open>send\<close>: the new request and the frame handed to \<^verbatim>\<open>send\<close>, or the error thrown.
\<close>

definition issueRequest ::
  "nat \<Rightarrow> bytes \<Rightarrow> int \<Rightarrow> int \<Rightarrow> bool \<Rightarrow> mux \<Rightarrow> (nat \<times> bytes) result \<times> mux" where
  "issueRequest mtype frameData timeoutMs now aborted m =
    (if aborted then (Inl abortError, m)
     else if mxCorrelationEnabled m then
       (case allocateCorrelationId m of
          (Inl err, m) \<Rightarrow> (Inl err, m)
        | (Inr correlationId, m) \<Rightarrow>
            (case withCorrelation frameData (int correlationId) of
               Inl err \<Rightarrow> (Inl err, m)
             | Inr outboundFrame \<Rightarrow>
                 (Inr (mxNext m, outboundFrame),
                  registerRequest mtype (Some correlationId) (now + timeoutMs) m)))
     else (Inr (mxNext m, frameData), registerRequest mtype None (now + timeoutMs) m))"

text \<open>\<^verbatim>\<open>send\<close> threw; its promise resolved; its promise was rejected; the caller's signal aborted.\<close>

definition sendThrew :: "nat \<Rightarrow> jserror \<Rightarrow> mux \<Rightarrow> mux" where
  "sendThrew r err m = failRequest r err m"

definition sendResolved :: "nat \<Rightarrow> mux \<Rightarrow> mux" where
  "sendResolved r m =
    (if mxState m \<noteq> Authenticated then failRequest r ConnectionError m else m)"

definition sendRejected :: "nat \<Rightarrow> jserror \<Rightarrow> bool \<Rightarrow> mux \<Rightarrow> mux option" where
  "sendRejected r err aborted m =
    (case finalize r m of
       (False, m) \<Rightarrow> Some (settle r (Inl (if aborted then abortError else err)) m)
     | (True, m) \<Rightarrow>
         map_option (settle r (Inl (if aborted then abortError else err))) (unregisterRequest r m))"

definition abortRequest :: "nat \<Rightarrow> mux \<Rightarrow> mux" where
  "abortRequest r m = failRequest r abortError m"

section \<open>Dispatching a frame\<close>

definition completeRequest :: "nat \<Rightarrow> bytes \<Rightarrow> mux \<Rightarrow> mux" where
  "completeRequest r pl m =
    (let m = recordRequestFinished (clearDeadline r m);
         m = m\<lparr>mxResponses := mxResponses m + 1\<rparr>
     in snd (finalize r (settle r (Inr pl) m)))"

definition notify :: "nat \<Rightarrow> bytes \<Rightarrow> mux \<Rightarrow> mux" where
  "notify mtype pl m = m\<lparr>mxNotified := mxNotified m @ [(mtype, pl)]\<rparr>"

definition ignoreResponse :: "mux \<Rightarrow> mux" where
  "ignoreResponse m = m\<lparr>mxIgnored := mxIgnored m + 1\<rparr>"

definition dispatchCorrelated :: "bytes \<Rightarrow> nat \<Rightarrow> bool \<Rightarrow> mux \<Rightarrow> unit result \<times> mux" where
  "dispatchCorrelated pl correlationId responseFinal m =
    (case map_of (mxByCorrelation m) correlationId of
       None \<Rightarrow> (Inl (ProtocolError None), m)
     | Some r \<Rightarrow>
         if mxDiscard m r then
           (Inr (), ignoreResponse (if responseFinal
              then m\<lparr>mxByCorrelation := AList.delete correlationId (mxByCorrelation m)\<rparr> else m))
         else if \<not> responseFinal then (Inr (), m)
         else (Inr (), completeRequest r pl
                (m\<lparr>mxByCorrelation := AList.delete correlationId (mxByCorrelation m)\<rparr>)))"

text \<open>No pending request of the type: a handler, an expected optional response, or a stray.\<close>

definition dispatchUnmatched :: "nat \<Rightarrow> bytes \<Rightarrow> mux \<Rightarrow> mux" where
  "dispatchUnmatched mtype pl m =
    (if mtype \<in> mxHandlers m then notify mtype pl m
     else if mxOptional m mtype > 0 then
       ignoreResponse (m\<lparr>mxOptional := (mxOptional m)(mtype := mxOptional m mtype - 1)\<rparr>)
     else if mxState m \<noteq> Authenticated then ignoreResponse m
     else m\<lparr>mxDropped := mxDropped m + 1\<rparr>)"

definition isPushFrame :: "nat \<Rightarrow> bytes \<Rightarrow> mux \<Rightarrow> bool" where
  "isPushFrame mtype pl m \<longleftrightarrow> mtype \<in> mxHandlers m \<and>
     (case mxClassifiers m mtype of Some (_, classifier) \<Rightarrow> classifier pl | None \<Rightarrow> False)"

definition dispatchQueued :: "nat \<Rightarrow> bytes \<Rightarrow> mux \<Rightarrow> (unit result \<times> mux) option" where
  "dispatchQueued mtype pl m =
    (if isPushFrame mtype pl m then Some (Inr (), notify mtype pl m)
     else (case map_of (mxPending m) mtype of
         None \<Rightarrow> Some (Inr (), dispatchUnmatched mtype pl m)
       | Some queueEntry \<Rightarrow>
           if pqSize queueEntry > 0 then
             (case dequeuePendingRequest queueEntry of
                None \<Rightarrow> None
              | Some (Inl err, q) \<Rightarrow>
                  Some (Inl err, m\<lparr>mxPending := AList.update mtype q (mxPending m)\<rparr>)
              | Some (Inr r, q) \<Rightarrow>
                  (let m = m\<lparr>mxPending := (if pqSize q = 0 then AList.delete mtype (mxPending m)
                                           else AList.update mtype q (mxPending m))\<rparr>
                   in Some (Inr (), if mxDiscard m r then ignoreResponse m
                                    else completeRequest r pl m)))
           else Some (Inr (), dispatchUnmatched mtype pl m)))"

definition dispatch ::
  "nat \<Rightarrow> bytes \<Rightarrow> nat option \<Rightarrow> bool \<Rightarrow> mux \<Rightarrow> (unit result \<times> mux) option" where
  "dispatch mtype pl correlationId responseFinal m =
    (case correlationId of
       Some c \<Rightarrow> Some (dispatchCorrelated pl c responseFinal m)
     | None \<Rightarrow> dispatchQueued mtype pl m)"

section \<open>Disconnecting\<close>

definition queuedRequests :: "pendingQueue \<Rightarrow> nat list" where
  "queuedRequests q = concat (map (\<lambda>e. case e of Some r \<Rightarrow> [r] | None \<Rightarrow> []) (pqQueue q))"

text \<open>An object iterates its integer keys in ascending order.\<close>

definition requestsToCancel :: "mux \<Rightarrow> nat list" where
  "requestsToCancel m = map snd (mxByCorrelation m) @
     concat (map (queuedRequests \<circ> snd) (sort_key fst (mxPending m)))"

fun rejectAll :: "nat list \<Rightarrow> mux \<Rightarrow> mux option" where
  "rejectAll [] m = Some m"
| "rejectAll (r # rs) m =
    (case rejectRequest r ConnectionError False m of
       None \<Rightarrow> None
     | Some m \<Rightarrow> rejectAll rs m)"

definition cancelAll :: "mux \<Rightarrow> mux option" where
  "cancelAll m =
    (case rejectAll (requestsToCancel m) (m\<lparr>mxTimer := None, mxByCorrelation := []\<rparr>) of
       None \<Rightarrow> None
     | Some m \<Rightarrow>
         Some (m\<lparr>mxHeap := (mxHeap m)\<lparr>thEntries := []\<rparr>, mxPending := [], mxInFlight := 0\<rparr>))"

definition setDisconnected :: "mux \<Rightarrow> mux option" where
  "setDisconnected m =
    cancelAll (m\<lparr>mxState := Disconnected, mxOptional := (\<lambda>_. 0), mxCorrelationEnabled := True,
                 mxProtocolVersion := 0, mxCapabilities := 0, mxCapabilityIds := []\<rparr>)"

definition getInFlightCount :: "mux \<Rightarrow> int" where
  "getInFlightCount m = mxInFlight m"

definition hasPending :: "mux \<Rightarrow> bool" where
  "hasPending m \<longleftrightarrow> mxInFlight m > 0"

end
