(* ===== verification/MuxInvariant.thy ===== *)
theory MuxInvariant
  imports Multiplexer
begin

text \<open>
  The invariant of the multiplexer: the heap holds exactly the unsettled requests, every unsettled
  request can still be found by the response that answers it, its timer is armed, and a request
  that was given up stays behind as a tombstone. Every operation keeps it.
\<close>

section \<open>The invariant\<close>

definition unsettled :: "mux \<Rightarrow> nat set" where
  "unsettled m = {r. r < mxNext m \<and> \<not> mxSettled m r}"

definition outcomeInv :: "mux \<Rightarrow> bool" where
  "outcomeInv m \<longleftrightarrow> (\<forall>r < mxNext m. mxOutcome m r = None \<longleftrightarrow> \<not> mxSettled m r)"

definition heapInv :: "mux \<Rightarrow> bool" where
  "heapInv m \<longleftrightarrow> heapOk (mxHeap m) \<and> members (mxHeap m) = unsettled m"

definition timerInv :: "mux \<Rightarrow> bool" where
  "timerInv m \<longleftrightarrow>
    (\<forall>r \<in> unsettled m. \<exists>t. mxTimer m = Some t \<and> t \<le> thDeadline (mxHeap m) r)"

text \<open>The correlation map: live requests and tombstones, with identifiers already handed out.\<close>

definition correlationInv :: "mux \<Rightarrow> bool" where
  "correlationInv m \<longleftrightarrow> distinct (map fst (mxByCorrelation m)) \<and>
     (\<forall>(c, r) \<in> set (mxByCorrelation m). r < mxNext m \<and> mxCorrelation m r = Some c \<and> 0 < c \<and>
        c \<le> 0xffffffffffffffff \<and> (mxNextCorrelation m = 0 \<or> c < mxNextCorrelation m) \<and>
        mxDiscard m r = mxSettled m r) \<and>
     (\<forall>r \<in> unsettled m. \<forall>c. mxCorrelation m r = Some c \<longrightarrow> (c, r) \<in> set (mxByCorrelation m)) \<and>
     mxNextCorrelation m \<le> 0xffffffffffffffff"

text \<open>
  The requests a queue holds: tombstones, and at most one live request, the newest. The latter
  is what serialising the requests of a type (\<^verbatim>\<open>withUncorrelatedLane\<close>) provides.
\<close>

definition queueFor :: "mux \<Rightarrow> nat \<Rightarrow> pendingQueue \<Rightarrow> nat list \<Rightarrow> bool" where
  "queueFor m t q rs \<longleftrightarrow> rs \<noteq> [] \<and> holds q (mxSlots m) rs \<and>
     (\<forall>r \<in> set rs. r < mxNext m \<and> mxCorrelation m r = None \<and> mxType m r = t \<and>
        mxDiscard m r = mxSettled m r) \<and>
     (\<forall>r \<in> set (butlast rs). mxSettled m r)"

definition queueInv :: "mux \<Rightarrow> bool" where
  "queueInv m \<longleftrightarrow> distinct (map fst (mxPending m)) \<and>
     (\<forall>(t, q) \<in> set (mxPending m). \<exists>rs. queueFor m t q rs) \<and>
     (\<forall>r \<in> unsettled m. mxCorrelation m r = None \<longrightarrow>
        (\<exists>q rs. (mxType m r, q) \<in> set (mxPending m) \<and> queueFor m (mxType m r) q rs \<and> r \<in> set rs))"

definition muxInv :: "mux \<Rightarrow> bool" where
  "muxInv m \<longleftrightarrow> outcomeInv m \<and> heapInv m \<and> timerInv m \<and> correlationInv m \<and> queueInv m"

lemma muxInv_create: "muxInv createMultiplexer"
  by (simp add: muxInv_def outcomeInv_def heapInv_def timerInv_def correlationInv_def queueInv_def
      unsettled_def createMultiplexer_def heapOk_empty members_empty)

lemma finite_unsettled [simp]: "finite (unsettled m)"
  by (simp add: unsettled_def)

section \<open>Closing a request\<close>

text \<open>What every way of settling has in common: the promise, the heap entry, the flag.\<close>

definition close :: "nat \<Rightarrow> bytes result \<Rightarrow> mux \<Rightarrow> mux" where
  "close r v m = m\<lparr>mxSettled := (mxSettled m)(r := True),
     mxHeap := setDeadline r (-1) (removeTimeoutEntry r (mxHeap m)),
     mxOutcome := (mxOutcome m)(r := Some v)\<rparr>"

text \<open>A request given up: its slot stays, its response will be discarded.\<close>

definition tombstone :: "nat \<Rightarrow> jserror \<Rightarrow> mux \<Rightarrow> mux" where
  "tombstone r err m =
    (close r (Inl err) m)\<lparr>mxDiscard := (mxDiscard m)(r := True), mxInFlight := mxInFlight m - 1\<rparr>"

lemma failRequest_eq:
  assumes "outcomeInv m" and "r < mxNext m"
  shows "failRequest r err m = (if mxSettled m r then m else tombstone r err m)"
proof (cases "mxSettled m r")
  case False
  then have "mxOutcome m r = None" using assms by (simp add: outcomeInv_def)
  with False show ?thesis
    by (simp add: failRequest_def finalize_def dropTimeout_def clearDeadline_def
        recordRequestFinished_def settle_def tombstone_def close_def)
qed (simp add: failRequest_def finalize_def)

lemma remove_twice: "heapOk h \<Longrightarrow> removeTimeoutEntry r (setDeadline r d (removeTimeoutEntry r h)) =
    setDeadline r d (removeTimeoutEntry r h)"
  by (rule remove_absent [OF heapOk_set]) (simp_all add: remove_facts)

lemma setDeadline_twice: "setDeadline r d (setDeadline r e h) = setDeadline r d h"
  by (simp add: setDeadline_def)

lemma rejectRetained_eq:
  assumes "outcomeInv m" and "heapOk (mxHeap m)" and "r < mxNext m"
  shows "rejectRetained r err m = failRequest r err m"
proof (cases "mxSettled m r")
  case False
  then have "mxOutcome m r = None" using assms by (simp add: outcomeInv_def)
  with False show ?thesis
    by (simp add: failRequest_def rejectRetained_def finalize_def dropTimeout_def clearDeadline_def
        recordRequestFinished_def settle_def remove_twice [OF assms(2)])
qed (simp add: failRequest_def rejectRetained_def finalize_def)

lemma rejectRetained_expired:
  assumes "outcomeInv m" and "heapInv m" and "r \<in> unsettled m"
  shows "rejectRetained r err (clearDeadline r (dropTimeout r m)) = tombstone r err m"
proof -
  have h: "heapOk (mxHeap m)" and r: "r < mxNext m" "\<not> mxSettled m r"
    using assms by (auto simp: heapInv_def unsettled_def)
  then have "mxOutcome m r = None" using assms(1) by (simp add: outcomeInv_def)
  with r show ?thesis
    by (simp add: rejectRetained_def finalize_def dropTimeout_def clearDeadline_def
        recordRequestFinished_def settle_def remove_twice [OF h] setDeadline_twice tombstone_def
        close_def)
qed

lemma completeRequest_eq:
  assumes "outcomeInv m" and "heapOk (mxHeap m)" and "r < mxNext m" and "\<not> mxSettled m r"
  shows "completeRequest r pl m =
    (close r (Inr pl) m)\<lparr>mxInFlight := mxInFlight m - 1, mxResponses := mxResponses m + 1\<rparr>"
proof -
  have "mxOutcome m r = None" using assms by (simp add: outcomeInv_def)
  moreover have "indexed (mxHeap m)" using assms(2) by (simp add: heapOk_def)
  ultimately show ?thesis
    using assms(4)
    by (simp add: completeRequest_def recordRequestFinished_def clearDeadline_def settle_def
        finalize_def dropTimeout_def close_def remove_set setDeadline_twice)
qed

section \<open>Closing keeps the invariant\<close>

lemma unsettled_close [simp]: "unsettled (close r v m) = unsettled m - {r}"
  by (auto simp: unsettled_def close_def)

lemma close_sel [simp]:
  "mxNext (close r v m) = mxNext m" "mxType (close r v m) = mxType m"
  "mxCorrelation (close r v m) = mxCorrelation m" "mxDiscard (close r v m) = mxDiscard m"
  "mxSettled (close r v m) = (mxSettled m)(r := True)"
  "mxOutcome (close r v m) = (mxOutcome m)(r := Some v)"
  "mxSlots (close r v m) = mxSlots m" "mxTimer (close r v m) = mxTimer m"
  "mxPending (close r v m) = mxPending m" "mxByCorrelation (close r v m) = mxByCorrelation m"
  "mxNextCorrelation (close r v m) = mxNextCorrelation m" "mxInFlight (close r v m) = mxInFlight m"
  "mxState (close r v m) = mxState m"
  by (simp_all add: close_def)

lemma close_heap:
  assumes "heapOk (mxHeap m)"
  shows "heapOk (mxHeap (close r v m))"
    and "members (mxHeap (close r v m)) = members (mxHeap m) - {r}"
    and "q \<noteq> r \<Longrightarrow> thDeadline (mxHeap (close r v m)) q = thDeadline (mxHeap m) q"
  using assms by (simp_all add: close_def remove_facts heapOk_set)

lemma outcomeInv_close: "outcomeInv m \<Longrightarrow> outcomeInv (close r v m)"
  by (simp add: outcomeInv_def)

lemma heapInv_close: "heapInv m \<Longrightarrow> heapInv (close r v m)"
  by (simp add: heapInv_def close_heap)

lemma timerInv_close: "heapInv m \<Longrightarrow> timerInv m \<Longrightarrow> timerInv (close r v m)"
  by (auto simp: timerInv_def heapInv_def close_heap)

text \<open>The parts of the invariant depend on these fields only.\<close>

lemma outcomeInv_cong: "mxNext m' = mxNext m \<Longrightarrow> mxOutcome m' = mxOutcome m \<Longrightarrow>
    mxSettled m' = mxSettled m \<Longrightarrow> outcomeInv m' = outcomeInv m"
  by (simp add: outcomeInv_def)

lemma unsettled_cong: "mxNext m' = mxNext m \<Longrightarrow> mxSettled m' = mxSettled m \<Longrightarrow>
    unsettled m' = unsettled m"
  by (simp add: unsettled_def)

lemma heapInv_cong: "mxNext m' = mxNext m \<Longrightarrow> mxSettled m' = mxSettled m \<Longrightarrow>
    mxHeap m' = mxHeap m \<Longrightarrow> heapInv m' = heapInv m"
  by (simp add: heapInv_def unsettled_def)

lemma timerInv_cong: "mxNext m' = mxNext m \<Longrightarrow> mxSettled m' = mxSettled m \<Longrightarrow>
    mxHeap m' = mxHeap m \<Longrightarrow> mxTimer m' = mxTimer m \<Longrightarrow> timerInv m' = timerInv m"
  by (simp add: timerInv_def unsettled_def)

lemma correlationInv_cong: "mxNext m' = mxNext m \<Longrightarrow> mxSettled m' = mxSettled m \<Longrightarrow>
    mxDiscard m' = mxDiscard m \<Longrightarrow> mxCorrelation m' = mxCorrelation m \<Longrightarrow>
    mxByCorrelation m' = mxByCorrelation m \<Longrightarrow> mxNextCorrelation m' = mxNextCorrelation m \<Longrightarrow>
    correlationInv m' = correlationInv m"
  by (simp add: correlationInv_def unsettled_def)

lemma queueFor_cong: "mxNext m' = mxNext m \<Longrightarrow> mxSettled m' = mxSettled m \<Longrightarrow>
    mxDiscard m' = mxDiscard m \<Longrightarrow> mxCorrelation m' = mxCorrelation m \<Longrightarrow> mxType m' = mxType m \<Longrightarrow>
    mxSlots m' = mxSlots m \<Longrightarrow> queueFor m' t q rs = queueFor m t q rs"
  by (simp add: queueFor_def)

lemma queueInv_cong: "mxNext m' = mxNext m \<Longrightarrow> mxSettled m' = mxSettled m \<Longrightarrow>
    mxDiscard m' = mxDiscard m \<Longrightarrow> mxCorrelation m' = mxCorrelation m \<Longrightarrow> mxType m' = mxType m \<Longrightarrow>
    mxSlots m' = mxSlots m \<Longrightarrow> mxPending m' = mxPending m \<Longrightarrow> queueInv m' = queueInv m"
  by (simp add: queueInv_def unsettled_def queueFor_def)

lemmas inv_congs = outcomeInv_cong heapInv_cong timerInv_cong correlationInv_cong queueInv_cong

lemma tombstone_sel [simp]:
  "mxNext (tombstone r err m) = mxNext m" "mxType (tombstone r err m) = mxType m"
  "mxCorrelation (tombstone r err m) = mxCorrelation m"
  "mxDiscard (tombstone r err m) = (mxDiscard m)(r := True)"
  "mxSettled (tombstone r err m) = (mxSettled m)(r := True)"
  "mxOutcome (tombstone r err m) = (mxOutcome m)(r := Some (Inl err))"
  "mxSlots (tombstone r err m) = mxSlots m" "mxTimer (tombstone r err m) = mxTimer m"
  "mxPending (tombstone r err m) = mxPending m"
  "mxByCorrelation (tombstone r err m) = mxByCorrelation m"
  "mxNextCorrelation (tombstone r err m) = mxNextCorrelation m"
  "mxHeap (tombstone r err m) = mxHeap (close r (Inl err) m)"
  "mxInFlight (tombstone r err m) = mxInFlight m - 1" "mxState (tombstone r err m) = mxState m"
  by (simp_all add: tombstone_def)

lemma unsettled_tombstone [simp]: "unsettled (tombstone r err m) = unsettled m - {r}"
  by (auto simp: unsettled_def)

lemma queueFor_tombstone: "queueFor m t q rs \<Longrightarrow> queueFor (tombstone r err m) t q rs"
  by (auto simp: queueFor_def)

lemma correlationInv_tombstone: "correlationInv m \<Longrightarrow> correlationInv (tombstone r err m)"
  by (auto simp: correlationInv_def)

lemma queueInv_tombstone:
  assumes "queueInv m"
  shows "queueInv (tombstone r err m)"
  unfolding queueInv_def unsettled_tombstone tombstone_sel
proof (intro conjI ballI impI)
  show "distinct (map fst (mxPending m))" using assms by (simp add: queueInv_def)
next
  fix x assume "x \<in> set (mxPending m)"
  then show "case x of (t, q) \<Rightarrow> \<exists>rs. queueFor (tombstone r err m) t q rs"
    using assms queueFor_tombstone unfolding queueInv_def by fast
next
  fix p assume "p \<in> unsettled m - {r}" and "mxCorrelation m p = None"
  then obtain q rs where "(mxType m p, q) \<in> set (mxPending m)" "queueFor m (mxType m p) q rs" "p \<in> set rs"
    using assms unfolding queueInv_def by blast
  then show "\<exists>q rs. (mxType m p, q) \<in> set (mxPending m) \<and>
      queueFor (tombstone r err m) (mxType m p) q rs \<and> p \<in> set rs"
    using queueFor_tombstone by blast
qed

lemma tombstone_inv:
  assumes "muxInv m"
  shows "muxInv (tombstone r err m)"
proof -
  note c = outcomeInv_cong [of "tombstone r err m" "close r (Inl err) m"]
    heapInv_cong [of "tombstone r err m" "close r (Inl err) m"]
    timerInv_cong [of "tombstone r err m" "close r (Inl err) m"]
  have "outcomeInv (tombstone r err m)" "heapInv (tombstone r err m)" "timerInv (tombstone r err m)"
    using assms outcomeInv_close heapInv_close timerInv_close c by (simp_all add: muxInv_def)
  then show ?thesis
    using assms correlationInv_tombstone queueInv_tombstone by (simp add: muxInv_def)
qed

lemma failRequest_inv: "muxInv m \<Longrightarrow> r < mxNext m \<Longrightarrow> muxInv (failRequest r err m)"
  using tombstone_inv by (simp add: failRequest_eq muxInv_def)

text \<open>All but the timer, which is disarmed while the timer's own callback runs.\<close>

definition coreInv :: "mux \<Rightarrow> bool" where
  "coreInv m \<longleftrightarrow> outcomeInv m \<and> heapInv m \<and> correlationInv m \<and> queueInv m"

lemma muxInv_core: "muxInv m \<longleftrightarrow> coreInv m \<and> timerInv m"
  by (auto simp: muxInv_def coreInv_def)

lemma tombstone_core: "coreInv m \<Longrightarrow> coreInv (tombstone r err m)"
  using outcomeInv_close heapInv_close correlationInv_tombstone queueInv_tombstone
    outcomeInv_cong [of "tombstone r err m" "close r (Inl err) m"]
    heapInv_cong [of "tombstone r err m" "close r (Inl err) m"]
  by (simp add: coreInv_def)

section \<open>Timeouts\<close>

definition dueBy :: "int \<Rightarrow> mux \<Rightarrow> nat set" where
  "dueBy now m = {r \<in> unsettled m. thDeadline (mxHeap m) r \<le> now}"

text \<open>What the expiry loop did, told by the set of requests it took.\<close>

definition expired :: "nat set \<Rightarrow> mux \<Rightarrow> mux \<Rightarrow> bool" where
  "expired X m m' \<longleftrightarrow> unsettled m' = unsettled m - X \<and>
     mxOutcome m' = (\<lambda>r. if r \<in> X then Some (Inl TimeoutError) else mxOutcome m r) \<and>
     mxDiscard m' = (\<lambda>r. mxDiscard m r \<or> r \<in> X) \<and>
     (\<forall>r \<in> unsettled m'. thDeadline (mxHeap m') r = thDeadline (mxHeap m) r) \<and>
     mxNext m' = mxNext m \<and> mxByCorrelation m' = mxByCorrelation m \<and>
     mxPending m' = mxPending m \<and> mxTimer m' = mxTimer m \<and> mxState m' = mxState m \<and>
     mxInFlight m' = mxInFlight m - int (card X)"

lemma expired_none: "expired {} m m"
  by (simp add: expired_def)

lemma expired_one:
  assumes "coreInv m" and "r \<in> unsettled m"
  shows "expired {r} m (tombstone r TimeoutError m)"
  using assms by (auto simp: expired_def coreInv_def heapInv_def close_heap fun_eq_iff)

lemma expired_more: "expired X m m' \<Longrightarrow> expired Y m' m'' \<Longrightarrow> X \<subseteq> unsettled m \<Longrightarrow> Y \<subseteq> unsettled m' \<Longrightarrow>
    expired (X \<union> Y) m m''"
proof -
  assume a: "expired X m m'" "expired Y m' m''" "X \<subseteq> unsettled m" "Y \<subseteq> unsettled m'"
  then have "X \<inter> Y = {}" by (auto simp: expired_def)
  moreover have "finite X" "finite Y" using a finite_subset finite_unsettled by blast+
  ultimately have "card (X \<union> Y) = card X + card Y" by (simp add: card_Un_disjoint)
  with a show ?thesis by (auto simp: expired_def fun_eq_iff)
qed

lemma expireLoop_expired:
  "coreInv m \<Longrightarrow> card (unsettled m) \<le> n \<Longrightarrow>
    coreInv (expireLoop n now m) \<and> expired (dueBy now m) m (expireLoop n now m)"
proof (induction n arbitrary: m)
  case 0
  then have "unsettled m = {}" by simp
  then show ?case using 0 expired_none by (simp add: dueBy_def)
next
  case (Suc n)
  have h: "heapOk (mxHeap m)" and mem: "members (mxHeap m) = unsettled m"
    using Suc.prems(1) by (auto simp: coreInv_def heapInv_def)
  consider (stop) "\<And>r. firstEntry (mxHeap m) = Some r \<Longrightarrow> now < thDeadline (mxHeap m) r"
    | (go) r where "firstEntry (mxHeap m) = Some r" "thDeadline (mxHeap m) r \<le> now"
    by fastforce
  then show ?case
  proof cases
    case stop
    then have "dueBy now m = {}"
      using heap.none_due [OF h stop] mem by (force simp: dueBy_def)
    moreover have "expireLoop (Suc n) now m = m" using stop by (fastforce split: option.splits)
    ultimately show ?thesis using Suc.prems(1) expired_none by simp
  next
    case go
    have r: "r \<in> unsettled m" using heap.first_Some [OF h go(1)] mem by simp
    let ?m = "tombstone r TimeoutError m"
    have "rejectRetained r TimeoutError (clearDeadline r (dropTimeout r m)) = ?m"
      using Suc.prems(1) r by (intro rejectRetained_expired) (auto simp: coreInv_def)
    then have step: "expireLoop (Suc n) now m = expireLoop n now ?m" using go by simp
    have core: "coreInv ?m" using Suc.prems(1) by (rule tombstone_core)
    have "card (unsettled ?m) \<le> n" using Suc.prems(2) r by (simp add: card_Diff_singleton)
    note IH = Suc.IH [OF core this]
    note one = expired_one [OF Suc.prems(1) r]
    have "dueBy now m = {r} \<union> dueBy now ?m"
      using r go(2) one by (auto simp: dueBy_def expired_def)
    moreover have "expired ({r} \<union> dueBy now ?m) m (expireLoop n now ?m)"
      using IH one r by (intro expired_more) (auto simp: dueBy_def)
    ultimately show ?thesis using IH step by simp
  qed
qed

lemma handleTimeouts_facts:
  assumes "muxInv m"
  shows "muxInv (handleTimeouts now m)"
    and "unsettled (handleTimeouts now m) = unsettled m - dueBy now m"
    and "mxOutcome (handleTimeouts now m) =
      (\<lambda>r. if r \<in> dueBy now m then Some (Inl TimeoutError) else mxOutcome m r)"
    and "mxByCorrelation (handleTimeouts now m) = mxByCorrelation m"
    and "mxPending (handleTimeouts now m) = mxPending m"
    and "mxInFlight (handleTimeouts now m) = mxInFlight m - int (card (dueBy now m))"
    and "mxNext (handleTimeouts now m) = mxNext m"
    and "mxDiscard (handleTimeouts now m) = (\<lambda>r. mxDiscard m r \<or> r \<in> dueBy now m)"
proof -
  let ?m = "m\<lparr>mxTimer := None\<rparr>"
  let ?n = "length (thEntries (mxHeap m))"
  let ?e = "expireLoop ?n now ?m"
  have same: "unsettled ?m = unsettled m" "dueBy now ?m = dueBy now m"
    by (simp_all add: unsettled_def dueBy_def)
  have core: "coreInv ?m"
    using assms by (simp add: muxInv_core coreInv_def outcomeInv_def heapInv_def unsettled_def
        correlationInv_def queueInv_def queueFor_def)
  have "card (unsettled m) \<le> ?n"
    using assms by (auto simp: muxInv_def heapInv_def members_def dest!: sym [of "set _"]
        intro: card_length)
  then have e: "coreInv ?e" "expired (dueBy now m) ?m ?e"
    using expireLoop_expired [OF core, of ?n now] by (simp_all add: same)
  have h: "handleTimeouts now m = ?e\<lparr>mxTimer := getNextTimeoutDeadline (mxHeap ?e)\<rparr>"
    by (simp add: handleTimeouts_def Let_def)
  have hu: "unsettled (?e\<lparr>mxTimer := t\<rparr>) = unsettled ?e" for t by (simp add: unsettled_def)
  have "timerInv (handleTimeouts now m)"
    unfolding timerInv_def
  proof
    fix r assume "r \<in> unsettled (handleTimeouts now m)"
    then have "r \<in> members (mxHeap ?e)"
      using e(1) by (simp add: h coreInv_def heapInv_def unsettled_def)
    moreover have ok: "heapOk (mxHeap ?e)" using e(1) by (simp add: coreInv_def heapInv_def)
    ultimately have "deadlineAt (mxHeap ?e) 0 \<le> thDeadline (mxHeap ?e) r" "thEntries (mxHeap ?e) \<noteq> []"
      using root_earliest by (auto simp: members_def)
    then show "\<exists>t. mxTimer (handleTimeouts now m) = Some t \<and>
        t \<le> thDeadline (mxHeap (handleTimeouts now m)) r"
      by (simp add: h getNextTimeoutDeadline_def)
  qed
  moreover have "coreInv (handleTimeouts now m)"
    using e(1) by (simp add: h coreInv_def outcomeInv_def heapInv_def unsettled_def
        correlationInv_def queueInv_def queueFor_def)
  ultimately show "muxInv (handleTimeouts now m)" by (simp add: muxInv_core)
  show "unsettled (handleTimeouts now m) = unsettled m - dueBy now m"
    and "mxOutcome (handleTimeouts now m) =
      (\<lambda>r. if r \<in> dueBy now m then Some (Inl TimeoutError) else mxOutcome m r)"
    and "mxByCorrelation (handleTimeouts now m) = mxByCorrelation m"
    and "mxPending (handleTimeouts now m) = mxPending m"
    and "mxInFlight (handleTimeouts now m) = mxInFlight m - int (card (dueBy now m))"
    and "mxNext (handleTimeouts now m) = mxNext m"
    and "mxDiscard (handleTimeouts now m) = (\<lambda>r. mxDiscard m r \<or> r \<in> dueBy now m)"
    using e(2) hu by (simp_all add: h expired_def same fun_eq_iff)
qed

section \<open>Issuing a request\<close>

lemma update_fresh: "k \<notin> fst ` set al \<Longrightarrow> AList.update k v al = al @ [(k, v)]"
  by (induction al) auto

lemma scheduleTimeout_eq: "scheduleTimeout d m =
    m\<lparr>mxTimer := Some (case mxTimer m of Some t \<Rightarrow> min t d | None \<Rightarrow> d)\<rparr>"
  by (auto simp: scheduleTimeout_def split: option.splits)

text \<open>The new request object, in the heap and covered by the timer, but not yet registered.\<close>

definition created :: "nat \<Rightarrow> nat option \<Rightarrow> int \<Rightarrow> mux \<Rightarrow> mux" where
  "created mtype corr d m =
    (let r = mxNext m in
     scheduleTimeout d (m\<lparr>mxNext := r + 1, mxType := (mxType m)(r := mtype),
       mxCorrelation := (mxCorrelation m)(r := corr),
       mxDiscard := (mxDiscard m)(r := False), mxSettled := (mxSettled m)(r := False),
       mxOutcome := (mxOutcome m)(r := None), mxHeap := pushTimeoutEntry r d (mxHeap m)\<rparr>))"

lemma created_sel [simp]:
  "mxNext (created t c d m) = mxNext m + 1"
  "mxType (created t c d m) = (mxType m)(mxNext m := t)"
  "mxCorrelation (created t c d m) = (mxCorrelation m)(mxNext m := c)"
  "mxDiscard (created t c d m) = (mxDiscard m)(mxNext m := False)"
  "mxSettled (created t c d m) = (mxSettled m)(mxNext m := False)"
  "mxOutcome (created t c d m) = (mxOutcome m)(mxNext m := None)"
  "mxHeap (created t c d m) = pushTimeoutEntry (mxNext m) d (mxHeap m)"
  "mxTimer (created t c d m) = Some (case mxTimer m of Some t \<Rightarrow> min t d | None \<Rightarrow> d)"
  "mxSlots (created t c d m) = mxSlots m" "mxPending (created t c d m) = mxPending m"
  "mxByCorrelation (created t c d m) = mxByCorrelation m"
  "mxNextCorrelation (created t c d m) = mxNextCorrelation m"
  "mxInFlight (created t c d m) = mxInFlight m" "mxTotal (created t c d m) = mxTotal m"
  "mxState (created t c d m) = mxState m"
  by (simp_all add: created_def Let_def scheduleTimeout_eq)

lemma unsettled_created [simp]: "unsettled (created t c d m) = insert (mxNext m) (unsettled m)"
  by (auto simp: unsettled_def)

lemma registerRequest_Some: "registerRequest t (Some c) d m =
    (created t (Some c) d m)\<lparr>mxByCorrelation := AList.update c (mxNext m) (mxByCorrelation m),
      mxInFlight := mxInFlight m + 1, mxTotal := mxTotal m + 1\<rparr>"
  by (simp add: registerRequest_def created_def Let_def scheduleTimeout_eq)

lemma registerRequest_None: "registerRequest t None d m =
    (case enqueuePendingRequest (getOrCreatePendingQueue t m) (mxNext m) (mxSlots m) of
       (q, slots) \<Rightarrow> (created t None d m)\<lparr>mxPending := AList.update t q (mxPending m),
         mxSlots := slots, mxInFlight := mxInFlight m + 1, mxTotal := mxTotal m + 1\<rparr>)"
  by (simp add: registerRequest_def created_def Let_def scheduleTimeout_eq
      getOrCreatePendingQueue_def split: prod.splits)

lemma next_fresh: "heapInv m \<Longrightarrow> mxNext m \<notin> members (mxHeap m)"
  by (simp add: heapInv_def unsettled_def)

lemma created_inv:
  assumes "outcomeInv m" "heapInv m" "timerInv m"
  shows "outcomeInv (created t c d m)" "heapInv (created t c d m)" "timerInv (created t c d m)"
proof -
  note p = push_facts [OF _ next_fresh [OF assms(2)]]
  show "outcomeInv (created t c d m)" using assms(1) by (auto simp: outcomeInv_def less_Suc_eq)
  show "heapInv (created t c d m)" using assms(2) p by (simp add: heapInv_def)
  have due: "thDeadline (pushTimeoutEntry (mxNext m) d (mxHeap m)) = (thDeadline (mxHeap m))(mxNext m := d)"
    using p(3) assms(2) by (simp add: heapInv_def)
  show "timerInv (created t c d m)"
    unfolding timerInv_def unsettled_created
  proof
    fix r assume "r \<in> insert (mxNext m) (unsettled m)"
    then consider "r = mxNext m" | "r \<in> unsettled m" "r \<noteq> mxNext m" by blast
    then show "\<exists>t'. mxTimer (created t c d m) = Some t' \<and> t' \<le> thDeadline (mxHeap (created t c d m)) r"
    proof cases
      case 1
      then show ?thesis by (simp add: due split: option.splits)
    next
      case 2
      then obtain t' where "mxTimer m = Some t'" "t' \<le> thDeadline (mxHeap m) r"
        using assms(3) unfolding timerInv_def by blast
      with 2 show ?thesis by (simp add: due)
    qed
  qed
qed

lemma correlationInv_register:
  assumes "correlationInv m" and "c \<notin> fst ` set (mxByCorrelation m)" and "0 < c"
    and "c \<le> 0xffffffffffffffff" and "mxNextCorrelation m = 0 \<or> c < mxNextCorrelation m"
  shows "correlationInv (registerRequest t (Some c) d m)"
proof -
  have e: "(case x of (k, r) \<Rightarrow> r < mxNext m \<and> mxCorrelation m r = Some k \<and> 0 < k \<and>
      k \<le> 0xffffffffffffffff \<and> (mxNextCorrelation m = 0 \<or> k < mxNextCorrelation m) \<and>
      mxDiscard m r = mxSettled m r)" if "x \<in> set (mxByCorrelation m)" for x
    using that assms(1) by (auto simp: correlationInv_def)
  have u: "unsettled (registerRequest t (Some c) d m) = insert (mxNext m) (unsettled m)"
    by (auto simp: registerRequest_Some unsettled_def)
  have n: "r < mxNext m" if "r \<in> unsettled m" for r using that by (simp add: unsettled_def)
  let ?m = "registerRequest t (Some c) d m"
  have byc: "mxByCorrelation ?m = mxByCorrelation m @ [(c, mxNext m)]"
    by (simp add: registerRequest_Some update_fresh [OF assms(2)])
  show ?thesis
    unfolding correlationInv_def u byc
  proof (intro conjI ballI allI impI)
    show "distinct (map fst (mxByCorrelation m @ [(c, mxNext m)]))"
      using assms(1,2) by (auto simp: correlationInv_def image_iff)
  next
    fix x assume x: "x \<in> set (mxByCorrelation m @ [(c, mxNext m)])"
    show "case x of (k, r) \<Rightarrow> r < mxNext ?m \<and> mxCorrelation ?m r = Some k \<and> 0 < k \<and>
        k \<le> 0xffffffffffffffff \<and> (mxNextCorrelation ?m = 0 \<or> k < mxNextCorrelation ?m) \<and>
        mxDiscard ?m r = mxSettled ?m r"
    proof (cases "x \<in> set (mxByCorrelation m)")
      case True
      then show ?thesis using e [OF True] by (cases x) (auto simp: registerRequest_Some)
    next
      case False
      then show ?thesis using x assms(3-5) by (auto simp: registerRequest_Some)
    qed
  next
    fix r k assume r: "r \<in> insert (mxNext m) (unsettled m)" and k: "mxCorrelation ?m r = Some k"
    show "(k, r) \<in> set (mxByCorrelation m @ [(c, mxNext m)])"
    proof (cases "r = mxNext m")
      case True
      then show ?thesis using k by (simp add: registerRequest_Some)
    next
      case False
      then show ?thesis using r k assms(1) by (simp add: registerRequest_Some correlationInv_def)
    qed
  next
    show "mxNextCorrelation ?m \<le> 0xffffffffffffffff"
      using assms(1) by (simp add: registerRequest_Some correlationInv_def)
  qed
qed

lemma queueFor_created:
  "queueFor m t' q rs \<Longrightarrow> queueFor (created t c d m) t' q rs"
  by (auto simp: queueFor_def dest: in_set_butlastD)

lemma queueInv_register_correlated:
  assumes "queueInv m"
  shows "queueInv (registerRequest t (Some c) d m)"
proof -
  let ?m = "registerRequest t (Some c) d m"
  have u: "unsettled ?m = insert (mxNext m) (unsettled m)"
    by (auto simp: registerRequest_Some unsettled_def)
  have q: "queueFor ?m t' q rs" if "queueFor m t' q rs" for t' q rs
    using queueFor_created [OF that, of t "Some c" d]
    by (auto simp: queueFor_def registerRequest_Some split: if_splits)
  have n: "r < mxNext m" if "r \<in> unsettled m" for r using that by (simp add: unsettled_def)
  have sel: "mxPending ?m = mxPending m" "mxCorrelation ?m = (mxCorrelation m)(mxNext m := Some c)"
      "mxType ?m = (mxType m)(mxNext m := t)"
    by (simp_all add: registerRequest_Some)
  show ?thesis
    unfolding queueInv_def u sel
  proof (intro conjI ballI impI)
    show "distinct (map fst (mxPending m))" using assms by (simp add: queueInv_def)
  next
    fix x assume "x \<in> set (mxPending m)"
    then show "case x of (t', q) \<Rightarrow> \<exists>rs. queueFor ?m t' q rs"
      using assms q unfolding queueInv_def by fast
  next
    fix r assume r: "r \<in> insert (mxNext m) (unsettled m)"
      and c: "((mxCorrelation m)(mxNext m := Some c)) r = None"
    then have ru: "r \<in> unsettled m" "r \<noteq> mxNext m" "mxCorrelation m r = None" by (auto split: if_splits)
    then obtain q' rs where "(mxType m r, q') \<in> set (mxPending m)" "queueFor m (mxType m r) q' rs"
        "r \<in> set rs"
      using assms unfolding queueInv_def by blast
    with ru(2) q show "\<exists>q rs. (((mxType m)(mxNext m := t)) r, q) \<in> set (mxPending m) \<and>
        queueFor ?m (((mxType m)(mxNext m := t)) r) q rs \<and> r \<in> set rs"
      unfolding fun_upd_other [OF ru(2)] by blast
  qed
qed

lemma register_correlated_inv:
  assumes "muxInv m" and "c \<notin> fst ` set (mxByCorrelation m)" and "0 < c"
    and "c \<le> 0xffffffffffffffff" and "mxNextCorrelation m = 0 \<or> c < mxNextCorrelation m"
  shows "muxInv (registerRequest t (Some c) d m)"
proof -
  let ?m = "registerRequest t (Some c) d m"
  note c = outcomeInv_cong [of ?m "created t (Some c) d m"]
    heapInv_cong [of ?m "created t (Some c) d m"] timerInv_cong [of ?m "created t (Some c) d m"]
  have "outcomeInv ?m" "heapInv ?m" "timerInv ?m"
    using assms(1) created_inv [of m t "Some c" d] c by (simp_all add: muxInv_def registerRequest_Some)
  with assms correlationInv_register queueInv_register_correlated show ?thesis
    by (simp add: muxInv_def)
qed

text \<open>A fresh identifier: never handed out before in this session.\<close>

lemma allocate_facts:
  assumes "muxInv m" and "allocateCorrelationId m = (Inr c, m')"
  shows "muxInv m'" and "c \<notin> fst ` set (mxByCorrelation m')" and "0 < c"
    and "c \<le> 0xffffffffffffffff" and "mxNextCorrelation m' = 0 \<or> c < mxNextCorrelation m'"
    and "m' = m\<lparr>mxNextCorrelation := (if c = 0xffffffffffffffff then 0 else c + 1)\<rparr>"
    and "c = mxNextCorrelation m"
proof -
  have c: "c = mxNextCorrelation m" "c \<noteq> 0"
    and m': "m' = m\<lparr>mxNextCorrelation := (if c = 0xffffffffffffffff then 0 else c + 1)\<rparr>"
    using assms(2) by (auto simp: allocateCorrelationId_def Let_def split: if_splits)
  have corr: "correlationInv m" using assms(1) by (simp add: muxInv_def)
  then have max: "c \<le> 0xffffffffffffffff" by (simp add: correlationInv_def c)
  have old: "k < c" if "(k, r) \<in> set (mxByCorrelation m)" for k r
    using corr that c by (auto simp: correlationInv_def)
  have "correlationInv m'"
    using corr max c old by (auto simp: correlationInv_def m' unsettled_def intro: less_SucI)
  then show "muxInv m'"
    using assms(1) by (simp add: muxInv_def m' outcomeInv_def heapInv_def timerInv_def
        unsettled_def queueInv_def queueFor_def)
  show "c \<notin> fst ` set (mxByCorrelation m')" using old by (fastforce simp: m')
  show "0 < c" "c \<le> 0xffffffffffffffff" "mxNextCorrelation m' = 0 \<or> c < mxNextCorrelation m'"
    using c max by (auto simp: m')
  show "m' = m\<lparr>mxNextCorrelation := (if c = 0xffffffffffffffff then 0 else c + 1)\<rparr>"
    "c = mxNextCorrelation m" by (fact m', fact c)
qed

text \<open>Serialised requests: none of the type is in flight when the next one starts.\<close>

definition laneFree :: "mux \<Rightarrow> nat \<Rightarrow> bool" where
  "laneFree m t \<longleftrightarrow> (\<forall>r \<in> unsettled m. mxCorrelation m r = None \<longrightarrow> mxType m r \<noteq> t)"

lemma queueFor_found:
  assumes "queueInv m" and "map_of (mxPending m) t = Some q"
  obtains rs where "queueFor m t q rs"
  using assms unfolding queueInv_def by (auto dest: map_of_SomeD)

lemma rs_settled:
  assumes "laneFree m t" and "queueFor m t q rs" and "r \<in> set rs"
  shows "mxSettled m r"
  using assms by (auto simp: laneFree_def queueFor_def unsettled_def)

lemma holds_same: "holds q ix rs \<Longrightarrow> (\<And>r. r \<in> set rs \<Longrightarrow> ix' r = ix r) \<Longrightarrow> holds q ix' rs"
  by (auto simp: holds_def)

lemma queueInv_register_uncorrelated:
  assumes inv: "queueInv m" and free: "laneFree m t"
  shows "queueInv (registerRequest t None d m)"
proof -
  let ?r = "mxNext m" and ?q0 = "getOrCreatePendingQueue t m" and ?m = "registerRequest t None d m"
  obtain q ix where enq: "enqueuePendingRequest ?q0 ?r (mxSlots m) = (q, ix)"
    by (cases "enqueuePendingRequest ?q0 ?r (mxSlots m)")
  obtain rs where q0: "holds ?q0 (mxSlots m) rs"
    and rs: "\<forall>r \<in> set rs. r < ?r \<and> mxCorrelation m r = None \<and> mxType m r = t \<and>
        mxDiscard m r = mxSettled m r \<and> mxSettled m r"
  proof (cases "map_of (mxPending m) t")
    case None
    then show ?thesis using that [of "[]"] holds_new by (simp add: getOrCreatePendingQueue_def)
  next
    case (Some q1)
    with inv obtain rs1 where rs1: "queueFor m t q1 rs1" by (rule queueFor_found)
    have "mxSettled m r" if "r \<in> set rs1" for r using rs_settled [OF free rs1 that] .
    with that [of rs1] Some rs1 show ?thesis
      by (simp add: getOrCreatePendingQueue_def queueFor_def)
  qed
  have fresh: "?r \<notin> set rs" using rs by auto
  note new = enqueue_holds [OF q0 fresh enq]
  have m: "?m = (created t None d m)\<lparr>mxPending := AList.update t q (mxPending m),
      mxSlots := ix, mxInFlight := mxInFlight m + 1, mxTotal := mxTotal m + 1\<rparr>"
    by (simp add: registerRequest_None enq)
  have mp: "mxPending ?m = AList.update t q (mxPending m)" by (simp add: m)
  have u: "unsettled ?m = insert ?r (unsettled m)" by (auto simp: m unsettled_def)
  have mine: "queueFor ?m t q (rs @ [?r])"
    using new(1) rs by (auto simp: queueFor_def m less_SucI dest: in_set_butlastD)
  have other: "queueFor ?m t' q' rs'" if "queueFor m t' q' rs'" "t' \<noteq> t" for t' q' rs'
  proof -
    have "p \<notin> set rs \<and> p \<noteq> ?r" if "p \<in> set rs'" for p
      using \<open>queueFor m t' q' rs'\<close> that \<open>t' \<noteq> t\<close> rs by (auto simp: queueFor_def)
    then have "holds q' ix rs'"
      using \<open>queueFor m t' q' rs'\<close> new(2) by (auto simp: queueFor_def intro: holds_same)
    moreover have "p \<noteq> ?r" if "p \<in> set rs'" for p
      using \<open>queueFor m t' q' rs'\<close> that by (auto simp: queueFor_def)
    ultimately show ?thesis
      using \<open>queueFor m t' q' rs'\<close> by (auto simp: queueFor_def m dest: in_set_butlastD)
  qed
  have dist: "distinct (map fst (mxPending m))" using inv by (simp add: queueInv_def)
  have pend: "(t', q') \<in> set (AList.update t q (mxPending m)) \<longleftrightarrow>
      (if t' = t then q' = q else (t', q') \<in> set (mxPending m))" for t' q'
    using map_of_eq_Some_iff [OF distinct_update [OF dist, of t q], of t' q']
      map_of_eq_Some_iff [OF dist, of t' q'] by (auto simp: update_conv')
  show ?thesis
    unfolding queueInv_def u
  proof (intro conjI ballI impI)
    show "distinct (map fst (mxPending ?m))" using dist by (simp add: m distinct_update)
  next
    fix x assume "x \<in> set (mxPending ?m)"
    moreover obtain t' q' where "x = (t', q')" by (cases x)
    ultimately have x: "x = (t', q')" "(t', q') \<in> set (AList.update t q (mxPending m))"
      using mp by simp_all
    show "case x of (t', q') \<Rightarrow> \<exists>rs. queueFor ?m t' q' rs"
    proof (cases "t' = t")
      case True
      then show ?thesis using mine x pend by auto
    next
      case False
      then have "(t', q') \<in> set (mxPending m)" using x pend by simp
      then obtain rs' where "queueFor m t' q' rs'" using inv by (auto simp: queueInv_def)
      with False other x show ?thesis by auto
    qed
  next
    fix r assume r: "r \<in> insert ?r (unsettled m)" and c: "mxCorrelation ?m r = None"
    show "\<exists>q rs. (mxType ?m r, q) \<in> set (mxPending ?m) \<and> queueFor ?m (mxType ?m r) q rs \<and> r \<in> set rs"
    proof (cases "r = ?r")
      case True
      then show ?thesis using mine pend by (auto simp: m)
    next
      case False
      then have ru: "r \<in> unsettled m" "mxCorrelation m r = None" using r c by (auto simp: m)
      then obtain q' rs' where q': "(mxType m r, q') \<in> set (mxPending m)"
          "queueFor m (mxType m r) q' rs'" "r \<in> set rs'"
        using inv unfolding queueInv_def by blast
      have "mxType m r \<noteq> t" using free ru by (simp add: laneFree_def)
      with q' other [OF q'(2)] pend False show ?thesis by (auto simp: m)
    qed
  qed
qed

lemma register_uncorrelated_inv:
  assumes "muxInv m" and "laneFree m t"
  shows "muxInv (registerRequest t None d m)"
proof -
  let ?m = "registerRequest t None d m"
  have sel: "mxNext ?m = mxNext m + 1" "mxSettled ?m = mxSettled (created t None d m)"
    "mxOutcome ?m = mxOutcome (created t None d m)" "mxHeap ?m = mxHeap (created t None d m)"
    "mxTimer ?m = mxTimer (created t None d m)" "mxDiscard ?m = (mxDiscard m)(mxNext m := False)"
    "mxByCorrelation ?m = mxByCorrelation m" "mxNextCorrelation ?m = mxNextCorrelation m"
    "mxCorrelation ?m = (mxCorrelation m)(mxNext m := None)"
    by (simp_all add: registerRequest_None split: prod.splits)
  note c = outcomeInv_cong [of ?m "created t None d m"]
    heapInv_cong [of ?m "created t None d m"] timerInv_cong [of ?m "created t None d m"]
  have "outcomeInv ?m" "heapInv ?m" "timerInv ?m"
    using assms(1) created_inv [of m t None d] c by (simp_all add: muxInv_def sel)
  moreover have "unsettled ?m = insert (mxNext m) (unsettled m)"
    by (auto simp: unsettled_def sel)
  then have "correlationInv ?m"
    using assms(1) by (auto simp: muxInv_def correlationInv_def sel)
  ultimately show ?thesis
    using assms queueInv_register_uncorrelated by (simp add: muxInv_def)
qed

lemma issueRequest_inv:
  assumes "muxInv m" and "mxCorrelationEnabled m \<or> laneFree m t"
  shows "muxInv (snd (issueRequest t frameData timeoutMs now aborted m))"
proof (cases "\<not> aborted \<and> mxCorrelationEnabled m")
  case True
  obtain res m1 where a: "allocateCorrelationId m = (res, m1)" by (cases "allocateCorrelationId m")
  show ?thesis
  proof (cases res)
    case (Inl err)
    then have "m1 = m" using a by (auto simp: allocateCorrelationId_def Let_def split: if_splits)
    with True a Inl assms(1) show ?thesis by (simp add: issueRequest_def)
  next
    case (Inr c)
    note f = allocate_facts [OF assms(1) a [unfolded Inr]]
    show ?thesis
      using True a Inr f register_correlated_inv [OF f(1-5)]
      by (auto simp: issueRequest_def split: sum.splits)
  qed
next
  case False
  then show ?thesis
    using assms register_uncorrelated_inv [OF assms(1)] by (auto simp: issueRequest_def)
qed

end
