(* ===== verification/MuxDispatch.thy ===== *)
theory MuxDispatch
  imports MuxInvariant
begin

text \<open>
  Dispatching a response, failing to send, and disconnecting: each keeps the invariant of the
  multiplexer, and each settles exactly the requests it should.
\<close>

section \<open>Taking a request out of its table\<close>

lemma set_delete: "set (AList.delete k al) = {x \<in> set al. fst x \<noteq> k}"
  by (auto simp: AList.delete_eq)

lemma correlationInv_delete:
  assumes "correlationInv m" and "\<forall>p \<in> unsettled m - {r}. mxCorrelation m p \<noteq> Some c"
    and "mxNext m' = mxNext m" "mxCorrelation m' = mxCorrelation m" "mxDiscard m' = mxDiscard m"
    and "mxSettled m' = (mxSettled m)(r := True)" "mxNextCorrelation m' = mxNextCorrelation m"
    and "mxByCorrelation m' = AList.delete c (mxByCorrelation m)"
    and "r < mxNext m" and "mxCorrelation m r = Some c"
  shows "correlationInv m'"
proof -
  have u: "unsettled m' = unsettled m - {r}" using assms(3,6) by (auto simp: unsettled_def)
  have key: "p \<noteq> r" if "(k, p) \<in> set (mxByCorrelation m)" "k \<noteq> c" for k p
    using assms(1,10) that by (auto simp: correlationInv_def)
  show ?thesis
    unfolding correlationInv_def u
  proof (intro conjI ballI allI impI)
    show "distinct (map fst (mxByCorrelation m'))"
      using assms(1) by (simp add: correlationInv_def assms(8) distinct_delete)
  next
    fix x assume "x \<in> set (mxByCorrelation m')"
    then have x: "x \<in> set (mxByCorrelation m)" "fst x \<noteq> c" by (auto simp: assms(8) set_delete)
    then show "case x of (c, r) \<Rightarrow> r < mxNext m' \<and> mxCorrelation m' r = Some c \<and> 0 < c \<and>
        c \<le> 0xffffffffffffffff \<and> (mxNextCorrelation m' = 0 \<or> c < mxNextCorrelation m') \<and>
        mxDiscard m' r = mxSettled m' r"
      using assms(1) key [of "fst x" "snd x"] by (auto simp: correlationInv_def assms(3-7))
  next
    fix p k assume p: "p \<in> unsettled m - {r}" and k: "mxCorrelation m' p = Some k"
    then have "(k, p) \<in> set (mxByCorrelation m)" using assms(1,4) by (simp add: correlationInv_def)
    moreover have "k \<noteq> c" using assms(2,4) p k by auto
    ultimately show "(k, p) \<in> set (mxByCorrelation m')" by (simp add: assms(8) set_delete)
  next
    show "mxNextCorrelation m' \<le> 0xffffffffffffffff"
      using assms(1) by (simp add: correlationInv_def assms(7))
  qed
qed

lemma correlation_unique:
  assumes "correlationInv m" and "map_of (mxByCorrelation m) c = Some r"
  shows "r < mxNext m" "mxCorrelation m r = Some c" "mxDiscard m r = mxSettled m r"
    and "\<forall>p \<in> unsettled m - {r}. mxCorrelation m p \<noteq> Some c"
proof -
  have mem: "(c, r) \<in> set (mxByCorrelation m)" using assms(2) by (rule map_of_SomeD)
  then show "r < mxNext m" "mxCorrelation m r = Some c" "mxDiscard m r = mxSettled m r"
    using assms(1) by (auto simp: correlationInv_def)
  show "\<forall>p \<in> unsettled m - {r}. mxCorrelation m p \<noteq> Some c"
  proof
    fix p assume p: "p \<in> unsettled m - {r}"
    show "mxCorrelation m p \<noteq> Some c"
    proof
      assume "mxCorrelation m p = Some c"
      then have "(c, p) \<in> set (mxByCorrelation m)" using assms(1) p by (simp add: correlationInv_def)
      moreover have "distinct (map fst (mxByCorrelation m))" using assms(1) by (simp add: correlationInv_def)
      ultimately have "map_of (mxByCorrelation m) c = Some p" by simp
      with assms(2) p show False by simp
    qed
  qed
qed

lemma queueInv_keep:
  assumes "queueInv m"
    and "mxNext m' = mxNext m" "mxType m' = mxType m" "mxCorrelation m' = mxCorrelation m"
    and "mxSlots m' = mxSlots m" "mxPending m' = mxPending m"
    and "\<And>p. mxCorrelation m p = None \<Longrightarrow> mxDiscard m' p = mxDiscard m p \<and> mxSettled m' p = mxSettled m p"
  shows "queueInv m'"
proof -
  have q: "queueFor m' t q rs" if "queueFor m t q rs" for t q rs
  proof -
    have "mxDiscard m' p = mxDiscard m p \<and> mxSettled m' p = mxSettled m p" if "p \<in> set rs" for p
      using that \<open>queueFor m t q rs\<close> assms(7) by (simp add: queueFor_def)
    with that in_set_butlastD [of _ rs] show ?thesis by (simp add: queueFor_def assms(2-5))
  qed
  have u: "r \<in> unsettled m" if "r \<in> unsettled m'" "mxCorrelation m r = None" for r
    using that assms(2,7) by (simp add: unsettled_def)
  show ?thesis
    unfolding queueInv_def assms(3,4,6)
  proof (intro conjI ballI impI)
    show "distinct (map fst (mxPending m))" using assms(1) by (simp add: queueInv_def)
  next
    fix x assume "x \<in> set (mxPending m)"
    then show "case x of (t, q) \<Rightarrow> \<exists>rs. queueFor m' t q rs"
      using assms(1) q unfolding queueInv_def by fast
  next
    fix r assume "r \<in> unsettled m'" "mxCorrelation m r = None"
    then show "\<exists>q rs. (mxType m r, q) \<in> set (mxPending m) \<and> queueFor m' (mxType m r) q rs \<and> r \<in> set rs"
      using assms(1) u q unfolding queueInv_def by meson
  qed
qed

section \<open>A correlated response\<close>

lemma dispatchCorrelated_tombstone:
  assumes "muxInv m" and "map_of (mxByCorrelation m) c = Some r" and "mxSettled m r"
  shows "muxInv (snd (dispatchCorrelated pl c responseFinal m))"
    and "mxOutcome (snd (dispatchCorrelated pl c responseFinal m)) = mxOutcome m"
    and "fst (dispatchCorrelated pl c responseFinal m) = Inr ()"
    and "mxInFlight (snd (dispatchCorrelated pl c responseFinal m)) = mxInFlight m"
    and "unsettled (snd (dispatchCorrelated pl c responseFinal m)) = unsettled m"
proof -
  note u = correlation_unique [OF _ assms(2)]
  have inv: "correlationInv m" using assms(1) by (simp add: muxInv_def)
  have d: "mxDiscard m r" using u(3) [OF inv] assms(3) by simp
  let ?m = "snd (dispatchCorrelated pl c responseFinal m)"
  have m: "?m = ignoreResponse (if responseFinal
      then m\<lparr>mxByCorrelation := AList.delete c (mxByCorrelation m)\<rparr> else m)"
    using assms(2) d by (simp add: dispatchCorrelated_def)
  show "fst (dispatchCorrelated pl c responseFinal m) = Inr ()"
    using assms(2) d by (simp add: dispatchCorrelated_def)
  show "mxOutcome ?m = mxOutcome m" "mxInFlight ?m = mxInFlight m" "unsettled ?m = unsettled m"
    by (simp_all add: m ignoreResponse_def unsettled_def)
  have "correlationInv ?m"
  proof (cases responseFinal)
    case True
    have "(mxSettled m)(r := True) = mxSettled m" using assms(3) by (simp add: fun_upd_idem)
    moreover have "mxNext ?m = mxNext m" "mxCorrelation ?m = mxCorrelation m"
        "mxDiscard ?m = mxDiscard m" "mxSettled ?m = mxSettled m"
        "mxNextCorrelation ?m = mxNextCorrelation m"
        "mxByCorrelation ?m = AList.delete c (mxByCorrelation m)"
      unfolding m using True by (simp_all add: ignoreResponse_def)
    ultimately show ?thesis
      using u(1,2) [OF inv] by (intro correlationInv_delete [OF inv u(4) [OF inv]]) simp_all
  next
    case False
    then have e: "?m = ignoreResponse m" unfolding m by simp
    show ?thesis
      unfolding e using inv by (simp add: ignoreResponse_def correlationInv_def unsettled_def)
  qed
  then show "muxInv ?m"
    using assms(1) by (simp add: muxInv_def m ignoreResponse_def outcomeInv_def heapInv_def
        timerInv_def unsettled_def queueInv_def queueFor_def)
qed

lemma dispatchCorrelated_live:
  assumes "muxInv m" and "map_of (mxByCorrelation m) c = Some r" and "\<not> mxSettled m r"
  shows "muxInv (snd (dispatchCorrelated pl c True m))"
    and "mxOutcome (snd (dispatchCorrelated pl c True m)) = (mxOutcome m)(r := Some (Inr pl))"
    and "fst (dispatchCorrelated pl c True m) = Inr ()"
    and "unsettled (snd (dispatchCorrelated pl c True m)) = unsettled m - {r}"
    and "r \<in> unsettled m"
    and "mxInFlight (snd (dispatchCorrelated pl c True m)) = mxInFlight m - 1"
proof -
  have inv: "correlationInv m" "outcomeInv m" "heapInv m" "timerInv m" "queueInv m"
    using assms(1) by (simp_all add: muxInv_def)
  note u = correlation_unique [OF inv(1) assms(2)]
  have d: "\<not> mxDiscard m r" using u(3) assms(3) by simp
  let ?d = "m\<lparr>mxByCorrelation := AList.delete c (mxByCorrelation m)\<rparr>"
  let ?m = "snd (dispatchCorrelated pl c True m)"
  have "completeRequest r pl ?d =
      (close r (Inr pl) ?d)\<lparr>mxInFlight := mxInFlight ?d - 1, mxResponses := mxResponses ?d + 1\<rparr>"
    using inv u(1) assms(3) by (intro completeRequest_eq) (simp_all add: outcomeInv_def heapInv_def)
  then have m: "?m = (close r (Inr pl) ?d)\<lparr>mxInFlight := mxInFlight m - 1,
      mxResponses := mxResponses m + 1\<rparr>"
    using assms(2) d by (simp add: dispatchCorrelated_def)
  have same: "mxHeap ?m = mxHeap (close r (Inr pl) m)" "mxSettled ?m = (mxSettled m)(r := True)"
    "mxNext ?m = mxNext m" "mxOutcome ?m = (mxOutcome m)(r := Some (Inr pl))" "mxTimer ?m = mxTimer m"
    "mxDiscard ?m = mxDiscard m" "mxCorrelation ?m = mxCorrelation m" "mxType ?m = mxType m"
    "mxByCorrelation ?m = AList.delete c (mxByCorrelation m)" "mxPending ?m = mxPending m"
    "mxSlots ?m = mxSlots m" "mxNextCorrelation ?m = mxNextCorrelation m"
    by (simp_all add: m) (simp add: close_def)
  show "mxOutcome ?m = (mxOutcome m)(r := Some (Inr pl))" by (fact same)
  show "fst (dispatchCorrelated pl c True m) = Inr ()"
    using assms(2) d by (simp add: dispatchCorrelated_def)
  show "unsettled ?m = unsettled m - {r}" by (auto simp: unsettled_def same)
  show "r \<in> unsettled m" using u(1) assms(3) by (simp add: unsettled_def)
  show "mxInFlight ?m = mxInFlight m - 1" by (simp add: m)
  have "outcomeInv ?m" "heapInv ?m" "timerInv ?m"
    using outcomeInv_close [OF inv(2), of r "Inr pl"] heapInv_close [OF inv(3), of r "Inr pl"]
      timerInv_close [OF inv(3,4), of r "Inr pl"]
      outcomeInv_cong [of ?m "close r (Inr pl) m"] heapInv_cong [of ?m "close r (Inr pl) m"]
      timerInv_cong [of ?m "close r (Inr pl) m"]
    by (simp_all add: same)
  moreover have "correlationInv ?m"
    using correlationInv_delete [OF inv(1) u(4), of ?m] u(1,2) by (simp add: same)
  moreover have "queueInv ?m"
    using u(2) by (intro queueInv_keep [OF inv(5)]) (auto simp: same)
  ultimately show "muxInv ?m" by (simp add: muxInv_def)
qed

lemma dispatchCorrelated_partial:
  assumes "correlationInv m" and "map_of (mxByCorrelation m) c = Some r" and "\<not> mxSettled m r"
  shows "dispatchCorrelated pl c False m = (Inr (), m)"
  using assms correlation_unique(3) [OF assms(1,2)] by (simp add: dispatchCorrelated_def)

lemma dispatchCorrelated_unknown:
  "map_of (mxByCorrelation m) c = None \<Longrightarrow> dispatchCorrelated pl c f m = (Inl (ProtocolError None), m)"
  by (simp add: dispatchCorrelated_def)

section \<open>An uncorrelated response\<close>

lemma queueInv_step:
  assumes inv: "queueInv m" and q: "map_of (mxPending m) t = Some q"
    and same: "mxNext m' = mxNext m" "mxType m' = mxType m" "mxCorrelation m' = mxCorrelation m"
      "mxSlots m' = mxSlots m" "mxDiscard m' = mxDiscard m" "mxSettled m' = (mxSettled m)(r := True)"
    and mine: "mxType m r = t" "mxCorrelation m r = None"
    and pend: "mxPending m' = (if rs' = [] then AList.delete t (mxPending m)
      else AList.update t q' (mxPending m))"
    and new: "rs' \<noteq> [] \<Longrightarrow> queueFor m' t q' rs'"
    and left: "\<And>p. p \<in> unsettled m \<Longrightarrow> mxCorrelation m p = None \<Longrightarrow> mxType m p = t \<Longrightarrow> p = r \<or> p \<in> set rs'"
  shows "queueInv m'"
proof -
  have dist: "distinct (map fst (mxPending m))" using inv by (simp add: queueInv_def)
  have u: "unsettled m' = unsettled m - {r}" by (auto simp: unsettled_def same)
  have other: "queueFor m' t2 q2 rs2" if "queueFor m t2 q2 rs2" "t2 \<noteq> t" for t2 q2 rs2
    using that mine by (auto simp: queueFor_def same dest: in_set_butlastD)
  have mem: "(t2, q2) \<in> set (mxPending m') \<longleftrightarrow>
      (if t2 = t then rs' \<noteq> [] \<and> q2 = q' else (t2, q2) \<in> set (mxPending m))" for t2 q2
    using map_of_eq_Some_iff [OF distinct_update [OF dist, of t q'], of t2 q2]
      map_of_eq_Some_iff [OF dist, of t2 q2]
    by (auto simp: pend set_delete update_conv')
  show ?thesis
    unfolding queueInv_def u
  proof (intro conjI ballI impI)
    show "distinct (map fst (mxPending m'))"
      using dist by (simp add: pend distinct_update distinct_delete)
  next
    fix x assume "x \<in> set (mxPending m')"
    moreover obtain t2 q2 where x: "x = (t2, q2)" by (cases x)
    ultimately show "case x of (t, q) \<Rightarrow> \<exists>rs. queueFor m' t q rs"
    proof (cases "t2 = t")
      case True
      then show ?thesis using \<open>x \<in> set (mxPending m')\<close> x mem new by auto
    next
      case False
      then have "(t2, q2) \<in> set (mxPending m)" using \<open>x \<in> set (mxPending m')\<close> x mem by simp
      then obtain rs2 where "queueFor m t2 q2 rs2" using inv by (auto simp: queueInv_def)
      with False other x show ?thesis by auto
    qed
  next
    fix p assume p: "p \<in> unsettled m - {r}" and c: "mxCorrelation m' p = None"
    show "\<exists>q rs. (mxType m' p, q) \<in> set (mxPending m') \<and> queueFor m' (mxType m' p) q rs \<and> p \<in> set rs"
    proof (cases "mxType m p = t")
      case True
      then have "p \<in> set rs'" using left [of p] p c by (auto simp: same)
      then have "rs' \<noteq> []" by auto
      with True mem [of t q'] new \<open>p \<in> set rs'\<close> show ?thesis by (auto simp: same)
    next
      case False
      obtain q2 rs2 where q2: "(mxType m p, q2) \<in> set (mxPending m)" "queueFor m (mxType m p) q2 rs2"
          "p \<in> set rs2"
        using inv p c unfolding queueInv_def same by blast
      then have "(mxType m p, q2) \<in> set (mxPending m')" using False mem by simp
      with q2 other [OF q2(2) False] show ?thesis unfolding same by blast
    qed
  qed
qed

lemma live_in_queue:
  assumes "queueInv m" and "map_of (mxPending m) t = Some q" and "queueFor m t q rs"
    and "p \<in> unsettled m" "mxCorrelation m p = None" "mxType m p = t"
  shows "p \<in> set rs" and "p = last rs"
proof -
  obtain q2 rs2 where q2: "(t, q2) \<in> set (mxPending m)" "queueFor m t q2 rs2" "p \<in> set rs2"
    using assms(1,4-6) unfolding queueInv_def by blast
  have "distinct (map fst (mxPending m))" using assms(1) by (simp add: queueInv_def)
  then have "q2 = q" using q2(1) assms(2) by simp
  have "rs2 = rs"
  proof (rule nth_equalityI)
    show len: "length rs2 = length rs"
      using q2(2) assms(3) \<open>q2 = q\<close> by (simp add: queueFor_def holds_def)
    fix i assume "i < length rs2"
    then show "rs2 ! i = rs ! i"
      using q2(2) assms(3) \<open>q2 = q\<close> len by (auto simp: queueFor_def holds_def)
  qed
  then show mem: "p \<in> set rs" using q2(3) by simp
  have "p \<notin> set (butlast rs)" using assms(3,4) by (auto simp: queueFor_def unsettled_def)
  moreover have "set rs = insert (last rs) (set (butlast rs))"
    using assms(3) by (metis append_butlast_last_id list.set(2) queueFor_def rotate1.simps(2) set_rotate1)
  ultimately show "p = last rs" using mem by auto
qed

lemma dispatchQueued_push:
  "isPushFrame t pl m \<Longrightarrow> dispatchQueued t pl m = Some (Inr (), notify t pl m)"
  by (simp add: dispatchQueued_def)

text \<open>The oldest request of the type takes the response: a tombstone swallows it, a live one gets it.\<close>

lemma dispatchQueued_taken:
  assumes inv: "muxInv m" and no: "\<not> isPushFrame t pl m" and q: "map_of (mxPending m) t = Some q"
  obtains r rs m' where "queueFor m t q (r # rs)" and "dispatchQueued t pl m = Some (Inr (), m')"
    and "muxInv m'" and "unsettled m' = unsettled m - {r}"
    and "mxOutcome m' = (if mxSettled m r then mxOutcome m else (mxOutcome m)(r := Some (Inr pl)))"
    and "mxInFlight m' = (if mxSettled m r then mxInFlight m else mxInFlight m - 1)"
    and "mxNext m' = mxNext m"
proof -
  have parts: "correlationInv m" "outcomeInv m" "heapInv m" "timerInv m" "queueInv m"
    using inv by (simp_all add: muxInv_def)
  obtain rs0 where rs0: "queueFor m t q rs0" using parts(5) q by (rule queueFor_found)
  then obtain r rs where rs: "rs0 = r # rs" by (cases rs0) (auto simp: queueFor_def)
  note mine = rs0 [unfolded rs]
  have h: "holds q (mxSlots m) (r # rs)" using mine by (simp add: queueFor_def)
  obtain q' where deq: "dequeuePendingRequest q = Some (Inr r, q')" and q': "holds q' (mxSlots m) rs"
    using dequeue_holds [OF h] by blast
  have r: "r < mxNext m" "mxCorrelation m r = None" "mxType m r = t" "mxDiscard m r = mxSettled m r"
    using mine by (auto simp: queueFor_def)
  let ?pend = "if rs = [] then AList.delete t (mxPending m) else AList.update t q' (mxPending m)"
  let ?d = "m\<lparr>mxPending := ?pend\<rparr>"
  have sz: "pqSize q = Suc (length rs)" "pqSize q' = length rs" using h q' by (simp_all add: holds_def)
  have eq: "dispatchQueued t pl m =
      Some (Inr (), if mxSettled m r then ignoreResponse ?d else completeRequest r pl ?d)"
    using no q deq sz r(4) by (simp add: dispatchQueued_def Let_def)
  have left: "p = r \<or> p \<in> set rs" if "p \<in> unsettled m" "mxCorrelation m p = None" "mxType m p = t" for p
    using live_in_queue(1) [OF parts(5) q mine that] by auto
  have nr: "r \<notin> set rs" using h by (simp add: holds_def)
  have new: "queueFor m' t q' rs" if "rs \<noteq> []" "mxNext m' = mxNext m" "mxType m' = mxType m"
      "mxCorrelation m' = mxCorrelation m" "mxSlots m' = mxSlots m" "mxDiscard m' = mxDiscard m"
      "mxSettled m' = (mxSettled m)(r := True)" for m'
  proof -
    have "mxSettled m p" if "p \<in> set (butlast rs)" for p
      using mine \<open>rs \<noteq> []\<close> that by (simp add: queueFor_def)
    moreover have "p \<noteq> r" if "p \<in> set rs" for p using that nr by auto
    ultimately show ?thesis
      using that mine q' by (simp add: queueFor_def)
  qed
  show ?thesis
  proof (cases "mxSettled m r")
    case True
    let ?m = "ignoreResponse ?d"
    have idem: "(mxSettled m)(r := True) = mxSettled m" using True by (simp add: fun_upd_idem)
    have "queueInv ?m"
      by (rule queueInv_step [OF parts(5) q, where r = r and q' = q' and rs' = rs])
        (use r left new [of ?m] idem in \<open>simp_all add: ignoreResponse_def\<close>)
    then have "muxInv ?m"
      using inv by (simp add: muxInv_def ignoreResponse_def outcomeInv_def heapInv_def
          timerInv_def unsettled_def correlationInv_def)
    moreover have "unsettled ?m = unsettled m - {r}"
      using True by (auto simp: unsettled_def ignoreResponse_def)
    ultimately show ?thesis
      using that [OF mine, of ?m] eq True by (simp add: ignoreResponse_def)
  next
    case False
    let ?m = "completeRequest r pl ?d"
    have m: "?m = (close r (Inr pl) ?d)\<lparr>mxInFlight := mxInFlight ?d - 1,
        mxResponses := mxResponses ?d + 1\<rparr>"
      using parts r(1) False by (intro completeRequest_eq) (simp_all add: outcomeInv_def heapInv_def)
    have same: "mxHeap ?m = mxHeap (close r (Inr pl) m)" "mxSettled ?m = (mxSettled m)(r := True)"
      "mxNext ?m = mxNext m" "mxOutcome ?m = (mxOutcome m)(r := Some (Inr pl))" "mxTimer ?m = mxTimer m"
      "mxDiscard ?m = mxDiscard m" "mxCorrelation ?m = mxCorrelation m" "mxType ?m = mxType m"
      "mxByCorrelation ?m = mxByCorrelation m" "mxPending ?m = ?pend"
      "mxSlots ?m = mxSlots m" "mxNextCorrelation ?m = mxNextCorrelation m"
      "mxInFlight ?m = mxInFlight m - 1"
      by (simp_all add: m) (simp add: close_def)
    have u: "unsettled ?m = unsettled m - {r}" by (auto simp: unsettled_def same)
    have ne: "rs \<noteq> [] \<Longrightarrow> queueFor ?m t q' rs"
      using new [OF _ same(3,8,7,11,6,2)] by blast
    have "queueInv ?m"
      by (rule queueInv_step [OF parts(5) q same(3,8,7,11,6,2) r(3,2) same(10) ne left])
    moreover have "outcomeInv ?m" "heapInv ?m" "timerInv ?m"
      using outcomeInv_close [OF parts(2), of r "Inr pl"] heapInv_close [OF parts(3), of r "Inr pl"]
        timerInv_close [OF parts(3,4), of r "Inr pl"]
        outcomeInv_cong [of ?m "close r (Inr pl) m"] heapInv_cong [of ?m "close r (Inr pl) m"]
        timerInv_cong [of ?m "close r (Inr pl) m"]
      by (simp_all add: same)
    moreover have "(k, p) \<in> set (mxByCorrelation m) \<Longrightarrow> p \<noteq> r" for k p
      using parts(1) r(2) by (auto simp: correlationInv_def)
    then have "correlationInv ?m"
      using parts(1) u by (auto simp: correlationInv_def same)
    ultimately show ?thesis
      using that [OF mine, of ?m] eq False u by (simp add: muxInv_def same)
  qed
qed

lemma muxInv_counters:
  assumes "muxInv m" and "mxNext m' = mxNext m" "mxType m' = mxType m" "mxCorrelation m' = mxCorrelation m"
    "mxSlots m' = mxSlots m" "mxDiscard m' = mxDiscard m" "mxSettled m' = mxSettled m"
    "mxOutcome m' = mxOutcome m" "mxHeap m' = mxHeap m" "mxTimer m' = mxTimer m"
    "mxPending m' = mxPending m" "mxByCorrelation m' = mxByCorrelation m"
    "mxNextCorrelation m' = mxNextCorrelation m"
  shows "muxInv m'"
  using assms(1) outcomeInv_cong [of m' m] heapInv_cong [of m' m] timerInv_cong [of m' m]
    correlationInv_cong [of m' m] queueInv_cong [of m' m]
  by (simp add: muxInv_def assms(2-))

lemma dispatchUnmatched_facts:
  assumes "muxInv m"
  shows "muxInv (dispatchUnmatched t pl m)" and "mxOutcome (dispatchUnmatched t pl m) = mxOutcome m"
    and "unsettled (dispatchUnmatched t pl m) = unsettled m"
    and "mxInFlight (dispatchUnmatched t pl m) = mxInFlight m"
proof -
  show "muxInv (dispatchUnmatched t pl m)"
    by (rule muxInv_counters [OF assms])
      (simp_all add: dispatchUnmatched_def notify_def ignoreResponse_def)
qed (simp_all add: dispatchUnmatched_def notify_def ignoreResponse_def unsettled_def)

lemma dispatchQueued_unmatched:
  "\<not> isPushFrame t pl m \<Longrightarrow> map_of (mxPending m) t = None \<Longrightarrow>
    dispatchQueued t pl m = Some (Inr (), dispatchUnmatched t pl m)"
  by (simp add: dispatchQueued_def)

end
