(* ===== verification/MuxSteps.thy ===== *)
theory MuxSteps
  imports MuxDispatch
begin

text \<open>
  A send that fails, a session that ends, and the multiplexer as a machine: a step for each thing
  that can happen to it, the states it can reach, and what holds in all of them.
\<close>

section \<open>Taking a request back\<close>

text \<open>The state after the request was closed and taken out of its table.\<close>

definition withdrawn :: "nat \<Rightarrow> jserror \<Rightarrow> mux \<Rightarrow> mux \<Rightarrow> bool" where
  "withdrawn r e m m' \<longleftrightarrow>
     mxNext m' = mxNext m \<and> mxType m' = mxType m \<and> mxCorrelation m' = mxCorrelation m \<and>
     mxSlots m' = mxSlots m \<and> mxDiscard m' = mxDiscard m \<and>
     mxSettled m' = (mxSettled m)(r := True) \<and> mxOutcome m' = (mxOutcome m)(r := Some (Inl e)) \<and>
     mxHeap m' = mxHeap (close r (Inl e) m) \<and> mxTimer m' = mxTimer m \<and>
     mxNextCorrelation m' = mxNextCorrelation m \<and> mxState m' = mxState m \<and>
     mxCorrelationEnabled m' = mxCorrelationEnabled m \<and>
     mxByCorrelation m' = (case mxCorrelation m r of
       Some c \<Rightarrow> AList.delete c (mxByCorrelation m) | None \<Rightarrow> mxByCorrelation m) \<and>
     mxInFlight m' = (if mxCorrelation m r = None then mxInFlight m - 1 else mxInFlight m) \<and>
     (mxCorrelation m r \<noteq> None \<longrightarrow> mxPending m' = mxPending m)"

lemma withdrawn_parts:
  assumes "withdrawn r e m m'"
  shows "outcomeInv m \<Longrightarrow> outcomeInv m'" and "heapInv m \<Longrightarrow> heapInv m'"
    and "heapInv m \<Longrightarrow> timerInv m \<Longrightarrow> timerInv m'" and "unsettled m' = unsettled m - {r}"
  using assms outcomeInv_close [of m r "Inl e"] heapInv_close [of m r "Inl e"]
    timerInv_close [of m r "Inl e"] outcomeInv_cong [of m' "close r (Inl e) m"]
    heapInv_cong [of m' "close r (Inl e) m"] timerInv_cong [of m' "close r (Inl e) m"]
  by (auto simp: withdrawn_def unsettled_def)

lemma withdrawn_correlation:
  assumes "withdrawn r e m m'" and inv: "correlationInv m" and r: "r \<in> unsettled m"
  shows "correlationInv m'"
proof (cases "mxCorrelation m r")
  case None
  have "(k, p) \<in> set (mxByCorrelation m) \<Longrightarrow> p \<noteq> r" for k p
    using inv None by (auto simp: correlationInv_def)
  then show ?thesis
    using inv assms(1) withdrawn_parts(4) [OF assms(1)] None
    by (auto simp: correlationInv_def withdrawn_def)
next
  case (Some c)
  have "map_of (mxByCorrelation m) c = Some r"
    using inv r Some by (auto simp: correlationInv_def)
  note u = correlation_unique [OF inv this]
  show ?thesis
    by (rule correlationInv_delete [OF inv u(4) _ _ _ _ _ _ u(1) Some])
      (use assms(1) Some in \<open>simp_all add: withdrawn_def\<close>)
qed

text \<open>A serialised request is the newest of its queue, and is removed in place.\<close>

lemma removed_newest:
  assumes inv: "queueInv m" and r: "r \<in> unsettled m" and c: "mxCorrelation m r = None"
  obtains q q' rs where "map_of (mxPending m) (mxType m r) = Some q"
    and "removeFromQueue q r (mxSlots m) = Some (Inr q')" and "pqSize q' = length rs"
    and "queueFor m (mxType m r) q (rs @ [r])" and "rs \<noteq> [] \<longrightarrow> holds q' (mxSlots m) rs"
proof -
  obtain q rs where q: "(mxType m r, q) \<in> set (mxPending m)" "queueFor m (mxType m r) q rs"
    using inv r c unfolding queueInv_def by blast
  have "distinct (map fst (mxPending m))" using inv by (simp add: queueInv_def)
  with q(1) have map: "map_of (mxPending m) (mxType m r) = Some q" by simp
  have "r = last rs" using live_in_queue(2) [OF inv map q(2) r c] by simp
  moreover have "rs \<noteq> []" using q(2) by (simp add: queueFor_def)
  ultimately have rs: "butlast rs @ [r] = rs" by simp
  then have "holds q (mxSlots m) (butlast rs @ [r])" using q(2) by (simp add: queueFor_def)
  from removeFromQueue_newest [OF this] obtain q' where
    "removeFromQueue q r (mxSlots m) = Some (Inr q')" "pqSize q' = length (butlast rs)"
    "butlast rs \<noteq> [] \<longrightarrow> holds q' (mxSlots m) (butlast rs)" by blast
  with that [of q q' "butlast rs"] map q(2) rs show ?thesis by simp
qed

lemma sendRejected_unsettled:
  assumes out: "outcomeInv m" and inv: "queueInv m" and r: "r \<in> unsettled m"
  obtains m' where "sendRejected r e aborted m = Some m'"
    and "withdrawn r (if aborted then abortError else e) m m'" and "queueInv m'"
proof -
  let ?e = "if aborted then abortError else e"
  have open_r: "\<not> mxSettled m r" "mxOutcome m r = None"
    using out r by (auto simp: unsettled_def outcomeInv_def)
  show ?thesis
  proof (cases "mxCorrelation m r")
    case (Some c)
    let ?m = "(close r (Inl ?e) m)\<lparr>mxByCorrelation := AList.delete c (mxByCorrelation m)\<rparr>"
    have eq: "sendRejected r e aborted m = Some ?m"
      using open_r Some by (simp add: sendRejected_def finalize_def dropTimeout_def clearDeadline_def
          unregisterRequest_def settle_def close_def)
    have w: "withdrawn r ?e m ?m" using Some by (simp add: withdrawn_def close_def)
    have "queueInv ?m" by (rule queueInv_keep [OF inv]) (use Some in auto)
    with that eq w show ?thesis by blast
  next
    case None
    obtain q q' rs where q: "map_of (mxPending m) (mxType m r) = Some q"
      "removeFromQueue q r (mxSlots m) = Some (Inr q')" "pqSize q' = length rs"
      "queueFor m (mxType m r) q (rs @ [r])" "rs \<noteq> [] \<longrightarrow> holds q' (mxSlots m) rs"
      by (rule removed_newest [OF inv r None])
    let ?t = "mxType m r"
    let ?m = "(close r (Inl ?e) m)\<lparr>mxPending := (if rs = [] then AList.delete ?t (mxPending m)
        else AList.update ?t q' (mxPending m)), mxInFlight := mxInFlight m - 1\<rparr>"
    have eq: "sendRejected r e aborted m = Some ?m"
      using open_r None q(1-3) by (simp add: sendRejected_def finalize_def dropTimeout_def
          clearDeadline_def unregisterRequest_def settle_def close_def recordRequestFinished_def)
    have w: "withdrawn r ?e m ?m" using None by (simp add: withdrawn_def close_def)
    have same: "mxNext ?m = mxNext m" "mxType ?m = mxType m" "mxCorrelation ?m = mxCorrelation m"
      "mxSlots ?m = mxSlots m" "mxDiscard ?m = mxDiscard m" "mxSettled ?m = (mxSettled m)(r := True)"
      "mxPending ?m = (if rs = [] then AList.delete ?t (mxPending m)
        else AList.update ?t q' (mxPending m))"
      by simp_all
    have "p = r \<or> p \<in> set rs" if "p \<in> unsettled m" "mxCorrelation m p = None" "mxType m p = ?t" for p
      using live_in_queue(1) [OF inv q(1,4) that] by auto
    moreover have "r \<notin> set rs" using q(4) by (auto simp: queueFor_def holds_def)
    then have "queueFor ?m ?t q' rs" if "rs \<noteq> []"
      unfolding queueFor_def same using q(4,5) that
      by (auto simp: queueFor_def dest: in_set_butlastD)
    ultimately have "queueInv ?m"
      by (intro queueInv_step [OF inv q(1) same(1-6) refl None same(7)])
    with that eq w show ?thesis by blast
  qed
qed

lemma sendRejected_settled:
  "outcomeInv m \<Longrightarrow> r < mxNext m \<Longrightarrow> mxSettled m r \<Longrightarrow> sendRejected r e aborted m = Some m"
  by (auto simp: sendRejected_def finalize_def settle_def outcomeInv_def)

lemma sendRejected_inv:
  assumes "muxInv m" and "r < mxNext m"
  obtains m' where "sendRejected r e aborted m = Some m'" and "muxInv m'"
    and "if mxSettled m r then m' = m else withdrawn r (if aborted then abortError else e) m m'"
proof (cases "mxSettled m r")
  case True
  with that [of m] assms sendRejected_settled show ?thesis by (simp add: muxInv_def)
next
  case False
  then have r: "r \<in> unsettled m" using assms(2) by (simp add: unsettled_def)
  have inv: "outcomeInv m" "heapInv m" "timerInv m" "correlationInv m" "queueInv m"
    using assms(1) by (simp_all add: muxInv_def)
  obtain m' where m': "sendRejected r e aborted m = Some m'"
    "withdrawn r (if aborted then abortError else e) m m'" "queueInv m'"
    by (rule sendRejected_unsettled [OF inv(1,5) r])
  then have "muxInv m'"
    using withdrawn_parts(1-3) [OF m'(2)] withdrawn_correlation [OF m'(2) inv(4) r] inv
    by (simp add: muxInv_def)
  with that m' False show ?thesis by simp
qed

section \<open>Disconnecting\<close>

lemma rejectRequest_eq:
  assumes "outcomeInv m" and "heapOk (mxHeap m)" and "r < mxNext m"
  shows "rejectRequest r e False m = sendRejected r e False m"
proof (cases "mxSettled m r")
  case True
  then show ?thesis using sendRejected_settled [OF assms(1,3)] by (simp add: rejectRequest_def finalize_def)
next
  case False
  let ?f = "clearDeadline r (dropTimeout r (m\<lparr>mxSettled := (mxSettled m)(r := True)\<rparr>))"
  have "dropTimeout r ?f = ?f"
    by (simp add: dropTimeout_def clearDeadline_def remove_twice [OF assms(2)])
  with False show ?thesis by (simp add: rejectRequest_def sendRejected_def finalize_def)
qed

text \<open>What holds while the requests are rejected: the correlation map is already empty.\<close>

definition closingInv :: "mux \<Rightarrow> bool" where
  "closingInv m \<longleftrightarrow> outcomeInv m \<and> heapInv m \<and> queueInv m \<and> mxByCorrelation m = []"

definition allRejected :: "nat set \<Rightarrow> mux \<Rightarrow> mux \<Rightarrow> bool" where
  "allRejected X m m' \<longleftrightarrow> mxNext m' = mxNext m \<and> mxNextCorrelation m' = mxNextCorrelation m \<and>
     mxTimer m' = mxTimer m \<and> mxCorrelationEnabled m' = mxCorrelationEnabled m \<and>
     mxState m' = mxState m \<and> unsettled m' = unsettled m - X \<and>
     mxOutcome m' = (\<lambda>r. if r \<in> X \<inter> unsettled m then Some (Inl ConnectionError) else mxOutcome m r)"

lemma rejectAll_closing:
  "closingInv m \<Longrightarrow> set rs \<subseteq> {..< mxNext m} \<Longrightarrow>
    \<exists>m'. rejectAll rs m = Some m' \<and> closingInv m' \<and> allRejected (set rs) m m'"
proof (induction rs arbitrary: m)
  case Nil
  then show ?case by (simp add: allRejected_def)
next
  case (Cons r rs)
  have inv: "outcomeInv m" "heapInv m" "queueInv m" "mxByCorrelation m = []" and r: "r < mxNext m"
    using Cons.prems by (simp_all add: closingInv_def)
  have eq: "rejectRequest r ConnectionError False m = sendRejected r ConnectionError False m"
    using inv r by (intro rejectRequest_eq) (simp_all add: heapInv_def)
  show ?case
  proof (cases "mxSettled m r")
    case True
    then have "rejectRequest r ConnectionError False m = Some m"
      unfolding eq by (rule sendRejected_settled [OF inv(1) r])
    moreover have "r \<notin> unsettled m" using True by (simp add: unsettled_def)
    ultimately show ?thesis using Cons by (auto simp: allRejected_def)
  next
    case False
    then have open_r: "r \<in> unsettled m" using r by (simp add: unsettled_def)
    obtain m1 where m1: "sendRejected r ConnectionError False m = Some m1"
      "withdrawn r (if False then abortError else ConnectionError) m m1" "queueInv m1"
      by (rule sendRejected_unsettled [OF inv(1,3) open_r])
    then have w: "withdrawn r ConnectionError m m1" by simp
    have n: "mxNext m1 = mxNext m" "mxNextCorrelation m1 = mxNextCorrelation m"
      "mxOutcome m1 = (mxOutcome m)(r := Some (Inl ConnectionError))" "mxByCorrelation m1 = []"
      "mxTimer m1 = mxTimer m" "mxCorrelationEnabled m1 = mxCorrelationEnabled m"
      "mxState m1 = mxState m"
      using w inv(4) by (auto simp: withdrawn_def split: option.splits)
    note u = withdrawn_parts(4) [OF w]
    have "closingInv m1"
      using withdrawn_parts(1,2) [OF w] inv m1(3) n by (simp add: closingInv_def)
    moreover have "set rs \<subseteq> {..< mxNext m1}" using Cons.prems(2) n by simp
    ultimately obtain m' where m': "rejectAll rs m1 = Some m'" "closingInv m'"
        "allRejected (set rs) m1 m'"
      using Cons.IH by blast
    have "allRejected (set (r # rs)) m m'"
      using m'(3) open_r by (auto simp: allRejected_def n u fun_eq_iff)
    with m' m1(1) eq show ?thesis by simp
  qed
qed

lemma queued_iff:
  assumes "queueFor m t q rs"
  shows "set (queuedRequests q) = set rs"
proof -
  have h: "holds q (mxSlots m) rs" using assms by (simp add: queueFor_def)
  then have at: "pqQueue q ! slotOf q i = Some (rs ! i)" "slotOf q i < length (pqQueue q)"
    if "i < length rs" for i
    using that slotOf_less by (simp_all add: holds_def)
  have hole: "pqQueue q ! j = None" if "j < length (pqQueue q)" "\<forall>i < length rs. slotOf q i \<noteq> j" for j
    using h that by (simp add: holds_def)
  have "r \<in> set (queuedRequests q) \<longleftrightarrow> Some r \<in> set (pqQueue q)" for r
    by (force simp: queuedRequests_def split: option.splits)
  moreover have "Some r \<in> set (pqQueue q) \<longleftrightarrow> r \<in> set rs" for r
  proof
    assume "Some r \<in> set (pqQueue q)"
    then obtain j where j: "j < length (pqQueue q)" "pqQueue q ! j = Some r"
      by (auto simp: in_set_conv_nth)
    with hole obtain i where "i < length rs" "slotOf q i = j" by fastforce
    with at j show "r \<in> set rs" by auto
  next
    assume "r \<in> set rs"
    then obtain i where "i < length rs" "rs ! i = r" by (auto simp: in_set_conv_nth)
    with at [of i] show "Some r \<in> set (pqQueue q)" by (metis nth_mem)
  qed
  ultimately show ?thesis by blast
qed

lemma cancel_covers:
  assumes "muxInv m"
  shows "unsettled m \<subseteq> set (requestsToCancel m)" and "set (requestsToCancel m) \<subseteq> {..< mxNext m}"
proof -
  have inv: "correlationInv m" "queueInv m" using assms by (simp_all add: muxInv_def)
  have set: "set (requestsToCancel m) =
      snd ` set (mxByCorrelation m) \<union> (\<Union>(t, q) \<in> set (mxPending m). set (queuedRequests q))"
    by (auto simp: requestsToCancel_def)
  show "unsettled m \<subseteq> set (requestsToCancel m)"
  proof
    fix r assume r: "r \<in> unsettled m"
    show "r \<in> set (requestsToCancel m)"
    proof (cases "mxCorrelation m r")
      case None
      then obtain q rs where "(mxType m r, q) \<in> set (mxPending m)" "queueFor m (mxType m r) q rs"
          "r \<in> set rs"
        using inv(2) r unfolding queueInv_def by blast
      with queued_iff show ?thesis unfolding set by fast
    next
      case (Some c)
      then have "(c, r) \<in> set (mxByCorrelation m)" using inv(1) r by (simp add: correlationInv_def)
      then show ?thesis unfolding set by force
    qed
  qed
  have "r < mxNext m" if "(t, q) \<in> set (mxPending m)" "r \<in> set (queuedRequests q)" for t q r
  proof -
    obtain rs where rs: "queueFor m t q rs" using inv(2) \<open>(t, q) \<in> _\<close> by (auto simp: queueInv_def)
    with that(2) queued_iff have "r \<in> set rs" by fast
    with rs show ?thesis by (simp add: queueFor_def)
  qed
  then show "set (requestsToCancel m) \<subseteq> {..< mxNext m}"
    unfolding set using inv(1) by (auto simp: correlationInv_def)
qed

lemma setDisconnected_facts:
  assumes "muxInv m"
  obtains m' where "setDisconnected m = Some m'" and "muxInv m'" and "unsettled m' = {}"
    and "mxOutcome m' = (\<lambda>r. if r \<in> unsettled m then Some (Inl ConnectionError) else mxOutcome m r)"
    and "mxNext m' = mxNext m" and "mxInFlight m' = 0" and "mxByCorrelation m' = []"
    and "mxPending m' = []" and "mxTimer m' = None" and "mxCorrelationEnabled m'"
proof -
  let ?s = "m\<lparr>mxState := Disconnected, mxOptional := (\<lambda>_. 0), mxCorrelationEnabled := True,
       mxProtocolVersion := 0, mxCapabilities := 0, mxCapabilityIds := []\<rparr>"
  let ?c = "?s\<lparr>mxTimer := None, mxByCorrelation := []\<rparr>"
  have req: "requestsToCancel ?s = requestsToCancel m" by (simp add: requestsToCancel_def)
  have c: "closingInv ?c"
    using assms by (simp add: closingInv_def muxInv_def outcomeInv_def heapInv_def unsettled_def
        queueInv_def queueFor_def)
  have same: "unsettled ?c = unsettled m" by (simp add: unsettled_def)
  obtain m1 where m1: "rejectAll (requestsToCancel m) ?c = Some m1" "closingInv m1"
      "allRejected (set (requestsToCancel m)) ?c m1"
    using rejectAll_closing [OF c, of "requestsToCancel m"] cancel_covers(2) [OF assms] by auto
  let ?m = "m1\<lparr>mxHeap := (mxHeap m1)\<lparr>thEntries := []\<rparr>, mxPending := [], mxInFlight := 0\<rparr>"
  have u1: "unsettled m1 = {}"
    using m1(3) cancel_covers(1) [OF assms] by (auto simp: allRejected_def same)
  have f: "mxNext m1 = mxNext m" "mxNextCorrelation m1 = mxNextCorrelation m" "mxTimer m1 = None"
    "mxCorrelationEnabled m1"
    using m1(3) by (simp_all add: allRejected_def)
  have out: "mxOutcome m1 = (\<lambda>r. if r \<in> unsettled m then Some (Inl ConnectionError) else mxOutcome m r)"
    using m1(3) cancel_covers(1) [OF assms] by (auto simp: allRejected_def same fun_eq_iff)
  have inv1: "outcomeInv m1" "heapInv m1" "mxByCorrelation m1 = []"
    using m1(2) by (simp_all add: closingInv_def)
  have u: "unsettled ?m = {}" using u1 by (simp add: unsettled_def)
  have "thEntries (mxHeap m1) = []" using inv1(2) u1 by (simp add: heapInv_def members_def)
  then have heap: "(mxHeap m1)\<lparr>thEntries := []\<rparr> = mxHeap m1"
    by (cases "mxHeap m1") simp
  have "mxNextCorrelation m \<le> 0xffffffffffffffff"
    using assms by (simp add: muxInv_def correlationInv_def)
  then have "correlationInv ?m" "queueInv ?m" "timerInv ?m"
    using inv1(3) f u by (simp_all add: correlationInv_def queueInv_def timerInv_def)
  moreover have "outcomeInv ?m" "heapInv ?m"
    using inv1(1,2) outcomeInv_cong [of ?m m1] heapInv_cong [of ?m m1] by (simp_all add: heap)
  ultimately have "muxInv ?m" by (simp add: muxInv_def)
  moreover have "setDisconnected m = Some ?m"
    using m1(1) by (simp add: setDisconnected_def cancelAll_def req)
  ultimately show ?thesis using that [of ?m] u out f inv1(3) by simp
qed

end
