(* ===== verification/MuxMachine.thy ===== *)
theory MuxMachine
  imports MuxSteps
begin

text \<open>
  The multiplexer as a machine. Every call from outside (a request, a frame from the receive
  loop, a promise of \<^verbatim>\<open>send\<close>, an abort, the timer, the session's beginning and end, the handler
  registrations) is a step; the states reached from the initial one keep the invariant.
\<close>

section \<open>What a step may do\<close>

text \<open>A step only adds requests and never changes how a promise was settled.\<close>

definition keeps :: "mux \<Rightarrow> mux \<Rightarrow> bool" where
  "keeps m m' \<longleftrightarrow> muxInv m' \<and> mxNext m \<le> mxNext m' \<and>
     (\<forall>r < mxNext m. mxOutcome m r \<noteq> None \<longrightarrow> mxOutcome m' r = mxOutcome m r)"

text \<open>How far the in-flight counter is above the number of unsettled requests.\<close>

definition excess :: "mux \<Rightarrow> int" where
  "excess m = mxInFlight m - int (card (unsettled m))"

lemma keepsI:
  "muxInv m' \<Longrightarrow> mxNext m \<le> mxNext m' \<Longrightarrow>
    (\<And>r. r < mxNext m \<Longrightarrow> r \<notin> unsettled m \<Longrightarrow> mxOutcome m' r = mxOutcome m r) \<Longrightarrow>
    muxInv m \<Longrightarrow> keeps m m'"
  by (auto simp: keeps_def muxInv_def outcomeInv_def unsettled_def)

lemma excess_close: "r \<in> unsettled m \<Longrightarrow> unsettled m' = unsettled m - {r} \<Longrightarrow>
    mxInFlight m' = mxInFlight m - 1 \<Longrightarrow> excess m' = excess m"
proof -
  assume r: "r \<in> unsettled m" "unsettled m' = unsettled m - {r}" "mxInFlight m' = mxInFlight m - 1"
  then have "card (unsettled m) > 0" by (metis card_gt_0_iff empty_iff finite_unsettled)
  with r show ?thesis by (simp add: excess_def card_Diff_singleton of_nat_diff)
qed

lemma fail_step:
  assumes "muxInv m" and "r < mxNext m"
  shows "keeps m (failRequest r e m)" and "excess (failRequest r e m) = excess m"
proof -
  have out: "outcomeInv m" using assms(1) by (simp add: muxInv_def)
  note eq = failRequest_eq [OF out assms(2), of e]
  show "keeps m (failRequest r e m)"
    by (rule keepsI [OF failRequest_inv [OF assms]])
      (use assms eq in \<open>auto simp: unsettled_def\<close>)
  show "excess (failRequest r e m) = excess m"
  proof (cases "mxSettled m r")
    case False
    then have "r \<in> unsettled m" using assms(2) by (simp add: unsettled_def)
    then show ?thesis by (rule excess_close) (use False eq in simp_all)
  qed (simp add: eq)
qed

lemma timeouts_step:
  assumes "muxInv m"
  shows "keeps m (handleTimeouts now m)" and "excess (handleTimeouts now m) = excess m"
proof -
  note f = handleTimeouts_facts [OF assms, of now]
  have due: "dueBy now m \<subseteq> unsettled m" by (auto simp: dueBy_def)
  show "keeps m (handleTimeouts now m)"
    by (rule keepsI [OF f(1) _ _ assms]) (use due in \<open>auto simp: f(3,7)\<close>)
  have "card (dueBy now m) \<le> card (unsettled m)" "finite (dueBy now m)"
    using due card_mono [OF finite_unsettled due] finite_subset [OF due] by simp_all
  with due show "excess (handleTimeouts now m) = excess m"
    by (simp add: excess_def f(2,6) card_Diff_subset of_nat_diff)
qed

lemma register_counts:
  "mxNext (registerRequest t c d m) = mxNext m + 1"
  "mxInFlight (registerRequest t c d m) = mxInFlight m + 1"
  "mxOutcome (registerRequest t c d m) = (mxOutcome m)(mxNext m := None)"
  "mxSettled (registerRequest t c d m) = (mxSettled m)(mxNext m := False)"
  by (cases c; simp add: registerRequest_Some registerRequest_None split: prod.splits)+

lemma register_unsettled: "unsettled (registerRequest t c d m) = insert (mxNext m) (unsettled m)"
  by (auto simp: unsettled_def register_counts)

lemma register_excess: "excess (registerRequest t c d m) = excess m"
proof -
  have "mxNext m \<notin> unsettled m" by (simp add: unsettled_def)
  then show ?thesis by (simp add: excess_def register_unsettled register_counts)
qed

text \<open>Issuing either leaves the requests as they are or adds the next one.\<close>

lemma issueRequest_cases:
  obtains (none) m0 where "snd (issueRequest t f d now a m) = m0"
      "mxNext m0 = mxNext m" "mxOutcome m0 = mxOutcome m" "mxSettled m0 = mxSettled m"
      "mxInFlight m0 = mxInFlight m"
  | (some) m0 c where "snd (issueRequest t f d now a m) = registerRequest t c (now + d) m0"
      "mxNext m0 = mxNext m" "mxOutcome m0 = mxOutcome m" "mxSettled m0 = mxSettled m"
      "mxInFlight m0 = mxInFlight m"
proof (cases "a \<or> \<not> mxCorrelationEnabled m")
  case True
  then show ?thesis
    using none [of m] some [of None m] by (cases a) (simp_all add: issueRequest_def)
next
  case False
  obtain res m0 where a: "allocateCorrelationId m = (res, m0)" by (cases "allocateCorrelationId m")
  then have "mxNext m0 = mxNext m" "mxOutcome m0 = mxOutcome m" "mxSettled m0 = mxSettled m"
    "mxInFlight m0 = mxInFlight m"
    by (auto simp: allocateCorrelationId_def Let_def split: if_splits)
  note none = none [OF _ this] and some = some [OF _ this]
  show ?thesis
  proof (cases res)
    case (Inl err)
    then show ?thesis using False a by (intro none) (simp add: issueRequest_def)
  next
    case (Inr c)
    show ?thesis
    proof (cases "withCorrelation f (int c)")
      case (Inl err)
      then show ?thesis using False a \<open>res = Inr c\<close> by (intro none) (simp add: issueRequest_def)
    next
      case (Inr out)
      then show ?thesis
        using False a \<open>res = Inr c\<close> by (intro some [of "Some c"]) (simp add: issueRequest_def)
    qed
  qed
qed

lemma issue_step:
  assumes "muxInv m" and "mxCorrelationEnabled m \<or> laneFree m t"
  shows "keeps m (snd (issueRequest t f d now a m))"
    and "excess (snd (issueRequest t f d now a m)) = excess m"
proof -
  let ?m = "snd (issueRequest t f d now a m)"
  note inv = issueRequest_inv [OF assms, of f d now a]
  have "keeps m ?m \<and> excess ?m = excess m"
  proof (cases rule: issueRequest_cases [of t f d now a m])
    case (none m0)
    then show ?thesis
      using inv assms(1) by (auto simp: excess_def unsettled_def intro!: keepsI)
  next
    case (some m0 c)
    have "excess m0 = excess m" using some by (simp add: excess_def unsettled_def)
    then show ?thesis
      using inv assms(1) some(2-5) unfolding some(1)
      by (auto simp: register_excess register_counts intro!: keepsI)
  qed
  then show "keeps m ?m" "excess ?m = excess m" by simp_all
qed

lemma quiet_step:
  assumes "muxInv m" and "mxNext m' = mxNext m" "mxType m' = mxType m" "mxCorrelation m' = mxCorrelation m"
    "mxSlots m' = mxSlots m" "mxDiscard m' = mxDiscard m" "mxSettled m' = mxSettled m"
    "mxOutcome m' = mxOutcome m" "mxHeap m' = mxHeap m" "mxTimer m' = mxTimer m"
    "mxPending m' = mxPending m" "mxByCorrelation m' = mxByCorrelation m"
    "mxNextCorrelation m' = mxNextCorrelation m" "mxInFlight m' = mxInFlight m"
  shows "keeps m m'" and "excess m' = excess m"
  using assms muxInv_counters [OF assms(1-13)]
  by (auto simp: keeps_def excess_def unsettled_def)

lemma dispatchQueued_step:
  assumes "muxInv m"
  shows "\<exists>m'. dispatchQueued t pl m = Some (Inr (), m') \<and> keeps m m' \<and> excess m' = excess m"
proof (cases "isPushFrame t pl m")
  case True
  have "keeps m (notify t pl m)" "excess (notify t pl m) = excess m"
    using quiet_step [OF assms, of "notify t pl m"] by (simp_all add: notify_def)
  with True show ?thesis by (simp add: dispatchQueued_push)
next
  case no: False
  show ?thesis
  proof (cases "map_of (mxPending m) t")
    case None
    note f = dispatchUnmatched_facts [OF assms, of t pl]
    have "mxNext (dispatchUnmatched t pl m) = mxNext m"
      by (simp add: dispatchUnmatched_def notify_def ignoreResponse_def)
    then have "keeps m (dispatchUnmatched t pl m)" using f by (simp add: keeps_def)
    moreover have "excess (dispatchUnmatched t pl m) = excess m" by (simp add: excess_def f)
    ultimately show ?thesis using dispatchQueued_unmatched [OF no None] by blast
  next
    case (Some q)
    obtain r rs m' where d: "queueFor m t q (r # rs)" "dispatchQueued t pl m = Some (Inr (), m')"
      "muxInv m'" "unsettled m' = unsettled m - {r}"
      "mxOutcome m' = (if mxSettled m r then mxOutcome m else (mxOutcome m)(r := Some (Inr pl)))"
      "mxInFlight m' = (if mxSettled m r then mxInFlight m else mxInFlight m - 1)"
      "mxNext m' = mxNext m"
      by (rule dispatchQueued_taken [OF assms no Some])
    have r: "r < mxNext m" using d(1) by (simp add: queueFor_def)
    have "keeps m m'"
      by (rule keepsI [OF d(3) _ _ assms]) (use d r in \<open>auto simp: unsettled_def\<close>)
    moreover have "excess m' = excess m"
    proof (cases "mxSettled m r")
      case True
      then have "unsettled m' = unsettled m" using d(4) by (auto simp: unsettled_def)
      with True d(6) show ?thesis by (simp add: excess_def)
    next
      case False
      with r have "r \<in> unsettled m" by (simp add: unsettled_def)
      with d(4,6) False show ?thesis by (intro excess_close) simp_all
    qed
    ultimately show ?thesis using d(2) by blast
  qed
qed

lemma dispatchCorrelated_step:
  assumes "muxInv m"
  shows "keeps m (snd (dispatchCorrelated pl c final m)) \<and>
    excess (snd (dispatchCorrelated pl c final m)) = excess m"
proof (cases "map_of (mxByCorrelation m) c")
  case None
  then show ?thesis using assms by (simp add: dispatchCorrelated_unknown keeps_def)
next
  case (Some r)
  have corr: "correlationInv m" using assms by (simp add: muxInv_def)
  have n: "mxNext (snd (dispatchCorrelated pl c final m)) = mxNext m"
    by (auto simp: dispatchCorrelated_def ignoreResponse_def completeRequest_def finalize_def
        settle_def recordRequestFinished_def clearDeadline_def dropTimeout_def Let_def
        split: option.splits)
  consider "mxSettled m r" | "\<not> mxSettled m r" "\<not> final" | "\<not> mxSettled m r" "final" by blast
  then show ?thesis
  proof cases
    case 1
    note t = dispatchCorrelated_tombstone [OF assms Some 1, of pl final]
    show ?thesis using t n by (simp add: keeps_def excess_def)
  next
    case 2
    then show ?thesis
      using dispatchCorrelated_partial [OF corr Some] assms by (simp add: keeps_def)
  next
    case 3
    note l = dispatchCorrelated_live [OF assms Some 3(1)]
    have "keeps m (snd (dispatchCorrelated pl c True m))"
      by (rule keepsI [OF l(1) _ _ assms]) (use l(2,5) n 3(2) in auto)
    moreover have "excess (snd (dispatchCorrelated pl c True m)) = excess m"
      by (rule excess_close [OF l(5,4,6)])
    ultimately show ?thesis using 3(2) by simp
  qed
qed

lemma dispatch_step:
  assumes "muxInv m"
  shows "\<exists>v m'. dispatch t pl corr final m = Some (v, m') \<and> keeps m m' \<and> excess m' = excess m"
  using dispatchQueued_step [OF assms, of t pl] dispatchCorrelated_step [OF assms, of pl _ final]
  by (cases corr) (auto simp: dispatch_def intro: prod.collapse [symmetric])

lemma sendRejected_step:
  assumes "muxInv m" and "r < mxNext m" and "sendRejected r e a m = Some m'"
  shows "keeps m m'" and "excess m' =
    (if r \<in> unsettled m \<and> mxCorrelation m r \<noteq> None then excess m + 1 else excess m)"
proof -
  obtain m1 where m1: "sendRejected r e a m = Some m1" "muxInv m1"
    "if mxSettled m r then m1 = m else withdrawn r (if a then abortError else e) m m1"
    by (rule sendRejected_inv [OF assms(1,2)])
  have m': "muxInv m'" "if mxSettled m r then m' = m else withdrawn r (if a then abortError else e) m m'"
    using m1 assms(3) by simp_all
  have "keeps m m' \<and> excess m' =
    (if r \<in> unsettled m \<and> mxCorrelation m r \<noteq> None then excess m + 1 else excess m)"
  proof (cases "mxSettled m r")
    case True
    then show ?thesis using m' assms(1) by (simp add: keeps_def unsettled_def)
  next
    case False
    then have w: "withdrawn r (if a then abortError else e) m m'" and r: "r \<in> unsettled m"
      using m' assms(2) by (simp_all add: unsettled_def)
    have "keeps m m'"
      by (rule keepsI [OF m'(1) _ _ assms(1)]) (use w r in \<open>auto simp: withdrawn_def\<close>)
    moreover have "excess (m'\<lparr>mxInFlight := mxInFlight m - 1\<rparr>) = excess m"
      using withdrawn_parts(4) [OF w] by (intro excess_close [OF r]) (simp_all add: unsettled_def)
    then have "excess m' = mxInFlight m' - mxInFlight m + 1 + excess m"
      by (simp add: excess_def unsettled_def)
    ultimately show ?thesis using w r by (auto simp: withdrawn_def)
  qed
  then show "keeps m m'" "excess m' =
    (if r \<in> unsettled m \<and> mxCorrelation m r \<noteq> None then excess m + 1 else excess m)"
    by simp_all
qed

lemma disconnect_step:
  assumes "muxInv m"
  shows "\<exists>m'. setDisconnected m = Some m' \<and> keeps m m' \<and> excess m' = 0"
proof -
  obtain m' where m': "setDisconnected m = Some m'" "muxInv m'" "unsettled m' = {}"
    "mxOutcome m' = (\<lambda>r. if r \<in> unsettled m then Some (Inl ConnectionError) else mxOutcome m r)"
    "mxNext m' = mxNext m" "mxInFlight m' = 0"
    by (rule setDisconnected_facts [OF assms])
  have "keeps m m'" by (rule keepsI [OF m'(2) _ _ assms]) (simp_all add: m')
  with m' show ?thesis by (simp add: excess_def)
qed

lemma connect_step:
  assumes "muxInv m" and "mxByCorrelation m = []"
  shows "keeps m (setConnected m)" and "excess (setConnected m) = excess m"
proof -
  have same: "unsettled (setConnected m) = unsettled m" by (simp add: unsettled_def setConnected_def)
  have "muxInv (setConnected m)"
    using assms by (simp add: muxInv_def setConnected_def outcomeInv_def heapInv_def timerInv_def
        unsettled_def correlationInv_def queueInv_def queueFor_def)
  then show "keeps m (setConnected m)" by (simp add: keeps_def setConnected_def)
  show "excess (setConnected m) = excess m" using same by (simp add: excess_def setConnected_def)
qed

section \<open>Steps\<close>

datatype muxEvent =
    Issue nat bytes int int bool
  | SendThrew nat jserror
  | SendResolved nat
  | SendRejected nat jserror bool
  | Aborted nat
  | TimerFired int
  | Received nat bytes "nat option" bool
  | SessionStarted
  | SessionEnded
  | CapabilitiesAgreed nat nat "nat list"
  | HandlerAdded nat
  | HandlerRemoved nat
  | ClassifierAdded nat nat "bytes \<Rightarrow> bool"
  | ClassifierRemoved nat nat
  | OptionalExpected nat
  | OptionalReleased nat

text \<open>
  Without correlation the client serialises the requests of a type, so its lane is free when one
  is issued. \<^verbatim>\<open>send\<close> throws, if it does, before anything else can settle the request. A session
  starts with no correlation identifier in use: the one before it ended.
\<close>

inductive muxStep :: "mux \<Rightarrow> muxEvent \<Rightarrow> mux \<Rightarrow> bool" where
  issue: "mxCorrelationEnabled m \<or> laneFree m t \<Longrightarrow>
    muxStep m (Issue t f d now a) (snd (issueRequest t f d now a m))"
| threw: "r \<in> unsettled m \<Longrightarrow> muxStep m (SendThrew r e) (sendThrew r e m)"
| resolved: "r < mxNext m \<Longrightarrow> muxStep m (SendResolved r) (sendResolved r m)"
| rejected: "r < mxNext m \<Longrightarrow> sendRejected r e a m = Some m' \<Longrightarrow> muxStep m (SendRejected r e a) m'"
| aborted: "r < mxNext m \<Longrightarrow> muxStep m (Aborted r) (abortRequest r m)"
| timer: "muxStep m (TimerFired now) (handleTimeouts now m)"
| received: "dispatch t pl c final m = Some (v, m') \<Longrightarrow> muxStep m (Received t pl c final) m'"
| started: "mxByCorrelation m = [] \<Longrightarrow> muxStep m SessionStarted (setConnected m)"
| ended: "setDisconnected m = Some m' \<Longrightarrow> muxStep m SessionEnded m'"
| agreed: "muxStep m (CapabilitiesAgreed v c ids) (setCapabilities v c ids m)"
| handlerAdded: "muxStep m (HandlerAdded t) (registerNotificationHandler t m)"
| handlerRemoved: "muxStep m (HandlerRemoved t) (unregisterNotificationHandler t m)"
| classifierAdded: "muxStep m (ClassifierAdded t k f) (registerPushFrameClassifier t k f m)"
| classifierRemoved: "muxStep m (ClassifierRemoved t k) (unregisterPushFrameClassifier t k m)"
| expected: "muxStep m (OptionalExpected t) (expectOptionalResponse t m)"
| released: "muxStep m (OptionalReleased t) (releaseOptionalResponse t m)"

inductive muxRun :: "mux \<Rightarrow> muxEvent list \<Rightarrow> mux \<Rightarrow> bool" where
  none: "muxRun m [] m"
| more: "muxRun m es m1 \<Longrightarrow> muxStep m1 e m2 \<Longrightarrow> muxRun m (es @ [e]) m2"

definition muxReachable :: "mux \<Rightarrow> bool" where
  "muxReachable m \<longleftrightarrow> (\<exists>es. muxRun createMultiplexer es m)"

inductive_cases muxStep_rejectedE: "muxStep m (SendRejected r e a) m'"
inductive_cases muxStep_endedE: "muxStep m SessionEnded m'"
inductive_simps muxStep_timer: "muxStep m (TimerFired now) m'"

text \<open>The steps that settle a request without taking it off the in-flight counter.\<close>

fun leaks :: "mux \<Rightarrow> muxEvent \<Rightarrow> bool" where
  "leaks m (SendRejected r e a) \<longleftrightarrow> r \<in> unsettled m \<and> mxCorrelation m r \<noteq> None"
| "leaks m _ \<longleftrightarrow> False"

lemma settings_step:
  assumes "muxInv m"
  shows "keeps m (setCapabilities v c ids m)" "excess (setCapabilities v c ids m) = excess m"
    "keeps m (registerNotificationHandler t m)" "excess (registerNotificationHandler t m) = excess m"
    "keeps m (unregisterNotificationHandler t m)" "excess (unregisterNotificationHandler t m) = excess m"
    "keeps m (registerPushFrameClassifier t k f m)" "excess (registerPushFrameClassifier t k f m) = excess m"
    "keeps m (unregisterPushFrameClassifier t k m)" "excess (unregisterPushFrameClassifier t k m) = excess m"
    "keeps m (expectOptionalResponse t m)" "excess (expectOptionalResponse t m) = excess m"
    "keeps m (releaseOptionalResponse t m)" "excess (releaseOptionalResponse t m) = excess m"
  by (rule quiet_step [OF assms]; simp add: setCapabilities_def registerNotificationHandler_def
      unregisterNotificationHandler_def registerPushFrameClassifier_def
      unregisterPushFrameClassifier_def expectOptionalResponse_def releaseOptionalResponse_def Let_def)+

lemma muxStep_facts:
  assumes "muxStep m e m'" and "muxInv m"
  shows "keeps m m' \<and> (excess m' = excess m + (if leaks m e then 1 else 0) \<or> excess m' = 0)"
  using assms
proof (induction rule: muxStep.induct)
  case (issue m t f d now a)
  then show ?case using issue_step by simp
next
  case (rejected r m e a m')
  then show ?case using sendRejected_step [OF rejected.prems rejected.hyps] by auto
next
  case (received t pl c final m v m')
  then show ?case using dispatch_step [OF received.prems, of t pl c final] by auto
next
  case (ended m m')
  then show ?case using disconnect_step [OF ended.prems] by auto
next
  case (resolved r m)
  then show ?case using fail_step by (auto simp: sendResolved_def keeps_def)
next
  case (threw r m e)
  then show ?case using fail_step by (simp add: sendThrew_def unsettled_def)
qed (simp_all add: fail_step timeouts_step connect_step settings_step abortRequest_def)

lemma muxRun_facts:
  "muxRun m es m' \<Longrightarrow> muxInv m \<Longrightarrow> 0 \<le> excess m \<Longrightarrow>
    keeps m m' \<and> 0 \<le> excess m' \<and>
    (excess m = 0 \<longrightarrow> (\<forall>r e a. SendRejected r e a \<notin> set es) \<longrightarrow> excess m' = 0)"
proof (induction rule: muxRun.induct)
  case (none m)
  then show ?case by (simp add: keeps_def)
next
  case (more m es m1 e m2)
  have run: "keeps m m1" "0 \<le> excess m1"
    "excess m = 0 \<Longrightarrow> (\<forall>r e a. SendRejected r e a \<notin> set es) \<Longrightarrow> excess m1 = 0"
    using more by auto
  have step: "keeps m1 m2" "excess m2 = excess m1 + (if leaks m1 e then 1 else 0) \<or> excess m2 = 0"
    using muxStep_facts [OF more.hyps(2)] run(1) by (simp_all add: keeps_def)
  have "leaks m1 e \<Longrightarrow> \<exists>r x a. e = SendRejected r x a" by (cases e) simp_all
  moreover have "keeps m m2" using run(1) step(1) by (fastforce simp: keeps_def)
  ultimately show ?case using run(2,3) step(2) by (auto split: if_splits)
qed

lemma excess_create: "excess createMultiplexer = 0"
  by (simp add: excess_def unsettled_def createMultiplexer_def)

lemma muxReachable_inv: "muxReachable m \<Longrightarrow> muxInv m"
  using muxRun_facts muxInv_create excess_create by (fastforce simp: muxReachable_def keeps_def)

lemma muxReachable_step: "muxReachable m \<Longrightarrow> muxStep m e m' \<Longrightarrow> muxReachable m'"
  using muxRun.more by (fastforce simp: muxReachable_def)

lemma reachable_create: "muxReachable createMultiplexer"
  using muxRun.none by (auto simp: muxReachable_def)

end
