(* ===== verification/MuxProperties.thy ===== *)
theory MuxProperties
  imports MuxMachine
begin

text \<open>
  What the multiplexer promises its callers in every state it can reach: which request a response
  settles and how, that a promise settles once, and what timeouts and the end of a session do.
\<close>

section \<open>Sessions for the examples\<close>

text \<open>One correlated request in flight, and one without correlation.\<close>

definition oneRequest :: mux where
  "oneRequest = snd (issueRequest 500 (frameBytes 500 0 0 [7]) 100 0 False createMultiplexer)"

definition plainSession :: mux where
  "plainSession = setCapabilities 1 0 [] createMultiplexer"

definition onePlainRequest :: mux where
  "onePlainRequest = snd (issueRequest 500 (frameBytes 500 0 0 [7]) 100 0 False plainSession)"

lemma laneFree_create: "laneFree createMultiplexer t" "laneFree plainSession t"
  by (simp_all add: laneFree_def unsettled_def createMultiplexer_def plainSession_def setCapabilities_def)

lemma reachable_one: "muxReachable oneRequest"
  unfolding oneRequest_def
  by (rule muxReachable_step [OF reachable_create issue]) (simp add: laneFree_create)

lemma reachable_plain: "muxReachable onePlainRequest"
proof -
  have "muxReachable plainSession"
    unfolding plainSession_def by (rule muxReachable_step [OF reachable_create agreed])
  then show ?thesis
    unfolding onePlainRequest_def by (rule muxReachable_step [OF _ issue]) (simp add: laneFree_create)
qed

lemma oneRequest_eq: "oneRequest =
    registerRequest 500 (Some 1) 100 (createMultiplexer\<lparr>mxNextCorrelation := 2\<rparr>)"
  using withCorrelation_frameBytes [of 1 500 0 0 "[7]"]
  by (simp add: oneRequest_def issueRequest_def allocateCorrelationId_def createMultiplexer_def MAX_U64_def
      numeral_2_eq_2)

lemma onePlainRequest_eq: "onePlainRequest = registerRequest 500 None 100 plainSession"
  by (simp add: onePlainRequest_def issueRequest_def plainSession_def setCapabilities_def)

lemma create_facts: "mxNext createMultiplexer = 0" "unsettled createMultiplexer = {}"
  "mxPending createMultiplexer = []" "mxHeap createMultiplexer = emptyHeap" "mxHandlers createMultiplexer = {}"
  by (simp_all add: createMultiplexer_def unsettled_def)

lemma oneRequest_facts: "unsettled oneRequest = {0}" "mxCorrelation oneRequest 0 = Some 1"
  "mxNext oneRequest = 1" "thDeadline (mxHeap oneRequest) 0 = 100"
proof -
  show "unsettled oneRequest = {0}" "mxNext oneRequest = 1"
    by (auto simp: oneRequest_eq register_unsettled register_counts create_facts unsettled_def)
  show "mxCorrelation oneRequest 0 = Some 1"
    by (simp add: oneRequest_eq registerRequest_Some create_facts)
  show "thDeadline (mxHeap oneRequest) 0 = 100"
    using push_facts(3) [OF heapOk_empty, of 0 100]
    by (simp add: oneRequest_eq registerRequest_Some create_facts members_empty)
qed

definition twoRequests :: mux where
  "twoRequests = snd (issueRequest 501 (frameBytes 501 0 0 [8]) 100 0 False oneRequest)"

lemma twoRequests_eq: "twoRequests =
    registerRequest 501 (Some 2) 100 (oneRequest\<lparr>mxNextCorrelation := 3\<rparr>)"
proof -
  have "mxNextCorrelation oneRequest = 2" "mxCorrelationEnabled oneRequest"
    by (simp_all add: oneRequest_eq registerRequest_Some created_def scheduleTimeout_eq Let_def
        createMultiplexer_def)
  moreover have "withCorrelation (frameBytes 501 0 0 [8]) 2 = Inr (frameBytes 501 0 2 [8])"
    by (rule withCorrelation_frameBytes) (simp_all add: MAX_U64_def)
  ultimately show ?thesis by (simp add: twoRequests_def issueRequest_def allocateCorrelationId_def)
qed

lemma reachable_two: "muxReachable twoRequests"
  unfolding twoRequests_def
  by (rule muxReachable_step [OF reachable_one issue])
    (simp add: oneRequest_eq registerRequest_Some created_def scheduleTimeout_eq Let_def
      createMultiplexer_def)

lemma twoRequests_facts: "unsettled twoRequests = {1, 0}" "mxCorrelation twoRequests 0 = Some 1"
proof -
  have "unsettled (oneRequest\<lparr>mxNextCorrelation := 3\<rparr>) = {0}"
    using oneRequest_facts(1) by (simp add: unsettled_def)
  then show "unsettled twoRequests = {1, 0}"
    by (simp add: twoRequests_eq register_unsettled oneRequest_facts)
  show "mxCorrelation twoRequests 0 = Some 1"
    by (simp add: twoRequests_eq registerRequest_Some oneRequest_facts)
qed

lemma onePlain_facts: "unsettled onePlainRequest = {0}" "mxCorrelation onePlainRequest 0 = None"
  "mxType onePlainRequest 0 = 500" "mxHandlers onePlainRequest = {}" "mxNext onePlainRequest = 1"
  by (auto simp: onePlainRequest_eq register_unsettled register_counts create_facts plainSession_def
      setCapabilities_def registerRequest_None unsettled_def created_def scheduleTimeout_eq Let_def
      createMultiplexer_def split: prod.splits)

section \<open>Properties\<close>

text \<open>
  C1: every state the multiplexer can reach satisfies the invariant: a request is unsettled exactly
  while its promise is open and its entry is in the timeout heap, it can be found by its response,
  and the timer is armed no later than its deadline.
\<close>

theorem reachable_states_sound: "muxReachable m \<Longrightarrow> muxInv m"
  by (rule muxReachable_inv)

lemma reachable_states_sound_witness: "muxInv oneRequest"
  by (rule reachable_states_sound [OF reachable_one])

text \<open>
  C2: a final response that carries the correlation identifier of an unsettled request resolves
  that request with the payload it carries, and settles no other.
\<close>

theorem response_settles_request:
  assumes "muxReachable m" and r: "r \<in> unsettled m" and c: "mxCorrelation m r = Some c"
  shows "\<exists>m'. dispatch t pl (Some c) True m = Some (Inr (), m') \<and> muxReachable m' \<and>
    mxOutcome m' = (mxOutcome m)(r := Some (Inr pl)) \<and> unsettled m' = unsettled m - {r}"
proof -
  have inv: "muxInv m" using assms(1) by (rule muxReachable_inv)
  then have "(c, r) \<in> set (mxByCorrelation m)" "distinct (map fst (mxByCorrelation m))"
    using r c by (simp_all add: muxInv_def correlationInv_def)
  then have "map_of (mxByCorrelation m) c = Some r" by simp
  moreover have "\<not> mxSettled m r" using r by (simp add: unsettled_def)
  ultimately have l: "fst (dispatchCorrelated pl c True m) = Inr ()"
    "mxOutcome (snd (dispatchCorrelated pl c True m)) = (mxOutcome m)(r := Some (Inr pl))"
    "unsettled (snd (dispatchCorrelated pl c True m)) = unsettled m - {r}"
    using dispatchCorrelated_live [OF inv] by blast+
  let ?m = "snd (dispatchCorrelated pl c True m)"
  have d: "dispatch t pl (Some c) True m = Some (Inr (), ?m)"
    using l(1) by (simp add: dispatch_def prod_eq_iff)
  with muxReachable_step [OF assms(1) received [OF d]] l show ?thesis by blast
qed

lemma response_settles_request_witness:
  "\<exists>m'. dispatch 500 [1, 2] (Some 1) True oneRequest = Some (Inr (), m') \<and> muxReachable m' \<and>
    mxOutcome m' = (mxOutcome oneRequest)(0 := Some (Inr [1, 2])) \<and> unsettled m' = {0} - {0}"
  using response_settles_request [OF reachable_one, of 0 1 500 "[1, 2]"] by (simp add: oneRequest_facts)

text \<open>
  C3: a promise settles once, and its request is finished once. In every run from a state in which a request is settled its outcome stays
  what it was; a later abort, timeout, failed send or rejection of it changes nothing, whichever of
  them comes and however often, so it is not taken off the in-flight counter again; and the
  counter never falls below the number of requests that are still open.
\<close>

theorem promise_settles_once:
  assumes "muxReachable m" and "muxRun m es m'" and "r < mxNext m" and "mxOutcome m r = Some v"
  shows "mxOutcome m' r = Some v \<and> r \<notin> unsettled m' \<and>
    finalize r m' = (False, m') \<and> failRequest r e m' = m' \<and> abortRequest r m' = m' \<and>
    rejectRequest r e retain m' = Some m' \<and> sendRejected r e aborted m' = Some m' \<and>
    int (card (unsettled m')) \<le> getInFlightCount m'"
proof -
  have start: "muxInv m" "0 \<le> excess m"
    using assms(1) muxRun_facts [OF _ muxInv_create] excess_create
    by (auto simp: muxReachable_def keeps_def)
  then have run: "keeps m m'" "0 \<le> excess m'" using muxRun_facts [OF assms(2)] by blast+
  then have out: "mxOutcome m' r = Some v" "outcomeInv m'" "r < mxNext m'"
    using assms(3,4) by (simp_all add: keeps_def muxInv_def)
  then have settled: "mxSettled m' r" by (metis outcomeInv_def option.distinct(1))
  then show ?thesis
    using out run(2)
    by (simp add: unsettled_def finalize_def failRequest_def abortRequest_def rejectRequest_def rejectRetained_def sendRejected_def
        settle_def excess_def getInFlightCount_def)
qed

lemma promise_settles_once_witness:
  "let m = handleTimeouts 500 (abortRequest 0 oneRequest) in
    mxOutcome m 0 = Some (Inl abortError) \<and> failRequest 0 TimeoutError m = m \<and> int (card (unsettled m)) \<le> getInFlightCount m"
proof -
  have "0 < mxNext oneRequest" by (simp add: oneRequest_facts)
  then have r: "muxReachable (abortRequest 0 oneRequest)" by (rule muxReachable_step [OF reachable_one aborted])
  have run: "muxRun (abortRequest 0 oneRequest) ([] @ [TimerFired 500])
      (handleTimeouts 500 (abortRequest 0 oneRequest))"
    by (rule muxRun.more [OF muxRun.none timer])
  have out: "outcomeInv oneRequest" using muxReachable_inv [OF reachable_one] by (simp add: muxInv_def)
  have "\<not> mxSettled oneRequest 0" using oneRequest_facts(1) by (auto simp: unsettled_def)
  with failRequest_eq [OF out] have f: "0 < mxNext (abortRequest 0 oneRequest)"
    "mxOutcome (abortRequest 0 oneRequest) 0 = Some (Inl abortError)"
    by (simp_all add: abortRequest_def oneRequest_facts)
  show ?thesis using promise_settles_once [OF r run f] by (simp add: Let_def)
qed

text \<open>
  C4: when the session ends, every unsettled request is rejected with a connection error, the
  settled ones keep their outcome, and no table, timer or counter remembers any of them.
\<close>

theorem disconnect_rejects_pending:
  assumes "muxReachable m"
  shows "\<exists>m'. setDisconnected m = Some m' \<and> muxReachable m' \<and> unsettled m' = {} \<and>
    mxOutcome m' = (\<lambda>r. if r \<in> unsettled m then Some (Inl ConnectionError) else mxOutcome m r) \<and>
    getInFlightCount m' = 0 \<and> mxByCorrelation m' = [] \<and> mxPending m' = [] \<and> mxTimer m' = None"
proof -
  obtain m' where m': "setDisconnected m = Some m'" "muxInv m'" "unsettled m' = {}"
    "mxOutcome m' = (\<lambda>r. if r \<in> unsettled m then Some (Inl ConnectionError) else mxOutcome m r)"
    "mxNext m' = mxNext m" "mxInFlight m' = 0" "mxByCorrelation m' = []" "mxPending m' = []"
    "mxTimer m' = None" "mxCorrelationEnabled m'"
    by (rule setDisconnected_facts [OF muxReachable_inv [OF assms]])
  with muxReachable_step [OF assms ended [OF m'(1)]] show ?thesis by (simp add: getInFlightCount_def)
qed

lemma disconnect_rejects_pending_witness:
  "\<exists>m'. setDisconnected oneRequest = Some m' \<and> mxOutcome m' 0 = Some (Inl ConnectionError)"
  using disconnect_rejects_pending [OF reachable_one] by (auto simp: oneRequest_facts)

text \<open>
  C5: the timer rejects exactly the requests whose deadline has passed, with a timeout error, and is
  armed again no later than the earliest deadline left.
\<close>

theorem timeouts_exact:
  assumes "muxReachable m"
  shows "mxOutcome (handleTimeouts now m) =
      (\<lambda>r. if r \<in> unsettled m \<and> thDeadline (mxHeap m) r \<le> now then Some (Inl TimeoutError)
           else mxOutcome m r) \<and>
    unsettled (handleTimeouts now m) = {r \<in> unsettled m. now < thDeadline (mxHeap m) r} \<and>
    (\<forall>r \<in> unsettled (handleTimeouts now m). \<exists>t. mxTimer (handleTimeouts now m) = Some t \<and>
       t \<le> thDeadline (mxHeap (handleTimeouts now m)) r)"
  using handleTimeouts_facts(1-3) [OF muxReachable_inv [OF assms], of now]
  by (auto simp: dueBy_def muxInv_def timerInv_def fun_eq_iff)

lemma timeouts_exact_witness:
  "mxOutcome (handleTimeouts 100 oneRequest) 0 = Some (Inl TimeoutError) \<and>
    mxOutcome (handleTimeouts 99 oneRequest) 0 = mxOutcome oneRequest 0"
  using timeouts_exact [OF reachable_one, of 100] timeouts_exact [OF reachable_one, of 99]
  by (simp add: oneRequest_facts)

text \<open>
  Two requests in flight never share a correlation identifier.
\<close>

theorem correlations_distinct:
  assumes "muxReachable m" and "p \<in> unsettled m" and "r \<in> unsettled m" and "p \<noteq> r"
    and "mxCorrelation m p = Some c"
  shows "mxCorrelation m r \<noteq> Some c"
proof
  assume "mxCorrelation m r = Some c"
  then have "(c, p) \<in> set (mxByCorrelation m)" "(c, r) \<in> set (mxByCorrelation m)"
    "distinct (map fst (mxByCorrelation m))"
    using muxReachable_inv [OF assms(1)] assms(2-) by (simp_all add: muxInv_def correlationInv_def)
  with assms(4) show False by (metis map_of_is_SomeI option.inject)
qed

lemma correlations_distinct_witness: "mxCorrelation twoRequests 1 \<noteq> Some 1"
  by (rule correlations_distinct [OF reachable_two, of 0]) (simp_all add: twoRequests_facts)

text \<open>
  A response without correlation goes to the oldest request its type's queue holds: the request
  is resolved, or the response is swallowed if the request had been given up.
\<close>

theorem queued_response_oldest:
  assumes "muxReachable m" and "\<not> isPushFrame t pl m" and "map_of (mxPending m) t = Some q"
    and "queueFor m t q (r # rs)"
  shows "\<exists>m'. dispatch t pl None final m = Some (Inr (), m') \<and> unsettled m' = unsettled m - {r} \<and>
    mxOutcome m' = (if r \<in> unsettled m then (mxOutcome m)(r := Some (Inr pl)) else mxOutcome m)"
proof -
  obtain r2 rs2 m' where d: "queueFor m t q (r2 # rs2)" "dispatchQueued t pl m = Some (Inr (), m')"
    "muxInv m'" "unsettled m' = unsettled m - {r2}"
    "mxOutcome m' = (if mxSettled m r2 then mxOutcome m else (mxOutcome m)(r2 := Some (Inr pl)))"
    "mxInFlight m' = (if mxSettled m r2 then mxInFlight m else mxInFlight m - 1)"
    "mxNext m' = mxNext m"
    by (rule dispatchQueued_taken [OF muxReachable_inv [OF assms(1)] assms(2,3)])
  have "holds q (mxSlots m) (r2 # rs2)" "holds q (mxSlots m) (r # rs)"
    using d(1) assms(4) by (simp_all add: queueFor_def)
  then have "pqQueue q ! slotOf q 0 = Some ((r2 # rs2) ! 0)" "pqQueue q ! slotOf q 0 = Some ((r # rs) ! 0)"
    unfolding holds_def by blast+
  then have "r2 = r" by simp
  moreover have "r < mxNext m" using assms(4) by (simp add: queueFor_def)
  ultimately show ?thesis using d(2,4,5) by (simp add: dispatch_def unsettled_def)
qed

lemma queued_response_oldest_witness:
  "\<exists>m'. dispatch 500 [9] None True onePlainRequest = Some (Inr (), m') \<and>
    mxOutcome m' 0 = Some (Inr [9]) \<and> unsettled m' = {}"
proof -
  have r: "0 \<in> unsettled onePlainRequest" by (simp add: onePlain_facts)
  have inv: "queueInv onePlainRequest" using muxReachable_inv [OF reachable_plain] by (simp add: muxInv_def)
  obtain q q' rs where q: "map_of (mxPending onePlainRequest) (mxType onePlainRequest 0) = Some q"
    "removeFromQueue q 0 (mxSlots onePlainRequest) = Some (Inr q')" "pqSize q' = length rs"
    "queueFor onePlainRequest (mxType onePlainRequest 0) q (rs @ [0])"
    "rs \<noteq> [] \<longrightarrow> holds q' (mxSlots onePlainRequest) rs"
    by (rule removed_newest [OF inv r onePlain_facts(2)])
  have "x < 1" if "x \<in> set (rs @ [0])" for x
    using q(4) that by (auto simp: queueFor_def onePlain_facts)
  moreover have "distinct (rs @ [0])" using q(4) by (simp add: queueFor_def holds_def)
  ultimately have "rs = []" by (cases rs) auto
  moreover have "\<not> isPushFrame 500 [9] onePlainRequest" by (simp add: isPushFrame_def onePlain_facts)
  ultimately show ?thesis
    using queued_response_oldest [OF reachable_plain, of 500 "[9]" q 0 "[]" True] q(1,4)
    by (auto simp: onePlain_facts)
qed

text \<open>
  The response to a request that was given up settles nothing and reaches no handler.
\<close>

theorem late_response_discarded:
  assumes "muxReachable m" and "mxSettled m r" and "map_of (mxByCorrelation m) c = Some r"
  shows "\<exists>m'. dispatch t pl (Some c) final m = Some (Inr (), m') \<and> mxOutcome m' = mxOutcome m \<and>
    unsettled m' = unsettled m \<and> mxNotified m' = mxNotified m"
proof -
  note inv = muxReachable_inv [OF assms(1)]
  note l = dispatchCorrelated_tombstone [OF inv assms(3,2), of pl final]
  have "mxNotified (snd (dispatchCorrelated pl c final m)) = mxNotified m"
    using correlation_unique(3) [OF _ assms(3)] inv assms(2,3)
    by (simp add: dispatchCorrelated_def muxInv_def ignoreResponse_def)
  with l show ?thesis
    by (intro exI [of _ "snd (dispatchCorrelated pl c final m)"])
      (simp add: dispatch_def prod_eq_iff)
qed

lemma late_response_discarded_witness:
  "\<exists>m'. dispatch 500 [1] (Some 1) True (abortRequest 0 oneRequest) = Some (Inr (), m') \<and>
    mxOutcome m' 0 = Some (Inl abortError)"
proof -
  let ?m = "abortRequest 0 oneRequest"
  have "0 < mxNext oneRequest" by (simp add: oneRequest_facts)
  then have "muxReachable ?m" by (rule muxReachable_step [OF reachable_one aborted])
  moreover have out: "outcomeInv oneRequest" using muxReachable_inv [OF reachable_one] by (simp add: muxInv_def)
  have "\<not> mxSettled oneRequest 0" using oneRequest_facts(1) by (auto simp: unsettled_def)
  with failRequest_eq [OF out] have m: "?m = tombstone 0 abortError oneRequest"
    by (simp add: abortRequest_def oneRequest_facts)
  have "map_of (mxByCorrelation ?m) 1 = Some 0"
    by (simp add: m) (simp add: oneRequest_eq registerRequest_Some createMultiplexer_def)
  ultimately show ?thesis
    using late_response_discarded [of ?m 0 1 500 "[1]" True] by (auto simp: m)
qed

text \<open>
  As long as no promise of \<^verbatim>\<open>send\<close> was rejected, the in-flight count is the number of unsettled
  requests, and \<^verbatim>\<open>hasPending\<close> tells whether there is one.
\<close>

theorem inflight_counts:
  assumes "muxRun createMultiplexer es m" and "\<forall>r e a. SendRejected r e a \<notin> set es"
  shows "getInFlightCount m = int (card (unsettled m)) \<and> (hasPending m \<longleftrightarrow> unsettled m \<noteq> {})"
proof -
  have "excess m = 0" using muxRun_facts [OF assms(1) muxInv_create] assms(2) excess_create by simp
  then have "mxInFlight m = int (card (unsettled m))" by (simp add: excess_def)
  moreover have "unsettled m \<noteq> {} \<longleftrightarrow> 0 < card (unsettled m)" by (simp add: card_gt_0_iff)
  ultimately show ?thesis by (simp add: getInFlightCount_def hasPending_def)
qed

lemma inflight_counts_witness: "getInFlightCount oneRequest = 1 \<and> hasPending oneRequest"
proof -
  have "muxRun createMultiplexer ([] @ [Issue 500 (frameBytes 500 0 0 [7]) 100 0 False]) oneRequest"
    unfolding oneRequest_def by (rule muxRun.more [OF muxRun.none issue]) (simp add: laneFree_create)
  from inflight_counts [OF this] show ?thesis by (simp add: oneRequest_facts)
qed

text \<open>
  When the promise of \<^verbatim>\<open>send\<close> is rejected, a correlated request is settled and forgotten but stays
  counted: the in-flight count exceeds the number of unsettled requests from then on.
\<close>

theorem failed_send_leaks:
  assumes "muxReachable m" and "r \<in> unsettled m" and "mxCorrelation m r \<noteq> None"
  shows "\<exists>m'. sendRejected r e a m = Some m' \<and> unsettled m' = unsettled m - {r} \<and>
    getInFlightCount m' = getInFlightCount m \<and> int (card (unsettled m')) < getInFlightCount m'"
proof -
  have r: "r < mxNext m" "\<not> mxSettled m r" using assms(2) by (simp_all add: unsettled_def)
  obtain m' where m': "sendRejected r e a m = Some m'" "muxInv m'"
    "if mxSettled m r then m' = m else withdrawn r (if a then abortError else e) m m'"
    by (rule sendRejected_inv [OF muxReachable_inv [OF assms(1)] r(1)])
  then have w: "withdrawn r (if a then abortError else e) m m'" using r by simp
  have "0 \<le> excess m"
    using assms(1) muxRun_facts [OF _ muxInv_create] excess_create by (auto simp: muxReachable_def)
  then have "1 \<le> excess m'"
    using sendRejected_step(2) [OF muxReachable_inv [OF assms(1)] r(1) m'(1)] assms(2,3) by simp
  then show ?thesis
    using m'(1) withdrawn_parts(4) [OF w] w assms(3)
    by (simp add: withdrawn_def getInFlightCount_def excess_def)
qed

lemma failed_send_leaks_witness:
  "\<exists>m'. sendRejected 0 TransportError False oneRequest = Some m' \<and> unsettled m' = {} \<and>
    0 < getInFlightCount m'"
  using failed_send_leaks [OF reachable_one, of 0 TransportError False] by (auto simp: oneRequest_facts)

end
