(* ===== verification/Response.thy ===== *)
theory Response
  imports Reader
begin

text \<open>
  The response envelope of \<^verbatim>\<open>src/protocol/response.ts\<close>: one status byte, then either the data of
  the operation or the broker's error (code, class, effect, message). Every domain codec
  reads its responses through it.
\<close>

section \<open>Parsing\<close>

record parsedResponse =
  prSuccess :: bool
  prData :: bytes
  prError :: "jsstr option"
  prErrorCode :: "nat option"
  prErrorClass :: "nat option"
  prEffect :: "nat option"

definition parseStandardResponse :: "bytes \<Rightarrow> parsedResponse result" where
  "parseStandardResponse pl =
    (if length pl = 0 then Inl (ProtocolError None)
     else (let reader = createBufferReader pl in
       andThen (readU8 reader) (\<lambda>(status, reader).
         if status = 0 then
           Inr \<lparr>prSuccess = True, prData = remaining reader, prError = None, prErrorCode = None,
                prErrorClass = None, prEffect = None\<rparr>
         else if status \<noteq> 1 then Inl (ProtocolError (Some status))
         else
           andThen (readU16BE reader) (\<lambda>(errorCode, reader).
           andThen (readU8 reader) (\<lambda>(errorClass, reader).
           andThen (readU8 reader) (\<lambda>(effect, reader).
           andThen (readString reader) (\<lambda>(err, reader).
             if errorClass > 10 then Inl (ProtocolError (Some errorCode))
             else if effect > 2 then Inl (ProtocolError (Some errorCode))
             else if \<not> isEOF reader then Inl (ProtocolError (Some errorCode))
             else Inr \<lparr>prSuccess = False, prData = newUint8Array 0, prError = Some err,
                       prErrorCode = Some errorCode, prErrorClass = Some errorClass,
                       prEffect = Some effect\<rparr>)))))))"

definition assertSuccess :: "bytes \<Rightarrow> bytes result" where
  "assertSuccess pl =
    andThen (parseStandardResponse pl) (\<lambda>res.
      if \<not> prSuccess res then Inl (ProtocolError (prErrorCode res)) else Inr (prData res))"

text \<open>
  What a domain codec returns for a parsed error: the object literals of the codecs differ in
  which of these members they keep.
\<close>

record refusal =
  rfStatus :: nat
  rfCode :: "nat option"
  rfMessage :: "jsstr option"
  rfClass :: "nat option"
  rfEffect :: "nat option"

datatype 'a reply = Refused refusal | Accepted 'a

text \<open>\<^verbatim>\<open>{ status: response.errorCode ?? 1, errorMessage, errorClass, effect }\<close>\<close>

definition codeRefusal :: "parsedResponse \<Rightarrow> refusal" where
  "codeRefusal res = \<lparr>rfStatus = (case prErrorCode res of Some c \<Rightarrow> c | None \<Rightarrow> 1), rfCode = None,
     rfMessage = prError res, rfClass = prErrorClass res, rfEffect = prEffect res\<rparr>"

text \<open>\<^verbatim>\<open>{ status: 1, errorCode, errorMessage, errorClass, effect }\<close>\<close>

definition flagRefusal :: "parsedResponse \<Rightarrow> refusal" where
  "flagRefusal res = \<lparr>rfStatus = 1, rfCode = prErrorCode res, rfMessage = prError res,
     rfClass = prErrorClass res, rfEffect = prEffect res\<rparr>"

text \<open>Every decoder of a response: refuse as the broker did, or read the data.\<close>

definition readReply ::
  "(parsedResponse \<Rightarrow> refusal) \<Rightarrow> (bytes \<Rightarrow> 'a result) \<Rightarrow> bytes \<Rightarrow> 'a reply result" where
  "readReply refuse read pl =
    andThen (parseStandardResponse pl) (\<lambda>res.
      if \<not> prSuccess res then Inr (Refused (refuse res))
      else andThen (read (prData res)) (\<lambda>v. Inr (Accepted v)))"

section \<open>The two envelopes\<close>

definition okResponse :: "bytes \<Rightarrow> parsedResponse" where
  "okResponse d = \<lparr>prSuccess = True, prData = d, prError = None, prErrorCode = None,
     prErrorClass = None, prEffect = None\<rparr>"

definition errResponse :: "nat \<Rightarrow> nat \<Rightarrow> nat \<Rightarrow> jsstr \<Rightarrow> parsedResponse" where
  "errResponse c k e m = \<lparr>prSuccess = False, prData = [], prError = Some m, prErrorCode = Some c,
     prErrorClass = Some k, prEffect = Some e\<rparr>"

definition errorEnvelope :: "nat \<Rightarrow> nat \<Rightarrow> nat \<Rightarrow> bytes \<Rightarrow> bytes" where
  "errorEnvelope c k e raw = 1 # be 2 (int c) @ of_nat k # of_nat e # blob raw"

lemma parse_ok [reader_simps]: "parseStandardResponse (0 # d) = Inr (okResponse d)"
  by (simp add: parseStandardResponse_def reader_simps okResponse_def Let_def)

lemma parse_nil [reader_simps]: "parseStandardResponse [] = Inl (ProtocolError None)"
  by (simp add: parseStandardResponse_def)

lemma parse_unknown_status:
  "1 < unat b \<Longrightarrow> parseStandardResponse (b # d) = Inl (ProtocolError (Some (unat b)))"
  by (simp add: parseStandardResponse_def reader_simps Let_def)

lemma readReply_ok [reader_simps]:
  "readReply refuse read (0 # d) = andThen (read d) (\<lambda>v. Inr (Accepted v))"
  by (simp add: readReply_def parse_ok okResponse_def)

lemma readReply_nil [reader_simps]: "readReply refuse read [] = Inl (ProtocolError None)"
  by (simp add: readReply_def parse_nil)

lemma assertSuccess_ok [reader_simps]: "assertSuccess (0 # d) = Inr d"
  by (simp add: assertSuccess_def parse_ok okResponse_def)

section \<open>What a successful read consumed\<close>

lemma In_inject [simp]: "In p t = In q s \<longleftrightarrow> p = q \<and> t = s"
  by (auto simp: In_def)

lemma readU8_Inr:
  "readU8 (In p t) = Inr (v, r') \<longleftrightarrow> (\<exists>b t'. t = b # t' \<and> v = unat b \<and> r' = In (p @ [b]) t')"
  by (cases t) (auto simp: readU8_In readU8_Nil)

lemma take_part: "n \<le> length t \<Longrightarrow> \<exists>x t'. t = x @ t' \<and> length x = n"
  by (metis append_take_drop_id length_take min.absorb2)

lemma readU16BE_Inr:
  "readU16BE (In p t) = Inr (v, r') \<longleftrightarrow>
    v < 65536 \<and> (\<exists>t'. t = be 2 (int v) @ t' \<and> r' = In (p @ be 2 (int v)) t')"
proof (cases "length t < 2")
  case True
  then show ?thesis by (auto simp: readU16BE_short)
next
  case False
  then obtain x t' where t: "t = x @ t'" "length x = 2" using take_part [of 2 t] by auto
  have "unbe x < 65536" using unbe_less [of x] t by simp
  with t show ?thesis
    by (auto simp: readU16BE_In)
qed

lemma readU32BE_Inr:
  "readU32BE (In p t) = Inr (v, r') \<longleftrightarrow>
    v < 4294967296 \<and> (\<exists>t'. t = be 4 (int v) @ t' \<and> r' = In (p @ be 4 (int v)) t')"
proof (cases "length t < 4")
  case True
  then show ?thesis by (auto simp: readU32BE_short)
next
  case False
  then obtain x t' where t: "t = x @ t'" "length x = 4" using take_part [of 4 t] by auto
  have "unbe x < 4294967296" using unbe_less [of x] t by simp
  with t show ?thesis
    by (auto simp: readU32BE_In)
qed

lemma readU64BE_Inr:
  "readU64BE (In p t) = Inr (v, r') \<longleftrightarrow>
    v < 18446744073709551616 \<and> (\<exists>t'. t = be 8 (int v) @ t' \<and> r' = In (p @ be 8 (int v)) t')"
proof (cases "length t < 8")
  case True
  then show ?thesis by (auto simp: readU64BE_short)
next
  case False
  then obtain x t' where t: "t = x @ t'" "length x = 8" using take_part [of 8 t] by auto
  have "unbe x < 18446744073709551616" using unbe_less [of x] t by simp
  with t show ?thesis
    by (auto simp: readU64BE_In)
qed

lemma readBytes_Inr:
  "readBytes n (In p t) = Inr (v, r') \<longleftrightarrow>
    length v = n \<and> (\<exists>t'. t = v @ t' \<and> r' = In (p @ v) t')"
proof (cases "length t < n")
  case True
  then show ?thesis by (auto simp: readBytes_short)
next
  case False
  then obtain x t' where t: "t = x @ t'" "length x = n" using take_part [of n t] by auto
  have same: "v = x \<and> t'' = t'" if "length v = n" "t = v @ t''" for t''
    using append_eq_append_conv [of v x t'' t'] that t by metis
  have "readBytes n (In p t) = Inr (x, In (p @ x) t')"
    using readBytes_In [OF t(2), of p t'] by (simp only: t(1))
  then show ?thesis using same t by (metis Inr_inject old.prod.inject)
qed

lemma readBlob_Inr:
  "readBlob (In p t) = Inr (v, r') \<longleftrightarrow>
    wireBlob v \<and> (\<exists>t'. t = blob v @ t' \<and> r' = In (p @ blob v) t')"
  by (auto simp: readBlob_def andThen_eq_Inr readU32BE_Inr readBytes_Inr blob_def wireBlob_def)

lemma utf8Decode_Nil [simp]: "utf8Decode [] = []"
  by (simp add: utf8Decode_def dropBom_def decInit_def)

text \<open>A text field is a byte field whose bytes are decoded.\<close>

lemma readString_blob:
  "readString (In p t) = andThen (readBlob (In p t)) (\<lambda>(raw, r). Inr (utf8Decode raw, r))"
proof (cases "readU32BE (In p t)")
  case (Inr q)
  then obtain len t' where "q = (len, In (p @ be 4 (int len)) t')"
    by (cases q) (auto simp: readU32BE_Inr)
  with Inr show ?thesis
    by (auto simp: readString_def readBlob_def readBytes_def In_def advance_def)
qed (simp add: readString_def readBlob_def)

lemma readString_Inr:
  "readString (In p t) = Inr (v, r') \<longleftrightarrow>
    (\<exists>raw t'. wireBlob raw \<and> v = utf8Decode raw \<and> t = blob raw @ t' \<and> r' = In (p @ blob raw) t')"
  by (auto simp: readString_blob andThen_eq_Inr readBlob_Inr)

lemma readRoute_Inr:
  "readRoute (In p t) = Inr (v, r') \<longleftrightarrow>
    (\<exists>raw t'. wireBlob raw \<and> v = utf8Decode raw \<and> t = blob raw @ t' \<and> r' = In (p @ blob raw) t')"
  by (simp add: readRoute_def readString_Inr)

lemmas reads_Inr = readU8_Inr readU16BE_Inr readU32BE_Inr readU64BE_Inr readBytes_Inr readBlob_Inr
  readString_Inr readRoute_Inr

section \<open>Exactly the envelopes are accepted\<close>

lemma of_nat_unat_byte [simp]: "of_nat (unat (b :: byte)) = b"
  by (rule word_unat_eq_iff [THEN iffD2]) (simp add: unat_byte_of_nat)

lemma unat_byte_eqD: "unat (b :: byte) = n \<Longrightarrow> b = of_nat n"
  using of_nat_unat_byte [of b] by metis

lemma unat_eq_1: "unat (b :: byte) = 1 \<longleftrightarrow> b = 1"
  by (metis unat_1 word_unat_eq_iff)

lemma unat_eq_0: "unat (b :: byte) = 0 \<longleftrightarrow> b = 0"
  by (metis unat_0 word_unat_eq_iff)

lemma parse_error_env:
  assumes "c < 65536" "k \<le> 10" "e \<le> 2" "wireBlob raw"
  shows "parseStandardResponse (errorEnvelope c k e raw) =
    Inr (errResponse c k e (utf8Decode raw))"
proof -
  have "readBlob (In p (blob raw)) = Inr (raw, In (p @ blob raw) [])" for p
    using readBlob_blob [OF assms(4), of p "[]"] by simp
  then show ?thesis
    using assms
    by (simp add: parseStandardResponse_def errorEnvelope_def createBufferReader_In Let_def
        readU8_In readU16BE_be readString_blob isEOF_In errResponse_def newUint8Array_def)
qed

lemma parse_Inr_iff:
  "parseStandardResponse pl = Inr res \<longleftrightarrow>
    (\<exists>d. pl = 0 # d \<and> res = okResponse d) \<or>
    (\<exists>c k e raw. c < 65536 \<and> k \<le> 10 \<and> e \<le> 2 \<and> wireBlob raw \<and> pl = errorEnvelope c k e raw \<and>
       res = errResponse c k e (utf8Decode raw))" (is "?L \<longleftrightarrow> ?R")
proof
  assume ?R
  then show ?L by (auto simp: parse_ok parse_error_env)
next
  assume L: ?L
  then obtain b d where pl: "pl = b # d" by (cases pl) (auto simp: parse_nil)
  show ?R
  proof (cases "b = 0")
    case True
    with L pl show ?thesis by (simp add: parse_ok)
  next
    case False
    have "unat b \<noteq> 0" using False by (simp add: unat_eq_0)
    with L pl have "\<not> 1 < unat b" using parse_unknown_status [of b d] by auto
    with False have b: "b = 1"
      using \<open>unat b \<noteq> 0\<close> by (metis One_nat_def less_one linorder_neqE_nat unat_eq_1)
    from L pl b have "\<exists>c k e raw. c < 65536 \<and> k \<le> 10 \<and> e \<le> 2 \<and> wireBlob raw \<and>
        pl = errorEnvelope c k e raw \<and> res = errResponse c k e (utf8Decode raw)"
      by (auto simp: parseStandardResponse_def createBufferReader_In Let_def readU8_In reads_Inr
          isEOF_In errorEnvelope_def errResponse_def newUint8Array_def not_less elim!: andThen_InrE
          split: if_splits) (metis of_nat_unat_byte)
    then show ?thesis ..
  qed
qed

lemma readReply_error [reader_simps]:
  "c < 65536 \<Longrightarrow> k \<le> 10 \<Longrightarrow> e \<le> 2 \<Longrightarrow> wireBlob raw \<Longrightarrow>
    readReply refuse read (errorEnvelope c k e raw) =
      Inr (Refused (refuse (errResponse c k e (utf8Decode raw))))"
  by (simp add: readReply_def parse_error_env errResponse_def)

lemma readReply_Accepted:
  "readReply refuse read pl = Inr (Accepted v) \<longleftrightarrow> (\<exists>d. pl = 0 # d \<and> read d = Inr v)"
proof
  assume "readReply refuse read pl = Inr (Accepted v)"
  then show "\<exists>d. pl = 0 # d \<and> read d = Inr v"
    by (auto simp: readReply_def parse_Inr_iff okResponse_def errResponse_def elim!: andThen_InrE
        split: if_splits)
qed (auto simp: readReply_ok)

lemma readReply_Refused:
  "readReply refuse read pl = Inr (Refused rf) \<longleftrightarrow>
    (\<exists>c k e raw. c < 65536 \<and> k \<le> 10 \<and> e \<le> 2 \<and> wireBlob raw \<and> pl = errorEnvelope c k e raw \<and>
       rf = refuse (errResponse c k e (utf8Decode raw)))" (is "?L \<longleftrightarrow> ?R")
proof
  assume ?L
  then obtain res where res: "parseStandardResponse pl = Inr res" and rest: "\<not> prSuccess res"
      "rf = refuse res"
    by (auto simp: readReply_def elim!: andThen_InrE split: if_splits)
  then show ?R by (auto simp: parse_Inr_iff okResponse_def)
qed (auto simp: readReply_error)

section \<open>Properties\<close>

text \<open>
  The standard response parser accepts exactly two forms, a zero status followed by the data
  and a complete error envelope, and tells every field of the envelope apart.
\<close>

theorem envelope_exact:
  "parseStandardResponse pl = Inr res \<longleftrightarrow>
    (\<exists>d. pl = 0 # d \<and> res = okResponse d) \<or>
    (\<exists>c k e raw. c < 65536 \<and> k \<le> 10 \<and> e \<le> 2 \<and> wireBlob raw \<and> pl = errorEnvelope c k e raw \<and>
       res = errResponse c k e (utf8Decode raw))"
  by (rule parse_Inr_iff)

end
