(* ===== verification/KvCodec.thy ===== *)
theory KvCodec
  imports Response Writer
begin

text \<open>
  The KV codec of \<^verbatim>\<open>src/domains/kv/codec.ts\<close>: one encoder per request, one decoder per response,
  the layout of every request, what a decoder accepts, and the round trips between them.
  \<^verbatim>\<open>getRouteEncoding(route)\<close> is \<^verbatim>\<open>routePayload\<close>: a cache hit returns the same bytes
  (\<^verbatim>\<open>getRouteEncoding_ok\<close> of Buffer).
\<close>

declare routePayload_eq [layout_simps] Let_def [layout_simps] blob_def [layout_simps]

section \<open>Requests\<close>

definition kvEncodeBegin :: "jsstr \<Rightarrow> string \<Rightarrow> bytes result" where
  "kvEncodeBegin route mode =
    andThen (routePayload route) (\<lambda>routeBytes.
      let c = alloc (length routeBytes + 1) in
      andThen (putBytes routeBytes c) (\<lambda>c.
      Inr (finish (putU8 (if mode = ''ReadWrite'' then 1 else 0) c))))"

definition kvEncodePut :: "int \<Rightarrow> jsstr \<Rightarrow> bytes \<Rightarrow> bytes \<Rightarrow> bytes result" where
  "kvEncodePut txId route key val =
    andThen (routePayload route) (\<lambda>routeBytes.
      let c = alloc (8 + length routeBytes + 4 + length key + 4 + length val);
          c = putU64 txId c in
      andThen (putBytes routeBytes c) (\<lambda>c.
      let c = putU32 (int (length key)) c in
      andThen (putBytes key c) (\<lambda>c.
      let c = putU32 (int (length val)) c in
      andThen (putBytes val c) (\<lambda>c. Inr (finish c)))))"

definition kvEncodeInsert :: "int \<Rightarrow> jsstr \<Rightarrow> bytes \<Rightarrow> bytes \<Rightarrow> bytes result" where
  "kvEncodeInsert txId route key val = kvEncodePut txId route key val"

definition kvEncodeGet :: "int \<Rightarrow> jsstr \<Rightarrow> bytes \<Rightarrow> bytes result" where
  "kvEncodeGet txId route key =
    andThen (routePayload route) (\<lambda>routeBytes.
      let c = alloc (8 + length routeBytes + 4 + length key);
          c = putU64 txId c in
      andThen (putBytes routeBytes c) (\<lambda>c.
      let c = putU32 (int (length key)) c in
      andThen (putBytes key c) (\<lambda>c. Inr (finish c))))"

definition kvEncodeDelete :: "int \<Rightarrow> jsstr \<Rightarrow> bytes \<Rightarrow> bytes result" where
  "kvEncodeDelete txId route key = kvEncodeGet txId route key"

definition kvEncodeDeleteRange :: "int \<Rightarrow> jsstr \<Rightarrow> bytes \<Rightarrow> bytes \<Rightarrow> bytes result" where
  "kvEncodeDeleteRange txId route startKey endKey =
    andThen (routePayload route) (\<lambda>routeBytes.
      let c = alloc (8 + length routeBytes + 4 + length startKey + 4 + length endKey);
          c = putU64 txId c in
      andThen (putBytes routeBytes c) (\<lambda>c.
      let c = putU32 (int (length startKey)) c in
      andThen (putBytes startKey c) (\<lambda>c.
      let c = putU32 (int (length endKey)) c in
      andThen (putBytes endKey c) (\<lambda>c. Inr (finish c)))))"

definition encodeDurability :: "string \<Rightarrow> byte result" where
  "encodeDurability durability =
    (if durability = ''Buffered'' then Inr 0
     else if durability = ''Sync'' then Inr 1
     else Inl CodecError)"

definition encodeTransactionScope :: "int \<Rightarrow> jsstr \<Rightarrow> nat \<Rightarrow> bytes result" where
  "encodeTransactionScope txId route extraBytes =
    andThen (routePayload route) (\<lambda>routeBytes.
      let (buf, _) = writeU64BEAt (newUint8Array (8 + length routeBytes + extraBytes)) 0 txId in
      u8set buf routeBytes 8)"

definition kvEncodeCommit :: "int \<Rightarrow> jsstr \<Rightarrow> string \<Rightarrow> bytes result" where
  "kvEncodeCommit txId route durability =
    andThen (encodeDurability durability) (\<lambda>v.
    andThen (encodeTransactionScope txId route 1) (\<lambda>buf. Inr (buf[length buf - 1 := v])))"

definition kvEncodeRollback :: "int \<Rightarrow> jsstr \<Rightarrow> bytes result" where
  "kvEncodeRollback txId route = encodeTransactionScope txId route 0"

record kvScanOptions =
  scanStartKey :: "bytes option"
  scanEndKey :: "bytes option"
  scanLimit :: "jsnum option"
  scanReverse :: bool
  scanStartExclusive :: bool

definition kvWriteBound :: "bytes option \<Rightarrow> bwriter \<Rightarrow> bwriter result" where
  "kvWriteBound bound w =
    (case bound of
       Some key \<Rightarrow>
         andThen (writeU8 1 w) (\<lambda>w.
         andThen (writeU32BE (int (length key)) w) (\<lambda>w. writeBytes key w))
     | None \<Rightarrow> writeU8 0 w)"

definition kvWriteLimit :: "jsnum option \<Rightarrow> bwriter \<Rightarrow> bwriter result" where
  "kvWriteLimit limit w =
    (case limit of
       Some n \<Rightarrow>
         if \<not> isInteger n \<or> jsInt n < 0 \<or> jsInt n > 0xffffffff then Inl CodecError
         else andThen (writeU8 1 w) (\<lambda>w. writeU32BE (jsInt n) w)
     | None \<Rightarrow> writeU8 0 w)"

definition kvEncodeScan :: "int \<Rightarrow> jsstr \<Rightarrow> kvScanOptions \<Rightarrow> bytes result" where
  "kvEncodeScan txId route opts =
    andThen (andThen (writeU64BE txId (createBufferWriter 512)) (\<lambda>w.
      andThen (writeRoute route w) (\<lambda>w.
      andThen (kvWriteBound (scanStartKey opts) w) (\<lambda>w.
      andThen (kvWriteBound (scanEndKey opts) w) (\<lambda>w.
      andThen (kvWriteLimit (scanLimit opts) w) (\<lambda>w.
      writeU8 ((if scanReverse opts then 1 else 0) OR (if scanStartExclusive opts then 2 else 0))
        w)))))) (\<lambda>w. Inr (getBuffer w))"

definition kvEncodeSubscribe :: "jsstr \<Rightarrow> bytes result" where
  "kvEncodeSubscribe pat = routePayload pat"

definition kvEncodeUnsubscribe :: "jsstr \<Rightarrow> bytes result" where
  "kvEncodeUnsubscribe pat = routePayload pat"

section \<open>Responses and notifications\<close>

text \<open>The BEGIN reply drops the broker's message.\<close>

definition beginRefusal :: "parsedResponse \<Rightarrow> refusal" where
  "beginRefusal res = (codeRefusal res)\<lparr>rfMessage := None\<rparr>"

definition kvDecodeBeginResponse :: "bytes \<Rightarrow> nat option reply result" where
  "kvDecodeBeginResponse = readReply beginRefusal (\<lambda>d.
     let reader = createBufferReader d in
     andThen (if isEOF reader then Inr (None, reader)
              else andThen (readU64BE reader) (\<lambda>(v, r). Inr (Some v, r))) (\<lambda>(txId, reader).
     if \<not> isEOF reader then Inl CodecError else Inr txId))"

definition kvDecodeStatusResponse :: "bytes \<Rightarrow> unit reply result" where
  "kvDecodeStatusResponse = readReply codeRefusal (\<lambda>d. Inr ())"

definition kvDecodePutResponse :: "bytes \<Rightarrow> unit reply result" where
  "kvDecodePutResponse pl = kvDecodeStatusResponse pl"

text \<open>A found value, or \<^verbatim>\<open>None\<close> for \<^verbatim>\<open>found: false\<close>.\<close>

definition kvDecodeGetResponse :: "bytes \<Rightarrow> bytes option reply result" where
  "kvDecodeGetResponse = readReply codeRefusal (\<lambda>d.
     let reader = createBufferReader d in
     andThen (if isEOF reader then Inr (False, reader)
              else andThen (readU8 reader) (\<lambda>(f, r). Inr (f = 1, r))) (\<lambda>(found, reader).
     if \<not> found \<or> isEOF reader then Inr None
     else andThen (readU32BE reader) (\<lambda>(valueLen, reader).
          andThen (readBytes valueLen reader) (\<lambda>(v, _). Inr (Some v)))))"

definition kvReadEntry :: "reader \<Rightarrow> ((bytes \<times> bytes) \<times> reader) result" where
  "kvReadEntry reader =
    andThen (readBlob reader) (\<lambda>(key, reader).
    andThen (readBlob reader) (\<lambda>(val, reader). Inr ((key, val), reader)))"

record kvScanPage =
  pageEntries :: "(bytes \<times> bytes) list"
  pageHasMore :: bool

definition kvDecodeScanResponse :: "bytes \<Rightarrow> kvScanPage reply result" where
  "kvDecodeScanResponse = readReply codeRefusal (\<lambda>d.
     andThen (readU32BE (createBufferReader d)) (\<lambda>(count, reader).
     andThen (readTimes count kvReadEntry reader) (\<lambda>(entries, reader).
     andThen (readU8 reader) (\<lambda>(flag, reader).
     if flag \<noteq> 0 \<and> flag \<noteq> 1 then Inl CodecError
     else if \<not> isEOF reader then Inl CodecError
     else Inr \<lparr>pageEntries = entries, pageHasMore = (flag = 1)\<rparr>))))"

record kvNotification =
  kvnSubId :: nat
  kvnRoute :: jsstr
  kvnMutationCount :: nat

definition kvDecodeNotification :: "bytes \<Rightarrow> kvNotification result" where
  "kvDecodeNotification pl =
    andThen (readU64BE (createBufferReader pl)) (\<lambda>(subId, reader).
    andThen (readRoute reader) (\<lambda>(route, reader).
    andThen (readU64BE reader) (\<lambda>(n, reader).
    if \<not> isEOF reader then Inl CodecError
    else Inr \<lparr>kvnSubId = subId, kvnRoute = route, kvnMutationCount = n\<rparr>)))"

section \<open>Layout of the requests\<close>

lemma kvEncodeBegin_layout:
  "kvEncodeBegin route mode = Inr (strField route @ [if mode = ''ReadWrite'' then 1 else 0])"
  by (simp add: kvEncodeBegin_def layout_simps)

lemma kvEncodePut_layout:
  "kvEncodePut tx route key val = Inr (be 8 tx @ strField route @ blob key @ blob val)"
  by (simp add: kvEncodePut_def layout_simps)

lemma kvEncodeGet_layout:
  "kvEncodeGet tx route key = Inr (be 8 tx @ strField route @ blob key)"
  by (simp add: kvEncodeGet_def layout_simps)

lemma kvEncodeDeleteRange_layout:
  "kvEncodeDeleteRange tx route lo hi = Inr (be 8 tx @ strField route @ blob lo @ blob hi)"
  by (simp add: kvEncodeDeleteRange_def layout_simps)

lemma encodeTransactionScope_layout:
  "encodeTransactionScope tx route n = Inr (be 8 tx @ strField route @ replicate n 0)"
proof -
  have "putU64 tx (alloc (8 + length (strField route) + n)) =
      Out (be 8 tx) (length (strField route) + n)"
    by (simp add: alloc_Out putU64_Out add.assoc)
  moreover have "andThen (putBytes (strField route) (Out (be 8 tx) (length (strField route) + n)))
      (\<lambda>c. Inr (fst c)) = Inr (be 8 tx @ strField route @ replicate n 0)"
    by (simp add: putBytes_Out) (simp add: Out_def)
  ultimately show ?thesis
    by (simp add: encodeTransactionScope_def routePayload_eq putU64_def alloc_def putBytes_def
        Out_def split: prod.splits) (simp add: andThen_assoc)
qed

lemma kvEncodeCommit_layout:
  "kvEncodeCommit tx route durability =
    (if durability = ''Buffered'' then Inr (be 8 tx @ strField route @ [0])
     else if durability = ''Sync'' then Inr (be 8 tx @ strField route @ [1])
     else Inl CodecError)"
  by (simp add: kvEncodeCommit_def encodeDurability_def encodeTransactionScope_layout
      list_update_append)

lemma kvEncodeRollback_layout: "kvEncodeRollback tx route = Inr (be 8 tx @ strField route)"
  by (simp add: kvEncodeRollback_def encodeTransactionScope_layout)

definition limitField :: "jsnum option \<Rightarrow> bytes" where
  "limitField l = optField (\<lambda>n. be 4 (jsInt n)) l"

definition limitOk :: "jsnum option \<Rightarrow> bool" where
  "limitOk l \<longleftrightarrow> (case l of None \<Rightarrow> True | Some n \<Rightarrow> isInteger n \<and> 0 \<le> jsInt n \<and> jsInt n \<le> 0xffffffff)"

definition scanFlags :: "kvScanOptions \<Rightarrow> byte" where
  "scanFlags opts = (if scanReverse opts then 1 else 0) + (if scanStartExclusive opts then 2 else 0)"

lemma appends_kvWriteBound: "appends (kvWriteBound b) (optField blob b)"
  using appends_OptionalBytes [of b]
  by (cases b) (simp_all add: kvWriteBound_def [abs_def] writeOptionalBytes_def [abs_def])

lemma appends_kvWriteLimit: "limitOk l \<Longrightarrow> appends (kvWriteLimit l) (limitField l)"
proof (cases l)
  case None
  then show ?thesis
    using appends_U8 [of 0]
    by (simp add: kvWriteLimit_def [abs_def] limitField_def optField_def)
next
  case (Some n)
  moreover assume "limitOk l"
  ultimately show ?thesis
    using appends_flag [OF appends_U32BE [of "jsInt n"]]
    by (simp add: kvWriteLimit_def [abs_def] limitField_def optField_def limitOk_def)
qed

lemma kvEncodeScan_layout:
  assumes "limitOk (scanLimit opts)"
  shows "kvEncodeScan tx route opts =
    Inr (be 8 tx @ strField route @ optField blob (scanStartKey opts) @
      optField blob (scanEndKey opts) @ limitField (scanLimit opts) @ [scanFlags opts])"
proof -
  let ?flags = "(if scanReverse opts then 1 else 0) OR (if scanStartExclusive opts then 2 else 0)"
  have flags: "be 1 ?flags = [scanFlags opts]"
    by (simp add: scanFlags_def)
  show ?thesis
    unfolding kvEncodeScan_def
    by (rule appends_run, subst flags [symmetric])
      (intro appends_seq appends_rules appends_kvWriteBound appends_kvWriteLimit assms)
qed

lemma kvEncodeScan_bad_limit:
  assumes "\<not> limitOk (scanLimit opts)"
  shows "kvEncodeScan tx route opts = Inl CodecError"
proof -
  have bad: "kvWriteLimit (scanLimit opts) w = Inl CodecError" for w
    using assms by (cases "scanLimit opts") (auto simp: kvWriteLimit_def limitOk_def)
  let ?pre = "\<lambda>w. andThen (writeU64BE tx w) (\<lambda>w. andThen (writeRoute route w) (\<lambda>w.
      andThen (kvWriteBound (scanStartKey opts) w) (kvWriteBound (scanEndKey opts))))"
  have "appends ?pre (be 8 tx @ strField route @ optField blob (scanStartKey opts) @
      optField blob (scanEndKey opts))"
    by (intro appends_seq appends_rules appends_kvWriteBound)
  then obtain w' where "?pre (createBufferWriter 512) = Inr w'"
    unfolding appends_def using validWriter_create by blast
  moreover have "kvEncodeScan tx route opts =
      andThen (?pre (createBufferWriter 512)) (\<lambda>w. Inl CodecError)"
    by (simp add: kvEncodeScan_def andThen_assoc bad)
  ultimately show ?thesis by simp
qed

section \<open>What the decoders accept\<close>

lemma kvReadEntry_stays: "validReader r \<Longrightarrow> kvReadEntry r = Inr (v, r') \<Longrightarrow> stays r r'"
  by (auto simp: kvReadEntry_def elim!: andThen_InrE dest!: stays_dests intro: stays_trans)

interpretation kvEntry: wire_field kvReadEntry "\<lambda>(k, v). blob k @ blob v"
  "\<lambda>(k, v). wireBlob k \<and> wireBlob v"
  by unfold_locales (auto intro: kvReadEntry_stays simp: kvReadEntry_def readBlob_blob)

definition kvEntriesBytes :: "(bytes \<times> bytes) list \<Rightarrow> bytes" where
  "kvEntriesBytes es = concat (map (\<lambda>(k, v). blob k @ blob v) es)"

lemma kvDecodeBegin_tx [reader_simps]:
  "t < 18446744073709551616 \<Longrightarrow>
    kvDecodeBeginResponse (0 # be 8 (int t)) = Inr (Accepted (Some t))"
  by (simp add: kvDecodeBeginResponse_def reader_simps Let_def)

lemma kvDecodeGet_value:
  "wireBlob v \<Longrightarrow> kvDecodeGetResponse (0 # 1 # blob v @ t) = Inr (Accepted (Some v))"
proof -
  assume "wireBlob v"
  then have b: "readBlob (In p (blob v @ t)) = Inr (v, In (p @ blob v) t)" for p
    by (rule readBlob_blob)
  have ne: "blob v @ t \<noteq> []" by (simp add: blob_def)
  have "andThen (readU32BE r) (\<lambda>(n, r). andThen (readBytes n r) (\<lambda>(v, _). Inr (Some v))) =
      andThen (readBlob r) (\<lambda>(v, _). Inr (Some v))" for r
    by (cases "readU32BE r") (auto simp: readBlob_def)
  then show ?thesis
    using ne by (simp add: kvDecodeGetResponse_def reader_simps Let_def b)
qed

lemma kvDecodeGet_absent: "kvDecodeGetResponse (0 # 0 # t) = Inr (Accepted None)"
  by (simp add: kvDecodeGetResponse_def reader_simps Let_def)

lemma kvDecodeScan_page:
  assumes "list_all (\<lambda>(k, v). wireBlob k \<and> wireBlob v) es" and "length es < 4294967296"
  shows "kvDecodeScanResponse
      (0 # be 4 (int (length es)) @ kvEntriesBytes es @ [if m then 1 else 0]) =
    Inr (Accepted \<lparr>pageEntries = es, pageHasMore = m\<rparr>)"
  using assms kvEntry.times_put [OF assms(1), of "be 4 (int (length es))" "[if m then 1 else 0]"]
  by (simp add: kvDecodeScanResponse_def reader_simps kvEntriesBytes_def)

lemma kvDecodeNotification_bytes:
  assumes "s < 18446744073709551616" and "n < 18446744073709551616" and "wireString route"
  shows "kvDecodeNotification (be 8 (int s) @ strField route @ be 8 (int n)) =
    Inr \<lparr>kvnSubId = s, kvnRoute = route, kvnMutationCount = n\<rparr>"
  using assms by (simp add: kvDecodeNotification_def reader_simps)

section \<open>Properties\<close>

text \<open>
  A page of a scan is decoded to the entries it holds, in order, and to whether there are more.
\<close>

theorem scan_page_decodes:
  assumes "list_all (\<lambda>(k, v). wireBlob k \<and> wireBlob v) es" and "length es < 4294967296"
  shows "kvDecodeScanResponse
      (0 # be 4 (int (length es)) @ kvEntriesBytes es @ [if m then 1 else 0]) =
    Inr (Accepted \<lparr>pageEntries = es, pageHasMore = m\<rparr>)"
  using assms by (rule kvDecodeScan_page)

lemma scan_page_decodes_witness:
  "kvDecodeScanResponse (0 # be 4 2 @ kvEntriesBytes [([1], [2, 3]), ([], [4])] @ [1]) =
    Inr (Accepted \<lparr>pageEntries = [([1], [2, 3]), ([], [4])], pageHasMore = True\<rparr>)"
  using scan_page_decodes [of "[([1], [2, 3]), ([], [4])]" True]
  by (simp add: wireBlob_def)

end
