(* ===== verification/Routes.thy ===== *)
theory Routes
  imports Buffer
begin

text \<open>
  Route syntax of \<^verbatim>\<open>src/domains/_routes.ts\<close>: the index-scanning validators of routes, patterns and
  selectors, and the matcher with one-level backtracking. Each scan is shown equal to a
  reference definition over the list of segments.
\<close>

section \<open>Strings\<close>

text \<open>\<^verbatim>\<open>s.charCodeAt(i) === c\<close>\<close>

definition codeIs :: "jsstr \<Rightarrow> nat \<Rightarrow> nat \<Rightarrow> bool" where
  "codeIs s i c \<longleftrightarrow> i < length s \<and> unat (s ! i) = c"

definition startsWith :: "jsstr \<Rightarrow> jsstr \<Rightarrow> bool" where
  "startsWith s pre \<longleftrightarrow> take (length pre) s = pre"

text \<open>\<^verbatim>\<open>s.indexOf(sub)\<close>, with \<^verbatim>\<open>None\<close> for -1.\<close>

fun indexOf :: "jsstr \<Rightarrow> jsstr \<Rightarrow> nat option" where
  "indexOf [] sub = (if sub = [] then Some 0 else None)"
| "indexOf (c # s) sub =
    (if startsWith (c # s) sub then Some 0
     else (case indexOf s sub of Some i \<Rightarrow> Some (Suc i) | None \<Rightarrow> None))"

definition includesStr :: "jsstr \<Rightarrow> jsstr \<Rightarrow> bool" where
  "includesStr s sub \<longleftrightarrow> indexOf s sub \<noteq> None"

text \<open>\<^verbatim>\<open>s.split("/")\<close>: never empty.\<close>

definition slash :: "16 word" where "slash = 47"
definition asterisk :: "16 word" where "asterisk = 42"

fun splitSlash :: "jsstr \<Rightarrow> jsstr list" where
  "splitSlash [] = [[]]"
| "splitSlash (c # s) =
    (if c = slash then [] # splitSlash s
     else (c # hd (splitSlash s)) # tl (splitSlash s))"

section \<open>Validation\<close>

definition maxWireBytes :: nat where
  "maxWireBytes = 65535"

text \<open>The scan of \<^verbatim>\<open>wireSizeIsValid\<close> over what is left of the route.\<close>

fun wireSizeLoop :: "jsstr \<Rightarrow> nat \<Rightarrow> bool" where
  "wireSizeLoop [] n = True"
| "wireSizeLoop [c] n =
    (if unat c < 0x80 then True
     else if unat c < 0x800 then n + 1 \<le> maxWireBytes
     else n + 2 \<le> maxWireBytes)"
| "wireSizeLoop (c # d # s) n =
    (if unat c < 0x80 then wireSizeLoop (d # s) n
     else if unat c < 0x800 then n + 1 \<le> maxWireBytes \<and> wireSizeLoop (d # s) (n + 1)
     else if unat c \<ge> 0xd800 \<and> unat c \<le> 0xdbff \<and> unat d \<ge> 0xdc00 \<and> unat d \<le> 0xdfff
       then n + 2 \<le> maxWireBytes \<and> wireSizeLoop s (n + 2)
     else n + 2 \<le> maxWireBytes \<and> wireSizeLoop (d # s) (n + 2))"

definition wireSizeIsValid :: "jsstr \<Rightarrow> bool" where
  "wireSizeIsValid route \<longleftrightarrow> length route \<le> maxWireBytes \<and> wireSizeLoop route (length route)"

text \<open>\<^verbatim>\<open>None\<close> is the code's -1.\<close>

definition pathStart :: "jsstr \<Rightarrow> jsstr \<Rightarrow> bool \<Rightarrow> nat option" where
  "pathStart route scheme allowBare =
    (if \<not> wireSizeIsValid route then None
     else (let schemeLength = length scheme in
       if length route > schemeLength + 3 \<and> startsWith route scheme \<and> codeIs route schemeLength 58
         \<and> codeIs route (schemeLength + 1) 47 \<and> codeIs route (schemeLength + 2) 47
       then Some (schemeLength + 3)
       else if allowBare \<and> \<not> includesStr route (js ''://'') \<and> length route > 0 then Some 0
       else None))"

definition containsAsterisk :: "jsstr \<Rightarrow> nat \<Rightarrow> nat \<Rightarrow> bool" where
  "containsAsterisk route start stop = list_ex (\<lambda>i. codeIs route i 42) [start..<stop]"

text \<open>The loop of \<^verbatim>\<open>scanConcrete\<close>; \<^verbatim>\<open>None\<close> is its \<^verbatim>\<open>return false\<close>.\<close>

function scanLoop :: "jsstr \<Rightarrow> nat \<Rightarrow> nat \<Rightarrow> nat \<Rightarrow> nat option" where
  "scanLoop route index segmentStart count =
    (if index > length route then Some count
     else if index \<noteq> length route \<and> \<not> codeIs route index 47
       then scanLoop route (index + 1) segmentStart count
     else if index = segmentStart \<or> containsAsterisk route segmentStart index then None
     else scanLoop route (index + 1) (index + 1) (count + 1))"
  by pat_completeness auto
termination
  by (relation "measure (\<lambda>(route, index, _, _). Suc (length route) - index)") auto

declare scanLoop.simps [simp del]

definition scanConcrete :: "jsstr \<Rightarrow> nat \<Rightarrow> nat \<Rightarrow> bool" where
  "scanConcrete route start expectedSegments =
    (case scanLoop route start start 0 of
       None \<Rightarrow> False
     | Some count \<Rightarrow> count > 0 \<and> (expectedSegments = 0 \<or> count = expectedSegments))"

definition isRouteShape :: "jsstr \<Rightarrow> jsstr \<Rightarrow> nat \<Rightarrow> bool \<Rightarrow> bool" where
  "isRouteShape route scheme segmentCount allowBareRoute =
    (case pathStart route scheme allowBareRoute of
       None \<Rightarrow> False
     | Some start \<Rightarrow> scanConcrete route start segmentCount)"

definition isConcreteRouteShape :: "jsstr \<Rightarrow> jsstr \<Rightarrow> bool" where
  "isConcreteRouteShape route scheme =
    (case pathStart route scheme False of
       None \<Rightarrow> False
     | Some start \<Rightarrow> scanConcrete route start 0)"

text \<open>The loop of \<^verbatim>\<open>isRegistrationPatternShape\<close>: the number of segments and of \<^verbatim>\<open>**\<close> segments.\<close>

function patternLoop :: "jsstr \<Rightarrow> nat \<Rightarrow> nat \<Rightarrow> nat \<Rightarrow> nat \<Rightarrow> bool \<Rightarrow> (nat \<times> nat) option" where
  "patternLoop route index segmentStart segmentCount doubleCount previousWasDouble =
    (if index > length route then Some (segmentCount, doubleCount)
     else if index \<noteq> length route \<and> \<not> codeIs route index 47
       then patternLoop route (index + 1) segmentStart segmentCount doubleCount previousWasDouble
     else
       (let len = index - segmentStart;
            single = (len = 1 \<and> codeIs route segmentStart 42);
            double = (len = 2 \<and> codeIs route segmentStart 42 \<and> codeIs route (segmentStart + 1) 42)
        in
        if len = 0 then None
        else if \<not> single \<and> \<not> double \<and> containsAsterisk route segmentStart index then None
        else if double \<and> previousWasDouble then None
        else patternLoop route (index + 1) (index + 1) (segmentCount + 1)
               (if double then doubleCount + 1 else doubleCount) double))"
  by pat_completeness auto
termination
  by (relation "measure (\<lambda>(route, index, _). Suc (length route) - index)") auto

declare patternLoop.simps [simp del]

definition isRegistrationPatternShape :: "jsstr \<Rightarrow> jsstr \<Rightarrow> int \<Rightarrow> bool" where
  "isRegistrationPatternShape route scheme requiredSegments =
    (case pathStart route scheme False of
       None \<Rightarrow> False
     | Some start \<Rightarrow>
       if requiredSegments < 0 then False
       else (case patternLoop route start start 0 0 False of
           None \<Rightarrow> False
         | Some (segmentCount, doubleWildcardCount) \<Rightarrow>
             if requiredSegments = 0 then True
             else if doubleWildcardCount = 0 then int segmentCount = requiredSegments
             else int segmentCount - int doubleWildcardCount \<le> requiredSegments))"

datatype streamSelectorScope = ScopeResource | ScopeArea | ScopeRealm | ScopeGlobal

definition classifyStreamSelectorScope :: "jsstr \<Rightarrow> streamSelectorScope option" where
  "classifyStreamSelectorScope route =
    (case pathStart route (js ''stream'') False of
       None \<Rightarrow> None
     | Some start \<Rightarrow>
       if length (utf8Encode route) > 4096 then None
       else if route = js ''stream://**'' then Some ScopeGlobal
       else (let segments = splitSlash (drop start route);
                 literal = (\<lambda>s. \<not> includesStr s (js ''*''));
                 wild = (\<lambda>s. s = js ''*'')
             in
         if length segments = 2 \<and> segments ! 1 = js ''**'' \<and> segments ! 0 \<noteq> js ''*''
            \<and> \<not> includesStr (segments ! 0) (js ''*'')
           then Some ScopeRealm
         else if length segments \<noteq> 3 \<or> list_ex (\<lambda>s. length s = 0) segments then None
         else if \<not> list_all (\<lambda>s. literal s \<or> wild s) segments then None
         else if segments ! 0 = js ''*'' then Some ScopeGlobal
         else if segments ! 1 = js ''*'' then Some ScopeRealm
         else if segments ! 2 = js ''*'' then Some ScopeArea
         else Some ScopeResource))"

definition isStreamSelectorShape :: "jsstr \<Rightarrow> bool" where
  "isStreamSelectorShape route \<longleftrightarrow> classifyStreamSelectorScope route \<noteq> None"

section \<open>Matching\<close>

definition segmentAt :: "jsstr list \<Rightarrow> nat \<Rightarrow> jsstr option" where
  "segmentAt segs i = (if i < length segs then Some (segs ! i) else None)"

text \<open>The main loop; \<^verbatim>\<open>None\<close> is \<^verbatim>\<open>return false\<close>, otherwise the pattern index it ends with.\<close>

function matchLoop :: "jsstr list \<Rightarrow> jsstr list \<Rightarrow> nat \<Rightarrow> nat \<Rightarrow> int \<Rightarrow> nat \<Rightarrow> nat option" where
  "matchLoop rs ps routeIndex patternIndex lastDoubleWildcard lastDoubleMatch =
    (if \<not> routeIndex < length rs then Some patternIndex
     else (let segment = segmentAt ps patternIndex in
       if segment = Some (js ''*'') \<or> segment = Some (rs ! routeIndex)
         then matchLoop rs ps (routeIndex + 1) (patternIndex + 1) lastDoubleWildcard lastDoubleMatch
       else if segment = Some (js ''**'')
         then matchLoop rs ps routeIndex (patternIndex + 1) (int patternIndex) routeIndex
       else if lastDoubleWildcard < 0 then None
       else matchLoop rs ps (lastDoubleMatch + 1) (nat lastDoubleWildcard + 1)
              lastDoubleWildcard (lastDoubleMatch + 1)))"
  by pat_completeness auto
termination
proof (relation "measures
    [\<lambda>(rs, ps, ri, pi, ld, lm). if int pi > ld then 0 else 1,
     \<lambda>(rs, ps, ri, pi, ld, lm). nat (int (length ps) - ld),
     \<lambda>(rs, ps, ri, pi, ld, lm). length rs - lm,
     \<lambda>(rs, ps, ri, pi, ld, lm). length rs - ri]", goal_cases)
qed (auto simp: segmentAt_def split: if_splits)

declare matchLoop.simps [simp del]

text \<open>\<^verbatim>\<open>while (patternSegments[patternIndex] === "**") patternIndex++;\<close>\<close>

function skipDoubles :: "jsstr list \<Rightarrow> nat \<Rightarrow> nat" where
  "skipDoubles ps i = (if segmentAt ps i = Some (js ''**'') then skipDoubles ps (i + 1) else i)"
  by pat_completeness auto
termination
  by (relation "measure (\<lambda>(ps, i). length ps - i)") (auto simp: segmentAt_def split: if_splits)

declare skipDoubles.simps [simp del]

definition routeSegmentsOf :: "jsstr \<Rightarrow> jsstr list option" where
  "routeSegmentsOf route =
    (case indexOf route (js ''://'') of
       None \<Rightarrow> None
     | Some marker \<Rightarrow> if marker < 1 then None else Some (splitSlash (drop (marker + 3) route)))"

definition matchSegments :: "jsstr list \<Rightarrow> jsstr list \<Rightarrow> bool" where
  "matchSegments rs ps =
    (case matchLoop rs ps 0 0 (-1) 0 of
       None \<Rightarrow> False
     | Some patternIndex \<Rightarrow> skipDoubles ps patternIndex = length ps)"

definition routeMatchesPattern :: "jsstr \<Rightarrow> jsstr \<Rightarrow> bool" where
  "routeMatchesPattern route pat =
    (case (indexOf route (js ''://''), indexOf pat (js ''://'')) of
       (Some routeMarker, Some patternMarker) \<Rightarrow>
         if routeMarker < 1 \<or> patternMarker < 1 \<or> take routeMarker route \<noteq> take patternMarker pat
           then False
         else (case (routeSegmentsOf route, routeSegmentsOf pat) of
             (Some routeSegments, Some patternSegments) \<Rightarrow>
               matchSegments routeSegments patternSegments
           | _ \<Rightarrow> False)
     | _ \<Rightarrow> False)"

section \<open>The size check is the length of the UTF-8 encoding\<close>

lemma length_encodeScalar_cases:
  "length (encodeScalar c) = (if c < 0x80 then 1 else if c < 0x800 then 2 else if c < 0x10000 then 3
     else 4)"
  by (simp add: encodeScalar_def)

lemma utf8Encode_Cons2: "utf8Encode (c # d # s) =
    (if isHigh c \<and> isLow d
     then encodeScalar (0x10000 + (unat c - 0xD800) * 0x400 + (unat d - 0xDC00)) @ utf8Encode s
     else encodeScalar (if isHigh c \<or> isLow c then 0xFFFD else unat c) @ utf8Encode (d # s))"
  by (simp add: utf8Encode_def)

lemma utf8Encode_single: "utf8Encode [c] =
    encodeScalar (if isHigh c \<or> isLow c then 0xFFFD else unat c)"
  by (simp add: utf8Encode_def)

lemma length_le_utf8Encode: "length s \<le> length (utf8Encode s)"
proof (induction s rule: toScalars.induct)
  case (2 u)
  then show ?case by (simp add: utf8Encode_single length_encodeScalar_cases)
next
  case (3 u v s)
  then show ?case by (auto simp: utf8Encode_Cons2 length_encodeScalar_cases)
qed simp

lemma surrogate_range: "isHigh c \<Longrightarrow> 0x800 \<le> unat c" "isLow c \<Longrightarrow> 0x800 \<le> unat c"
  by (simp_all add: isHigh_def isLow_def)

lemma wireSizeLoop_iff:
  "k + length s = n \<Longrightarrow> n \<le> maxWireBytes \<Longrightarrow>
    wireSizeLoop s n \<longleftrightarrow> k + length (utf8Encode s) \<le> maxWireBytes"
proof (induction s n arbitrary: k rule: wireSizeLoop.induct)
  case (1 n)
  then show ?case by simp
next
  case (2 c n)
  then show ?case
    using unat_unit_less [of c] surrogate_range [of c]
    by (auto simp: utf8Encode_single length_encodeScalar_cases)
next
  case (3 c d s n)
  have bound: "length s \<le> length (utf8Encode s)" "length (d # s) \<le> length (utf8Encode (d # s))"
    by (rule length_le_utf8Encode)+
  have range: "unat c < 65536" by (rule unat_unit_less)
  consider (ascii) "unat c < 0x80" | (two) "\<not> unat c < 0x80" "unat c < 0x800"
    | (pair) "\<not> unat c < 0x800" "isHigh c" "isLow d"
    | (three) "\<not> unat c < 0x800" "\<not> (isHigh c \<and> isLow d)"
    by fastforce
  then show ?case
  proof cases
    case ascii
    have "\<not> isHigh c" "\<not> isLow c" using ascii surrogate_range [of c] by auto
    then show ?thesis
      using 3(1) [of "Suc k"] 3(5,6) ascii
      by (simp add: utf8Encode_Cons2 length_encodeScalar_cases)
  next
    case two
    have "\<not> isHigh c" "\<not> isLow c" using two surrogate_range [of c] by auto
    then show ?thesis
      using 3(2) [of "k + 2"] 3(5,6) two bound
      by (auto simp: utf8Encode_Cons2 length_encodeScalar_cases)
  next
    case pair
    then show ?thesis
      using 3(3) [of "k + 4"] 3(5,6) bound
      by (auto simp: utf8Encode_Cons2 length_encodeScalar_cases isHigh_def isLow_def)
  next
    case three
    then have "length (encodeScalar (if isHigh c \<or> isLow c then 0xFFFD else unat c)) = 3"
      using range by (simp add: length_encodeScalar_cases)
    with three show ?thesis
      using 3(4) [of "k + 3"] 3(5,6) bound
      by (auto simp: utf8Encode_Cons2 isHigh_def isLow_def)
  qed
qed

lemma wireSizeIsValid_eq: "wireSizeIsValid s \<longleftrightarrow> length (utf8Encode s) \<le> maxWireBytes"
  using wireSizeLoop_iff [of 0 s "length s"] length_le_utf8Encode [of s]
  by (auto simp: wireSizeIsValid_def)

section \<open>Segments\<close>

lemma splitSlash_last [simp]: "slash \<notin> set xs \<Longrightarrow> splitSlash xs = [xs]"
  by (induction xs) auto

lemma splitSlash_next [simp]:
  "slash \<notin> set xs \<Longrightarrow> splitSlash (xs @ slash # ys) = xs # splitSlash ys"
  by (induction xs) auto

lemma splitSlash_ne [simp]: "splitSlash s \<noteq> []"
  by (cases s) auto

definition slice :: "jsstr \<Rightarrow> nat \<Rightarrow> nat \<Rightarrow> jsstr" where
  "slice s i j = take (j - i) (drop i s)"

lemma length_slice [simp]: "j \<le> length s \<Longrightarrow> length (slice s i j) = j - i"
  by (simp add: slice_def)

lemma slice_end [simp]: "slice s i (length s) = drop i s"
  by (simp add: slice_def)

lemma slice_empty [simp]: "slice s i i = []"
  by (simp add: slice_def)

lemma slice_snoc: "i \<le> j \<Longrightarrow> j < length s \<Longrightarrow> slice s i (Suc j) = slice s i j @ [s ! j]"
  by (simp add: slice_def Suc_diff_le take_Suc_conv_app_nth)

lemma drop_slice:
  assumes "i \<le> j" and "j < length s"
  shows "drop i s = slice s i j @ s ! j # drop (Suc j) s"
proof -
  have "drop i s = slice s i j @ drop (j - i) (drop i s)"
    unfolding slice_def by (rule append_take_drop_id [symmetric])
  moreover have "drop (j - i) (drop i s) = drop j s" using assms(1) by simp
  ultimately show ?thesis using assms(2) by (simp only: Cons_nth_drop_Suc)
qed

lemma codeIs_word: "codeIs s i (unat c) \<longleftrightarrow> i < length s \<and> s ! i = c"
  by (auto simp: codeIs_def dest: word_unat_eq_iff [THEN iffD2])

lemma codeIs_slash: "codeIs s i 47 \<longleftrightarrow> i < length s \<and> s ! i = slash"
  using codeIs_word [of s i slash] by (simp add: slash_def)

lemma codeIs_asterisk: "codeIs s i 42 \<longleftrightarrow> i < length s \<and> s ! i = asterisk"
  using codeIs_word [of s i asterisk] by (simp add: asterisk_def)

lemma in_set_slice:
  assumes "j \<le> length s"
  shows "v \<in> set (slice s i j) \<longleftrightarrow> (\<exists>k. i \<le> k \<and> k < j \<and> s ! k = v)" (is "_ \<longleftrightarrow> ?R")
proof
  assume "v \<in> set (slice s i j)"
  then obtain n where n: "n < j - i" "slice s i j ! n = v"
    using length_slice [OF assms, of i] by (auto simp: in_set_conv_nth)
  then have "i \<le> i + n" "i + n < j" "s ! (i + n) = v"
    using assms by (auto simp: slice_def)
  then show ?R by blast
next
  assume ?R
  then obtain k where "i \<le> k" "k < j" "s ! k = v" by blast
  then have "slice s i j ! (k - i) = v" "k - i < length (slice s i j)"
    using assms by (auto simp: slice_def)
  then show "v \<in> set (slice s i j)" by (metis nth_mem)
qed

lemma containsAsterisk_slice:
  "j \<le> length s \<Longrightarrow> containsAsterisk s i j \<longleftrightarrow> asterisk \<in> set (slice s i j)"
  by (simp add: in_set_slice) (auto simp: containsAsterisk_def list_ex_iff codeIs_asterisk)

definition concreteSegment :: "jsstr \<Rightarrow> bool" where
  "concreteSegment s \<longleftrightarrow> s \<noteq> [] \<and> asterisk \<notin> set s"

lemma scanLoop_segments:
  "ss \<le> i \<Longrightarrow> i \<le> length route \<Longrightarrow> slash \<notin> set (slice route ss i) \<Longrightarrow>
    scanLoop route i ss n =
      (if list_all concreteSegment (splitSlash (drop ss route))
       then Some (n + length (splitSlash (drop ss route))) else None)"
proof (induction route i ss n rule: scanLoop.induct)
  case (1 route i ss n)
  note step = scanLoop.simps [of route i ss n]
  consider (more) "i < length route" "route ! i \<noteq> slash"
    | (slash) "i < length route" "route ! i = slash" | (last) "i = length route"
    using 1(4) by linarith
  then show ?case
  proof cases
    case more
    then show ?thesis
      using 1(1,3-5) by (simp add: step codeIs_slash slice_snoc)
  next
    case slash
    have segs: "splitSlash (drop ss route) =
        slice route ss i # splitSlash (drop (Suc i) route)"
      using drop_slice [OF 1(3) slash(1)] slash 1(5) by simp
    have empty: "slice route ss i = [] \<longleftrightarrow> i = ss"
      using 1(3,4) length_slice [of i route ss] by (metis diff_is_0_eq le_antisym length_0_conv slice_empty)
    show ?thesis
      using 1(2-5) slash segs empty
      by (auto simp: step codeIs_slash containsAsterisk_slice concreteSegment_def)
  next
    case last
    then have segs: "splitSlash (drop ss route) = [slice route ss i]" using 1(5) by simp
    have empty: "slice route ss i = [] \<longleftrightarrow> i = ss"
      using 1(3,4) length_slice [of i route ss] by (metis diff_is_0_eq le_antisym length_0_conv slice_empty)
    show ?thesis
      using last segs empty containsAsterisk_slice [OF 1(4)]
      unfolding step
      by (simp add: scanLoop.simps [of route "Suc (length route)"] concreteSegment_def del: slice_end)
  qed
qed

lemma scanConcrete_segments:
  "start \<le> length route \<Longrightarrow> scanConcrete route start n \<longleftrightarrow>
    list_all concreteSegment (splitSlash (drop start route)) \<and>
    (n = 0 \<or> length (splitSlash (drop start route)) = n)"
  using scanLoop_segments [of start start route 0] by (simp add: scanConcrete_def)

text \<open>Patterns: whole-segment wildcards, and no two \<^verbatim>\<open>**\<close> in a row.\<close>

definition doubleStar :: jsstr where "doubleStar = [asterisk, asterisk]"
definition singleStar :: jsstr where "singleStar = [asterisk]"

fun patternSegments :: "bool \<Rightarrow> jsstr list \<Rightarrow> bool" where
  "patternSegments previous [] = True"
| "patternSegments previous (s # segs) =
    (s \<noteq> [] \<and> (asterisk \<in> set s \<longrightarrow> s = singleStar \<or> s = doubleStar) \<and>
     \<not> (s = doubleStar \<and> previous) \<and> patternSegments (s = doubleStar) segs)"

lemma slice_single: "i \<le> j \<Longrightarrow> j \<le> length s \<Longrightarrow>
    slice s i j = singleStar \<longleftrightarrow> j - i = 1 \<and> codeIs s i 42"
  by (auto simp: list_eq_iff_nth_eq singleStar_def codeIs_asterisk slice_def)

lemma slice_double: "i \<le> j \<Longrightarrow> j \<le> length s \<Longrightarrow>
    slice s i j = doubleStar \<longleftrightarrow> j - i = 2 \<and> codeIs s i 42 \<and> codeIs s (i + 1) 42"
  by (auto simp: list_eq_iff_nth_eq doubleStar_def codeIs_asterisk slice_def less_Suc_eq
      numeral_2_eq_2 nth_Cons')

lemma slice_empty_iff: "j \<le> length s \<Longrightarrow> slice s i j = [] \<longleftrightarrow> j - i = 0"
  using length_slice [of j s i] by (metis length_0_conv)

lemma patternLoop_boundary:
  assumes "ss \<le> i" and "i \<le> length route" and "i = length route \<or> codeIs route i 47"
  shows "patternLoop route i ss n d prev =
    (let s = slice route ss i in
     if s = [] \<or> (s \<noteq> singleStar \<and> s \<noteq> doubleStar \<and> asterisk \<in> set s) \<or> (s = doubleStar \<and> prev)
     then None
     else patternLoop route (i + 1) (i + 1) (n + 1) (if s = doubleStar then d + 1 else d)
       (s = doubleStar))"
  using assms
  unfolding patternLoop.simps [of route i ss n d prev] Let_def
    slice_single [OF assms(1,2)] slice_double [OF assms(1,2)] slice_empty_iff [OF assms(2)]
    containsAsterisk_slice [OF assms(2)]
  by auto

lemma patternLoop_segments:
  "ss \<le> i \<Longrightarrow> i \<le> length route \<Longrightarrow> slash \<notin> set (slice route ss i) \<Longrightarrow>
    patternLoop route i ss n d prev =
      (let segs = splitSlash (drop ss route) in
       if patternSegments prev segs then Some (n + length segs, d + count_list segs doubleStar)
       else None)"
proof (induction "length route - i" arbitrary: i ss n d prev rule: less_induct)
  case (less i ss n d prev)
  consider (more) "i < length route" "route ! i \<noteq> slash"
    | (slash) "i < length route" "route ! i = slash" | (last) "i = length route"
    using less.prems(2) by linarith
  then show ?case
  proof cases
    case more
    then show ?thesis
      using less.hyps [of "Suc i" ss] less.prems
      by (simp add: patternLoop.simps [of route i] codeIs_slash slice_snoc)
  next
    case slash
    have segs: "splitSlash (drop ss route) =
        slice route ss i # splitSlash (drop (Suc i) route)"
      using drop_slice [OF less.prems(1) slash(1)] slash less.prems(3) by simp
    have IH: "patternLoop route (Suc i) (Suc i) n' d' p' =
        (let segs = splitSlash (drop (Suc i) route) in
         if patternSegments p' segs then Some (n' + length segs, d' + count_list segs doubleStar)
         else None)" for n' d' p'
      using slash less.prems by (intro less.hyps) auto
    show ?thesis
      using patternLoop_boundary [OF less.prems(1,2)] slash segs
      by (auto simp: codeIs_slash Let_def IH)
  next
    case last
    then have segs: "splitSlash (drop ss route) = [slice route ss i]" using less.prems by simp
    have fin: "patternLoop route (Suc i) ss' n' d' p' = Some (n', d')" for ss' n' d' p'
      unfolding patternLoop.simps [of route "Suc i"] using last by simp
    show ?thesis
      using patternLoop_boundary [OF less.prems(1,2)] last segs
      by (auto simp: Let_def fin [unfolded last] simp del: slice_end)
  qed
qed

section \<open>The validators over segments\<close>

definition segmentsFrom :: "jsstr \<Rightarrow> nat \<Rightarrow> jsstr list" where
  "segmentsFrom route start = splitSlash (drop start route)"

lemma pathStart_le: "pathStart route scheme b = Some start \<Longrightarrow> start \<le> length route"
  by (auto simp: pathStart_def Let_def split: if_splits)

lemma isRouteShape_segments:
  "isRouteShape route scheme n b \<longleftrightarrow>
    (\<exists>start. pathStart route scheme b = Some start \<and>
       list_all concreteSegment (segmentsFrom route start) \<and>
       (n = 0 \<or> length (segmentsFrom route start) = n))"
  by (auto simp: isRouteShape_def segmentsFrom_def scanConcrete_segments pathStart_le
      split: option.splits)

lemma isConcreteRouteShape_eq: "isConcreteRouteShape route scheme = isRouteShape route scheme 0 False"
  by (simp add: isConcreteRouteShape_def isRouteShape_def)

lemma isRegistrationPatternShape_segments:
  "isRegistrationPatternShape route scheme n \<longleftrightarrow>
    (\<exists>start. pathStart route scheme False = Some start \<and> 0 \<le> n \<and>
       (let segs = segmentsFrom route start; doubles = count_list segs doubleStar in
        patternSegments False segs \<and>
        (n = 0 \<or> (if doubles = 0 then int (length segs) = n
                  else int (length segs) - int doubles \<le> n))))"
proof (cases "pathStart route scheme False")
  case (Some start)
  then show ?thesis
    using patternLoop_segments [of start start route 0 0 False] pathStart_le [OF Some]
    by (auto simp: isRegistrationPatternShape_def segmentsFrom_def Let_def)
qed (simp add: isRegistrationPatternShape_def)

section \<open>The matcher is the reference glob\<close>

text \<open>
  \<^verbatim>\<open>*\<close> stands for one segment, \<^verbatim>\<open>**\<close> for any number of them. The first argument is the pattern.
\<close>

fun globMatch :: "jsstr list \<Rightarrow> jsstr list \<Rightarrow> bool" where
  "globMatch [] rs = (rs = [])"
| "globMatch (p # ps) [] = (p = doubleStar \<and> globMatch ps [])"
| "globMatch (p # ps) (r # rs) =
    (if p = doubleStar then globMatch ps (r # rs) \<or> globMatch (p # ps) rs
     else (p = singleStar \<or> p = r) \<and> globMatch ps rs)"

lemma js_stars: "js ''*'' = singleStar" "js ''**'' = doubleStar"
  by (simp_all add: js_def singleStar_def doubleStar_def asterisk_def)

lemma star_neq [simp]: "singleStar \<noteq> doubleStar" "doubleStar \<noteq> singleStar"
  by (simp_all add: singleStar_def doubleStar_def)

lemma glob_double: "globMatch (doubleStar # ps) rs \<longleftrightarrow> (\<exists>k \<le> length rs. globMatch ps (drop k rs))"
proof (induction rs)
  case (Cons r rs)
  have "(\<exists>k \<le> length (r # rs). globMatch ps (drop k (r # rs))) \<longleftrightarrow>
      globMatch ps (r # rs) \<or> (\<exists>k \<le> length rs. globMatch ps (drop k rs))"
    unfolding less_Suc_eq_le [symmetric] by (simp add: Ex_less_Suc2)
  with Cons show ?case by simp
qed simp

text \<open>A run of segments that are no \<^verbatim>\<open>**\<close> consumes as many segments of the route.\<close>

lemma glob_run:
  "doubleStar \<notin> set qs \<Longrightarrow> globMatch (qs @ ps) rs \<Longrightarrow>
    length qs \<le> length rs \<and> globMatch ps (drop (length qs) rs)"
proof (induction qs arbitrary: rs)
  case (Cons q qs)
  then show ?case by (cases rs) auto
qed simp

definition globAt :: "jsstr list \<Rightarrow> jsstr list \<Rightarrow> nat \<Rightarrow> nat \<Rightarrow> bool" where
  "globAt ps rs pi ri = globMatch (drop pi ps) (drop ri rs)"

lemma globAt_step:
  "pi < length ps \<Longrightarrow> ri < length rs \<Longrightarrow> ps ! pi \<noteq> doubleStar \<Longrightarrow>
    globAt ps rs pi ri \<longleftrightarrow> (ps ! pi = singleStar \<or> ps ! pi = rs ! ri) \<and> globAt ps rs (Suc pi) (Suc ri)"
  by (simp add: globAt_def Cons_nth_drop_Suc [symmetric])

lemma globAt_double:
  "pi < length ps \<Longrightarrow> ps ! pi = doubleStar \<Longrightarrow> ri \<le> length rs \<Longrightarrow>
    globAt ps rs pi ri \<longleftrightarrow> (\<exists>k. ri \<le> k \<and> k \<le> length rs \<and> globAt ps rs (Suc pi) k)"
proof -
  assume d: "pi < length ps" "ps ! pi = doubleStar" and ri: "ri \<le> length rs"
  have "globAt ps rs pi ri \<longleftrightarrow> (\<exists>k \<le> length rs - ri. globAt ps rs (Suc pi) (ri + k))"
    using d by (simp add: globAt_def Cons_nth_drop_Suc [symmetric] glob_double add.commute)
  also have "\<dots> \<longleftrightarrow> (\<exists>k. ri \<le> k \<and> k \<le> length rs \<and> globAt ps rs (Suc pi) k)"
    using ri by (metis le_add1 le_add_diff_inverse nat_add_left_cancel_le)
  finally show ?thesis .
qed

lemma globAt_run:
  assumes "globAt ps rs a k" and "a \<le> b" and "b \<le> length ps" and "\<forall>i. a \<le> i \<longrightarrow> i < b \<longrightarrow> ps ! i \<noteq> doubleStar"
  shows "k + (b - a) \<le> max k (length rs) \<and> globAt ps rs b (k + (b - a))"
proof -
  have "drop a ps = take (b - a) (drop a ps) @ drop b ps"
    using assms(2) by (metis append_take_drop_id drop_drop le_add_diff_inverse2)
  moreover have "doubleStar \<notin> set (take (b - a) (drop a ps))"
    using assms(3,4) by (auto simp: in_set_conv_nth)
  moreover have "length (take (b - a) (drop a ps)) = b - a" using assms(3) by simp
  ultimately have "b - a \<le> length (drop k rs) \<and> globMatch (drop b ps) (drop (b - a) (drop k rs))"
    using glob_run assms(1) unfolding globAt_def by metis
  then show ?thesis by (auto simp: globAt_def add.commute)
qed

lemma globAt_end: "globAt ps rs pi (length rs) \<longleftrightarrow> (\<forall>p \<in> set (drop pi ps). p = doubleStar)"
proof -
  have "globMatch qs [] \<longleftrightarrow> (\<forall>p \<in> set qs. p = doubleStar)" for qs
    by (induction qs) auto
  then show ?thesis by (simp add: globAt_def)
qed

lemma skipDoubles_end:
  "i \<le> length ps \<Longrightarrow> skipDoubles ps i = length ps \<longleftrightarrow> (\<forall>p \<in> set (drop i ps). p = doubleStar)"
proof (induction ps i rule: skipDoubles.induct)
  case (1 ps i)
  show ?case
  proof (cases "i < length ps")
    case True
    then show ?thesis
      using 1 by (simp add: skipDoubles.simps [of ps i] segmentAt_def js_stars
          Cons_nth_drop_Suc [symmetric])
  next
    case False
    then show ?thesis using 1(2) unfolding skipDoubles.simps [of ps i] by (simp add: segmentAt_def)
  qed
qed

text \<open>
  What the loop maintains: since the last \<^verbatim>\<open>**\<close> at \<open>ld\<close> it has matched the pattern segments up to
  \<open>pi\<close>, none of them \<^verbatim>\<open>**\<close>, against as many segments of the route from \<open>lm\<close> on.
\<close>

definition matchInv :: "jsstr list \<Rightarrow> jsstr list \<Rightarrow> nat \<Rightarrow> nat \<Rightarrow> int \<Rightarrow> nat \<Rightarrow> bool" where
  "matchInv rs ps ri pi ld lm \<longleftrightarrow>
    ri \<le> length rs \<and> pi \<le> length ps \<and>
    (0 \<le> ld \<longrightarrow> ld < int pi \<and> pi - Suc (nat ld) = ri - lm \<and> lm \<le> ri \<and>
       (\<forall>i. Suc (nat ld) \<le> i \<longrightarrow> i < pi \<longrightarrow> ps ! i \<noteq> doubleStar))"

text \<open>What is still possible: the rest matches here, or after a longer run at the last \<^verbatim>\<open>**\<close>.\<close>

definition matchGoal :: "jsstr list \<Rightarrow> jsstr list \<Rightarrow> nat \<Rightarrow> nat \<Rightarrow> int \<Rightarrow> nat \<Rightarrow> bool" where
  "matchGoal rs ps ri pi ld lm \<longleftrightarrow> globAt ps rs pi ri \<or>
    (0 \<le> ld \<and> (\<exists>k. lm < k \<and> k \<le> length rs \<and> globAt ps rs (Suc (nat ld)) k))"

lemma longer_run:
  assumes "matchInv rs ps ri pi ld lm" and "0 \<le> ld" and "lm < k" and "k \<le> length rs"
    and "globAt ps rs (Suc (nat ld)) k"
  shows "\<exists>k'. ri < k' \<and> k' \<le> length rs \<and> globAt ps rs pi k'"
proof -
  have "k + (pi - Suc (nat ld)) \<le> max k (length rs) \<and> globAt ps rs pi (k + (pi - Suc (nat ld)))"
    using assms(1,2) by (intro globAt_run [OF assms(5)]) (auto simp: matchInv_def)
  with assms show ?thesis
    by (intro exI [of _ "k + (pi - Suc (nat ld))"]) (auto simp: matchInv_def max_def)
qed

definition matched :: "jsstr list \<Rightarrow> nat option \<Rightarrow> bool" where
  "matched ps res \<longleftrightarrow> (case res of None \<Rightarrow> False | Some i \<Rightarrow> skipDoubles ps i = length ps)"

lemma goal_exit:
  assumes "matchInv rs ps (length rs) pi ld lm"
  shows "matchGoal rs ps (length rs) pi ld lm \<longleftrightarrow> skipDoubles ps pi = length ps"
proof -
  have "matchGoal rs ps (length rs) pi ld lm \<longleftrightarrow> globAt ps rs pi (length rs)"
    using longer_run [OF assms] by (fastforce simp: matchGoal_def)
  then show ?thesis
    using assms by (simp add: globAt_end skipDoubles_end matchInv_def)
qed

lemma goal_single:
  assumes "matchInv rs ps ri pi ld lm" and "ri < length rs" and "pi < length ps"
    and "ps ! pi \<noteq> doubleStar" and "ps ! pi = singleStar \<or> ps ! pi = rs ! ri"
  shows "matchInv rs ps (Suc ri) (Suc pi) ld lm"
    and "matchGoal rs ps (Suc ri) (Suc pi) ld lm \<longleftrightarrow> matchGoal rs ps ri pi ld lm"
  using assms by (auto simp: matchInv_def matchGoal_def globAt_step less_Suc_eq)

lemma goal_double:
  assumes "matchInv rs ps ri pi ld lm" and "ri < length rs" and "pi < length ps"
    and "ps ! pi = doubleStar"
  shows "matchInv rs ps ri (Suc pi) (int pi) ri"
    and "matchGoal rs ps ri (Suc pi) (int pi) ri \<longleftrightarrow> matchGoal rs ps ri pi ld lm"
proof -
  show "matchInv rs ps ri (Suc pi) (int pi) ri" using assms by (auto simp: matchInv_def)
  have d: "globAt ps rs pi k \<longleftrightarrow> (\<exists>j. k \<le> j \<and> j \<le> length rs \<and> globAt ps rs (Suc pi) j)"
    if "k \<le> length rs" for k
    using globAt_double assms(3,4) that by blast
  have "matchGoal rs ps ri pi ld lm \<longleftrightarrow> globAt ps rs pi ri"
    using longer_run [OF assms(1)] d assms(2) unfolding matchGoal_def
    by (meson le_trans less_imp_le)
  also have "\<dots> \<longleftrightarrow> matchGoal rs ps ri (Suc pi) (int pi) ri"
    using d [of ri] assms(2) by (auto simp: matchGoal_def le_less)
  finally show "matchGoal rs ps ri (Suc pi) (int pi) ri \<longleftrightarrow> matchGoal rs ps ri pi ld lm" ..
qed

lemma goal_mismatch:
  assumes "matchInv rs ps ri pi ld lm" and "ri < length rs"
    and "pi < length ps \<longrightarrow> ps ! pi \<noteq> doubleStar \<and> ps ! pi \<noteq> singleStar \<and> ps ! pi \<noteq> rs ! ri"
  shows "\<not> globAt ps rs pi ri"
proof (cases "pi < length ps")
  case True
  then show ?thesis using assms by (simp add: globAt_step)
next
  case False
  then show ?thesis using assms(1,2) by (simp add: globAt_def)
qed

lemma goal_back:
  assumes "matchInv rs ps ri pi ld lm" and "ri < length rs" and "\<not> globAt ps rs pi ri" and "0 \<le> ld"
  shows "matchInv rs ps (Suc lm) (Suc (nat ld)) ld (Suc lm)"
    and "matchGoal rs ps (Suc lm) (Suc (nat ld)) ld (Suc lm) \<longleftrightarrow> matchGoal rs ps ri pi ld lm"
proof -
  show "matchInv rs ps (Suc lm) (Suc (nat ld)) ld (Suc lm)" using assms by (auto simp: matchInv_def)
  have "Suc lm \<le> length rs" using assms by (auto simp: matchInv_def)
  then show "matchGoal rs ps (Suc lm) (Suc (nat ld)) ld (Suc lm) \<longleftrightarrow> matchGoal rs ps ri pi ld lm"
    using assms(3,4) unfolding matchGoal_def by (metis Suc_leI Suc_lessD le_less lessI)
qed

lemma matchLoop_matched:
  "matchInv rs ps ri pi ld lm \<Longrightarrow> doubleStar \<notin> set rs \<Longrightarrow>
    matched ps (matchLoop rs ps ri pi ld lm) \<longleftrightarrow> matchGoal rs ps ri pi ld lm"
proof (induction rs ps ri pi ld lm rule: matchLoop.induct)
  case (1 rs ps ri pi ld lm)
  note inv = 1(4) and rs = 1(5)
  note step = matchLoop.simps [of rs ps ri pi ld lm]
  show ?case
  proof (cases "ri < length rs")
    case False
    then have "ri = length rs" using inv by (simp add: matchInv_def)
    then show ?thesis using inv goal_exit unfolding step by (simp add: matched_def)
  next
    case ri: True
    then have route: "rs ! ri \<noteq> doubleStar" using rs by (metis nth_mem)
    consider (single) "pi < length ps" "ps ! pi = singleStar \<or> ps ! pi = rs ! ri"
      | (double) "pi < length ps" "ps ! pi = doubleStar"
      | (mismatch) "pi < length ps \<longrightarrow>
          ps ! pi \<noteq> doubleStar \<and> ps ! pi \<noteq> singleStar \<and> ps ! pi \<noteq> rs ! ri"
      by blast
    then show ?thesis
    proof cases
      case single
      then have "ps ! pi \<noteq> doubleStar" using route by auto
      note g = goal_single [OF inv ri single(1) this single(2)]
      have "matchLoop rs ps ri pi ld lm = matchLoop rs ps (Suc ri) (Suc pi) ld lm"
        using single ri by (auto simp: step segmentAt_def js_stars)
      then show ?thesis
        using 1(1) single ri g rs by (auto simp: segmentAt_def js_stars)
    next
      case double
      note g = goal_double [OF inv ri double]
      have "matchLoop rs ps ri pi ld lm = matchLoop rs ps ri (Suc pi) (int pi) ri"
        using double ri route by (auto simp: step segmentAt_def js_stars)
      then show ?thesis
        using 1(2) double ri g rs route by (auto simp: segmentAt_def js_stars)
    next
      case mismatch
      note bad = goal_mismatch [OF inv ri mismatch]
      have no: "segmentAt ps pi \<noteq> Some (js ''*'')" "segmentAt ps pi \<noteq> Some (rs ! ri)"
          "segmentAt ps pi \<noteq> Some (js ''**'')"
        using mismatch by (auto simp: segmentAt_def js_stars)
      show ?thesis
      proof (cases "ld < 0")
        case True
        then show ?thesis using ri no bad by (simp add: step matched_def matchGoal_def)
      next
        case False
        note g = goal_back [OF inv ri bad]
        have "matchLoop rs ps ri pi ld lm =
            matchLoop rs ps (Suc lm) (Suc (nat ld)) ld (Suc lm)"
          using ri no False by (simp add: step)
        then show ?thesis
          using 1(3) [OF _ refl] ri no False g rs by simp
      qed
    qed
  qed
qed

lemma matchSegments_glob: "doubleStar \<notin> set rs \<Longrightarrow> matchSegments rs ps \<longleftrightarrow> globMatch ps rs"
  using matchLoop_matched [of rs ps 0 0 "-1" 0]
  by (simp add: matchSegments_def matched_def matchInv_def matchGoal_def globAt_def
      split: option.splits)


text \<open>A concrete route has no wildcard segment, so the matcher decides the glob relation.\<close>

lemma concrete_no_double: "list_all concreteSegment rs \<Longrightarrow> doubleStar \<notin> set rs"
  by (auto simp: list_all_iff concreteSegment_def doubleStar_def)

lemma routeMatchesPattern_glob:
  assumes "routeSegmentsOf route = Some rs" and "routeSegmentsOf pat = Some ps"
    and "list_all concreteSegment rs"
  shows "routeMatchesPattern route pat \<longleftrightarrow>
    (\<exists>i. indexOf route (js ''://'') = Some i \<and> indexOf pat (js ''://'') \<noteq> None \<and>
      take i route = take (the (indexOf pat (js ''://''))) pat) \<and> globMatch ps rs"
  using assms matchSegments_glob [OF concrete_no_double [OF assms(3)]]
  by (auto simp: routeMatchesPattern_def routeSegmentsOf_def split: option.splits if_splits)

text \<open>Evaluating the predicates on literal routes.\<close>

lemma wireSize_short: "4 * length s \<le> maxWireBytes \<Longrightarrow> wireSizeIsValid s"
  using length_utf8Encode [of s] by (simp add: wireSizeIsValid_eq)

lemmas route_eval = js_def pathStart_def startsWith_def codeIs_def segmentsFrom_def wireSize_short
  maxWireBytes_def slash_def asterisk_def Let_def concreteSegment_def includesStr_def

section \<open>Properties\<close>

text \<open>
  C38: the backtracking matcher decides glob matching: on a concrete route it answers yes exactly when
  the schemes agree and the segments match, a single star standing for one segment and a double one
  for any number of them.
\<close>

theorem matcher_decides_globs:
  assumes "routeSegmentsOf route = Some rs" and "routeSegmentsOf pat = Some ps"
    and "list_all concreteSegment rs"
  shows "routeMatchesPattern route pat \<longleftrightarrow>
    (\<exists>i. indexOf route (js ''://'') = Some i \<and> indexOf pat (js ''://'') \<noteq> None \<and>
      take i route = take (the (indexOf pat (js ''://''))) pat) \<and> globMatch ps rs"
  using assms by (rule routeMatchesPattern_glob)

lemma matcher_decides_globs_witness:
  "routeMatchesPattern (js ''kv://a/b/c'') (js ''kv://a/**'') \<and>
    globMatch [js ''a'', js ''**''] [js ''a'', js ''b'', js ''c'']"
proof -
  have m: "routeMatchesPattern (js ''kv://a/b/c'') (js ''kv://a/**'')" by code_simp
  have "routeSegmentsOf (js ''kv://a/b/c'') = Some [js ''a'', js ''b'', js ''c'']"
    "routeSegmentsOf (js ''kv://a/**'') = Some [js ''a'', js ''**'']"
    "list_all concreteSegment [js ''a'', js ''b'', js ''c'']"
    by code_simp+
  from matcher_decides_globs [OF this] m show ?thesis by blast
qed

text \<open>
  The one-pass validator of registration patterns accepts exactly the paths whose segments are
  non-empty, carry a star only as a whole segment and never two double stars in a row, with the
  number of segments the domain asks for.
\<close>

theorem registration_pattern_grammar:
  "isRegistrationPatternShape route scheme n \<longleftrightarrow>
    (\<exists>start. pathStart route scheme False = Some start \<and> 0 \<le> n \<and>
       (let segs = segmentsFrom route start; doubles = count_list segs doubleStar in
        patternSegments False segs \<and>
        (n = 0 \<or> (if doubles = 0 then int (length segs) = n
                  else int (length segs) - int doubles \<le> n))))"
  by (rule isRegistrationPatternShape_segments)

text \<open>
  The size check counts UTF-8 bytes without encoding: it accepts exactly the strings whose
  encoding fits the limit of a route.
\<close>

theorem wire_size_counts_utf8: "wireSizeIsValid s \<longleftrightarrow> length (utf8Encode s) \<le> maxWireBytes"
  by (rule wireSizeIsValid_eq)

text \<open>
  The classifier of stream selectors, unlike the registration grammar, accepts an empty realm in
  front of a double star.
\<close>

theorem empty_realm_classified:
  "classifyStreamSelectorScope (js ''stream:///**'') = Some ScopeRealm \<and>
    \<not> isRegistrationPatternShape (js ''stream:///**'') (js ''stream'') 3"
  using length_utf8Encode [of "js ''stream:///**''"]
  by (simp add: classifyStreamSelectorScope_def isRegistrationPatternShape_segments route_eval)

end
