(* ===== verification/QueueCodec.thy ===== *)
theory QueueCodec
  imports Response Routes
begin

text \<open>
  The queue codec of \<^verbatim>\<open>src/domains/queue/codec.ts\<close>. A reserve response names the concrete route of
  every leased item only when the selector was a wildcard; the decoder checks each route it
  accepts against the selector.
\<close>

declare routePayload_eq [layout_simps] Let_def [layout_simps] blob_def [layout_simps]

section \<open>Requests\<close>

definition writeDelay :: "jsnum \<Rightarrow> cursor \<Rightarrow> cursor result" where
  "writeDelay v c = (if jsPositive v then putU64Number v (putU8 1 c) else Inr (putU8 0 c))"

definition queueEncodeEnqueue :: "jsstr \<Rightarrow> bytes \<Rightarrow> jsnum option \<Rightarrow> bytes result" where
  "queueEncodeEnqueue route body delay =
    andThen (routePayload route) (\<lambda>routeBytes.
      let delaySeconds = (case delay of Some d \<Rightarrow> d | None \<Rightarrow> JInt 0);
          c = alloc (length routeBytes + 4 + length body + 1 + (if jsPositive delaySeconds then 8 else 0))
      in
      andThen (putBytes routeBytes c) (\<lambda>c.
      andThen (putBytes body (putU32 (int (length body)) c)) (\<lambda>c.
      andThen (writeDelay delaySeconds c) (\<lambda>c. Inr (finish c)))))"

definition queueEncodeReserve ::
  "jsstr \<Rightarrow> jsnum \<Rightarrow> int option \<Rightarrow> jsnum option \<Rightarrow> bytes result" where
  "queueEncodeReserve route leaseSeconds batchSize waitSeconds =
    andThen (routePayload route) (\<lambda>routeBytes.
      let batch = (case batchSize of Some n \<Rightarrow> n | None \<Rightarrow> 0);
          wait = (case waitSeconds of Some n \<Rightarrow> n | None \<Rightarrow> JInt 0);
          c = alloc (length routeBytes + 8 + 1 + (if batch > 0 then 4 else 0) + 1
                + (if jsPositive wait then 8 else 0))
      in
      andThen (putBytes routeBytes c) (\<lambda>c.
      andThen (putU64Number leaseSeconds c) (\<lambda>c.
      let c = (if batch > 0 then putU32 batch (putU8 1 c) else putU8 0 c) in
      andThen (writeDelay wait c) (\<lambda>c. Inr (finish c)))))"

definition queueEncodeComplete :: "jsstr \<Rightarrow> int \<Rightarrow> int \<Rightarrow> bytes result" where
  "queueEncodeComplete route messageId leaseToken =
    andThen (routePayload route) (\<lambda>routeBytes.
      andThen (putBytes routeBytes (alloc (length routeBytes + 16))) (\<lambda>c.
      Inr (finish (putU64 leaseToken (putU64 messageId c)))))"

definition queueEncodeExtend :: "jsstr \<Rightarrow> int \<Rightarrow> int \<Rightarrow> jsnum \<Rightarrow> bytes result" where
  "queueEncodeExtend route messageId leaseToken leaseSeconds =
    andThen (routePayload route) (\<lambda>routeBytes.
      andThen (putBytes routeBytes (alloc (length routeBytes + 24))) (\<lambda>c.
      andThen (putU64Number leaseSeconds (putU64 leaseToken (putU64 messageId c))) (\<lambda>c.
      Inr (finish c))))"

definition queueEncodeSubscribe :: "jsstr \<Rightarrow> bytes result" where
  "queueEncodeSubscribe pat = routePayload pat"

definition queueEncodeUnsubscribe :: "jsstr \<Rightarrow> bytes result" where
  "queueEncodeUnsubscribe pat = routePayload pat"

section \<open>Responses and notifications\<close>

text \<open>\<^verbatim>\<open>parseQueueResponse\<close> and \<^verbatim>\<open>parsePlainQueueResponse\<close> parse the same envelope.\<close>

definition parseQueueResponse :: "(reader \<Rightarrow> 'a result) \<Rightarrow> bytes \<Rightarrow> 'a reply result" where
  "parseQueueResponse read = readReply flagRefusal (\<lambda>d. read (createBufferReader d))"

definition queueDecodeEnqueueResponse :: "bytes \<Rightarrow> nat option reply result" where
  "queueDecodeEnqueueResponse = parseQueueResponse (\<lambda>reader.
     if remainingBytes reader \<ge> 8
     then andThen (readU64BE reader) (\<lambda>(messageId, _). Inr (Some messageId))
     else Inr None)"

record leasedItem =
  itemRoute :: jsstr
  itemId :: nat
  itemToken :: nat
  itemBody :: bytes

text \<open>One turn of the loop over the leases. The route is \<^verbatim>\<open>undefined\<close> when no selector was given.\<close>

definition readLease :: "jsstr option \<Rightarrow> reader \<Rightarrow> (leasedItem \<times> reader) result" where
  "readLease selector reader =
    (let wildcard = (case selector of Some s \<Rightarrow> includesStr s (js ''*'') | None \<Rightarrow> False) in
     andThen (if wildcard then andThen (readRoute reader) (\<lambda>(route, r). Inr (Some route, r))
              else Inr (selector, reader)) (\<lambda>(routeOpt, reader).
     case routeOpt of
       None \<Rightarrow> Inl (QueueError ''RESERVE_INVALID_RESPONSE'' None)
     | Some route \<Rightarrow>
         if route = [] then Inl (QueueError ''RESERVE_INVALID_RESPONSE'' None)
         else if \<not> isRouteShape route (js ''queue'') 3 False
           then Inl (QueueError ''RESERVE_INVALID_RESPONSE'' None)
         else if wildcard \<and> (case selector of Some s \<Rightarrow> s \<noteq> [] \<and> \<not> routeMatchesPattern route s
                                             | None \<Rightarrow> False)
           then Inl (QueueError ''RESERVE_INVALID_RESPONSE'' None)
         else
           andThen (readU64BE reader) (\<lambda>(ident, reader).
           andThen (readU64BE reader) (\<lambda>(token, reader).
           andThen (readU32BE reader) (\<lambda>(bodyLen, reader).
           andThen (readBytes bodyLen reader) (\<lambda>(body, reader).
           Inr (\<lparr>itemRoute = route, itemId = ident, itemToken = token, itemBody = body\<rparr>,
                reader)))))))"

definition queueDecodeReserveResponse ::
  "jsstr option \<Rightarrow> bytes \<Rightarrow> leasedItem list reply result" where
  "queueDecodeReserveResponse selector = parseQueueResponse (\<lambda>reader.
     if isEOF reader \<or> remainingBytes reader < 4 then Inr []
     else
       andThen (readU32BE reader) (\<lambda>(leaseCount, reader).
       andThen (readTimes leaseCount (readLease selector) reader) (\<lambda>(items, reader).
       if \<not> isEOF reader then Inl (QueueError ''RESERVE_INVALID_RESPONSE'' None)
       else Inr items)))"

definition queueDecodeCompleteResponse :: "bytes \<Rightarrow> unit reply result" where
  "queueDecodeCompleteResponse = parseQueueResponse (\<lambda>reader.
     if \<not> isEOF reader then Inl (QueueError ''INVALID_RESPONSE'' None) else Inr ())"

definition queueDecodeExtendResponse :: "bytes \<Rightarrow> unit reply result" where
  "queueDecodeExtendResponse = parseQueueResponse (\<lambda>reader.
     if \<not> isEOF reader then Inl (QueueError ''INVALID_RESPONSE'' None) else Inr ())"

definition queueDecodeSubscribeResponse :: "bytes \<Rightarrow> nat reply result" where
  "queueDecodeSubscribeResponse = parseQueueResponse (\<lambda>reader.
     andThen (readU8 reader) (\<lambda>(hasSubId, reader).
     if hasSubId \<noteq> 1 then Inl RangeError
     else
       andThen (readU64BE reader) (\<lambda>(subId, reader).
       if \<not> isEOF reader then Inl RangeError else Inr subId)))"

definition queueDecodeUnsubscribeResponse :: "bytes \<Rightarrow> unit reply result" where
  "queueDecodeUnsubscribeResponse = parseQueueResponse (\<lambda>reader. Inr ())"

record queueNotification =
  qnSubId :: nat
  qnRoute :: jsstr
  qnReady :: nat
  qnDelayed :: nat
  qnInflight :: nat

definition queueDecodeNotification :: "bytes \<Rightarrow> queueNotification result" where
  "queueDecodeNotification pl =
    andThen (readU64BE (createBufferReader pl)) (\<lambda>(subId, reader).
    andThen (readRoute reader) (\<lambda>(route, reader).
    andThen (readU64BE reader) (\<lambda>(ready, reader).
    andThen (readU64BE reader) (\<lambda>(delayed, reader).
    andThen (readU64BE reader) (\<lambda>(inflight, reader).
    if \<not> isEOF reader then Inl RangeError
    else Inr \<lparr>qnSubId = subId, qnRoute = route, qnReady = ready, qnDelayed = delayed,
              qnInflight = inflight\<rparr>)))))"

section \<open>Layout of the requests\<close>

text \<open>A delay of at most zero is not sent; a positive one has to be a safe integer.\<close>

definition delayField :: "jsnum \<Rightarrow> bytes" where
  "delayField v = (if jsPositive v then 1 # be 8 (jsInt v) else [0])"

definition delayOk :: "jsnum \<Rightarrow> bool" where
  "delayOk v \<longleftrightarrow> (jsPositive v \<longrightarrow> isSafeInteger v)"

lemma length_delayField [simp]: "length (delayField v) = (if jsPositive v then 9 else 1)"
  by (simp add: delayField_def)

lemma writeDelay_Out [layout_simps]:
  assumes "delayOk v" and "length (delayField v) \<le> k"
  shows "writeDelay v (Out d k) = Inr (Out (d @ delayField v) (k - length (delayField v)))"
proof (cases v)
  case (JInt i)
  with assms show ?thesis
    by (auto simp: writeDelay_def layout_simps delayField_def delayOk_def isSafeInteger_def jsInt_def)
next
  case (JNonInt p)
  with assms show ?thesis
    by (auto simp: writeDelay_def layout_simps delayField_def delayOk_def isSafeInteger_def)
qed

lemma writeDelay_invalid [layout_simps]: "\<not> delayOk v \<Longrightarrow> writeDelay v c = Inl RangeError"
  by (simp add: writeDelay_def delayOk_def putU64Number_invalid)

lemma delayOk_zero [simp]: "delayOk (JInt 0)"
  by (simp add: delayOk_def)

lemma queueEncodeEnqueue_layout:
  "queueEncodeEnqueue route body delay =
    (let d = (case delay of Some d \<Rightarrow> d | None \<Rightarrow> JInt 0) in
     if delayOk d then Inr (strField route @ blob body @ delayField d) else Inl RangeError)"
  by (auto simp: queueEncodeEnqueue_def layout_simps)

lemma safe_nonneg:
  "isSafeInteger v \<and> 0 \<le> jsInt v \<longleftrightarrow> (\<exists>i. v = JInt i \<and> 0 \<le> i \<and> i \<le> maxSafeInteger)"
  by (cases v) (auto simp: isSafeInteger_def jsInt_def)

definition batchField :: "int \<Rightarrow> bytes" where
  "batchField n = (if n > 0 then 1 # be 4 n else [0])"

lemma queueEncodeReserve_layout:
  "queueEncodeReserve route leaseSeconds batchSize waitSeconds =
    (let b = (case batchSize of Some n \<Rightarrow> n | None \<Rightarrow> 0);
         w = (case waitSeconds of Some n \<Rightarrow> n | None \<Rightarrow> JInt 0) in
     if isSafeInteger leaseSeconds \<and> 0 \<le> jsInt leaseSeconds \<and> delayOk w
     then Inr (strField route @ be 8 (jsInt leaseSeconds) @ batchField b @ delayField w)
     else Inl RangeError)"
proof (cases "isSafeInteger leaseSeconds \<and> 0 \<le> jsInt leaseSeconds")
  case True
  then obtain i where i: "leaseSeconds = JInt i" "0 \<le> i" "i \<le> maxSafeInteger"
    by (auto simp: safe_nonneg)
  let ?w = "case waitSeconds of Some n \<Rightarrow> n | None \<Rightarrow> JInt 0"
  let ?b = "case batchSize of Some n \<Rightarrow> n | None \<Rightarrow> 0"
  show ?thesis
  proof (cases "delayOk ?w")
    case True
    with i show ?thesis
      by (cases "?b > 0"; cases "jsPositive ?w")
        (simp_all add: queueEncodeReserve_def layout_simps batchField_def isSafeInteger_def jsInt_def)
  next
    case False
    with i show ?thesis
      by (simp add: queueEncodeReserve_def layout_simps writeDelay_invalid [OF False])
  qed
next
  case False
  then show ?thesis
    by (auto simp: queueEncodeReserve_def layout_simps putU64Number_invalid)
qed

lemma queueEncodeComplete_layout:
  "queueEncodeComplete route m t = Inr (strField route @ be 8 m @ be 8 t)"
  by (simp add: queueEncodeComplete_def layout_simps)

lemma queueEncodeExtend_layout:
  "queueEncodeExtend route m t s =
    (if isSafeInteger s \<and> 0 \<le> jsInt s then Inr (strField route @ be 8 m @ be 8 t @ be 8 (jsInt s))
     else Inl RangeError)"
proof (cases "isSafeInteger s \<and> 0 \<le> jsInt s")
  case True
  then obtain i where i: "s = JInt i" "0 \<le> i" "i \<le> maxSafeInteger"
    by (auto simp: safe_nonneg)
  then show ?thesis
    by (simp add: queueEncodeExtend_def layout_simps isSafeInteger_def jsInt_def)
next
  case False
  then show ?thesis
    by (auto simp: queueEncodeExtend_def layout_simps putU64Number_invalid)
qed

section \<open>Decoding what the broker writes\<close>

text \<open>The bytes of a lease: its route is present when the selector is a wildcard.\<close>

definition wildSelector :: "jsstr \<Rightarrow> bool" where
  "wildSelector s = includesStr s (js ''*'')"

definition leaseBytes :: "jsstr \<Rightarrow> leasedItem \<Rightarrow> bytes" where
  "leaseBytes s it = (if wildSelector s then strField (itemRoute it) else []) @
     be 8 (int (itemId it)) @ be 8 (int (itemToken it)) @ blob (itemBody it)"

text \<open>What an item may be under a selector.\<close>

definition leaseOk :: "jsstr \<Rightarrow> leasedItem \<Rightarrow> bool" where
  "leaseOk s it \<longleftrightarrow> isRouteShape (itemRoute it) (js ''queue'') 3 False \<and>
     (if wildSelector s then routeMatchesPattern (itemRoute it) s \<and> wireString (itemRoute it)
      else itemRoute it = s) \<and>
     itemId it < 18446744073709551616 \<and> itemToken it < 18446744073709551616 \<and> wireBlob (itemBody it)"

lemma isRouteShape_ne: "isRouteShape route scheme n False \<Longrightarrow> route \<noteq> []"
  by (auto simp: isRouteShape_def pathStart_def split: option.splits if_splits)

text \<open>The body's length and bytes are read as one length-prefixed field.\<close>

lemma readLease_blob:
  "readLease selector reader =
    (let wildcard = (case selector of Some s \<Rightarrow> wildSelector s | None \<Rightarrow> False) in
     andThen (if wildcard then andThen (readRoute reader) (\<lambda>(route, r). Inr (Some route, r))
              else Inr (selector, reader)) (\<lambda>(routeOpt, reader).
     case routeOpt of
       None \<Rightarrow> Inl (QueueError ''RESERVE_INVALID_RESPONSE'' None)
     | Some route \<Rightarrow>
         if \<not> isRouteShape route (js ''queue'') 3 False \<or>
            wildcard \<and> \<not> routeMatchesPattern route (the selector)
         then Inl (QueueError ''RESERVE_INVALID_RESPONSE'' None)
         else
           andThen (readU64BE reader) (\<lambda>(ident, reader).
           andThen (readU64BE reader) (\<lambda>(token, reader).
           andThen (readBlob reader) (\<lambda>(body, reader).
           Inr (\<lparr>itemRoute = route, itemId = ident, itemToken = token, itemBody = body\<rparr>,
                reader))))))"
proof -
  have b: "andThen (readBlob r) k = andThen (readU32BE r) (\<lambda>(n, r). andThen (readBytes n r) k)"
    for r and k :: "bytes \<times> reader \<Rightarrow> 'b result"
    by (cases "readU32BE r") (auto simp: readBlob_def)
  have e: "\<not> includesStr [] (js ''*'')" by (simp add: includesStr_def js_def)
  show ?thesis
    unfolding readLease_def Let_def b wildSelector_def
    by (rule andThen_cong)
      (auto split: option.splits dest: isRouteShape_ne simp: e)
qed

lemma readLease_bytes:
  assumes "leaseOk s it"
  shows "readLease (Some s) (In p (leaseBytes s it @ t)) = Inr (it, In (p @ leaseBytes s it) t)"
  using assms
  by (cases it; cases "wildSelector s")
    (simp_all add: readLease_blob leaseOk_def leaseBytes_def reader_simps Let_def)

lemma readLease_sound:
  assumes "readLease (Some s) r = Inr (it, r')"
  shows "isRouteShape (itemRoute it) (js ''queue'') 3 False \<and>
    (if wildSelector s then routeMatchesPattern (itemRoute it) s else itemRoute it = s)"
  using assms
  by (auto simp: readLease_blob Let_def elim!: andThen_InrE split: if_splits option.splits)

lemma readLease_stays:
  "validReader r \<Longrightarrow> readLease sel r = Inr (v, r') \<Longrightarrow> stays r r'"
  unfolding readLease_blob Let_def
  by (auto elim!: andThen_InrE split: if_splits option.splits
      dest!: stays_dests) (meson stays_trans)+

interpretation lease: wire_field "readLease (Some s)" "leaseBytes s" "leaseOk s" for s
  by unfold_locales (auto intro: readLease_stays readLease_bytes)

lemma queueDecodeReserve_items:
  assumes "list_all (leaseOk s) items" and "length items < 4294967296"
  shows "queueDecodeReserveResponse (Some s)
      (0 # be 4 (int (length items)) @ concat (map (leaseBytes s) items)) = Inr (Accepted items)"
  using assms lease.times_put [OF assms(1), of "be 4 (int (length items))" "[]"]
  by (simp add: queueDecodeReserveResponse_def parseQueueResponse_def reader_simps)

lemma readTimes_all:
  "readTimes n get r = Inr (xs, r') \<Longrightarrow> (\<And>r v r'. get r = Inr (v, r') \<Longrightarrow> P v) \<Longrightarrow> list_all P xs"
  by (induction n arbitrary: r xs) (auto elim!: andThen_InrE)

text \<open>Every item a reserve response yields is a route the selector admits.\<close>

lemma queueDecodeReserve_sound:
  assumes "queueDecodeReserveResponse (Some s) pl = Inr (Accepted items)"
  shows "list_all (\<lambda>it. isRouteShape (itemRoute it) (js ''queue'') 3 False \<and>
    (if wildSelector s then routeMatchesPattern (itemRoute it) s else itemRoute it = s)) items"
proof -
  obtain d where d: "(if isEOF (createBufferReader d) \<or> remainingBytes (createBufferReader d) < 4
       then Inr []
     else
       andThen (readU32BE (createBufferReader d)) (\<lambda>(leaseCount, reader).
       andThen (readTimes leaseCount (readLease (Some s)) reader) (\<lambda>(items, reader).
       if \<not> isEOF reader then Inl (QueueError ''RESERVE_INVALID_RESPONSE'' None)
       else Inr items))) = Inr items"
    using assms
    by (auto simp: queueDecodeReserveResponse_def parseQueueResponse_def readReply_Accepted)
  show ?thesis
  proof (cases "items = []")
    case False
    then obtain n r r' where "readTimes n (readLease (Some s)) r = Inr (items, r')"
      using d by (auto elim!: andThen_InrE split: if_splits)
    then show ?thesis by (rule readTimes_all) (rule readLease_sound)
  qed simp
qed

lemma queueDecodeSubscribe_id:
  "i < 18446744073709551616 \<Longrightarrow>
    queueDecodeSubscribeResponse (0 # 1 # be 8 (int i)) = Inr (Accepted i)"
  by (simp add: queueDecodeSubscribeResponse_def parseQueueResponse_def reader_simps)

lemma queueDecodeNotification_bytes:
  assumes "s < 18446744073709551616" "a < 18446744073709551616" "b < 18446744073709551616"
    "c < 18446744073709551616" and "wireString route"
  shows "queueDecodeNotification
      (be 8 (int s) @ strField route @ be 8 (int a) @ be 8 (int b) @ be 8 (int c)) =
    Inr \<lparr>qnSubId = s, qnRoute = route, qnReady = a, qnDelayed = b, qnInflight = c\<rparr>"
  using assms by (simp add: queueDecodeNotification_def reader_simps)

section \<open>Properties\<close>

text \<open>
  Whatever bytes the server sends, an accepted reservation only holds items whose route is a
  concrete queue route that the requested selector names or matches.
\<close>

theorem reserved_items_match_selector:
  assumes "queueDecodeReserveResponse (Some s) pl = Inr (Accepted items)"
  shows "list_all (\<lambda>it. isRouteShape (itemRoute it) (js ''queue'') 3 False \<and>
    (if wildSelector s then routeMatchesPattern (itemRoute it) s else itemRoute it = s)) items"
  using assms by (rule queueDecodeReserve_sound)

lemma reserved_items_match_selector_witness:
  "isRouteShape (js ''queue://a/b/c'') (js ''queue'') 3 False"
proof -
  let ?s = "js ''queue://a/b/c''"
  let ?it = "\<lparr>itemRoute = ?s, itemId = 1, itemToken = 2, itemBody = [3]\<rparr>"
  have "isRouteShape ?s (js ''queue'') 3 False" "\<not> wildSelector ?s"
    by (simp_all add: isRouteShape_segments wildSelector_def route_eval)
  then have "list_all (leaseOk ?s) [?it]" by (simp add: leaseOk_def wireBlob_def)
  from reserved_items_match_selector [OF queueDecodeReserve_items [OF this]] show ?thesis by simp
qed

end
