(* ===== verification/LeaseCodec.thy ===== *)
theory LeaseCodec
  imports Response
begin

text \<open>
  The lease codec of \<^verbatim>\<open>src/domains/lease/codec.ts\<close> and the notice codec of
  \<^verbatim>\<open>src/domains/notice/codec.ts\<close>. Every lease request carries an empty client identifier behind
  the route; a refused lease operation is thrown with the broker's code, class and effect, which
  the retry classification reads.
\<close>

declare routePayload_eq [layout_simps] Let_def [layout_simps] blob_def [layout_simps]

section \<open>Lease requests\<close>

definition u32Max :: int where
  "u32Max = 0xffffffff"

definition assertU32 :: "jsnum \<Rightarrow> unit result" where
  "assertU32 v =
    (if \<not> isInteger v \<or> jsInt v < 0 \<or> jsInt v > u32Max
     then Inl (LeaseError ''INVALID_LIST_ARGUMENT'' None) else Inr ())"

definition leaseEncodeAcquire :: "jsstr \<Rightarrow> jsnum \<Rightarrow> int \<Rightarrow> bytes result" where
  "leaseEncodeAcquire route ttlSecs waitSeconds =
    andThen (routePayload route) (\<lambda>routeBytes.
    andThen (routePayload []) (\<lambda>emptyClientIdBytes.
      let c = alloc (length routeBytes + length emptyClientIdBytes + 12) in
      andThen (putBytes routeBytes c) (\<lambda>c.
      andThen (putBytes emptyClientIdBytes c) (\<lambda>c.
      andThen (putU64Number ttlSecs c) (\<lambda>c.
      Inr (finish (putU32 waitSeconds c)))))))"

definition leaseEncodeExtend :: "jsstr \<Rightarrow> int \<Rightarrow> jsnum \<Rightarrow> bytes result" where
  "leaseEncodeExtend route token ttlSecs =
    andThen (routePayload route) (\<lambda>routeBytes.
    andThen (routePayload []) (\<lambda>emptyClientIdBytes.
      let c = alloc (length routeBytes + length emptyClientIdBytes + 16) in
      andThen (putBytes routeBytes c) (\<lambda>c.
      andThen (putBytes emptyClientIdBytes c) (\<lambda>c.
      andThen (putU64Number ttlSecs (putU64 token c)) (\<lambda>c.
      Inr (finish c))))))"

definition leaseEncodeRenew :: "jsstr \<Rightarrow> int \<Rightarrow> jsnum \<Rightarrow> bytes result" where
  "leaseEncodeRenew route token ttlSecs = leaseEncodeExtend route token ttlSecs"

definition leaseEncodeRelease :: "jsstr \<Rightarrow> int \<Rightarrow> bytes result" where
  "leaseEncodeRelease route token =
    andThen (routePayload route) (\<lambda>routeBytes.
    andThen (routePayload []) (\<lambda>emptyClientIdBytes.
      let c = alloc (length routeBytes + length emptyClientIdBytes + 8) in
      andThen (putBytes routeBytes c) (\<lambda>c.
      andThen (putBytes emptyClientIdBytes c) (\<lambda>c.
      Inr (finish (putU64 token c))))))"

text \<open>QUERY, SUBSCRIBE and UNSUBSCRIBE: the route alone.\<close>

definition leaseEncodeQuery :: "jsstr \<Rightarrow> bytes result" where
  "leaseEncodeQuery route = routePayload route"

definition leaseEncodeSubscribe :: "jsstr \<Rightarrow> bytes result" where
  "leaseEncodeSubscribe route = routePayload route"

definition leaseEncodeUnsubscribe :: "jsstr \<Rightarrow> bytes result" where
  "leaseEncodeUnsubscribe route = routePayload route"

text \<open>The offset of a cursor is a number the caller supplies.\<close>

definition leaseEncodeList :: "jsstr \<Rightarrow> (int \<times> jsnum) option \<Rightarrow> jsnum option \<Rightarrow> bytes result" where
  "leaseEncodeList pat cursor limitOpt =
    andThen (routePayload pat) (\<lambda>patternBytes.
      let limit = (case limitOpt of Some n \<Rightarrow> n | None \<Rightarrow> JInt 0) in
      andThen (assertU32 limit) (\<lambda>_.
      andThen (case cursor of Some (_, off) \<Rightarrow> assertU32 off | None \<Rightarrow> Inr ()) (\<lambda>_.
      let c = alloc (length patternBytes + 1 + (case cursor of Some _ \<Rightarrow> 12 | None \<Rightarrow> 0) + 4) in
      andThen (putBytes patternBytes c) (\<lambda>c.
      let c = (case cursor of
                 Some (snapshotId, off) \<Rightarrow> putU32 (jsInt off) (putU64 snapshotId (putU8 1 c))
               | None \<Rightarrow> putU8 0 c) in
      Inr (finish (putU32 (jsInt limit) c))))))"

section \<open>Lease responses and notifications\<close>

definition leaseFailure :: "string \<Rightarrow> parsedResponse \<Rightarrow> jserror" where
  "leaseFailure code parsed =
    attachErrorDisposition (LeaseError code (prErrorCode parsed)) (prErrorClass parsed)
      (prEffect parsed)"

record acquireResponse =
  acqToken :: nat
  acqResponseType :: nat

definition leaseDecodeAcquireResponse :: "bytes \<Rightarrow> acquireResponse result" where
  "leaseDecodeAcquireResponse pl =
    (if length pl = 0 then Inl (ProtocolError None)
     else andThen (parseStandardResponse pl) (\<lambda>parsed.
       if \<not> prSuccess parsed then Inl (leaseFailure ''ACQUIRE_FAILED'' parsed)
       else (let reader = createBufferReader (prData parsed) in
         if remainingBytes reader < 9 then Inl (ProtocolError None)
         else
           andThen (readU8 reader) (\<lambda>(responseType, reader).
           if responseType \<noteq> 0 \<and> responseType \<noteq> 1 \<and> responseType \<noteq> 2 \<and> responseType \<noteq> 3
             then Inl (ProtocolError None)
           else
             andThen (readU64BE reader) (\<lambda>(fencingToken, reader).
             if \<not> isEOF reader then Inl (ProtocolError None)
             else Inr \<lparr>acqToken = fencingToken, acqResponseType = responseType\<rparr>)))))"

record queryResponse =
  qrOwner :: "jsstr option"
  qrTtlRemaining :: "nat option"
  qrPendingWaiters :: nat
  qrExpiresAt :: "nat option"

definition qrIsHeld :: "queryResponse \<Rightarrow> bool" where
  "qrIsHeld q \<longleftrightarrow> qrOwner q \<noteq> None"

text \<open>\<open>now\<close> is \<^verbatim>\<open>Date.now()\<close> in milliseconds.\<close>

definition leaseDecodeQueryResponse :: "nat \<Rightarrow> bytes \<Rightarrow> queryResponse reply result" where
  "leaseDecodeQueryResponse now = readReply flagRefusal (\<lambda>d.
     andThen (readU8 (createBufferReader d)) (\<lambda>(hasHolder, reader).
     if hasHolder = 0 then
       andThen (readU32BE reader) (\<lambda>(pendingWaiters, reader).
       if \<not> isEOF reader then Inl (ProtocolError None)
       else Inr \<lparr>qrOwner = None, qrTtlRemaining = None, qrPendingWaiters = pendingWaiters,
                 qrExpiresAt = None\<rparr>)
     else
       andThen (readRoute reader) (\<lambda>(owner, reader).
       andThen (readU64BE reader) (\<lambda>(ttl, reader).
       andThen (readU32BE reader) (\<lambda>(pendingWaiters, reader).
       if \<not> isEOF reader then Inl (ProtocolError None)
       else Inr \<lparr>qrOwner = Some owner, qrTtlRemaining = Some ttl,
                 qrPendingWaiters = pendingWaiters, qrExpiresAt = Some (now div 1000 + ttl)\<rparr>)))))"

record leaseListItem =
  lliRoute :: jsstr
  lliOwnerId :: jsstr
  lliIncarnation :: nat
  lliAcquiredAt :: jsstr
  lliExpiresIn :: nat
  lliRenewals :: nat

record leaseListPage =
  llpItems :: "leaseListItem list"
  llpNextCursor :: "(nat \<times> nat) option"

definition readLeaseItem :: "reader \<Rightarrow> (leaseListItem \<times> reader) result" where
  "readLeaseItem reader =
    andThen (readRoute reader) (\<lambda>(route, reader).
    andThen (readString reader) (\<lambda>(owner, reader).
    andThen (readU64BE reader) (\<lambda>(incarnation, reader).
    andThen (readString reader) (\<lambda>(acquiredAt, reader).
    andThen (readU64BE reader) (\<lambda>(expiresIn, reader).
    andThen (readU32BE reader) (\<lambda>(renewals, reader).
    Inr (\<lparr>lliRoute = route, lliOwnerId = owner, lliIncarnation = incarnation,
          lliAcquiredAt = acquiredAt, lliExpiresIn = expiresIn, lliRenewals = renewals\<rparr>,
         reader)))))))"

definition leaseDecodeListResponse :: "bytes \<Rightarrow> leaseListPage result" where
  "leaseDecodeListResponse pl =
    andThen (parseStandardResponse pl) (\<lambda>parsed.
      if \<not> prSuccess parsed then Inl (leaseFailure ''LIST_FAILED'' parsed)
      else
        andThen (readU32BE (createBufferReader (prData parsed))) (\<lambda>(itemCount, reader).
        andThen (readTimes itemCount readLeaseItem reader) (\<lambda>(items, reader).
        andThen (readU8 reader) (\<lambda>(hasNext, reader).
        andThen (if hasNext = 1 then
                   andThen (readU64BE reader) (\<lambda>(snapshotId, reader).
                   andThen (readU32BE reader) (\<lambda>(off, reader).
                   Inr (Some (snapshotId, off), reader)))
                 else if hasNext \<noteq> 0 then Inl (ProtocolError None)
                 else Inr (None, reader)) (\<lambda>(nextCursor, reader).
        if \<not> isEOF reader then Inl (ProtocolError None)
        else Inr \<lparr>llpItems = items, llpNextCursor = nextCursor\<rparr>)))))"

definition leaseDecodeSuccessResponse :: "bytes \<Rightarrow> string \<Rightarrow> bytes result" where
  "leaseDecodeSuccessResponse pl operation =
    andThen (parseStandardResponse pl) (\<lambda>parsed.
      if \<not> prSuccess parsed then Inl (leaseFailure (operation @ ''_FAILED'') parsed)
      else Inr (prData parsed))"

definition leaseDecodeNotification :: "bytes \<Rightarrow> (nat \<times> jsstr) result" where
  "leaseDecodeNotification pl =
    andThen (readU64BE (createBufferReader pl)) (\<lambda>(subId, reader).
    andThen (readRoute reader) (\<lambda>(route, reader).
    andThen (readBlob reader) (\<lambda>(notificationPayload, reader).
    if length notificationPayload \<noteq> 0 \<or> \<not> isEOF reader then Inl (ProtocolError None)
    else Inr (subId, route))))"

section \<open>Notices\<close>

definition noticeEncodePublish :: "jsstr \<Rightarrow> bytes \<Rightarrow> bytes result" where
  "noticeEncodePublish route body =
    andThen (routePayload route) (\<lambda>routeBytes.
      andThen (putBytes routeBytes (alloc (length routeBytes + 4 + length body))) (\<lambda>c.
      andThen (putBytes body (putU32 (int (length body)) c)) (\<lambda>c. Inr (finish c))))"

definition noticeEncodeSubscribe :: "jsstr \<Rightarrow> bytes result" where
  "noticeEncodeSubscribe pat = routePayload pat"

definition noticeEncodeUnsubscribe :: "int \<Rightarrow> bytes" where
  "noticeEncodeUnsubscribe subId = finish (putU64 subId (alloc 8))"

definition noticeEncodeUnsubscribeAll :: bytes where
  "noticeEncodeUnsubscribeAll = newUint8Array 0"

record noticeNotification =
  nnSubId :: nat
  nnRoute :: jsstr
  nnBody :: bytes

definition noticeDecodeNotification :: "bytes \<Rightarrow> noticeNotification result" where
  "noticeDecodeNotification pl =
    andThen (readU64BE (createBufferReader pl)) (\<lambda>(subId, reader).
    andThen (readRoute reader) (\<lambda>(route, reader).
    andThen (readU32BE reader) (\<lambda>(bodyLen, reader).
    andThen (readBytes bodyLen reader) (\<lambda>(body, reader).
    if \<not> isEOF reader then Inl (ProtocolError None)
    else Inr \<lparr>nnSubId = subId, nnRoute = route, nnBody = body\<rparr>))))"

section \<open>Layout of the requests\<close>

definition secondsOk :: "jsnum \<Rightarrow> bool" where
  "secondsOk v \<longleftrightarrow> isSafeInteger v \<and> 0 \<le> jsInt v"

lemma secondsOk_cases:
  assumes "secondsOk v"
  obtains i where "v = JInt i" and "0 \<le> i" and "i \<le> maxSafeInteger"
  using assms by (cases v) (auto simp: secondsOk_def isSafeInteger_def jsInt_def)

lemma putSeconds_Out [layout_simps]:
  assumes "8 \<le> k" and "secondsOk v"
  shows "putU64Number v (Out d k) = Inr (Out (d @ be 8 (jsInt v)) (k - 8))"
  using assms(2)
  by (rule secondsOk_cases) (simp add: putU64Number_Out assms(1) jsInt_def)

lemma putSeconds_invalid [layout_simps]: "\<not> secondsOk v \<Longrightarrow> putU64Number v c = Inl RangeError"
  by (auto simp: secondsOk_def putU64Number_invalid)

lemma leaseEncodeAcquire_layout:
  "leaseEncodeAcquire route ttl wait =
    (if secondsOk ttl then Inr (strField route @ strField [] @ be 8 (jsInt ttl) @ be 4 wait)
     else Inl RangeError)"
  by (simp add: leaseEncodeAcquire_def layout_simps)

lemma leaseEncodeExtend_layout:
  "leaseEncodeExtend route token ttl =
    (if secondsOk ttl then Inr (strField route @ strField [] @ be 8 token @ be 8 (jsInt ttl))
     else Inl RangeError)"
  by (simp add: leaseEncodeExtend_def layout_simps)

lemma leaseEncodeRelease_layout:
  "leaseEncodeRelease route token = Inr (strField route @ strField [] @ be 8 token)"
  by (simp add: leaseEncodeRelease_def layout_simps)

definition u32Ok :: "jsnum \<Rightarrow> bool" where
  "u32Ok v \<longleftrightarrow> isInteger v \<and> 0 \<le> jsInt v \<and> jsInt v \<le> u32Max"

lemma assertU32_eq:
  "assertU32 v = (if u32Ok v then Inr () else Inl (LeaseError ''INVALID_LIST_ARGUMENT'' None))"
  by (auto simp: assertU32_def u32Ok_def)

definition cursorField :: "(int \<times> jsnum) option \<Rightarrow> bytes" where
  "cursorField c = (case c of None \<Rightarrow> [0] | Some (s, off) \<Rightarrow> 1 # be 8 s @ be 4 (jsInt off))"

lemma leaseEncodeList_layout:
  "leaseEncodeList pat cursor limit =
    (let l = (case limit of Some n \<Rightarrow> n | None \<Rightarrow> JInt 0) in
     if u32Ok l \<and> (case cursor of None \<Rightarrow> True | Some (_, off) \<Rightarrow> u32Ok off)
     then Inr (strField pat @ cursorField cursor @ be 4 (jsInt l))
     else Inl (LeaseError ''INVALID_LIST_ARGUMENT'' None))"
proof (cases cursor)
  case None
  then show ?thesis
    by (auto simp: leaseEncodeList_def assertU32_eq layout_simps cursorField_def)
next
  case (Some p)
  then show ?thesis
    by (cases p) (auto simp: leaseEncodeList_def assertU32_eq layout_simps cursorField_def)
qed

lemma noticeEncodePublish_layout: "noticeEncodePublish route body = Inr (strField route @ blob body)"
  by (simp add: noticeEncodePublish_def layout_simps)

lemma noticeEncodeUnsubscribe_layout: "noticeEncodeUnsubscribe i = be 8 i"
  by (simp add: noticeEncodeUnsubscribe_def layout_simps)

section \<open>Decoding what the broker writes\<close>

lemma leaseDecodeAcquire_iff:
  "leaseDecodeAcquireResponse pl = Inr a \<longleftrightarrow>
    acqResponseType a \<le> 3 \<and> acqToken a < 18446744073709551616 \<and>
    pl = 0 # of_nat (acqResponseType a) # be 8 (int (acqToken a))" (is "?L \<longleftrightarrow> ?R")
proof
  assume ?R
  then show ?L
    by (cases a) (auto simp: leaseDecodeAcquireResponse_def reader_simps okResponse_def Let_def)
next
  assume L: ?L
  then obtain res where res: "parseStandardResponse pl = Inr res" "prSuccess res"
    by (auto simp: leaseDecodeAcquireResponse_def elim!: andThen_InrE split: if_splits)
  then obtain d where pl: "pl = 0 # d"
    by (auto simp: parse_Inr_iff errResponse_def)
  with L show ?R
    by (auto simp: leaseDecodeAcquireResponse_def parse_ok okResponse_def Let_def
        createBufferReader_In reads_Inr isEOF_In elim!: andThen_InrE dest!: unat_byte_eqD split: if_splits)
qed

text \<open>A refusal keeps the broker's code, class and effect.\<close>

lemma leaseDecodeAcquire_refused:
  assumes "c < 65536" "k \<le> 10" "e \<le> 2" "wireBlob raw"
  shows "leaseDecodeAcquireResponse (errorEnvelope c k e raw) =
    Inl ((LeaseError ''ACQUIRE_FAILED'' (Some c))\<lparr>eClass := Some k, eEffect := Some e\<rparr>)"
  using assms
  by (simp add: leaseDecodeAcquireResponse_def parse_error_env errResponse_def leaseFailure_def
      attachErrorDisposition_def) (simp add: errorEnvelope_def)

lemma leaseDecodeQuery_free:
  "n < 4294967296 \<Longrightarrow> leaseDecodeQueryResponse now (0 # 0 # be 4 (int n)) =
    Inr (Accepted \<lparr>qrOwner = None, qrTtlRemaining = None, qrPendingWaiters = n, qrExpiresAt = None\<rparr>)"
  by (simp add: leaseDecodeQueryResponse_def reader_simps)

lemma leaseDecodeQuery_held:
  "wireString owner \<Longrightarrow> ttl < 18446744073709551616 \<Longrightarrow> n < 4294967296 \<Longrightarrow>
    leaseDecodeQueryResponse now (0 # 1 # strField owner @ be 8 (int ttl) @ be 4 (int n)) =
    Inr (Accepted \<lparr>qrOwner = Some owner, qrTtlRemaining = Some ttl, qrPendingWaiters = n,
      qrExpiresAt = Some (now div 1000 + ttl)\<rparr>)"
  by (simp add: leaseDecodeQueryResponse_def reader_simps)

definition leaseItemBytes :: "leaseListItem \<Rightarrow> bytes" where
  "leaseItemBytes it = strField (lliRoute it) @ strField (lliOwnerId it) @ be 8 (int (lliIncarnation it))
     @ strField (lliAcquiredAt it) @ be 8 (int (lliExpiresIn it)) @ be 4 (int (lliRenewals it))"

definition leaseItemOk :: "leaseListItem \<Rightarrow> bool" where
  "leaseItemOk it \<longleftrightarrow> wireString (lliRoute it) \<and> wireString (lliOwnerId it) \<and>
     lliIncarnation it < 18446744073709551616 \<and> wireString (lliAcquiredAt it) \<and>
     lliExpiresIn it < 18446744073709551616 \<and> lliRenewals it < 4294967296"

lemma readLeaseItem_stays: "readLeaseItem r = Inr (v, r') \<Longrightarrow> stays r r'"
  by (auto simp: readLeaseItem_def elim!: andThen_InrE dest!: stays_dests) (meson stays_trans)

interpretation leaseItem: wire_field readLeaseItem leaseItemBytes leaseItemOk
proof unfold_locales
  fix r v r'
  assume "readLeaseItem r = Inr (v, r')"
  then show "stays r r'" by (rule readLeaseItem_stays)
next
  fix v p t
  assume "leaseItemOk v"
  then show "readLeaseItem (In p (leaseItemBytes v @ t)) = Inr (v, In (p @ leaseItemBytes v) t)"
    by (cases v) (simp add: readLeaseItem_def leaseItemBytes_def leaseItemOk_def reader_simps)
qed

definition leaseCursorBytes :: "(nat \<times> nat) option \<Rightarrow> bytes" where
  "leaseCursorBytes c = (case c of None \<Rightarrow> [0] | Some (s, off) \<Rightarrow> 1 # be 8 (int s) @ be 4 (int off))"

lemma leaseDecodeList_page:
  assumes "list_all leaseItemOk items" and "length items < 4294967296"
    and "\<And>s off. cursor = Some (s, off) \<Longrightarrow> s < 18446744073709551616 \<and> off < 4294967296"
  shows "leaseDecodeListResponse
      (0 # be 4 (int (length items)) @ concat (map leaseItemBytes items) @ leaseCursorBytes cursor) =
    Inr \<lparr>llpItems = items, llpNextCursor = cursor\<rparr>"
proof (cases cursor)
  case None
  then show ?thesis
    using assms leaseItem.times_put [OF assms(1), of "be 4 (int (length items))"]
    by (simp add: leaseDecodeListResponse_def reader_simps okResponse_def leaseCursorBytes_def)
next
  case (Some c)
  then obtain s off where c: "cursor = Some (s, off)" by (cases c) simp
  then show ?thesis
    using assms assms(3) [OF c] leaseItem.times_put [OF assms(1), of "be 4 (int (length items))"]
    by (simp add: leaseDecodeListResponse_def reader_simps okResponse_def leaseCursorBytes_def)
qed

lemma noticeDecode_published:
  assumes "noticeEncodePublish route body = Inr out" and "wireString route" and "wireBlob body"
    and "s < 18446744073709551616"
  shows "noticeDecodeNotification (be 8 (int s) @ out) =
    Inr \<lparr>nnSubId = s, nnRoute = route, nnBody = body\<rparr>"
proof -
  have b: "andThen (readU32BE r) (\<lambda>(n, r). andThen (readBytes n r) k) = andThen (readBlob r) k"
    for r and k :: "bytes \<times> reader \<Rightarrow> noticeNotification result"
    by (cases "readU32BE r") (auto simp: readBlob_def)
  show ?thesis
    using assms by (simp add: noticeDecodeNotification_def b noticeEncodePublish_layout)
      (auto simp: reader_simps)
qed

section \<open>Properties\<close>

text \<open>
  An acquire response is accepted exactly when it is a zero status, a response type between 0
  and 3 and a fencing token, and nothing else.
\<close>

theorem acquire_response_exact:
  "leaseDecodeAcquireResponse pl = Inr a \<longleftrightarrow>
    acqResponseType a \<le> 3 \<and> acqToken a < 18446744073709551616 \<and>
    pl = 0 # of_nat (acqResponseType a) # be 8 (int (acqToken a))"
  by (rule leaseDecodeAcquire_iff)

text \<open>
  A published notice reaches a subscriber's decoder with the route and the body it was published
  with.
\<close>

theorem published_notice_decodes:
  assumes "noticeEncodePublish route body = Inr out" and "wireString route" and "wireBlob body"
    and "s < 18446744073709551616"
  shows "noticeDecodeNotification (be 8 (int s) @ out) =
    Inr \<lparr>nnSubId = s, nnRoute = route, nnBody = body\<rparr>"
  using assms by (rule noticeDecode_published)

lemma published_notice_decodes_witness:
  "\<exists>out. noticeEncodePublish [65] [1, 2] = Inr out \<and>
    noticeDecodeNotification (be 8 5 @ out) = Inr \<lparr>nnSubId = 5, nnRoute = [65], nnBody = [1, 2]\<rparr>"
proof -
  have "wireString [65]"
    using length_utf8Encode [of "[65]"]
    by (simp add: wireString_def wireText_def bomFree_def isHigh_def isLow_def)
  then show ?thesis
    using published_notice_decodes [of "[65]" "[1, 2]" _ 5]
    by (auto simp: noticeEncodePublish_layout wireBlob_def)
qed

end
