(* ===== verification/ScheduleCodec.thy ===== *)
theory ScheduleCodec
  imports Response Writer
begin

text \<open>
  The schedule codec of \<^verbatim>\<open>src/domains/schedule/codec.ts\<close>. List responses are sequences of entries,
  each behind a marker byte, closed by a zero marker: the loop over them has no counter, and
  ends because every turn moves the reader forward in its buffer.
\<close>

declare routePayload_eq [layout_simps] Let_def [layout_simps] blob_def [layout_simps]

section \<open>Entries\<close>

record scheduleEntry =
  seRoute :: jsstr
  seCron :: jsstr
  seDeliveryMode :: string
  sePayload :: bytes

definition encodeDeliveryMode :: "string \<Rightarrow> byte result" where
  "encodeDeliveryMode deliveryMode =
    (if deliveryMode = ''Broadcast'' then Inr 0
     else if deliveryMode = ''Single'' then Inr 1
     else Inl PlainError)"

definition decodeDeliveryMode :: "nat \<Rightarrow> string result" where
  "decodeDeliveryMode v =
    (if v = 0 then Inr ''Broadcast''
     else if v = 1 then Inr ''Single''
     else Inl PlainError)"

section \<open>Requests\<close>

definition scheduleEncodeCreate :: "jsstr \<Rightarrow> jsstr \<Rightarrow> string \<Rightarrow> bytes \<Rightarrow> bytes result" where
  "scheduleEncodeCreate route cronExpr deliveryMode pl =
    andThen (routePayload route) (\<lambda>routeBytes.
      let cronBytes = utf8Encode cronExpr in
      andThen (encodeDeliveryMode deliveryMode) (\<lambda>mode.
      let c = alloc (length routeBytes + 4 + length cronBytes + 1 + 4 + length pl) in
      andThen (putBytes routeBytes c) (\<lambda>c.
      andThen (putBytes cronBytes (putU32 (int (length cronBytes)) c)) (\<lambda>c.
      let c = putU8 mode c in
      andThen (putBytes pl (putU32 (int (length pl)) c)) (\<lambda>c. Inr (finish c))))))"

text \<open>The loop over the entries of a batch, writing each encoded entry.\<close>

fun writeEntries :: "scheduleEntry list \<Rightarrow> bwriter \<Rightarrow> bwriter result" where
  "writeEntries [] w = Inr w"
| "writeEntries (entry # entries) w =
    andThen (scheduleEncodeCreate (seRoute entry) (seCron entry) (seDeliveryMode entry)
      (sePayload entry)) (\<lambda>b.
    andThen (writeBytes b w) (writeEntries entries))"

definition scheduleEncodeCreateBatch :: "scheduleEntry list \<Rightarrow> bytes result" where
  "scheduleEncodeCreateBatch entries =
    (if length entries > 0xffffffff then Inl PlainError
     else andThen (andThen (writeU32BE (int (length entries)) (createBufferWriter 128))
       (writeEntries entries)) (\<lambda>w. Inr (getBuffer w)))"

definition scheduleEncodeListV2 :: "jsstr option \<Rightarrow> int option \<Rightarrow> bytes result" where
  "scheduleEncodeListV2 cursor limit =
    (if (case limit of Some l \<Rightarrow> l < 0 \<or> l > 1000 | None \<Rightarrow> False) then Inl PlainError
     else andThen
       (andThen (writeU8 (if cursor = None then 0 else 1) (createBufferWriter 64)) (\<lambda>w.
        andThen (case cursor of Some c \<Rightarrow> writeString c w | None \<Rightarrow> Inr w) (\<lambda>w.
        writeOptionalU64 limit w))) (\<lambda>w. Inr (getBuffer w)))"

definition scheduleEncodeListPage :: "int option \<Rightarrow> int option \<Rightarrow> bytes result" where
  "scheduleEncodeListPage offsetValue limit =
    (if (case offsetValue of Some v \<Rightarrow> v < 0 | None \<Rightarrow> False) then Inl PlainError
     else if (case limit of Some l \<Rightarrow> l < 0 \<or> l > 1000 | None \<Rightarrow> False) then Inl PlainError
     else (let c = alloc (1 + (if offsetValue = None then 0 else 8) + 1
                       + (if limit = None then 0 else 8));
               c = putU8 (if offsetValue = None then 0 else 1) c;
               c = (case offsetValue of Some v \<Rightarrow> putU64 v c | None \<Rightarrow> c);
               c = putU8 (if limit = None then 0 else 1) c;
               c = (case limit of Some l \<Rightarrow> putU64 l c | None \<Rightarrow> c)
           in Inr (finish c)))"

definition scheduleEncodeCancel :: "jsstr \<Rightarrow> bytes result" where
  "scheduleEncodeCancel route = routePayload route"

definition scheduleEncodeSubscribe :: "jsstr \<Rightarrow> bytes result" where
  "scheduleEncodeSubscribe pat = routePayload pat"

definition scheduleEncodeUnsubscribe :: "jsstr \<Rightarrow> bytes result" where
  "scheduleEncodeUnsubscribe pat = routePayload pat"

section \<open>The entry loop\<close>

definition readScheduleEntry :: "reader \<Rightarrow> (scheduleEntry \<times> reader) result" where
  "readScheduleEntry reader =
    andThen (readString reader) (\<lambda>(route, reader).
    andThen (readString reader) (\<lambda>(cron, reader).
    andThen (readU8 reader) (\<lambda>(m, reader).
    andThen (decodeDeliveryMode m) (\<lambda>mode.
    andThen (readBlob reader) (\<lambda>(pl, reader).
    Inr (\<lparr>seRoute = route, seCron = cron, seDeliveryMode = mode, sePayload = pl\<rparr>, reader))))))"

lemma readScheduleEntry_stays: "readScheduleEntry r = Inr (v, r') \<Longrightarrow> stays r r'"
  by (auto simp: readScheduleEntry_def elim!: andThen_InrE dest!: stays_dests) (meson stays_trans)

lemma readU8_advances: "readU8 r = Inr (v, r') \<Longrightarrow>
    internalBuffer r' = internalBuffer r \<and> readerOffset r' = Suc (readerOffset r) \<and>
    readerOffset r < length (internalBuffer r)"
  by (auto simp: readU8_def advance_def split: if_splits)

function readEntries :: "reader \<Rightarrow> (scheduleEntry list \<times> reader) result" where
  "readEntries reader =
    andThen (readU8 reader) (\<lambda>(marker, reader).
      if marker = 0 then Inr ([], reader)
      else if marker \<noteq> 1 then Inl PlainError
      else
        andThen (readScheduleEntry reader) (\<lambda>(entry, reader).
        andThen (readEntries reader) (\<lambda>(entries, reader). Inr (entry # entries, reader))))"
  by pat_completeness auto
termination
proof (relation "measure (\<lambda>r. length (internalBuffer r) - readerOffset r)", goal_cases)
  case (2 reader x marker reader1 y entry reader2)
  then have "internalBuffer reader1 = internalBuffer reader"
      "readerOffset reader < readerOffset reader1" "readerOffset reader < length (internalBuffer reader)"
    using readU8_advances [of reader marker reader1] by auto
  moreover have "stays reader1 reader2"
    using 2 readScheduleEntry_stays [of reader1 entry reader2] by auto
  ultimately show ?case by (auto simp: stays_def)
qed simp

declare readEntries.simps [simp del]

section \<open>Responses and notifications\<close>

record scheduleCursorPage =
  scpEntries :: "scheduleEntry list"
  scpHasMore :: bool
  scpContinuation :: "jsstr option"

definition scheduleDecodeListV2 :: "bytes \<Rightarrow> scheduleCursorPage result" where
  "scheduleDecodeListV2 d =
    andThen (readU8 (createBufferReader d)) (\<lambda>(v, reader).
    if v \<noteq> 1 then Inl PlainError
    else
      andThen (readU8 reader) (\<lambda>(hasMoreByte, reader).
      if hasMoreByte \<noteq> 0 \<and> hasMoreByte \<noteq> 1 then Inl PlainError
      else
        andThen (readU8 reader) (\<lambda>(cursorFlag, reader).
        if cursorFlag \<noteq> 0 \<and> cursorFlag \<noteq> 1 then Inl PlainError
        else
          andThen (if cursorFlag = 1
                   then andThen (readString reader) (\<lambda>(c, reader). Inr (Some c, reader))
                   else Inr (None, reader)) (\<lambda>(continuation, reader).
          if hasMoreByte = 1 \<and> continuation = None then Inl PlainError
          else
            andThen (readEntries reader) (\<lambda>(entries, reader).
            if \<not> isEOF reader then Inl PlainError
            else Inr \<lparr>scpEntries = entries, scpHasMore = (hasMoreByte = 1),
                      scpContinuation = continuation\<rparr>)))))"

record scheduleListPage =
  slpEntries :: "scheduleEntry list"
  slpTotalCount :: nat

definition scheduleDecodeListPage :: "bytes \<Rightarrow> scheduleListPage result" where
  "scheduleDecodeListPage d =
    andThen (readU64BE (createBufferReader d)) (\<lambda>(totalCount, reader).
    andThen (readEntries reader) (\<lambda>(entries, reader).
    if \<not> isEOF reader then Inl PlainError
    else Inr \<lparr>slpEntries = entries, slpTotalCount = totalCount\<rparr>))"

definition scheduleDecodeCreateResponse :: "bytes \<Rightarrow> jsstr option result" where
  "scheduleDecodeCreateResponse d =
    (let reader = createBufferReader d in
     if isEOF reader then Inr None
     else
       andThen (readU8 reader) (\<lambda>(flag, reader).
       if flag \<noteq> 1 then Inl PlainError
       else
         andThen (readString reader) (\<lambda>(scheduleId, reader).
         if \<not> isEOF reader then Inl PlainError else Inr (Some scheduleId))))"

definition scheduleDecodeCancelResponse :: "bytes \<Rightarrow> unit result" where
  "scheduleDecodeCancelResponse d = (if length d \<noteq> 0 then Inl PlainError else Inr ())"

definition scheduleDecodeSubscribeResponse :: "bytes \<Rightarrow> nat result" where
  "scheduleDecodeSubscribeResponse d =
    (let reader = createBufferReader d in
     if isEOF reader then Inl PlainError
     else
       andThen (readU8 reader) (\<lambda>(flag, reader).
       if flag \<noteq> 1 then Inl PlainError
       else if remainingBytes reader < 8 then Inl PlainError
       else
         andThen (readU64BE reader) (\<lambda>(subId, reader).
         if \<not> isEOF reader then Inl PlainError else Inr subId)))"

definition scheduleDecodeUnsubscribeResponse :: "bytes \<Rightarrow> unit result" where
  "scheduleDecodeUnsubscribeResponse d = (if length d \<noteq> 0 then Inl PlainError else Inr ())"

record scheduleNotification =
  snSubId :: nat
  snRoute :: jsstr
  snPayload :: bytes

definition scheduleDecodeNotification :: "bytes \<Rightarrow> scheduleNotification result" where
  "scheduleDecodeNotification pl =
    (if length pl < 12 then Inl PlainError
     else
       andThen (readU64BE (createBufferReader pl)) (\<lambda>(subId, reader).
       andThen (readString reader) (\<lambda>(route, reader).
       andThen (readU32BE reader) (\<lambda>(payloadLength, reader).
       if remainingBytes reader < payloadLength then Inl PlainError
       else
         andThen (readBytes payloadLength reader) (\<lambda>(notificationPayload, reader).
         if \<not> isEOF reader then Inl PlainError
         else Inr \<lparr>snSubId = subId, snRoute = route, snPayload = notificationPayload\<rparr>)))))"

section \<open>Layout of the requests\<close>

definition modeByte :: "string \<Rightarrow> byte" where
  "modeByte m = (if m = ''Broadcast'' then 0 else 1)"

definition modeOk :: "string \<Rightarrow> bool" where
  "modeOk m \<longleftrightarrow> m = ''Broadcast'' \<or> m = ''Single''"

definition entryBytes :: "scheduleEntry \<Rightarrow> bytes" where
  "entryBytes e = strField (seRoute e) @ strField (seCron e) @ [modeByte (seDeliveryMode e)]
     @ blob (sePayload e)"

lemma scheduleEncodeCreate_layout:
  "scheduleEncodeCreate (seRoute e) (seCron e) (seDeliveryMode e) (sePayload e) =
    (if modeOk (seDeliveryMode e) then Inr (entryBytes e) else Inl PlainError)"
proof -
  have cron: "strField (seCron e) = be 4 (int (length (utf8Encode (seCron e)))) @ utf8Encode (seCron e)"
    by (simp add: strField_def)
  show ?thesis
    by (simp add: scheduleEncodeCreate_def encodeDeliveryMode_def modeOk_def modeByte_def entryBytes_def
        cron layout_simps)
qed

lemma appends_writeEntries:
  "list_all (\<lambda>e. modeOk (seDeliveryMode e)) es \<Longrightarrow>
    appends (writeEntries es) (concat (map entryBytes es))"
proof (induction es)
  case Nil
  then show ?case using appends_Inr by (simp add: fun_eq_iff [THEN iffD2] eta_contract_eq)
next
  case (Cons e es)
  then have "appends (\<lambda>w. andThen (writeBytes (entryBytes e) w) (writeEntries es))
      (entryBytes e @ concat (map entryBytes es))"
    by (intro appends_seq appends_Bytes) simp
  with Cons.prems show ?case
    by (simp add: scheduleEncodeCreate_layout)
qed

lemma scheduleEncodeCreateBatch_layout:
  assumes "list_all (\<lambda>e. modeOk (seDeliveryMode e)) es" and "length es < 4294967296"
  shows "scheduleEncodeCreateBatch es = Inr (be 4 (int (length es)) @ concat (map entryBytes es))"
proof -
  have "appends (\<lambda>w. andThen (writeU32BE (int (length es)) w) (writeEntries es))
      (be 4 (int (length es)) @ concat (map entryBytes es))"
    by (intro appends_seq appends_U32BE appends_writeEntries assms)
  from appends_run [OF this, of 128] assms(2) show ?thesis
    by (simp add: scheduleEncodeCreateBatch_def)
qed

definition limitInRange :: "int option \<Rightarrow> bool" where
  "limitInRange l \<longleftrightarrow> (case l of None \<Rightarrow> True | Some n \<Rightarrow> 0 \<le> n \<and> n \<le> 1000)"

lemma scheduleEncodeListV2_layout:
  "scheduleEncodeListV2 cursor limit =
    (if limitInRange limit then Inr (optField strField cursor @ optField (be 8) limit)
     else Inl PlainError)"
proof (cases "limitInRange limit")
  case True
  have w: "(\<lambda>w. andThen (writeU8 (if cursor = None then 0 else 1) w) (\<lambda>w.
        andThen (case cursor of Some c \<Rightarrow> writeString c w | None \<Rightarrow> Inr w) (\<lambda>w.
        writeOptionalU64 limit w))) =
      (\<lambda>w. andThen (writeOptionalString cursor w) (writeOptionalU64 limit))"
    by (cases cursor) (simp_all add: writeOptionalString_def andThen_assoc fun_eq_iff)
  have "appends (\<lambda>w. andThen (writeU8 (if cursor = None then 0 else 1) w) (\<lambda>w.
        andThen (case cursor of Some c \<Rightarrow> writeString c w | None \<Rightarrow> Inr w) (\<lambda>w.
        writeOptionalU64 limit w))) (optField strField cursor @ optField (be 8) limit)"
    unfolding w by (intro appends_seq appends_rules)
  from appends_run [OF this, of 64] True show ?thesis
    by (auto simp: scheduleEncodeListV2_def limitInRange_def split: option.splits)
next
  case False
  then show ?thesis
    by (auto simp: scheduleEncodeListV2_def limitInRange_def split: option.splits)
qed

lemma scheduleEncodeListPage_layout:
  "scheduleEncodeListPage off limit =
    (if limitInRange limit \<and> (case off of None \<Rightarrow> True | Some v \<Rightarrow> 0 \<le> v)
     then Inr (optField (be 8) off @ optField (be 8) limit) else Inl PlainError)"
  by (cases off; cases limit)
    (auto simp: scheduleEncodeListPage_def limitInRange_def optField_def layout_simps)

section \<open>Decoding what the broker writes\<close>

definition entryOk :: "scheduleEntry \<Rightarrow> bool" where
  "entryOk e \<longleftrightarrow> wireString (seRoute e) \<and> wireString (seCron e) \<and> modeOk (seDeliveryMode e) \<and>
     wireBlob (sePayload e)"

lemma readScheduleEntry_bytes:
  "entryOk e \<Longrightarrow> readScheduleEntry (In p (entryBytes e @ t)) = Inr (e, In (p @ entryBytes e) t)"
  by (cases e) (auto simp: readScheduleEntry_def entryBytes_def entryOk_def reader_simps modeOk_def
      modeByte_def decodeDeliveryMode_def)

interpretation scheduleEntry: wire_field readScheduleEntry entryBytes entryOk
  by unfold_locales (auto intro: readScheduleEntry_stays readScheduleEntry_bytes)

definition markedEntries :: "scheduleEntry list \<Rightarrow> bytes" where
  "markedEntries es = concat (map (\<lambda>e. 1 # entryBytes e) es) @ [0]"

lemma readEntries_marked:
  "list_all entryOk es \<Longrightarrow>
    readEntries (In p (markedEntries es @ t)) = Inr (es, In (p @ markedEntries es) t)"
proof (induction es arbitrary: p)
  case Nil
  then show ?case by (simp add: readEntries.simps [of "In p (0 # t)"] markedEntries_def reader_simps)
next
  case (Cons e es)
  have m: "markedEntries (e # es) = 1 # entryBytes e @ markedEntries es"
    by (simp add: markedEntries_def)
  show ?case
    unfolding m readEntries.simps [of "In p ((1 # entryBytes e @ markedEntries es) @ t)"]
    using Cons by (simp add: reader_simps readScheduleEntry_bytes)
qed

lemmas readEntries_marked_end = readEntries_marked [where t = "[]", simplified]

definition continuationField :: "jsstr option \<Rightarrow> bytes" where
  "continuationField c = optField strField c"

lemma scheduleDecodeListV2_page:
  assumes "list_all entryOk es" and "case cont of None \<Rightarrow> \<not> m | Some c \<Rightarrow> wireString c"
  shows "scheduleDecodeListV2 (1 # (if m then 1 else 0) # optField strField cont @ markedEntries es) =
    Inr \<lparr>scpEntries = es, scpHasMore = m, scpContinuation = cont\<rparr>"
  using assms
  by (cases cont; cases m) (simp_all add: scheduleDecodeListV2_def optField_def reader_simps
      readEntries_marked_end)

lemma scheduleDecodeListPage_page:
  "list_all entryOk es \<Longrightarrow> n < 18446744073709551616 \<Longrightarrow>
    scheduleDecodeListPage (be 8 (int n) @ markedEntries es) =
    Inr \<lparr>slpEntries = es, slpTotalCount = n\<rparr>"
  by (simp add: scheduleDecodeListPage_def reader_simps readEntries_marked_end)

lemma scheduleDecodeNotification_bytes:
  assumes "s < 18446744073709551616" and "wireString route" and "wireBlob pl"
  shows "scheduleDecodeNotification (be 8 (int s) @ strField route @ blob pl) =
    Inr \<lparr>snSubId = s, snRoute = route, snPayload = pl\<rparr>"
proof -
  have "readBytes (length pl) (In p pl) = Inr (pl, In (p @ pl) [])" for p
    using readBytes_In [of pl "length pl" p "[]"] by simp
  with assms show ?thesis
    by (simp add: scheduleDecodeNotification_def blob_def wireBlob_def reader_simps)
qed

section \<open>Properties\<close>

text \<open>
  A page of schedules, each entry announced by a marker, is decoded to its entries and its
  continuation.
\<close>

theorem schedule_page_decodes:
  assumes "list_all entryOk es" and "case cont of None \<Rightarrow> \<not> m | Some c \<Rightarrow> wireString c"
  shows "scheduleDecodeListV2 (1 # (if m then 1 else 0) # optField strField cont @ markedEntries es) =
    Inr \<lparr>scpEntries = es, scpHasMore = m, scpContinuation = cont\<rparr>"
  using assms by (rule scheduleDecodeListV2_page)

lemma schedule_page_decodes_witness:
  "scheduleDecodeListV2 (1 # 1 # optField strField (Some [65]) @
      markedEntries [\<lparr>seRoute = [66], seCron = [67], seDeliveryMode = ''Broadcast'', sePayload = [9]\<rparr>]) =
    Inr \<lparr>scpEntries = [\<lparr>seRoute = [66], seCron = [67], seDeliveryMode = ''Broadcast'',
      sePayload = [9]\<rparr>], scpHasMore = True, scpContinuation = Some [65]\<rparr>"
proof -
  have "length (utf8Encode [c]) < 4294967296" for c using length_utf8Encode [of "[c]"] by simp
  then have "wireString [65]" "wireString [66]" "wireString [67]"
    by (simp_all add: wireString_def wireText_def bomFree_def isHigh_def isLow_def)
  then show ?thesis
    using schedule_page_decodes [of "[\<lparr>seRoute = [66], seCron = [67],
      seDeliveryMode = ''Broadcast'', sePayload = [9]\<rparr>]" True "Some [65]"]
    by (simp add: entryOk_def modeOk_def wireBlob_def)
qed

end
