(* ===== verification/StreamCodec.thy ===== *)
theory StreamCodec
  imports Response Routes Writer
begin

text \<open>
  The stream codec of \<^verbatim>\<open>src/domains/stream/codec.ts\<close>: write sessions, reads with a filter and a
  cursor, the tagged items of a read response, and the metadata of a stream. A read response
  carries the global offsets, the fingerprint and the watermark only under a global selector.
\<close>

declare routePayload_eq [layout_simps] Let_def [layout_simps] blob_def [layout_simps]

section \<open>Requests\<close>

definition streamEncodeBegin :: "jsstr \<Rightarrow> bytes option \<Rightarrow> bytes result" where
  "streamEncodeBegin route ingestMetadata =
    andThen (routePayload route) (\<lambda>routeBytes.
      case ingestMetadata of
        Some m \<Rightarrow>
          if length m > 0 then
            andThen (putBytes routeBytes (alloc (length routeBytes + 1 + 4 + length m))) (\<lambda>c.
            andThen (putBytes m (putU32 (int (length m)) (putU8 1 c))) (\<lambda>c. Inr (finish c)))
          else
            andThen (putBytes routeBytes (alloc (length routeBytes + 1))) (\<lambda>c.
            Inr (finish (putU8 0 c)))
      | None \<Rightarrow>
          andThen (putBytes routeBytes (alloc (length routeBytes + 1))) (\<lambda>c.
          Inr (finish (putU8 0 c))))"

text \<open>A presence byte, then the length and the bytes.\<close>

definition putOptBlob :: "bytes option \<Rightarrow> cursor \<Rightarrow> cursor result" where
  "putOptBlob v c =
    (case v of
       Some b \<Rightarrow> putBytes b (putU32 (int (length b)) (putU8 1 c))
     | None \<Rightarrow> Inr (putU8 0 c))"

definition putOptU64 :: "int option \<Rightarrow> cursor \<Rightarrow> cursor" where
  "putOptU64 v c = (case v of Some n \<Rightarrow> putU64 n (putU8 1 c) | None \<Rightarrow> putU8 0 c)"

definition optBlobSize :: "bytes option \<Rightarrow> nat" where
  "optBlobSize v = (case v of Some b \<Rightarrow> 4 + length b | None \<Rightarrow> 0)"

definition optU64Size :: "int option \<Rightarrow> nat" where
  "optU64Size v = (case v of Some n \<Rightarrow> 8 | None \<Rightarrow> 0)"

definition streamEncodeAppend ::
  "int \<Rightarrow> int \<Rightarrow> bytes \<Rightarrow> bytes option \<Rightarrow> jsstr option \<Rightarrow> bytes result" where
  "streamEncodeAppend sessionId expectedOffset body metadata discriminator =
    (let discriminatorBytes = (case discriminator of
           Some d \<Rightarrow> if length d > 0 then Some (utf8Encode d) else None | None \<Rightarrow> None);
         c = alloc (8 + 8 + 4 + length body + 1 + optBlobSize metadata + 1
               + optBlobSize discriminatorBytes);
         c = putU64 expectedOffset (putU64 sessionId c)
     in
     andThen (putBytes body (putU32 (int (length body)) c)) (\<lambda>c.
     andThen (putOptBlob metadata c) (\<lambda>c.
     andThen (putOptBlob discriminatorBytes c) (\<lambda>c. Inr (finish c)))))"

definition streamEncodeCommit :: "int \<Rightarrow> string \<Rightarrow> bytes" where
  "streamEncodeCommit sessionId mode =
    finish (putU8 (if mode = ''Sync'' then 1 else 0) (putU64 sessionId (alloc 9)))"

definition streamEncodeRollback :: "int \<Rightarrow> bytes" where
  "streamEncodeRollback sessionId = finish (putU64 sessionId (alloc 8))"

datatype streamFilterClause = Equals jsstr | NotEquals jsstr | StartsWith jsstr | AnyOf "jsstr list"

fun writeStrings :: "jsstr list \<Rightarrow> bwriter \<Rightarrow> bwriter result" where
  "writeStrings [] w = Inr w"
| "writeStrings (s # ss) w = andThen (writeString s w) (writeStrings ss)"

fun encodeStreamFilterClause :: "streamFilterClause \<Rightarrow> bwriter \<Rightarrow> bwriter result" where
  "encodeStreamFilterClause (Equals v) w = andThen (writeU8 0 w) (writeString v)"
| "encodeStreamFilterClause (NotEquals v) w = andThen (writeU8 1 w) (writeString v)"
| "encodeStreamFilterClause (StartsWith v) w = andThen (writeU8 2 w) (writeString v)"
| "encodeStreamFilterClause (AnyOf vs) w =
    andThen (writeU8 3 w) (\<lambda>w. andThen (writeU32BE (int (length vs)) w) (writeStrings vs))"

fun writeClauses :: "streamFilterClause list \<Rightarrow> bwriter \<Rightarrow> bwriter result" where
  "writeClauses [] w = Inr w"
| "writeClauses (c # cs) w = andThen (encodeStreamFilterClause c w) (writeClauses cs)"

definition encodeStreamFilterSet :: "streamFilterClause list \<Rightarrow> bwriter \<Rightarrow> bwriter result" where
  "encodeStreamFilterSet clauses w =
    andThen (writeU8 0 w) (\<lambda>w.
    andThen (writeU8 0xf1 w) (\<lambda>w.
    andThen (writeU32BE (int (length clauses)) w) (writeClauses clauses)))"

record streamWireReadOptions =
  roMaxBytes :: "int option"
  roFilter :: "streamFilterClause list option"
  roCursorFingerprint :: "int option"
  roCapturedWatermark :: "int option"

definition streamEncodeRead :: "jsstr \<Rightarrow> int \<Rightarrow> jsnum \<Rightarrow> streamWireReadOptions \<Rightarrow> bytes result" where
  "streamEncodeRead route startOffset limit opts =
    andThen (routePayload route) (\<lambda>routeBytes.
    andThen (case roFilter opts of
               Some clauses \<Rightarrow>
                 if length clauses > 0
                 then andThen (encodeStreamFilterSet clauses (createBufferWriter 64))
                        (\<lambda>w. Inr (Some (getBuffer w)))
                 else Inr None
             | None \<Rightarrow> Inr None) (\<lambda>filterBytes.
      let c = alloc (length routeBytes + 8 + 8 + 1 + optU64Size (roMaxBytes opts) + 1
                + optBlobSize filterBytes + 1 + optU64Size (roCursorFingerprint opts) + 1
                + optU64Size (roCapturedWatermark opts))
      in
      andThen (putBytes routeBytes c) (\<lambda>c.
      andThen (putU64Number limit (putU64 startOffset c)) (\<lambda>c.
      let c = putOptU64 (roMaxBytes opts) c in
      andThen (putOptBlob filterBytes c) (\<lambda>c.
      Inr (finish (putOptU64 (roCapturedWatermark opts)
        (putOptU64 (roCursorFingerprint opts) c))))))))"

definition streamEncodeLast :: "jsstr \<Rightarrow> bytes result" where
  "streamEncodeLast route = routePayload route"

definition streamEncodeMetadata :: "jsstr \<Rightarrow> bytes result" where
  "streamEncodeMetadata route = routePayload route"

definition streamEncodeSubscribe :: "jsstr \<Rightarrow> bytes result" where
  "streamEncodeSubscribe pat =
    andThen (writeRoute pat (createBufferWriter 128)) (\<lambda>w. Inr (getBuffer w))"

definition streamEncodeUnsubscribe :: "jsstr \<Rightarrow> bytes result" where
  "streamEncodeUnsubscribe pat =
    andThen (writeRoute pat (createBufferWriter 128)) (\<lambda>w. Inr (getBuffer w))"

section \<open>Responses\<close>

definition streamOperationName :: "nat \<Rightarrow> string result" where
  "streamOperationName mtype =
    (if mtype = 600 then Inr ''BEGIN'' else if mtype = 601 then Inr ''APPEND''
     else if mtype = 602 then Inr ''COMMIT'' else if mtype = 603 then Inr ''ROLLBACK''
     else if mtype = 604 then Inr ''READ'' else if mtype = 605 then Inr ''LAST''
     else if mtype = 606 then Inr ''GET_METADATA'' else if mtype = 607 then Inr ''SUBSCRIBE''
     else if mtype = 608 then Inr ''UNSUBSCRIBE''
     else Inl (StreamError ''UNKNOWN_INVALID_RESPONSE'' None))"

text \<open>The envelope; \<open>read\<close> is what the caller does with the data of a success.\<close>

definition streamDecodeResponse :: "nat \<Rightarrow> (bytes \<Rightarrow> 'a result) \<Rightarrow> bytes \<Rightarrow> 'a reply result" where
  "streamDecodeResponse mtype read pl =
    andThen (streamOperationName mtype) (\<lambda>_. readReply flagRefusal read pl)"

definition streamDecodeBeginResponse :: "bytes \<Rightarrow> nat option reply result" where
  "streamDecodeBeginResponse = streamDecodeResponse 600 (\<lambda>d.
     if length d < 8 then Inr None
     else andThen (readU64BE (createBufferReader d)) (\<lambda>(sessionId, _). Inr (Some sessionId)))"

definition streamDecodeAppendResponse :: "bytes \<Rightarrow> nat option reply result" where
  "streamDecodeAppendResponse = streamDecodeResponse 601 (\<lambda>d.
     if length d < 12 then Inr None
     else
       andThen (readU32BE (createBufferReader d)) (\<lambda>(len, reader).
       if len \<noteq> 8 \<or> remainingBytes reader \<noteq> len
         then Inl (StreamError ''APPEND_INVALID_RESPONSE'' None)
       else andThen (readU64BE reader) (\<lambda>(off, _). Inr (Some off))))"

definition streamDecodeCommitResponse :: "bytes \<Rightarrow> unit reply result" where
  "streamDecodeCommitResponse = streamDecodeResponse 602 (\<lambda>d. Inr ())"

definition streamDecodeRollbackResponse :: "bytes \<Rightarrow> unit reply result" where
  "streamDecodeRollbackResponse = streamDecodeResponse 603 (\<lambda>d. Inr ())"

record streamRecord =
  srRoute :: jsstr
  srOffset :: nat
  srTimestamp :: nat
  srBody :: bytes
  srAreaOffset :: "nat option"
  srRealmOffset :: "nat option"
  srGlobalOffset :: "nat option"
  srMetadata :: "bytes option"

text \<open>Only the flag 1 announces a value here; any other flag means absent.\<close>

definition streamReadOptionalBytes :: "reader \<Rightarrow> (bytes option \<times> reader) result" where
  "streamReadOptionalBytes reader =
    andThen (readU8 reader) (\<lambda>(hasValue, reader).
    if hasValue \<noteq> 1 then Inr (None, reader)
    else andThen (readBlob reader) (\<lambda>(b, reader). Inr (Some b, reader)))"

definition readOptionalIf :: "bool \<Rightarrow> reader \<Rightarrow> (nat option \<times> reader) result" where
  "readOptionalIf extended reader =
    (if extended then readOptionalU64 reader else Inr (None, reader))"

definition decodeStreamRecord :: "jsstr \<Rightarrow> bool \<Rightarrow> reader \<Rightarrow> (streamRecord \<times> reader) result" where
  "decodeStreamRecord route extended reader =
    andThen (readU64BE reader) (\<lambda>(off, reader).
    andThen (readOptionalU64 reader) (\<lambda>(areaOffset, reader).
    andThen (readOptionalU64 reader) (\<lambda>(realmOffset, reader).
    andThen (readOptionalIf extended reader) (\<lambda>(globalOffset, reader).
    andThen (readBlob reader) (\<lambda>(body, reader).
    andThen (streamReadOptionalBytes reader) (\<lambda>(metadata, reader).
    andThen (readU64BE reader) (\<lambda>(timestamp, reader).
    Inr (\<lparr>srRoute = route, srOffset = off, srTimestamp = timestamp, srBody = body,
          srAreaOffset = areaOffset, srRealmOffset = realmOffset, srGlobalOffset = globalOffset,
          srMetadata = metadata\<rparr>, reader))))))))"

datatype streamFilteredReason = ServerFilter | Permission | Projection

definition decodeStreamFilteredReason :: "reader \<Rightarrow> (streamFilteredReason option \<times> reader) result"
where
  "decodeStreamFilteredReason reader =
    andThen (readU8 reader) (\<lambda>(tag, reader).
    if tag = 0 then Inr (None, reader)
    else if tag = 1 then Inr (Some ServerFilter, reader)
    else if tag = 2 then Inr (Some Permission, reader)
    else if tag = 3 then Inr (Some Projection, reader)
    else Inl PlainError)"

datatype streamReadItem =
    EventItem jsstr streamRecord
  | FilteredItem jsstr nat "streamFilteredReason option"
  | FilteredRangeItem jsstr nat nat "streamFilteredReason option"

definition decodeStreamReadItem :: "jsstr \<Rightarrow> bool \<Rightarrow> reader \<Rightarrow> (streamReadItem \<times> reader) result" where
  "decodeStreamReadItem route extended reader =
    andThen (readU8 reader) (\<lambda>(tag, reader).
    if tag = 0 then
      andThen (decodeStreamRecord route extended reader) (\<lambda>(rec, reader).
      Inr (EventItem route rec, reader))
    else if tag = 1 then
      andThen (readU64BE reader) (\<lambda>(off, reader).
      andThen (decodeStreamFilteredReason reader) (\<lambda>(reason, reader).
      Inr (FilteredItem route off reason, reader)))
    else if tag = 2 then
      andThen (readU64BE reader) (\<lambda>(fromOffset, reader).
      andThen (readU64BE reader) (\<lambda>(toOffset, reader).
      andThen (decodeStreamFilteredReason reader) (\<lambda>(reason, reader).
      Inr (FilteredRangeItem route fromOffset toOffset reason, reader))))
    else Inl PlainError)"

text \<open>One turn of the item loop of a read response.\<close>

definition readRoutedItem :: "bool \<Rightarrow> reader \<Rightarrow> (streamReadItem \<times> reader) result" where
  "readRoutedItem extended reader =
    andThen (readRoute reader) (\<lambda>(concreteRoute, reader).
    if \<not> isRouteShape concreteRoute (js ''stream'') 3 False
      then Inl (StreamError ''READ_INVALID_RESPONSE'' None)
    else decodeStreamReadItem concreteRoute extended reader)"

record streamReadCursor =
  rcLastResource :: nat
  rcLastArea :: "nat option"
  rcLastRealm :: "nat option"
  rcLastGlobal :: "nat option"
  rcHasMore :: bool
  rcFingerprint :: "nat option"
  rcWatermark :: "nat option"

definition isGlobalSelector :: "jsstr \<Rightarrow> bool" where
  "isGlobalSelector selector \<longleftrightarrow> classifyStreamSelectorScope selector = Some ScopeGlobal"

definition readStreamCursor :: "bool \<Rightarrow> reader \<Rightarrow> (streamReadCursor \<times> reader) result" where
  "readStreamCursor extended reader =
    andThen (readU64BE reader) (\<lambda>(lastResource, reader).
    andThen (readOptionalU64 reader) (\<lambda>(lastArea, reader).
    andThen (readOptionalU64 reader) (\<lambda>(lastRealm, reader).
    andThen (readOptionalIf extended reader) (\<lambda>(lastGlobal, reader).
    andThen (readU8 reader) (\<lambda>(hasMoreFlag, reader).
    if hasMoreFlag \<noteq> 0 \<and> hasMoreFlag \<noteq> 1
      then Inl (StreamError ''READ_INVALID_RESPONSE'' None)
    else
      andThen (readOptionalIf extended reader) (\<lambda>(fingerprint, reader).
      andThen (readOptionalIf extended reader) (\<lambda>(watermark, reader).
      Inr (\<lparr>rcLastResource = lastResource, rcLastArea = lastArea, rcLastRealm = lastRealm,
            rcLastGlobal = lastGlobal, rcHasMore = (hasMoreFlag = 1), rcFingerprint = fingerprint,
            rcWatermark = watermark\<rparr>, reader))))))))"

definition streamDecodeReadResponse ::
  "jsstr \<Rightarrow> bytes \<Rightarrow> (streamReadItem list \<times> streamReadCursor option) reply result" where
  "streamDecodeReadResponse selector = streamDecodeResponse 604 (\<lambda>d.
     if \<not> isStreamSelectorShape selector then Inl (StreamError ''READ_INVALID_RESPONSE'' None)
     else if length d = 0 then Inr ([], None)
     else
       andThen (readU8 (createBufferReader d)) (\<lambda>(session, envelope).
       if session \<noteq> 0 then Inl (StreamError ''READ_INVALID_RESPONSE'' None)
       else
         andThen (readU32BE envelope) (\<lambda>(dataLength, envelope).
         if dataLength \<noteq> remainingBytes envelope
           then Inl (StreamError ''READ_INVALID_RESPONSE'' None)
         else
           andThen (readBytes dataLength envelope) (\<lambda>(body, _).
           let extended = isGlobalSelector selector in
           andThen (readU32BE (createBufferReader body)) (\<lambda>(count, reader).
           andThen (readTimes count (readRoutedItem extended) reader) (\<lambda>(items, reader).
           andThen (readStreamCursor extended reader) (\<lambda>(cursor, reader).
           if \<not> isEOF reader then Inl PlainError else Inr (items, Some cursor))))))))"

definition streamDecodeLastResponse :: "jsstr \<Rightarrow> bytes \<Rightarrow> streamRecord option reply result" where
  "streamDecodeLastResponse route = streamDecodeResponse 605 (\<lambda>d.
     if length d = 0 then Inr None
     else
       andThen (decodeStreamRecord route False (createBufferReader d)) (\<lambda>(rec, reader).
       if \<not> isEOF reader then Inl (StreamError ''LAST_INVALID_RESPONSE'' None)
       else Inr (Some rec)))"

record streamMetadata =
  smFirstOffset :: nat
  smLastOffset :: nat
  smRecordCount :: nat
  smMaxBatchEvents :: nat
  smMaxBatchBytes :: nat
  smTtlSeconds :: "nat option"
  smAreaWatermark :: nat
  smRealmWatermark :: nat

definition streamDecodeMetadataResponse :: "bytes \<Rightarrow> streamMetadata option reply result" where
  "streamDecodeMetadataResponse = streamDecodeResponse 606 (\<lambda>d.
     if length d = 0 then Inr None
     else
       andThen (readOptionalU64 (createBufferReader d)) (\<lambda>(firstOffset, reader).
       andThen (readOptionalU64 reader) (\<lambda>(lastOffset, reader).
       andThen (readU64BE reader) (\<lambda>(recordCount, reader).
       andThen (readU64BE reader) (\<lambda>(maxBatchEvents, reader).
       andThen (readU64BE reader) (\<lambda>(maxBatchBytes, reader).
       andThen (readOptionalU64 reader) (\<lambda>(ttlSeconds, reader).
       andThen (readU64BE reader) (\<lambda>(areaWatermark, reader).
       andThen (readU64BE reader) (\<lambda>(realmWatermark, reader).
       Inr (Some \<lparr>smFirstOffset = (case firstOffset of Some v \<Rightarrow> v | None \<Rightarrow> 0),
         smLastOffset = (case lastOffset of Some v \<Rightarrow> v | None \<Rightarrow> 0),
         smRecordCount = recordCount, smMaxBatchEvents = maxBatchEvents,
         smMaxBatchBytes = maxBatchBytes, smTtlSeconds = ttlSeconds,
         smAreaWatermark = areaWatermark, smRealmWatermark = realmWatermark\<rparr>))))))))))"

text \<open>
  The payload of a notification is JSON; \<open>parse\<close> stands for \<^verbatim>\<open>JSON.parse\<close> and \<open>none\<close> for the
  empty object that replaces an unreadable or empty payload.
\<close>

record 'j streamNotification =
  stnSubId :: nat
  stnRoute :: jsstr
  stnRaw :: bytes
  stnParsed :: 'j

definition streamDecodeNotification ::
  "(jsstr \<Rightarrow> 'j option) \<Rightarrow> 'j \<Rightarrow> bytes \<Rightarrow> 'j streamNotification result" where
  "streamDecodeNotification parse none pl =
    andThen (readU64BE (createBufferReader pl)) (\<lambda>(subId, reader).
    andThen (readRoute reader) (\<lambda>(route, reader).
    andThen (readBlob reader) (\<lambda>(raw, _).
    Inr \<lparr>stnSubId = subId, stnRoute = route, stnRaw = raw,
         stnParsed = (if length raw > 0
           then (case parse (utf8Decode raw) of Some j \<Rightarrow> j | None \<Rightarrow> none) else none)\<rparr>)))"

definition flattenStreamReadItems :: "streamReadItem list \<Rightarrow> streamRecord list" where
  "flattenStreamReadItems items =
    concat (map (\<lambda>it. case it of EventItem _ rec \<Rightarrow> [rec] | _ \<Rightarrow> []) items)"

section \<open>Layout of the requests\<close>

definition nonEmpty :: "'a list option \<Rightarrow> 'a list option" where
  "nonEmpty v = (case v of Some (x # xs) \<Rightarrow> Some (x # xs) | _ \<Rightarrow> None)"

lemma length_optBlob [simp]: "length (optField blob v) = 1 + optBlobSize v"
  by (cases v) (simp_all add: optField_def optBlobSize_def)

lemma length_optU64 [simp]: "length (optField (be 8) v) = 1 + optU64Size v"
  by (cases v) (simp_all add: optField_def optU64Size_def)

lemma putOptBlob_Out [layout_simps]:
  "1 + optBlobSize v \<le> k \<Longrightarrow>
    putOptBlob v (Out d k) = Inr (Out (d @ optField blob v) (k - (1 + optBlobSize v)))"
  by (cases v) (simp_all add: putOptBlob_def optBlobSize_def optField_def layout_simps)

lemma putOptU64_Out [layout_simps]:
  "1 + optU64Size v \<le> k \<Longrightarrow>
    putOptU64 v (Out d k) = Out (d @ optField (be 8) v) (k - (1 + optU64Size v))"
  by (cases v) (simp_all add: putOptU64_def optU64Size_def optField_def layout_simps)

lemma streamEncodeBegin_layout:
  "streamEncodeBegin route m = Inr (strField route @ optField blob (nonEmpty m))"
  by (cases m; cases "the m")
    (simp_all add: streamEncodeBegin_def nonEmpty_def optField_def layout_simps)

lemma streamEncodeAppend_layout:
  "streamEncodeAppend sid off body meta disc =
    Inr (be 8 sid @ be 8 off @ blob body @ optField blob meta @
      optField strField (nonEmpty disc))"
proof -
  have d: "optField strField (nonEmpty disc) = optField blob (case disc of
      Some d \<Rightarrow> if length d > 0 then Some (utf8Encode d) else None | None \<Rightarrow> None)"
    by (cases disc; cases "the disc") (simp_all add: nonEmpty_def optField_def strField_def blob_def)
  show ?thesis
    unfolding d by (simp add: streamEncodeAppend_def layout_simps)
qed

lemma streamEncodeCommit_layout:
  "streamEncodeCommit sid mode = be 8 sid @ [if mode = ''Sync'' then 1 else 0]"
  by (simp add: streamEncodeCommit_def layout_simps)

lemma streamEncodeRollback_layout: "streamEncodeRollback sid = be 8 sid"
  by (simp add: streamEncodeRollback_def layout_simps)

fun clauseBytes :: "streamFilterClause \<Rightarrow> bytes" where
  "clauseBytes (Equals v) = 0 # strField v"
| "clauseBytes (NotEquals v) = 1 # strField v"
| "clauseBytes (StartsWith v) = 2 # strField v"
| "clauseBytes (AnyOf vs) = 3 # be 4 (int (length vs)) @ concat (map strField vs)"

definition filterBytes :: "streamFilterClause list \<Rightarrow> bytes" where
  "filterBytes cs = 0 # 0xf1 # be 4 (int (length cs)) @ concat (map clauseBytes cs)"

lemma loops_eta:
  "writeStrings [] = Inr"
  "writeStrings (s # ss) = (\<lambda>w. andThen (writeString s w) (writeStrings ss))"
  "encodeStreamFilterClause (Equals v) = (\<lambda>w. andThen (writeU8 0 w) (writeString v))"
  "encodeStreamFilterClause (NotEquals v) = (\<lambda>w. andThen (writeU8 1 w) (writeString v))"
  "encodeStreamFilterClause (StartsWith v) = (\<lambda>w. andThen (writeU8 2 w) (writeString v))"
  "encodeStreamFilterClause (AnyOf vs) =
    (\<lambda>w. andThen (writeU8 3 w) (\<lambda>w. andThen (writeU32BE (int (length vs)) w) (writeStrings vs)))"
  "writeClauses [] = Inr"
  "writeClauses (c # cs) = (\<lambda>w. andThen (encodeStreamFilterClause c w) (writeClauses cs))"
  by (rule ext, simp)+

lemma appends_byte: "appends f a \<Longrightarrow> 0 \<le> b \<Longrightarrow> b < 256 \<Longrightarrow>
    appends (\<lambda>w. andThen (writeU8 b w) f) (word_of_int b # a)"
  using appends_seq [OF appends_U8 [of b], of f a] by simp

lemma appends_writeStrings: "appends (writeStrings ss) (concat (map strField ss))"
proof (induction ss)
  case Nil
  then show ?case by (simp add: loops_eta appends_Inr)
next
  case (Cons s ss)
  then have "appends (\<lambda>w. andThen (writeString s w) (writeStrings ss))
      (strField s @ concat (map strField ss))"
    by (intro appends_seq appends_String)
  then show ?case by (simp add: loops_eta)
qed

lemma appends_clause: "appends (encodeStreamFilterClause c) (clauseBytes c)"
proof (cases c)
  case (Equals v)
  then show ?thesis using appends_byte [OF appends_String [of v], of 0] by (simp add: loops_eta)
next
  case (NotEquals v)
  then show ?thesis using appends_byte [OF appends_String [of v], of 1] by (simp add: loops_eta)
next
  case (StartsWith v)
  then show ?thesis using appends_byte [OF appends_String [of v], of 2] by (simp add: loops_eta)
next
  case (AnyOf vs)
  have "appends (\<lambda>w. andThen (writeU32BE (int (length vs)) w) (writeStrings vs))
      (be 4 (int (length vs)) @ concat (map strField vs))"
    by (intro appends_seq appends_U32BE appends_writeStrings)
  from appends_byte [OF this, of 3] AnyOf show ?thesis by (simp add: loops_eta)
qed

lemma appends_writeClauses: "appends (writeClauses cs) (concat (map clauseBytes cs))"
proof (induction cs)
  case Nil
  then show ?case by (simp add: loops_eta appends_Inr)
next
  case (Cons c cs)
  then have "appends (\<lambda>w. andThen (encodeStreamFilterClause c w) (writeClauses cs))
      (clauseBytes c @ concat (map clauseBytes cs))"
    by (intro appends_seq appends_clause)
  then show ?case by (simp add: loops_eta)
qed

lemma appends_filterSet: "appends (encodeStreamFilterSet cs) (filterBytes cs)"
proof -
  have "appends (\<lambda>w. andThen (writeU32BE (int (length cs)) w) (writeClauses cs))
      (be 4 (int (length cs)) @ concat (map clauseBytes cs))"
    by (intro appends_seq appends_U32BE appends_writeClauses)
  then have "appends (\<lambda>w. andThen (writeU8 0xf1 w) (\<lambda>w.
      andThen (writeU32BE (int (length cs)) w) (writeClauses cs)))
      (word_of_int 0xf1 # be 4 (int (length cs)) @ concat (map clauseBytes cs))"
    by (rule appends_byte) simp_all
  from appends_byte [OF this, of 0] show ?thesis
    by (simp add: encodeStreamFilterSet_def [abs_def] filterBytes_def)
qed

definition readRequestBytes :: "jsstr \<Rightarrow> int \<Rightarrow> int \<Rightarrow> streamWireReadOptions \<Rightarrow> bytes" where
  "readRequestBytes route start limit opts =
    strField route @ be 8 start @ be 8 limit @ optField (be 8) (roMaxBytes opts) @
    optField blob (map_option filterBytes (nonEmpty (roFilter opts))) @
    optField (be 8) (roCursorFingerprint opts) @ optField (be 8) (roCapturedWatermark opts)"

lemma streamEncodeRead_layout:
  "streamEncodeRead route start limit opts =
    (if isSafeInteger limit \<and> 0 \<le> jsInt limit
     then Inr (readRequestBytes route start (jsInt limit) opts) else Inl RangeError)"
proof -
  have f: "(case roFilter opts of
               Some clauses \<Rightarrow>
                 if length clauses > 0
                 then andThen (encodeStreamFilterSet clauses (createBufferWriter 64))
                        (\<lambda>w. Inr (Some (getBuffer w)))
                 else Inr None
             | None \<Rightarrow> Inr None) = Inr (map_option filterBytes (nonEmpty (roFilter opts)))"
  proof (cases "nonEmpty (roFilter opts)")
    case None
    then show ?thesis by (auto simp: nonEmpty_def split: option.splits list.splits)
  next
    case (Some cs)
    have "andThen (encodeStreamFilterSet cs (createBufferWriter 64)) (\<lambda>w. Inr (Some (getBuffer w))) =
        andThen (andThen (encodeStreamFilterSet cs (createBufferWriter 64))
          (\<lambda>w. Inr (getBuffer w))) (\<lambda>b. Inr (Some b))"
      by (simp add: andThen_assoc)
    also have "\<dots> = Inr (Some (filterBytes cs))"
      by (simp add: appends_run [OF appends_filterSet])
    finally show ?thesis
      using Some by (auto simp: nonEmpty_def split: option.splits list.splits)
  qed
  show ?thesis
  proof (cases limit)
    case (JInt i)
    show ?thesis
    proof (cases "0 \<le> i \<and> i \<le> maxSafeInteger")
      case True
      with JInt show ?thesis
        by (simp add: streamEncodeRead_def f layout_simps readRequestBytes_def isSafeInteger_def
            jsInt_def)
    next
      case False
      then have "\<not> isSafeInteger limit \<or> jsInt limit < 0"
        using JInt by (auto simp: isSafeInteger_def jsInt_def)
      then show ?thesis
        by (auto simp: streamEncodeRead_def f routePayload_eq alloc_Out putBytes_Out
            putU64Number_invalid Let_def)
    qed
  next
    case (JNonInt p)
    then show ?thesis
      by (simp add: streamEncodeRead_def f layout_simps isSafeInteger_def)
  qed
qed

section \<open>Decoding what the broker writes\<close>

definition optOk :: "('a \<Rightarrow> bool) \<Rightarrow> 'a option \<Rightarrow> bool" where
  "optOk ok v \<longleftrightarrow> (case v of None \<Rightarrow> True | Some x \<Rightarrow> ok x)"

abbreviation natField :: "nat option \<Rightarrow> bytes" where
  "natField \<equiv> optField (\<lambda>n. be 8 (int n))"

abbreviation u64Ok :: "nat \<Rightarrow> bool" where
  "u64Ok n \<equiv> n < 18446744073709551616"

lemma readOptionalU64_field [reader_simps]:
  "optOk u64Ok v \<Longrightarrow> readOptionalU64 (In p (natField v @ t)) = Inr (v, In (p @ natField v) t)"
  by (cases v) (simp_all add: readOptionalU64_def optField_def optOk_def optional_absent
      u64.optional_put)

definition natFieldIf :: "bool \<Rightarrow> nat option \<Rightarrow> bytes" where
  "natFieldIf extended v = (if extended then natField v else [])"

definition optOkIf :: "bool \<Rightarrow> nat option \<Rightarrow> bool" where
  "optOkIf extended v \<longleftrightarrow> (if extended then optOk u64Ok v else v = None)"

lemma readOptionalIf_field [reader_simps]:
  "optOkIf x v \<Longrightarrow> readOptionalIf x (In p (natFieldIf x v @ t)) = Inr (v, In (p @ natFieldIf x v) t)"
  by (simp add: readOptionalIf_def natFieldIf_def optOkIf_def readOptionalU64_field split: if_splits)

lemmas readOptionalIf_field_end [reader_simps] = readOptionalIf_field [where t = "[]", simplified]

lemma streamReadOptionalBytes_field [reader_simps]:
  "optOk wireBlob v \<Longrightarrow>
    streamReadOptionalBytes (In p (optField blob v @ t)) = Inr (v, In (p @ optField blob v) t)"
  by (cases v) (simp_all add: streamReadOptionalBytes_def optField_def optOk_def reader_simps)

lemma readOptionalU64_stays: "readOptionalU64 r = Inr (v, r') \<Longrightarrow> stays r r'"
  by (auto simp: readOptionalU64_def readOptional_def elim!: andThen_InrE dest!: stays_dests
      split: if_splits intro: stays_trans)

lemma readOptionalIf_stays: "validReader r \<Longrightarrow> readOptionalIf x r = Inr (v, r') \<Longrightarrow> stays r r'"
  by (auto simp: readOptionalIf_def dest: readOptionalU64_stays intro: stays_refl split: if_splits)

lemma streamReadOptionalBytes_stays: "streamReadOptionalBytes r = Inr (v, r') \<Longrightarrow> stays r r'"
  by (auto simp: streamReadOptionalBytes_def elim!: andThen_InrE dest!: stays_dests
      split: if_splits intro: stays_trans)

definition recordBytes :: "bool \<Rightarrow> streamRecord \<Rightarrow> bytes" where
  "recordBytes extended rec = be 8 (int (srOffset rec)) @ natField (srAreaOffset rec) @
     natField (srRealmOffset rec) @ natFieldIf extended (srGlobalOffset rec) @ blob (srBody rec) @
     optField blob (srMetadata rec) @ be 8 (int (srTimestamp rec))"

definition recordOk :: "bool \<Rightarrow> streamRecord \<Rightarrow> bool" where
  "recordOk extended rec \<longleftrightarrow> u64Ok (srOffset rec) \<and> optOk u64Ok (srAreaOffset rec) \<and>
     optOk u64Ok (srRealmOffset rec) \<and> optOkIf extended (srGlobalOffset rec) \<and>
     wireBlob (srBody rec) \<and> optOk wireBlob (srMetadata rec) \<and> u64Ok (srTimestamp rec)"

lemma decodeStreamRecord_bytes [reader_simps]:
  "recordOk x rec \<Longrightarrow> srRoute rec = route \<Longrightarrow>
    decodeStreamRecord route x (In p (recordBytes x rec @ t)) = Inr (rec, In (p @ recordBytes x rec) t)"
  by (cases rec) (simp add: decodeStreamRecord_def recordOk_def recordBytes_def reader_simps)

lemmas decodeStreamRecord_bytes_end = decodeStreamRecord_bytes [where t = "[]", simplified]

lemma decodeStreamRecord_stays:
  "decodeStreamRecord route x r = Inr (v, r') \<Longrightarrow> stays r r'"
  apply (auto simp: decodeStreamRecord_def elim!: andThen_InrE
      dest!: stays_dests readOptionalU64_stays streamReadOptionalBytes_stays)
  apply (meson readOptionalIf_stays stays_trans stays_valid)
  done

definition reasonByte :: "streamFilteredReason option \<Rightarrow> byte" where
  "reasonByte r = (case r of None \<Rightarrow> 0 | Some ServerFilter \<Rightarrow> 1 | Some Permission \<Rightarrow> 2
     | Some Projection \<Rightarrow> 3)"

lemma decodeReason_bytes [reader_simps]:
  "decodeStreamFilteredReason (In p (reasonByte r # t)) = Inr (r, In (p @ [reasonByte r]) t)"
  by (auto simp: decodeStreamFilteredReason_def reasonByte_def reader_simps split: option.splits
      streamFilteredReason.splits)

lemma decodeReason_stays: "decodeStreamFilteredReason r = Inr (v, r') \<Longrightarrow> stays r r'"
  by (auto simp: decodeStreamFilteredReason_def elim!: andThen_InrE dest!: stays_dests
      split: if_splits)

fun itemBytes :: "bool \<Rightarrow> streamReadItem \<Rightarrow> bytes" where
  "itemBytes x (EventItem route rec) = strField route @ 0 # recordBytes x rec"
| "itemBytes x (FilteredItem route off reason) =
    strField route @ 1 # be 8 (int off) @ [reasonByte reason]"
| "itemBytes x (FilteredRangeItem route lo hi reason) =
    strField route @ 2 # be 8 (int lo) @ be 8 (int hi) @ [reasonByte reason]"

fun itemRouteOf :: "streamReadItem \<Rightarrow> jsstr" where
  "itemRouteOf (EventItem route rec) = route"
| "itemRouteOf (FilteredItem route off reason) = route"
| "itemRouteOf (FilteredRangeItem route lo hi reason) = route"

definition itemOk :: "bool \<Rightarrow> streamReadItem \<Rightarrow> bool" where
  "itemOk x it \<longleftrightarrow> wireString (itemRouteOf it) \<and>
     isRouteShape (itemRouteOf it) (js ''stream'') 3 False \<and>
     (case it of EventItem route rec \<Rightarrow> recordOk x rec \<and> srRoute rec = route
      | FilteredItem route off reason \<Rightarrow> u64Ok off
      | FilteredRangeItem route lo hi reason \<Rightarrow> u64Ok lo \<and> u64Ok hi)"

lemma readRoutedItem_bytes:
  "itemOk x it \<Longrightarrow> readRoutedItem x (In p (itemBytes x it @ t)) = Inr (it, In (p @ itemBytes x it) t)"
  by (cases it) (simp_all add: readRoutedItem_def decodeStreamReadItem_def itemOk_def reader_simps)

lemma readRoutedItem_stays: "readRoutedItem x r = Inr (v, r') \<Longrightarrow> stays r r'"
  by (auto simp: readRoutedItem_def decodeStreamReadItem_def elim!: andThen_InrE
      dest!: stays_dests decodeStreamRecord_stays decodeReason_stays split: if_splits)
    (meson stays_trans)+

interpretation routedItem: wire_field "readRoutedItem x" "itemBytes x" "itemOk x" for x
  by unfold_locales (auto intro: readRoutedItem_stays readRoutedItem_bytes)

definition cursorBytes :: "bool \<Rightarrow> streamReadCursor \<Rightarrow> bytes" where
  "cursorBytes x c = be 8 (int (rcLastResource c)) @ natField (rcLastArea c) @
     natField (rcLastRealm c) @ natFieldIf x (rcLastGlobal c) @ (if rcHasMore c then 1 else 0) #
     natFieldIf x (rcFingerprint c) @ natFieldIf x (rcWatermark c)"

definition cursorOk :: "bool \<Rightarrow> streamReadCursor \<Rightarrow> bool" where
  "cursorOk x c \<longleftrightarrow> u64Ok (rcLastResource c) \<and> optOk u64Ok (rcLastArea c) \<and>
     optOk u64Ok (rcLastRealm c) \<and> optOkIf x (rcLastGlobal c) \<and> optOkIf x (rcFingerprint c) \<and>
     optOkIf x (rcWatermark c)"

lemma readStreamCursor_bytes:
  "cursorOk x c \<Longrightarrow> readStreamCursor x (In p (cursorBytes x c)) = Inr (c, In (p @ cursorBytes x c) [])"
  by (cases c) (simp add: readStreamCursor_def cursorOk_def cursorBytes_def reader_simps)

definition readPageBytes :: "bool \<Rightarrow> streamReadItem list \<Rightarrow> streamReadCursor \<Rightarrow> bytes" where
  "readPageBytes x items c = be 4 (int (length items)) @ concat (map (itemBytes x) items) @
     cursorBytes x c"

lemma streamDecodeRead_page:
  assumes "isStreamSelectorShape selector" and "x = isGlobalSelector selector"
    and "list_all (itemOk x) items" and "length items < 4294967296" and "cursorOk x c"
    and "wireBlob (readPageBytes x items c)"
  shows "streamDecodeReadResponse selector (0 # 0 # blob (readPageBytes x items c)) =
    Inr (Accepted (items, Some c))"
proof -
  have "readBytes (length b) (In p b) = Inr (b, In (p @ b) [])" for p b
    using readBytes_In [of b "length b" p "[]"] by simp
  with assms routedItem.times_put [OF assms(3), of "be 4 (int (length items))" "cursorBytes x c"]
  show ?thesis
    by (simp add: streamDecodeReadResponse_def streamDecodeResponse_def streamOperationName_def
        blob_def wireBlob_def reader_simps Let_def)
      (simp add: readPageBytes_def reader_simps readStreamCursor_bytes)
qed

text \<open>Every item of an accepted page is on a concrete three-segment stream route.\<close>

lemma readRoutedItem_route:
  "readRoutedItem x r = Inr (it, r') \<Longrightarrow> isRouteShape (itemRouteOf it) (js ''stream'') 3 False"
  by (auto simp: readRoutedItem_def decodeStreamReadItem_def elim!: andThen_InrE split: if_splits)

lemma streamDecodeLast_record:
  "recordOk False rec \<Longrightarrow> srRoute rec = route \<Longrightarrow>
    streamDecodeLastResponse route (0 # recordBytes False rec) = Inr (Accepted (Some rec))"
proof -
  assume "recordOk False rec" "srRoute rec = route"
  moreover have "recordBytes False rec \<noteq> []" by (simp add: recordBytes_def)
  ultimately show ?thesis
    by (simp add: streamDecodeLastResponse_def streamDecodeResponse_def streamOperationName_def
        reader_simps decodeStreamRecord_bytes_end)
qed

lemma streamDecodeAppend_offset:
  "u64Ok off \<Longrightarrow>
    streamDecodeAppendResponse (0 # be 4 8 @ be 8 (int off)) = Inr (Accepted (Some off))"
  using readU32BE_be [of 8 "[]" "be 8 (int off)"]
  by (simp add: streamDecodeAppendResponse_def streamDecodeResponse_def streamOperationName_def
      reader_simps del: be.simps)

section \<open>Properties\<close>

text \<open>
  A page of a stream, events, filtered positions and ranges with their routes and a cursor after
  them, is decoded to the items and the cursor it was made of.
\<close>

theorem stream_page_decodes:
  assumes "isStreamSelectorShape selector" and "x = isGlobalSelector selector"
    and "list_all (itemOk x) items" and "length items < 4294967296" and "cursorOk x c"
    and "wireBlob (readPageBytes x items c)"
  shows "streamDecodeReadResponse selector (0 # 0 # blob (readPageBytes x items c)) =
    Inr (Accepted (items, Some c))"
  using assms by (rule streamDecodeRead_page)

lemma stream_page_decodes_witness:
  "streamDecodeReadResponse (js ''stream://a/b/c'')
      (0 # 0 # blob (readPageBytes False []
        \<lparr>rcLastResource = 7, rcLastArea = None, rcLastRealm = Some 3, rcLastGlobal = None,
         rcHasMore = True, rcFingerprint = None, rcWatermark = None\<rparr>)) =
    Inr (Accepted ([], Some \<lparr>rcLastResource = 7, rcLastArea = None, rcLastRealm = Some 3,
         rcLastGlobal = None, rcHasMore = True, rcFingerprint = None, rcWatermark = None\<rparr>))"
proof (rule stream_page_decodes)
  show "isStreamSelectorShape (js ''stream://a/b/c'')"
    "False = isGlobalSelector (js ''stream://a/b/c'')"
    using length_utf8Encode [of "js ''stream://a/b/c''"]
    by (simp_all add: isGlobalSelector_def isStreamSelectorShape_def classifyStreamSelectorScope_def
        route_eval)
qed (simp_all add: cursorOk_def optOk_def optOkIf_def wireBlob_def readPageBytes_def cursorBytes_def
    natFieldIf_def optField_def)

end
