(* ===== verification/RpcCodec.thy ===== *)
theory RpcCodec
  imports Response
begin

text \<open>
  The RPC codec of \<^verbatim>\<open>src/domains/rpc/codec.ts\<close>, which works on byte offsets: requests and response
  frames with their 16-byte correlation identifier, the shape tests that classify pushed frames,
  lifecycle controls, terminal error bodies, and the pool of correlation buffers.
\<close>

declare routePayload_eq [layout_simps] Let_def [layout_simps] blob_def [layout_simps]

abbreviation (input) CORRELATION_ID_LENGTH :: nat where
  "CORRELATION_ID_LENGTH \<equiv> 16"

definition MAX_RPC_BUDGET_MS :: nat where
  "MAX_RPC_BUDGET_MS = 86400000"

section \<open>Pooled correlation identifiers\<close>

text \<open>
  The bytes of the random provider are an argument, \<^verbatim>\<open>None\<close> when there is no provider. A buffer
  taken from the pool is overwritten as a whole.
\<close>

definition secureRandomValues :: "bytes option \<Rightarrow> bytes result" where
  "secureRandomValues provider =
    (case provider of None \<Rightarrow> Inl (ProtocolError None) | Some random \<Rightarrow> Inr random)"

definition acquirePooledCorrelationId :: "bytes option \<Rightarrow> bytes list \<Rightarrow> bytes result \<times> bytes list"
where
  "acquirePooledCorrelationId provider pool = (secureRandomValues provider, butlast pool)"

definition maxCorrelationIdPoolSize :: nat where
  "maxCorrelationIdPoolSize = 64"

definition releasePooledCorrelationId :: "bytes \<Rightarrow> bytes list \<Rightarrow> bytes list" where
  "releasePooledCorrelationId correlationId pool =
    (if length correlationId \<noteq> CORRELATION_ID_LENGTH \<or> length pool \<ge> maxCorrelationIdPoolSize
     then pool else pool @ [correlationId])"

definition generateCorrelationId :: "bytes option \<Rightarrow> bytes result" where
  "generateCorrelationId provider = secureRandomValues provider"

section \<open>Shape tests\<close>

definition rpcReadU32 :: "bytes \<Rightarrow> nat \<Rightarrow> nat option" where
  "rpcReadU32 pl off =
    (if off + 4 > length pl then None
     else (case readU32BEAt pl off of Inr v \<Rightarrow> Some v | Inl _ \<Rightarrow> None))"

definition readLengthPrefixedEnd :: "bytes \<Rightarrow> nat \<Rightarrow> nat option" where
  "readLengthPrefixedEnd pl off =
    (case rpcReadU32 pl off of
       None \<Rightarrow> None
     | Some len \<Rightarrow> let e = off + 4 + len in if e > length pl then None else Some e)"

text \<open>The budget, when there is one, and the next offset.\<close>

definition readRemainingBudgetExtension :: "bytes \<Rightarrow> nat \<Rightarrow> (nat option \<times> nat) option" where
  "readRemainingBudgetExtension pl off =
    (if off + 1 > length pl then None
     else (let hasBudget = pl ! off in
       if hasBudget = 0 \<and> off + 1 = length pl then Some (None, length pl)
       else if hasBudget \<noteq> 1 \<or> off + 5 \<noteq> length pl then None
       else (case rpcReadU32 pl (off + 1) of
           None \<Rightarrow> None
         | Some b \<Rightarrow> if b > MAX_RPC_BUDGET_MS then None else Some (Some b, length pl))))"

definition looksLikeInboundRequestPayload :: "bytes \<Rightarrow> bool" where
  "looksLikeInboundRequestPayload pl =
    (if length pl < CORRELATION_ID_LENGTH then False
     else (case readLengthPrefixedEnd pl CORRELATION_ID_LENGTH of
         None \<Rightarrow> False
       | Some routeEnd \<Rightarrow>
           (case readLengthPrefixedEnd pl routeEnd of
              None \<Rightarrow> False
            | Some bodyEnd \<Rightarrow> readRemainingBudgetExtension pl bodyEnd \<noteq> None)))"

text \<open>\<^verbatim>\<open>flags & ~RPC_RESPONSE_FLAGS_SUPPORTED\<close>\<close>

definition unsupportedFlags :: "byte \<Rightarrow> bool" where
  "unsupportedFlags flags \<longleftrightarrow> flags AND NOT 1 \<noteq> 0"

definition looksLikeStreamResponsePayload :: "bytes \<Rightarrow> bool" where
  "looksLikeStreamResponsePayload pl =
    (let off = CORRELATION_ID_LENGTH + 8 in
     if length pl < off + 1 then False
     else if unsupportedFlags (pl ! off) then False
     else readLengthPrefixedEnd pl (off + 1) = Some (length pl))"

section \<open>Requests and responses\<close>

definition readStringFromPayload :: "bytes \<Rightarrow> nat \<Rightarrow> (jsstr \<times> nat) result" where
  "readStringFromPayload pl off =
    (if off + 4 > length pl then Inl (ProtocolError None)
     else andThen (readU32BEAt pl off) (\<lambda>len.
       let off = off + 4 in
       if len = 0 then Inr ([], off)
       else if off + len > length pl then Inl (ProtocolError None)
       else Inr (utf8Decode (take len (drop off pl)), off + len)))"

definition assertCorrelationIdLength :: "bytes \<Rightarrow> unit result" where
  "assertCorrelationIdLength correlationId =
    (if length correlationId \<noteq> CORRELATION_ID_LENGTH then Inl (ProtocolError None) else Inr ())"

definition validateRemainingBudget :: "jsnum option \<Rightarrow> unit result" where
  "validateRemainingBudget budget =
    (case budget of
       None \<Rightarrow> Inr ()
     | Some b \<Rightarrow>
         if \<not> isInteger b \<or> jsInt b < 0 \<or> jsInt b > int MAX_RPC_BUDGET_MS
         then Inl (ProtocolError None) else Inr ())"

text \<open>The four stores \<^verbatim>\<open>(v >>> 24) & 0xff\<close>, \<dots>\<close>

definition putUnsigned32 :: "int \<Rightarrow> cursor \<Rightarrow> cursor" where
  "putUnsigned32 v c =
    putU8 (ubyteOf32 0 v) (putU8 (ubyteOf32 8 v) (putU8 (ubyteOf32 16 v) (putU8 (ubyteOf32 24 v) c)))"

definition rpcEncodeRequest :: "bytes \<Rightarrow> jsstr \<Rightarrow> bytes \<Rightarrow> jsnum option \<Rightarrow> bytes result" where
  "rpcEncodeRequest correlationId route body budget =
    andThen (assertCorrelationIdLength correlationId) (\<lambda>_.
    andThen (validateRemainingBudget budget) (\<lambda>_.
    andThen (routePayload route) (\<lambda>routeBytes.
      let c = alloc (CORRELATION_ID_LENGTH + length routeBytes + 4 + length body + 1
                + (case budget of None \<Rightarrow> 0 | Some _ \<Rightarrow> 4)) in
      andThen (putBytes correlationId c) (\<lambda>c.
      andThen (putBytes routeBytes c) (\<lambda>c.
      andThen (putBytes body (putU32 (int (length body)) c)) (\<lambda>c.
      Inr (finish (case budget of
                     None \<Rightarrow> putU8 0 c
                   | Some b \<Rightarrow> putUnsigned32 (jsInt b) (putU8 1 c)))))))))"

definition rpcEncodeCallRequest :: "bytes \<Rightarrow> jsstr \<Rightarrow> bytes \<Rightarrow> jsnum option \<Rightarrow> bytes result" where
  "rpcEncodeCallRequest correlationId route body budget =
    rpcEncodeRequest correlationId route body budget"

text \<open>The status byte of REQUEST, SUBSCRIBE_WORKER and UNSUBSCRIBE_WORKER responses.\<close>

definition rpcDecodeStatus :: "bytes \<Rightarrow> nat result" where
  "rpcDecodeStatus pl =
    (if length pl = 0 then Inl (ProtocolError None)
     else andThen (readU8 (createBufferReader pl)) (\<lambda>(status, _). Inr status))"

definition rpcEncodeResponse :: "bytes \<Rightarrow> int \<Rightarrow> bytes \<Rightarrow> bool \<Rightarrow> bytes result" where
  "rpcEncodeResponse correlationId sequence body streamEnd =
    andThen (assertCorrelationIdLength correlationId) (\<lambda>_.
      let c = alloc (CORRELATION_ID_LENGTH + 8 + 1 + 4 + length body) in
      andThen (putBytes correlationId c) (\<lambda>c.
      let c = putU8 (if streamEnd then 1 else 0) (putU64 sequence c) in
      andThen (putBytes body (putU32 (int (length body)) c)) (\<lambda>c. Inr (finish c))))"

record rpcResponse =
  rrCorrelationId :: bytes
  rrSequence :: nat
  rrBody :: bytes
  rrStreamEnd :: bool

definition rpcDecodeResponse :: "bytes \<Rightarrow> rpcResponse result" where
  "rpcDecodeResponse pl =
    (if length pl < CORRELATION_ID_LENGTH + 8 + 1 + 4 then Inl (ProtocolError None)
     else (let correlationId = take CORRELATION_ID_LENGTH pl; off = CORRELATION_ID_LENGTH in
       andThen (readU32BEAt pl off) (\<lambda>high.
       andThen (readU32BEAt pl (off + 4)) (\<lambda>low.
       let sequence = push_bit 32 high OR low; off = off + 8; flags = pl ! off; off = off + 1 in
       if unsupportedFlags flags then Inl (ProtocolError None)
       else
         andThen (readU32BEAt pl off) (\<lambda>bodyLen.
         let off = off + 4 in
         if off + bodyLen > length pl then Inl (ProtocolError None)
         else (let body = take bodyLen (drop off pl); off = off + bodyLen;
                   streamEnd = (flags AND 1 \<noteq> 0) in
           if off \<noteq> length pl then Inl (ProtocolError None)
           else Inr \<lparr>rrCorrelationId = correlationId, rrSequence = sequence, rrBody = body,
                     rrStreamEnd = streamEnd\<rparr>))))))"

record rpcResponseKey =
  rkCorrelationKey :: nat
  rkSequence :: nat
  rkBody :: bytes
  rkStreamEnd :: bool

definition rpcDecodeResponseKey :: "bytes \<Rightarrow> rpcResponseKey result" where
  "rpcDecodeResponseKey pl =
    (if length pl < CORRELATION_ID_LENGTH + 8 + 1 + 4 then Inl (ProtocolError None)
     else
       andThen (readU128BEAt pl 0) (\<lambda>correlationKey.
       let off = 0 + CORRELATION_ID_LENGTH in
       andThen (readU32BEAt pl off) (\<lambda>high.
       andThen (readU32BEAt pl (off + 4)) (\<lambda>low.
       let sequence = push_bit 32 high OR low; off = off + 8; flags = pl ! off; off = off + 1 in
       if unsupportedFlags flags then Inl (ProtocolError None)
       else
         andThen (readU32BEAt pl off) (\<lambda>bodyLen.
         let off = off + 4 in
         if off + bodyLen > length pl then Inl (ProtocolError None)
         else (let body = take bodyLen (drop off pl); off = off + bodyLen;
                   streamEnd = (flags AND 1 \<noteq> 0) in
           if off \<noteq> length pl then Inl (ProtocolError None)
           else Inr \<lparr>rkCorrelationKey = correlationKey, rkSequence = sequence, rkBody = body,
                     rkStreamEnd = streamEnd\<rparr>))))))"

definition rpcEncodeSubscribeWorker :: "jsstr \<Rightarrow> int \<Rightarrow> bool \<Rightarrow> bytes result" where
  "rpcEncodeSubscribeWorker route maxConcurrent supportsCancellation =
    andThen (routePayload route) (\<lambda>routeBytes.
      andThen (putBytes routeBytes (alloc (length routeBytes + 5))) (\<lambda>c.
      Inr (finish (putU8 (if supportsCancellation then 1 else 0) (putU32 maxConcurrent c)))))"

definition rpcEncodeUnsubscribeWorker :: "jsstr \<Rightarrow> bytes result" where
  "rpcEncodeUnsubscribeWorker route = routePayload route"

record rpcErrorBody =
  rebCode :: nat
  rebClass :: nat
  rebEffect :: nat
  rebMessage :: jsstr

text \<open>Any throw while reading is caught and yields \<^verbatim>\<open>null\<close>.\<close>

definition tryDecodeTerminalErrorBody :: "bytes \<Rightarrow> rpcErrorBody option" where
  "tryDecodeTerminalErrorBody pl =
    (if length pl < 9 then None
     else (case
       andThen (readU8 (createBufferReader pl)) (\<lambda>(status, reader).
       if status \<noteq> 1 then Inr None
       else
         andThen (readU16BE reader) (\<lambda>(code, reader).
         andThen (readU8 reader) (\<lambda>(errorClass, reader).
         andThen (readU8 reader) (\<lambda>(effect, reader).
         if code < 6001 \<or> code > 6055 then Inr None
         else if errorClass > 10 \<or> effect > 2 then Inr None
         else
           andThen (readString reader) (\<lambda>(msg, reader).
           if \<not> isEOF reader then Inr None
           else Inr (Some \<lparr>rebCode = code, rebClass = errorClass, rebEffect = effect,
                          rebMessage = msg\<rparr>))))))
       of Inr v \<Rightarrow> v | Inl _ \<Rightarrow> None))"

record rpcInboundRequest =
  riCorrelationId :: bytes
  riRoute :: jsstr
  riBody :: bytes
  riRemainingBudgetMs :: "nat option"

definition rpcDecodeInboundRequest :: "bytes \<Rightarrow> rpcInboundRequest result" where
  "rpcDecodeInboundRequest pl =
    (if 0 + CORRELATION_ID_LENGTH > length pl then Inl (ProtocolError None)
     else (let correlationId = take CORRELATION_ID_LENGTH pl in
       andThen (readStringFromPayload pl CORRELATION_ID_LENGTH) (\<lambda>(route, off).
       if off + 4 > length pl then Inl (ProtocolError None)
       else
         andThen (readU32BEAt pl off) (\<lambda>bodyLen.
         let off = off + 4 in
         if off + bodyLen > length pl then Inl (ProtocolError None)
         else (let body = take bodyLen (drop off pl); off = off + bodyLen in
           case readRemainingBudgetExtension pl off of
             None \<Rightarrow> Inl (ProtocolError None)
           | Some (budget, nextOffset) \<Rightarrow>
               if nextOffset \<noteq> length pl then Inl (ProtocolError None)
               else Inr \<lparr>riCorrelationId = correlationId, riRoute = route, riBody = body,
                         riRemainingBudgetMs = budget\<rparr>)))))"

definition encodeCallerCancellation :: "bytes \<Rightarrow> byte \<Rightarrow> bytes result" where
  "encodeCallerCancellation correlationId reason =
    andThen (assertCorrelationIdLength correlationId) (\<lambda>_.
      let b = (newUint8Array (1 + CORRELATION_ID_LENGTH + 1))[0 := 1] in
      andThen (u8set b correlationId 1) (\<lambda>b. Inr (b[length b - 1 := reason])))"

definition encodeWorkerCleanupAck :: "bytes \<Rightarrow> bytes result" where
  "encodeWorkerCleanupAck correlationId =
    andThen (assertCorrelationIdLength correlationId) (\<lambda>_.
      u8set ((newUint8Array (1 + CORRELATION_ID_LENGTH))[0 := 3]) correlationId 1)"

definition isLifecycleControlPayload :: "bytes \<Rightarrow> bool" where
  "isLifecycleControlPayload pl =
    (if length pl \<noteq> 18 \<or> (pl ! 0 \<noteq> 2 \<and> pl ! 0 \<noteq> 4) then False
     else if pl ! 0 = 2 then unat (pl ! 17) \<ge> 1 \<and> unat (pl ! 17) \<le> 4
     else unat (pl ! 17) \<ge> 1 \<and> unat (pl ! 17) \<le> 6)"

datatype lifecycleControl = WorkerCancellation bytes nat | CancellationResult bytes nat

definition decodeLifecycleControl :: "bytes \<Rightarrow> lifecycleControl result" where
  "decodeLifecycleControl pl =
    (if \<not> isLifecycleControlPayload pl then Inl (ProtocolError None)
     else (let correlationId = take CORRELATION_ID_LENGTH (drop 1 pl);
               v = unat (pl ! (length pl - 1))
           in Inr (if pl ! 0 = 2 then WorkerCancellation correlationId v
                   else CancellationResult correlationId v)))"

section \<open>Layout of the encoders\<close>

lemma putUnsigned32_Out [layout_simps]:
  assumes "4 \<le> k"
  shows "putUnsigned32 v (Out d k) = Out (d @ be 4 v) (k - 4)"
proof -
  have "be 4 v = [ubyteOf32 24 v, ubyteOf32 16 v, ubyteOf32 8 v, ubyteOf32 0 v]"
    by (simp add: be4_eq ubyteOf32_eq byteOf32_eq)
  moreover obtain m where "k = 4 + m" using assms le_Suc_ex by blast
  ultimately show ?thesis by (simp add: putUnsigned32_def putU8_Out)
qed

definition budgetOk :: "jsnum option \<Rightarrow> bool" where
  "budgetOk b \<longleftrightarrow> (case b of None \<Rightarrow> True
     | Some n \<Rightarrow> isInteger n \<and> 0 \<le> jsInt n \<and> jsInt n \<le> int MAX_RPC_BUDGET_MS)"

definition budgetField :: "jsnum option \<Rightarrow> bytes" where
  "budgetField b = (case b of None \<Rightarrow> [0] | Some n \<Rightarrow> 1 # be 4 (jsInt n))"

lemma validateRemainingBudget_eq:
  "validateRemainingBudget b = (if budgetOk b then Inr () else Inl (ProtocolError None))"
  by (auto simp: validateRemainingBudget_def budgetOk_def split: option.splits)

lemma rpcEncodeRequest_layout:
  "rpcEncodeRequest cid route body budget =
    (if length cid = 16 \<and> budgetOk budget
     then Inr (cid @ strField route @ blob body @ budgetField budget)
     else Inl (ProtocolError None))"
  by (cases budget)
    (simp_all add: rpcEncodeRequest_def assertCorrelationIdLength_def validateRemainingBudget_eq
      budgetField_def layout_simps)

lemma rpcEncodeResponse_layout:
  "rpcEncodeResponse cid sq body streamEnd =
    (if length cid = 16 then Inr (cid @ be 8 sq @ (if streamEnd then 1 else 0) # blob body)
     else Inl (ProtocolError None))"
  by (simp add: rpcEncodeResponse_def assertCorrelationIdLength_def layout_simps)

lemma rpcEncodeSubscribeWorker_layout:
  "rpcEncodeSubscribeWorker route n b = Inr (strField route @ be 4 n @ [if b then 1 else 0])"
  by (simp add: rpcEncodeSubscribeWorker_def layout_simps)

section \<open>Reads at an offset inside a payload\<close>

lemma rpcReadU32_at: "length p = off \<Longrightarrow> length x = 4 \<Longrightarrow> rpcReadU32 (p @ x @ t) off = Some (unbe x)"
  by (simp add: rpcReadU32_def readU32BEAt_eq)

lemma rpcReadU32_Some:
  "rpcReadU32 pl off = Some v \<longleftrightarrow> off + 4 \<le> length pl \<and> v = unbe (take 4 (drop off pl))"
  by (auto simp: rpcReadU32_def readU32BEAt_def)

lemma readLengthPrefixedEnd_Some:
  "readLengthPrefixedEnd pl off = Some e \<longleftrightarrow>
    off + 4 \<le> length pl \<and> e = off + 4 + unbe (take 4 (drop off pl)) \<and> e \<le> length pl"
  by (auto simp: readLengthPrefixedEnd_def rpcReadU32_def readU32BEAt_def Let_def)

lemma readStringFromPayload_end:
  "readStringFromPayload pl off = Inr (s, e) \<longleftrightarrow>
    readLengthPrefixedEnd pl off = Some e \<and> s = utf8Decode (take (e - (off + 4)) (drop (off + 4) pl))"
  by (auto simp: readStringFromPayload_def readLengthPrefixedEnd_Some readU32BEAt_def Let_def
      split: if_splits)

section \<open>The shape tests accept exactly what the decoders decode\<close>

lemma budgetExtension_end:
  "readRemainingBudgetExtension pl off = Some (b, e) \<Longrightarrow> e = length pl"
  by (auto simp: readRemainingBudgetExtension_def Let_def split: if_splits option.splits)

lemma rpcDecodeInboundRequest_iff:
  "rpcDecodeInboundRequest pl = Inr q \<longleftrightarrow>
    16 \<le> length pl \<and>
    (\<exists>routeEnd bodyEnd. readLengthPrefixedEnd pl 16 = Some routeEnd \<and>
       readLengthPrefixedEnd pl routeEnd = Some bodyEnd \<and>
       (\<exists>b. readRemainingBudgetExtension pl bodyEnd = Some (b, length pl) \<and>
         q = \<lparr>riCorrelationId = take 16 pl,
              riRoute = utf8Decode (take (routeEnd - 20) (drop 20 pl)),
              riBody = take (bodyEnd - (routeEnd + 4)) (drop (routeEnd + 4) pl),
              riRemainingBudgetMs = b\<rparr>))" (is "?L \<longleftrightarrow> ?R")
proof
  assume L: ?L
  then have len: "16 \<le> length pl" by (auto simp: rpcDecodeInboundRequest_def split: if_splits)
  from L len obtain route e where route: "readStringFromPayload pl 16 = Inr (route, e)"
    by (auto simp: rpcDecodeInboundRequest_def Let_def elim!: andThen_InrE)
  with L len show ?R
    by (auto simp: rpcDecodeInboundRequest_def Let_def readU32BEAt_def readStringFromPayload_end
        readLengthPrefixedEnd_Some split: if_splits option.splits)
next
  assume R: ?R
  then obtain routeEnd bodyEnd b where r: "readLengthPrefixedEnd pl 16 = Some routeEnd"
      "readLengthPrefixedEnd pl routeEnd = Some bodyEnd"
      "readRemainingBudgetExtension pl bodyEnd = Some (b, length pl)"
    and q: "q = \<lparr>riCorrelationId = take 16 pl,
              riRoute = utf8Decode (take (routeEnd - 20) (drop 20 pl)),
              riBody = take (bodyEnd - (routeEnd + 4)) (drop (routeEnd + 4) pl),
              riRemainingBudgetMs = b\<rparr>" and len: "16 \<le> length pl"
    by blast
  have "readStringFromPayload pl 16 = Inr (utf8Decode (take (routeEnd - 20) (drop 20 pl)), routeEnd)"
    using r(1) by (simp add: readStringFromPayload_end)
  then show ?L
    using r(2,3) q len
    by (auto simp: rpcDecodeInboundRequest_def Let_def readU32BEAt_def readLengthPrefixedEnd_Some)
qed

lemma inboundRequest_shape:
  "looksLikeInboundRequestPayload pl \<longleftrightarrow> (\<exists>q. rpcDecodeInboundRequest pl = Inr q)"
  unfolding rpcDecodeInboundRequest_iff looksLikeInboundRequestPayload_def
  using budgetExtension_end
  by (auto split: option.splits)

lemma streamResponse_shape:
  "looksLikeStreamResponsePayload pl \<longleftrightarrow> (\<exists>q. rpcDecodeResponse pl = Inr q)"
  by (auto simp: looksLikeStreamResponsePayload_def rpcDecodeResponse_def Let_def
      readLengthPrefixedEnd_Some readU32BEAt_def)

lemma lifecycle_shape:
  "isLifecycleControlPayload pl \<longleftrightarrow> (\<exists>q. decodeLifecycleControl pl = Inr q)"
  by (simp add: decodeLifecycleControl_def Let_def)

section \<open>Round trips\<close>

definition natBudget :: "jsnum option \<Rightarrow> nat option" where
  "natBudget b = map_option (\<lambda>n. nat (jsInt n)) b"

lemma readLengthPrefixedEnd_blob:
  "wireBlob b \<Longrightarrow> length p = off \<Longrightarrow>
    readLengthPrefixedEnd (p @ blob b @ t) off = Some (off + 4 + length b)"
  by (auto simp: readLengthPrefixedEnd_Some blob_def wireBlob_def)

lemma budgetExtension_field:
  assumes "budgetOk b" and "length p = off"
  shows "readRemainingBudgetExtension (p @ budgetField b) off = Some (natBudget b, off + length (budgetField b))"
proof (cases b)
  case None
  then show ?thesis
    using assms by (simp add: readRemainingBudgetExtension_def budgetField_def natBudget_def nth_append)
next
  case (Some n)
  have "rpcReadU32 ((p @ [1]) @ be 4 (jsInt n) @ []) (Suc off) = Some (unbe (be 4 (jsInt n)))"
    using assms(2) by (intro rpcReadU32_at) simp_all
  moreover have "unbe (be 4 (jsInt n)) = nat (jsInt n)"
    using assms(1) Some by (intro unbe_be_nat) (auto simp: budgetOk_def MAX_RPC_BUDGET_MS_def)
  moreover have "nat (jsInt n) \<le> MAX_RPC_BUDGET_MS"
    using assms(1) Some by (auto simp: budgetOk_def)
  ultimately show ?thesis
    using assms Some by (simp add: readRemainingBudgetExtension_def budgetField_def natBudget_def
        nth_append Let_def)
qed

lemma rpcDecode_encoded:
  assumes "length cid = 16" and "budgetOk budget" and "wireString route" and "wireBlob body"
  shows "rpcDecodeInboundRequest (cid @ strField route @ blob body @ budgetField budget) =
    Inr \<lparr>riCorrelationId = cid, riRoute = route, riBody = body, riRemainingBudgetMs = natBudget budget\<rparr>"
proof -
  let ?pl = "cid @ strField route @ blob body @ budgetField budget"
  let ?re = "20 + length (utf8Encode route)"
  let ?be = "?re + 4 + length body"
  have s: "strField route = blob (utf8Encode route)" by (simp add: strField_def blob_def)
  have wt: "wireBlob (utf8Encode route)" "wireText route"
    using assms(3) by (auto simp: wireString_def wireBlob_def)
  have "readLengthPrefixedEnd ?pl 16 = Some ?re"
    using readLengthPrefixedEnd_blob [OF wt(1), of cid 16] assms(1) by (simp add: s)
  moreover have "readLengthPrefixedEnd ?pl ?re = Some ?be"
    using readLengthPrefixedEnd_blob [OF assms(4), of "cid @ strField route" ?re] assms(1) by simp
  moreover have "readRemainingBudgetExtension ?pl ?be = Some (natBudget budget, length ?pl)"
    using budgetExtension_field [OF assms(2), of "cid @ strField route @ blob body" ?be] assms(1)
    by simp
  moreover have "take (?re - 20) (drop 20 ?pl) = utf8Encode route"
    using assms(1) by (simp add: strField_def)
  moreover have "take (?be - (?re + 4)) (drop (?re + 4) ?pl) = body"
    using assms(1) by (simp add: strField_def blob_def)
  ultimately show ?thesis
    using assms(1) wt(2) by (subst rpcDecodeInboundRequest_iff) auto
qed

text \<open>A response that was encoded is decoded, by both decoders.\<close>

lemma flags_supported: "\<not> unsupportedFlags 0" "\<not> unsupportedFlags 1"
  by (simp_all add: unsupportedFlags_def)

lemma rpcDecodeResponse_encoded:
  assumes "length cid = 16" and "sq < 18446744073709551616" and "wireBlob body"
  shows "rpcDecodeResponse (cid @ be 8 (int sq) @ (if m then 1 else 0) # blob body) =
    Inr \<lparr>rrCorrelationId = cid, rrSequence = sq, rrBody = body, rrStreamEnd = m\<rparr>"
proof -
  define h l where "h = take 4 (be 8 (int sq))" and "l = drop 4 (be 8 (int sq))"
  have hl: "be 8 (int sq) = h @ l" "length h = 4" "length l = 4"
    by (simp_all add: h_def l_def)
  let ?f = "if m then 1 else 0 :: byte"
  let ?n = "be 4 (int (length body))"
  let ?pl = "cid @ h @ l @ ?f # ?n @ body"
  have "readU32BEAt ?pl 16 = Inr (unbe h)"
    using readU32BEAt_eq [of cid 16 h "l @ ?f # ?n @ body"] assms(1) hl by simp
  moreover have "readU32BEAt ?pl 20 = Inr (unbe l)"
    using readU32BEAt_eq [of "cid @ h" 20 l "?f # ?n @ body"] assms(1) hl by simp
  moreover have "readU32BEAt ?pl 25 = Inr (length body)"
    using readU32BEAt_eq [of "cid @ h @ l @ [?f]" 25 ?n body] assms hl by (simp add: wireBlob_def)
  moreover have "push_bit 32 (unbe h) OR unbe l = unbe h * 2 ^ 32 + unbe l"
    using unbe_less [of l] by (intro push_bit_or) (simp add: hl)
  moreover have "unbe h * 2 ^ 32 + unbe l = sq"
    using unbe_append [of h l] unbe_be [of sq 8] assms(2) hl by simp
  moreover have "?pl ! 24 = ?f" using assms(1) hl by (simp add: nth_append)
  ultimately show ?thesis
    using assms(1) hl flags_supported
    by (simp add: rpcDecodeResponse_def blob_def Let_def)
qed

section \<open>Properties\<close>

text \<open>
  A request that a caller encodes reaches the worker's decoder as it was: the same correlation
  identifier, route and body, and the same remaining budget or none.
\<close>

theorem rpc_request_roundtrip:
  assumes "rpcEncodeRequest cid route body budget = Inr out" and "wireString route" and "wireBlob body"
  shows "rpcDecodeInboundRequest out = Inr \<lparr>riCorrelationId = cid, riRoute = route, riBody = body,
    riRemainingBudgetMs = natBudget budget\<rparr>"
  using assms rpcDecode_encoded [of cid budget route body]
  by (auto simp: rpcEncodeRequest_layout split: if_splits)

lemma rpc_request_roundtrip_witness:
  "\<exists>out. rpcEncodeRequest (replicate 16 3) [] [1, 2] (Some (JInt 500)) = Inr out \<and>
    rpcDecodeInboundRequest out = Inr \<lparr>riCorrelationId = replicate 16 3, riRoute = [], riBody = [1, 2],
      riRemainingBudgetMs = Some 500\<rparr>"
  using rpc_request_roundtrip [of "replicate 16 3" "[]" "[1, 2]" "Some (JInt 500)"]
  by (auto simp: rpcEncodeRequest_layout budgetOk_def MAX_RPC_BUDGET_MS_def natBudget_def
      jsInt_def wireBlob_def)

text \<open>
  The push classifiers look at a payload without decoding it, and agree with the decoders: one
  says yes exactly when its decoder would succeed.
\<close>

theorem classifiers_agree_with_decoders:
  "(looksLikeInboundRequestPayload pl \<longleftrightarrow> (\<exists>q. rpcDecodeInboundRequest pl = Inr q)) \<and>
   (looksLikeStreamResponsePayload pl \<longleftrightarrow> (\<exists>q. rpcDecodeResponse pl = Inr q))"
  using inboundRequest_shape streamResponse_shape by blast

end
