(* ===== verification/Extensions.thy ===== *)
theory Extensions
  imports Frame
begin

text \<open>
  Message extensions and the capability list of \<^verbatim>\<open>src/frame/extensions.ts\<close>: both encoders, the
  decoder with its cursor loop, and the lemmas that relate them.
\<close>

section \<open>The code\<close>

definition FLAG_EXTENSIONS_PRESENT :: nat where
  "FLAG_EXTENSIONS_PRESENT = 4"

definition CLIENT_CAPABILITY_IDS :: "nat list" where
  "CLIENT_CAPABILITY_IDS = [1, 2]"

text \<open>\<^verbatim>\<open>ids.forEach((id, index) => ...)\<close> with the last identifier carried along.\<close>

fun capabilityLoop :: "jsnum list \<Rightarrow> nat \<Rightarrow> int \<Rightarrow> bytes \<Rightarrow> bytes result" where
  "capabilityLoop [] index previous buf = Inr buf"
| "capabilityLoop (i # ids) index previous buf =
    (if \<not> isInteger i \<or> jsInt i \<le> previous \<or> jsInt i > 0xffffffff then Inl CodecError
     else andThen (setUint 4 buf (2 + 4 * index) (jsInt i)) (\<lambda>buf.
       capabilityLoop ids (index + 1) (jsInt i) buf))"

definition encodeCapabilities :: "jsnum list \<Rightarrow> bytes result" where
  "encodeCapabilities ids =
    (if length ids > 0xffff then Inl CodecError
     else andThen (setUint 2 (newUint8Array (2 + 4 * length ids)) 0 (int (length ids))) (\<lambda>buf.
       capabilityLoop ids 0 0 buf))"

fun fieldLoop :: "(jsnum \<times> bytes) list \<Rightarrow> nat \<Rightarrow> int \<Rightarrow> bytes \<Rightarrow> bytes result" where
  "fieldLoop [] cursor previous buf = Inr buf"
| "fieldLoop ((i, value) # flds) cursor previous buf =
    (if \<not> isInteger i \<or> jsInt i \<le> previous \<or> jsInt i > 0xffff then Inl CodecError
     else
       andThen (setUint 2 buf cursor (jsInt i)) (\<lambda>buf.
       andThen (setUint 4 buf (cursor + 2) (int (length value))) (\<lambda>buf.
       andThen (u8set buf value (cursor + 6)) (\<lambda>buf.
       fieldLoop flds (cursor + (6 + length value)) (jsInt i) buf))))"

definition fieldsSize :: "(jsnum \<times> bytes) list \<Rightarrow> nat" where
  "fieldsSize flds = sum_list (map (\<lambda>(i, value). 6 + length value) flds)"

definition encodeExtensions :: "bytes \<Rightarrow> (jsnum \<times> bytes) list \<Rightarrow> bytes result" where
  "encodeExtensions core flds =
    (if flds = [] then Inr core
     else (let size = 4 + length core + fieldsSize flds in
       if size + 15 > 1024 * 1024 then Inl CodecError
       else
         andThen (setUint 4 (newUint8Array size) 0 (int (length core))) (\<lambda>buf.
         andThen (u8set buf core 4) (\<lambda>buf.
         fieldLoop flds (4 + length core) 0 buf))))"

text \<open>The capability identifiers of extension 1, from \<^verbatim>\<open>index\<close> on.\<close>

fun readCapabilities :: "nat \<Rightarrow> bytes \<Rightarrow> nat \<Rightarrow> nat \<Rightarrow> nat list result" where
  "readCapabilities 0 pl at previous = Inr []"
| "readCapabilities (Suc n) pl at previous =
    andThen (getUint 4 pl at) (\<lambda>value.
      if value \<le> previous then Inl CodecError
      else andThen (readCapabilities n pl (at + 4) value) (\<lambda>vs. Inr (value # vs)))"

text \<open>The \<^verbatim>\<open>while (cursor < payload.length)\<close> loop; every turn moves the cursor on.\<close>

function extensionLoop :: "bytes \<Rightarrow> bool \<Rightarrow> nat \<Rightarrow> nat list option \<Rightarrow> nat list option result" where
  "extensionLoop pl handshake cursor capabilityIds =
    (if \<not> cursor < length pl then Inr capabilityIds
     else if length pl - cursor < 6 then Inl CodecError
     else
       andThen (getUint 2 pl cursor) (\<lambda>i.
       andThen (getUint 4 pl (cursor + 2)) (\<lambda>size.
       if i = 0 \<or> size > length pl - (cursor + 6) then Inl CodecError
       else if handshake \<and> i = 1 then
         (if capabilityIds \<noteq> None \<or> size < 2 then Inl CodecError
          else
            andThen (getUint 2 pl (cursor + 6)) (\<lambda>count.
            if size \<noteq> 2 + count * 4 then Inl CodecError
            else
              andThen (readCapabilities count pl (cursor + 6 + 2) 0) (\<lambda>ids.
              extensionLoop pl handshake (cursor + 6 + size) (Some ids))))
       else extensionLoop pl handshake (cursor + 6 + size) capabilityIds)))"
  by pat_completeness auto
termination
  by (relation "measure (\<lambda>(pl, handshake, cursor, ids). length pl - cursor)") auto

declare extensionLoop.simps [simp del]

definition decodeExtensions :: "bytes \<Rightarrow> nat \<Rightarrow> nat \<Rightarrow> (bytes \<times> nat list) result" where
  "decodeExtensions pl mtype fl =
    (let handshake = (mtype = 2) in
     if fl AND FLAG_EXTENSIONS_PRESENT = 0
     then (if handshake then Inl CodecError else Inr (pl, []))
     else if length pl < 4 then Inl CodecError
     else andThen (getUint 4 pl 0) (\<lambda>coreLen.
       let coreEnd = 4 + coreLen in
       if coreEnd \<ge> length pl then Inl CodecError
       else andThen (extensionLoop pl handshake coreEnd None) (\<lambda>capabilityIds.
         if handshake \<and> capabilityIds = None then Inl CodecError
         else Inr (drop 4 (take coreEnd pl),
                   case capabilityIds of None \<Rightarrow> [] | Some ids \<Rightarrow> ids))))"

section \<open>Layout\<close>

text \<open>Identifiers that ascend strictly from \<open>previous\<close> and stay below a limit.\<close>

fun ascending :: "nat \<Rightarrow> nat \<Rightarrow> nat list \<Rightarrow> bool" where
  "ascending limit previous [] = True"
| "ascending limit previous (i # ids) = (previous < i \<and> i \<le> limit \<and> ascending limit i ids)"

definition capBytes :: "nat list \<Rightarrow> bytes" where
  "capBytes ids = concat (map (\<lambda>i. be 4 (int i)) ids)"

definition extField :: "nat \<times> bytes \<Rightarrow> bytes" where
  "extField f = be 2 (int (fst f)) @ be 4 (int (length (snd f))) @ snd f"

definition jsFields :: "(nat \<times> bytes) list \<Rightarrow> (jsnum \<times> bytes) list" where
  "jsFields fs = map (\<lambda>(i, v). (JInt (int i), v)) fs"

lemma length_capBytes [simp]: "length (capBytes ids) = 4 * length ids"
  by (induction ids) (simp_all add: capBytes_def)

lemma length_extField [simp]: "length (extField f) = 6 + length (snd f)"
  by (simp add: extField_def)

lemma capabilityLoop_layout:
  assumes "ascending 0xffffffff p ids"
  shows "length d = 2 + 4 * k \<Longrightarrow>
    capabilityLoop (map (\<lambda>i. JInt (int i)) ids) k (int p) (d @ replicate (4 * length ids) 0) =
      Inr (d @ capBytes ids)"
  using assms
proof (induction ids arbitrary: k p d)
  case Nil
  then show ?case by (simp add: capBytes_def)
next
  case (Cons i ids)
  have w: "setUint 4 (d @ replicate (4 + 4 * length ids) 0) (2 + 4 * k) (int i) =
      Inr ((d @ be 4 (int i)) @ replicate (4 * length ids) 0)"
    using setUint_zeros [of d "2 + 4 * k" 4 "4 + 4 * length ids" "int i"] Cons.prems by simp
  have "capabilityLoop (map (\<lambda>i. JInt (int i)) ids) (k + 1) (int i)
      ((d @ be 4 (int i)) @ replicate (4 * length ids) 0) = Inr ((d @ be 4 (int i)) @ capBytes ids)"
    by (rule Cons.IH) (use Cons.prems in simp_all)
  with w Cons.prems show ?case by (simp add: jsInt_def capBytes_def)
qed

lemma encodeCapabilities_layout:
  assumes "ascending 0xffffffff 0 ids" and "length ids \<le> 0xffff"
  shows "encodeCapabilities (map (\<lambda>i. JInt (int i)) ids) =
    Inr (be 2 (int (length ids)) @ capBytes ids)"
proof -
  have "setUint 2 (newUint8Array (2 + 4 * length ids)) 0 (int (length ids)) =
      Inr (be 2 (int (length ids)) @ replicate (4 * length ids) 0)"
    using setUint_zeros [of "[]" 0 2 "2 + 4 * length ids" "int (length ids)"]
    by (simp add: newUint8Array_def)
  moreover have "capabilityLoop (map (\<lambda>i. JInt (int i)) ids) 0 (int 0)
      (be 2 (int (length ids)) @ replicate (4 * length ids) 0) =
      Inr (be 2 (int (length ids)) @ capBytes ids)"
    by (rule capabilityLoop_layout) (use assms in simp_all)
  ultimately show ?thesis using assms by (simp add: encodeCapabilities_def)
qed

lemma fieldLoop_layout:
  assumes "ascending 0xffff p (map fst fs)"
  shows "length d = k \<Longrightarrow>
    fieldLoop (jsFields fs) k (int p) (d @ replicate (fieldsSize (jsFields fs)) 0) =
      Inr (d @ concat (map extField fs))"
  using assms
proof (induction fs arbitrary: k p d)
  case Nil
  then show ?case by (simp add: jsFields_def fieldsSize_def)
next
  case (Cons f fs)
  obtain i v where f: "f = (i, v)" by (cases f)
  let ?n = "fieldsSize (jsFields fs)"
  have size: "fieldsSize (jsFields (f # fs)) = 6 + length v + ?n"
    by (simp add: fieldsSize_def jsFields_def f)
  have w1: "setUint 2 (d @ replicate (6 + length v + ?n) 0) k (int i) =
      Inr ((d @ be 2 (int i)) @ replicate (4 + length v + ?n) 0)"
    using setUint_zeros [of d k 2 "6 + length v + ?n" "int i"] Cons.prems by simp
  have w2: "setUint 4 ((d @ be 2 (int i)) @ replicate (4 + length v + ?n) 0) (k + 2)
      (int (length v)) =
      Inr (((d @ be 2 (int i)) @ be 4 (int (length v))) @ replicate (length v + ?n) 0)"
    using setUint_zeros [of "d @ be 2 (int i)" "k + 2" 4 "4 + length v + ?n" "int (length v)"]
      Cons.prems by simp
  have w3: "u8set (((d @ be 2 (int i)) @ be 4 (int (length v))) @ replicate (length v + ?n) 0) v
      (k + 6) = Inr ((d @ extField f) @ replicate ?n 0)"
    using Cons.prems by (simp add: u8set_def f extField_def)
  have "fieldLoop (jsFields fs) (k + (6 + length v)) (int i) ((d @ extField f) @ replicate ?n 0) =
      Inr ((d @ extField f) @ concat (map extField fs))"
    by (rule Cons.IH) (use Cons.prems f in simp_all)
  with w1 w2 w3 Cons.prems show ?case
    by (simp add: size jsInt_def) (simp add: jsFields_def f jsInt_def)
qed

lemma fieldsSize_concat: "fieldsSize (jsFields fs) = length (concat (map extField fs))"
  by (induction fs) (auto simp: fieldsSize_def jsFields_def)

text \<open>The encoded message: the core behind its length, then the fields.\<close>

definition extensionBytes :: "bytes \<Rightarrow> (nat \<times> bytes) list \<Rightarrow> bytes" where
  "extensionBytes core fs = be 4 (int (length core)) @ core @ concat (map extField fs)"

lemma encodeExtensions_layout:
  assumes "ascending 0xffff 0 (map fst fs)" and "fs \<noteq> []"
    and "length (extensionBytes core fs) + 15 \<le> 1024 * 1024"
  shows "encodeExtensions core (jsFields fs) = Inr (extensionBytes core fs)"
proof -
  let ?n = "fieldsSize (jsFields fs)"
  let ?c = "be 4 (int (length core))"
  have w1: "setUint 4 (newUint8Array (4 + length core + ?n)) 0 (int (length core)) =
      Inr (?c @ replicate (length core + ?n) 0)"
    using setUint_zeros [of "[]" 0 4 "4 + length core + ?n" "int (length core)"]
    by (simp add: newUint8Array_def)
  have w2: "u8set (?c @ replicate (length core + ?n) 0) core 4 = Inr ((?c @ core) @ replicate ?n 0)"
    by (simp add: u8set_def)
  have w3: "fieldLoop (jsFields fs) (4 + length core) (int 0) ((?c @ core) @ replicate ?n 0) =
      Inr ((?c @ core) @ concat (map extField fs))"
    by (rule fieldLoop_layout) (use assms in simp_all)
  have "jsFields fs \<noteq> []" using assms(2) by (simp add: jsFields_def)
  moreover have "\<not> 4 + length core + ?n + 15 > 1024 * 1024"
    using assms(3) by (simp add: fieldsSize_concat extensionBytes_def)
  ultimately show ?thesis
    using w1 w2 w3 by (simp add: encodeExtensions_def extensionBytes_def)
qed

section \<open>Decoding what was encoded\<close>

lemma readCapabilities_bytes:
  assumes "ascending 0xffffffff p ids"
  shows "length d = k \<Longrightarrow> readCapabilities (length ids) (d @ capBytes ids @ t) k p = Inr ids"
  using assms
proof (induction ids arbitrary: k p d)
  case Nil
  then show ?case by simp
next
  case (Cons i ids)
  have g: "getUint 4 (d @ be 4 (int i) @ capBytes ids @ t) k = Inr i"
    using getUint_at [of d k "be 4 (int i)" 4] Cons.prems by simp
  have "readCapabilities (length ids) ((d @ be 4 (int i)) @ capBytes ids @ t) (k + 4) i = Inr ids"
    by (rule Cons.IH) (use Cons.prems in simp_all)
  with g Cons.prems show ?case by (simp add: capBytes_def)
qed

definition wireField :: "nat \<times> bytes \<Rightarrow> bool" where
  "wireField f \<longleftrightarrow> 0 < fst f \<and> fst f < 65536 \<and> length (snd f) < 4294967296"

lemma extField_header:
  assumes "wireField f" and "length d = k"
  shows "getUint 2 (d @ extField f @ t) k = Inr (fst f)"
    and "getUint 4 (d @ extField f @ t) (k + 2) = Inr (length (snd f))"
proof -
  show "getUint 2 (d @ extField f @ t) k = Inr (fst f)"
    using getUint_at [of d k "be 2 (int (fst f))" 2] assms by (simp add: extField_def wireField_def)
  show "getUint 4 (d @ extField f @ t) (k + 2) = Inr (length (snd f))"
    using getUint_at [of "d @ be 2 (int (fst f))" "k + 2" "be 4 (int (length (snd f)))" 4] assms
    by (simp add: extField_def wireField_def)
qed

text \<open>A field that is no capability list is skipped.\<close>

lemma extensionLoop_skip1:
  assumes "wireField f" and "length d = k" and "\<not> h \<or> fst f \<noteq> 1"
  shows "extensionLoop (d @ extField f @ t) h k c =
    extensionLoop (d @ extField f @ t) h (k + 6 + length (snd f)) c"
  using assms extField_header [OF assms(1,2), of t]
  by (subst extensionLoop.simps) (auto simp: wireField_def)

lemma extensionLoop_end: "length pl \<le> k \<Longrightarrow> extensionLoop pl h k c = Inr c"
  by (subst extensionLoop.simps) simp

lemma extensionLoop_skip:
  assumes "list_all wireField fs" and "\<not> h \<or> 1 \<notin> fst ` set fs"
  shows "length d = k \<Longrightarrow> extensionLoop (d @ concat (map extField fs)) h k c = Inr c"
  using assms
proof (induction fs arbitrary: d k)
  case Nil
  then show ?case by (simp add: extensionLoop_end)
next
  case (Cons f fs)
  have "extensionLoop ((d @ extField f) @ concat (map extField fs)) h (k + 6 + length (snd f)) c =
      Inr c"
    by (rule Cons.IH) (use Cons.prems in auto)
  moreover have "extensionLoop (d @ extField f @ concat (map extField fs)) h k c =
      extensionLoop (d @ extField f @ concat (map extField fs)) h (k + 6 + length (snd f)) c"
    by (rule extensionLoop_skip1) (use Cons.prems in auto)
  ultimately show ?case by simp
qed

definition capsField :: "nat list \<Rightarrow> nat \<times> bytes" where
  "capsField ids = (1, be 2 (int (length ids)) @ capBytes ids)"

lemma extensionLoop_caps:
  assumes "ascending 0xffffffff 0 ids" and "length ids \<le> 0xffff"
    and "list_all wireField fs" and "1 \<notin> fst ` set fs" and "length d = k"
  shows "extensionLoop (d @ concat (map extField (capsField ids # fs))) True k None =
    Inr (Some ids)"
proof -
  let ?f = "capsField ids"
  let ?t = "concat (map extField fs)"
  let ?pl = "d @ extField ?f @ ?t"
  have wf: "wireField ?f" using assms(2) by (simp add: wireField_def capsField_def)
  note hd = extField_header [OF wf assms(5), of ?t]
  let ?pre = "d @ be 2 1 @ be 4 (int (length (snd ?f)))"
  have split: "?pl = ?pre @ be 2 (int (length ids)) @ capBytes ids @ ?t"
    by (simp add: extField_def capsField_def)
  have count: "getUint 2 ?pl (k + 6) = Inr (length ids)"
    unfolding split using assms(2,5) by (subst getUint_at) simp_all
  have ids: "readCapabilities (length ids) ?pl (k + 6 + 2) 0 = Inr ids"
    unfolding split
    using readCapabilities_bytes [OF assms(1), of "?pre @ be 2 (int (length ids))" "k + 6 + 2" ?t]
      assms(5) by simp
  have "extensionLoop ((d @ extField ?f) @ ?t) True (k + 6 + length (snd ?f)) (Some ids) =
      Inr (Some ids)"
    by (rule extensionLoop_skip) (use assms in simp_all)
  then have rest: "extensionLoop ?pl True (k + 6 + length (snd ?f)) (Some ids) = Inr (Some ids)"
    by simp
  have fst: "fst ?f = 1" and len: "length (snd ?f) = 2 + length ids * 4"
    by (simp_all add: capsField_def)
  have "extensionLoop ?pl True k None = Inr (Some ids)"
    using hd count ids rest assms(5)
    by (subst extensionLoop.simps) (simp add: fst len)
  then show ?thesis by simp
qed

lemma ascending_wireField:
  "ascending 0xffff p (map fst fs) \<Longrightarrow> \<forall>f \<in> set fs. length (snd f) < 4294967296 \<Longrightarrow>
    list_all wireField fs"
  by (induction fs arbitrary: p) (auto simp: wireField_def)

lemma ascending_gt: "ascending l p is \<Longrightarrow> i \<in> set is \<Longrightarrow> p < i"
  by (induction "is" arbitrary: p) force+

lemma decodeExtensions_split:
  assumes "length core < 4294967296" and "concat (map extField fs) \<noteq> []" and "fl AND 4 \<noteq> 0"
    and "extensionLoop (extensionBytes core fs) (t = 2) (4 + length core) None = Inr c"
    and "t = 2 \<Longrightarrow> c \<noteq> None"
  shows "decodeExtensions (extensionBytes core fs) t fl =
    Inr (core, case c of None \<Rightarrow> [] | Some ids \<Rightarrow> ids)"
proof -
  have "getUint 4 (extensionBytes core fs) 0 = Inr (length core)"
    using getUint_at [of "[]" 0 "be 4 (int (length core))" 4] assms(1)
    by (simp add: extensionBytes_def)
  moreover have "drop 4 (take (4 + length core) (extensionBytes core fs)) = core"
    by (simp add: extensionBytes_def)
  moreover have "4 + length core < length (extensionBytes core fs)"
    using assms(2) by (simp add: extensionBytes_def)
  ultimately show ?thesis
    using assms(3,4,5) by (auto simp: decodeExtensions_def FLAG_EXTENSIONS_PRESENT_def Let_def)
qed

section \<open>Properties\<close>

text \<open>
  The extension fields the client appends to a body, capabilities first, are skipped and
  recognised again by the decoder, which returns the body and the capability identifiers.
\<close>

theorem extensions_roundtrip:
  assumes "encodeCapabilities (map (\<lambda>i. JInt (int i)) ids) = Inr caps"
    and "ascending 0xffffffff 0 ids" and "length ids \<le> 0xffff"
    and "ascending 0xffff 1 (map fst fs)"
    and "length (extensionBytes core ((1, caps) # fs)) + 15 \<le> 1024 * 1024"
  shows "\<exists>out. encodeExtensions core (jsFields ((1, caps) # fs)) = Inr out \<and>
    decodeExtensions out 2 4 = Inr (core, ids)"
proof -
  have caps: "(1, caps) = capsField ids"
    using assms(1) encodeCapabilities_layout [OF assms(2,3)] by (simp add: capsField_def)
  let ?fs = "(1, caps) # fs"
  have small: "\<forall>f \<in> set fs. length (snd f) < 4294967296"
  proof
    fix f assume "f \<in> set fs"
    then have "length (extField f) \<le> length (concat (map extField fs))"
      by (induction fs) auto
    then show "length (snd f) < 4294967296" using assms(5) by (simp add: extensionBytes_def)
  qed
  have "length core < 4294967296" using assms(5) by (simp add: extensionBytes_def)
  moreover have "1 \<notin> fst ` set fs" using ascending_gt [OF assms(4), of 1] by auto
  then have "extensionLoop ((be 4 (int (length core)) @ core) @ concat (map extField (capsField ids # fs)))
      True (4 + length core) None = Inr (Some ids)"
    by (intro extensionLoop_caps [OF assms(2,3) ascending_wireField [OF assms(4) small]]) simp_all
  ultimately have "decodeExtensions (extensionBytes core ?fs) 2 4 = Inr (core, ids)"
    using decodeExtensions_split [of core ?fs 4 2 "Some ids"]
    by (simp add: extensionBytes_def flip: caps) (simp add: extField_def)
  moreover have "encodeExtensions core (jsFields ?fs) = Inr (extensionBytes core ?fs)"
    using assms(4,5) by (intro encodeExtensions_layout) simp_all
  ultimately show ?thesis by blast
qed

lemma extensions_roundtrip_witness:
  "\<exists>out. encodeExtensions [5] (jsFields [(1, be 2 2 @ capBytes [1, 2]), (7, [3])]) = Inr out \<and>
    decodeExtensions out 2 4 = Inr ([5], [1, 2])"
  by (rule extensions_roundtrip)
    (use encodeCapabilities_layout [of "[1, 2]"] in \<open>simp_all add: extensionBytes_def\<close>)

end
