(* ===== verification/Machines.thy ===== *)
theory Machines
  imports Prelude
begin

text \<open>
  Runs of a component whose operations interleave: the events a step relation takes, the states
  it reaches, and the two contracts the components of the client share. A \<open>machine\<close> keeps an
  invariant; a \<open>settling\<close> machine also promises that what a promise was settled with is final.
\<close>

section \<open>Runs\<close>

inductive run :: "('s \<Rightarrow> 'e \<Rightarrow> 's \<Rightarrow> bool) \<Rightarrow> 's \<Rightarrow> 'e list \<Rightarrow> 's \<Rightarrow> bool" for step where
  run_none: "run step s [] s"
| run_more: "run step s es s1 \<Longrightarrow> step s1 e s2 \<Longrightarrow> run step s (es @ [e]) s2"

definition reachable :: "('s \<Rightarrow> 'e \<Rightarrow> 's \<Rightarrow> bool) \<Rightarrow> 's \<Rightarrow> 's \<Rightarrow> bool" where
  "reachable step s0 s \<longleftrightarrow> (\<exists>es. run step s0 es s)"

lemma reachable_start [simp, intro]: "reachable step s s"
  unfolding reachable_def by (rule exI, rule run_none)

lemma reachable_step: "reachable step s0 s \<Longrightarrow> step s e s' \<Longrightarrow> reachable step s0 s'"
  unfolding reachable_def using run_more [of step] by blast

lemma run_one: "step s e s' \<Longrightarrow> run step s [e] s'"
  using run_more [OF run_none, of step s e s'] by simp

lemma run_append:
  assumes "run step s es s1" and "run step s1 fs s2"
  shows "run step s (es @ fs) s2"
  using assms(2) assms(1)
proof (induction rule: run.induct)
  case (run_none s)
  then show ?case by simp
next
  case (run_more s fs s1 e s2)
  then show ?case using run.run_more [of step _ "es @ fs"] by simp
qed

lemma run_two: "step s e s1 \<Longrightarrow> step s1 f s2 \<Longrightarrow> run step s [e, f] s2"
  using run_append [OF run_one run_one, of step s e s1 f s2] by simp

lemma run_cons: "step s e s1 \<Longrightarrow> run step s1 es s2 \<Longrightarrow> run step s (e # es) s2"
  using run_append [OF run_one, of step s e s1 es s2] by simp

lemma run_reachable: "reachable step s0 s \<Longrightarrow> run step s es s' \<Longrightarrow> reachable step s0 s'"
  unfolding reachable_def using run_append [of step] by blast

section \<open>Contracts\<close>

locale machine =
  fixes init :: 's
    and step :: "'s \<Rightarrow> 'e \<Rightarrow> 's \<Rightarrow> bool"
    and inv :: "'s \<Rightarrow> bool"
  assumes init_inv: "inv init"
    and step_inv: "inv s \<Longrightarrow> step s e s' \<Longrightarrow> inv s'"
begin

lemma run_inv: "run step s es s' \<Longrightarrow> inv s \<Longrightarrow> inv s'"
  by (induction rule: run.induct) (auto intro: step_inv)

lemma reachable_inv: "reachable step init s \<Longrightarrow> inv s"
  using run_inv init_inv by (auto simp: reachable_def)

end

locale settling = machine init step inv
  for init :: 's and step :: "'s \<Rightarrow> 'e \<Rightarrow> 's \<Rightarrow> bool" and inv :: "'s \<Rightarrow> bool" +
  fixes settled_with :: "'s \<Rightarrow> 'i \<Rightarrow> 'o option"
  assumes step_keeps: "inv s \<Longrightarrow> step s e s' \<Longrightarrow> settled_with s i = Some v \<Longrightarrow> settled_with s' i = Some v"
begin

lemma run_keeps:
  "run step s es s' \<Longrightarrow> inv s \<Longrightarrow> settled_with s i = Some v \<Longrightarrow> settled_with s' i = Some v"
proof (induction rule: run.induct)
  case (run_more s es s1 e s2)
  then show ?case using run_inv step_keeps by metis
qed simp

lemma settled_once:
  "reachable step init s \<Longrightarrow> run step s es s' \<Longrightarrow> settled_with s i = Some v \<Longrightarrow>
    settled_with s' i = Some v"
  using run_keeps reachable_inv by blast

end

end
