(* ===== verification/RequestGate.thy ===== *)
theory RequestGate
  imports Errors Machines "HOL-Library.Extended_Nat"
begin

text \<open>
  The admission gate of \<^verbatim>\<open>src/client/internal/request-gate.ts\<close>: at most \<open>maxConcurrency\<close> requests
  hold a slot, at most \<open>maxQueueSize\<close> more wait for one in order. Limits are natural numbers or
  infinite. A promise of \<^verbatim>\<open>acquire\<close> is the number of its call; what it settled with is kept in the
  state, as are the abort signals that have fired. Releasing is the function handed out with the
  slot; the state remembers which callers still have theirs to call.
\<close>

section \<open>State and operations\<close>

record requestWaiter =
  wPromise :: nat
  wSignal :: "nat option"

datatype acquireOutcome = SlotGranted | AcquireFailed jserror

record requestGate =
  maxConcurrency :: enat
  maxQueueSize :: enat
  activeCount :: nat
  gateClosed :: bool
  gateQueue :: "requestWaiter list"
  gateCalls :: nat
  gateOutcome :: "nat \<Rightarrow> acquireOutcome option"
  gateHeld :: "nat list"
  gateAborted :: "nat list"

definition createRequestGate :: "enat \<Rightarrow> enat \<Rightarrow> requestGate" where
  "createRequestGate n k = \<lparr>maxConcurrency = n, maxQueueSize = k, activeCount = 0,
     gateClosed = False, gateQueue = [], gateCalls = 0, gateOutcome = (\<lambda>_. None),
     gateHeld = [], gateAborted = []\<rparr>"

definition signalAborted :: "nat option \<Rightarrow> requestGate \<Rightarrow> bool" where
  "signalAborted s g = (case s of None \<Rightarrow> False | Some i \<Rightarrow> i \<in> set (gateAborted g))"

definition settleAcquire :: "nat \<Rightarrow> acquireOutcome \<Rightarrow> requestGate \<Rightarrow> requestGate" where
  "settleAcquire i v g = g\<lparr>gateOutcome := (gateOutcome g)(i := Some v)\<rparr>"

definition grantSlot :: "nat \<Rightarrow> requestGate \<Rightarrow> requestGate" where
  "grantSlot i g = settleAcquire i SlotGranted
     (g\<lparr>activeCount := activeCount g + 1, gateHeld := i # gateHeld g\<rparr>)"

definition grant :: "nat \<Rightarrow> requestGate \<Rightarrow> requestGate" where
  "grant i g = (if gateClosed g then settleAcquire i (AcquireFailed connectionClosedError) g
                else grantSlot i g)"

definition acquire :: "nat option \<Rightarrow> requestGate \<Rightarrow> requestGate" where
  "acquire s g0 =
    (let i = gateCalls g0; g = g0\<lparr>gateCalls := i + 1\<rparr> in
     if signalAborted s g then settleAcquire i (AcquireFailed abortError) g
     else if gateClosed g then settleAcquire i (AcquireFailed connectionClosedError) g
     else if enat (activeCount g) < maxConcurrency g then grant i g
     else if enat (length (gateQueue g)) \<ge> maxQueueSize g
       then settleAcquire i (AcquireFailed RequestQueueFullError) g
     else g\<lparr>gateQueue := gateQueue g @ [\<lparr>wPromise = i, wSignal = s\<rparr>]\<rparr>)"

text \<open>The loop of \<^verbatim>\<open>release\<close> over the queue; it leaves out the waiters whose signal has aborted.\<close>

fun releaseLoop :: "requestWaiter list \<Rightarrow> requestGate \<Rightarrow> requestGate" where
  "releaseLoop [] g = g\<lparr>gateQueue := []\<rparr>"
| "releaseLoop (w # ws) g =
    (if \<not> gateClosed g \<and> enat (activeCount g) < maxConcurrency g then
       if signalAborted (wSignal w) g then releaseLoop ws g
       else grantSlot (wPromise w) (g\<lparr>gateQueue := ws\<rparr>)
     else g\<lparr>gateQueue := w # ws\<rparr>)"

definition release :: "requestGate \<Rightarrow> requestGate" where
  "release g = releaseLoop (gateQueue g) (g\<lparr>activeCount := activeCount g - 1\<rparr>)"

definition releaseHeld :: "nat \<Rightarrow> requestGate \<Rightarrow> requestGate" where
  "releaseHeld i g = release (g\<lparr>gateHeld := remove1 i (gateHeld g)\<rparr>)"

definition rejectWaiters :: "requestWaiter list \<Rightarrow> requestGate \<Rightarrow> requestGate" where
  "rejectWaiters ws g = fold (\<lambda>w. settleAcquire (wPromise w) (AcquireFailed connectionClosedError)) ws g"

definition closeGate :: "requestGate \<Rightarrow> requestGate" where
  "closeGate g = (if gateClosed g then g
     else rejectWaiters (gateQueue g) (g\<lparr>gateClosed := True, gateQueue := []\<rparr>))"

text \<open>
  An abort marks the signal first and runs its listeners after, one at a time; a waiter has its
  listener while it is queued.
\<close>

definition abortSignal :: "nat \<Rightarrow> requestGate \<Rightarrow> requestGate" where
  "abortSignal s g = g\<lparr>gateAborted := s # gateAborted g\<rparr>"

definition removeWaiter :: "requestWaiter \<Rightarrow> requestGate \<Rightarrow> requestGate" where
  "removeWaiter w g = g\<lparr>gateQueue := remove1 w (gateQueue g)\<rparr>"

definition onAbort :: "requestWaiter \<Rightarrow> requestGate \<Rightarrow> requestGate" where
  "onAbort w g = settleAcquire (wPromise w) (AcquireFailed abortError) (removeWaiter w g)"

datatype gateEvent =
  GateAcquire "nat option" | GateRelease nat | GateAbort nat | GateListener requestWaiter | GateClose

inductive gateStep :: "requestGate \<Rightarrow> gateEvent \<Rightarrow> requestGate \<Rightarrow> bool" where
  gate_acquire: "gateStep g (GateAcquire s) (acquire s g)"
| gate_release: "i \<in> set (gateHeld g) \<Longrightarrow> gateStep g (GateRelease i) (releaseHeld i g)"
| gate_abort: "gateStep g (GateAbort s) (abortSignal s g)"
| gate_listener: "w \<in> set (gateQueue g) \<Longrightarrow> signalAborted (wSignal w) g \<Longrightarrow>
    gateStep g (GateListener w) (onAbort w g)"
| gate_close: "gateStep g GateClose (closeGate g)"

inductive_cases gateStep_releaseE: "gateStep g (GateRelease i) g'"
inductive_simps gateStep_close: "gateStep g GateClose g'"

section \<open>The invariant\<close>

text \<open>
  A slot is counted for each caller that holds one; the bounds hold; a queued waiter is unsettled;
  and nobody waits while a slot is free.
\<close>

definition gateInv :: "requestGate \<Rightarrow> bool" where
  "gateInv g \<longleftrightarrow>
     activeCount g = length (gateHeld g) \<and> enat (activeCount g) \<le> maxConcurrency g \<and>
     enat (length (gateQueue g)) \<le> maxQueueSize g \<and>
     distinct (map wPromise (gateQueue g)) \<and>
     (\<forall>w \<in> set (gateQueue g). wPromise w < gateCalls g \<and> gateOutcome g (wPromise w) = None) \<and>
     (\<forall>i \<ge> gateCalls g. gateOutcome g i = None) \<and>
     (\<forall>i \<in> set (gateHeld g). gateOutcome g i = Some SlotGranted) \<and> distinct (gateHeld g) \<and>
     (gateQueue g \<noteq> [] \<longrightarrow> \<not> gateClosed g \<and> enat (activeCount g) = maxConcurrency g)"

lemma gateInvI:
  assumes "activeCount g = length (gateHeld g)" and "enat (activeCount g) \<le> maxConcurrency g"
    and "enat (length (gateQueue g)) \<le> maxQueueSize g" and "distinct (map wPromise (gateQueue g))"
    and "\<And>w. w \<in> set (gateQueue g) \<Longrightarrow> wPromise w < gateCalls g \<and> gateOutcome g (wPromise w) = None"
    and "\<And>i. gateCalls g \<le> i \<Longrightarrow> gateOutcome g i = None"
    and "\<And>i. i \<in> set (gateHeld g) \<Longrightarrow> gateOutcome g i = Some SlotGranted" and "distinct (gateHeld g)"
    and "gateQueue g \<noteq> [] \<Longrightarrow> \<not> gateClosed g \<and> enat (activeCount g) = maxConcurrency g"
  shows "gateInv g"
  using assms by (simp add: gateInv_def)

lemma gateInvD:
  assumes "gateInv g"
  shows gate_count: "activeCount g = length (gateHeld g)" and gate_bound: "enat (activeCount g) \<le> maxConcurrency g"
    and gate_queue_bound: "enat (length (gateQueue g)) \<le> maxQueueSize g"
    and gate_queue_distinct: "distinct (map wPromise (gateQueue g))"
    and gate_queued: "w \<in> set (gateQueue g) \<Longrightarrow> wPromise w < gateCalls g \<and> gateOutcome g (wPromise w) = None"
    and gate_fresh: "gateCalls g \<le> i \<Longrightarrow> gateOutcome g i = None"
    and gate_held: "i \<in> set (gateHeld g) \<Longrightarrow> gateOutcome g i = Some SlotGranted"
    and gate_held_distinct: "distinct (gateHeld g)"
    and gate_busy: "gateQueue g \<noteq> [] \<Longrightarrow> \<not> gateClosed g \<and> enat (activeCount g) = maxConcurrency g"
  using assms unfolding gateInv_def by blast+

lemma gate_held_known: "gateInv g \<Longrightarrow> i \<in> set (gateHeld g) \<Longrightarrow> i < gateCalls g"
  using gate_held gate_fresh by (metis leI option.distinct(1))

lemma gate_not_held: "gateInv g \<Longrightarrow> w \<in> set (gateQueue g) \<Longrightarrow> wPromise w \<notin> set (gateHeld g)"
  using gate_held gate_queued by fastforce

lemma gate_queued_old:
  "gateInv g \<Longrightarrow> w \<in> set (gateQueue g) \<Longrightarrow> wPromise w \<noteq> gateCalls g \<and> gateCalls g \<noteq> wPromise w"
  using gate_queued by fastforce

lemma settleAcquire_simps [simp]:
  "gateOutcome (settleAcquire i v g) = (gateOutcome g)(i := Some v)"
  "activeCount (settleAcquire i v g) = activeCount g" "gateClosed (settleAcquire i v g) = gateClosed g"
  "gateQueue (settleAcquire i v g) = gateQueue g" "gateCalls (settleAcquire i v g) = gateCalls g"
  "gateHeld (settleAcquire i v g) = gateHeld g" "gateAborted (settleAcquire i v g) = gateAborted g"
  "maxConcurrency (settleAcquire i v g) = maxConcurrency g"
  "maxQueueSize (settleAcquire i v g) = maxQueueSize g"
  by (simp_all add: settleAcquire_def)

lemma grantSlot_simps [simp]:
  "gateOutcome (grantSlot i g) = (gateOutcome g)(i := Some SlotGranted)"
  "activeCount (grantSlot i g) = activeCount g + 1" "gateClosed (grantSlot i g) = gateClosed g"
  "gateQueue (grantSlot i g) = gateQueue g" "gateCalls (grantSlot i g) = gateCalls g"
  "gateHeld (grantSlot i g) = i # gateHeld g" "gateAborted (grantSlot i g) = gateAborted g"
  "maxConcurrency (grantSlot i g) = maxConcurrency g" "maxQueueSize (grantSlot i g) = maxQueueSize g"
  by (simp_all add: grantSlot_def)

lemma signalAborted_upd [simp]:
  "signalAborted s (g\<lparr>gateCalls := n\<rparr>) = signalAborted s g"
  "signalAborted s (g\<lparr>activeCount := n\<rparr>) = signalAborted s g"
  "signalAborted s (g\<lparr>gateHeld := h\<rparr>) = signalAborted s g"
  "signalAborted s (g\<lparr>gateQueue := q\<rparr>) = signalAborted s g"
  by (simp_all add: signalAborted_def split: option.split)

lemma rejectWaiters_simps [simp]:
  "gateQueue (rejectWaiters ws g) = gateQueue g" "activeCount (rejectWaiters ws g) = activeCount g"
  "gateClosed (rejectWaiters ws g) = gateClosed g" "gateCalls (rejectWaiters ws g) = gateCalls g"
  "gateHeld (rejectWaiters ws g) = gateHeld g" "gateAborted (rejectWaiters ws g) = gateAborted g"
  "maxConcurrency (rejectWaiters ws g) = maxConcurrency g"
  "maxQueueSize (rejectWaiters ws g) = maxQueueSize g"
  unfolding rejectWaiters_def by (induction ws arbitrary: g) simp_all

lemma rejectWaiters_outcome [simp]:
  "gateOutcome (rejectWaiters ws g) i =
    (if i \<in> wPromise ` set ws then Some (AcquireFailed connectionClosedError) else gateOutcome g i)"
  unfolding rejectWaiters_def by (induction ws arbitrary: g) simp_all

text \<open>What the loop of \<^verbatim>\<open>release\<close> does: the first waiter that has not aborted gets the slot.\<close>

definition liveWaiters :: "requestWaiter list \<Rightarrow> requestGate \<Rightarrow> requestWaiter list" where
  "liveWaiters ws g = dropWhile (\<lambda>w. signalAborted (wSignal w) g) ws"

lemma releaseLoop_free:
  assumes "\<not> gateClosed g" and "enat (activeCount g) < maxConcurrency g"
  shows "releaseLoop ws g = (case liveWaiters ws g of [] \<Rightarrow> g\<lparr>gateQueue := []\<rparr>
    | w # rest \<Rightarrow> grantSlot (wPromise w) (g\<lparr>gateQueue := rest\<rparr>))"
  using assms by (induction ws) (simp_all add: liveWaiters_def)

lemma liveWaiters_upd [simp]:
  "liveWaiters ws (g\<lparr>activeCount := n\<rparr>) = liveWaiters ws g"
  "liveWaiters ws (g\<lparr>gateHeld := h\<rparr>) = liveWaiters ws g"
  by (simp_all add: liveWaiters_def)

lemma liveWaiters_subset: "set (liveWaiters ws g) \<subseteq> set ws"
  unfolding liveWaiters_def using set_dropWhileD by fast

lemma liveWaiters_distinct: "distinct (map wPromise ws) \<Longrightarrow> distinct (map wPromise (liveWaiters ws g))"
  unfolding liveWaiters_def
  by (induction ws) auto

lemma liveWaiters_length: "length (liveWaiters ws g) \<le> length ws"
  unfolding liveWaiters_def by (rule length_dropWhile_le)


section \<open>Every operation keeps the invariant\<close>

lemma fresh_settle:
  assumes "gateInv g"
  shows "gateInv (settleAcquire (gateCalls g) (AcquireFailed e) (g\<lparr>gateCalls := gateCalls g + 1\<rparr>))"
  using gateInvD [OF assms] gate_held_known [OF assms] gate_queued_old [OF assms]
  by (intro gateInvI) (auto simp: less_Suc_eq)

lemma fresh_grant:
  assumes "gateInv g" and "enat (activeCount g) < maxConcurrency g"
  shows "gateInv (grantSlot (gateCalls g) (g\<lparr>gateCalls := gateCalls g + 1\<rparr>))"
proof -
  have q: "gateQueue g = []"
    using gate_busy [OF assms(1)] assms(2) by (metis less_irrefl)
  have "enat (Suc (activeCount g)) \<le> maxConcurrency g"
    using assms(2) by (metis Suc_ile_eq)
  then show ?thesis
    using q gateInvD [OF assms(1)] gate_held_known [OF assms(1)] by (intro gateInvI) auto
qed

lemma fresh_queued:
  assumes "gateInv g" and "\<not> gateClosed g" and "\<not> enat (activeCount g) < maxConcurrency g"
    and "\<not> maxQueueSize g \<le> enat (length (gateQueue g))"
  shows "gateInv (g\<lparr>gateCalls := gateCalls g + 1,
    gateQueue := gateQueue g @ [\<lparr>wPromise = gateCalls g, wSignal = s\<rparr>]\<rparr>)"
proof -
  have "enat (Suc (length (gateQueue g))) \<le> maxQueueSize g"
    using assms(4) by (metis Suc_ile_eq not_le)
  moreover have "enat (activeCount g) = maxConcurrency g"
    using gate_bound [OF assms(1)] assms(3) by (metis order.not_eq_order_implies_strict)
  ultimately show ?thesis
    using gateInvD [OF assms(1)] gate_queued_old [OF assms(1)] assms(2)
    by (intro gateInvI) (auto simp: less_Suc_eq)
qed

lemma acquire_inv: "gateInv g \<Longrightarrow> gateInv (acquire s g)"
  using fresh_settle [of g] fresh_grant [of g] fresh_queued [of g s]
  by (simp add: acquire_def grant_def Let_def)

lemma grant_waiter_inv:
  assumes "gateInv g" and "i \<in> set (gateHeld g)" and ws: "liveWaiters (gateQueue g) g = w # rest"
  shows "gateInv (grantSlot (wPromise w)
    (g\<lparr>gateHeld := remove1 i (gateHeld g), activeCount := activeCount g - 1, gateQueue := rest\<rparr>))"
proof -
  have sub: "set (w # rest) \<subseteq> set (gateQueue g)"
    using liveWaiters_subset [of "gateQueue g" g] by (simp only: ws)
  have dist: "distinct (map wPromise (w # rest))"
    using liveWaiters_distinct [OF gate_queue_distinct [OF assms(1)], of g] by (simp only: ws)
  have "enat (length rest) \<le> enat (length (gateQueue g))"
    using liveWaiters_length [of "gateQueue g" g] ws by simp
  then have len: "enat (length rest) \<le> maxQueueSize g"
    using gate_queue_bound [OF assms(1)] by (rule order_trans)
  have "gateQueue g \<noteq> []" using sub by auto
  then have busy: "\<not> gateClosed g" "enat (activeCount g) = maxConcurrency g"
    using gate_busy [OF assms(1)] by blast+
  have active: "Suc (activeCount g - 1) = activeCount g"
    "length (remove1 i (gateHeld g)) = activeCount g - 1"
    using assms(2) length_pos_if_in_set [OF assms(2)] gate_count [OF assms(1)] by (simp_all add: length_remove1)
  have w: "wPromise w < gateCalls g" "wPromise w \<notin> set (gateHeld g)"
    using gate_queued [OF assms(1), of w] gate_not_held [OF assms(1), of w] sub by auto
  have rest: "x \<in> set rest \<Longrightarrow> wPromise x < gateCalls g \<and> gateOutcome g (wPromise x) = None \<and> wPromise x \<noteq> wPromise w"
    for x using gate_queued [OF assms(1), of x] sub dist by (auto simp: image_iff)
  show ?thesis
    using busy active w rest len dist gate_fresh [OF assms(1)] gate_held [OF assms(1)] gate_held_distinct [OF assms(1)]
    by (intro gateInvI) (auto dest: notin_set_remove1)
qed

lemma gate_closed_empty: "gateInv g \<Longrightarrow> gateClosed g \<Longrightarrow> gateQueue g = []"
  using gate_busy by blast

lemma release_frees:
  assumes "gateInv g" and "i \<in> set (gateHeld g)"
  shows "enat (activeCount g - 1) < maxConcurrency g"
    and "length (remove1 i (gateHeld g)) = activeCount g - 1"
proof -
  have pos: "activeCount g > 0"
    using length_pos_if_in_set [OF assms(2)] gate_count [OF assms(1)] by simp
  have "enat (activeCount g - 1) < enat (activeCount g)"
    using pos by simp
  then show "enat (activeCount g - 1) < maxConcurrency g"
    using gate_bound [OF assms(1)] by (rule order_less_le_trans)
  show "length (remove1 i (gateHeld g)) = activeCount g - 1"
    using assms(2) gate_count [OF assms(1)] by (simp add: length_remove1)
qed

lemma releaseHeld_eq:
  assumes "gateInv g" and "i \<in> set (gateHeld g)"
  shows "releaseHeld i g =
    (let h = g\<lparr>gateHeld := remove1 i (gateHeld g), activeCount := activeCount g - 1\<rparr> in
     case liveWaiters (gateQueue g) g of [] \<Rightarrow> h\<lparr>gateQueue := []\<rparr>
     | w # rest \<Rightarrow> grantSlot (wPromise w) (h\<lparr>gateQueue := rest\<rparr>))"
proof -
  let ?h = "g\<lparr>gateHeld := remove1 i (gateHeld g), activeCount := activeCount g - 1\<rparr>"
  have eq: "releaseHeld i g = releaseLoop (gateQueue g) ?h"
    by (simp add: releaseHeld_def release_def)
  show ?thesis
  proof (cases "gateClosed g")
    case True
    then show ?thesis
      using gate_closed_empty [OF assms(1)] by (simp add: eq liveWaiters_def)
  next
    case False
    then show ?thesis
      using releaseLoop_free [of ?h "gateQueue g"] release_frees(1) [OF assms]
      by (simp add: eq Let_def del: One_nat_def)
  qed
qed

lemma release_inv:
  assumes "gateInv g" and "i \<in> set (gateHeld g)"
  shows "gateInv (releaseHeld i g)"
proof -
  have "gateInv (g\<lparr>gateHeld := remove1 i (gateHeld g), activeCount := activeCount g - 1, gateQueue := []\<rparr>)"
    using release_frees [OF assms] gateInvD [OF assms(1)]
    by (intro gateInvI) (auto dest: notin_set_remove1 simp: zero_enat_def [symmetric])
  then show ?thesis
    using grant_waiter_inv [OF assms] releaseHeld_eq [OF assms] by (auto simp: Let_def split: list.split)
qed

lemma close_inv:
  assumes "gateInv g"
  shows "gateInv (closeGate g)"
proof (cases "gateClosed g")
  case True
  then show ?thesis using assms by (simp add: closeGate_def)
next
  case False
  have out: "i \<in> set (gateHeld g) \<Longrightarrow> i \<notin> wPromise ` set (gateQueue g)" for i
    using gate_not_held [OF assms] by auto
  have new: "gateCalls g \<le> i \<Longrightarrow> i \<notin> wPromise ` set (gateQueue g)" for i
    using gate_queued [OF assms] by fastforce
  show ?thesis
    using False out new gate_count [OF assms] gate_bound [OF assms] gate_fresh [OF assms]
      gate_held [OF assms] gate_held_distinct [OF assms]
    by (intro gateInvI) (simp_all add: closeGate_def zero_enat_def [symmetric])
qed

lemma onAbort_inv:
  assumes "gateInv g" and "w \<in> set (gateQueue g)"
  shows "gateInv (onAbort w g)"
proof -
  have dist: "distinct (gateQueue g)"
    using gate_queue_distinct [OF assms(1)] by (simp add: distinct_map)
  have keep: "x \<in> set (remove1 w (gateQueue g)) \<Longrightarrow> x \<in> set (gateQueue g) \<and> wPromise x \<noteq> wPromise w" for x
    using dist gate_queue_distinct [OF assms(1)] assms(2) by (auto simp: distinct_map dest: inj_onD)
  have "enat (length (remove1 w (gateQueue g))) \<le> enat (length (gateQueue g))"
    by (simp add: length_remove1)
  then have len: "enat (length (remove1 w (gateQueue g))) \<le> maxQueueSize g"
    using gate_queue_bound [OF assms(1)] by (rule order_trans)
  have dist': "distinct (map wPromise (remove1 w (gateQueue g)))"
    using gate_queue_distinct [OF assms(1)]
    by (auto simp: distinct_map elim: inj_on_subset)
  have "gateQueue g \<noteq> []" using assms(2) by auto
  then have busy: "\<not> gateClosed g" "enat (activeCount g) = maxConcurrency g"
    using gate_busy [OF assms(1)] by blast+
  have held: "i \<in> set (gateHeld g) \<Longrightarrow> i \<noteq> wPromise w" for i
    using gate_not_held [OF assms] by auto
  have new: "gateCalls g \<le> i \<Longrightarrow> i \<noteq> wPromise w" for i
    using gate_queued [OF assms] by auto
  let ?g = "settleAcquire (wPromise w) (AcquireFailed abortError) (g\<lparr>gateQueue := remove1 w (gateQueue g)\<rparr>)"
  have "gateInv ?g"
  proof (rule gateInvI)
    fix x assume "x \<in> set (gateQueue ?g)"
    then have "x \<in> set (remove1 w (gateQueue g))" by simp
    then have "x \<in> set (gateQueue g)" and "wPromise x \<noteq> wPromise w"
      using keep by blast+
    then show "wPromise x < gateCalls ?g \<and> gateOutcome ?g (wPromise x) = None"
      using gate_queued [OF assms(1), of x] by simp
  next
    fix i assume "gateCalls ?g \<le> i"
    then show "gateOutcome ?g i = None" using new gate_fresh [OF assms(1)] by simp
  next
    fix i assume "i \<in> set (gateHeld ?g)"
    then show "gateOutcome ?g i = Some SlotGranted" using held gate_held [OF assms(1)] by simp
  qed (use len dist' busy gate_count [OF assms(1)] gate_held_distinct [OF assms(1)]
    gate_bound [OF assms(1)] in simp_all)
  then show ?thesis by (simp add: onAbort_def removeWaiter_def)
qed

lemma gateInv_aborted: "gateInv (g\<lparr>gateAborted := a\<rparr>) = gateInv g"
  by (simp add: gateInv_def)

lemma abort_inv: "gateInv g \<Longrightarrow> gateInv (abortSignal s g)"
  by (simp add: abortSignal_def gateInv_aborted)

lemma create_inv: "gateInv (createRequestGate n k)"
  by (rule gateInvI) (simp_all add: createRequestGate_def zero_enat_def [symmetric])


lemma gateStep_inv: "gateInv g \<Longrightarrow> gateStep g e g' \<Longrightarrow> gateInv g'"
  by (auto elim!: gateStep.cases intro: acquire_inv release_inv abort_inv onAbort_inv close_inv)

section \<open>What a step may settle\<close>

definition gateWaiting :: "requestGate \<Rightarrow> nat set" where
  "gateWaiting g = wPromise ` set (gateQueue g)"

lemma release_outcome:
  assumes "gateInv g" and "i \<in> set (gateHeld g)"
  shows "gateOutcome (releaseHeld i g) j =
    (if j \<in> wPromise ` set (take 1 (liveWaiters (gateQueue g) g)) then Some SlotGranted else gateOutcome g j)"
    and "gateQueue (releaseHeld i g) = tl (liveWaiters (gateQueue g) g)"
    and "gateCalls (releaseHeld i g) = gateCalls g"
  by (auto simp: releaseHeld_eq [OF assms] Let_def split: list.split)

lemma acquire_outcome:
  "j \<noteq> gateCalls g \<Longrightarrow> gateOutcome (acquire s g) j = gateOutcome g j"
  "gateCalls (acquire s g) = Suc (gateCalls g)"
  "gateWaiting (acquire s g) \<subseteq> insert (gateCalls g) (gateWaiting g)"
  by (auto simp: acquire_def grant_def gateWaiting_def Let_def)

lemma close_outcome:
  "gateOutcome (closeGate g) j =
    (if \<not> gateClosed g \<and> j \<in> gateWaiting g then Some (AcquireFailed connectionClosedError) else gateOutcome g j)"
  "gateCalls (closeGate g) = gateCalls g" "gateWaiting (closeGate g) \<subseteq> gateWaiting g"
  by (auto simp: closeGate_def gateWaiting_def)

lemma onAbort_outcome:
  "gateOutcome (onAbort w g) j = (if j = wPromise w then Some (AcquireFailed abortError) else gateOutcome g j)"
  "gateCalls (onAbort w g) = gateCalls g" "gateWaiting (onAbort w g) \<subseteq> gateWaiting g"
  using set_remove1_subset by (fastforce simp: onAbort_def removeWaiter_def gateWaiting_def)+

lemma live_waiting: "wPromise ` set (take 1 (liveWaiters (gateQueue g) g)) \<subseteq> gateWaiting g"
  "wPromise ` set (tl (liveWaiters (gateQueue g) g)) \<subseteq> gateWaiting g"
  using liveWaiters_subset [of "gateQueue g" g] set_take_subset [of 1 "liveWaiters (gateQueue g) g"]
    list.set_sel(2) [of "liveWaiters (gateQueue g) g"]
  by (cases "liveWaiters (gateQueue g) g"; auto simp: gateWaiting_def)+

text \<open>Only a new call and the queued ones can be settled, and nobody else gets into the queue.\<close>

lemma gateStep_effect:
  assumes "gateInv g" and "gateStep g e g'"
  shows "gateOutcome g' j \<noteq> gateOutcome g j \<Longrightarrow>
      gateOutcome g j = None \<and> (j = gateCalls g \<or> j \<in> gateWaiting g)"
    and "gateWaiting g' \<subseteq> insert (gateCalls g) (gateWaiting g)" and "gateCalls g \<le> gateCalls g'"
proof -
  have none: "j \<in> gateWaiting g \<Longrightarrow> gateOutcome g j = None" "gateOutcome g (gateCalls g) = None"
    using gate_queued [OF assms(1)] gate_fresh [OF assms(1)] by (auto simp: gateWaiting_def)
  have "(gateOutcome g' j \<noteq> gateOutcome g j \<longrightarrow> j = gateCalls g \<or> j \<in> gateWaiting g) \<and>
      gateWaiting g' \<subseteq> insert (gateCalls g) (gateWaiting g) \<and> gateCalls g \<le> gateCalls g'"
    using assms(2)
  proof cases
    case (gate_acquire s)
    then show ?thesis using acquire_outcome [where g = g] by auto
  next
    case (gate_release i)
    then show ?thesis
      using release_outcome [OF assms(1)] live_waiting [of g]
      by (auto simp: gateWaiting_def [of "releaseHeld i g"])
  next
    case (gate_abort s)
    then show ?thesis by (auto simp: abortSignal_def gateWaiting_def)
  next
    case (gate_listener w)
    then show ?thesis using onAbort_outcome [where g = g and w = w] by (auto simp: gateWaiting_def)
  next
    case gate_close
    then show ?thesis using close_outcome [where g = g] by auto
  qed
  then show "gateOutcome g' j \<noteq> gateOutcome g j \<Longrightarrow>
      gateOutcome g j = None \<and> (j = gateCalls g \<or> j \<in> gateWaiting g)"
    and "gateWaiting g' \<subseteq> insert (gateCalls g) (gateWaiting g)" and "gateCalls g \<le> gateCalls g'"
    using none by auto
qed

interpretation gate: settling "createRequestGate n k" gateStep gateInv gateOutcome for n k
proof
  show "gateInv (createRequestGate n k)" by (rule create_inv)
  show "gateInv g \<Longrightarrow> gateStep g e g' \<Longrightarrow> gateInv g'" for g e g' by (rule gateStep_inv)
  show "gateInv g \<Longrightarrow> gateStep g e g' \<Longrightarrow> gateOutcome g i = Some v \<Longrightarrow> gateOutcome g' i = Some v"
    for g e g' i v using gateStep_effect(1) [of g e g' i] by fastforce
qed

text \<open>A call that is pending without being queued stays pending for ever.\<close>

definition forgotten :: "nat \<Rightarrow> requestGate \<Rightarrow> bool" where
  "forgotten i g \<longleftrightarrow> i < gateCalls g \<and> gateOutcome g i = None \<and> i \<notin> gateWaiting g"

lemma forgotten_step: "gateInv g \<Longrightarrow> gateStep g e g' \<Longrightarrow> forgotten i g \<Longrightarrow> forgotten i g'"
  using gateStep_effect [of g e g'] unfolding forgotten_def by (metis insertE not_less_iff_gr_or_eq order_less_le_trans subsetD)

lemma forgotten_run: "run gateStep g es g' \<Longrightarrow> gateInv g \<Longrightarrow> forgotten i g \<Longrightarrow> forgotten i g'"
proof (induction rule: run.induct)
  case (run_more g es g1 e g2)
  then show ?case using gate.run_inv forgotten_step by blast
qed simp


section \<open>Properties\<close>

lemma gate_limits_step:
  "gateStep g e g' \<Longrightarrow> maxConcurrency g' = maxConcurrency g \<and> maxQueueSize g' = maxQueueSize g"
proof (induction rule: gateStep.induct)
  case (gate_release i g)
  have "maxConcurrency (releaseLoop ws h) = maxConcurrency h \<and> maxQueueSize (releaseLoop ws h) = maxQueueSize h"
    for ws h by (induction ws h rule: releaseLoop.induct) simp_all
  then show ?case by (simp add: releaseHeld_def release_def)
qed (simp_all add: acquire_def grant_def Let_def abortSignal_def onAbort_def removeWaiter_def closeGate_def)

interpretation limits: machine "createRequestGate n k" gateStep
  "\<lambda>g. maxConcurrency g = n \<and> maxQueueSize g = k" for n k
  by unfold_locales (auto simp: createRequestGate_def dest: gate_limits_step)

lemma gate_limits: "reachable gateStep (createRequestGate n k) g \<Longrightarrow> maxConcurrency g = n \<and> maxQueueSize g = k"
  by (rule limits.reachable_inv)

lemmas gate_reachable =
  reachable_step [where step = gateStep, OF _ gate_acquire]
  reachable_step [where step = gateStep, OF _ gate_abort]

text \<open>
  C11: the gate bounds what it admits. In every state it can reach, the active count is the
  number of callers holding a slot, at most \<open>maxConcurrency\<close> of them; at most \<open>maxQueueSize\<close>
  calls wait, and none waits while a slot is free or after the gate was closed.
\<close>

theorem admission_bounded:
  assumes "reachable gateStep (createRequestGate n k) g"
  shows "activeCount g = length (gateHeld g) \<and> distinct (gateHeld g) \<and>
    enat (length (gateHeld g)) \<le> n \<and> enat (length (gateQueue g)) \<le> k \<and>
    (gateQueue g \<noteq> [] \<longrightarrow> \<not> gateClosed g \<and> enat (length (gateHeld g)) = n)"
  using gateInvD [OF gate.reachable_inv [OF assms]] gate_limits [OF assms] by metis

theorem admission_bounded_witness:
  "let g = acquire None (acquire None (createRequestGate 1 1)) in
   enat (length (gateHeld g)) \<le> 1 \<and> length (gateQueue g) = 1 \<and> enat (length (gateQueue g)) \<le> 1"
proof -
  let ?g = "acquire None (acquire None (createRequestGate 1 1))"
  have "reachable gateStep (createRequestGate 1 1) ?g"
    by (intro gate_reachable reachable_start)
  then have "enat (length (gateHeld ?g)) \<le> 1 \<and> enat (length (gateQueue ?g)) \<le> 1"
    using admission_bounded by blast
  moreover have "length (gateQueue ?g) = 1"
    by (simp add: acquire_def createRequestGate_def signalAborted_def grant_def grantSlot_def
        settleAcquire_def one_enat_def zero_enat_def)
  ultimately show ?thesis unfolding Let_def by blast
qed

text \<open>
  Slots are handed on first come, first served. Releasing a slot gives it to the oldest
  waiter whose signal has not aborted and leaves the active count as it was.
\<close>

theorem slot_goes_to_oldest:
  assumes "reachable gateStep (createRequestGate n k) g" and "i \<in> set (gateHeld g)"
    and "gateQueue g = gone @ w # rest" and "\<forall>x \<in> set gone. signalAborted (wSignal x) g"
    and "\<not> signalAborted (wSignal w) g"
  shows "gateOutcome (releaseHeld i g) (wPromise w) = Some SlotGranted \<and>
    wPromise w \<in> set (gateHeld (releaseHeld i g)) \<and> gateQueue (releaseHeld i g) = rest \<and>
    activeCount (releaseHeld i g) = activeCount g"
proof -
  have inv: "gateInv g" using gate.reachable_inv [OF assms(1)] .
  have "liveWaiters (gateQueue g) g = w # rest"
    using assms(3-5) by (simp add: liveWaiters_def dropWhile_append2)
  moreover have "activeCount g > 0"
    using length_pos_if_in_set [OF assms(2)] gate_count [OF inv] by simp
  ultimately show ?thesis by (simp add: releaseHeld_eq [OF inv assms(2)] Let_def)
qed

definition gateExample :: requestGate where
  "gateExample = abortSignal 7 (acquire None (acquire (Some 7) (acquire None (createRequestGate 1 2))))"

lemma gateExample_reachable: "reachable gateStep (createRequestGate 1 2) gateExample"
  unfolding gateExample_def
  by (intro gate_reachable reachable_start)

lemma gateExample_facts: "gateHeld gateExample = [0]" "gateCalls gateExample = 3"
  "gateQueue gateExample = [\<lparr>wPromise = 1, wSignal = Some 7\<rparr>] @ \<lparr>wPromise = 2, wSignal = None\<rparr> # []"
  "signalAborted (Some 7) gateExample" "gateOutcome gateExample 1 = None"
  by (simp_all add: gateExample_def abortSignal_def acquire_def createRequestGate_def signalAborted_def
      grant_def grantSlot_def settleAcquire_def one_enat_def zero_enat_def numeral_2_eq_2 numeral_eq_enat)

theorem slot_goes_to_oldest_witness:
  "gateOutcome (releaseHeld 0 gateExample) 2 = Some SlotGranted"
  using slot_goes_to_oldest [OF gateExample_reachable _ gateExample_facts(3)] gateExample_facts
  by (simp add: signalAborted_def)

text \<open>
  A waiter whose signal has aborted, but whose abort listener has not run yet when a slot is
  released, is dropped from the queue with its listener; its promise is never settled, whatever
  happens later.
\<close>

theorem aborted_waiter_forgotten:
  assumes "reachable gateStep (createRequestGate n k) g" and "i \<in> set (gateHeld g)"
    and "gateQueue g = gone @ w # rest" and "\<forall>x \<in> set (gone @ [w]). signalAborted (wSignal x) g"
    and "run gateStep (releaseHeld i g) es g'"
  shows "gateOutcome g' (wPromise w) = None"
proof -
  have inv: "gateInv g" using gate.reachable_inv [OF assms(1)] .
  have "liveWaiters (gateQueue g) g = dropWhile (\<lambda>x. signalAborted (wSignal x) g) rest"
    using assms(3,4) by (simp add: liveWaiters_def dropWhile_append2)
  then have "set (liveWaiters (gateQueue g) g) \<subseteq> set rest"
    using set_dropWhileD by fastforce
  moreover have "wPromise w \<notin> wPromise ` set rest" "w \<in> set (gateQueue g)"
    using gate_queue_distinct [OF inv] assms(3) by auto
  moreover have "set (tl (liveWaiters (gateQueue g) g)) \<subseteq> set (liveWaiters (gateQueue g) g)"
    by (cases "liveWaiters (gateQueue g) g") auto
  ultimately have "forgotten (wPromise w) (releaseHeld i g)"
    using release_outcome [OF inv assms(2)] gate_queued [OF inv, of w]
      set_take_subset [of 1 "liveWaiters (gateQueue g) g"]
    unfolding forgotten_def gateWaiting_def by fastforce
  then show ?thesis
    using forgotten_run [OF assms(5) release_inv [OF inv assms(2)]] by (simp add: forgotten_def)
qed

theorem aborted_waiter_forgotten_witness:
  "gateOutcome (closeGate (releaseHeld 0 gateExample)) 1 = None"
  using aborted_waiter_forgotten [OF gateExample_reachable, where gone = "[]" and i = 0
      and w = "\<lparr>wPromise = 1, wSignal = Some 7\<rparr>", OF _ _ _ run_one [of gateStep, OF gate_close]]
    gateExample_facts by simp

end
