(* ===== verification/Dispatcher.thy ===== *)
theory Dispatcher
  imports Errors Machines Complex_Main "HOL-Library.Extended_Nat"
begin

text \<open>
  The dispatcher of asynchronous handlers, \<^verbatim>\<open>src/client/internal/async-handler-dispatcher.ts\<close>: at most
  \<open>concurrency\<close> handlers run, the next ones are queued in order, the rest is refused. A task is
  the number of its dispatch. The state records which tasks were started, what was reported to
  \<^verbatim>\<open>onError\<close> and the metrics that were emitted; the callbacks do not call back into the dispatcher.
\<close>

section \<open>Options\<close>

text \<open>A JavaScript number: a finite double, which is a rational, or an infinity or NaN.\<close>

datatype jsnumber = Finite rat | NotFinite

fun concurrencyOf :: "jsnumber \<Rightarrow> enat" where
  "concurrencyOf (Finite x) = enat (nat (max 1 \<lfloor>x\<rfloor>))"
| "concurrencyOf NotFinite = \<infinity>"

fun queueCapacityOf :: "jsnumber option \<Rightarrow> enat" where
  "queueCapacityOf (Some (Finite x)) = enat (nat (max 0 \<lfloor>x\<rfloor>))"
| "queueCapacityOf _ = \<infinity>"

lemma concurrencyOf_pos: "0 < concurrencyOf x"
  by (cases x) (simp_all add: zero_enat_def)

section \<open>State and operations\<close>

record dispatcherMetrics =
  metricActive :: nat
  metricQueued :: nat
  metricSaturation :: nat

record dispatcher =
  dpConcurrency :: enat
  dpQueueCapacity :: enat
  dpActiveCount :: nat
  dpSaturationCount :: nat
  dpClosed :: bool
  dpQueue :: "nat list"
  dpActiveTasks :: "nat list"
  dpTimers :: "nat list"
  dpCalls :: nat
  dpStarted :: "nat list"
  dpReports :: "(nat \<times> jserror) list"
  dpMetrics :: "dispatcherMetrics list"
  dpSaturated :: "dispatcherMetrics list"

definition createAsyncHandlerDispatcher :: "jsnumber \<Rightarrow> jsnumber option \<Rightarrow> dispatcher" where
  "createAsyncHandlerDispatcher n k = \<lparr>dpConcurrency = concurrencyOf n,
     dpQueueCapacity = queueCapacityOf k, dpActiveCount = 0, dpSaturationCount = 0,
     dpClosed = False, dpQueue = [], dpActiveTasks = [], dpTimers = [], dpCalls = 0,
     dpStarted = [], dpReports = [], dpMetrics = [], dpSaturated = []\<rparr>"

definition getMetrics :: "dispatcher \<Rightarrow> dispatcherMetrics" where
  "getMetrics d = \<lparr>metricActive = dpActiveCount d, metricQueued = length (dpQueue d),
     metricSaturation = dpSaturationCount d\<rparr>"

definition emitMetrics :: "dispatcher \<Rightarrow> dispatcher" where
  "emitMetrics d = d\<lparr>dpMetrics := dpMetrics d @ [getMetrics d]\<rparr>"

definition reportOnce :: "nat \<Rightarrow> jserror \<Rightarrow> dispatcher \<Rightarrow> dispatcher" where
  "reportOnce i e d = (if i \<in> fst ` set (dpReports d) then d
     else d\<lparr>dpReports := dpReports d @ [(i, e)]\<rparr>)"

text \<open>The function \<^verbatim>\<open>run\<close> of a dispatched task; \<^verbatim>\<open>runTask\<close> starts the handler and its timer.\<close>

definition runTask :: "nat \<Rightarrow> dispatcher \<Rightarrow> dispatcher" where
  "runTask i d = d\<lparr>dpStarted := dpStarted d @ [i], dpTimers := i # dpTimers d\<rparr>"

definition runHandler :: "nat \<Rightarrow> dispatcher \<Rightarrow> dispatcher" where
  "runHandler i d =
    (if dpClosed d then d
     else (let d = runTask i (emitMetrics (d\<lparr>dpActiveCount := dpActiveCount d + 1\<rparr>))
           in d\<lparr>dpActiveTasks := i # dpActiveTasks d\<rparr>))"

definition dispatchTask :: "dispatcher \<Rightarrow> bool \<times> dispatcher" where
  "dispatchTask d0 =
    (if dpClosed d0 then (False, d0)
     else (let i = dpCalls d0; d = d0\<lparr>dpCalls := i + 1\<rparr> in
       if enat (dpActiveCount d) < dpConcurrency d then (True, runHandler i d)
       else if enat (length (dpQueue d)) \<ge> dpQueueCapacity d then
         (let d = d\<lparr>dpSaturationCount := dpSaturationCount d + 1\<rparr>;
              d = d\<lparr>dpSaturated := dpSaturated d @ [getMetrics d]\<rparr>
          in (False, emitMetrics d))
       else (True, emitMetrics (d\<lparr>dpQueue := dpQueue d @ [i]\<rparr>))))"

text \<open>The loop of \<^verbatim>\<open>flush\<close>.\<close>

fun flushLoop :: "nat list \<Rightarrow> dispatcher \<Rightarrow> dispatcher" where
  "flushLoop [] d = d\<lparr>dpQueue := []\<rparr>"
| "flushLoop (i # is) d =
    (if enat (dpActiveCount d) < dpConcurrency d then flushLoop is (runHandler i (d\<lparr>dpQueue := is\<rparr>))
     else d\<lparr>dpQueue := i # is\<rparr>)"

definition flush :: "dispatcher \<Rightarrow> dispatcher" where
  "flush d =
    (if dpClosed d then (if dpQueue d \<noteq> [] then emitMetrics (d\<lparr>dpQueue := []\<rparr>) else d)
     else flushLoop (dpQueue d) d)"

text \<open>The end of the handler itself, and the \<^verbatim>\<open>finally\<close> of the dispatched task after it.\<close>

definition handlerSettled :: "nat \<Rightarrow> jserror option \<Rightarrow> dispatcher \<Rightarrow> dispatcher" where
  "handlerSettled i v d =
    (let d = (case v of None \<Rightarrow> d | Some e \<Rightarrow> reportOnce i e d)
     in d\<lparr>dpTimers := remove1 i (dpTimers d)\<rparr>)"

definition handlerTimeout :: "nat \<Rightarrow> dispatcher \<Rightarrow> dispatcher" where
  "handlerTimeout i d = reportOnce i PlainError (d\<lparr>dpTimers := remove1 i (dpTimers d)\<rparr>)"

definition taskFinished :: "nat \<Rightarrow> dispatcher \<Rightarrow> dispatcher" where
  "taskFinished i d = emitMetrics (flush (d\<lparr>dpActiveTasks := remove1 i (dpActiveTasks d),
     dpActiveCount := dpActiveCount d - 1\<rparr>))"

definition closeDispatcher :: "dispatcher \<Rightarrow> dispatcher" where
  "closeDispatcher d =
    (let d = d\<lparr>dpClosed := True\<rparr>
     in if dpQueue d \<noteq> [] then emitMetrics (d\<lparr>dpQueue := []\<rparr>) else d)"

text \<open>\<^verbatim>\<open>drain\<close> returns when it finds no task active.\<close>

definition drained :: "dispatcher \<Rightarrow> bool" where
  "drained d \<longleftrightarrow> dpActiveTasks d = []"

datatype dispatcherEvent =
  TaskDispatched | HandlerSettled nat "jserror option" | HandlerTimedOut nat | TaskFinished nat | DispatcherClosed

inductive dispatcherStep :: "dispatcher \<Rightarrow> dispatcherEvent \<Rightarrow> dispatcher \<Rightarrow> bool" where
  dispatched: "dispatcherStep d TaskDispatched (snd (dispatchTask d))"
| settled: "i \<in> set (dpActiveTasks d) \<Longrightarrow> dispatcherStep d (HandlerSettled i v) (handlerSettled i v d)"
| timed_out: "i \<in> set (dpTimers d) \<Longrightarrow> dispatcherStep d (HandlerTimedOut i) (handlerTimeout i d)"
| finished: "i \<in> set (dpActiveTasks d) \<Longrightarrow> dispatcherStep d (TaskFinished i) (taskFinished i d)"
| closed: "dispatcherStep d DispatcherClosed (closeDispatcher d)"

section \<open>The invariant\<close>

definition dispatcherInv :: "dispatcher \<Rightarrow> bool" where
  "dispatcherInv d \<longleftrightarrow>
     dpActiveCount d = length (dpActiveTasks d) \<and> enat (dpActiveCount d) \<le> dpConcurrency d \<and>
     enat (length (dpQueue d)) \<le> dpQueueCapacity d \<and>
     (dpQueue d \<noteq> [] \<longrightarrow> \<not> dpClosed d \<and> enat (dpActiveCount d) = dpConcurrency d) \<and>
     sorted_wrt (<) (dpStarted d @ dpQueue d) \<and> (\<forall>i \<in> set (dpStarted d @ dpQueue d). i < dpCalls d) \<and>
     set (dpActiveTasks d) \<subseteq> set (dpStarted d) \<and> distinct (dpActiveTasks d) \<and>
     distinct (map fst (dpReports d))"

lemma emitMetrics_simps [simp]:
  "dpActiveCount (emitMetrics d) = dpActiveCount d" "dpActiveTasks (emitMetrics d) = dpActiveTasks d"
  "dpConcurrency (emitMetrics d) = dpConcurrency d" "dpQueueCapacity (emitMetrics d) = dpQueueCapacity d"
  "dpQueue (emitMetrics d) = dpQueue d" "dpClosed (emitMetrics d) = dpClosed d"
  "dpStarted (emitMetrics d) = dpStarted d" "dpCalls (emitMetrics d) = dpCalls d"
  "dpReports (emitMetrics d) = dpReports d" "dpTimers (emitMetrics d) = dpTimers d"
  "dpSaturationCount (emitMetrics d) = dpSaturationCount d"
  by (simp_all add: emitMetrics_def)

lemma emitMetrics_inv [simp]: "dispatcherInv (emitMetrics d) = dispatcherInv d"
  by (simp add: dispatcherInv_def)

lemma runHandler_simps:
  assumes "\<not> dpClosed d"
  shows "dpActiveCount (runHandler i d) = dpActiveCount d + 1"
    "dpActiveTasks (runHandler i d) = i # dpActiveTasks d"
    "dpConcurrency (runHandler i d) = dpConcurrency d" "dpQueueCapacity (runHandler i d) = dpQueueCapacity d"
    "dpQueue (runHandler i d) = dpQueue d" "dpClosed (runHandler i d) = dpClosed d"
    "dpStarted (runHandler i d) = dpStarted d @ [i]" "dpCalls (runHandler i d) = dpCalls d"
    "dpReports (runHandler i d) = dpReports d"
  using assms by (simp_all add: runHandler_def runTask_def Let_def)

text \<open>What the loop of \<^verbatim>\<open>flush\<close> needs while it hands out slots, and what it establishes.\<close>

definition flushing :: "nat list \<Rightarrow> dispatcher \<Rightarrow> bool" where
  "flushing is d \<longleftrightarrow> \<not> dpClosed d \<and>
     dpActiveCount d = length (dpActiveTasks d) \<and> enat (dpActiveCount d) \<le> dpConcurrency d \<and>
     enat (length is) \<le> dpQueueCapacity d \<and>
     sorted_wrt (<) (dpStarted d @ is) \<and> (\<forall>i \<in> set (dpStarted d @ is). i < dpCalls d) \<and>
     set (dpActiveTasks d) \<subseteq> set (dpStarted d) \<and> distinct (dpActiveTasks d) \<and>
     distinct (map fst (dpReports d))"

lemma flushing_run:
  assumes "flushing (i # is) d" and "enat (dpActiveCount d) < dpConcurrency d"
  shows "flushing is (runHandler i (d\<lparr>dpQueue := is\<rparr>))"
proof -
  have "enat (Suc (dpActiveCount d)) \<le> dpConcurrency d"
    using assms(2) by (metis Suc_ile_eq)
  moreover have "enat (length is) \<le> dpQueueCapacity d"
    using assms(1) by (simp add: flushing_def) (metis Suc_ile_eq order_less_imp_le)
  moreover have "i \<notin> set (dpActiveTasks d)"
    using assms(1) by (auto simp: flushing_def sorted_wrt_append)
  ultimately show ?thesis
    using assms(1) by (auto simp: flushing_def runHandler_simps sorted_wrt_append)
qed

lemma flushLoop_inv: "flushing is d \<Longrightarrow> dispatcherInv (flushLoop is d)"
proof (induction "is" arbitrary: d)
  case Nil
  then show ?case by (auto simp: flushing_def dispatcherInv_def zero_enat_def [symmetric])
next
  case (Cons i "is")
  show ?case
  proof (cases "enat (dpActiveCount d) < dpConcurrency d")
    case True
    then show ?thesis using Cons.IH flushing_run [OF Cons.prems True] by simp
  next
    case False
    then have "enat (dpActiveCount d) = dpConcurrency d"
      using Cons.prems by (simp add: flushing_def order.not_eq_order_implies_strict) (metis order.not_eq_order_implies_strict)
    then show ?thesis using False Cons.prems by (auto simp: flushing_def dispatcherInv_def)
  qed
qed


lemma dispatcherInv_flushing: "dispatcherInv d \<Longrightarrow> \<not> dpClosed d \<Longrightarrow> flushing (dpQueue d) d"
  unfolding dispatcherInv_def flushing_def by blast

lemma create_dispatcher_inv: "dispatcherInv (createAsyncHandlerDispatcher n k)"
  by (simp add: createAsyncHandlerDispatcher_def dispatcherInv_def zero_enat_def [symmetric])

lemma start_now_inv:
  assumes "dispatcherInv d" and "\<not> dpClosed d" and "enat (dpActiveCount d) < dpConcurrency d"
  shows "dispatcherInv (runHandler (dpCalls d) (d\<lparr>dpCalls := dpCalls d + 1\<rparr>))"
proof -
  have "dpQueue d = []"
    using assms(1,3) unfolding dispatcherInv_def by (metis less_irrefl)
  moreover have "enat (Suc (dpActiveCount d)) \<le> dpConcurrency d"
    using assms(3) by (metis Suc_ile_eq)
  ultimately show ?thesis
    using assms(1,2) by (auto simp: dispatcherInv_def runHandler_simps sorted_wrt_append less_Suc_eq)
qed

lemma enqueue_inv:
  assumes "dispatcherInv d" and "\<not> dpClosed d" and "\<not> enat (dpActiveCount d) < dpConcurrency d"
    and "\<not> dpQueueCapacity d \<le> enat (length (dpQueue d))"
  shows "dispatcherInv (d\<lparr>dpCalls := dpCalls d + 1, dpQueue := dpQueue d @ [dpCalls d]\<rparr>)"
proof -
  have "enat (dpActiveCount d) \<le> dpConcurrency d"
    using assms(1) unfolding dispatcherInv_def by blast
  then have "enat (dpActiveCount d) = dpConcurrency d"
    using assms(3) by (metis order.not_eq_order_implies_strict)
  moreover have "enat (Suc (length (dpQueue d))) \<le> dpQueueCapacity d"
    using assms(4) by (metis Suc_ile_eq not_le)
  ultimately show ?thesis
    using assms(1,2) by (auto simp: dispatcherInv_def sorted_wrt_append less_Suc_eq)
qed

lemma dispatcherInv_counters:
  "dispatcherInv d \<Longrightarrow> dispatcherInv (d\<lparr>dpCalls := dpCalls d + 1, dpSaturationCount := s, dpSaturated := x\<rparr>)"
  by (auto simp: dispatcherInv_def less_Suc_eq)

lemma dispatch_inv: "dispatcherInv d \<Longrightarrow> dispatcherInv (snd (dispatchTask d))"
  using start_now_inv [of d] enqueue_inv [of d] dispatcherInv_counters [of d]
  by (simp add: dispatchTask_def Let_def)

lemma report_inv [simp]: "dispatcherInv d \<Longrightarrow> dispatcherInv (reportOnce i e d)"
  by (auto simp: reportOnce_def dispatcherInv_def)

lemma timers_inv [simp]: "dispatcherInv (d\<lparr>dpTimers := t\<rparr>) = dispatcherInv d"
  by (simp add: dispatcherInv_def)

lemma settled_inv: "dispatcherInv d \<Longrightarrow> dispatcherInv (handlerSettled i v d)"
  by (simp add: handlerSettled_def Let_def split: option.split)

lemma timeout_inv: "dispatcherInv d \<Longrightarrow> dispatcherInv (handlerTimeout i d)"
  by (simp add: handlerTimeout_def)

lemma finished_inv:
  assumes "dispatcherInv d" and "i \<in> set (dpActiveTasks d)"
  shows "dispatcherInv (taskFinished i d)"
proof -
  let ?d = "d\<lparr>dpActiveTasks := remove1 i (dpActiveTasks d), dpActiveCount := dpActiveCount d - 1\<rparr>"
  have count: "dpActiveCount d = length (dpActiveTasks d)" "enat (dpActiveCount d) \<le> dpConcurrency d"
    using assms(1) unfolding dispatcherInv_def by blast+
  have "enat (dpActiveCount d - 1) \<le> enat (dpActiveCount d)" by simp
  then have le: "enat (dpActiveCount d - 1) \<le> dpConcurrency d"
    using count(2) by (rule order_trans)
  have "flushing (dpQueue d) ?d" if "\<not> dpClosed d"
    using that assms le count(1) by (auto simp: flushing_def dispatcherInv_def length_remove1 dest: notin_set_remove1)
  moreover have "dispatcherInv ?d" if "dpClosed d"
    using that assms le count(1) by (auto simp: dispatcherInv_def length_remove1 dest: notin_set_remove1)
  moreover have "dpQueue d = []" if "dpClosed d"
    using that assms(1) unfolding dispatcherInv_def by blast
  ultimately show ?thesis
    using flushLoop_inv [of "dpQueue d" ?d] by (simp add: taskFinished_def flush_def)
qed

lemma close_dispatcher_inv: "dispatcherInv d \<Longrightarrow> dispatcherInv (closeDispatcher d)"
  by (auto simp: closeDispatcher_def dispatcherInv_def Let_def sorted_wrt_append zero_enat_def [symmetric])

lemma dispatcherStep_inv: "dispatcherInv d \<Longrightarrow> dispatcherStep d e d' \<Longrightarrow> dispatcherInv d'"
  by (auto elim!: dispatcherStep.cases
      intro: dispatch_inv settled_inv timeout_inv finished_inv close_dispatcher_inv)

lemma flushLoop_limits:
  "dpConcurrency (flushLoop is d) = dpConcurrency d \<and> dpQueueCapacity (flushLoop is d) = dpQueueCapacity d"
  by (induction "is" d rule: flushLoop.induct) (simp_all add: runHandler_def runTask_def Let_def)

lemma dispatcher_limits_step:
  "dispatcherStep d e d' \<Longrightarrow> dpConcurrency d' = dpConcurrency d \<and> dpQueueCapacity d' = dpQueueCapacity d"
  by (induction rule: dispatcherStep.induct)
    (simp_all add: dispatchTask_def runHandler_def runTask_def handlerSettled_def handlerTimeout_def
      reportOnce_def taskFinished_def flush_def flushLoop_limits closeDispatcher_def Let_def split: option.split)

interpretation dispatcher: machine "createAsyncHandlerDispatcher n k" dispatcherStep
  "\<lambda>d. dispatcherInv d \<and> dpConcurrency d = concurrencyOf n \<and> dpQueueCapacity d = queueCapacityOf k" for n k
proof
  show "dispatcherInv (createAsyncHandlerDispatcher n k) \<and>
      dpConcurrency (createAsyncHandlerDispatcher n k) = concurrencyOf n \<and>
      dpQueueCapacity (createAsyncHandlerDispatcher n k) = queueCapacityOf k"
    using create_dispatcher_inv by (simp add: createAsyncHandlerDispatcher_def)
qed (metis dispatcherStep_inv dispatcher_limits_step)

section \<open>A slot is held until the handler ends\<close>

lemma flushLoop_active: "\<not> dpClosed d \<Longrightarrow> set (dpActiveTasks d) \<subseteq> set (dpActiveTasks (flushLoop is d))"
proof (induction "is" d rule: flushLoop.induct)
  case (2 i "is" d)
  then show ?case by (auto simp: runHandler_simps)
qed simp

lemma active_step:
  assumes "dispatcherStep d e d'" and "dispatcherInv d" and "i \<in> set (dpActiveTasks d)" and "e \<noteq> TaskFinished i"
  shows "i \<in> set (dpActiveTasks d')"
  using assms
proof cases
  case dispatched
  then show ?thesis
    using assms(3) by (simp add: dispatchTask_def runHandler_def runTask_def Let_def)
next
  case (settled j v)
  then show ?thesis using assms(3) by (simp add: handlerSettled_def reportOnce_def Let_def split: option.split)
next
  case (timed_out j)
  then show ?thesis using assms(3) by (simp add: handlerTimeout_def reportOnce_def)
next
  case (finished j)
  then have "i \<in> set (remove1 j (dpActiveTasks d))" using assms(3,4) by simp
  then show ?thesis
    using finished(2) flushLoop_active [of "d\<lparr>dpActiveTasks := remove1 j (dpActiveTasks d),
        dpActiveCount := dpActiveCount d - 1\<rparr>" "dpQueue d"]
    by (auto simp: taskFinished_def flush_def)
next
  case closed
  then show ?thesis using assms(3) by (simp add: closeDispatcher_def Let_def)
qed

lemma active_run:
  "run dispatcherStep d es d' \<Longrightarrow> dispatcherInv d \<Longrightarrow> i \<in> set (dpActiveTasks d) \<Longrightarrow> TaskFinished i \<notin> set es \<Longrightarrow>
    i \<in> set (dpActiveTasks d') \<and> dispatcherInv d'"
proof (induction rule: run.induct)
  case (run_more d es d1 e d2)
  then show ?case using active_step dispatcherStep_inv by auto
qed simp

section \<open>Properties\<close>

text \<open>
  The dispatcher keeps its bounds. In every state it can reach at most \<open>concurrency\<close>
  handlers run and at most \<open>queueCapacity\<close> tasks wait, none waits while a slot is free, tasks
  start in the order of their dispatch, and a task is reported to \<^verbatim>\<open>onError\<close> at most once.
\<close>

theorem handlers_bounded:
  assumes "reachable dispatcherStep (createAsyncHandlerDispatcher n k) d"
  shows "enat (length (dpActiveTasks d)) \<le> concurrencyOf n \<and>
    enat (length (dpQueue d)) \<le> queueCapacityOf k \<and>
    (dpQueue d \<noteq> [] \<longrightarrow> enat (length (dpActiveTasks d)) = concurrencyOf n) \<and>
    sorted_wrt (<) (dpStarted d @ dpQueue d) \<and> distinct (map fst (dpReports d))"
  using dispatcher.reachable_inv [OF assms] unfolding dispatcherInv_def by metis

text \<open>
  A handler keeps its slot until it ends. Whatever happens after it was started, a reported
  timeout and the close of the dispatcher included, it counts as active until it has finished.
\<close>

theorem slot_held_until_finished:
  assumes "reachable dispatcherStep (createAsyncHandlerDispatcher n k) d" and "i \<in> set (dpActiveTasks d)"
    and "run dispatcherStep d es d'" and "TaskFinished i \<notin> set es"
  shows "i \<in> set (dpActiveTasks d') \<and> dpActiveCount d' = length (dpActiveTasks d')"
  using active_run [OF assms(3) _ assms(2,4)] dispatcher.reachable_inv [OF assms(1)]
  unfolding dispatcherInv_def by blast

definition dispatcherExample :: dispatcher where
  "dispatcherExample = snd (dispatchTask (snd (dispatchTask
     (createAsyncHandlerDispatcher (Finite (3 / 2)) (Some (Finite 1))))))"

lemma dispatcherExample_reachable:
  "reachable dispatcherStep (createAsyncHandlerDispatcher (Finite (3 / 2)) (Some (Finite 1))) dispatcherExample"
  unfolding dispatcherExample_def
  by (intro reachable_step [where step = dispatcherStep, OF _ dispatched] reachable_start)

lemma dispatcherExample_facts:
  "dpActiveTasks dispatcherExample = [0]" "dpQueue dispatcherExample = [1]" "dpTimers dispatcherExample = [0]"
  by (simp_all add: dispatcherExample_def dispatchTask_def createAsyncHandlerDispatcher_def runHandler_def
      runTask_def emitMetrics_def getMetrics_def one_enat_def zero_enat_def Let_def)

theorem handlers_bounded_witness:
  "enat (length (dpActiveTasks dispatcherExample)) \<le> 1 \<and> dpQueue dispatcherExample \<noteq> []"
  using handlers_bounded [OF dispatcherExample_reachable] dispatcherExample_facts
  by (simp add: one_enat_def)

theorem slot_held_until_finished_witness:
  "0 \<in> set (dpActiveTasks (closeDispatcher (handlerTimeout 0 dispatcherExample)))"
proof -
  have "run dispatcherStep dispatcherExample [HandlerTimedOut 0, DispatcherClosed]
      (closeDispatcher (handlerTimeout 0 dispatcherExample))"
    by (rule run_two [where step = dispatcherStep, OF timed_out closed]) (simp add: dispatcherExample_facts)
  then show ?thesis
    using slot_held_until_finished [OF dispatcherExample_reachable, of 0] dispatcherExample_facts by simp
qed

end
