(* ===== verification/WakeGate.thy ===== *)
theory WakeGate
  imports Errors Machines
begin

text \<open>
  The versioned wake gate of \<^verbatim>\<open>src/core/wake-gate.ts\<close>. A call of \<^verbatim>\<open>waitAfter\<close> is a number; the state
  keeps the waiters in the order of their set, what each call settled with and the abort signals
  that have fired.
\<close>

section \<open>State and operations\<close>

record wakeWaiter =
  wkPromise :: nat
  wkObserved :: nat
  wkSignal :: "nat option"

datatype wakeOutcome = Woken nat | WaitAborted jserror

record wakeGate =
  wkVersion :: nat
  wkWaiters :: "wakeWaiter list"
  wkCalls :: nat
  wkOutcome :: "nat \<Rightarrow> wakeOutcome option"
  wkAborted :: "nat list"

definition createWakeGate :: wakeGate where
  "createWakeGate = \<lparr>wkVersion = 0, wkWaiters = [], wkCalls = 0, wkOutcome = (\<lambda>_. None),
     wkAborted = []\<rparr>"

definition settleWait :: "nat \<Rightarrow> wakeOutcome \<Rightarrow> wakeGate \<Rightarrow> wakeGate" where
  "settleWait i v g = g\<lparr>wkOutcome := (wkOutcome g)(i := Some v)\<rparr>"

definition cleanupWaiter :: "wakeWaiter \<Rightarrow> wakeGate \<Rightarrow> wakeGate" where
  "cleanupWaiter w g = g\<lparr>wkWaiters := removeAll w (wkWaiters g)\<rparr>"

definition wake :: "wakeGate \<Rightarrow> nat \<times> wakeGate" where
  "wake g0 =
    (let g = g0\<lparr>wkVersion := wkVersion g0 + 1\<rparr>; version = wkVersion g in
     (version, fold (\<lambda>w g. settleWait (wkPromise w) (Woken version) (cleanupWaiter w g)) (wkWaiters g) g))"

definition wakeSignalAborted :: "nat option \<Rightarrow> wakeGate \<Rightarrow> bool" where
  "wakeSignalAborted s g = (case s of None \<Rightarrow> False | Some i \<Rightarrow> i \<in> set (wkAborted g))"

definition waitAfter :: "nat \<Rightarrow> nat option \<Rightarrow> wakeGate \<Rightarrow> wakeGate" where
  "waitAfter observed s g0 =
    (let i = wkCalls g0; g = g0\<lparr>wkCalls := i + 1\<rparr> in
     if wkVersion g > observed then settleWait i (Woken (wkVersion g)) g
     else if wakeSignalAborted s g then settleWait i (WaitAborted abortError) g
     else (let w = \<lparr>wkPromise = i, wkObserved = observed, wkSignal = s\<rparr> in
       if wkVersion g > observed then settleWait i (Woken (wkVersion g)) (cleanupWaiter w g)
       else g\<lparr>wkWaiters := wkWaiters g @ [w]\<rparr>))"

definition waitNext :: "nat option \<Rightarrow> wakeGate \<Rightarrow> wakeGate" where
  "waitNext s g = waitAfter (wkVersion g) s g"

definition wakeAbort :: "nat \<Rightarrow> wakeGate \<Rightarrow> wakeGate" where
  "wakeAbort s g = g\<lparr>wkAborted := s # wkAborted g\<rparr>"

definition wakeOnAbort :: "wakeWaiter \<Rightarrow> wakeGate \<Rightarrow> wakeGate" where
  "wakeOnAbort w g = settleWait (wkPromise w) (WaitAborted abortError) (cleanupWaiter w g)"

datatype wakeEvent = Wake | WaitAfter nat "nat option" | WaitNext "nat option" | WakeAbort nat | WakeListener wakeWaiter

inductive wakeStep :: "wakeGate \<Rightarrow> wakeEvent \<Rightarrow> wakeGate \<Rightarrow> bool" where
  wake_wake: "wakeStep g Wake (snd (wake g))"
| wake_wait: "wakeStep g (WaitAfter v s) (waitAfter v s g)"
| wake_next: "wakeStep g (WaitNext s) (waitNext s g)"
| wake_abort: "wakeStep g (WakeAbort s) (wakeAbort s g)"
| wake_listener: "w \<in> set (wkWaiters g) \<Longrightarrow> wakeSignalAborted (wkSignal w) g \<Longrightarrow>
    wakeStep g (WakeListener w) (wakeOnAbort w g)"

section \<open>The invariant\<close>

definition wakeWaiting :: "wakeGate \<Rightarrow> nat set" where
  "wakeWaiting g = wkPromise ` set (wkWaiters g)"

text \<open>The calls that are pending are those that wait, and no wake came since they observed.\<close>

definition wakeInv :: "wakeGate \<Rightarrow> bool" where
  "wakeInv g \<longleftrightarrow> distinct (map wkPromise (wkWaiters g)) \<and>
     (\<forall>i. i \<in> wakeWaiting g \<longleftrightarrow> i < wkCalls g \<and> wkOutcome g i = None) \<and>
     (\<forall>i \<ge> wkCalls g. wkOutcome g i = None) \<and> (\<forall>w \<in> set (wkWaiters g). wkVersion g \<le> wkObserved w)"

lemma settleWait_simps [simp]:
  "wkOutcome (settleWait i v g) = (wkOutcome g)(i := Some v)" "wkVersion (settleWait i v g) = wkVersion g"
  "wkWaiters (settleWait i v g) = wkWaiters g" "wkCalls (settleWait i v g) = wkCalls g"
  by (simp_all add: settleWait_def)

lemma cleanupWaiter_simps [simp]:
  "wkOutcome (cleanupWaiter w g) = wkOutcome g" "wkVersion (cleanupWaiter w g) = wkVersion g"
  "wkWaiters (cleanupWaiter w g) = removeAll w (wkWaiters g)" "wkCalls (cleanupWaiter w g) = wkCalls g"
  by (simp_all add: cleanupWaiter_def)

lemma wake_loop:
  fixes v :: nat
  defines "f \<equiv> \<lambda>w g. settleWait (wkPromise w) (Woken v) (cleanupWaiter w g)"
  shows "wkOutcome (fold f ws g) i = (if i \<in> wkPromise ` set ws then Some (Woken v) else wkOutcome g i)"
    "wkWaiters (fold f ws g) = filter (\<lambda>w. w \<notin> set ws) (wkWaiters g)"
    "wkVersion (fold f ws g) = wkVersion g" "wkCalls (fold f ws g) = wkCalls g"
  unfolding f_def
  by (induction ws arbitrary: g) (auto simp: removeAll_filter_not_eq intro: filter_cong)

lemma wake_facts:
  "wkOutcome (snd (wake g)) i = (if i \<in> wakeWaiting g then Some (Woken (Suc (wkVersion g))) else wkOutcome g i)"
  "wkWaiters (snd (wake g)) = []" "wkVersion (snd (wake g)) = Suc (wkVersion g)" "wkCalls (snd (wake g)) = wkCalls g"
  by (simp_all add: wake_def Let_def wake_loop wakeWaiting_def)

lemma wakeInv_wait: "wakeInv g \<Longrightarrow> wakeInv (waitAfter v s g)"
  by (auto simp: wakeInv_def waitAfter_def wakeWaiting_def Let_def less_Suc_eq image_iff)

lemma wakeInv_wake: "wakeInv g \<Longrightarrow> wakeInv (snd (wake g))"
  by (auto simp: wakeInv_def wake_facts wakeWaiting_def [of "snd (wake g)"])

lemma removeAll_promises:
  "distinct (map wkPromise ws) \<Longrightarrow> w \<in> set ws \<Longrightarrow>
    wkPromise ` set (removeAll w ws) = wkPromise ` set ws - {wkPromise w} \<and> distinct (map wkPromise (removeAll w ws))"
  by (auto simp: distinct_map inj_on_def distinct_removeAll)

lemma wakeInv_listener:
  assumes "wakeInv g" and "w \<in> set (wkWaiters g)"
  shows "wakeInv (wakeOnAbort w g)"
proof -
  have ws: "wkPromise ` set (removeAll w (wkWaiters g)) = wakeWaiting g - {wkPromise w}"
    "distinct (map wkPromise (removeAll w (wkWaiters g)))"
    using removeAll_promises [OF _ assms(2)] assms(1) by (simp_all add: wakeInv_def wakeWaiting_def)
  have "wkPromise w < wkCalls g"
    using assms unfolding wakeInv_def wakeWaiting_def by blast
  then show ?thesis
    using assms ws by (auto simp: wakeInv_def wakeOnAbort_def wakeWaiting_def [of "settleWait _ _ _"])
qed

lemma wakeStep_inv: "wakeInv g \<Longrightarrow> wakeStep g e g' \<Longrightarrow> wakeInv g'"
  by (auto elim!: wakeStep.cases intro: wakeInv_wait wakeInv_wake wakeInv_listener
      simp: waitNext_def) (simp add: wakeAbort_def wakeInv_def wakeWaiting_def)

text \<open>What a step does to a call that was made before: \<open>v\<close> is what the call had observed.\<close>

lemma wakeStep_effect:
  assumes "wakeInv g" and "wakeStep g e g'" and "i < wkCalls g"
  shows "i < wkCalls g'" and "wkVersion g \<le> wkVersion g'"
    and "wkOutcome g i = Some x \<Longrightarrow> wkOutcome g' i = Some x"
    and "wkOutcome g i = None \<Longrightarrow> wkOutcome g' i = Some (Woken u) \<Longrightarrow> u = Suc (wkVersion g)"
    and "e = Wake \<Longrightarrow> wkOutcome g' i \<noteq> None"
proof -
  have waiting: "j \<in> wakeWaiting g \<longleftrightarrow> j < wkCalls g \<and> wkOutcome g j = None" for j
    using assms(1) unfolding wakeInv_def by blast
  have "i < wkCalls g' \<and> wkVersion g \<le> wkVersion g' \<and>
      (\<forall>x. wkOutcome g i = Some x \<longrightarrow> wkOutcome g' i = Some x) \<and>
      (\<forall>u. wkOutcome g i = None \<longrightarrow> wkOutcome g' i = Some (Woken u) \<longrightarrow> u = Suc (wkVersion g)) \<and>
      (e = Wake \<longrightarrow> wkOutcome g' i \<noteq> None)"
    using assms(2)
  proof cases
    case wake_wake
    then show ?thesis using waiting [of i] assms(3) by (simp add: wake_facts)
  next
    case (wake_listener w)
    have "wkOutcome g (wkPromise w) = None"
      using wake_listener(3) waiting [of "wkPromise w"] by (auto simp: wakeWaiting_def)
    then show ?thesis using wake_listener assms(3) by (auto simp: wakeOnAbort_def)
  qed (use assms(3) in \<open>auto simp: waitNext_def waitAfter_def wakeAbort_def Let_def\<close>)
  then show "i < wkCalls g'" and "wkVersion g \<le> wkVersion g'"
    and "wkOutcome g i = Some x \<Longrightarrow> wkOutcome g' i = Some x"
    and "wkOutcome g i = None \<Longrightarrow> wkOutcome g' i = Some (Woken u) \<Longrightarrow> u = Suc (wkVersion g)"
    and "e = Wake \<Longrightarrow> wkOutcome g' i \<noteq> None"
    by blast+
qed

lemma wakeInv_create: "wakeInv createWakeGate"
  by (simp add: wakeInv_def createWakeGate_def wakeWaiting_def)

interpretation wake: settling createWakeGate wakeStep wakeInv wkOutcome
proof
  show "wakeInv createWakeGate" by (rule wakeInv_create)
  show "wakeInv g \<Longrightarrow> wakeStep g e g' \<Longrightarrow> wakeInv g'" for g e g' by (rule wakeStep_inv)
  show "wakeInv g \<Longrightarrow> wakeStep g e g' \<Longrightarrow> wkOutcome g i = Some v \<Longrightarrow> wkOutcome g' i = Some v"
    for g e g' i v using wakeStep_effect(3) [of g e g' i v] unfolding wakeInv_def
    by (metis leI option.distinct(1))
qed

section \<open>Properties\<close>

text \<open>A call that observed \<open>v\<close>: what it may have settled with once the version was at least \<open>v\<close>.\<close>

definition answers :: "nat \<Rightarrow> nat \<Rightarrow> wakeGate \<Rightarrow> bool" where
  "answers i v g \<longleftrightarrow> i < wkCalls g \<and> v \<le> wkVersion g \<and> (\<forall>u. wkOutcome g i = Some (Woken u) \<longrightarrow> v < u)"

lemma answers_step: "wakeInv g \<Longrightarrow> wakeStep g e g' \<Longrightarrow> answers i v g \<Longrightarrow> answers i v g'"
  using wakeStep_effect [of g e g' i] unfolding answers_def
  by (metis le_imp_less_Suc option.exhaust option.inject order_trans)

lemma answers_run:
  "run wakeStep g es g' \<Longrightarrow> wakeInv g \<Longrightarrow> answers i v g \<Longrightarrow>
    answers i v g' \<and> wakeInv g' \<and> (Wake \<in> set es \<longrightarrow> wkOutcome g' i \<noteq> None)"
proof (induction rule: run.induct)
  case (run_more g es g1 e g2)
  then have IH: "answers i v g1" "wakeInv g1" "Wake \<in> set es \<longrightarrow> wkOutcome g1 i \<noteq> None" by auto
  then have "i < wkCalls g1" by (simp add: answers_def)
  then show ?case
    using IH run_more.hyps(2) answers_step [of g1 e g2 i v] wakeStep_inv [of g1 e g2]
      wakeStep_effect(3,5) [of g1 e g2 i] by auto
qed simp

lemma waitAfter_answers:
  "wakeInv g \<Longrightarrow> v \<le> wkVersion g \<Longrightarrow> answers (wkCalls g) v (waitAfter v s g)"
  by (auto simp: answers_def waitAfter_def wakeInv_def Let_def)

text \<open>
  No wake is missed. A call of \<^verbatim>\<open>waitAfter\<close> with a version that the gate has reached is
  settled by the first wake after it, if it was not before; and if it resolves, then with a
  version greater than the one it observed.
\<close>

theorem no_missed_wake:
  assumes "reachable wakeStep createWakeGate g" and "v \<le> wkVersion g"
    and "run wakeStep (waitAfter v s g) es g'" and "Wake \<in> set es"
  shows "\<exists>x. wkOutcome g' (wkCalls g) = Some x \<and> (\<forall>u. x = Woken u \<longrightarrow> v < u)"
proof -
  have inv: "wakeInv g" using wake.reachable_inv [OF assms(1)] .
  show ?thesis
    using answers_run [OF assms(3) wakeInv_wait [OF inv] waitAfter_answers [OF inv assms(2)]] assms(4)
    unfolding answers_def by blast
qed

theorem no_missed_wake_witness:
  "wkOutcome (snd (wake (waitAfter 0 None createWakeGate))) 0 \<noteq> None"
  using no_missed_wake [OF reachable_start, of 0 None "[Wake]"] run_one [of wakeStep, OF wake_wake]
  by (fastforce simp: createWakeGate_def)

text \<open>
  A wait for a version the gate has not reached is resolved by the next wake, whatever that
  version is: the result may be smaller than the version that was asked for.
\<close>

lemma early_wake: "wkOutcome (snd (wake (waitAfter 10 None createWakeGate))) 0 = Some (Woken 1)"
  by (simp add: wake_facts waitAfter_def createWakeGate_def wakeSignalAborted_def wakeWaiting_def)

end
