(* ===== verification/Retry.thy ===== *)
theory Retry
  imports Errors Complex_Main "HOL-Library.Extended_Nat"
begin

text \<open>
  Repeated attempts: the jittered backoff of \<^verbatim>\<open>src/client/internal/backoff.ts\<close>, \<^verbatim>\<open>executeWithRetry\<close> of
  \<^verbatim>\<open>src/client/connection.ts\<close> and the reconnect loop of \<^verbatim>\<open>src/client/internal/reconnect.ts\<close>. Delays are
  finite JavaScript numbers, that is rationals, computed exactly; the random numbers, the results
  of the attempts and the moments at which a signal aborts are arguments. A loop that may go on
  for ever is a partial function, so that returning has to be proved.
\<close>

section \<open>Backoff\<close>

definition jitteredBackoffMs :: "rat \<Rightarrow> rat \<Rightarrow> rat \<Rightarrow> rat" where
  "jitteredBackoffMs random baseDelay maxBackoff =
    (let normalizedBase = max baseDelay 0;
         normalizedMax = max maxBackoff 0;
         cappedBase = min normalizedBase normalizedMax
     in if cappedBase \<le> 0 then 0
        else (let jitter = of_int \<lfloor>random * cappedBase * (1 / 2)\<rfloor>
              in min (max (cappedBase + jitter) 1) normalizedMax))"

lemma jitteredBackoff_bounds:
  "0 \<le> jitteredBackoffMs r b m" "jitteredBackoffMs r b m \<le> max m 0"
  unfolding jitteredBackoffMs_def Let_def by (simp_all add: min_def max_def)

section \<open>Retrying an operation\<close>

text \<open>
  The world of one call: what the \<open>n\<close>th attempt returns, the random number of its backoff, and
  whether the operation's signal aborts the sleep after it.
\<close>

record 'a attempts =
  attemptResult :: "nat \<Rightarrow> 'a result"
  attemptRandom :: "nat \<Rightarrow> rat"
  sleepAborted :: "nat \<Rightarrow> bool"

record retryOptions =
  retryEnabled :: bool
  retryMaxAttempts :: enat
  retryBackoffMs :: rat
  retryMaxBackoffMs :: rat

record retryTrace =
  retryCalls :: nat
  retryDelays :: "rat list"

partial_function (option) retryLoop ::
  "retryOptions \<Rightarrow> retryClass \<Rightarrow> 'a attempts \<Rightarrow> nat \<Rightarrow> rat \<Rightarrow> rat list \<Rightarrow> ('a result \<times> retryTrace) option" where
  "retryLoop opts c w attempt delayMs delays =
    (let attempt = attempt + 1; finish = (\<lambda>r ds. Some (r, \<lparr>retryCalls = attempt, retryDelays = ds\<rparr>)) in
     case attemptResult w attempt of
       Inr v \<Rightarrow> finish (Inr v) delays
     | Inl e \<Rightarrow>
         if isAbortError e then finish (Inl e) delays
         else if \<not> shouldRetryOperation c e then finish (Inl e) delays
         else if enat attempt \<ge> retryMaxAttempts opts then finish (Inl e) delays
         else (let actualDelayMs = jitteredBackoffMs (attemptRandom w attempt) delayMs (retryMaxBackoffMs opts);
                   ds = delays @ [actualDelayMs]
               in if sleepAborted w attempt then finish (Inl abortError) ds
                  else retryLoop opts c w attempt (min (delayMs * 2) (retryMaxBackoffMs opts)) ds))"

declare retryLoop.simps [code]

definition executeWithRetry ::
  "retryOptions \<Rightarrow> retryClass \<Rightarrow> 'a attempts \<Rightarrow> ('a result \<times> retryTrace) option" where
  "executeWithRetry opts c w =
    (if \<not> retryEnabled opts \<or> c = WaitOnly
     then Some (attemptResult w 1, \<lparr>retryCalls = 1, retryDelays = []\<rparr>)
     else retryLoop opts c w 0 (retryBackoffMs opts) [])"

text \<open>An attempt after which the loop goes on: a retryable failure that is not a cancellation.\<close>

definition retried :: "retryClass \<Rightarrow> 'a attempts \<Rightarrow> nat \<Rightarrow> bool" where
  "retried c w n \<longleftrightarrow> (case attemptResult w n of Inr v \<Rightarrow> False
     | Inl e \<Rightarrow> \<not> isAbortError e \<and> shouldRetryOperation c e) \<and> \<not> sleepAborted w n"

text \<open>What the attempt \<open>k\<close> makes of the call when it is the last one.\<close>

definition lastResult :: "retryOptions \<Rightarrow> retryClass \<Rightarrow> 'a attempts \<Rightarrow> nat \<Rightarrow> 'a result" where
  "lastResult opts c w k =
    (case attemptResult w k of Inr v \<Rightarrow> Inr v
     | Inl e \<Rightarrow> if \<not> isAbortError e \<and> shouldRetryOperation c e \<and> enat k < retryMaxAttempts opts
                then Inl abortError else Inl e)"

lemma retryLoop_stops:
  assumes "\<not> retried c w (Suc n) \<or> enat (Suc n) \<ge> retryMaxAttempts opts"
  shows "\<exists>ds. retryLoop opts c w n d ds0 =
    Some (lastResult opts c w (Suc n), \<lparr>retryCalls = Suc n, retryDelays = ds\<rparr>) \<and>
    (\<forall>x \<in> set ds. x \<in> set ds0 \<or> 0 \<le> x \<and> x \<le> max (retryMaxBackoffMs opts) 0)"
proof (cases "attemptResult w (Suc n)")
  case (Inl e)
  then show ?thesis
    using assms jitteredBackoff_bounds
    by (subst retryLoop.simps) (auto simp: Let_def retried_def lastResult_def not_le)
next
  case (Inr v)
  then show ?thesis by (subst retryLoop.simps) (simp add: Let_def lastResult_def)
qed

lemma retryLoop_continues:
  assumes "retried c w (Suc n)" and "enat (Suc n) < retryMaxAttempts opts"
  shows "retryLoop opts c w n d ds0 = retryLoop opts c w (Suc n) (min (d * 2) (retryMaxBackoffMs opts))
    (ds0 @ [jitteredBackoffMs (attemptRandom w (Suc n)) d (retryMaxBackoffMs opts)])"
  using assms by (subst retryLoop.simps) (auto simp: Let_def retried_def not_le split: sum.splits)

text \<open>The loop ends at the first attempt that is not retried, or at the last one allowed.\<close>

definition stopsAt :: "retryOptions \<Rightarrow> retryClass \<Rightarrow> 'a attempts \<Rightarrow> nat \<Rightarrow> bool" where
  "stopsAt opts c w k \<longleftrightarrow> \<not> retried c w k \<or> enat k \<ge> retryMaxAttempts opts"

lemma retryLoop_returns:
  assumes "stopsAt opts c w (n + m + 1)" and "\<forall>j. n < j \<longrightarrow> j \<le> n + m \<longrightarrow> \<not> stopsAt opts c w j"
  shows "\<exists>ds. retryLoop opts c w n d ds0 =
    Some (lastResult opts c w (n + m + 1), \<lparr>retryCalls = n + m + 1, retryDelays = ds\<rparr>) \<and>
    (\<forall>x \<in> set ds. x \<in> set ds0 \<or> 0 \<le> x \<and> x \<le> max (retryMaxBackoffMs opts) 0)"
  using assms
proof (induction m arbitrary: n d ds0)
  case 0
  then show ?case using retryLoop_stops [of c w n opts d ds0] by (simp add: stopsAt_def)
next
  case (Suc m)
  then have "\<not> stopsAt opts c w (Suc n)" by simp
  then have eq: "retryLoop opts c w n d ds0 = retryLoop opts c w (Suc n) (min (d * 2) (retryMaxBackoffMs opts))
      (ds0 @ [jitteredBackoffMs (attemptRandom w (Suc n)) d (retryMaxBackoffMs opts)])"
    by (intro retryLoop_continues) (auto simp: stopsAt_def)
  have step: "stopsAt opts c w (Suc n + m + 1)" "\<forall>j. Suc n < j \<longrightarrow> j \<le> Suc n + m \<longrightarrow> \<not> stopsAt opts c w j"
    using Suc.prems by auto
  show ?case
    using Suc.IH [OF step, of "min (d * 2) (retryMaxBackoffMs opts)"
        "ds0 @ [jitteredBackoffMs (attemptRandom w (Suc n)) d (retryMaxBackoffMs opts)]"]
      jitteredBackoff_bounds eq by fastforce
qed

lemma first_stop:
  assumes "retryMaxAttempts opts = enat N"
  obtains m where "stopsAt opts c w (0 + m + 1)" and "\<forall>j. 0 < j \<longrightarrow> j \<le> 0 + m \<longrightarrow> \<not> stopsAt opts c w j"
    and "m + 1 \<le> max 1 N"
proof -
  have ex: "stopsAt opts c w ((max 1 N - 1) + 1)"
    using assms by (simp add: stopsAt_def)
  define m where "m = (LEAST m. stopsAt opts c w (m + 1))"
  have "stopsAt opts c w (m + 1)" "m \<le> max 1 N - 1"
    unfolding m_def by (rule LeastI, rule ex) (rule Least_le, rule ex)
  moreover have "\<not> stopsAt opts c w j" if "0 < j" "j \<le> m" for j
    using that not_less_Least [of "j - 1" "\<lambda>m. stopsAt opts c w (m + 1)"] by (simp add: m_def)
  ultimately show ?thesis using that [of m] by simp
qed

section \<open>Properties of the retry loop\<close>

text \<open>
  A retried operation returns. With a finite limit \<open>N\<close> the task runs at least once and at
  most \<open>N\<close> times (once if the limit is zero); every attempt before the last one failed with an
  error the retry class allows to repeat, the call returns the outcome of the last attempt unless
  the sleep after it was aborted, it gives up on a retryable error only at the limit, and every
  delay lies between zero and the maximal backoff.
\<close>

theorem retries_are_bounded:
  assumes "retryEnabled opts" and "c \<noteq> WaitOnly" and "retryMaxAttempts opts = enat N"
  shows "\<exists>k ds. executeWithRetry opts c w =
      Some (lastResult opts c w k, \<lparr>retryCalls = k, retryDelays = ds\<rparr>) \<and>
    1 \<le> k \<and> k \<le> max 1 N \<and> (\<forall>j. 1 \<le> j \<longrightarrow> j < k \<longrightarrow> retried c w j) \<and>
    (retried c w k \<longrightarrow> N \<le> k) \<and> (\<forall>x \<in> set ds. 0 \<le> x \<and> x \<le> max (retryMaxBackoffMs opts) 0)"
proof -
  obtain m where m: "stopsAt opts c w (0 + m + 1)" "\<forall>j. 0 < j \<longrightarrow> j \<le> 0 + m \<longrightarrow> \<not> stopsAt opts c w j"
    "m + 1 \<le> max 1 N"
    using first_stop [OF assms(3), of c w] .
  have "\<exists>ds. executeWithRetry opts c w =
      Some (lastResult opts c w (m + 1), \<lparr>retryCalls = m + 1, retryDelays = ds\<rparr>) \<and>
      (\<forall>x \<in> set ds. 0 \<le> x \<and> x \<le> max (retryMaxBackoffMs opts) 0)"
    using retryLoop_returns [OF m(1,2), of "retryBackoffMs opts" "[]"] assms(1,2)
    by (simp add: executeWithRetry_def)
  moreover have "\<forall>j. 1 \<le> j \<longrightarrow> j < m + 1 \<longrightarrow> retried c w j"
    using m(2) by (auto simp: stopsAt_def)
  moreover have "retried c w (m + 1) \<longrightarrow> N \<le> m + 1"
    using m(1) assms(3) by (simp add: stopsAt_def)
  ultimately show ?thesis using m(3) by (intro exI [of _ "m + 1"]) auto
qed

definition flakyRead :: "nat attempts" where
  "flakyRead = \<lparr>attemptResult = (\<lambda>n. if n < 3 then Inl TimeoutError else Inr 7),
     attemptRandom = (\<lambda>_. 1 / 2), sleepAborted = (\<lambda>_. False)\<rparr>"

definition threeTries :: retryOptions where
  "threeTries = \<lparr>retryEnabled = True, retryMaxAttempts = 3, retryBackoffMs = 100, retryMaxBackoffMs = 1000\<rparr>"

theorem retries_are_bounded_witness:
  "\<exists>t. executeWithRetry threeTries ReplayableRead flakyRead = Some (Inr 7, t) \<and> retryCalls t = 3"
proof -
  obtain k ds where k: "executeWithRetry threeTries ReplayableRead flakyRead =
      Some (lastResult threeTries ReplayableRead flakyRead k, \<lparr>retryCalls = k, retryDelays = ds\<rparr>)"
    "1 \<le> k" "k \<le> 3" "retried ReplayableRead flakyRead k \<longrightarrow> 3 \<le> k"
    using retries_are_bounded [of threeTries ReplayableRead 3 flakyRead]
    by (auto simp: threeTries_def numeral_eq_enat)
  have "retried ReplayableRead flakyRead j" if "j < 3" for j
    using that by (simp add: retried_def flakyRead_def isTransientRetryError_def isAbortError_def error_defs)
  then have "k = 3" using k(3,4) by (meson le_antisym not_le)
  then show ?thesis using k(1) by (auto simp: lastResult_def flakyRead_def)
qed

end
