(* ===== verification/Reconnect.thy ===== *)
theory Reconnect
  imports Retry
begin

text \<open>
  The reconnect scheduler of \<^verbatim>\<open>src/client/internal/reconnect.ts\<close>. Opening and authenticating is the
  connection's, so the result of each attempt is an argument, as are the random numbers, whether
  the close signal aborts a sleep, and what \<^verbatim>\<open>isCloseRequested\<close> answers at each of the points where
  the loop asks. The effects of a run, that is the callbacks it makes, are returned in order.
\<close>

section \<open>The loop\<close>

datatype closeCheck = AtLoop | AfterSleep | AfterFailure

record reconnectWorld =
  openResult :: "nat \<Rightarrow> unit result"
  reconnectRandom :: "nat \<Rightarrow> rat"
  closeAborts :: "nat \<Rightarrow> bool"
  isCloseRequested :: "nat \<Rightarrow> closeCheck \<Rightarrow> bool"

record reconnectOptions =
  rcMaxAttempts :: enat
  rcBackoffMs :: rat
  rcMaxBackoffMs :: rat

datatype reconnectEffect =
    SetState connectionState
  | Lifecycle string "jserror option" nat
  | OpenAndAuthenticate nat
  | LogRetry nat rat rat jserror

datatype reconnectLoopResult = LoopConnected | LoopClosed | LoopExhausted

definition reconnectBackoff :: "reconnectOptions \<Rightarrow> reconnectWorld \<Rightarrow> nat \<Rightarrow> rat \<Rightarrow> rat" where
  "reconnectBackoff opts w n delayMs = jitteredBackoffMs (reconnectRandom w n) delayMs (rcMaxBackoffMs opts)"

text \<open>The body of the \<^verbatim>\<open>try\<close>: \<open>None\<close> is the early return \<^verbatim>\<open>"closed"\<close>.\<close>

definition reconnectAttempt :: "reconnectWorld \<Rightarrow> nat \<Rightarrow> (unit result) option \<times> reconnectEffect list" where
  "reconnectAttempt w n =
    (if closeAborts w n then (Some (Inl abortError), [])
     else if isCloseRequested w n AfterSleep then (None, [])
     else (Some (openResult w n), [OpenAndAuthenticate n]))"

partial_function (option) runLoop ::
  "reconnectOptions \<Rightarrow> reconnectWorld \<Rightarrow> nat \<Rightarrow> rat \<Rightarrow> reconnectEffect list \<Rightarrow>
   (reconnectLoopResult \<times> reconnectEffect list) option" where
  "runLoop opts w attempts delayMs fx =
    (if \<not> isCloseRequested w attempts AtLoop \<and> enat attempts < rcMaxAttempts opts then
       (let n = attempts + 1; actualDelayMs = reconnectBackoff opts w n delayMs;
            (r, opened) = reconnectAttempt w n;
            fx = fx @ [SetState Reconnecting, Lifecycle ''reconnect_scheduled'' None n] @ opened
        in case r of
             None \<Rightarrow> Some (LoopClosed, fx)
           | Some (Inr _) \<Rightarrow> Some (LoopConnected, fx)
           | Some (Inl e) \<Rightarrow>
               if isCloseRequested w n AfterFailure then Some (LoopClosed, fx)
               else if isAbortError e then Some (LoopClosed, fx)
               else if ekind e = AuthenticationErrorK then Some (LoopClosed, fx @ [SetState Closed])
               else if ekind e = ProtocolErrorK \<and> eDomain e = Some 50 then
                 Some (LoopExhausted, fx @ [SetState Disconnected, Lifecycle ''reconnect_exhausted'' (Some e) n])
               else runLoop opts w n (min (delayMs * 2) (rcMaxBackoffMs opts))
                      (fx @ [LogRetry n actualDelayMs delayMs e]))
     else if isCloseRequested w attempts AtLoop then Some (LoopClosed, fx @ [SetState Closed])
     else Some (LoopExhausted, fx @ [SetState Disconnected, Lifecycle ''reconnect_exhausted'' None attempts]))"

declare runLoop.simps [code]

definition reconnectLoop :: "reconnectOptions \<Rightarrow> reconnectWorld \<Rightarrow> (reconnectLoopResult \<times> reconnectEffect list) option" where
  "reconnectLoop opts w = runLoop opts w 0 (rcBackoffMs opts) []"

text \<open>\<^verbatim>\<open>restoreState\<close> calls every listener and reports the errors.\<close>

fun restoreState :: "(unit result) list \<Rightarrow> jserror list" where
  "restoreState [] = []"
| "restoreState (r # rs) = (case r of Inl e \<Rightarrow> e # restoreState rs | Inr _ \<Rightarrow> restoreState rs)"

section \<open>When the loop goes on\<close>

text \<open>An attempt after which the loop tries again: it opened and failed with a transient error.\<close>

definition transientFailure :: "jserror \<Rightarrow> bool" where
  "transientFailure e \<longleftrightarrow> \<not> isAbortError e \<and> ekind e \<noteq> AuthenticationErrorK \<and>
     \<not> (ekind e = ProtocolErrorK \<and> eDomain e = Some 50)"

definition attemptFails :: "reconnectWorld \<Rightarrow> nat \<Rightarrow> bool" where
  "attemptFails w n \<longleftrightarrow> \<not> isCloseRequested w (n - 1) AtLoop \<and> \<not> closeAborts w n \<and>
     \<not> isCloseRequested w n AfterSleep \<and> \<not> isCloseRequested w n AfterFailure \<and>
     (case openResult w n of Inr _ \<Rightarrow> False | Inl e \<Rightarrow> transientFailure e)"

definition attemptEffects :: "reconnectOptions \<Rightarrow> reconnectWorld \<Rightarrow> nat \<Rightarrow> rat \<Rightarrow> reconnectEffect list" where
  "attemptEffects opts w n d =
     [SetState Reconnecting, Lifecycle ''reconnect_scheduled'' None n, OpenAndAuthenticate n,
      LogRetry n (reconnectBackoff opts w n d) d (case openResult w n of Inl e \<Rightarrow> e | Inr _ \<Rightarrow> PlainError)]"

lemma runLoop_continues:
  assumes "attemptFails w (Suc n)" and "enat n < rcMaxAttempts opts"
  shows "runLoop opts w n d fx = runLoop opts w (Suc n) (min (d * 2) (rcMaxBackoffMs opts))
    (fx @ attemptEffects opts w (Suc n) d)"
proof -
  obtain e where e: "openResult w (Suc n) = Inl e" "transientFailure e"
    using assms(1) by (auto simp: attemptFails_def split: sum.splits)
  then show ?thesis
    using assms by (subst runLoop.simps) (auto simp: Let_def attemptFails_def reconnectAttempt_def
      transientFailure_def attemptEffects_def)
qed

text \<open>How the loop ends when the attempt after \<open>n\<close> is not one that fails transiently.\<close>

definition loopEnd :: "reconnectOptions \<Rightarrow> reconnectWorld \<Rightarrow> nat \<Rightarrow> reconnectLoopResult" where
  "loopEnd opts w n =
    (if isCloseRequested w n AtLoop then LoopClosed
     else if enat n \<ge> rcMaxAttempts opts then LoopExhausted
     else if closeAborts w (Suc n) \<or> isCloseRequested w (Suc n) AfterSleep then LoopClosed
     else (case openResult w (Suc n) of
             Inr _ \<Rightarrow> LoopConnected
           | Inl e \<Rightarrow> if \<not> isCloseRequested w (Suc n) AfterFailure \<and> \<not> isAbortError e \<and>
                          ekind e \<noteq> AuthenticationErrorK
                      then LoopExhausted else LoopClosed))"

text \<open>The attempt numbers that were opened, in the effects of a run.\<close>

definition opened :: "reconnectEffect list \<Rightarrow> nat list" where
  "opened fx = List.map_filter (\<lambda>x. case x of OpenAndAuthenticate n \<Rightarrow> Some n | _ \<Rightarrow> None) fx"

definition baseDelays :: "reconnectEffect list \<Rightarrow> rat list" where
  "baseDelays fx = List.map_filter (\<lambda>x. case x of LogRetry _ _ d _ \<Rightarrow> Some d | _ \<Rightarrow> None) fx"

lemma effects_append [simp]:
  "opened (xs @ ys) = opened xs @ opened ys" "baseDelays (xs @ ys) = baseDelays xs @ baseDelays ys"
  "opened [] = []" "baseDelays [] = []"
  by (simp_all add: opened_def baseDelays_def List.map_filter_def)

lemma effects_Cons [simp]:
  "opened (SetState s # xs) = opened xs" "opened (Lifecycle a b c # xs) = opened xs"
  "opened (OpenAndAuthenticate n # xs) = n # opened xs" "opened (LogRetry n d d' e # xs) = opened xs"
  "baseDelays (SetState s # xs) = baseDelays xs" "baseDelays (Lifecycle a b c # xs) = baseDelays xs"
  "baseDelays (OpenAndAuthenticate n # xs) = baseDelays xs" "baseDelays (LogRetry n d d' e # xs) = d' # baseDelays xs"
  by (simp_all add: opened_def baseDelays_def List.map_filter_def)

lemma runLoop_stops:
  assumes "\<not> attemptFails w (Suc n) \<or> enat n \<ge> rcMaxAttempts opts"
  shows "\<exists>fx'. runLoop opts w n d fx = Some (loopEnd opts w n, fx @ fx') \<and> baseDelays fx' = [] \<and>
    opened fx' = (if \<not> isCloseRequested w n AtLoop \<and> enat n < rcMaxAttempts opts \<and>
      \<not> closeAborts w (Suc n) \<and> \<not> isCloseRequested w (Suc n) AfterSleep then [Suc n] else [])"
  using assms
  by (subst runLoop.simps)
    (auto simp: Let_def loopEnd_def attemptFails_def reconnectAttempt_def transientFailure_def not_le not_less
      isAbortError_def error_defs split: sum.splits)

section \<open>Termination and what the loop promises\<close>

primrec delayAfter :: "reconnectOptions \<Rightarrow> nat \<Rightarrow> rat" where
  "delayAfter opts 0 = rcBackoffMs opts"
| "delayAfter opts (Suc n) = min (delayAfter opts n * 2) (rcMaxBackoffMs opts)"

lemma delayAfter_closed:
  assumes "0 \<le> rcMaxBackoffMs opts" and "0 \<le> rcBackoffMs opts"
  shows "delayAfter opts (Suc n) = min (rcBackoffMs opts * 2 ^ Suc n) (rcMaxBackoffMs opts)"
proof (induction n)
  case (Suc n)
  have "delayAfter opts (Suc (Suc n)) = min (min (rcBackoffMs opts * 2 ^ Suc n) (rcMaxBackoffMs opts) * 2) (rcMaxBackoffMs opts)"
    by (simp only: delayAfter.simps(2) [of _ "Suc n"] Suc)
  then show ?case using assms by (auto simp: min_def)
qed simp

text \<open>After \<open>m\<close> failing attempts from \<open>n\<close> on.\<close>

lemma runLoop_after:
  assumes "\<forall>j. n < j \<longrightarrow> j \<le> n + m \<longrightarrow> attemptFails w j" and "\<forall>j. n \<le> j \<longrightarrow> j < n + m \<longrightarrow> enat j < rcMaxAttempts opts"
  shows "\<exists>fx'. runLoop opts w n (delayAfter opts n) fx = runLoop opts w (n + m) (delayAfter opts (n + m)) (fx @ fx') \<and>
    opened fx' = [Suc n..<Suc (n + m)] \<and> baseDelays fx' = map (delayAfter opts) [n..<n + m]"
  using assms
proof (induction m arbitrary: n fx)
  case 0
  then show ?case by (intro exI [of _ "[]"]) simp
next
  case (Suc m)
  have step: "\<forall>j. Suc n < j \<longrightarrow> j \<le> Suc n + m \<longrightarrow> attemptFails w j"
    "\<forall>j. Suc n \<le> j \<longrightarrow> j < Suc n + m \<longrightarrow> enat j < rcMaxAttempts opts"
    using Suc.prems by auto
  obtain fx' where fx': "runLoop opts w (Suc n) (delayAfter opts (Suc n)) (fx @ attemptEffects opts w (Suc n) (delayAfter opts n)) =
      runLoop opts w (Suc n + m) (delayAfter opts (Suc n + m)) (fx @ attemptEffects opts w (Suc n) (delayAfter opts n) @ fx')"
    "opened fx' = [Suc (Suc n)..<Suc (Suc n + m)]" "baseDelays fx' = map (delayAfter opts) [Suc n..<Suc n + m]"
    using Suc.IH [OF step, of "fx @ attemptEffects opts w (Suc n) (delayAfter opts n)"] by auto
  have "runLoop opts w n (delayAfter opts n) fx =
      runLoop opts w (Suc n) (delayAfter opts (Suc n)) (fx @ attemptEffects opts w (Suc n) (delayAfter opts n))"
    using runLoop_continues [of w n opts "delayAfter opts n" fx] Suc.prems by simp
  moreover have "opened (attemptEffects opts w (Suc n) (delayAfter opts n) @ fx') = [Suc n..<Suc (n + Suc m)]"
    "baseDelays (attemptEffects opts w (Suc n) (delayAfter opts n) @ fx') = map (delayAfter opts) [n..<n + Suc m]"
    using fx'(2,3) by (simp_all add: attemptEffects_def upt_rec)
  ultimately show ?case
    using fx'(1) by (intro exI [of _ "attemptEffects opts w (Suc n) (delayAfter opts n) @ fx'"]) simp
qed

text \<open>
  The reconnect loop backs off and returns. If the attempts after the \<open>k\<close>th one are the first
  not to fail transiently, or the limit is \<open>k\<close>, then the loop returns; attempts \<open>1\<close> to \<open>k\<close> were
  opened in order, and the next one unless the loop was closed before; the base delays are the
  configured one, doubled each time up to the maximum; and the result says how the loop ended.
\<close>

theorem reconnect_backs_off:
  assumes "\<forall>j. 1 \<le> j \<longrightarrow> j \<le> k \<longrightarrow> attemptFails w j" and "enat k \<le> rcMaxAttempts opts"
    and "\<not> attemptFails w (Suc k) \<or> enat k = rcMaxAttempts opts"
  shows "\<exists>fx. reconnectLoop opts w = Some (loopEnd opts w k, fx) \<and>
    (opened fx = [1..<Suc k] \<or> opened fx = [1..<Suc (Suc k)]) \<and>
    baseDelays fx = map (delayAfter opts) [0..<k]"
proof -
  have lt: "\<forall>j. 0 \<le> j \<longrightarrow> j < 0 + k \<longrightarrow> enat j < rcMaxAttempts opts"
    using assms(2) by (metis add_0 enat_ord_simps(2) order_less_le_trans)
  obtain fx1 where fx1: "runLoop opts w 0 (delayAfter opts 0) [] = runLoop opts w k (delayAfter opts k) fx1"
    "opened fx1 = [1..<Suc k]" "baseDelays fx1 = map (delayAfter opts) [0..<k]"
    using runLoop_after [of 0 k w opts "[]"] assms(1) lt by auto
  obtain fx2 where "runLoop opts w k (delayAfter opts k) fx1 = Some (loopEnd opts w k, fx1 @ fx2)"
    "baseDelays fx2 = []" "opened fx2 = [] \<or> opened fx2 = [Suc k]"
    using runLoop_stops [of w k opts "delayAfter opts k" fx1] assms(3) by (auto split: if_splits)
  then show ?thesis
    using fx1 by (intro exI [of _ "fx1 @ fx2"]) (auto simp: reconnectLoop_def)
qed

definition flakyBroker :: reconnectWorld where
  "flakyBroker = \<lparr>openResult = (\<lambda>n. if n \<le> 2 then Inl TransportError else Inr ()),
     reconnectRandom = (\<lambda>_. 0), closeAborts = (\<lambda>_. False), isCloseRequested = (\<lambda>_ _. False)\<rparr>"

theorem reconnect_backs_off_witness:
  "\<exists>fx. reconnectLoop \<lparr>rcMaxAttempts = \<infinity>, rcBackoffMs = 250, rcMaxBackoffMs = 400\<rparr> flakyBroker = Some (LoopConnected, fx) \<and>
    baseDelays fx = [250, 400]"
proof -
  let ?o = "\<lparr>rcMaxAttempts = \<infinity>, rcBackoffMs = 250, rcMaxBackoffMs = 400\<rparr>"
  have "\<exists>fx. reconnectLoop ?o flakyBroker = Some (loopEnd ?o flakyBroker 2, fx) \<and>
      (opened fx = [1..<Suc 2] \<or> opened fx = [1..<Suc (Suc 2)]) \<and> baseDelays fx = map (delayAfter ?o) [0..<2]"
    by (rule reconnect_backs_off)
      (auto simp: attemptFails_def flakyBroker_def transientFailure_def isAbortError_def error_defs)
  moreover have "loopEnd ?o flakyBroker 2 = LoopConnected"
    by (simp add: loopEnd_def flakyBroker_def)
  moreover have "map (delayAfter ?o) [0..<2] = [250, 400]"
    by (simp add: upt_rec numeral_2_eq_2)
  ultimately show ?thesis by auto
qed

end
