(* ===== verification/TaskGroup.thy ===== *)
theory TaskGroup
  imports Errors Machines
begin

text \<open>
  The task group of \<^verbatim>\<open>src/core/task-group.ts\<close>: a fixed number of workers, an error policy and a
  completion promise. A worker is its index; the callback \<^verbatim>\<open>run\<close> does not call the group's own
  operations before it first suspends, so that a start is one step. The end of a worker and the
  \<^verbatim>\<open>finally\<close> that takes it off the set are two. Promises are deferreds in the order of their
  creation; a thrown value is an error object.
\<close>

section \<open>State and operations\<close>

datatype deferred = Pending | Resolved | Rejected jserror

datatype taskGroupStatus = Idle | Running | Stopping | Stopped | Failed

datatype taskGroupErrorPolicy = StopGroup | RestartTask | IgnoreError

record taskGroup =
  tgConcurrency :: nat
  tgPolicy :: taskGroupErrorPolicy
  tgStatus :: taskGroupStatus
  tgController :: "bool option"
  tgDeferreds :: "deferred list"
  tgCompletion :: "nat option"
  tgError :: "jserror option"
  tgTasks :: "nat list"
  tgRunning :: "nat list"

definition createTaskGroup :: "nat \<Rightarrow> taskGroupErrorPolicy \<Rightarrow> taskGroup result" where
  "createTaskGroup n p =
    (if n < 1 then Inl PlainError
     else Inr \<lparr>tgConcurrency = n, tgPolicy = p, tgStatus = Idle, tgController = None,
       tgDeferreds = [], tgCompletion = None, tgError = None, tgTasks = [], tgRunning = []\<rparr>)"

text \<open>Settling a deferred that was settled before does nothing.\<close>

definition settleDeferred :: "deferred \<Rightarrow> nat \<Rightarrow> taskGroup \<Rightarrow> taskGroup" where
  "settleDeferred v i g = (if tgDeferreds g ! i = Pending then g\<lparr>tgDeferreds := (tgDeferreds g)[i := v]\<rparr> else g)"

definition freshCompletion :: "taskGroup \<Rightarrow> taskGroup" where
  "freshCompletion g = g\<lparr>tgDeferreds := tgDeferreds g @ [Pending], tgCompletion := Some (length (tgDeferreds g))\<rparr>"

definition ensureCompletion :: "taskGroup \<Rightarrow> nat \<times> taskGroup" where
  "ensureCompletion g = (case tgCompletion g of Some c \<Rightarrow> (c, g)
     | None \<Rightarrow> (length (tgDeferreds g), freshCompletion g))"

definition complete :: "jserror option \<Rightarrow> taskGroup \<Rightarrow> taskGroup" where
  "complete err g =
    (let (c, g) = ensureCompletion g in
     case err of
       Some e \<Rightarrow> settleDeferred (Rejected e) c (g\<lparr>tgStatus := Failed, tgError := Some e\<rparr>)
     | None \<Rightarrow> settleDeferred Resolved c (g\<lparr>tgStatus := Stopped\<rparr>))"

definition maybeFinish :: "taskGroup \<Rightarrow> taskGroup" where
  "maybeFinish g =
    (if tgTasks g \<noteq> [] then g
     else (case tgError g of
         Some e \<Rightarrow> complete (Some e) g
       | None \<Rightarrow> if tgStatus g = Running \<or> tgStatus g = Stopping then complete None g else g))"

definition abortController :: "taskGroup \<Rightarrow> taskGroup" where
  "abortController g = g\<lparr>tgController := map_option (\<lambda>_. True) (tgController g)\<rparr>"

definition shouldRestart :: "jserror \<Rightarrow> taskGroup \<Rightarrow> bool" where
  "shouldRestart e g = (if tgPolicy g \<noteq> RestartTask then False
     else if tgStatus g \<noteq> Running \<or> tgController g = Some True then False
     else if isAbortError e then False else True)"

definition handleWorkerError :: "jserror \<Rightarrow> taskGroup \<Rightarrow> taskGroup" where
  "handleWorkerError e g =
    (if isAbortError e then g
     else if tgStatus g = Stopping then g
     else if tgPolicy g = StopGroup then abortController (g\<lparr>tgError := Some e, tgStatus := Stopping\<rparr>)
     else g)"

text \<open>
  One iteration of the loop in \<^verbatim>\<open>runWorker\<close> after \<^verbatim>\<open>run\<close> has settled: the flag says whether the
  worker goes round again.
\<close>

definition workerIteration :: "unit result \<Rightarrow> taskGroup \<Rightarrow> bool \<times> taskGroup" where
  "workerIteration v g = (case v of
      Inr _ \<Rightarrow> (False, g)
    | Inl e \<Rightarrow>
        if isAbortError e \<or> tgStatus g = Stopping then (False, g)
        else (case tgPolicy g of
            StopGroup \<Rightarrow> (False, handleWorkerError e g)
          | RestartTask \<Rightarrow> (shouldRestart e g, g)
          | IgnoreError \<Rightarrow> (False, g)))"

text \<open>A worker that goes round again reads the controller, and returns if there is none.\<close>

definition runSettled :: "nat \<Rightarrow> unit result \<Rightarrow> taskGroup \<Rightarrow> taskGroup" where
  "runSettled i v g =
    (let (again, g) = workerIteration v g
     in if again \<and> tgController g \<noteq> None then g
        else g\<lparr>tgRunning := remove1 i (tgRunning g)\<rparr>)"

text \<open>The \<^verbatim>\<open>finally\<close> that \<^verbatim>\<open>track\<close> attaches.\<close>

definition untrack :: "nat \<Rightarrow> taskGroup \<Rightarrow> taskGroup" where
  "untrack i g = maybeFinish (g\<lparr>tgTasks := remove1 i (tgTasks g)\<rparr>)"

definition startGroup :: "taskGroup \<Rightarrow> unit result \<times> taskGroup" where
  "startGroup g =
    (if tgStatus g = Running \<or> tgStatus g = Stopping \<or> tgStatus g = Failed then (Inl PlainError, g)
     else (let g1 = g\<lparr>tgController := Some False\<rparr>;
               g2 = (if tgStatus g = Stopped then freshCompletion g1 else snd (ensureCompletion g1));
               g3 = g2\<lparr>tgError := None, tgStatus := Running\<rparr>
           in (Inr (), g3\<lparr>tgTasks := [0..<tgConcurrency g] @ tgTasks g3,
                          tgRunning := [0..<tgConcurrency g] @ tgRunning g3\<rparr>)))"

text \<open>\<^verbatim>\<open>stop\<close> and \<^verbatim>\<open>join\<close> return the deferred to wait for; stopping an idle group returns at once.\<close>

definition stopGroup :: "taskGroup \<Rightarrow> nat option \<times> taskGroup" where
  "stopGroup g =
    (if tgStatus g = Idle then
       (let (c, g) = ensureCompletion (g\<lparr>tgStatus := Stopped\<rparr>) in (None, settleDeferred Resolved c g))
     else (let g = (if tgStatus g = Running then abortController (g\<lparr>tgStatus := Stopping\<rparr>) else g);
               (c, g) = ensureCompletion g
           in (Some c, g)))"

definition joinGroup :: "taskGroup \<Rightarrow> nat \<times> taskGroup" where
  "joinGroup g = ensureCompletion g"

datatype groupEvent = GroupStart | GroupStop | GroupJoin | RunSettled nat "unit result" | Untrack nat

inductive groupStep :: "taskGroup \<Rightarrow> groupEvent \<Rightarrow> taskGroup \<Rightarrow> bool" where
  group_start: "groupStep g GroupStart (snd (startGroup g))"
| group_stop: "groupStep g GroupStop (snd (stopGroup g))"
| group_join: "groupStep g GroupJoin (snd (joinGroup g))"
| group_run: "i \<in> set (tgRunning g) \<Longrightarrow> groupStep g (RunSettled i v) (runSettled i v g)"
| group_untrack: "i \<in> set (tgTasks g) \<Longrightarrow> i \<notin> set (tgRunning g) \<Longrightarrow> groupStep g (Untrack i) (untrack i g)"

section \<open>The invariant\<close>

definition completionIs :: "taskGroup \<Rightarrow> deferred \<Rightarrow> bool" where
  "completionIs g v \<longleftrightarrow> (case tgCompletion g of None \<Rightarrow> False
     | Some c \<Rightarrow> c < length (tgDeferreds g) \<and> tgDeferreds g ! c = v)"

lemma completionIs_upd [simp]:
  "completionIs (g\<lparr>tgTasks := t\<rparr>) v = completionIs g v" "completionIs (g\<lparr>tgRunning := t\<rparr>) v = completionIs g v"
  "completionIs (g\<lparr>tgStatus := s\<rparr>) v = completionIs g v" "completionIs (g\<lparr>tgError := e\<rparr>) v = completionIs g v"
  "completionIs (g\<lparr>tgController := c\<rparr>) v = completionIs g v"
  by (simp_all add: completionIs_def split: option.split)

lemma completionIs_functional: "completionIs g v \<Longrightarrow> completionIs g w \<Longrightarrow> v = w"
  by (auto simp: completionIs_def split: option.splits)

fun statusOk :: "taskGroupStatus \<Rightarrow> taskGroup \<Rightarrow> bool" where
  "statusOk Idle g \<longleftrightarrow> tgTasks g = [] \<and> tgError g = None \<and> (tgCompletion g = None \<or> completionIs g Pending)"
| "statusOk Running g \<longleftrightarrow> tgTasks g \<noteq> [] \<and> tgError g = None \<and> completionIs g Pending \<and> tgController g = Some False"
| "statusOk Stopping g \<longleftrightarrow> tgTasks g \<noteq> [] \<and> completionIs g Pending \<and> tgController g = Some True"
| "statusOk Stopped g \<longleftrightarrow> tgTasks g = [] \<and> tgError g = None \<and> completionIs g Resolved"
| "statusOk Failed g \<longleftrightarrow> tgTasks g = [] \<and> (\<exists>e. tgError g = Some e \<and> completionIs g (Rejected e))"

definition groupInv :: "taskGroup \<Rightarrow> bool" where
  "groupInv g \<longleftrightarrow> 1 \<le> tgConcurrency g \<and> distinct (tgTasks g) \<and> distinct (tgRunning g) \<and>
     set (tgRunning g) \<subseteq> set (tgTasks g) \<and> statusOk (tgStatus g) g"

lemma create_group_inv: "createTaskGroup n p = Inr g \<Longrightarrow> groupInv g"
  by (auto simp: createTaskGroup_def groupInv_def split: if_splits)

lemma join_inv: "groupInv g \<Longrightarrow> groupInv (snd (joinGroup g))"
  by (cases "tgStatus g") (auto simp: groupInv_def joinGroup_def ensureCompletion_def freshCompletion_def
      completionIs_def split: option.splits)

lemma start_inv: "groupInv g \<Longrightarrow> groupInv (snd (startGroup g))"
  by (cases "tgStatus g") (auto simp: groupInv_def startGroup_def ensureCompletion_def freshCompletion_def
      completionIs_def Let_def split: option.splits)

lemma stop_inv: "groupInv g \<Longrightarrow> groupInv (snd (stopGroup g))"
  by (cases "tgStatus g") (auto simp: groupInv_def stopGroup_def ensureCompletion_def freshCompletion_def
      completionIs_def abortController_def settleDeferred_def Let_def split: option.splits)

lemma running_status:
  assumes "groupInv g" and "tgTasks g \<noteq> []"
  shows "tgStatus g = Running \<or> tgStatus g = Stopping"
  using assms by (cases "tgStatus g") (auto simp: groupInv_def)

lemma run_settled_inv:
  assumes "groupInv g" and "i \<in> set (tgRunning g)"
  shows "groupInv (runSettled i v g)"
proof -
  have st: "tgStatus g = Running \<or> tgStatus g = Stopping"
    using assms by (intro running_status) (auto simp: groupInv_def)
  have "groupInv (snd (workerIteration v g)) \<and> tgRunning (snd (workerIteration v g)) = tgRunning g"
    using assms(1) st
    by (auto simp: groupInv_def workerIteration_def handleWorkerError_def abortController_def
        split: sum.splits option.splits taskGroupErrorPolicy.splits)
  then have inv: "groupInv (snd (workerIteration v g))" by simp
  have drop: "groupInv h \<Longrightarrow> groupInv (h\<lparr>tgRunning := remove1 i (tgRunning h)\<rparr>)" for h
    by (cases "tgStatus h") (auto simp: groupInv_def dest: notin_set_remove1)
  show ?thesis
    using inv drop [OF inv] by (cases "workerIteration v g") (simp add: runSettled_def)
qed

text \<open>How the end of the last worker ends the group.\<close>

lemma untrack_cases:
  assumes "groupInv g" and "i \<in> set (tgTasks g)" and "i \<notin> set (tgRunning g)"
  shows "remove1 i (tgTasks g) \<noteq> [] \<Longrightarrow> untrack i g = g\<lparr>tgTasks := remove1 i (tgTasks g)\<rparr>"
    and "remove1 i (tgTasks g) = [] \<Longrightarrow>
      (case tgError g of
         None \<Rightarrow> tgStatus (untrack i g) = Stopped \<and> completionIs (untrack i g) Resolved
       | Some e \<Rightarrow> tgStatus (untrack i g) = Failed \<and> completionIs (untrack i g) (Rejected e)) \<and>
      tgTasks (untrack i g) = [] \<and> tgRunning (untrack i g) = tgRunning g \<and> tgError (untrack i g) = tgError g \<and>
      tgConcurrency (untrack i g) = tgConcurrency g"
proof -
  have st: "tgStatus g = Running \<or> tgStatus g = Stopping"
    using assms by (intro running_status) auto
  then have "completionIs g Pending" using assms(1) by (auto simp: groupInv_def)
  then obtain c where c: "tgCompletion g = Some c" "c < length (tgDeferreds g)" "tgDeferreds g ! c = Pending"
    by (auto simp: completionIs_def split: option.splits)
  show "remove1 i (tgTasks g) \<noteq> [] \<Longrightarrow> untrack i g = g\<lparr>tgTasks := remove1 i (tgTasks g)\<rparr>"
    by (simp add: untrack_def maybeFinish_def)
  show "remove1 i (tgTasks g) = [] \<Longrightarrow>
      (case tgError g of
         None \<Rightarrow> tgStatus (untrack i g) = Stopped \<and> completionIs (untrack i g) Resolved
       | Some e \<Rightarrow> tgStatus (untrack i g) = Failed \<and> completionIs (untrack i g) (Rejected e)) \<and>
      tgTasks (untrack i g) = [] \<and> tgRunning (untrack i g) = tgRunning g \<and> tgError (untrack i g) = tgError g \<and>
      tgConcurrency (untrack i g) = tgConcurrency g"
    using st c by (auto simp: untrack_def maybeFinish_def complete_def ensureCompletion_def settleDeferred_def
        completionIs_def split: option.split)
qed

lemma untrack_inv:
  assumes "groupInv g" and "i \<in> set (tgTasks g)" and "i \<notin> set (tgRunning g)"
  shows "groupInv (untrack i g)"
proof (cases "remove1 i (tgTasks g) = []")
  case True
  have "set (tgRunning g) \<subseteq> set (remove1 i (tgTasks g))"
    using assms by (auto simp: groupInv_def)
  then have "tgRunning g = []" using True by simp
  then show ?thesis
    using untrack_cases(2) [OF assms True] assms(1) by (auto simp: groupInv_def split: option.splits)
next
  case False
  have "tgStatus g = Running \<or> tgStatus g = Stopping"
    using assms by (intro running_status) auto
  then show ?thesis
    using untrack_cases(1) [OF assms False] False assms
    by (auto simp: groupInv_def)
qed

lemma groupStep_inv: "groupInv g \<Longrightarrow> groupStep g e g' \<Longrightarrow> groupInv g'"
  by (auto elim!: groupStep.cases intro: start_inv stop_inv join_inv run_settled_inv untrack_inv)

section \<open>Properties\<close>

text \<open>What the group still has to do: the iterations that run and the workers on its set.\<close>

definition groupWork :: "taskGroup \<Rightarrow> nat" where
  "groupWork g = length (tgRunning g) + length (tgTasks g)"

definition terminalStatus :: "taskGroup \<Rightarrow> bool" where
  "terminalStatus g \<longleftrightarrow> tgStatus g = Stopped \<or> tgStatus g = Failed"

lemma stopping_step:
  assumes "groupInv g" and "tgStatus g = Stopping" and "groupStep g e g'"
  shows "(tgStatus g' = Stopping \<and> tgError g' = tgError g \<or>
      terminalStatus g' \<and> tgTasks g' = [] \<and> tgError g' = tgError g) \<and> groupWork g' \<le> groupWork g \<and>
    ((\<exists>i v. e = RunSettled i v) \<or> (\<exists>i. e = Untrack i) \<longrightarrow> groupWork g' < groupWork g)"
  using assms(3)
proof cases
  case group_start
  then show ?thesis using assms(2) by (simp add: startGroup_def)
next
  case group_stop
  then show ?thesis using assms(1,2)
    by (auto simp: stopGroup_def ensureCompletion_def freshCompletion_def groupWork_def Let_def split: option.split)
next
  case group_join
  then show ?thesis using assms(1,2)
    by (auto simp: joinGroup_def ensureCompletion_def freshCompletion_def groupWork_def split: option.split)
next
  case (group_run i v)
  have "workerIteration v g = (False, g)"
    using assms(2) by (simp add: workerIteration_def split: sum.split)
  moreover have "length (remove1 i (tgRunning g)) < length (tgRunning g)"
    using group_run(3) length_pos_if_in_set [of i "tgRunning g"] by (simp add: length_remove1)
  ultimately show ?thesis using group_run assms(2) by (simp add: runSettled_def groupWork_def)
next
  case (group_untrack i)
  have less: "length (remove1 i (tgTasks g)) < length (tgTasks g)"
    using group_untrack(3) length_pos_if_in_set [of i "tgTasks g"] by (simp add: length_remove1)
  show ?thesis
  proof (cases "remove1 i (tgTasks g) = []")
    case True
    then show ?thesis
      using untrack_cases(2) [OF assms(1) group_untrack(3,4) True] group_untrack less
      by (auto simp: groupWork_def terminalStatus_def split: option.splits)
  next
    case False
    then show ?thesis
      using untrack_cases(1) [OF assms(1) group_untrack(3,4) False] group_untrack less assms(2)
      by (simp add: groupWork_def)
  qed
qed

interpretation group: machine g0 groupStep "\<lambda>g. groupInv g0 \<longrightarrow> groupInv g" for g0
  by unfold_locales (use groupStep_inv in auto)

lemma group_reachable_inv: "createTaskGroup n p = Inr g0 \<Longrightarrow> reachable groupStep g0 g \<Longrightarrow> groupInv g"
  using group.reachable_inv create_group_inv by blast

text \<open>
  A stopping group comes to its end. Once a group is stopping, every iteration that settles
  and every worker that is taken off the set leaves less to do, no other operation adds anything,
  and when nothing is left the group has stopped or failed and its completion is settled.
\<close>

theorem stopping_group_terminates:
  assumes "createTaskGroup n p = Inr g0" and "reachable groupStep g0 g" and "tgStatus g = Stopping"
    and "groupStep g e g'"
  shows "(tgStatus g' = Stopping \<and> 0 < groupWork g' \<or>
      terminalStatus g' \<and> groupWork g' = 0 \<and> \<not> completionIs g' Pending) \<and>
    groupWork g' \<le> groupWork g \<and>
    ((\<exists>i v. e = RunSettled i v) \<or> (\<exists>i. e = Untrack i) \<longrightarrow> groupWork g' < groupWork g)"
proof -
  have inv: "groupInv g" using group_reachable_inv [OF assms(1,2)] .
  have inv': "groupInv g'" using groupStep_inv [OF inv assms(4)] .
  have "tgStatus g' = Stopping \<longrightarrow> 0 < groupWork g'"
    using inv' by (auto simp: groupInv_def groupWork_def)
  moreover have "terminalStatus g' \<longrightarrow> groupWork g' = 0 \<and> \<not> completionIs g' Pending"
    using inv' completionIs_functional [of g'] by (fastforce simp: groupInv_def groupWork_def terminalStatus_def)
  ultimately show ?thesis using stopping_step [OF inv assms(3,4)] by blast
qed

lemma policy_step: "groupStep g e g' \<Longrightarrow> tgPolicy g' = tgPolicy g"
proof (induction rule: groupStep.induct)
  case (group_run i g v)
  have "tgPolicy (snd (workerIteration v g)) = tgPolicy g"
    by (simp add: workerIteration_def handleWorkerError_def abortController_def
        split: sum.split taskGroupErrorPolicy.split)
  then show ?case by (cases "workerIteration v g") (simp add: runSettled_def)
qed (simp_all add: startGroup_def stopGroup_def joinGroup_def untrack_def maybeFinish_def complete_def
    ensureCompletion_def freshCompletion_def settleDeferred_def abortController_def Let_def split: option.split)

interpretation group_policy: machine g0 groupStep "\<lambda>g. tgPolicy g = tgPolicy g0" for g0
  by unfold_locales (simp_all add: policy_step)

lemma group_policy: "createTaskGroup n p = Inr g0 \<Longrightarrow> reachable groupStep g0 g \<Longrightarrow> tgPolicy g = p"
  using group_policy.reachable_inv by (auto simp: createTaskGroup_def split: if_splits)

lemma failing_run:
  "run groupStep g es g' \<Longrightarrow> groupInv g \<Longrightarrow> tgError g = Some e \<Longrightarrow> tgStatus g = Stopping \<or> tgStatus g = Failed \<Longrightarrow>
    groupInv g' \<and> tgError g' = Some e \<and> (tgStatus g' = Stopping \<or> tgStatus g' = Failed)"
proof (induction rule: run.induct)
  case (run_more g es g1 ev g2)
  then have IH: "groupInv g1" "tgError g1 = Some e" "tgStatus g1 = Stopping \<or> tgStatus g1 = Failed" by auto
  have inv: "groupInv g2" using groupStep_inv IH(1) run_more.hyps(2) .
  show ?case
  proof (cases "tgStatus g1 = Stopping")
    case True
    then show ?thesis using stopping_step [OF IH(1) True run_more.hyps(2)] IH(2) inv
      by (auto simp: terminalStatus_def groupInv_def)
  next
    case False
    then have f: "tgStatus g1 = Failed" "tgTasks g1 = []" "tgRunning g1 = []" using IH by (auto simp: groupInv_def)
    from run_more.hyps(2) have "tgError g2 = tgError g1 \<and> tgStatus g2 = Failed"
      by cases (use f in \<open>auto simp: startGroup_def stopGroup_def joinGroup_def ensureCompletion_def
        freshCompletion_def Let_def split: option.split\<close>)
    then show ?thesis using inv IH(2) by simp
  qed
qed simp

text \<open>
  The first failure decides. Under the policy \<^verbatim>\<open>stop-group\<close>, when an iteration of a running
  group rejects with an error that is not an abort, the group stops and aborts its workers, it
  can end only as failed, and its completion is then rejected with that very error.
\<close>

theorem first_failure_decides:
  assumes "createTaskGroup n StopGroup = Inr g0" and "reachable groupStep g0 g" and "tgStatus g = Running"
    and "i \<in> set (tgRunning g)" and "\<not> isAbortError e"
    and "run groupStep (runSettled i (Inl e) g) es g'"
  shows "tgStatus (runSettled i (Inl e) g) = Stopping \<and> tgController (runSettled i (Inl e) g) = Some True \<and>
    (tgStatus g' = Stopping \<or> tgStatus g' = Failed \<and> completionIs g' (Rejected e))"
proof -
  have inv: "groupInv g" using group_reachable_inv [OF assms(1,2)] .
  have policy: "tgPolicy g = StopGroup" using group_policy [OF assms(1,2)] .
  have now: "tgStatus (runSettled i (Inl e) g) = Stopping" "tgError (runSettled i (Inl e) g) = Some e"
    "tgController (runSettled i (Inl e) g) = Some True"
    using assms(3,5) policy inv by (auto simp: runSettled_def workerIteration_def handleWorkerError_def
        abortController_def groupInv_def)
  have "groupInv g' \<and> tgError g' = Some e \<and> (tgStatus g' = Stopping \<or> tgStatus g' = Failed)"
    using failing_run [OF assms(6) run_settled_inv [OF inv assms(4)] now(2)] now(1) by blast
  then show ?thesis using now by (auto simp: groupInv_def)
qed

definition groupExample :: taskGroup where
  "groupExample = \<lparr>tgConcurrency = 2, tgPolicy = StopGroup, tgStatus = Idle, tgController = None,
     tgDeferreds = [], tgCompletion = None, tgError = None, tgTasks = [], tgRunning = []\<rparr>"

lemma groupExample_created: "createTaskGroup 2 StopGroup = Inr groupExample"
  by (simp add: createTaskGroup_def groupExample_def)

lemma groupExample_started: "reachable groupStep groupExample (snd (startGroup groupExample))"
  by (rule reachable_step [where step = groupStep, OF reachable_start group_start])

lemma groupExample_running: "snd (startGroup groupExample) = groupExample\<lparr>tgController := Some False,
    tgDeferreds := [Pending], tgCompletion := Some 0, tgStatus := Running, tgTasks := [0, 1], tgRunning := [0, 1]\<rparr>"
  by (simp add: groupExample_def startGroup_def ensureCompletion_def freshCompletion_def numeral_2_eq_2)

theorem stopping_group_terminates_witness:
  "groupWork (runSettled 0 (Inr ()) (snd (stopGroup (snd (startGroup groupExample))))) <
   groupWork (snd (stopGroup (snd (startGroup groupExample))))"
proof -
  let ?g = "snd (stopGroup (snd (startGroup groupExample)))"
  have g: "?g = (snd (startGroup groupExample))\<lparr>tgStatus := Stopping, tgController := Some True\<rparr>"
    by (simp add: groupExample_running stopGroup_def abortController_def ensureCompletion_def)
  have "reachable groupStep groupExample ?g"
    by (rule reachable_step [where step = groupStep, OF groupExample_started group_stop])
  moreover have "groupStep ?g (RunSettled 0 (Inr ())) (runSettled 0 (Inr ()) ?g)"
    by (rule group_run) (simp only: g, simp add: groupExample_running)
  moreover have "tgStatus ?g = Stopping" by (simp add: g)
  ultimately show ?thesis using stopping_group_terminates [OF groupExample_created] by blast
qed

theorem first_failure_decides_witness:
  "tgController (runSettled 0 (Inl TimeoutError) (snd (startGroup groupExample))) = Some True"
proof -
  have "0 \<in> set (tgRunning (snd (startGroup groupExample)))" "tgStatus (snd (startGroup groupExample)) = Running"
    by (simp_all add: groupExample_running)
  moreover have "\<not> isAbortError TimeoutError" by (simp add: isAbortError_def error_defs)
  ultimately show ?thesis
    using first_failure_decides [OF groupExample_created groupExample_started _ _ _ run_none] by blast
qed

end
