(* ===== verification/JsMap.thy ===== *)
theory JsMap
  imports Prelude
begin

text \<open>
  The JavaScript \<^verbatim>\<open>Map\<close>: entries in insertion order, one per key. Setting a key that is present
  keeps its position; \<^verbatim>\<open>get\<close> is \<^const>\<open>map_of\<close>.
\<close>

fun mapSet :: "'k \<Rightarrow> 'v \<Rightarrow> ('k \<times> 'v) list \<Rightarrow> ('k \<times> 'v) list" where
  "mapSet k v [] = [(k, v)]"
| "mapSet k v ((k', v') # m) = (if k = k' then (k, v) # m else (k', v') # mapSet k v m)"

definition mapDelete :: "'k \<Rightarrow> ('k \<times> 'v) list \<Rightarrow> ('k \<times> 'v) list" where
  "mapDelete k m = filter (\<lambda>e. fst e \<noteq> k) m"

lemma map_of_mapSet [simp]: "map_of (mapSet k v m) = (map_of m)(k \<mapsto> v)"
  by (induction m) (auto simp: fun_eq_iff)

lemma map_of_mapDelete [simp]: "map_of (mapDelete k m) = (map_of m)(k := None)"
  by (induction m) (auto simp: mapDelete_def fun_eq_iff)

lemma keys_mapSet: "map fst (mapSet k v m) = (if map_of m k = None then map fst m @ [k] else map fst m)"
  by (induction m) auto

lemma distinct_mapSet [simp]: "distinct (map fst m) \<Longrightarrow> distinct (map fst (mapSet k v m))"
  by (auto simp: keys_mapSet map_of_eq_None_iff)

lemma distinct_mapDelete [simp]: "distinct (map fst m) \<Longrightarrow> distinct (map fst (mapDelete k m))"
  by (simp add: mapDelete_def distinct_map_filter)

lemma set_keys_mapSet [simp]: "fst ` set (mapSet k v m) = insert k (fst ` set m)"
  by (simp flip: dom_map_of_conv_image_fst)

lemma mapSet_fresh: "k \<notin> fst ` set m \<Longrightarrow> mapSet k v m = m @ [(k, v)]"
  by (induction m) auto

text \<open>Entering a list of entries with distinct keys into an empty map gives the list.\<close>

lemma fold_mapSet_append:
  "distinct (map fst (m @ es)) \<Longrightarrow> fold (\<lambda>(k, v). mapSet k v) es m = m @ es"
proof (induction es arbitrary: m)
  case (Cons e es)
  obtain k v where e: "e = (k, v)" by (cases e)
  then have "k \<notin> fst ` set m" using Cons.prems by auto
  then show ?case using Cons.IH [of "m @ [e]"] Cons.prems by (simp add: e mapSet_fresh)
qed simp

lemma fold_mapSet_empty: "distinct (map fst es) \<Longrightarrow> fold (\<lambda>(k, v). mapSet k v) es [] = es"
  using fold_mapSet_append [of "[]" es] by simp

end
