(* ===== verification/SubscriptionHandle.thy ===== *)
theory SubscriptionHandle
  imports Errors Machines JsMap
begin

text \<open>
  The building blocks of every subscribing client, \<^verbatim>\<open>src/domains/internal/\<close>: the controller behind
  a subscription handle, the all-or-nothing restore of a map, single flights by key, the buffer of
  early notifications and the live identifier of a handle.
\<close>

section \<open>The subscription controller\<close>

text \<open>
  \<^verbatim>\<open>subscription-handle.ts\<close>. \<open>scUnsubscribing\<close> is the round trip that is pending: the one of an explicit
  unsubscribe or the one that follows a failure. \<open>scRoundTrips\<close> counts the calls of
  \<^verbatim>\<open>unsubscribeFn\<close>. The end of a round trip runs the \<^verbatim>\<open>catch\<close>, the caller's continuation and the
  \<^verbatim>\<open>finally\<close> in one step.
\<close>

datatype roundTrip = ExplicitUnsubscribe | CleanupUnsubscribe

datatype completion = Open | Completed | FailedWith jserror

record subController =
  scActive :: bool
  scTerminalFailure :: bool
  scLocallyCompleted :: bool
  scUnsubscribing :: "roundTrip option"
  scCompletion :: completion
  scListening :: bool
  scRoundTrips :: nat

definition resolveCompletion :: "completion \<Rightarrow> subController \<Rightarrow> subController" where
  "resolveCompletion v c = (if scCompletion c = Open then c\<lparr>scCompletion := v\<rparr> else c)"

definition unsubscribeHandle :: "subController \<Rightarrow> subController" where
  "unsubscribeHandle c =
    (if \<not> scActive c then c
     else c\<lparr>scActive := False, scListening := False, scUnsubscribing := Some ExplicitUnsubscribe,
            scRoundTrips := scRoundTrips c + 1\<rparr>)"

definition failHandle :: "jserror \<Rightarrow> subController \<Rightarrow> subController" where
  "failHandle e c =
    (if \<not> scActive c then c
     else (resolveCompletion (FailedWith e) (c\<lparr>scActive := False, scTerminalFailure := True, scListening := False\<rparr>))
       \<lparr>scUnsubscribing := Some CleanupUnsubscribe, scRoundTrips := scRoundTrips c + 1\<rparr>)"

definition completeLocal :: "subController \<Rightarrow> subController" where
  "completeLocal c =
    (if scTerminalFailure c then c
     else resolveCompletion Completed (c\<lparr>scLocallyCompleted := True, scActive := False, scListening := False\<rparr>))"

definition roundTripSettled :: "unit result \<Rightarrow> subController \<Rightarrow> subController" where
  "roundTripSettled v c =
    (case scUnsubscribing c of
       None \<Rightarrow> c
     | Some CleanupUnsubscribe \<Rightarrow> c\<lparr>scUnsubscribing := None\<rparr>
     | Some ExplicitUnsubscribe \<Rightarrow>
         (case v of
            Inr _ \<Rightarrow> (if \<not> scTerminalFailure c then resolveCompletion Completed c else c)\<lparr>scUnsubscribing := None\<rparr>
          | Inl e \<Rightarrow> (if \<not> scLocallyCompleted c then c\<lparr>scActive := True\<rparr> else c)\<lparr>scUnsubscribing := None\<rparr>))"

text \<open>An abort disposes of the handle, at creation if the signal had aborted before.\<close>

definition createSubscriptionController :: "bool option \<Rightarrow> subController" where
  "createSubscriptionController signal =
    (let c = \<lparr>scActive = True, scTerminalFailure = False, scLocallyCompleted = False,
              scUnsubscribing = None, scCompletion = Open, scListening = False, scRoundTrips = 0\<rparr>
     in case signal of
          None \<Rightarrow> c
        | Some aborted \<Rightarrow> if aborted then unsubscribeHandle c else c\<lparr>scListening := True\<rparr>)"

datatype controllerEvent =
  UnsubscribeCalled | HandlerFailed jserror | CompletedLocally | SignalAborted | RoundTripSettled "unit result"

inductive controllerStep :: "subController \<Rightarrow> controllerEvent \<Rightarrow> subController \<Rightarrow> bool" where
  ctl_unsubscribe: "controllerStep c UnsubscribeCalled (unsubscribeHandle c)"
| ctl_fail: "controllerStep c (HandlerFailed e) (failHandle e c)"
| ctl_complete: "controllerStep c CompletedLocally (completeLocal c)"
| ctl_abort: "scListening c \<Longrightarrow> controllerStep c SignalAborted (unsubscribeHandle (c\<lparr>scListening := False\<rparr>))"
| ctl_settled: "scUnsubscribing c \<noteq> None \<Longrightarrow> controllerStep c (RoundTripSettled v) (roundTripSettled v c)"

text \<open>
  An active controller has no round trip pending and is open; the completion fails exactly after
  a terminal failure; the abort listener goes with the activity.
\<close>

definition controllerInv :: "subController \<Rightarrow> bool" where
  "controllerInv c \<longleftrightarrow>
     (scActive c \<longrightarrow> scUnsubscribing c = None \<and> scCompletion c = Open \<and> \<not> scLocallyCompleted c) \<and>
     (scTerminalFailure c \<longleftrightarrow> (\<exists>e. scCompletion c = FailedWith e)) \<and>
     (scListening c \<longrightarrow> scActive c) \<and>
     (scLocallyCompleted c \<longrightarrow> scCompletion c = Completed) \<and>
     (scUnsubscribing c = Some CleanupUnsubscribe \<longrightarrow> scTerminalFailure c) \<and>
     (scUnsubscribing c = Some ExplicitUnsubscribe \<longrightarrow> \<not> scTerminalFailure c \<and>
        (scCompletion c = Open \<or> scLocallyCompleted c)) \<and>
     (scCompletion c = Open \<longrightarrow> scActive c \<or> scUnsubscribing c = Some ExplicitUnsubscribe)"

lemma create_controller_inv: "controllerInv (createSubscriptionController s)"
  by (simp add: createSubscriptionController_def controllerInv_def unsubscribeHandle_def Let_def split: option.split)

lemma controllerStep_inv: "controllerInv c \<Longrightarrow> controllerStep c ev c' \<Longrightarrow> controllerInv c'"
  by (erule controllerStep.cases; cases "scCompletion c")
    (auto simp: controllerInv_def unsubscribeHandle_def failHandle_def completeLocal_def roundTripSettled_def
      resolveCompletion_def split: option.splits roundTrip.splits sum.splits)

definition completionOf :: "subController \<Rightarrow> unit \<Rightarrow> completion option" where
  "completionOf c u = (if scCompletion c = Open then None else Some (scCompletion c))"

lemma controllerStep_completion:
  "controllerStep c ev c' \<Longrightarrow> scCompletion c \<noteq> Open \<Longrightarrow> scCompletion c' = scCompletion c"
  by (erule controllerStep.cases)
    (auto simp: unsubscribeHandle_def failHandle_def completeLocal_def roundTripSettled_def
      resolveCompletion_def split: option.split roundTrip.split sum.split)

interpretation controller: settling "createSubscriptionController s" controllerStep controllerInv completionOf for s
  by unfold_locales
    (auto intro: create_controller_inv controllerStep_inv simp: completionOf_def
      dest: controllerStep_completion split: if_splits)


text \<open>
  C12: a handle and its completion. In every reachable state of a controller at most one round
  trip is pending, an active handle has none and its completion is open, the completion rejects
  exactly after a terminal failure, and once settled it never changes. An explicit unsubscribe
  that fails can be repeated unless the subscription was completed locally.
\<close>

theorem controller_contract:
  assumes "reachable controllerStep (createSubscriptionController s) c"
  shows "(scActive c \<longrightarrow> scUnsubscribing c = None \<and> scCompletion c = Open) \<and>
    (scTerminalFailure c \<longleftrightarrow> (\<exists>e. scCompletion c = FailedWith e)) \<and>
    (\<forall>es c'. run controllerStep c es c' \<and> scCompletion c \<noteq> Open \<longrightarrow> scCompletion c' = scCompletion c) \<and>
    (\<forall>e. scUnsubscribing c = Some ExplicitUnsubscribe \<longrightarrow>
       scActive (roundTripSettled (Inl e) c) = (\<not> scLocallyCompleted c)) \<and>
    (\<not> scActive c \<longrightarrow> unsubscribeHandle c = c)"
proof -
  have inv: "controllerInv c" using controller.reachable_inv [OF assms] .
  have "scCompletion c' = scCompletion c" if "run controllerStep c es c'" "scCompletion c \<noteq> Open" for es c'
    using controller.settled_once [OF assms that(1), of "()" "scCompletion c"] that(2)
    by (auto simp: completionOf_def split: if_splits)
  then show ?thesis
    using inv by (auto simp: controllerInv_def roundTripSettled_def unsubscribeHandle_def)
qed

theorem controller_contract_witness:
  "scActive (roundTripSettled (Inl TimeoutError) (unsubscribeHandle (createSubscriptionController None)))"
proof -
  let ?c = "unsubscribeHandle (createSubscriptionController None)"
  have "reachable controllerStep (createSubscriptionController None) ?c"
    by (rule reachable_step [where step = controllerStep, OF reachable_start ctl_unsubscribe])
  then have "scUnsubscribing ?c = Some ExplicitUnsubscribe \<longrightarrow>
      scActive (roundTripSettled (Inl TimeoutError) ?c) = (\<not> scLocallyCompleted ?c)"
    using controller_contract by blast
  then show ?thesis by (simp add: unsubscribeHandle_def createSubscriptionController_def)
qed

section \<open>Generations and live identifiers\<close>

definition nextGeneration :: "nat \<Rightarrow> nat \<times> nat" where
  "nextGeneration value = (value + 1, value + 1)"

text \<open>A state object is its number; \<^verbatim>\<open>map.get(key) === state\<close> compares objects.\<close>

definition isCurrentEmptyState :: "('k \<times> nat) list \<Rightarrow> 'k \<Rightarrow> nat \<Rightarrow> nat list \<Rightarrow> bool" where
  "isCurrentEmptyState m key state handlers \<longleftrightarrow> map_of m key = Some state \<and> length handlers = 0"

definition liveSubId :: "('k \<times> (nat \<times> nat)) list \<Rightarrow> 'k \<Rightarrow> nat \<Rightarrow> nat \<Rightarrow> nat" where
  "liveSubId m key capturedSubId capturedGeneration =
    (case map_of m key of
       Some (subId, generation) \<Rightarrow> if generation = capturedGeneration then subId else capturedSubId
     | None \<Rightarrow> capturedSubId)"

section \<open>Restoring a map\<close>

text \<open>
  \<^verbatim>\<open>restore.ts\<close>. The result of \<^verbatim>\<open>restoreEntry\<close> is a function of key and value; what \<^verbatim>\<open>rollbackEntry\<close>
  does cannot fail the restore, so only the entries it is called on are kept.
\<close>

fun restoreLoop ::
  "('k \<Rightarrow> 'v \<Rightarrow> 'v result) \<Rightarrow> ('k \<times> 'v) list \<Rightarrow> ('k \<times> 'v) list \<Rightarrow> (jserror \<times> ('k \<times> 'v) list) + ('k \<times> 'v) list" where
  "restoreLoop f [] restored = Inr restored"
| "restoreLoop f ((k, v) # es) restored =
    (case f k v of Inl e \<Rightarrow> Inl (e, restored) | Inr v' \<Rightarrow> restoreLoop f es (restored @ [(k, v')]))"

definition restoreMapEntriesAtomically ::
  "('k \<times> 'v) list \<Rightarrow> ('k \<Rightarrow> 'v \<Rightarrow> 'v result) \<Rightarrow> bool \<Rightarrow> unit result \<times> ('k \<times> 'v) list \<times> ('k \<times> 'v) list" where
  "restoreMapEntriesAtomically entries restoreEntry rollback =
    (if entries = [] then (Inr (), entries, [])
     else (case restoreLoop restoreEntry entries [] of
         Inl (e, restored) \<Rightarrow> (Inl e, entries, if rollback then rev restored else [])
       | Inr restored \<Rightarrow> (Inr (), fold (\<lambda>(k, v). mapSet k v) restored [], [])))"

lemma restoreLoop_ok:
  "\<forall>(k, v) \<in> set es. \<exists>w. f k v = Inr w \<Longrightarrow>
    restoreLoop f es done = Inr (done @ map (\<lambda>(k, v). (k, projr (f k v))) es)"
  by (induction es arbitrary: "done") auto

lemma restoreLoop_fails:
  assumes "\<forall>(k, v) \<in> set pre. \<exists>w. f k v = Inr w" and "f k v = Inl e"
  shows "restoreLoop f (pre @ (k, v) # post) done = Inl (e, done @ map (\<lambda>(k, v). (k, projr (f k v))) pre)"
  using assms by (induction pre arbitrary: "done") auto

text \<open>
  A restore is all or nothing. If every entry is restored, the map holds the restored values
  under the same keys in the same order; at the first failure the map is left as it was, the error
  is thrown, and exactly the entries restored before are rolled back, the last one first.
\<close>

theorem restore_is_atomic:
  assumes "distinct (map fst entries)"
  shows "((\<forall>(k, v) \<in> set entries. \<exists>w. f k v = Inr w) \<longrightarrow>
      restoreMapEntriesAtomically entries f True = (Inr (), map (\<lambda>(k, v). (k, projr (f k v))) entries, [])) \<and>
    (\<forall>pre k v post e. entries = pre @ (k, v) # post \<and> (\<forall>(k, v) \<in> set pre. \<exists>w. f k v = Inr w) \<and> f k v = Inl e \<longrightarrow>
      restoreMapEntriesAtomically entries f True = (Inl e, entries, rev (map (\<lambda>(k, v). (k, projr (f k v))) pre)))"
proof (intro conjI allI impI)
  assume "\<forall>(k, v) \<in> set entries. \<exists>w. f k v = Inr w"
  moreover have "distinct (map fst (map (\<lambda>(k, v). (k, projr (f k v))) entries))"
    using assms by (simp add: comp_def case_prod_unfold)
  ultimately show "restoreMapEntriesAtomically entries f True =
      (Inr (), map (\<lambda>(k, v). (k, projr (f k v))) entries, [])"
    using restoreLoop_ok [of entries f "[]"] by (simp add: restoreMapEntriesAtomically_def fold_mapSet_empty)
next
  fix pre k v post e
  assume "entries = pre @ (k, v) # post \<and> (\<forall>(k, v) \<in> set pre. \<exists>w. f k v = Inr w) \<and> f k v = Inl e"
  then show "restoreMapEntriesAtomically entries f True =
      (Inl e, entries, rev (map (\<lambda>(k, v). (k, projr (f k v))) pre))"
    using restoreLoop_fails [of pre f k v e post "[]"] by (simp add: restoreMapEntriesAtomically_def)
qed

theorem restore_is_atomic_witness:
  "restoreMapEntriesAtomically [(1 :: nat, 10 :: nat), (2, 20), (3, 30)]
     (\<lambda>k v. if k = 3 then Inl TimeoutError else Inr (v + 1)) True =
   (Inl TimeoutError, [(1, 10), (2, 20), (3, 30)], [(2, 21), (1, 11)])"
proof -
  let ?f = "\<lambda>(k :: nat) (v :: nat). if k = 3 then Inl TimeoutError else Inr (v + 1)"
  let ?m = "[(1 :: nat, 10 :: nat), (2, 20), (3, 30)]"
  have "restoreMapEntriesAtomically ?m ?f True =
      (Inl TimeoutError, ?m, rev (map (\<lambda>(k, v). (k, projr (?f k v))) [(1, 10), (2, 20)]))"
    by (rule restore_is_atomic [THEN conjunct2, rule_format, of ?m _ 3 30 "[]"]) simp_all
  then show ?thesis by simp
qed

section \<open>Single flights\<close>

text \<open>
  \<^verbatim>\<open>keyed-single-flight.ts\<close>: the promise in flight for a key is a number; \<^verbatim>\<open>register\<close> starts a new one
  only when there is none.
\<close>

record 'k singleFlight =
  sfInFlight :: "('k \<times> nat) list"
  sfStarted :: nat

definition joinFlight :: "'k \<Rightarrow> 'k singleFlight \<Rightarrow> nat \<times> 'k singleFlight" where
  "joinFlight key f =
    (case map_of (sfInFlight f) key of
       Some pending \<Rightarrow> (pending, f)
     | None \<Rightarrow> (sfStarted f, f\<lparr>sfInFlight := mapSet key (sfStarted f) (sfInFlight f), sfStarted := sfStarted f + 1\<rparr>))"

definition flightSettled :: "'k \<Rightarrow> nat \<Rightarrow> 'k singleFlight \<Rightarrow> 'k singleFlight" where
  "flightSettled key pending f =
    (if map_of (sfInFlight f) key = Some pending then f\<lparr>sfInFlight := mapDelete key (sfInFlight f)\<rparr> else f)"

section \<open>Early notifications\<close>

text \<open>
  \<^verbatim>\<open>pending-notifications.ts\<close>. A subscription is what \<^verbatim>\<open>resolveSubscription\<close> returns for an identifier,
  its handlers a list; what is handed to \<^verbatim>\<open>dispatchToHandler\<close> is returned, in order.
\<close>

type_synonym 'n pendingBuffer = "(nat \<times> 'n list) list"

definition bufferNotification :: "nat \<Rightarrow> 'n \<Rightarrow> 'n pendingBuffer \<Rightarrow> 'n pendingBuffer" where
  "bufferNotification subId n b =
    (case map_of b subId of
       Some pending \<Rightarrow> mapSet subId (pending @ [n]) b
     | None \<Rightarrow> mapSet subId [n] b)"

definition dispatchNotification :: "'h list \<Rightarrow> 'n \<Rightarrow> ('h \<times> 'n) list" where
  "dispatchNotification handlers n = map (\<lambda>h. (h, n)) handlers"

definition flushNotifications ::
  "(nat \<Rightarrow> 'h list option) \<Rightarrow> nat \<Rightarrow> 'n pendingBuffer \<Rightarrow> ('h \<times> 'n) list \<times> 'n pendingBuffer" where
  "flushNotifications resolve subId b =
    (case map_of b subId of
       None \<Rightarrow> ([], b)
     | Some pending \<Rightarrow>
         if pending = [] then ([], b)
         else (case resolve subId of
             None \<Rightarrow> ([], b)
           | Some handlers \<Rightarrow> (concat (map (dispatchNotification handlers) pending), mapDelete subId b)))"

definition dispatchOrQueue ::
  "(nat \<Rightarrow> 'h list option) \<Rightarrow> nat \<Rightarrow> 'n \<Rightarrow> 'n pendingBuffer \<Rightarrow> ('h \<times> 'n) list \<times> 'n pendingBuffer" where
  "dispatchOrQueue resolve subId n b =
    (case resolve subId of
       None \<Rightarrow> ([], bufferNotification subId n b)
     | Some handlers \<Rightarrow> (dispatchNotification handlers n, b))"

definition removeNotifications :: "nat \<Rightarrow> 'n pendingBuffer \<Rightarrow> 'n pendingBuffer" where
  "removeNotifications subId b = mapDelete subId b"

text \<open>Notifications that arrive early are delivered, in order, when the subscription is known.\<close>

lemma early_notifications_kept:
  assumes "map_of b subId = None" and "ns \<noteq> []"
  shows "fst (flushNotifications (\<lambda>_. Some hs) subId (foldl (\<lambda>b n. bufferNotification subId n b) b ns)) =
    concat (map (dispatchNotification hs) ns)"
proof -
  have "map_of (foldl (\<lambda>b n. bufferNotification subId n b) b ns) subId = (if ns = [] then None else Some ns)" for ns
    by (induction ns rule: rev_induct) (auto simp: assms(1) bufferNotification_def)
  then show ?thesis using assms(2) by (simp add: flushNotifications_def)
qed

end
