(* ===== verification/Registry.thy ===== *)
theory Registry
  imports SubscriptionHandle
begin

text \<open>
  The subscription registry the Queue, Stream and Schedule clients keep, each in the same form:
  \<^verbatim>\<open>subscribe\<close>, \<^verbatim>\<open>addLocalSubscription\<close>, \<^verbatim>\<open>unsubscribe\<close>, the reconnect listener and the notification handler
  of \<^verbatim>\<open>src/domains/queue/client.ts\<close>, \<^verbatim>\<open>stream/client.ts\<close> and \<^verbatim>\<open>schedule/client.ts\<close>. State objects are numbers
  into a list, because the code compares them. A wire request waits until the connection is ready,
  is then processed by the broker, and is settled when the answer arrives; requests are processed and answered in any order.
  Abort signals are numbers, too: a call may bring one, and those that have aborted are in \<open>rgAborted\<close>. What the handles
  that listen to a signal do when it aborts is an unsubscribe, as if their callers had asked for it.
  The broker's subscriptions of this session are part of the state, as a specification. Validation of
  patterns and decoding of answers belong to the clients.
\<close>

section \<open>State\<close>

record subState =
  ssSubId :: nat
  ssHandlers :: "nat list"
  ssGeneration :: nat
  ssPendingUnsubscribe :: "nat option"

datatype wireRequest =
    WireSubscribe jsstr
  | WireUnsubscribe nat nat jsstr

datatype wireAnswer = WireOk nat | WireError jserror

record 'n registry =
  rgByPattern :: "(jsstr \<times> nat) list"
  rgBySubId :: "(nat \<times> jsstr) list"
  rgObjects :: "subState list"
  rgGeneration :: nat
  rgNextHandlerId :: nat
  rgFlights :: "(jsstr \<times> nat option list) list"
  rgAborted :: "nat list"
  rgPending :: "'n pendingBuffer"
  rgDelivered :: "(nat \<times> 'n) list"
  rgOps :: "(wireRequest \<times> wireAnswer option) list"
  rgTokens :: nat
  rgOnline :: bool
  rgRestoring :: "((jsstr \<times> nat) list \<times> (jsstr \<times> subState) list) option"
  rgBroker :: "jsstr list"

definition newRegistry :: "'n registry" where
  "newRegistry = \<lparr>rgByPattern = [], rgBySubId = [], rgObjects = [], rgGeneration = 0,
     rgNextHandlerId = 1, rgFlights = [], rgAborted = [], rgPending = [], rgDelivered = [], rgOps = [], rgTokens = 0,
     rgOnline = True, rgRestoring = None, rgBroker = []\<rparr>"

section \<open>Operations\<close>

definition resolveSubscription :: "'n registry \<Rightarrow> nat \<Rightarrow> nat list option" where
  "resolveSubscription g subId =
    (case map_of (rgBySubId g) subId of
       None \<Rightarrow> None
     | Some pattern \<Rightarrow> map_option (\<lambda>i. ssHandlers (rgObjects g ! i)) (map_of (rgByPattern g) pattern))"

definition flushPending :: "nat \<Rightarrow> 'n registry \<Rightarrow> 'n registry" where
  "flushPending subId g =
    (let (calls, b) = flushNotifications (resolveSubscription g) subId (rgPending g)
     in g\<lparr>rgPending := b, rgDelivered := rgDelivered g @ calls\<rparr>)"

definition notified :: "nat \<Rightarrow> 'n \<Rightarrow> 'n registry \<Rightarrow> 'n registry" where
  "notified subId n g =
    (let (calls, b) = dispatchOrQueue (resolveSubscription g) subId n (rgPending g)
     in g\<lparr>rgPending := b, rgDelivered := rgDelivered g @ calls\<rparr>)"

definition stateFor :: "jsstr \<Rightarrow> nat \<Rightarrow> 'n registry \<Rightarrow> nat \<times> 'n registry" where
  "stateFor pattern subId g =
    (case map_of (rgByPattern g) pattern of
       Some i \<Rightarrow> (i, g)
     | None \<Rightarrow>
         (let (generation, counter) = nextGeneration (rgGeneration g); i = length (rgObjects g) in
          (i, g\<lparr>rgObjects := rgObjects g @ [\<lparr>ssSubId = subId, ssHandlers = [], ssGeneration = generation,
                   ssPendingUnsubscribe = None\<rparr>],
                rgGeneration := counter,
                rgByPattern := mapSet pattern i (rgByPattern g),
                rgBySubId := mapSet subId pattern (rgBySubId g)\<rparr>)))"

definition addHandler :: "nat \<Rightarrow> nat \<Rightarrow> 'n registry \<Rightarrow> 'n registry" where
  "addHandler i h g = g\<lparr>rgObjects := (rgObjects g)[i := (rgObjects g ! i)\<lparr>ssHandlers := ssHandlers (rgObjects g ! i) @ [h]\<rparr>]\<rparr>"

definition setPendingUnsubscribe :: "nat \<Rightarrow> nat option \<Rightarrow> 'n registry \<Rightarrow> 'n registry" where
  "setPendingUnsubscribe i t g = g\<lparr>rgObjects := (rgObjects g)[i := (rgObjects g ! i)\<lparr>ssPendingUnsubscribe := t\<rparr>]\<rparr>"

definition dropHandler :: "nat \<Rightarrow> nat \<Rightarrow> 'n registry \<Rightarrow> 'n registry" where
  "dropHandler i h g = g\<lparr>rgObjects := (rgObjects g)[i := (rgObjects g ! i)\<lparr>ssHandlers := removeAll h (ssHandlers (rgObjects g ! i))\<rparr>]\<rparr>"

definition unsubscribe :: "jsstr \<Rightarrow> nat \<Rightarrow> 'n registry \<Rightarrow> 'n registry" where
  "unsubscribe pattern handlerId g =
    (case map_of (rgByPattern g) pattern of
       None \<Rightarrow> g
     | Some i \<Rightarrow>
         (let g = dropHandler i handlerId g in
          if ssHandlers (rgObjects g ! i) \<noteq> [] then g
          else (setPendingUnsubscribe i (Some (rgTokens g)) g)
                 \<lparr>rgOps := rgOps g @ [(WireUnsubscribe (rgTokens g) i pattern, None)], rgTokens := rgTokens g + 1\<rparr>))"

text \<open>
  The handle of a subscription is created before its handler is stored. One whose signal has aborted already unsubscribes at once,
  and then finds no handler of its own to remove.
\<close>

definition signalAborted :: "nat option \<Rightarrow> 'n registry \<Rightarrow> bool" where
  "signalAborted sig g = (sig \<in> Some ` set (rgAborted g))"

definition addLocalSubscription :: "jsstr \<Rightarrow> nat \<Rightarrow> nat option \<Rightarrow> 'n registry \<Rightarrow> nat \<times> 'n registry" where
  "addLocalSubscription pattern subId sig g =
    (let handlerId = rgNextHandlerId g; g = g\<lparr>rgNextHandlerId := handlerId + 1\<rparr>;
         (i, g) = stateFor pattern subId g;
         g = (if signalAborted sig g then unsubscribe pattern handlerId g else g)
     in (handlerId, flushPending subId (addHandler i handlerId g)))"

datatype subscribeStep = Subscribed nat | WaitsForUnsubscribe | WaitsForFlight

text \<open>
  One turn of the loop in \<^verbatim>\<open>subscribe\<close>; a call that waits for an unsubscribe takes another. A flight keeps the signals
  of the calls that wait for it.
\<close>

definition subscribe :: "jsstr \<Rightarrow> nat option \<Rightarrow> 'n registry \<Rightarrow> subscribeStep \<times> 'n registry" where
  "subscribe pattern sig g =
    (case map_of (rgByPattern g) pattern of
       Some i \<Rightarrow>
         if ssPendingUnsubscribe (rgObjects g ! i) \<noteq> None then (WaitsForUnsubscribe, g)
         else (let (h, g) = addLocalSubscription pattern (ssSubId (rgObjects g ! i)) sig g in (Subscribed h, g))
     | None \<Rightarrow>
         (case map_of (rgFlights g) pattern of
            Some ws \<Rightarrow> (WaitsForFlight, g\<lparr>rgFlights := mapSet pattern (ws @ [sig]) (rgFlights g)\<rparr>)
          | None \<Rightarrow> (WaitsForFlight, g\<lparr>rgFlights := mapSet pattern [sig] (rgFlights g),
                                      rgOps := rgOps g @ [(WireSubscribe pattern, None)]\<rparr>)))"

text \<open>What the broker does with a request, and what the client does with the answer.\<close>

definition brokerHandles :: "wireRequest \<Rightarrow> wireAnswer \<Rightarrow> jsstr list \<Rightarrow> jsstr list" where
  "brokerHandles r a subs = (case a of WireError e \<Rightarrow> subs
     | WireOk subId \<Rightarrow> (case r of WireSubscribe p \<Rightarrow> p # subs | WireUnsubscribe t i p \<Rightarrow> removeAll p subs))"

definition unsubscribeSettled :: "nat \<Rightarrow> nat \<Rightarrow> jsstr \<Rightarrow> wireAnswer \<Rightarrow> 'n registry \<Rightarrow> 'n registry" where
  "unsubscribeSettled t i pattern a g =
    (let g = (if ssPendingUnsubscribe (rgObjects g ! i) = Some t then setPendingUnsubscribe i None g else g) in
     case a of
       WireError e \<Rightarrow> g
     | WireOk _ \<Rightarrow>
         if isCurrentEmptyState (rgByPattern g) pattern i (ssHandlers (rgObjects g ! i))
         then g\<lparr>rgByPattern := mapDelete pattern (rgByPattern g),
                rgBySubId := mapDelete (ssSubId (rgObjects g ! i)) (rgBySubId g),
                rgPending := removeNotifications (ssSubId (rgObjects g ! i)) (rgPending g)\<rparr>
         else g)"

definition subscribeSettled :: "jsstr \<Rightarrow> wireAnswer \<Rightarrow> 'n registry \<Rightarrow> 'n registry" where
  "subscribeSettled pattern a g =
    (let waiting = (case map_of (rgFlights g) pattern of Some ws \<Rightarrow> ws | None \<Rightarrow> []);
         g = g\<lparr>rgFlights := mapDelete pattern (rgFlights g)\<rparr>
     in case a of
          WireError e \<Rightarrow> g
        | WireOk subId \<Rightarrow> fold (\<lambda>sig g. snd (addLocalSubscription pattern subId sig g)) waiting g)"

fun requestSettled :: "wireRequest \<Rightarrow> wireAnswer \<Rightarrow> 'n registry \<Rightarrow> 'n registry" where
  "requestSettled (WireSubscribe p) a g = subscribeSettled p a g"
| "requestSettled (WireUnsubscribe t i p) a g = unsubscribeSettled t i p a g"

section \<open>Losing the session and restoring it\<close>

text \<open>The requests that were sent fail with the session; the others keep waiting for the next one.\<close>

definition sessionLost :: "'n registry \<Rightarrow> 'n registry" where
  "sessionLost g = g\<lparr>rgOnline := False, rgBroker := [], rgRestoring := None,
     rgOps := map (\<lambda>(r, a). (r, map_option (\<lambda>_. WireError ConnectionError) a)) (rgOps g)\<rparr>"

text \<open>
  The reconnect listener: it subscribes each pattern of a snapshot again, copying the handlers the
  state has at that moment, and replaces all states at the end.
\<close>

definition restoreBegin :: "'n registry \<Rightarrow> 'n registry" where
  "restoreBegin g = (if rgByPattern g = [] then g else g\<lparr>rgRestoring := Some (rgByPattern g, [])\<rparr>)"

definition installState :: "jsstr \<times> subState \<Rightarrow> 'n registry \<Rightarrow> 'n registry" where
  "installState e g = g\<lparr>rgObjects := rgObjects g @ [snd e],
     rgByPattern := mapSet (fst e) (length (rgObjects g)) (rgByPattern g)\<rparr>"

definition installAll :: "(jsstr \<times> subState) list \<Rightarrow> 'n registry \<Rightarrow> 'n registry" where
  "installAll restored g = fold installState restored (g\<lparr>rgByPattern := []\<rparr>)"

definition reindex :: "'n registry \<Rightarrow> 'n registry" where
  "reindex g = fold (\<lambda>(p, i) g. flushPending (ssSubId (rgObjects g ! i))
       (g\<lparr>rgBySubId := mapSet (ssSubId (rgObjects g ! i)) p (rgBySubId g)\<rparr>)) (rgByPattern g) (g\<lparr>rgBySubId := []\<rparr>)"

definition restoreEntry :: "wireAnswer \<Rightarrow> 'n registry \<Rightarrow> 'n registry" where
  "restoreEntry a g =
    (case rgRestoring g of
       Some ((p, i) # rest, restored) \<Rightarrow>
         (case a of
            WireError e \<Rightarrow> g\<lparr>rgRestoring := None, rgBroker := filter (\<lambda>q. q \<notin> fst ` set restored) (rgBroker g)\<rparr>
          | WireOk subId \<Rightarrow>
              (let old = rgObjects g ! i;
                   restored = restored @ [(p, \<lparr>ssSubId = subId, ssHandlers = ssHandlers old,
                                               ssGeneration = ssGeneration old, ssPendingUnsubscribe = None\<rparr>)];
                   g = g\<lparr>rgBroker := p # rgBroker g\<rparr>
               in if rest \<noteq> [] then g\<lparr>rgRestoring := Some (rest, restored)\<rparr>
                  else reindex (installAll restored (g\<lparr>rgRestoring := None\<rparr>))))
     | _ \<Rightarrow> g)"

definition sessionReady :: "'n registry \<Rightarrow> 'n registry" where
  "sessionReady g = g\<lparr>rgOnline := True\<rparr>"

text \<open>
  Requests are named by their position among the outstanding ones. \<open>AnswerLost\<close>: a request the broker has processed is
  settled by its timeout, its answer is dropped.
\<close>

datatype 'n registryEvent =
    SubscribeCalled jsstr "nat option" | SignalFired nat | UnsubscribeRequested jsstr nat | Notified nat 'n
  | RequestSent nat wireAnswer | AnswerArrived nat
  | AnswerLost nat | SessionLost | RestoreBegins | RestoreAnswered wireAnswer | SessionReady

definition signalFired :: "nat \<Rightarrow> 'n registry \<Rightarrow> 'n registry" where
  "signalFired sig g = g\<lparr>rgAborted := sig # rgAborted g\<rparr>"

inductive registryStep :: "'n registry \<Rightarrow> 'n registryEvent \<Rightarrow> 'n registry \<Rightarrow> bool" where
  rg_subscribe: "registryStep g (SubscribeCalled p sig) (snd (subscribe p sig g))"
| rg_signal: "registryStep g (SignalFired sig) (signalFired sig g)"
| rg_unsubscribe: "registryStep g (UnsubscribeRequested p h) (unsubscribe p h g)"
| rg_notified: "registryStep g (Notified i n) (notified i n g)"
| rg_sent: "rgOnline g \<Longrightarrow> rgOps g = pre @ (r, None) # post \<Longrightarrow>
    registryStep g (RequestSent (length pre) a) (g\<lparr>rgOps := pre @ (r, Some a) # post, rgBroker := brokerHandles r a (rgBroker g)\<rparr>)"
| rg_answer: "rgOps g = pre @ (r, Some a) # post \<Longrightarrow>
    registryStep g (AnswerArrived (length pre)) (requestSettled r a (g\<lparr>rgOps := pre @ post\<rparr>))"
| rg_timeout: "rgOps g = pre @ (r, Some a) # post \<Longrightarrow>
    registryStep g (AnswerLost (length pre)) (requestSettled r (WireError TimeoutError) (g\<lparr>rgOps := pre @ post\<rparr>))"
| rg_lost: "registryStep g SessionLost (sessionLost g)"
| rg_restore: "\<not> rgOnline g \<Longrightarrow> rgRestoring g = None \<Longrightarrow> registryStep g RestoreBegins (restoreBegin g)"
| rg_restored: "rgRestoring g \<noteq> None \<Longrightarrow> registryStep g (RestoreAnswered a) (restoreEntry a g)"
| rg_ready: "\<not> rgOnline g \<Longrightarrow> rgRestoring g = None \<Longrightarrow> registryStep g SessionReady (sessionReady g)"

section \<open>Running a schedule of events\<close>

text \<open>The events in turn, where each is possible: how the runs of the model are computed.\<close>

fun attempt :: "'n registryEvent \<Rightarrow> 'n registry \<Rightarrow> 'n registry option" where
  "attempt (SubscribeCalled p sig) g = Some (snd (subscribe p sig g))"
| "attempt (SignalFired sig) g = Some (signalFired sig g)"
| "attempt (UnsubscribeRequested p h) g = Some (unsubscribe p h g)"
| "attempt (Notified i n) g = Some (notified i n g)"
| "attempt (RequestSent k a) g = (case drop k (rgOps g) of (r, None) # post \<Rightarrow>
     (if rgOnline g then Some (g\<lparr>rgOps := take k (rgOps g) @ (r, Some a) # post, rgBroker := brokerHandles r a (rgBroker g)\<rparr>) else None)
   | _ \<Rightarrow> None)"
| "attempt (AnswerArrived k) g = (case drop k (rgOps g) of
     (r, Some a) # post \<Rightarrow> Some (requestSettled r a (g\<lparr>rgOps := take k (rgOps g) @ post\<rparr>)) | _ \<Rightarrow> None)"
| "attempt (AnswerLost k) g = (case drop k (rgOps g) of
     (r, Some a) # post \<Rightarrow> Some (requestSettled r (WireError TimeoutError) (g\<lparr>rgOps := take k (rgOps g) @ post\<rparr>)) | _ \<Rightarrow> None)"
| "attempt SessionLost g = Some (sessionLost g)"
| "attempt RestoreBegins g = (if \<not> rgOnline g \<and> rgRestoring g = None then Some (restoreBegin g) else None)"
| "attempt (RestoreAnswered a) g = (if rgRestoring g \<noteq> None then Some (restoreEntry a g) else None)"
| "attempt SessionReady g = (if \<not> rgOnline g \<and> rgRestoring g = None then Some (sessionReady g) else None)"

lemma drop_at_position: "drop k xs = x # post \<Longrightarrow> xs = take k xs @ x # post \<and> length (take k xs) = k"
  using append_take_drop_id [of k xs] by (cases "k < length xs") auto

lemma attempt_step: "attempt e g = Some g' \<Longrightarrow> registryStep g e g'"
proof (cases e)
  case (RequestSent k a)
  assume "attempt e g = Some g'"
  then obtain r post where d: "drop k (rgOps g) = (r, None) # post" and "rgOnline g"
    and "g' = g\<lparr>rgOps := take k (rgOps g) @ (r, Some a) # post, rgBroker := brokerHandles r a (rgBroker g)\<rparr>"
    using RequestSent by (auto split: list.splits option.splits prod.splits if_splits)
  then show ?thesis using RequestSent rg_sent [of g "take k (rgOps g)" r post a] drop_at_position [OF d] by simp
next
  case (AnswerArrived k)
  assume "attempt e g = Some g'"
  then obtain r a post where d: "drop k (rgOps g) = (r, Some a) # post"
    and "g' = requestSettled r a (g\<lparr>rgOps := take k (rgOps g) @ post\<rparr>)"
    using AnswerArrived by (auto split: list.splits option.splits prod.splits)
  then show ?thesis using AnswerArrived rg_answer [of g "take k (rgOps g)" r a post] drop_at_position [OF d] by simp
next
  case (AnswerLost k)
  assume "attempt e g = Some g'"
  then obtain r a post where d: "drop k (rgOps g) = (r, Some a) # post"
    and "g' = requestSettled r (WireError TimeoutError) (g\<lparr>rgOps := take k (rgOps g) @ post\<rparr>)"
    using AnswerLost by (auto split: list.splits option.splits prod.splits)
  then show ?thesis using AnswerLost rg_timeout [of g "take k (rgOps g)" r a post] drop_at_position [OF d] by simp
qed (auto intro: registryStep.intros split: if_splits)

fun attempts :: "'n registryEvent list \<Rightarrow> 'n registry \<Rightarrow> 'n registry option" where
  "attempts [] g = Some g"
| "attempts (e # es) g = (case attempt e g of None \<Rightarrow> None | Some g' \<Rightarrow> attempts es g')"

lemma attempts_run: "attempts es g = Some g' \<Longrightarrow> run registryStep g es g'"
  by (induction es arbitrary: g) (auto intro: run_none run_cons attempt_step split: option.splits)

text \<open>The facts that evaluate the operations on a concrete registry.\<close>

lemmas registry_eval = subscribe_def newRegistry_def addLocalSubscription_def stateFor_def addHandler_def
  flushPending_def nextGeneration_def Let_def subscribeSettled_def brokerHandles_def sessionLost_def
  unsubscribe_def dropHandler_def setPendingUnsubscribe_def restoreBegin_def restoreEntry_def installAll_def
  installState_def reindex_def unsubscribeSettled_def sessionReady_def isCurrentEmptyState_def
  flushNotifications_def mapDelete_def signalAborted_def signalFired_def

end
