(* ===== verification/RegistryInv.thy ===== *)
theory RegistryInv
  imports Registry
begin

text \<open>
  What the subscription registry guarantees as long as the session lasts: every registered handler
  is backed by a subscription of the broker. And what a reconnect can do to that.
\<close>

section \<open>The invariant\<close>

text \<open>The order in which the requests of a registry can be outstanding.\<close>

fun mayPrecede :: "wireRequest \<Rightarrow> wireRequest \<Rightarrow> bool" where
  "mayPrecede (WireSubscribe p) (WireSubscribe q) \<longleftrightarrow> p \<noteq> q"
| "mayPrecede (WireSubscribe p) (WireUnsubscribe t i q) \<longleftrightarrow> p \<noteq> q"
| "mayPrecede (WireUnsubscribe s i p) (WireUnsubscribe t j q) \<longleftrightarrow> s < t"
| "mayPrecede (WireUnsubscribe s i p) (WireSubscribe q) \<longleftrightarrow> True"

fun patternOf :: "wireRequest \<Rightarrow> jsstr" where
  "patternOf (WireSubscribe p) = p"
| "patternOf (WireUnsubscribe t i p) = p"

text \<open>The broker handles the requests for one pattern in their order.\<close>

definition handledInOrder :: "wireRequest \<times> wireAnswer option \<Rightarrow> wireRequest \<times> wireAnswer option \<Rightarrow> bool" where
  "handledInOrder x y \<longleftrightarrow> (snd x = None \<longrightarrow> patternOf (fst x) = patternOf (fst y) \<longrightarrow> snd y = None)"

definition requests :: "'n registry \<Rightarrow> wireRequest list" where
  "requests g = map fst (rgOps g)"

definition stateOf :: "'n registry \<Rightarrow> jsstr \<Rightarrow> nat option" where
  "stateOf g p = map_of (rgByPattern g) p"

abbreviation handlersOf :: "'n registry \<Rightarrow> nat \<Rightarrow> nat list" where
  "handlersOf g i \<equiv> ssHandlers (rgObjects g ! i)"

definition shapeInv :: "'n registry \<Rightarrow> bool" where
  "shapeInv g \<longleftrightarrow>
     (\<forall>p i. stateOf g p = Some i \<longrightarrow> i < length (rgObjects g)) \<and>
     (\<forall>p q i. stateOf g p = Some i \<longrightarrow> stateOf g q = Some i \<longrightarrow> p = q) \<and>
     sorted_wrt mayPrecede (requests g) \<and>
     (\<forall>t s i p q. WireUnsubscribe t i p \<in> set (requests g) \<longrightarrow> WireUnsubscribe s i q \<in> set (requests g) \<longrightarrow> p = q) \<and>
     sorted_wrt handledInOrder (rgOps g)"

text \<open>A pattern that is being subscribed has no state; its flight and its request go together, and no signal of a waiting call has aborted.\<close>

definition flightInv :: "'n registry \<Rightarrow> bool" where
  "flightInv g \<longleftrightarrow>
     (\<forall>p. WireSubscribe p \<in> set (requests g) \<longrightarrow> stateOf g p = None) \<and>
     (\<forall>p. map_of (rgFlights g) p \<noteq> None \<longleftrightarrow> WireSubscribe p \<in> set (requests g)) \<and>
     (\<forall>p s. (WireSubscribe p, Some (WireOk s)) \<in> set (rgOps g) \<longrightarrow> p \<in> set (rgBroker g)) \<and>
     (\<forall>p ws sig. map_of (rgFlights g) p = Some ws \<longrightarrow> sig \<in> set ws \<longrightarrow> \<not> signalAborted sig g)"

text \<open>A state with an unsubscribe outstanding has no handlers and knows the last one of them.\<close>

definition unsubInv :: "'n registry \<Rightarrow> bool" where
  "unsubInv g \<longleftrightarrow>
     (\<forall>t i p. WireUnsubscribe t i p \<in> set (requests g) \<longrightarrow>
        i < length (rgObjects g) \<and> t < rgTokens g \<and> handlersOf g i = [] \<and>
        (\<exists>s. ssPendingUnsubscribe (rgObjects g ! i) = Some s \<and> t \<le> s) \<and>
        (stateOf g p = Some i \<or> stateOf g p = None) \<and> (\<forall>q. stateOf g q = Some i \<longrightarrow> q = p))"

definition brokerInv :: "'n registry \<Rightarrow> bool" where
  "brokerInv g \<longleftrightarrow>
     (\<forall>p i. stateOf g p = Some i \<longrightarrow>
        (\<forall>t s. (WireUnsubscribe t i p, Some (WireOk s)) \<notin> set (rgOps g)) \<longrightarrow> p \<in> set (rgBroker g))"

definition registryInv :: "'n registry \<Rightarrow> bool" where
  "registryInv g \<longleftrightarrow> shapeInv g \<and> flightInv g \<and> unsubInv g \<and> brokerInv g \<and> rgOnline g \<and> rgRestoring g = None"

lemmas registry_inv_defs = registryInv_def shapeInv_def flightInv_def unsubInv_def brokerInv_def

lemma new_registry_inv: "registryInv newRegistry"
  by (simp add: registry_inv_defs newRegistry_def requests_def stateOf_def)

section \<open>Updates that the invariant does not see\<close>

lemma registryInv_quiet:
  "registryInv (g\<lparr>rgDelivered := d\<rparr>) = registryInv g"
  "registryInv (g\<lparr>rgPending := b\<rparr>) = registryInv g"
  "registryInv (g\<lparr>rgNextHandlerId := h\<rparr>) = registryInv g"
  "registryInv (g\<lparr>rgBySubId := m\<rparr>) = registryInv g"
  "registryInv (g\<lparr>rgGeneration := n\<rparr>) = registryInv g"
  by (simp_all add: registry_inv_defs requests_def stateOf_def signalAborted_def)

lemma flush_inv [simp]: "registryInv (flushPending i g) = registryInv g"
  by (simp add: flushPending_def registryInv_quiet split: prod.split)

lemma notified_inv: "registryInv g \<Longrightarrow> registryInv (notified i n g)"
  by (simp add: notified_def registryInv_quiet split: prod.split)

section \<open>Subscribing\<close>

text \<open>A handler is added to a state that no unsubscribe is outstanding for.\<close>

lemma addHandler_inv:
  assumes "registryInv g" and "i < length (rgObjects g)" and "\<forall>t p. WireUnsubscribe t i p \<notin> set (requests g)"
  shows "registryInv (addHandler i h g)"
proof -
  let ?g = "addHandler i h g"
  have same: "requests ?g = requests g" "stateOf ?g = stateOf g" "rgOps ?g = rgOps g" "rgBroker ?g = rgBroker g"
    "length (rgObjects ?g) = length (rgObjects g)" "rgFlights ?g = rgFlights g" "rgTokens ?g = rgTokens g"
    "rgOnline ?g = rgOnline g" "rgRestoring ?g = rgRestoring g" "signalAborted sig ?g = signalAborted sig g" for sig
    by (simp_all add: addHandler_def requests_def stateOf_def signalAborted_def fun_eq_iff)
  have obj: "j \<noteq> i \<Longrightarrow> rgObjects ?g ! j = rgObjects g ! j" for j
    by (simp add: addHandler_def)
  have "unsubInv ?g"
    unfolding unsubInv_def same
  proof (intro allI impI)
    fix t j p assume u: "WireUnsubscribe t j p \<in> set (requests g)"
    then have "j \<noteq> i" using assms(3) by auto
    then show "j < length (rgObjects g) \<and> t < rgTokens g \<and> handlersOf ?g j = [] \<and>
        (\<exists>s. ssPendingUnsubscribe (rgObjects ?g ! j) = Some s \<and> t \<le> s) \<and>
        (stateOf g p = Some j \<or> stateOf g p = None) \<and> (\<forall>q. stateOf g q = Some j \<longrightarrow> q = p)"
      using assms(1) u obj [of j] unfolding registryInv_def unsubInv_def by simp
  qed
  then show ?thesis
    using assms(1) unfolding registryInv_def shapeInv_def flightInv_def brokerInv_def same by blast
qed

lemma unsub_facts:
  assumes "registryInv g" and "WireUnsubscribe t i p \<in> set (requests g)"
  shows "i < length (rgObjects g)" "t < rgTokens g" "handlersOf g i = []"
    "\<exists>s. ssPendingUnsubscribe (rgObjects g ! i) = Some s \<and> t \<le> s"
    "stateOf g p = Some i \<or> stateOf g p = None" "\<forall>q. stateOf g q = Some i \<longrightarrow> q = p"
proof -
  have f: "i < length (rgObjects g) \<and> t < rgTokens g \<and> handlersOf g i = [] \<and>
      (\<exists>s. ssPendingUnsubscribe (rgObjects g ! i) = Some s \<and> t \<le> s) \<and>
      (stateOf g p = Some i \<or> stateOf g p = None) \<and> (\<forall>q. stateOf g q = Some i \<longrightarrow> q = p)"
    using assms by (simp add: registryInv_def unsubInv_def)
  then show "i < length (rgObjects g)" "t < rgTokens g" "handlersOf g i = []"
    "\<exists>s. ssPendingUnsubscribe (rgObjects g ! i) = Some s \<and> t \<le> s"
    "stateOf g p = Some i \<or> stateOf g p = None" "\<forall>q. stateOf g q = Some i \<longrightarrow> q = p"
    by simp_all
qed

lemma state_facts:
  assumes "registryInv g" and "stateOf g p = Some i"
  shows "i < length (rgObjects g)" "stateOf g q = Some i \<Longrightarrow> q = p" "WireSubscribe p \<notin> set (requests g)"
    "map_of (rgFlights g) p = None"
  using assms unfolding registryInv_def shapeInv_def flightInv_def by (blast, blast, fastforce, fastforce)

lemma flight_facts:
  assumes "registryInv g"
  shows "WireSubscribe p \<in> set (requests g) \<longleftrightarrow> map_of (rgFlights g) p \<noteq> None"
  using assms unfolding registryInv_def flightInv_def by blast

lemma no_unsub_without_pending:
  assumes "registryInv g" and "ssPendingUnsubscribe (rgObjects g ! i) = None"
  shows "WireUnsubscribe t i p \<notin> set (requests g)"
proof
  assume "WireUnsubscribe t i p \<in> set (requests g)"
  then have "\<exists>s. ssPendingUnsubscribe (rgObjects g ! i) = Some s"
    using assms(1) unfolding registryInv_def unsubInv_def by blast
  then show False using assms(2) by simp
qed

text \<open>A new state for a pattern the broker has subscribed.\<close>

lemma stateFor_inv:
  assumes "registryInv g" and "p \<in> set (rgBroker g)"
    and "\<forall>t i. WireUnsubscribe t i p \<notin> set (requests g)" and "WireSubscribe p \<notin> set (requests g)"
    and "stateFor p s g = (i, g')"
  shows "registryInv g' \<and> i < length (rgObjects g') \<and> (\<forall>t q. WireUnsubscribe t i q \<notin> set (requests g')) \<and>
    stateOf g' p = Some i \<and> rgOps g' = rgOps g \<and> rgBroker g' = rgBroker g"
proof (cases "stateOf g p")
  case (Some j)
  then have eq: "i = j" "g' = g" using assms(5) by (auto simp: stateFor_def stateOf_def)
  have "j < length (rgObjects g)"
    using assms(1) Some unfolding registryInv_def shapeInv_def by blast
  moreover have "WireUnsubscribe t j q \<notin> set (requests g)" for t q
  proof
    assume "WireUnsubscribe t j q \<in> set (requests g)"
    moreover from this have "p = q"
      using assms(1) Some unfolding registryInv_def unsubInv_def by blast
    ultimately show False using assms(3) by blast
  qed
  ultimately show ?thesis using assms(1) Some eq by simp
next
  case None
  then have eq: "i = length (rgObjects g)"
    "rgObjects g' = rgObjects g @ [\<lparr>ssSubId = s, ssHandlers = [], ssGeneration = rgGeneration g + 1, ssPendingUnsubscribe = None\<rparr>]"
    "requests g' = requests g" "rgOps g' = rgOps g" "rgBroker g' = rgBroker g" "rgFlights g' = rgFlights g"
    "rgTokens g' = rgTokens g" "rgOnline g' = rgOnline g" "rgRestoring g' = rgRestoring g"
    "stateOf g' = (stateOf g)(p \<mapsto> i)" "rgAborted g' = rgAborted g"
    using assms(5) by (auto simp: stateFor_def stateOf_def nextGeneration_def requests_def Let_def fun_eq_iff)
  have old: "j < length (rgObjects g)" if "stateOf g q = Some j" for q j
    using assms(1) that unfolding registryInv_def shapeInv_def by blast
  have oldops: "j < length (rgObjects g)" if "WireUnsubscribe t j q \<in> set (requests g)" for t j q
    using assms(1) that unfolding registryInv_def unsubInv_def by blast
  have "shapeInv g'"
    using assms(1) old less_SucI [OF old] unfolding registryInv_def shapeInv_def eq(10) eq(4) eq(3) eq(2) eq(1)
    by (auto split: if_splits)
  moreover have "flightInv g'"
    using assms(1,4) unfolding registryInv_def flightInv_def eq(3-6,10) by (auto simp: signalAborted_def eq(11) split: if_splits)
  moreover have "unsubInv g'"
    unfolding unsubInv_def eq(3,7)
  proof (intro allI impI)
    fix t j q assume u: "WireUnsubscribe t j q \<in> set (requests g)"
    then have "q \<noteq> p" using assms(3) by auto
    moreover have "j < length (rgObjects g)" using oldops u .
    ultimately show "j < length (rgObjects g') \<and> t < rgTokens g \<and> handlersOf g' j = [] \<and>
        (\<exists>s. ssPendingUnsubscribe (rgObjects g' ! j) = Some s \<and> t \<le> s) \<and>
        (stateOf g' q = Some j \<or> stateOf g' q = None) \<and> (\<forall>r. stateOf g' r = Some j \<longrightarrow> r = q)"
      using unsub_facts [OF assms(1) u] by (auto simp: eq(1,2,10) nth_append less_SucI)
  qed
  moreover have "brokerInv g'"
    using assms(1,2) unfolding registryInv_def brokerInv_def eq(4,5,10) by (auto split: if_splits)
  moreover have "WireUnsubscribe t i q \<notin> set (requests g')" for t q
    using oldops unfolding eq(1,3) by blast
  ultimately show ?thesis using assms(1) eq unfolding registryInv_def by simp
qed


lemma addHandler_simps [simp]:
  "requests (addHandler i h g) = requests g" "stateOf (addHandler i h g) = stateOf g"
  "rgBroker (addHandler i h g) = rgBroker g" "rgOps (addHandler i h g) = rgOps g" "rgAborted (addHandler i h g) = rgAborted g"
  by (simp_all add: addHandler_def requests_def stateOf_def fun_eq_iff)

lemma flushPending_simps [simp]:
  "requests (flushPending s g) = requests g" "stateOf (flushPending s g) = stateOf g"
  "rgBroker (flushPending s g) = rgBroker g" "rgOps (flushPending s g) = rgOps g" "rgAborted (flushPending s g) = rgAborted g"
  by (simp_all add: flushPending_def requests_def stateOf_def fun_eq_iff split: prod.split)

lemma next_handler_simps [simp]:
  "requests (g\<lparr>rgNextHandlerId := h\<rparr>) = requests g" "stateOf (g\<lparr>rgNextHandlerId := h\<rparr>) = stateOf g"
  by (simp_all add: requests_def stateOf_def fun_eq_iff)

lemma addLocal_inv:
  assumes "registryInv g" and "p \<in> set (rgBroker g)"
    and "\<forall>t i. WireUnsubscribe t i p \<notin> set (requests g)" and "WireSubscribe p \<notin> set (requests g)"
    and "\<not> signalAborted sig g" and "addLocalSubscription p s sig g = (h, g')"
  shows "registryInv g' \<and> rgOps g' = rgOps g \<and> rgBroker g' = rgBroker g \<and> rgAborted g' = rgAborted g"
proof -
  obtain i g1 where g1: "stateFor p s (g\<lparr>rgNextHandlerId := rgNextHandlerId g + 1\<rparr>) = (i, g1)"
    by fastforce
  have "registryInv g1 \<and> i < length (rgObjects g1) \<and> (\<forall>t q. WireUnsubscribe t i q \<notin> set (requests g1)) \<and>
      rgOps g1 = rgOps g \<and> rgBroker g1 = rgBroker g"
    using stateFor_inv [OF _ _ _ _ g1] assms(1-4) by (simp add: registryInv_quiet)
  moreover have a: "rgAborted g1 = rgAborted g"
    using g1 by (auto simp: stateFor_def nextGeneration_def Let_def split: option.splits)
  moreover have "\<not> signalAborted sig g1" using assms(5) a by (simp add: signalAborted_def split: option.splits)
  ultimately show ?thesis
    using assms(6) g1 addHandler_inv [of g1 i "rgNextHandlerId g"] by (auto simp: addLocalSubscription_def Let_def)
qed

lemma request_in_ops: "(r, a) \<in> set (rgOps g) \<Longrightarrow> r \<in> set (requests g)"
  unfolding requests_def using image_eqI [of r fst "(r, a)" "set (rgOps g)"] by simp

text \<open>A subscribe request joins the queue together with its flight.\<close>

lemma add_request:
  assumes "registryInv g" and "sorted_wrt mayPrecede (requests g @ [WireSubscribe p])" and "stateOf g p = None" and "\<not> signalAborted sig g"
  shows "registryInv (g\<lparr>rgFlights := mapSet p [sig] (rgFlights g), rgOps := rgOps g @ [(WireSubscribe p, None)]\<rparr>)"
proof -
  let ?g = "g\<lparr>rgFlights := mapSet p [sig] (rgFlights g), rgOps := rgOps g @ [(WireSubscribe p, None)]\<rparr>"
  have eq: "requests ?g = requests g @ [WireSubscribe p]" "stateOf ?g = stateOf g"
    by (simp_all add: requests_def stateOf_def fun_eq_iff)
  have "shapeInv ?g"
    using assms(1,2) unfolding registryInv_def shapeInv_def eq by (simp add: sorted_wrt_append handledInOrder_def)
  moreover have "flightInv ?g"
    using assms(1,3,4) unfolding registryInv_def flightInv_def eq by (simp add: signalAborted_def)
  moreover have "unsubInv ?g"
    using assms(1) unfolding registryInv_def unsubInv_def eq by simp
  moreover have "brokerInv ?g"
    using assms(1) unfolding registryInv_def brokerInv_def eq by simp
  ultimately show ?thesis using assms(1) unfolding registryInv_def by simp
qed

lemma subscribe_inv:
  assumes "registryInv g" and live: "\<not> signalAborted sig g"
  shows "registryInv (snd (subscribe p sig g))"
proof (cases "stateOf g p")
  case (Some i)
  show ?thesis
  proof (cases "ssPendingUnsubscribe (rgObjects g ! i)")
    case None
    have no: "WireUnsubscribe t j p \<notin> set (requests g)" for t j
      using unsub_facts(5) [OF assms(1), of t j p] no_unsub_without_pending [OF assms(1) None] Some by auto
    then have "(WireUnsubscribe t i p, a) \<notin> set (rgOps g)" for t a
      using request_in_ops by blast
    then have "p \<in> set (rgBroker g)"
      using assms(1) Some unfolding registryInv_def brokerInv_def by blast
    then show ?thesis
      using addLocal_inv [OF assms(1) _ _ state_facts(3) [OF assms(1) Some] live] no Some None
      by (auto simp: subscribe_def stateOf_def split: prod.split)
  qed (use Some assms in \<open>simp add: subscribe_def stateOf_def\<close>)
next
  case None
  show ?thesis
  proof (cases "map_of (rgFlights g) p")
    case (Some ws)
    let ?g = "g\<lparr>rgFlights := mapSet p (ws @ [sig]) (rgFlights g)\<rparr>"
    have "WireSubscribe p \<in> set (requests g)"
      using flight_facts [OF assms(1)] Some by simp
    then have "registryInv ?g"
      using assms Some by (auto simp: registry_inv_defs requests_def stateOf_def signalAborted_def)
    then show ?thesis using None Some by (simp add: subscribe_def stateOf_def)
  next
    case no: None
    let ?g = "g\<lparr>rgFlights := mapSet p [sig] (rgFlights g), rgOps := rgOps g @ [(WireSubscribe p, None)]\<rparr>"
    have fresh: "WireSubscribe p \<notin> set (requests g)"
      using flight_facts [OF assms(1)] no by simp
    have "mayPrecede r (WireSubscribe p)" if "r \<in> set (requests g)" for r
      by (rule wireRequest.exhaust [of r]) (use that fresh in auto)
    then have "sorted_wrt mayPrecede (requests g @ [WireSubscribe p])"
      using assms(1) unfolding registryInv_def shapeInv_def by (simp add: sorted_wrt_append)
    then have "registryInv ?g"
      using add_request [OF assms(1) _ None live] by simp
    then show ?thesis using None no by (simp add: subscribe_def stateOf_def)
  qed
qed


section \<open>Unsubscribing\<close>

text \<open>Changing one object of the list.\<close>

lemma object_upd: "i < length xs \<Longrightarrow> (xs[i := x]) ! j = (if j = i then x else xs ! j)"
  by (simp add: nth_list_update)

lemma dropHandler_simps:
  assumes "i < length (rgObjects g)"
  shows "requests (dropHandler i h g) = requests g" "stateOf (dropHandler i h g) = stateOf g"
    "rgBroker (dropHandler i h g) = rgBroker g" "rgOps (dropHandler i h g) = rgOps g"
    "rgTokens (dropHandler i h g) = rgTokens g" "rgFlights (dropHandler i h g) = rgFlights g"
    "length (rgObjects (dropHandler i h g)) = length (rgObjects g)"
    "rgOnline (dropHandler i h g) = rgOnline g" "rgRestoring (dropHandler i h g) = rgRestoring g"
    "signalAborted sig (dropHandler i h g) = signalAborted sig g"
    "ssPendingUnsubscribe (rgObjects (dropHandler i h g) ! j) = ssPendingUnsubscribe (rgObjects g ! j)"
    "handlersOf (dropHandler i h g) j = (if j = i then removeAll h (handlersOf g i) else handlersOf g j)"
  using assms by (simp_all add: dropHandler_def requests_def stateOf_def signalAborted_def fun_eq_iff object_upd)

lemma dropHandler_inv:
  assumes "registryInv g" and "i < length (rgObjects g)"
  shows "registryInv (dropHandler i h g)"
proof -
  note eq = dropHandler_simps [OF assms(2), where h = h]
  have "unsubInv (dropHandler i h g)"
    unfolding unsubInv_def eq
  proof (intro allI impI)
    fix t j p assume u: "WireUnsubscribe t j p \<in> set (requests g)"
    show "j < length (rgObjects g) \<and> t < rgTokens g \<and>
        (if j = i then removeAll h (handlersOf g i) else handlersOf g j) = [] \<and>
        (\<exists>s. ssPendingUnsubscribe (rgObjects g ! j) = Some s \<and> t \<le> s) \<and>
        (stateOf g p = Some j \<or> stateOf g p = None) \<and> (\<forall>q. stateOf g q = Some j \<longrightarrow> q = p)"
      using unsub_facts [OF assms(1) u] by auto
  qed
  then show ?thesis
    using assms(1) unfolding registryInv_def shapeInv_def flightInv_def brokerInv_def eq by blast
qed

lemma request_unsubscribe_inv:
  assumes "registryInv g" and "stateOf g p = Some i" and "handlersOf g i = []"
  shows "registryInv ((setPendingUnsubscribe i (Some (rgTokens g)) g)
    \<lparr>rgOps := rgOps g @ [(WireUnsubscribe (rgTokens g) i p, None)], rgTokens := rgTokens g + 1\<rparr>)"
proof -
  let ?g = "(setPendingUnsubscribe i (Some (rgTokens g)) g)
    \<lparr>rgOps := rgOps g @ [(WireUnsubscribe (rgTokens g) i p, None)], rgTokens := rgTokens g + 1\<rparr>"
  have i: "i < length (rgObjects g)" using state_facts(1) [OF assms(1,2)] .
  have eq: "requests ?g = requests g @ [WireUnsubscribe (rgTokens g) i p]" "stateOf ?g = stateOf g"
    "rgTokens ?g = Suc (rgTokens g)" "length (rgObjects ?g) = length (rgObjects g)"
    by (simp_all add: setPendingUnsubscribe_def requests_def stateOf_def fun_eq_iff)
  have obj: "handlersOf ?g j = handlersOf g j"
    "ssPendingUnsubscribe (rgObjects ?g ! j) = (if j = i then Some (rgTokens g) else ssPendingUnsubscribe (rgObjects g ! j))" for j
    using i by (simp_all add: setPendingUnsubscribe_def object_upd)
  have "mayPrecede r (WireUnsubscribe (rgTokens g) i p)" if "r \<in> set (requests g)" for r
  proof (cases r)
    case (WireSubscribe q)
    then show ?thesis using state_facts(3) [OF assms(1,2)] that by auto
  next
    case (WireUnsubscribe t j q)
    then show ?thesis using unsub_facts(2) [OF assms(1)] that by auto
  qed
  moreover have "q = p" if "WireUnsubscribe t i q \<in> set (requests g)" for t q
    using unsub_facts(6) [OF assms(1) that] assms(2) by blast
  ultimately have "shapeInv ?g"
    using assms(1) unfolding registryInv_def shapeInv_def eq
    by (auto simp: sorted_wrt_append handledInOrder_def setPendingUnsubscribe_def)
  moreover have "flightInv ?g"
    using assms(1) unfolding registryInv_def flightInv_def eq by (simp add: setPendingUnsubscribe_def signalAborted_def)
  moreover have "unsubInv ?g"
    unfolding unsubInv_def eq obj
  proof (intro allI impI)
    fix t j q assume "WireUnsubscribe t j q \<in> set (requests g @ [WireUnsubscribe (rgTokens g) i p])"
    then consider "WireUnsubscribe t j q \<in> set (requests g)" | "t = rgTokens g" "j = i" "q = p" by auto
    then show "j < length (rgObjects g) \<and> t < Suc (rgTokens g) \<and> handlersOf g j = [] \<and>
        (\<exists>s. (if j = i then Some (rgTokens g) else ssPendingUnsubscribe (rgObjects g ! j)) = Some s \<and> t \<le> s) \<and>
        (stateOf g q = Some j \<or> stateOf g q = None) \<and> (\<forall>r. stateOf g r = Some j \<longrightarrow> r = q)"
    proof cases
      case 1
      note f = unsub_facts [OF assms(1) 1]
      obtain s where s: "ssPendingUnsubscribe (rgObjects g ! j) = Some s" "t \<le> s" using f(4) by blast
      have "\<exists>s. (if j = i then Some (rgTokens g) else ssPendingUnsubscribe (rgObjects g ! j)) = Some s \<and> t \<le> s"
        using s less_imp_le [OF f(2)] by (cases "j = i") simp_all
      then show ?thesis using f(1,3,5,6) less_SucI [OF f(2)] by blast
    next
      case 2
      show ?thesis
        unfolding 2
      proof (intro conjI)
        show "\<exists>s. (if i = i then Some (rgTokens g) else ssPendingUnsubscribe (rgObjects g ! i)) = Some s \<and> rgTokens g \<le> s"
          by simp
        show "\<forall>r. stateOf g r = Some i \<longrightarrow> r = p" using state_facts(2) [OF assms(1,2)] by blast
      qed (use assms(2,3) i in simp_all)
    qed
  qed
  moreover have "brokerInv ?g"
    using assms(1) unfolding registryInv_def brokerInv_def eq by (simp add: setPendingUnsubscribe_def)
  ultimately show ?thesis using assms(1) unfolding registryInv_def by (simp add: setPendingUnsubscribe_def)
qed

lemma unsubscribe_inv:
  assumes "registryInv g"
  shows "registryInv (unsubscribe p h g)"
proof (cases "stateOf g p")
  case (Some i)
  note i = state_facts(1) [OF assms Some] and eq = dropHandler_simps [OF state_facts(1) [OF assms Some], where h = h]
  have inv: "registryInv (dropHandler i h g)" using dropHandler_inv [OF assms i] .
  have "stateOf (dropHandler i h g) p = Some i" using Some eq(2) by simp
  then show ?thesis
    using request_unsubscribe_inv [OF inv] inv Some by (auto simp: unsubscribe_def stateOf_def Let_def)
qed (use assms in \<open>simp add: unsubscribe_def stateOf_def\<close>)


section \<open>The broker handles a request\<close>

lemma unanswered_after:
  assumes "registryInv g" and "rgOps g = pre @ (r, None) # post" and "x \<in> set post" and "patternOf (fst x) = patternOf r"
  shows "snd x = None"
  using assms unfolding registryInv_def shapeInv_def handledInOrder_def by (auto simp: sorted_wrt_append)

text \<open>No unsubscribe of a pattern comes after its subscribe request.\<close>

lemma subscribe_comes_last:
  assumes "registryInv g" and "rgOps g = pre @ (WireUnsubscribe t i p, b) # post"
  shows "(WireSubscribe p, c) \<notin> set pre"
proof
  assume "(WireSubscribe p, c) \<in> set pre"
  then have "WireSubscribe p \<in> set (map fst pre)" using image_eqI [of _ fst "(WireSubscribe p, c)" "set pre"] by simp
  moreover have "\<forall>x \<in> set (map fst pre). mayPrecede x (WireUnsubscribe t i p)"
    using assms unfolding registryInv_def shapeInv_def requests_def by (simp add: sorted_wrt_append)
  ultimately have "mayPrecede (WireSubscribe p) (WireUnsubscribe t i p)" by blast
  then show False by simp
qed

lemma sent_inv:
  assumes "registryInv g" and ops: "rgOps g = pre @ (r, None) # post" and answered: "\<forall>x \<in> set pre. snd x = None \<longrightarrow> patternOf (fst x) \<noteq> patternOf r"
  shows "registryInv (g\<lparr>rgOps := pre @ (r, Some a) # post, rgBroker := brokerHandles r a (rgBroker g)\<rparr>)"
proof -
  let ?g = "g\<lparr>rgOps := pre @ (r, Some a) # post, rgBroker := brokerHandles r a (rgBroker g)\<rparr>"
  have eq: "requests ?g = requests g" "stateOf ?g = stateOf g" "rgObjects ?g = rgObjects g"
    "rgTokens ?g = rgTokens g" "rgFlights ?g = rgFlights g"
    "signalAborted sig ?g = signalAborted sig g" for sig
    by (simp_all add: requests_def stateOf_def signalAborted_def ops fun_eq_iff)
  have keep: "(x, Some y) \<in> set pre \<or> (x, Some y) \<in> set post \<and> patternOf x \<noteq> patternOf r"
    if "(x, Some y) \<in> set (rgOps ?g)" "(x, Some y) \<noteq> (r, Some a)" for x y
    using that unanswered_after [OF assms(1) ops, of "(x, Some y)"] by auto
  have broker: "p \<in> set (rgBroker ?g)"
    if "p \<in> set (rgBroker g)" and "\<And>t i s. (r, a) \<noteq> (WireUnsubscribe t i p, WireOk s)" for p
    using that by (cases r; cases a) (auto simp: brokerHandles_def)
  have "shapeInv ?g"
    using assms(1) unanswered_after [OF assms(1) ops] answered unfolding registryInv_def shapeInv_def eq
    by (auto simp: ops sorted_wrt_append handledInOrder_def)
  moreover have "p \<in> set (rgBroker ?g)" if ok: "(WireSubscribe p, Some (WireOk s)) \<in> set (rgOps ?g)" for p s
  proof (cases "(WireSubscribe p, Some (WireOk s)) = (r, Some a)")
    case True
    then show ?thesis by (auto simp: brokerHandles_def)
  next
    case False
    note old = keep [OF ok False]
    then have "p \<in> set (rgBroker g)"
      using assms(1) ops unfolding registryInv_def flightInv_def by auto
    moreover have "(r, a) \<noteq> (WireUnsubscribe t i p, WireOk u)" for t i u
      using subscribe_comes_last [OF assms(1), of pre t i p None post] ops old by auto
    ultimately show ?thesis by (rule broker)
  qed
  then have "flightInv ?g"
    using assms(1) unfolding registryInv_def flightInv_def eq by blast
  moreover have "unsubInv g" using assms(1) unfolding registryInv_def by blast
  then have "unsubInv ?g" unfolding unsubInv_def eq .
  moreover have "brokerInv ?g"
    unfolding brokerInv_def eq
  proof (intro allI impI)
    fix p i assume st: "stateOf g p = Some i" and none: "\<forall>t s. (WireUnsubscribe t i p, Some (WireOk s)) \<notin> set (rgOps ?g)"
    have "\<forall>t s. (WireUnsubscribe t i p, Some (WireOk s)) \<notin> set (rgOps g)"
      using none by (auto simp: ops)
    then have "p \<in> set (rgBroker g)"
      using assms(1) st unfolding registryInv_def brokerInv_def by blast
    moreover have "(r, a) \<noteq> (WireUnsubscribe t j p, WireOk u)" for t j u
    proof
      assume ra: "(r, a) = (WireUnsubscribe t j p, WireOk u)"
      then have "WireUnsubscribe t j p \<in> set (requests g)" by (auto simp: requests_def ops)
      then have "j = i" using unsub_facts(5) [OF assms(1)] st by fastforce
      then show False using none ra by auto
    qed
    ultimately show "p \<in> set (rgBroker ?g)" by (rule broker)
  qed
  ultimately show ?thesis using assms(1) unfolding registryInv_def by simp
qed

section \<open>An answer arrives\<close>

lemma answered_request:
  assumes "registryInv g" and ops: "rgOps g = pre @ (r, a) # post"
  shows "requests g = map fst pre @ r # map fst post" "r \<notin> fst ` set (pre @ post)" "\<forall>x \<in> fst ` set post. mayPrecede r x"
    "sorted_wrt mayPrecede (map fst (pre @ post))" "sorted_wrt handledInOrder (pre @ post)"
    "WireUnsubscribe t i p \<in> set (requests g) \<Longrightarrow> WireUnsubscribe s i q \<in> set (requests g) \<Longrightarrow> p = q"
proof -
  show req: "requests g = map fst pre @ r # map fst post" by (simp add: requests_def ops)
  have sorted: "sorted_wrt mayPrecede (map fst pre @ r # map fst post)" "sorted_wrt handledInOrder (rgOps g)"
    using assms(1) req unfolding registryInv_def shapeInv_def by simp_all
  show after: "\<forall>x \<in> fst ` set post. mayPrecede r x" and "sorted_wrt mayPrecede (map fst (pre @ post))"
    "sorted_wrt handledInOrder (pre @ post)"
    using sorted by (simp_all add: ops sorted_wrt_append)
  have "\<forall>x \<in> fst ` set pre. mayPrecede x r" using sorted(1) by (simp add: sorted_wrt_append)
  moreover have "\<not> mayPrecede r r" by (cases r) simp_all
  ultimately show "r \<notin> fst ` set (pre @ post)" using after by auto
  show "WireUnsubscribe t i p \<in> set (requests g) \<Longrightarrow> WireUnsubscribe s i q \<in> set (requests g) \<Longrightarrow> p = q"
    using assms(1) unfolding registryInv_def shapeInv_def by blast
qed

lemma forget_state:
  fixes h :: "'n registry" and p x y
  assumes "shapeInv h" and "flightInv h" and "unsubInv h"
  defines "k \<equiv> h\<lparr>rgByPattern := mapDelete p (rgByPattern h), rgBySubId := x, rgPending := y\<rparr>"
  shows "shapeInv k \<and> flightInv k \<and> unsubInv k" and "stateOf k = (stateOf h)(p := None)"
proof -
  have eq: "requests k = requests h" "rgOps k = rgOps h" "rgBroker k = rgBroker h" "rgObjects k = rgObjects h"
    "rgTokens k = rgTokens h" "rgFlights k = rgFlights h" "signalAborted sig k = signalAborted sig h" for sig
    by (simp_all add: k_def requests_def signalAborted_def)
  show st: "stateOf k = (stateOf h)(p := None)"
    by (simp add: k_def stateOf_def fun_eq_iff)
  have sub: "stateOf k q = Some j \<Longrightarrow> stateOf h q = Some j" for q j
    by (simp add: st split: if_splits)
  have "shapeInv k"
    using assms(1) sub unfolding shapeInv_def eq by blast
  moreover have "flightInv k"
    using assms(2) unfolding flightInv_def eq st by simp
  moreover have "unsubInv k"
    unfolding unsubInv_def eq
  proof (intro allI impI)
    fix t j q assume "WireUnsubscribe t j q \<in> set (requests h)"
    then have f: "j < length (rgObjects h) \<and> t < rgTokens h \<and> handlersOf h j = [] \<and>
        (\<exists>s. ssPendingUnsubscribe (rgObjects h ! j) = Some s \<and> t \<le> s) \<and>
        (stateOf h q = Some j \<or> stateOf h q = None) \<and> (\<forall>r. stateOf h r = Some j \<longrightarrow> r = q)"
      using assms(3) by (simp add: unsubInv_def)
    moreover from f have "stateOf k q = Some j \<or> stateOf k q = None" by (auto simp: st)
    ultimately show "j < length (rgObjects h) \<and> t < rgTokens h \<and> handlersOf h j = [] \<and>
        (\<exists>s. ssPendingUnsubscribe (rgObjects h ! j) = Some s \<and> t \<le> s) \<and>
        (stateOf k q = Some j \<or> stateOf k q = None) \<and> (\<forall>r. stateOf k r = Some j \<longrightarrow> r = q)"
      using sub by blast
  qed
  ultimately show "shapeInv k \<and> flightInv k \<and> unsubInv k" by blast
qed

text \<open>The answer to an unsubscribe: the pending mark goes with the last request for the state.\<close>

lemma unsubscribe_answer_inv:
  assumes inv: "registryInv g" and ops: "rgOps g = pre @ (WireUnsubscribe t i p, Some a) # post"
    and turn: "\<forall>x \<in> set pre. patternOf (fst x) \<noteq> p"
  shows "registryInv (unsubscribeSettled t i p a (g\<lparr>rgOps := pre @ post\<rparr>))"
proof -
  define rest where "rest = pre @ post"
  have known: "(x, b) \<in> set (rgOps g) \<longleftrightarrow> (x, b) = (WireUnsubscribe t i p, Some a) \<or> (x, b) \<in> set rest" for x b
    by (auto simp: ops rest_def)
  note first = answered_request [OF inv ops, folded rest_def]
  have req: "set (requests g) = insert (WireUnsubscribe t i p) (fst ` set rest)" by (auto simp: first(1) rest_def)
  have u: "WireUnsubscribe t i p \<in> set (requests g)" by (simp add: first(1))
  note f = unsub_facts [OF inv u]
  let ?h = "if ssPendingUnsubscribe (rgObjects g ! i) = Some t then setPendingUnsubscribe i None (g\<lparr>rgOps := rest\<rparr>)
    else g\<lparr>rgOps := rest\<rparr>"
  have eq: "requests ?h = map fst rest" "stateOf ?h = stateOf g" "rgOps ?h = rest" "rgBroker ?h = rgBroker g"
    "rgTokens ?h = rgTokens g" "rgFlights ?h = rgFlights g" "length (rgObjects ?h) = length (rgObjects g)"
    "rgOnline ?h = rgOnline g" "rgRestoring ?h = rgRestoring g" "rgByPattern ?h = rgByPattern g"
    "signalAborted sig ?h = signalAborted sig g" for sig
    by (simp_all add: setPendingUnsubscribe_def requests_def stateOf_def signalAborted_def fun_eq_iff)
  have obj: "handlersOf ?h j = handlersOf g j"
    "ssPendingUnsubscribe (rgObjects ?h ! j) =
      (if j = i \<and> ssPendingUnsubscribe (rgObjects g ! i) = Some t then None else ssPendingUnsubscribe (rgObjects g ! j))" for j
    using f(1) by (simp_all add: setPendingUnsubscribe_def object_upd)
  have shape: "shapeInv ?h"
    using inv first(4,5) unfolding registryInv_def shapeInv_def eq req by simp
  have flight: "flightInv ?h"
    using inv unfolding registryInv_def flightInv_def eq req known by simp
  have unsub: "unsubInv ?h"
    unfolding unsubInv_def eq obj
  proof (intro allI impI)
    fix s j q assume s: "WireUnsubscribe s j q \<in> set (map fst rest)"
    then have u': "WireUnsubscribe s j q \<in> set (requests g)" by (simp add: req)
    note f' = unsub_facts [OF inv u']
    obtain v where v: "ssPendingUnsubscribe (rgObjects g ! j) = Some v" "s \<le> v" using f'(4) by blast
    have "t < s" if "j = i"
    proof -
      have "q = p" using first(6) u u' that by blast
      then have "WireUnsubscribe s j q \<notin> fst ` set pre" using turn by force
      then have "WireUnsubscribe s j q \<in> fst ` set post" using s by (auto simp: rest_def)
      then show ?thesis using first(3) by fastforce
    qed
    then have "\<exists>v. (if j = i \<and> ssPendingUnsubscribe (rgObjects g ! i) = Some t then None
        else ssPendingUnsubscribe (rgObjects g ! j)) = Some v \<and> s \<le> v"
      using v by auto
    then show "j < length (rgObjects g) \<and> s < rgTokens g \<and> handlersOf g j = [] \<and>
        (\<exists>v. (if j = i \<and> ssPendingUnsubscribe (rgObjects g ! i) = Some t then None
          else ssPendingUnsubscribe (rgObjects g ! j)) = Some v \<and> s \<le> v) \<and>
        (stateOf g q = Some j \<or> stateOf g q = None) \<and> (\<forall>r. stateOf g r = Some j \<longrightarrow> r = q)"
      using f' by blast
  qed
  have others: "q \<in> set (rgBroker g)"
    if "stateOf g q = Some j" and "\<forall>s v. (WireUnsubscribe s j q, Some (WireOk v)) \<notin> set rest"
      and "(j, q) \<noteq> (i, p) \<or> (\<forall>v. a \<noteq> WireOk v)" for q j
  proof -
    have "\<forall>s v. (WireUnsubscribe s j q, Some (WireOk v)) \<notin> set (rgOps g)"
      using that(2,3) by (auto simp: known)
    then show ?thesis using inv that(1) unfolding registryInv_def brokerInv_def by blast
  qed
  show ?thesis
  proof (cases a)
    case (WireError e)
    then have "brokerInv ?h" unfolding brokerInv_def eq using others by blast
    then have "registryInv ?h"
      using inv shape flight unsub unfolding registryInv_def eq by blast
    then show ?thesis by (simp add: unsubscribeSettled_def WireError Let_def rest_def [symmetric])
  next
    case (WireOk v)
    let ?s = "ssSubId (rgObjects ?h ! i)"
    let ?k = "?h\<lparr>rgByPattern := mapDelete p (rgByPattern ?h), rgBySubId := mapDelete ?s (rgBySubId ?h),
        rgPending := removeNotifications ?s (rgPending ?h)\<rparr>"
    show ?thesis
    proof (cases "stateOf g p = Some i")
      case True
      have k: "shapeInv ?k" "flightInv ?k" "unsubInv ?k" "stateOf ?k = (stateOf g)(p := None)"
        using forget_state [OF shape flight unsub] eq(2) by simp_all
      have "brokerInv ?k"
        unfolding brokerInv_def k(4)
      proof (intro allI impI)
        fix q j assume q: "((stateOf g)(p := None)) q = Some j"
          and none: "\<forall>s v. (WireUnsubscribe s j q, Some (WireOk v)) \<notin> set (rgOps ?k)"
        have "q \<in> set (rgBroker g)"
          using others [of q j] q none eq(3) by (simp split: if_splits)
        then show "q \<in> set (rgBroker ?k)" using eq(4) by simp
      qed
      moreover have "rgOnline ?k \<and> rgRestoring ?k = None"
        using inv eq(8,9) unfolding registryInv_def by simp
      ultimately have "registryInv ?k" using k unfolding registryInv_def by blast
      then show ?thesis
        using True f(3) obj(1) [of i] eq(10) by (simp add: unsubscribeSettled_def WireOk Let_def isCurrentEmptyState_def stateOf_def rest_def [symmetric])
    next
      case False
      then have "brokerInv ?h" unfolding brokerInv_def eq using others by blast
      then have "registryInv ?h"
        using inv shape flight unsub unfolding registryInv_def eq by blast
      then show ?thesis
        using False by (simp add: unsubscribeSettled_def WireOk Let_def isCurrentEmptyState_def eq stateOf_def rest_def [symmetric])
    qed
  qed
qed


text \<open>The answer to a subscribe: every call that shares the flight gets its handler.\<close>

lemma add_many:
  assumes "registryInv g" and "p \<in> set (rgBroker g)" and "\<forall>t i. WireUnsubscribe t i p \<notin> set (requests g)"
    and "WireSubscribe p \<notin> set (requests g)" and "\<forall>sig \<in> set ws. \<not> signalAborted sig g"
  shows "registryInv (fold (\<lambda>sig g. snd (addLocalSubscription p s sig g)) ws g)"
  using assms
proof (induction ws arbitrary: g)
  case (Cons sig ws)
  obtain h g' where g': "addLocalSubscription p s sig g = (h, g')" by fastforce
  have added: "registryInv g' \<and> rgOps g' = rgOps g \<and> rgBroker g' = rgBroker g \<and> rgAborted g' = rgAborted g"
    using addLocal_inv [OF Cons.prems(1-4) _ g'] Cons.prems(5) by simp
  then have "requests g' = requests g" by (simp add: requests_def)
  then have "registryInv (fold (\<lambda>sig g. snd (addLocalSubscription p s sig g)) ws g')"
    using added Cons.prems by (intro Cons.IH) (simp_all add: signalAborted_def)
  then show ?case using g' by simp
qed simp

lemma subscribe_answer_inv:
  assumes inv: "registryInv g" and ops: "rgOps g = pre @ (WireSubscribe p, Some a) # post"
    and turn: "\<forall>x \<in> set pre. patternOf (fst x) \<noteq> p"
  shows "registryInv (subscribeSettled p a (g\<lparr>rgOps := pre @ post\<rparr>))"
proof -
  define rest where "rest = pre @ post"
  have known: "(x, b) \<in> set (rgOps g) \<longleftrightarrow> (x, b) = (WireSubscribe p, Some a) \<or> (x, b) \<in> set rest" for x b
    by (auto simp: ops rest_def)
  note first = answered_request [OF inv ops, folded rest_def]
  have req: "set (requests g) = insert (WireSubscribe p) (fst ` set rest)" by (auto simp: first(1) rest_def)
  let ?h = "g\<lparr>rgOps := rest, rgFlights := mapDelete p (rgFlights g)\<rparr>"
  have eq: "requests ?h = map fst rest" "stateOf ?h = stateOf g" "rgObjects ?h = rgObjects g" "rgBroker ?h = rgBroker g"
    "signalAborted sig ?h = signalAborted sig g" for sig
    by (simp_all add: requests_def stateOf_def signalAborted_def fun_eq_iff)
  have "shapeInv ?h"
    using inv first(4,5) unfolding registryInv_def shapeInv_def eq req by simp
  moreover have "flightInv ?h"
    using inv first(2) unfolding registryInv_def flightInv_def eq req known by auto
  moreover have "unsubInv ?h"
    using inv unfolding registryInv_def unsubInv_def eq req by simp
  moreover have "brokerInv ?h"
    using inv unfolding registryInv_def brokerInv_def eq known by simp
  ultimately have h: "registryInv ?h" using inv unfolding registryInv_def by simp
  show ?thesis
  proof (cases a)
    case (WireOk s)
    have "p \<in> set (rgBroker ?h)"
      using inv WireOk unfolding registryInv_def flightInv_def known by auto
    moreover have "\<forall>t i. WireUnsubscribe t i p \<notin> set (requests ?h)"
    proof (intro allI notI)
      fix t i assume "WireUnsubscribe t i p \<in> set (requests ?h)"
      then consider "WireUnsubscribe t i p \<in> fst ` set pre" | "WireUnsubscribe t i p \<in> fst ` set post"
        unfolding eq by (auto simp: rest_def)
      then show False
      proof cases
        case 1
        then show False using turn by force
      next
        case 2
        then show False using first(3) by fastforce
      qed
    qed
    moreover have "WireSubscribe p \<notin> set (requests ?h)"
      using first(2) unfolding eq by simp
    moreover have "\<not> signalAborted sig ?h" if "map_of (rgFlights g) p = Some ws" "sig \<in> set ws" for ws sig
      using inv that unfolding eq registryInv_def flightInv_def by blast
    ultimately show ?thesis
      using add_many [OF h, where p = p and s = s] h by (simp add: subscribeSettled_def WireOk Let_def rest_def [symmetric] split: option.split)
  qed (use h in \<open>simp add: subscribeSettled_def rest_def [symmetric]\<close>)
qed

section \<open>No silent orphans while the session lasts\<close>

text \<open>
  The events of an undisturbed session. The broker handles and answers the requests for one pattern in the order in which they were made; those for
  different patterns overtake each other freely. No call is abandoned through its
  signal before it has its handle; after that signals abort at any time.
\<close>

definition lastingEvent :: "'n registry \<Rightarrow> 'n registryEvent \<Rightarrow> bool" where
  "lastingEvent g e =
    (case e of
       SessionLost \<Rightarrow> False
     | AnswerLost k \<Rightarrow> False
     | SubscribeCalled p sig \<Rightarrow> \<not> signalAborted sig g
     | SignalFired sig \<Rightarrow> \<forall>f \<in> set (rgFlights g). Some sig \<notin> set (snd f)
     | RequestSent k a \<Rightarrow>
         \<forall>x \<in> set (take k (rgOps g)). snd x = None \<longrightarrow> patternOf (fst x) \<noteq> patternOf (fst (rgOps g ! k))
     | AnswerArrived k \<Rightarrow> \<forall>x \<in> set (take k (rgOps g)). patternOf (fst x) \<noteq> patternOf (fst (rgOps g ! k))
     | _ \<Rightarrow> True)"

definition lasting :: "'n registry \<Rightarrow> 'n registryEvent \<Rightarrow> 'n registry \<Rightarrow> bool" where
  "lasting g e g' \<longleftrightarrow> registryStep g e g' \<and> lastingEvent g e"



lemma signal_fired_inv:
  assumes "registryInv g" and "\<forall>f \<in> set (rgFlights g). Some sig \<notin> set (snd f)"
  shows "registryInv (signalFired sig g)"
proof -
  have eq: "requests (signalFired sig g) = requests g" "stateOf (signalFired sig g) = stateOf g"
    by (simp_all add: signalFired_def requests_def stateOf_def fun_eq_iff)
  have "\<not> signalAborted s (signalFired sig g)" if "map_of (rgFlights g) p = Some ws" "s \<in> set ws" for p ws s
  proof -
    have "\<not> signalAborted s g" using assms(1) that unfolding registryInv_def flightInv_def by blast
    moreover have "s \<noteq> Some sig" using assms(2) that map_of_SomeD [OF that(1)] by fastforce
    ultimately show ?thesis by (simp add: signalAborted_def signalFired_def)
  qed
  then have "flightInv (signalFired sig g)"
    using assms(1) unfolding registryInv_def flightInv_def eq by (simp add: signalFired_def)
  then show ?thesis
    using assms(1) unfolding registryInv_def shapeInv_def unsubInv_def brokerInv_def eq by (simp add: signalFired_def)
qed

lemma lasting_inv:
  assumes inv: "registryInv g" and "lasting g e g'"
  shows "registryInv g'"
proof -
  have "registryStep g e g'" and e: "lastingEvent g e" using assms(2) by (simp_all add: lasting_def)
  then show ?thesis
  proof cases
    case (rg_answer pre r a post)
    then have "\<forall>x \<in> set pre. patternOf (fst x) \<noteq> patternOf r" using e by (simp add: lastingEvent_def)
    then show ?thesis using rg_answer unsubscribe_answer_inv [OF inv] subscribe_answer_inv [OF inv] by (cases r) auto
  next
    case (rg_sent pre r post a)
    then have "\<forall>x \<in> set pre. snd x = None \<longrightarrow> patternOf (fst x) \<noteq> patternOf r" using e by (simp add: lastingEvent_def)
    then show ?thesis using rg_sent sent_inv [OF inv] by simp
  next
    case rg_restore
    then show ?thesis using inv by (simp add: registryInv_def)
  next
    case (rg_restored a)
    then show ?thesis using inv by (simp add: registryInv_def)
  next
    case rg_ready
    then show ?thesis using inv by (simp add: registryInv_def)
  qed (use inv e in \<open>simp_all add: lastingEvent_def subscribe_inv unsubscribe_inv notified_inv signal_fired_inv\<close>)
qed

interpretation registry: machine newRegistry lasting registryInv
  by unfold_locales (auto intro: new_registry_inv lasting_inv)



text \<open>
  A signal that has aborted before its call has its handle leaves a handler without a subscription. The handle unsubscribes while it
  is created; the new subscription has no handler yet, so an UNSUBSCRIBE is sent; then the handler is stored and keeps the subscription
  registered after the broker has dropped it, so a later subscribe for the pattern
  is not sent either.
\<close>

theorem aborted_signal_leaves_an_orphan:
  "\<exists>g. run registryStep (newRegistry :: 'n registry)
     [SubscribeCalled [97] (Some 3), SignalFired 3, RequestSent 0 (WireOk 5), AnswerArrived 0, RequestSent 0 (WireOk 0), AnswerArrived 0,
      SubscribeCalled [97] None] g \<and>
     rgOnline g \<and> rgOps g = [] \<and> map_of (rgByPattern g) [97] = Some 0 \<and> ssHandlers (rgObjects g ! 0) = [1, 2] \<and> [97] \<notin> set (rgBroker g)"
  by (rule exI, rule conjI, rule attempts_run, simp add: registry_eval, auto simp: registry_eval split: if_splits)

end
