(* ===== verification/RegistryRestore.thy ===== *)
theory RegistryRestore
  imports RegistryInv
begin

text \<open>
  The registry when the session is lost: what a restore keeps when nothing interferes, and the
  interleavings in which a handler stays registered without a subscription of the broker, or is
  dropped although its subscriber still holds an active handle.
\<close>

section \<open>A restore nothing interferes with\<close>

definition restoredState :: "'n registry \<Rightarrow> jsstr \<times> nat \<Rightarrow> nat \<Rightarrow> jsstr \<times> subState" where
  "restoredState g e s = (fst e, \<lparr>ssSubId = s, ssHandlers = ssHandlers (rgObjects g ! snd e),
     ssGeneration = ssGeneration (rgObjects g ! snd e), ssPendingUnsubscribe = None\<rparr>)"

lemma fst_restoredState [simp]: "fst (restoredState g e s) = fst e"
  by (simp add: restoredState_def)

lemma restore_entries:
  "length ids = length es \<Longrightarrow> es \<noteq> [] \<Longrightarrow> rgRestoring g = Some (es, restored) \<Longrightarrow>
   fold (\<lambda>s. restoreEntry (WireOk s)) ids g =
     reindex (installAll (restored @ map2 (restoredState g) es ids)
       (g\<lparr>rgBroker := rev (map fst es) @ rgBroker g, rgRestoring := None\<rparr>))"
proof (induction es arbitrary: ids g restored)
  case (Cons e es)
  obtain s ss where ids: "ids = s # ss" using Cons.prems(1) by (cases ids) auto
  obtain p i where e: "e = (p, i)" by (cases e)
  show ?case
  proof (cases "es = []")
    case True
    then show ?thesis using Cons.prems by (simp add: ids e restoreEntry_def restoredState_def Let_def)
  next
    case False
    let ?h = "g\<lparr>rgBroker := p # rgBroker g, rgRestoring := Some (es, restored @ [restoredState g (p, i) s])\<rparr>"
    have "restoreEntry (WireOk s) g = ?h"
      using False Cons.prems by (simp add: e restoreEntry_def restoredState_def Let_def)
    moreover have "restoredState ?h = restoredState g"
      by (simp add: restoredState_def fun_eq_iff)
    ultimately show ?thesis
      using Cons.IH [of ss ?h "restored @ [restoredState g (p, i) s]"] Cons.prems False by (simp add: ids e)
  qed
qed simp

lemma install_states:
  "distinct (map fst (rgByPattern g) @ map fst es) \<Longrightarrow>
   fold installState es g = g\<lparr>rgObjects := rgObjects g @ map snd es,
     rgByPattern := rgByPattern g @ zip (map fst es) [length (rgObjects g)..<length (rgObjects g) + length es]\<rparr>"
proof (induction es arbitrary: g)
  case (Cons e es)
  have fresh: "fst e \<notin> fst ` set (rgByPattern g)" using Cons.prems by auto
  then have one: "installState e g = g\<lparr>rgObjects := rgObjects g @ [snd e],
      rgByPattern := rgByPattern g @ [(fst e, length (rgObjects g))]\<rparr>"
    by (simp add: installState_def mapSet_fresh)
  show ?case
    using Cons.IH [of "installState e g"] Cons.prems by (simp add: one upt_conv_Cons del: upt_Suc)
qed simp

lemma flushPending_keeps [simp]:
  "rgObjects (flushPending s g) = rgObjects g" "rgByPattern (flushPending s g) = rgByPattern g"
  "rgBroker (flushPending s g) = rgBroker g" "rgBySubId (flushPending s g) = rgBySubId g"
  by (simp_all add: flushPending_def split: prod.split)

lemma reindex_keeps [simp]:
  "rgObjects (reindex g) = rgObjects g" "rgByPattern (reindex g) = rgByPattern g" "rgBroker (reindex g) = rgBroker g"
proof -
  have "let h = fold (\<lambda>(p, i) g. flushPending (ssSubId (rgObjects g ! i))
       (g\<lparr>rgBySubId := mapSet (ssSubId (rgObjects g ! i)) p (rgBySubId g)\<rparr>)) es k in
     rgObjects h = rgObjects k \<and> rgByPattern h = rgByPattern k \<and> rgBroker h = rgBroker k"
    for es and k :: "'a registry"
    by (induction es arbitrary: k) (auto simp: Let_def)
  from this [of "rgByPattern g" "g\<lparr>rgBySubId := []\<rparr>"]
  show "rgObjects (reindex g) = rgObjects g" "rgByPattern (reindex g) = rgByPattern g" "rgBroker (reindex g) = rgBroker g"
    by (simp_all add: reindex_def Let_def)
qed

lemma map_of_zip_nth:
  "distinct ks \<Longrightarrow> k < length ks \<Longrightarrow> length ks = length vs \<Longrightarrow> map_of (zip ks vs) (ks ! k) = Some (vs ! k)"
  by (rule map_of_eq_Some_iff [THEN iffD2]) (auto simp: in_set_zip)

text \<open>
  C10: a restore during which nobody subscribes or unsubscribes keeps the registry. When the broker
  grants every pattern again, with whatever identifiers, the patterns, their order and the handlers of each are as
  before, each state has the new identifier, and the new session of the broker has exactly these
  subscriptions.
\<close>

theorem undisturbed_restore:
  assumes "distinct (map fst (rgByPattern g))" and "rgByPattern g \<noteq> []"
    and "length ids = length (rgByPattern g)"
    and "g' = fold (\<lambda>s. restoreEntry (WireOk s)) ids (restoreBegin (sessionLost g))"
  shows "map fst (rgByPattern g') = map fst (rgByPattern g) \<and>
    set (rgBroker g') = fst ` set (rgByPattern g) \<and>
    (\<forall>k p i. k < length ids \<and> rgByPattern g ! k = (p, i) \<longrightarrow>
      (\<exists>j. map_of (rgByPattern g') p = Some j \<and> j < length (rgObjects g') \<and>
        rgObjects g' ! j = (rgObjects g ! i)\<lparr>ssSubId := ids ! k, ssPendingUnsubscribe := None\<rparr>))"
proof -
  let ?b = "restoreBegin (sessionLost g)" and ?es = "rgByPattern g" and ?n = "length (rgObjects g)"
  let ?rs = "map2 (restoredState g) ?es ids"
  have b: "rgRestoring ?b = Some (?es, [])" "rgObjects ?b = rgObjects g" "rgBroker ?b = []"
    using assms(2) by (simp_all add: restoreBegin_def sessionLost_def)
  have rs: "restoredState ?b = restoredState g" by (simp add: restoredState_def b fun_eq_iff)
  have keys: "map fst ?rs = map fst ?es"
    using assms(3) by (auto simp: list_eq_iff_nth_eq)
  have g': "g' = reindex (installAll ?rs (?b\<lparr>rgBroker := rev (map fst ?es), rgRestoring := None\<rparr>))"
    using restore_entries [OF assms(3,2) b(1)] assms(4) by (simp add: rs b)
  have parts: "rgByPattern g' = zip (map fst ?es) [?n..<?n + length ids]"
      "rgObjects g' = rgObjects g @ map snd ?rs" "rgBroker g' = rev (map fst ?es)"
    unfolding g' installAll_def using assms(1,3) keys b
    by (simp_all add: install_states)
  have "\<exists>j. map_of (rgByPattern g') p = Some j \<and> j < length (rgObjects g') \<and>
      rgObjects g' ! j = (rgObjects g ! i)\<lparr>ssSubId := ids ! k, ssPendingUnsubscribe := None\<rparr>"
    if k: "k < length ids" "rgByPattern g ! k = (p, i)" for k p i
  proof (intro exI conjI)
    show "map_of (rgByPattern g') p = Some (?n + k)"
      using map_of_zip_nth [OF assms(1), of k "[?n..<?n + length ids]"] k assms(3) by (simp add: parts)
  qed (use k assms(3) in \<open>simp_all add: parts nth_append restoredState_def\<close>)
  then show ?thesis using assms(3) by (simp add: parts)
qed

theorem undisturbed_restore_witness:
  "\<exists>g' :: nat registry. map fst (rgByPattern g') = [[97]] \<and> rgBroker g' = [[97]]"
proof -
  let ?g = "snd (subscribe [97] None newRegistry :: subscribeStep \<times> nat registry)"
  let ?h = "subscribeSettled [97] (WireOk 5) ?g"
  have h: "distinct (map fst (rgByPattern ?h))" "rgByPattern ?h \<noteq> []" "length [9::nat] = length (rgByPattern ?h)"
      "map fst (rgByPattern ?h) = [[97]]"
    by (simp_all add: registry_eval)
  define g' where "g' = fold (\<lambda>s. restoreEntry (WireOk s)) [9] (restoreBegin (sessionLost ?h))"
  have "map fst (rgByPattern g') = [[97]]"
    using undisturbed_restore [OF h(1-3) g'_def] h(4) by simp
  moreover have "rgBroker g' = [[97]]"
    unfolding g'_def by (simp add: registry_eval)
  ultimately show ?thesis by (intro exI [of _ g'] conjI)
qed

section \<open>What interferes\<close>

text \<open>
  An unsubscribe that is issued while the connection is being restored waits for the new
  session, but the restore has subscribed its pattern again and replaced the state by a copy that
  carries no pending unsubscribe. A subscribe after it reuses the copy without a request, and when
  everything has settled its handler has no subscription of the broker.
\<close>

theorem orphan_after_reconnect:
  "\<exists>g. run registryStep (newRegistry :: 'n registry)
     [SubscribeCalled p None, RequestSent 0 (WireOk 5), AnswerArrived 0, SessionLost, UnsubscribeRequested p 1, RestoreBegins,
      RestoreAnswered (WireOk 9), SessionReady, SubscribeCalled p None, RequestSent 0 (WireOk 0), AnswerArrived 0] g \<and>
     rgOnline g \<and> rgOps g = [] \<and>
     (\<exists>i. map_of (rgByPattern g) p = Some i \<and> ssHandlers (rgObjects g ! i) = [2]) \<and> p \<notin> set (rgBroker g)"
  by (rule exI, rule conjI, rule attempts_run, simp add: registry_eval, auto simp: registry_eval split: if_splits)

text \<open>
  A handler that is added to a pattern after its entry was restored, but before the restore
  has all entries, goes to the old state, which the end of the restore throws away.
\<close>

theorem handler_lost_in_restore:
  "\<exists>g. run registryStep (newRegistry :: 'n registry)
     [SubscribeCalled [97] None, RequestSent 0 (WireOk 5), AnswerArrived 0, SubscribeCalled [98] None, RequestSent 0 (WireOk 6), AnswerArrived 0,
      SessionLost, RestoreBegins, RestoreAnswered (WireOk 7), SubscribeCalled [97] None, RestoreAnswered (WireOk 8), SessionReady] g \<and>
     rgOps g = [] \<and> rgNextHandlerId g = 4 \<and>
     map (\<lambda>(p, i). (p, ssHandlers (rgObjects g ! i))) (rgByPattern g) = [([97], [1]), ([98], [2])]"
  by (rule exI, rule conjI, rule attempts_run, simp add: registry_eval, auto simp: registry_eval split: if_splits)

text \<open>
  An unsubscribe that is settled by its timeout after the broker has processed it leaves the state in the map,
  and a subscribe after it is never sent.
\<close>

lemma orphan_after_timeout:
  "\<exists>g. run registryStep (newRegistry :: 'n registry)
     [SubscribeCalled p None, RequestSent 0 (WireOk 5), AnswerArrived 0, UnsubscribeRequested p 1, RequestSent 0 (WireOk 0), AnswerLost 0,
      SubscribeCalled p None] g \<and> rgOnline g \<and> rgOps g = [] \<and>
     (\<exists>i. map_of (rgByPattern g) p = Some i \<and> ssHandlers (rgObjects g ! i) = [2]) \<and> p \<notin> set (rgBroker g)"
  by (rule exI, rule conjI, rule attempts_run, simp add: registry_eval, auto simp: registry_eval split: if_splits)

end
