(* ===== verification/Heartbeat.thy ===== *)
theory Heartbeat
  imports Errors Machines
begin

text \<open>
  The heartbeat of a connection, \<^verbatim>\<open>src/client/internal/heartbeat.ts\<close>. Transports are numbers, times
  are milliseconds the events carry. \<open>hbInFlight\<close> are the \<^verbatim>\<open>sendHeartbeat\<close> promises that are not
  settled, with the time they were sent, and \<open>hbFailures\<close> the transports that were closed and
  reported to \<^verbatim>\<open>onFailure\<close>. Whether the connection stopped and whether the transport supports heartbeats
  are arguments.
\<close>

section \<open>State and operations\<close>

record heartbeat =
  hbEnabled :: bool
  hbIntervalMs :: nat
  hbTimer :: "(nat \<times> nat) option"
  hbTransport :: "nat option"
  hbPending :: bool
  hbLastActivity :: nat
  hbInFlight :: "(nat \<times> nat) list"
  hbFailures :: "(nat \<times> nat) list"

definition createHeartbeatLoop :: "bool \<Rightarrow> nat \<Rightarrow> nat \<Rightarrow> heartbeat" where
  "createHeartbeatLoop enabled interval now = \<lparr>hbEnabled = enabled, hbIntervalMs = interval, hbTimer = None,
     hbTransport = None, hbPending = False, hbLastActivity = now, hbInFlight = [], hbFailures = []\<rparr>"

definition markActivity :: "nat \<Rightarrow> heartbeat \<Rightarrow> heartbeat" where
  "markActivity now h = h\<lparr>hbLastActivity := now\<rparr>"

definition stopHeartbeat :: "heartbeat \<Rightarrow> heartbeat" where
  "stopHeartbeat h = h\<lparr>hbTimer := None, hbTransport := None, hbPending := False\<rparr>"

definition scheduleNext :: "bool \<Rightarrow> nat \<Rightarrow> nat \<Rightarrow> heartbeat \<Rightarrow> heartbeat" where
  "scheduleNext stopped now t h =
    (if stopped \<or> hbTransport h \<noteq> Some t then h else h\<lparr>hbTimer := Some (t, now + hbIntervalMs h)\<rparr>)"

definition startHeartbeat :: "bool \<Rightarrow> nat \<Rightarrow> nat \<Rightarrow> heartbeat \<Rightarrow> heartbeat" where
  "startHeartbeat stopped now t h =
    (if \<not> hbEnabled h then h
     else scheduleNext stopped now t (markActivity now ((stopHeartbeat h)\<lparr>hbTransport := Some t\<rparr>)))"

text \<open>The timer callback.\<close>

definition sendHeartbeat :: "nat \<Rightarrow> nat \<Rightarrow> heartbeat \<Rightarrow> heartbeat" where
  "sendHeartbeat now t h = h\<lparr>hbPending := True, hbInFlight := hbInFlight h @ [(t, now)]\<rparr>"

definition tick :: "bool \<Rightarrow> bool \<Rightarrow> nat \<Rightarrow> nat \<Rightarrow> heartbeat \<Rightarrow> heartbeat" where
  "tick stopped supported now t h =
    (let h = h\<lparr>hbTimer := None\<rparr> in
     if stopped \<or> hbTransport h \<noteq> Some t then h
     else if now < hbLastActivity h + hbIntervalMs h then scheduleNext stopped now t h
     else scheduleNext stopped now t (if \<not> hbPending h \<and> supported then sendHeartbeat now t h else h))"

text \<open>The two continuations of a \<^verbatim>\<open>sendHeartbeat\<close> promise.\<close>

definition heartbeatAnswered :: "nat \<Rightarrow> nat \<times> nat \<Rightarrow> heartbeat \<Rightarrow> heartbeat" where
  "heartbeatAnswered now p h =
    (let h = h\<lparr>hbInFlight := remove1 p (hbInFlight h)\<rparr> in
     if hbTransport h \<noteq> Some (fst p) then h else markActivity now (h\<lparr>hbPending := False\<rparr>))"

definition heartbeatFailed :: "nat \<times> nat \<Rightarrow> heartbeat \<Rightarrow> heartbeat" where
  "heartbeatFailed p h =
    (let h = h\<lparr>hbInFlight := remove1 p (hbInFlight h)\<rparr> in
     if hbTransport h \<noteq> Some (fst p) then h
     else (let h = h\<lparr>hbPending := False\<rparr> in
       if hbLastActivity h > snd p then h else h\<lparr>hbFailures := hbFailures h @ [p]\<rparr>))"

section \<open>The machine\<close>

text \<open>Time does not run backwards: an event happens no earlier than the last activity.\<close>

datatype heartbeatEvent =
    HbStart bool nat nat | HbStop | HbActivity nat | HbTick bool bool nat
  | HbAnswered nat "nat \<times> nat" | HbFailed "nat \<times> nat"

inductive heartbeatStep :: "heartbeat \<Rightarrow> heartbeatEvent \<Rightarrow> heartbeat \<Rightarrow> bool" where
  hb_start: "heartbeatStep h (HbStart stopped now t) (startHeartbeat stopped now t h)"
| hb_stop: "heartbeatStep h HbStop (stopHeartbeat h)"
| hb_activity: "heartbeatStep h (HbActivity now) (markActivity now h)"
| hb_tick: "hbTimer h = Some (t, due) \<Longrightarrow> due \<le> now \<Longrightarrow> heartbeatStep h (HbTick stopped supported now) (tick stopped supported now t h)"
| hb_answered: "p \<in> set (hbInFlight h) \<Longrightarrow> heartbeatStep h (HbAnswered now p) (heartbeatAnswered now p h)"
| hb_failed: "p \<in> set (hbInFlight h) \<Longrightarrow> heartbeatStep h (HbFailed p) (heartbeatFailed p h)"

inductive_cases heartbeatStep_failedE: "heartbeatStep h (HbFailed p) h'"

text \<open>
  The timer belongs to the transport that is watched; a watched transport has a timer unless the
  connection stopped, and a heartbeat in flight if one is pending.
\<close>

definition probing :: "heartbeat \<Rightarrow> bool" where
  "probing h \<longleftrightarrow> hbTransport h \<in> (\<lambda>p. Some (fst p)) ` set (hbInFlight h)"

lemma probing_update [simp]:
  "probing (h\<lparr>hbTimer := x\<rparr>) = probing h" "probing (h\<lparr>hbPending := b\<rparr>) = probing h"
  "probing (h\<lparr>hbLastActivity := n\<rparr>) = probing h" "probing (h\<lparr>hbFailures := fs\<rparr>) = probing h"
  by (simp_all add: probing_def)

definition heartbeatInv :: "heartbeat \<Rightarrow> bool" where
  "heartbeatInv h \<longleftrightarrow>
     (hbTimer h = None \<or> map_option fst (hbTimer h) = hbTransport h) \<and>
     (hbPending h \<longrightarrow> probing h) \<and> (hbTransport h \<noteq> None \<longrightarrow> hbEnabled h)"

lemma create_heartbeat_inv: "heartbeatInv (createHeartbeatLoop e i now)"
  by (simp add: heartbeatInv_def createHeartbeatLoop_def)

lemma scheduleNext_inv:
  "(hbPending h \<longrightarrow> probing h) \<Longrightarrow> (hbTransport h \<noteq> None \<longrightarrow> hbEnabled h) \<Longrightarrow> hbTimer h = None \<Longrightarrow>
    heartbeatInv (scheduleNext stopped now t h)"
  by (simp add: heartbeatInv_def scheduleNext_def)

lemma probing_sent: "hbTransport h = Some t \<Longrightarrow> probing (sendHeartbeat now t h)"
  by (auto simp: probing_def sendHeartbeat_def)

lemma probing_other: "probing h \<Longrightarrow> hbTransport h \<noteq> Some (fst p) \<Longrightarrow> probing (h\<lparr>hbInFlight := remove1 p (hbInFlight h)\<rparr>)"
proof -
  assume "probing h" and other: "hbTransport h \<noteq> Some (fst p)"
  then obtain x where x: "hbTransport h = Some (fst x)" "x \<in> set (hbInFlight h)"
    by (auto simp: probing_def)
  then have "x \<noteq> p" using other by auto
  then show ?thesis using x by (simp add: probing_def)
qed

lemma heartbeatStep_inv: "heartbeatInv h \<Longrightarrow> heartbeatStep h e h' \<Longrightarrow> heartbeatInv h'"
proof -
  assume inv: "heartbeatInv h"
  then have parts: "hbPending h \<longrightarrow> probing h" "hbTransport h \<noteq> None \<longrightarrow> hbEnabled h"
    by (simp_all add: heartbeatInv_def)
  assume "heartbeatStep h e h'"
  then show "heartbeatInv h'"
  proof cases
    case (hb_start stopped now t)
    then show ?thesis
      using inv by (auto simp: startHeartbeat_def intro!: scheduleNext_inv) (simp_all add: stopHeartbeat_def markActivity_def)
  next
    case (hb_tick t due now stopped supported)
    let ?h = "h\<lparr>hbTimer := None\<rparr>"
    have "heartbeatInv ?h" using parts by (simp add: heartbeatInv_def)
    moreover have "heartbeatInv (scheduleNext stopped now t ?h)"
      by (rule scheduleNext_inv) (use parts in simp_all)
    moreover have "heartbeatInv (scheduleNext stopped now t (sendHeartbeat now t ?h))" if "hbTransport h = Some t"
      by (rule scheduleNext_inv) (use parts that probing_sent [of ?h t now] in \<open>simp_all add: sendHeartbeat_def\<close>)
    ultimately show ?thesis unfolding hb_tick(2) by (cases stopped) (simp_all add: tick_def Let_def)
  next
    case (hb_answered p now)
    then show ?thesis
      using inv probing_other [of h p] by (auto simp: heartbeatAnswered_def markActivity_def heartbeatInv_def Let_def)
  next
    case (hb_failed p)
    then show ?thesis
      using inv probing_other [of h p] by (auto simp: heartbeatFailed_def heartbeatInv_def Let_def)
  qed (use inv in \<open>simp_all add: heartbeatInv_def stopHeartbeat_def markActivity_def probing_def\<close>)
qed

lemmas heartbeat_defs = startHeartbeat_def stopHeartbeat_def markActivity_def scheduleNext_def tick_def sendHeartbeat_def
  heartbeatAnswered_def heartbeatFailed_def Let_def

interpretation heartbeat: machine "createHeartbeatLoop e i now" heartbeatStep heartbeatInv for e i now
  by unfold_locales (auto intro: create_heartbeat_inv heartbeatStep_inv)

section \<open>Watching a link\<close>

text \<open>The runs in which the connection has not stopped and the transport supports heartbeats.\<close>

fun active :: "heartbeatEvent \<Rightarrow> bool" where
  "active (HbStart stopped now t) = (\<not> stopped)"
| "active (HbTick stopped supported now) = (\<not> stopped \<and> supported)"
| "active _ = True"

definition watching :: "heartbeat \<Rightarrow> heartbeatEvent \<Rightarrow> heartbeat \<Rightarrow> bool" where
  "watching h e h' \<longleftrightarrow> heartbeatStep h e h' \<and> active e"

definition watchInv :: "heartbeat \<Rightarrow> bool" where
  "watchInv h \<longleftrightarrow> heartbeatInv h \<and> map_option fst (hbTimer h) = hbTransport h"

lemma watching_inv: "watchInv h \<Longrightarrow> watching h e h' \<Longrightarrow> watchInv h'"
proof -
  assume inv: "watchInv h" and "watching h e h'"
  then have step: "heartbeatStep h e h'" "active e" by (simp_all add: watching_def)
  have h': "heartbeatInv h'" using inv heartbeatStep_inv [OF _ step(1)] by (simp add: watchInv_def)
  have watched: "map_option fst (hbTimer h) = hbTransport h" using inv by (simp add: watchInv_def)
  have "map_option fst (hbTimer h') = hbTransport h'"
    using step
  proof cases
    case (hb_start stopped now t)
    then show ?thesis using watched step(2) by (simp add: heartbeat_defs)
  next
    case (hb_tick t due now stopped supported)
    then have "hbTransport h = Some t" "\<not> stopped" using watched step(2) by auto
    then show ?thesis unfolding hb_tick(2) by (simp add: heartbeat_defs)
  qed (use watched in \<open>simp_all add: heartbeat_defs\<close>)
  then show "watchInv h'" using h' by (simp add: watchInv_def)
qed

interpretation watch: machine "createHeartbeatLoop e i now" watching watchInv for e i now
  by unfold_locales (simp add: watchInv_def createHeartbeatLoop_def heartbeatInv_def, rule watching_inv)

text \<open>
  C8: a link that is watched never goes unobserved. In every reachable state the timer of the
  watched transport is armed, and when it fires after an interval without activity a heartbeat of that transport is
  in flight. A heartbeat that fails is held against the transport only if it is still the watched
  one and nothing was sent or received since it was sent.
\<close>

theorem idle_link_is_probed:
  assumes "reachable watching (createHeartbeatLoop True i now0) h" and "hbTransport h = Some t"
  shows "(\<exists>due. hbTimer h = Some (t, due)) \<and>
    (\<forall>now. hbLastActivity h + hbIntervalMs h \<le> now \<longrightarrow>
       t \<in> fst ` set (hbInFlight (tick False True now t h)) \<and>
       hbTimer (tick False True now t h) = Some (t, now + hbIntervalMs h)) \<and>
    (\<forall>p h'. heartbeatStep h (HbFailed p) h' \<and> hbFailures h' \<noteq> hbFailures h \<longrightarrow>
       fst p = t \<and> hbLastActivity h \<le> snd p)"
proof (intro conjI allI impI)
  have inv: "watchInv h" by (rule watch.reachable_inv [OF assms(1)])
  then show "\<exists>due. hbTimer h = Some (t, due)" using assms(2) by (auto simp: watchInv_def)
  fix now assume "hbLastActivity h + hbIntervalMs h \<le> now"
  then show "t \<in> fst ` set (hbInFlight (tick False True now t h))"
    "hbTimer (tick False True now t h) = Some (t, now + hbIntervalMs h)"
    using inv assms(2) by (auto simp: watchInv_def heartbeatInv_def probing_def heartbeat_defs)
next
  fix p h' assume "heartbeatStep h (HbFailed p) h' \<and> hbFailures h' \<noteq> hbFailures h"
  then have "h' = heartbeatFailed p h" "hbFailures h' \<noteq> hbFailures h" by (auto elim: heartbeatStep_failedE)
  then show "fst p = t" "hbLastActivity h \<le> snd p"
    using assms(2) by (auto simp: heartbeatFailed_def Let_def split: if_splits)
qed

theorem idle_link_is_probed_witness:
  "let h = startHeartbeat False 0 7 (createHeartbeatLoop True 10 0) in
     hbTimer h = Some (7, 10) \<and> 7 \<in> fst ` set (hbInFlight (tick False True 10 7 h))"
proof -
  let ?h = "startHeartbeat False 0 7 (createHeartbeatLoop True 10 0)"
  have "reachable watching (createHeartbeatLoop True 10 0) ?h"
    by (rule reachable_step [OF reachable_start, of _ _ "HbStart False 0 7"]) (simp add: watching_def hb_start)
  from idle_link_is_probed [OF this, of 7] show ?thesis
    by (simp add: createHeartbeatLoop_def heartbeat_defs)
qed

end
