(* ===== verification/Readiness.thy ===== *)
theory Readiness
  imports Errors Machines "HOL-Library.Extended_Nat"
begin

text \<open>
  Waiting until a connection is ready, \<^verbatim>\<open>src/client/internal/readiness.ts\<close>. The state of the
  connection and the failure \<^verbatim>\<open>readyFailure\<close> reports at that moment are arguments of the operations.
  \<open>rdOutcome\<close> is how the promise of a wait was settled, \<open>rdSlots\<close> the tokens of
  \<^verbatim>\<open>acquireWaitSlot\<close> that have not been released.
\<close>

section \<open>State and operations\<close>

record readiness =
  rdMaxWaiters :: enat
  rdWaiterCount :: nat
  rdSlots :: "nat set"
  rdNextSlot :: nat
  rdListeners :: "nat list"
  rdNext :: nat
  rdOutcome :: "nat \<Rightarrow> unit result option"

definition createReadinessWaiter :: "enat \<Rightarrow> readiness" where
  "createReadinessWaiter n = \<lparr>rdMaxWaiters = n, rdWaiterCount = 0, rdSlots = {}, rdNextSlot = 0,
     rdListeners = [], rdNext = 0, rdOutcome = (\<lambda>_. None)\<rparr>"

text \<open>\<^verbatim>\<open>settle\<close> with its \<^verbatim>\<open>cleanup\<close>; a wait that was settled stays as it was.\<close>

definition settleReady :: "unit result \<Rightarrow> nat \<Rightarrow> readiness \<Rightarrow> readiness" where
  "settleReady v w rd =
    (if rdOutcome rd w \<noteq> None then rd
     else rd\<lparr>rdListeners := remove1 w (rdListeners rd), rdOutcome := (rdOutcome rd)(w := Some v)\<rparr>)"

definition onStateChange :: "connectionState \<Rightarrow> jserror option \<Rightarrow> nat \<Rightarrow> readiness \<Rightarrow> readiness" where
  "onStateChange s failure w rd =
    (if s = Authenticated then settleReady (Inr ()) w rd
     else (case failure of Some e \<Rightarrow> settleReady (Inl e) w rd | None \<Rightarrow> rd))"

definition notifyReady :: "connectionState \<Rightarrow> jserror option \<Rightarrow> readiness \<Rightarrow> readiness" where
  "notifyReady s failure rd = fold (onStateChange s failure) (rdListeners rd) rd"

text \<open>\<open>Inr None\<close> is the \<^verbatim>\<open>null\<close> of a connection that needs no waiting.\<close>

definition acquireWaitSlot :: "connectionState \<Rightarrow> jserror option \<Rightarrow> readiness \<Rightarrow> nat option result \<times> readiness" where
  "acquireWaitSlot s failure rd =
    (if s = Authenticated \<or> failure \<noteq> None then (Inr None, rd)
     else if enat (rdWaiterCount rd) \<ge> rdMaxWaiters rd then (Inl RequestQueueFullError, rd)
     else (Inr (Some (rdNextSlot rd)),
           rd\<lparr>rdWaiterCount := rdWaiterCount rd + 1, rdSlots := insert (rdNextSlot rd) (rdSlots rd),
              rdNextSlot := rdNextSlot rd + 1\<rparr>))"

definition releaseWaitSlot :: "nat \<Rightarrow> readiness \<Rightarrow> readiness" where
  "releaseWaitSlot k rd =
    (if k \<notin> rdSlots rd then rd
     else rd\<lparr>rdSlots := rdSlots rd - {k}, rdWaiterCount := rdWaiterCount rd - 1\<rparr>)"

text \<open>A call that does not have to wait is settled at once.\<close>

definition waitForReady :: "connectionState \<Rightarrow> jserror option \<Rightarrow> bool \<Rightarrow> readiness \<Rightarrow> readiness" where
  "waitForReady s failure aborted rd =
    (let w = rdNext rd; rd = rd\<lparr>rdNext := w + 1\<rparr> in
     if aborted then rd\<lparr>rdOutcome := (rdOutcome rd)(w := Some (Inl abortError))\<rparr>
     else (case failure of
         Some e \<Rightarrow> rd\<lparr>rdOutcome := (rdOutcome rd)(w := Some (Inl e))\<rparr>
       | None \<Rightarrow>
           if s = Authenticated then rd\<lparr>rdOutcome := (rdOutcome rd)(w := Some (Inr ()))\<rparr>
           else onStateChange s failure w (rd\<lparr>rdListeners := rdListeners rd @ [w]\<rparr>)))"

definition readyAborted :: "nat \<Rightarrow> readiness \<Rightarrow> readiness" where
  "readyAborted w rd = settleReady (Inl abortError) w rd"

definition readyTimeout :: "nat \<Rightarrow> readiness \<Rightarrow> readiness" where
  "readyTimeout w rd = settleReady (Inl ConnectionError) w rd"

section \<open>The machine\<close>

text \<open>The state and failure an event carries are what the connection shows when it happens.\<close>

datatype readyEvent =
    ReadyNotified connectionState "jserror option"
  | ReadyWaits connectionState "jserror option" bool
  | ReadyAborted nat | ReadyTimedOut nat
  | SlotAcquired connectionState "jserror option" | SlotReleased nat

inductive readyStep :: "readiness \<Rightarrow> readyEvent \<Rightarrow> readiness \<Rightarrow> bool" where
  rd_notify: "readyStep rd (ReadyNotified s f) (notifyReady s f rd)"
| rd_wait: "readyStep rd (ReadyWaits s f a) (waitForReady s f a rd)"
| rd_abort: "w \<in> set (rdListeners rd) \<Longrightarrow> readyStep rd (ReadyAborted w) (readyAborted w rd)"
| rd_timeout: "w \<in> set (rdListeners rd) \<Longrightarrow> readyStep rd (ReadyTimedOut w) (readyTimeout w rd)"
| rd_slot: "readyStep rd (SlotAcquired s f) (snd (acquireWaitSlot s f rd))"
| rd_release: "readyStep rd (SlotReleased k) (releaseWaitSlot k rd)"

definition readyWaiting :: "readiness \<Rightarrow> nat set" where
  "readyWaiting rd = {w. w < rdNext rd \<and> rdOutcome rd w = None}"

definition readyInv :: "readiness \<Rightarrow> bool" where
  "readyInv rd \<longleftrightarrow> distinct (rdListeners rd) \<and> set (rdListeners rd) = readyWaiting rd \<and>
     (\<forall>w \<ge> rdNext rd. rdOutcome rd w = None) \<and>
     finite (rdSlots rd) \<and> card (rdSlots rd) = rdWaiterCount rd \<and> (\<forall>k \<in> rdSlots rd. k < rdNextSlot rd) \<and>
     enat (rdWaiterCount rd) \<le> rdMaxWaiters rd"

lemma create_ready_inv: "readyInv (createReadinessWaiter n)"
  by (simp add: readyInv_def createReadinessWaiter_def readyWaiting_def flip: zero_enat_def)

lemma settleReady_inv: "readyInv rd \<Longrightarrow> w < rdNext rd \<Longrightarrow> readyInv (settleReady v w rd)"
  by (auto simp: readyInv_def settleReady_def readyWaiting_def)

lemma settleReady_keeps [simp]:
  "rdNext (settleReady v w rd) = rdNext rd" "rdSlots (settleReady v w rd) = rdSlots rd"
  "rdOutcome rd x = Some y \<Longrightarrow> rdOutcome (settleReady v w rd) x = Some y"
  by (auto simp: settleReady_def)

lemma onStateChange_keeps [simp]:
  "rdNext (onStateChange s f w rd) = rdNext rd"
  "rdOutcome rd x = Some y \<Longrightarrow> rdOutcome (onStateChange s f w rd) x = Some y"
  by (auto simp: onStateChange_def split: option.split)

lemma onStateChange_inv: "readyInv rd \<Longrightarrow> w < rdNext rd \<Longrightarrow> readyInv (onStateChange s f w rd)"
  by (simp add: onStateChange_def settleReady_inv split: option.split)

lemma changes_keep:
  "\<forall>w \<in> set ws. w < rdNext rd \<Longrightarrow> readyInv rd \<Longrightarrow>
    readyInv (fold (onStateChange s f) ws rd) \<and> rdNext (fold (onStateChange s f) ws rd) = rdNext rd \<and>
    (rdOutcome rd x = Some y \<longrightarrow> rdOutcome (fold (onStateChange s f) ws rd) x = Some y)"
  by (induction ws arbitrary: rd) (simp_all add: onStateChange_inv)

lemma notify_inv: "readyInv rd \<Longrightarrow> readyInv (notifyReady s f rd)"
  using changes_keep [of "rdListeners rd" rd] by (auto simp: notifyReady_def readyInv_def readyWaiting_def)

lemma notify_keeps: "readyInv rd \<Longrightarrow> rdOutcome rd x = Some y \<Longrightarrow> rdOutcome (notifyReady s f rd) x = Some y"
  using changes_keep [of "rdListeners rd" rd] by (auto simp: notifyReady_def readyInv_def readyWaiting_def)

text \<open>A notification settles every wait when the connection is ready or has failed, and none otherwise.\<close>

lemma changes_settle:
  "s = Authenticated \<or> f \<noteq> None \<Longrightarrow> x \<in> set ws \<or> rdOutcome rd x \<noteq> None \<Longrightarrow>
    rdOutcome (fold (onStateChange s f) ws rd) x \<noteq> None"
proof (induction ws arbitrary: rd)
  case (Cons w ws)
  have "x \<in> set ws \<or> rdOutcome (onStateChange s f w rd) x \<noteq> None"
    using Cons.prems by (auto simp: onStateChange_def settleReady_def split: option.split)
  then show ?case using Cons.IH Cons.prems(1) by simp
qed auto

lemma notify_settles:
  assumes "readyInv rd" and "s = Authenticated \<or> f \<noteq> None"
  shows "rdListeners (notifyReady s f rd) = []" and "readyWaiting (notifyReady s f rd) = {}"
proof -
  have inv: "readyInv (notifyReady s f rd)" using notify_inv [OF assms(1)] .
  have nx: "rdNext (notifyReady s f rd) = rdNext rd"
    using changes_keep [of "rdListeners rd" rd] assms(1) by (auto simp: notifyReady_def readyInv_def readyWaiting_def)
  have "rdOutcome (notifyReady s f rd) x \<noteq> None" if "x < rdNext rd" for x
    using changes_settle [OF assms(2), of x "rdListeners rd" rd] that assms(1)
    by (cases "rdOutcome rd x") (auto simp: notifyReady_def readyInv_def readyWaiting_def)
  then show w: "readyWaiting (notifyReady s f rd) = {}" unfolding readyWaiting_def nx by blast
  show "rdListeners (notifyReady s f rd) = []" using inv w by (simp add: readyInv_def)
qed

lemma notify_quiet: "s \<noteq> Authenticated \<Longrightarrow> notifyReady s None rd = rd"
proof -
  assume s: "s \<noteq> Authenticated"
  have "fold (onStateChange s None) ws rd = rd" for ws
    by (induction ws) (simp_all add: onStateChange_def s)
  then show ?thesis by (simp add: notifyReady_def)
qed

lemma wait_inv:
  assumes "readyInv rd" shows "readyInv (waitForReady s f a rd)"
proof -
  have "rdNext rd \<notin> set (rdListeners rd)" using assms by (auto simp: readyInv_def readyWaiting_def)
  then show ?thesis
    using assms by (auto simp: waitForReady_def onStateChange_def readyInv_def readyWaiting_def Let_def less_Suc_eq
        split: option.split)
qed

lemma slot_inv: "readyInv rd \<Longrightarrow> readyInv (snd (acquireWaitSlot s f rd))"
  by (cases "rdMaxWaiters rd") (auto simp: acquireWaitSlot_def readyInv_def readyWaiting_def card_insert_if)

lemma readyRelease_inv: "readyInv rd \<Longrightarrow> readyInv (releaseWaitSlot k rd)"
  by (cases "rdMaxWaiters rd") (auto simp: releaseWaitSlot_def readyInv_def readyWaiting_def)

lemma listener_known: "readyInv rd \<Longrightarrow> w \<in> set (rdListeners rd) \<Longrightarrow> w < rdNext rd"
  by (simp add: readyInv_def readyWaiting_def)

lemma readyStep_inv: "readyInv rd \<Longrightarrow> readyStep rd e rd' \<Longrightarrow> readyInv rd'"
  by (erule readyStep.cases)
    (simp_all add: notify_inv wait_inv slot_inv readyRelease_inv readyAborted_def readyTimeout_def settleReady_inv listener_known)

lemma readyStep_keeps: "readyInv rd \<Longrightarrow> readyStep rd e rd' \<Longrightarrow> rdOutcome rd w = Some v \<Longrightarrow> rdOutcome rd' w = Some v"
  by (erule readyStep.cases)
    (auto simp: notify_keeps waitForReady_def acquireWaitSlot_def releaseWaitSlot_def readyAborted_def readyTimeout_def
      Let_def readyInv_def split: option.split)

interpretation ready: settling "createReadinessWaiter n" readyStep readyInv rdOutcome for n
  by unfold_locales (auto intro: create_ready_inv readyStep_inv readyStep_keeps)

text \<open>
  Waiting for readiness. In every reachable state at most as many wait slots are taken as the
  bound allows, every wait that is not settled listens, and the next notification of a ready or failed connection
  settles all of them; how a wait was settled is final.
\<close>

theorem readiness_contract:
  assumes "reachable readyStep (createReadinessWaiter n) rd"
  shows "enat (card (rdSlots rd)) \<le> rdMaxWaiters rd \<and>
    set (rdListeners rd) = {w. w < rdNext rd \<and> rdOutcome rd w = None} \<and>
    (\<forall>s f. s = Authenticated \<or> f \<noteq> None \<longrightarrow> rdListeners (notifyReady s f rd) = []) \<and>
    (\<forall>es rd' w v. run readyStep rd es rd' \<and> rdOutcome rd w = Some v \<longrightarrow> rdOutcome rd' w = Some v)"
proof (intro conjI allI impI)
  have inv: "readyInv rd" by (rule ready.reachable_inv [OF assms])
  then show "enat (card (rdSlots rd)) \<le> rdMaxWaiters rd"
    "set (rdListeners rd) = {w. w < rdNext rd \<and> rdOutcome rd w = None}"
    by (simp_all add: readyInv_def readyWaiting_def)
  show "rdListeners (notifyReady s f rd) = []" if "s = Authenticated \<or> f \<noteq> None" for s f
    by (rule notify_settles(1) [OF inv that])
  show "rdOutcome rd' w = Some v" if "run readyStep rd es rd' \<and> rdOutcome rd w = Some v" for es rd' w v
    using ready.settled_once [OF assms] that by blast
qed

theorem readiness_contract_witness:
  "let rd = waitForReady Connecting None False (createReadinessWaiter 1) in
     rdListeners rd = [0] \<and> rdListeners (notifyReady Authenticated None rd) = []"
proof -
  let ?rd = "waitForReady Connecting None False (createReadinessWaiter 1)"
  have "reachable readyStep (createReadinessWaiter 1) ?rd"
    by (rule reachable_step [OF reachable_start]) (rule rd_wait)
  from readiness_contract [OF this] show ?thesis
    by (simp add: waitForReady_def createReadinessWaiter_def onStateChange_def Let_def)
qed

end
