(* ===== verification/Connection.thy ===== *)
theory Connection
  imports Multiplexer Extensions RequestGate Dispatcher Readiness TaskGroup
begin

text \<open>
  The connection of \<^verbatim>\<open>src/client/connection.ts\<close> as a state machine. It composes the models of its
  parts: the multiplexer, the frame parser and codecs, the request gate, the readiness waiter
  and the handler dispatcher. An asynchronous function is cut at its \<^verbatim>\<open>await\<close>s: an \<open>openOp\<close> is a call of
  \<^verbatim>\<open>openAndAuthenticate\<close> and the point it waits at, \<open>cnReading\<close> are the receive loops that wait for
  data, \<open>cnLoop\<close> is the reconnect loop. Transports are numbers in the order of their creation;
  what a transport does is an event. Logging and metrics are left out, lifecycle events are kept.
\<close>

section \<open>State\<close>

record connOptions =
  coTimeoutMs :: int
  coReconnect :: bool
  coMaxAttempts :: enat
  coHeartbeat :: bool
  coMaxInFlight :: enat
  coMaxQueue :: enat
  coServiceName :: jsstr

text \<open>
  Where an \<open>openOp\<close> waits: for \<^verbatim>\<open>connect\<close> of the transport, for HELLO, for the restore of a
  reconnect, or, after a failure, for \<^verbatim>\<open>close\<close> of the transport; the flag is whether the failure
  is taken for a rejected authentication.
\<close>

datatype openPhase = TransportWait | HelloWait | RestoreWait | Teardown jserror bool

record openOp =
  opReconnect :: bool
  opTransport :: nat
  opPhase :: openPhase
  opSent :: "unit result option"
  opAuth :: deferred
  opAborted :: bool

datatype reconnectPhase = LoopSleeping nat | LoopOpening nat

record conn =
  cnOptions :: connOptions
  cnState :: connectionState
  cnTransport :: "nat option"
  cnNextTransport :: nat
  cnOpenTransports :: "nat list"
  cnGate :: requestGate
  cnParser :: frameParser
  cnMux :: mux
  cnReady :: readiness
  cnHandlers :: dispatcher
  cnReading :: "nat list"
  cnReceiveLoopAbort :: bool
  cnCloseRequested :: bool
  cnPermanentlyClosed :: bool
  cnCloseCalled :: bool
  cnOpens :: "openOp list"
  cnLoop :: "reconnectPhase option"
  cnRestoreActive :: bool
  cnAuthOutcome :: "nat option"
  cnAuthRejected :: bool
  cnSessionConfirmed :: bool
  cnHasEstablished :: bool
  cnReconnectExhausted :: bool
  cnPartialTimer :: "nat option"
  cnPartialFailing :: "nat list"
  cnHeartbeat :: "nat option"
  cnMaxMessageBytes :: nat
  cnNegotiatedMax :: nat
  cnNegotiatedInFlight :: enat
  cnRequests :: "(nat \<times> nat) list"
  cnWritten :: "(nat \<times> bytes) list"
  cnLifecycle :: "(string \<times> connectionState \<times> jserror option) list"
  cnGoAways :: "goAway list"
  cnDisconnects :: nat

definition createConnection :: "connOptions \<Rightarrow> dispatcher \<Rightarrow> conn" where
  "createConnection opts handlers = \<lparr>cnOptions = opts, cnState = Disconnected, cnTransport = None,
     cnNextTransport = 0, cnOpenTransports = [],
     cnGate = createRequestGate (coMaxInFlight opts) (coMaxQueue opts),
     cnParser = createFrameParser DEFAULT_MAX_MESSAGE_BYTES, cnMux = createMultiplexer,
     cnReady = createReadinessWaiter (coMaxQueue opts), cnHandlers = handlers, cnReading = [],
     cnReceiveLoopAbort = False, cnCloseRequested = False, cnPermanentlyClosed = False, cnCloseCalled = False,
     cnOpens = [], cnLoop = None, cnRestoreActive = False, cnAuthOutcome = None, cnAuthRejected = False,
     cnSessionConfirmed = False, cnHasEstablished = False, cnReconnectExhausted = False,
     cnPartialTimer = None, cnPartialFailing = [], cnHeartbeat = None,
     cnMaxMessageBytes = DEFAULT_MAX_MESSAGE_BYTES, cnNegotiatedMax = DEFAULT_MAX_MESSAGE_BYTES,
     cnNegotiatedInFlight = coMaxInFlight opts, cnRequests = [], cnWritten = [], cnLifecycle = [], cnGoAways = [],
     cnDisconnects = 0\<rparr>"

section \<open>Readiness and small helpers\<close>

definition canWaitForReconnect :: "conn \<Rightarrow> bool" where
  "canWaitForReconnect c \<longleftrightarrow>
     coReconnect (cnOptions c) \<and> cnHasEstablished c \<and> \<not> cnReconnectExhausted c \<and> \<not> cnAuthRejected c"

text \<open>A connection error whose context is the state of the connection.\<close>

definition stateError :: "conn \<Rightarrow> jserror" where
  "stateError c = ConnectionError\<lparr>eClosed := (cnState c = Closed)\<rparr>"

definition readyFailure :: "conn \<Rightarrow> jserror option" where
  "readyFailure c =
    (if cnState c = Authenticated then None
     else if cnAuthRejected c then Some AuthenticationError
     else if cnCloseRequested c \<or> cnState c = Closed then Some connectionClosedError
     else if cnState c \<in> {Connecting, Connected, Authenticating, Reconnecting} then None
     else if cnState c = Disconnected \<and> canWaitForReconnect c then None
     else Some (stateError c))"

definition setState :: "connectionState \<Rightarrow> conn \<Rightarrow> conn" where
  "setState s c =
    (let c = c\<lparr>cnState := s\<rparr> in c\<lparr>cnReady := notifyReady s (readyFailure c) (cnReady c)\<rparr>)"

definition emitLifecycleEvent :: "string \<Rightarrow> jserror option \<Rightarrow> conn \<Rightarrow> conn" where
  "emitLifecycleEvent ev e c = c\<lparr>cnLifecycle := cnLifecycle c @ [(ev, cnState c, e)]\<rparr>"

definition emitDisconnect :: "conn \<Rightarrow> conn" where
  "emitDisconnect c = c\<lparr>cnDisconnects := cnDisconnects c + 1\<rparr>"

definition shouldWaitForReconnect :: "conn \<Rightarrow> bool" where
  "shouldWaitForReconnect c \<longleftrightarrow>
     cnLoop c \<noteq> None \<or> cnState c = Reconnecting \<or> (cnState c = Disconnected \<and> canWaitForReconnect c)"

text \<open>
  The operations of the multiplexer that contain loops; the loops of a multiplexer that keeps its
  invariant end, so that \<open>None\<close> does not occur.
\<close>

definition muxDisconnected :: "mux \<Rightarrow> mux" where
  "muxDisconnected m = (case setDisconnected m of Some m' \<Rightarrow> m' | None \<Rightarrow> m)"

definition muxDispatch :: "nat \<Rightarrow> bytes \<Rightarrow> nat option \<Rightarrow> bool \<Rightarrow> mux \<Rightarrow> unit result \<times> mux" where
  "muxDispatch t pl corr final m = (case dispatch t pl corr final m of Some r \<Rightarrow> r | None \<Rightarrow> (Inr (), m))"

definition findOp :: "nat \<Rightarrow> conn \<Rightarrow> openOp option" where
  "findOp t c = find (\<lambda>p. opTransport p = t) (cnOpens c)"

definition updateOp :: "nat \<Rightarrow> (openOp \<Rightarrow> openOp) \<Rightarrow> conn \<Rightarrow> conn" where
  "updateOp t f c = c\<lparr>cnOpens := map (\<lambda>p. if opTransport p = t then f p else p) (cnOpens c)\<rparr>"

definition dropOp :: "nat \<Rightarrow> conn \<Rightarrow> conn" where
  "dropOp t c = c\<lparr>cnOpens := filter (\<lambda>p. opTransport p \<noteq> t) (cnOpens c)\<rparr>"

text \<open>\<^verbatim>\<open>authOutcome?.resolve()\<close> and \<^verbatim>\<open>authOutcome?.reject()\<close>.\<close>

definition settleAuth :: "deferred \<Rightarrow> conn \<Rightarrow> conn" where
  "settleAuth v c = (case cnAuthOutcome c of
     None \<Rightarrow> c
   | Some t \<Rightarrow> updateOp t (\<lambda>p. if opAuth p = Pending then p\<lparr>opAuth := v\<rparr> else p) c)"

definition isUnconfirmedSessionLoss :: "conn \<Rightarrow> bool" where
  "isUnconfirmedSessionLoss c \<longleftrightarrow> \<not> cnSessionConfirmed c \<and> cnState c = Authenticating"

definition confirmSession :: "conn \<Rightarrow> conn" where
  "confirmSession c = (if cnSessionConfirmed c then c else c\<lparr>cnSessionConfirmed := True, cnHasEstablished := True\<rparr>)"

section \<open>Opening\<close>

text \<open>\<^verbatim>\<open>openAndAuthenticate\<close> up to its first \<^verbatim>\<open>await\<close>.\<close>

definition openStart :: "bool \<Rightarrow> conn \<Rightarrow> conn" where
  "openStart isReconnect c =
    (let t = cnNextTransport c;
         c = c\<lparr>cnReceiveLoopAbort := False,
               cnParser := (resetParser (cnParser c))\<lparr>pmax := DEFAULT_MAX_MESSAGE_BYTES\<rparr>,
               cnPartialTimer := None, cnMaxMessageBytes := DEFAULT_MAX_MESSAGE_BYTES,
               cnSessionConfirmed := False, cnHasEstablished := (isReconnect \<and> cnHasEstablished c),
               cnGate := createRequestGate (coMaxInFlight (cnOptions c)) (coMaxQueue (cnOptions c)),
               cnTransport := Some t, cnNextTransport := t + 1, cnOpenTransports := t # cnOpenTransports c,
               cnHeartbeat := None,
               cnOpens := cnOpens c @ [\<lparr>opReconnect = isReconnect, opTransport = t, opPhase = TransportWait,
                 opSent = None, opAuth = Pending, opAborted = False\<rparr>]\<rparr>
     in if isReconnect then emitLifecycleEvent ''reconnect_start'' None (setState Reconnecting c)
        else emitLifecycleEvent ''connect_start'' None (setState Connecting c))"

text \<open>The \<^verbatim>\<open>catch\<close> up to its \<^verbatim>\<open>await\<close>.\<close>

definition openFail :: "nat \<Rightarrow> jserror \<Rightarrow> conn \<Rightarrow> conn" where
  "openFail t e c =
    (let unconfirmed = isUnconfirmedSessionLoss c; wasRestoring = cnRestoreActive c in
     updateOp t (\<lambda>p. p\<lparr>opPhase := Teardown e (unconfirmed \<and> \<not> wasRestoring)\<rparr>)
       (c\<lparr>cnAuthOutcome := None, cnRestoreActive := False, cnHeartbeat := None, cnReceiveLoopAbort := True\<rparr>))"

text \<open>The head of the receive loop, up to \<^verbatim>\<open>receive\<close>.\<close>

definition receiveNext :: "nat \<Rightarrow> conn \<Rightarrow> conn" where
  "receiveNext t c =
    (if \<not> cnReceiveLoopAbort c \<and> \<not> cnCloseRequested c \<and> cnTransport c = Some t
     then c\<lparr>cnReading := t # cnReading c\<rparr> else c)"

definition openConnected :: "openOp \<Rightarrow> unit result \<Rightarrow> conn \<Rightarrow> conn" where
  "openConnected p v c =
    (let t = opTransport p in
     case v of
       Inl e \<Rightarrow> openFail t e c
     | Inr _ \<Rightarrow>
         if cnCloseRequested c then openFail t connectionClosedError c
         else if opAborted p then openFail t abortError c
         else (let c = setState Authenticating (setState Connected (receiveNext t c));
                   c = (emitLifecycleEvent ''auth_start'' None c)\<lparr>cnAuthOutcome := Some t\<rparr>
               in if \<not> opReconnect p \<and> cnAuthRejected c then openFail t AuthenticationError c
                  else updateOp t (\<lambda>p. p\<lparr>opPhase := HelloWait\<rparr>) c))"

text \<open>The CONNECT message and \<^verbatim>\<open>sendConnect\<close>, with the token and how sending went.\<close>

definition connectFrame :: "jsstr \<Rightarrow> jsstr \<Rightarrow> bytes result" where
  "connectFrame token serviceName =
    andThen (encodeConnect token serviceName (js ''fitz-ts/4.0.0'')) (\<lambda>core.
    andThen (encodeCapabilities (map (\<lambda>i. JInt (int i)) CLIENT_CAPABILITY_IDS)) (\<lambda>caps.
    andThen (encodeExtensions core [(JInt 1, caps)]) (\<lambda>pl.
    encodeFrame (JInt 1) pl (Some (JInt (int FLAG_EXTENSIONS_PRESENT))) None)))"

definition sendConnect :: "nat \<Rightarrow> jsstr result \<Rightarrow> unit result \<Rightarrow> conn \<Rightarrow> unit result \<times> conn" where
  "sendConnect t token sent c =
    (case token of
       Inl e \<Rightarrow> (Inl e, c)
     | Inr jwt \<Rightarrow>
         if cnTransport c \<noteq> Some t then (Inl (stateError c), c)
         else (case connectFrame jwt (coServiceName (cnOptions c)) of
             Inl e \<Rightarrow> (Inl e, c)
           | Inr fr \<Rightarrow> (sent, c\<lparr>cnWritten := cnWritten c @ [(t, fr)]\<rparr>)))"

definition connectSent :: "nat \<Rightarrow> jsstr result \<Rightarrow> unit result \<Rightarrow> conn \<Rightarrow> conn" where
  "connectSent t token sent c =
    (case sendConnect t token sent c of (v, c) \<Rightarrow> updateOp t (\<lambda>p. p\<lparr>opSent := Some v\<rparr>) c)"

definition openFinish :: "openOp \<Rightarrow> conn \<Rightarrow> conn" where
  "openFinish p c =
    (let c = setState Authenticated (c\<lparr>cnReconnectExhausted := False\<rparr>);
         c = (if coHeartbeat (cnOptions c) then c\<lparr>cnHeartbeat := Some (opTransport p)\<rparr> else c);
         c = (if opReconnect p then c else c\<lparr>cnMux := setConnected (cnMux c)\<rparr>);
         c = emitLifecycleEvent (if opReconnect p then ''reconnect_succeeded'' else ''connect_succeeded'') None c;
         c = dropOp (opTransport p) c
     in if opReconnect p then c\<lparr>cnLoop := None\<rparr> else c)"

text \<open>
  The end of \<^verbatim>\<open>waitForHello\<close>: both promises are fulfilled, or one is rejected, or the time is over, or
  the caller aborted.
\<close>

definition helloEnds :: "openOp \<Rightarrow> unit result \<Rightarrow> bool" where
  "helloEnds p v \<longleftrightarrow> (case v of
     Inr _ \<Rightarrow> opSent p = Some (Inr ()) \<and> opAuth p = Resolved
   | Inl e \<Rightarrow> opSent p = Some (Inl e) \<or> opAuth p = Rejected e \<or> e = ConnectionError \<or> (opAborted p \<and> e = abortError))"

definition openHello :: "openOp \<Rightarrow> unit result \<Rightarrow> conn \<Rightarrow> conn" where
  "openHello p v c =
    (let t = opTransport p in
     case v of
       Inl e \<Rightarrow> openFail t e c
     | Inr _ \<Rightarrow>
         if cnCloseRequested c then openFail t connectionClosedError c
         else if opAborted p then openFail t abortError c
         else if \<not> opReconnect p \<and> cnAuthRejected c then openFail t AuthenticationError c
         else (let c = (settleAuth Resolved c)\<lparr>cnAuthOutcome := None\<rparr> in
               if opReconnect p
               then updateOp t (\<lambda>p. p\<lparr>opPhase := RestoreWait\<rparr>) (c\<lparr>cnMux := setConnected (cnMux c), cnRestoreActive := True\<rparr>)
               else openFinish p c))"

definition openRestored :: "openOp \<Rightarrow> conn \<Rightarrow> conn" where
  "openRestored p c =
    (let c = c\<lparr>cnRestoreActive := False\<rparr> in
     if cnCloseRequested c then openFail (opTransport p) connectionClosedError c else openFinish p c)"

section \<open>The reconnect loop\<close>

text \<open>The head of \<^verbatim>\<open>runLoop\<close>, with what \<^verbatim>\<open>reconnectLoop\<close> does when it has returned.\<close>

definition reconnectHead :: "nat \<Rightarrow> conn \<Rightarrow> conn" where
  "reconnectHead attempts c =
    (if \<not> cnCloseRequested c \<and> enat attempts < coMaxAttempts (cnOptions c)
     then emitLifecycleEvent ''reconnect_scheduled'' None (setState Reconnecting (c\<lparr>cnLoop := Some (LoopSleeping (attempts + 1))\<rparr>))
     else if cnCloseRequested c then setState Closed (c\<lparr>cnLoop := None\<rparr>)
     else (emitLifecycleEvent ''reconnect_exhausted'' None (setState Disconnected (c\<lparr>cnLoop := None\<rparr>)))
       \<lparr>cnReconnectExhausted := True\<rparr>)"

definition sleepOver :: "nat \<Rightarrow> conn \<Rightarrow> conn" where
  "sleepOver n c =
    (if cnCloseRequested c then c\<lparr>cnLoop := None\<rparr> else openStart True (c\<lparr>cnLoop := Some (LoopOpening n)\<rparr>))"

definition reconnectFailed :: "nat \<Rightarrow> jserror \<Rightarrow> conn \<Rightarrow> conn" where
  "reconnectFailed n e c =
    (if cnCloseRequested c \<or> isAbortError e then c\<lparr>cnLoop := None\<rparr>
     else if ekind e = AuthenticationErrorK then setState Closed (c\<lparr>cnLoop := None\<rparr>)
     else if ekind e = ProtocolErrorK \<and> eDomain e = Some 50
       then (emitLifecycleEvent ''reconnect_exhausted'' (Some e) (setState Disconnected (c\<lparr>cnLoop := None\<rparr>)))
              \<lparr>cnReconnectExhausted := True\<rparr>
     else reconnectHead n c)"

section \<open>Failing to open\<close>

text \<open>The rest of the \<^verbatim>\<open>catch\<close> of \<^verbatim>\<open>openAndAuthenticate\<close>, when the transport has closed.\<close>

definition openFailure :: "jserror \<Rightarrow> bool \<Rightarrow> conn \<Rightarrow> jserror" where
  "openFailure e unconfirmed c =
    (if \<not> cnCloseRequested c \<and> \<not> isAbortError e \<and> unconfirmed then AuthenticationError else e)"

definition openTeardown :: "openOp \<Rightarrow> jserror \<Rightarrow> conn \<Rightarrow> conn" where
  "openTeardown p failure c =
    (let t = opTransport p; rejectedAuth = (ekind failure = AuthenticationErrorK);
         c = c\<lparr>cnOpenTransports := removeAll t (cnOpenTransports c),
               cnTransport := (if cnTransport c = Some t then None else cnTransport c),
               cnAuthRejected := (rejectedAuth \<or> cnAuthRejected c)\<rparr>
     in dropOp t
       (if cnState c = Closed then c
        else if cnCloseRequested c then setState Closed c
        else emitLifecycleEvent (if opReconnect p then ''reconnect_failed'' else ''connect_failed'') (Some failure)
          (setState (if rejectedAuth then Closed else Disconnected)
            (emitDisconnect (c\<lparr>cnMux := muxDisconnected (cnMux c)\<rparr>)))))"

text \<open>The error goes to the caller of \<^verbatim>\<open>connect\<close> or to the reconnect loop.\<close>

definition openTornDown :: "openOp \<Rightarrow> jserror \<Rightarrow> bool \<Rightarrow> conn \<Rightarrow> conn" where
  "openTornDown p e unconfirmed c =
    (let failure = openFailure e unconfirmed c; c = openTeardown p failure c in
     case cnLoop c of
       Some (LoopOpening n) \<Rightarrow> if opReconnect p then reconnectFailed n (if isAbortError e then abortError else failure) c else c
     | _ \<Rightarrow> c)"

section \<open>Losing the connection\<close>

definition handleConnectionLoss :: "jserror \<Rightarrow> nat option \<Rightarrow> conn \<Rightarrow> conn" where
  "handleConnectionLoss e failedTransport c =
    (if failedTransport \<noteq> None \<and> cnTransport c \<noteq> failedTransport then c
     else
       (let inferred = isUnconfirmedSessionLoss c;
            c = c\<lparr>cnHeartbeat := None, cnPartialTimer := None, cnAuthRejected := (inferred \<or> cnAuthRejected c),
                  cnMux := muxDisconnected (cnMux c), cnGate := closeGate (cnGate c)\<rparr>;
            c = emitDisconnect c;
            c = (if cnState c = Authenticating
                 then settleAuth (Rejected (if inferred then AuthenticationError else ConnectionError)) c else c)
        in if cnCloseRequested c then setState Closed c
           else if cnAuthRejected c then emitLifecycleEvent ''auth_rejected'' (Some e) (setState Closed c)
           else (let c = emitLifecycleEvent ''connection_lost'' (Some e)
                           (setState Disconnected (c\<lparr>cnReconnectExhausted := False\<rparr>))
                 in if coReconnect (cnOptions c) \<and> cnLoop c = None then reconnectHead 0 c else c)))"

definition handlePossibleTransportFailure :: "jserror \<Rightarrow> nat option \<Rightarrow> conn \<Rightarrow> conn" where
  "handlePossibleTransportFailure e t c =
    (if cnCloseRequested c \<or> cnState c \<noteq> Authenticated then c
     else if map_option rmBoundary (emeta e) = Some PreSend then c
     else if ekind e \<in> {TransportErrorK, ConnectionErrorK, AuthenticationErrorK} then handleConnectionLoss e t c
     else c)"

section \<open>Receiving\<close>

definition handleHello :: "frame \<Rightarrow> nat list \<Rightarrow> conn \<Rightarrow> unit result \<times> conn" where
  "handleHello f capabilityIds c =
    (if mxProtocolVersion (cnMux c) \<noteq> 0 then (Inl (ProtocolError None), c)
     else if frameCorrelation f \<noteq> 0 \<or> frameFlags f \<noteq> FLAG_EXTENSIONS_PRESENT then (Inl (ProtocolError None), c)
     else (case decodeHello (framePayload f) of
         Inl e \<Rightarrow> (Inl e, c)
       | Inr h \<Rightarrow>
           if helloVersion h \<noteq> 3 \<or> helloCapabilities h \<noteq> 0 \<or> helloMaxMessageBytes h < 15 then (Inl (ProtocolError None), c)
           else if helloMaxInFlight h = 0 then (Inl (ProtocolError None), c)
           else (let limit = min DEFAULT_MAX_MESSAGE_BYTES (helloMaxMessageBytes h) in
             (Inr (), settleAuth Resolved
               (c\<lparr>cnMaxMessageBytes := limit, cnNegotiatedMax := limit,
                  cnNegotiatedInFlight := enat (helloMaxInFlight h),
                  cnParser := (cnParser c)\<lparr>pmax := limit\<rparr>,
                  cnGate := createRequestGate (min (coMaxInFlight (cnOptions c)) (enat (helloMaxInFlight h))) (coMaxQueue (cnOptions c)),
                  cnMux := setCapabilities (helloVersion h) (helloCapabilities h) capabilityIds (cnMux c)\<rparr>)))))"

definition handleRejected :: "frame \<Rightarrow> conn \<Rightarrow> unit result \<times> conn" where
  "handleRejected f c =
    (if frameCorrelation f \<noteq> 0 then (Inl (ProtocolError None), c)
     else (case decodeConnectRejected (framePayload f) of
         Inl e \<Rightarrow> (Inl e, c)
       | Inr r \<Rightarrow>
           if rejectCode r = 1
           then (Inr (), settleAuth (Rejected AuthenticationError) (c\<lparr>cnAuthRejected := True\<rparr>))
           else (Inr (), settleAuth (Rejected (ProtocolError (Some (rejectCode r)))) c)))"

definition handleGoAway :: "frame \<Rightarrow> conn \<Rightarrow> unit result \<times> conn" where
  "handleGoAway f c =
    (if frameCorrelation f \<noteq> 0 then (Inl (ProtocolError None), c)
     else (case decodeGoAway (framePayload f) of
         Inl e \<Rightarrow> (Inl e, c)
       | Inr g \<Rightarrow> (Inr (), (emitLifecycleEvent ''goaway'' None c)\<lparr>cnGoAways := cnGoAways c @ [g]\<rparr>)))"

definition frameExtensions :: "frame \<Rightarrow> (frame \<times> nat list) result" where
  "frameExtensions f =
    (if frameFlags f AND FLAG_EXTENSIONS_PRESENT \<noteq> 0 \<or> frameType f = 2
     then andThen (decodeExtensions (framePayload f) (frameType f) (frameFlags f)) (\<lambda>(core, ids). Inr (f\<lparr>framePayload := core\<rparr>, ids))
     else Inr (f, []))"

definition handleFrame :: "frame \<Rightarrow> conn \<Rightarrow> unit result \<times> conn" where
  "handleFrame f c =
    (case frameExtensions f of
       Inl e \<Rightarrow> (Inl e, c)
     | Inr (f, ids) \<Rightarrow>
         if frameType f = 2 then handleHello f ids c
         else if frameType f = 3 then handleRejected f c
         else if frameType f = 4 then handleGoAway f c
         else (case muxDispatch (frameType f) (framePayload f)
                      (if frameCorrelation f = 0 then None else Some (frameCorrelation f))
                      (frameFlags f AND 2 \<noteq> 0) (cnMux c) of
             (v, m) \<Rightarrow> (v, c\<lparr>cnMux := m\<rparr>)))"

fun handleFrames :: "frame list \<Rightarrow> conn \<Rightarrow> unit result \<times> conn" where
  "handleFrames [] c = (Inr (), c)"
| "handleFrames (f # fs) c =
    (case handleFrame f c of
       (Inl e, c) \<Rightarrow> (Inl e, c)
     | (Inr _, c) \<Rightarrow> handleFrames fs c)"

definition updatePartialFrameTimeout :: "nat \<Rightarrow> conn \<Rightarrow> unit result \<times> conn" where
  "updatePartialFrameTimeout t c =
    (case getPendingFrameInfo (cnParser c) of
       Inl e \<Rightarrow> (Inl e, c)
     | Inr i \<Rightarrow> (Inr (), c\<lparr>cnPartialTimer := (if pendingFrameInfo.hasPending i then Some t else None)\<rparr>))"

text \<open>The body of the \<^verbatim>\<open>try\<close> of the receive loop once \<^verbatim>\<open>receive\<close> has returned.\<close>

definition receiveData :: "nat \<Rightarrow> bytes \<Rightarrow> conn \<Rightarrow> unit result \<times> conn" where
  "receiveData t data c =
    (case parseFrames data (cnParser c) of (v, q) \<Rightarrow>
      (let c = c\<lparr>cnParser := q\<rparr> in
       case v of
         Inl e \<Rightarrow> (Inl e, c)
       | Inr frames \<Rightarrow>
           (case updatePartialFrameTimeout t c of
              (Inl e, c) \<Rightarrow> (Inl e, c)
            | (Inr _, c) \<Rightarrow> handleFrames frames (if frames \<noteq> [] then confirmSession c else c))))"

definition receiveFailed :: "nat \<Rightarrow> jserror \<Rightarrow> conn \<Rightarrow> conn" where
  "receiveFailed t e c =
    (if cnReceiveLoopAbort c \<or> cnCloseRequested c then c else handleConnectionLoss e (Some t) c)"

definition received :: "nat \<Rightarrow> bytes \<Rightarrow> conn \<Rightarrow> conn" where
  "received t data c =
    (let c = c\<lparr>cnReading := remove1 t (cnReading c)\<rparr> in
     if cnTransport c \<noteq> Some t then c
     else (case receiveData t data c of
         (Inl e, c) \<Rightarrow> receiveFailed t e c
       | (Inr _, c) \<Rightarrow> receiveNext t c))"

text \<open>The timer of a partial frame, and the end of \<^verbatim>\<open>close\<close> in \<^verbatim>\<open>failPartialFrame\<close>.\<close>

definition partialFrameTimedOut :: "nat \<Rightarrow> conn \<Rightarrow> conn" where
  "partialFrameTimedOut t c =
    (let c = c\<lparr>cnPartialTimer := None\<rparr> in
     if pbuffer (cnParser c) = [] \<or> cnCloseRequested c \<or> cnReceiveLoopAbort c \<or> cnTransport c \<noteq> Some t then c
     else c\<lparr>cnOpenTransports := removeAll t (cnOpenTransports c), cnPartialFailing := t # cnPartialFailing c\<rparr>)"

definition partialFrameClosed :: "nat \<Rightarrow> conn \<Rightarrow> conn" where
  "partialFrameClosed t c =
    handleConnectionLoss (ProtocolError None) (Some t) (c\<lparr>cnPartialFailing := remove1 t (cnPartialFailing c)\<rparr>)"

definition heartbeatLost :: "nat \<Rightarrow> conn \<Rightarrow> conn" where
  "heartbeatLost t c =
    handleConnectionLoss TransportError (Some t) (c\<lparr>cnOpenTransports := removeAll t (cnOpenTransports c)\<rparr>)"

section \<open>Connecting and closing\<close>

datatype connectResult = ConnectThrows jserror | ConnectReady | ConnectShares | ConnectWaits | ConnectOpens

definition connectCall :: "bool \<Rightarrow> conn \<Rightarrow> connectResult \<times> conn" where
  "connectCall aborted c =
    (if cnPermanentlyClosed c \<or> cnCloseRequested c then (ConnectThrows connectionClosedError, c)
     else if aborted then (ConnectThrows abortError, c)
     else if cnState c = Authenticated then (ConnectReady, c)
     else if \<exists>p \<in> set (cnOpens c). \<not> opReconnect p then (ConnectShares, c)
     else if cnLoop c \<noteq> None \<or> cnState c \<in> {Connecting, Connected, Authenticating, Reconnecting} \<or>
             (cnState c = Disconnected \<and> canWaitForReconnect c)
       then (ConnectWaits, c\<lparr>cnReady := waitForReady (cnState c) (readyFailure c) False (cnReady c)\<rparr>)
     else (ConnectOpens, openStart False (c\<lparr>cnAuthRejected := False, cnReconnectExhausted := False\<rparr>)))"

definition runClose :: "conn \<Rightarrow> conn" where
  "runClose c =
    (if cnState c = Closed \<and> cnTransport c = None then c
     else
       (let c = c\<lparr>cnPermanentlyClosed := True, cnCloseRequested := True, cnReceiveLoopAbort := True,
                  cnHeartbeat := None, cnPartialTimer := None, cnHandlers := closeDispatcher (cnHandlers c)\<rparr>;
            c = setState Closed c;
            c = settleAuth (Rejected connectionClosedError) (c\<lparr>cnGate := closeGate (cnGate c)\<rparr>);
            c = emitDisconnect (c\<lparr>cnAuthOutcome := None, cnMux := muxDisconnected (cnMux c)\<rparr>);
            c = emitLifecycleEvent ''closed'' None c
        in (case cnTransport c of
              None \<Rightarrow> c
            | Some t \<Rightarrow> c\<lparr>cnTransport := None, cnOpenTransports := removeAll t (cnOpenTransports c)\<rparr>)))"

definition closeCall :: "conn \<Rightarrow> conn" where
  "closeCall c = (if cnCloseCalled c then c else runClose (c\<lparr>cnCloseCalled := True\<rparr>))"

section \<open>Requests\<close>

text \<open>
  The guard of a request that has waited: a restore may use the session that is being
  authenticated, every other request needs the authenticated state.
\<close>

definition requestAllowed :: "bool \<Rightarrow> conn \<Rightarrow> bool" where
  "requestAllowed allowReconnectRestore c \<longleftrightarrow>
     (allowReconnectRestore \<and> cnRestoreActive c \<and> cnState c = Authenticating \<and> \<not> cnCloseRequested c \<and>
        \<not> cnAuthRejected c \<and> cnTransport c \<noteq> None) \<or>
     (\<not> cnCloseRequested c \<and> cnState c = Authenticated)"

definition boundedFrame :: "int \<Rightarrow> bytes \<Rightarrow> int \<Rightarrow> int \<Rightarrow> conn \<Rightarrow> (nat \<times> bytes) result" where
  "boundedFrame mtype pl flags corr c =
    (case cnTransport c of
       None \<Rightarrow> Inl (stateError c)
     | Some t \<Rightarrow>
         andThen (encodeFrame (JInt mtype) pl (Some (JInt flags)) (Some corr)) (\<lambda>fr.
           if length fr > cnMaxMessageBytes c then Inl (ProtocolError None) else Inr (t, fr)))"

definition attachBoundary :: "attemptBoundary \<Rightarrow> jserror \<Rightarrow> jserror" where
  "attachBoundary b e = attachResilienceMeta e
     \<lparr>rmBoundary = b, rmFailure = classifyFailureKind e, rmExplicitNegative = False\<rparr>"

definition requestFailed :: "attemptBoundary \<Rightarrow> nat option \<Rightarrow> jserror \<Rightarrow> conn \<Rightarrow> conn" where
  "requestFailed b t e c = handlePossibleTransportFailure (attachBoundary b e) t c"

definition requestInternal :: "nat \<Rightarrow> bytes \<Rightarrow> int \<Rightarrow> int \<Rightarrow> bool \<Rightarrow> conn \<Rightarrow> nat result \<times> conn" where
  "requestInternal mtype pl flags now aborted c =
    (case boundedFrame (int mtype) pl flags 0 c of
       Inl e \<Rightarrow> (Inl (attachBoundary PreSend e), requestFailed PreSend (cnTransport c) e c)
     | Inr (t, fr) \<Rightarrow>
         (case issueRequest mtype fr (coTimeoutMs (cnOptions c)) now aborted (cnMux c) of
            (Inl e, m) \<Rightarrow> (Inl (attachBoundary PreSend e), requestFailed PreSend (Some t) e (c\<lparr>cnMux := m\<rparr>))
          | (Inr (r, out), m) \<Rightarrow>
              (Inr r, c\<lparr>cnMux := m, cnRequests := (r, t) # cnRequests c, cnWritten := cnWritten c @ [(t, out)]\<rparr>)))"

text \<open>
  \<^verbatim>\<open>send\<close>, with a correlation that \<^verbatim>\<open>sendCorrelated\<close> has allocated before it waits, or 0.
\<close>

definition sendFrame :: "int \<Rightarrow> bytes \<Rightarrow> int \<Rightarrow> conn \<Rightarrow> unit result \<times> conn" where
  "sendFrame mtype pl corr c =
    (case boundedFrame mtype pl 0 corr c of
       Inl e \<Rightarrow> (Inl (attachBoundary PreSend e), requestFailed PreSend (cnTransport c) e c)
     | Inr (t, fr) \<Rightarrow> (Inr (), c\<lparr>cnWritten := cnWritten c @ [(t, fr)]\<rparr>))"

definition takeCorrelation :: "conn \<Rightarrow> nat result \<times> conn" where
  "takeCorrelation c = (case allocateCorrelationId (cnMux c) of (v, m) \<Rightarrow> (v, c\<lparr>cnMux := m\<rparr>))"

end
