(* ===== verification/ConnMachine.thy ===== *)
theory ConnMachine
  imports Connection MuxMachine
begin

text \<open>
  The events of a connection and its step relation: calls of its users, what its transports do, timers, and
  the continuations of its asynchronous functions. The parts that only the connection owns
  take their own steps inside it.
\<close>

section \<open>Steps\<close>

datatype connEvent =
    ConnectCalled bool
  | OpenAborted nat
  | TransportConnected nat "unit result"
  | ConnectSent nat "jsstr result" "unit result"
  | HelloEnded nat "unit result"
  | RestoreEnded nat
  | TornDown nat
  | ReconnectTimer
  | DataReceived nat bytes
  | ReceiveRejected nat jserror
  | PartialTimer
  | PartialClosed nat
  | HeartbeatLost
  | CloseCalled
  | RequestIssued nat bytes int int bool bool
  | RequestRejected nat jserror
  | FrameSent int bytes int
  | FrameRejected nat jserror
  | CorrelationTaken
  | MuxEvent muxEvent
  | GateEvent gateEvent
  | HandlerEvent dispatcherEvent
  | ReadyWaited bool
  | ReadyEvent readyEvent

text \<open>
  What the outside may do to the multiplexer, and to the readiness waiter, without the connection: the rest happens in the
  steps of the connection itself.
\<close>

fun muxOutside :: "muxEvent \<Rightarrow> bool" where
  "muxOutside (SendThrew r e) = True"
| "muxOutside (SendResolved r) = True"
| "muxOutside (SendRejected r e a) = True"
| "muxOutside (Aborted r) = True"
| "muxOutside (TimerFired now) = True"
| "muxOutside (HandlerAdded t) = True"
| "muxOutside (HandlerRemoved t) = True"
| "muxOutside (ClassifierAdded t k f) = True"
| "muxOutside (ClassifierRemoved t k) = True"
| "muxOutside (OptionalExpected t) = True"
| "muxOutside (OptionalReleased t) = True"
| "muxOutside _ = False"

fun readyOutside :: "conn \<Rightarrow> readyEvent \<Rightarrow> bool" where
  "readyOutside c (ReadyAborted w) = True"
| "readyOutside c (ReadyTimedOut w) = True"
| "readyOutside c (SlotAcquired s f) = (s = cnState c \<and> f = readyFailure c)"
| "readyOutside c (SlotReleased k) = True"
| "readyOutside c _ = False"

inductive connStep :: "conn \<Rightarrow> connEvent \<Rightarrow> conn \<Rightarrow> bool" where
  cn_connect: "connStep c (ConnectCalled a) (snd (connectCall a c))"
| cn_abort: "findOp t c = Some p \<Longrightarrow> \<not> opReconnect p \<Longrightarrow> connStep c (OpenAborted t) (updateOp t (\<lambda>p. p\<lparr>opAborted := True\<rparr>) c)"
| cn_connected: "findOp t c = Some p \<Longrightarrow> opPhase p = TransportWait \<Longrightarrow>
    connStep c (TransportConnected t v) (openConnected p v c)"
| cn_sent: "findOp t c = Some p \<Longrightarrow> opPhase p = HelloWait \<Longrightarrow> opSent p = None \<Longrightarrow>
    connStep c (ConnectSent t token v) (connectSent t token v c)"
| cn_hello: "findOp t c = Some p \<Longrightarrow> opPhase p = HelloWait \<Longrightarrow> helloEnds p v \<Longrightarrow> connStep c (HelloEnded t v) (openHello p v c)"
| cn_restored: "findOp t c = Some p \<Longrightarrow> opPhase p = RestoreWait \<Longrightarrow> connStep c (RestoreEnded t) (openRestored p c)"
| cn_torndown: "findOp t c = Some p \<Longrightarrow> opPhase p = Teardown e u \<Longrightarrow> connStep c (TornDown t) (openTornDown p e u c)"
| cn_timer: "cnLoop c = Some (LoopSleeping n) \<Longrightarrow> connStep c ReconnectTimer (sleepOver n c)"
| cn_data: "t \<in> set (cnReading c) \<Longrightarrow> connStep c (DataReceived t data) (received t data c)"
| cn_receive: "t \<in> set (cnReading c) \<Longrightarrow>
    connStep c (ReceiveRejected t e) (receiveFailed t e (c\<lparr>cnReading := remove1 t (cnReading c)\<rparr>))"
| cn_partial: "cnPartialTimer c = Some t \<Longrightarrow> connStep c PartialTimer (partialFrameTimedOut t c)"
| cn_partial_closed: "t \<in> set (cnPartialFailing c) \<Longrightarrow> connStep c (PartialClosed t) (partialFrameClosed t c)"
| cn_heartbeat: "cnHeartbeat c = Some t \<Longrightarrow> connStep c HeartbeatLost (heartbeatLost t c)"
| cn_close: "connStep c CloseCalled (closeCall c)"
| cn_request: "requestAllowed restoring c \<Longrightarrow>
    connStep c (RequestIssued mt pl fl now ab restoring) (snd (requestInternal mt pl fl now ab c))"
| cn_rejected: "(r, t) \<in> set (cnRequests c) \<Longrightarrow> mxOutcome (cnMux c) r = Some (Inl e) \<Longrightarrow>
    connStep c (RequestRejected r e) (requestFailed PostSend (Some t) e c)"
| cn_send: "requestAllowed False c \<Longrightarrow> connStep c (FrameSent mt pl corr) (snd (sendFrame mt pl corr c))"
| cn_send_rejected: "t < cnNextTransport c \<Longrightarrow> connStep c (FrameRejected t e) (requestFailed PostSend (Some t) e c)"
| cn_correlation: "connStep c CorrelationTaken (snd (takeCorrelation c))"
| cn_mux: "muxOutside e \<Longrightarrow> muxStep (cnMux c) e m \<Longrightarrow> connStep c (MuxEvent e) (c\<lparr>cnMux := m\<rparr>)"
| cn_gate: "gateStep (cnGate c) e g \<Longrightarrow> e \<noteq> GateClose \<Longrightarrow> connStep c (GateEvent e) (c\<lparr>cnGate := g\<rparr>)"
| cn_handler: "dispatcherStep (cnHandlers c) e d \<Longrightarrow> connStep c (HandlerEvent e) (c\<lparr>cnHandlers := d\<rparr>)"
| cn_wait: "connStep c (ReadyWaited a) (c\<lparr>cnReady := waitForReady (cnState c) (readyFailure c) a (cnReady c)\<rparr>)"
| cn_ready: "readyOutside c e \<Longrightarrow> readyStep (cnReady c) e r \<Longrightarrow> connStep c (ReadyEvent e) (c\<lparr>cnReady := r\<rparr>)"

end
