(* ===== verification/ConnInv.thy ===== *)
theory ConnInv
  imports ConnMachine
begin

text \<open>
  Two invariants of a connection: one that closes is closed for good, and nobody waits for one that is
  authenticated or closed. An operation is \<open>fine\<close> when it keeps both; most operations leave
  alone what they are about, and the others set the state.
\<close>

section \<open>Operations that keep the invariant\<close>

definition good :: "conn \<Rightarrow> bool" where
  "good c \<longleftrightarrow> readyInv (cnReady c) \<and>
     (rdListeners (cnReady c) \<noteq> [] \<longrightarrow> cnState c \<noteq> Authenticated \<and> cnState c \<noteq> Closed) \<and>
     (cnCloseRequested c \<longrightarrow> cnState c = Closed \<and> cnPermanentlyClosed c)"

definition session :: "conn \<Rightarrow> bool \<times> bool \<times> nat" where
  "session c = (cnCloseRequested c, cnPermanentlyClosed c, cnNextTransport c)"

definition view :: "conn \<Rightarrow> (bool \<times> bool \<times> nat) \<times> connectionState \<times> readiness" where
  "view c = (session c, cnState c, cnReady c)"

definition fine :: "conn \<Rightarrow> conn \<Rightarrow> bool" where
  "fine c d \<longleftrightarrow> (good c \<longrightarrow> good d \<and> (cnCloseRequested c \<longrightarrow> session d = session c))"

lemma fine_refl [simp]: "fine c c"
  by (simp add: fine_def)

lemma fine_trans [trans]: "fine c d \<Longrightarrow> fine d e \<Longrightarrow> fine c e"
  by (auto simp: fine_def session_def)

lemma fine_view: "view d = view c \<Longrightarrow> fine c d"
  by (simp add: fine_def view_def session_def good_def)

lemma view_parts: "view d = view c \<Longrightarrow> cnCloseRequested d = cnCloseRequested c \<and> cnState d = cnState c"
  by (simp add: view_def session_def)

lemma view_update [simp]:
  "view (c\<lparr>cnTransport := a1\<rparr>) = view c" "view (c\<lparr>cnOpenTransports := a2\<rparr>) = view c"
  "view (c\<lparr>cnGate := a3\<rparr>) = view c" "view (c\<lparr>cnParser := a4\<rparr>) = view c" "view (c\<lparr>cnMux := a5\<rparr>) = view c"
  "view (c\<lparr>cnHandlers := a6\<rparr>) = view c" "view (c\<lparr>cnReading := a7\<rparr>) = view c"
  "view (c\<lparr>cnReceiveLoopAbort := a8\<rparr>) = view c" "view (c\<lparr>cnCloseCalled := a9\<rparr>) = view c"
  "view (c\<lparr>cnOpens := b1\<rparr>) = view c" "view (c\<lparr>cnLoop := b2\<rparr>) = view c" "view (c\<lparr>cnRestoreActive := b3\<rparr>) = view c"
  "view (c\<lparr>cnAuthOutcome := b4\<rparr>) = view c" "view (c\<lparr>cnAuthRejected := b5\<rparr>) = view c"
  "view (c\<lparr>cnSessionConfirmed := b6\<rparr>) = view c" "view (c\<lparr>cnHasEstablished := b7\<rparr>) = view c"
  "view (c\<lparr>cnReconnectExhausted := b8\<rparr>) = view c" "view (c\<lparr>cnPartialTimer := b9\<rparr>) = view c"
  "view (c\<lparr>cnPartialFailing := d1\<rparr>) = view c" "view (c\<lparr>cnHeartbeat := d2\<rparr>) = view c"
  "view (c\<lparr>cnMaxMessageBytes := d3\<rparr>) = view c" "view (c\<lparr>cnNegotiatedMax := d4\<rparr>) = view c"
  "view (c\<lparr>cnNegotiatedInFlight := d5\<rparr>) = view c" "view (c\<lparr>cnRequests := d6\<rparr>) = view c"
  "view (c\<lparr>cnWritten := d7\<rparr>) = view c" "view (c\<lparr>cnLifecycle := d8\<rparr>) = view c" "view (c\<lparr>cnGoAways := d9\<rparr>) = view c"
  "view (c\<lparr>cnDisconnects := e1\<rparr>) = view c"
  by (simp_all add: view_def session_def)

lemma view_helpers [simp]:
  "view (emitLifecycleEvent ev x c) = view c" "view (emitDisconnect c) = view c" "view (updateOp t f c) = view c"
  "view (dropOp t c) = view c" "view (settleAuth v c) = view c" "view (confirmSession c) = view c"
  "view (openFail t e c) = view c" "view (receiveNext t c) = view c"
  by (simp_all add: emitLifecycleEvent_def emitDisconnect_def updateOp_def dropOp_def settleAuth_def confirmSession_def
      openFail_def receiveNext_def Let_def split: option.split)

lemma view_frame [simp]: "view (snd (handleFrame f c)) = view c"
  by (auto simp: handleFrame_def handleHello_def handleRejected_def handleGoAway_def Let_def
      split: sum.split prod.split)

lemma view_frames: "handleFrames fs c = (v, d) \<Longrightarrow> view d = view c"
proof (induction fs arbitrary: c)
  case (Cons f fs)
  obtain w e where f: "handleFrame f c = (w, e)" by (cases "handleFrame f c")
  then have "view e = view c" using view_frame [of f c] by simp
  then show ?case using Cons f by (auto split: sum.splits)
qed simp

lemma view_data: "receiveData t data c = (v, d) \<Longrightarrow> view d = view c"
  by (auto simp: receiveData_def updatePartialFrameTimeout_def Let_def dest!: view_frames
      split: prod.splits sum.splits if_splits)

lemma view_connectSent [simp]: "view (connectSent t token v c) = view c"
  by (simp add: connectSent_def sendConnect_def split: sum.split)

lemma fine_setState: "cnCloseRequested c \<longrightarrow> s = Closed \<Longrightarrow> fine c (setState s c)"
proof -
  assume s: "cnCloseRequested c \<longrightarrow> s = Closed"
  let ?d = "c\<lparr>cnState := s\<rparr>"
  let ?r = "notifyReady s (readyFailure ?d) (cnReady c)"
  have d: "setState s c = ?d\<lparr>cnReady := ?r\<rparr>" by (simp add: setState_def Let_def)
  have "good (setState s c)" if "good c"
  proof -
    have inv: "readyInv (cnReady c)" "cnCloseRequested c \<longrightarrow> cnPermanentlyClosed c" using that by (simp_all add: good_def)
    have "rdListeners ?r = []" if "s = Authenticated \<or> s = Closed"
      using that by (intro notify_settles(1) [OF inv(1)]) (auto simp: readyFailure_def)
    then show ?thesis using inv s notify_inv [OF inv(1)] by (auto simp: d good_def)
  qed
  then show ?thesis by (simp add: fine_def d session_def)
qed

text \<open>The state is set on a connection that looks like the one an operation started from.\<close>

lemma fine_set: "view d = view c \<Longrightarrow> cnCloseRequested c \<longrightarrow> s = Closed \<Longrightarrow> fine c (setState s d)"
  using fine_trans [OF fine_view fine_setState] view_parts by metis

lemma fine_after: "view e = view d \<Longrightarrow> fine c d \<Longrightarrow> fine c e"
  using fine_trans fine_view by blast

section \<open>Every step is fine\<close>

lemma fine_open:
  "\<not> cnCloseRequested c \<Longrightarrow> cnState d = cnState c \<Longrightarrow> cnReady d = cnReady c \<Longrightarrow> \<not> cnCloseRequested d \<Longrightarrow>
    fine c (setState s d)"
  by (rule fine_trans [OF _ fine_setState]) (simp_all add: fine_def good_def)

lemma fine_openStart: "\<not> cnCloseRequested c \<Longrightarrow> fine c (openStart r c)"
  unfolding openStart_def Let_def by (auto intro!: fine_after [OF view_helpers(1)] fine_open)

lemma fine_setState_view: "view d = view c \<Longrightarrow> view e = view (setState s d) \<Longrightarrow> cnCloseRequested c \<longrightarrow> s = Closed \<Longrightarrow> fine c e"
  using fine_after [OF _ fine_set] by blast

lemma closeRequested_helpers [simp]:
  "cnCloseRequested (setState s c) = cnCloseRequested c" "cnCloseRequested (emitLifecycleEvent ev e c) = cnCloseRequested c"
  "cnCloseRequested (receiveNext t c) = cnCloseRequested c" "cnCloseRequested (settleAuth v c) = cnCloseRequested c"
  "cnCloseRequested (emitDisconnect c) = cnCloseRequested c" "cnCloseRequested (dropOp t c) = cnCloseRequested c"
  by (simp_all add: setState_def emitLifecycleEvent_def receiveNext_def settleAuth_def emitDisconnect_def dropOp_def
      updateOp_def Let_def split: option.split)

lemma fine_openConnected: "fine c (openConnected p v c)"
proof (cases "v = Inr () \<and> \<not> cnCloseRequested c \<and> \<not> opAborted p")
  case True
  let ?d = "setState Authenticating (setState Connected (receiveNext (opTransport p) c))"
  have "fine c (setState Connected (receiveNext (opTransport p) c))"
    using True by (intro fine_set) simp_all
  moreover have "fine (setState Connected (receiveNext (opTransport p) c)) ?d"
    using True by (intro fine_setState) simp
  ultimately have "fine c ?d" by (rule fine_trans)
  then show ?thesis using True by (auto simp: openConnected_def Let_def intro!: fine_after [of _ ?d])
next
  case False
  then show ?thesis by (cases v) (auto simp: openConnected_def Let_def intro!: fine_view)
qed

lemma fine_openFinish: "view d = view c \<Longrightarrow> \<not> cnCloseRequested c \<Longrightarrow> fine c (openFinish p d)"
  by (rule fine_setState_view [of "d\<lparr>cnReconnectExhausted := False\<rparr>" _ _ Authenticated])
    (simp_all add: openFinish_def Let_def)

lemma fine_openHello: "fine c (openHello p v c)"
  unfolding openHello_def Let_def
  by (auto intro!: fine_openFinish intro: fine_view split: sum.split)

lemma fine_openRestored: "fine c (openRestored p c)"
  unfolding openRestored_def Let_def by (auto intro!: fine_openFinish intro: fine_view)

lemma fine_reconnectHead:
  assumes "view d = view c" shows "fine c (reconnectHead n d)"
proof -
  have close: "cnCloseRequested d = cnCloseRequested c" using view_parts [OF assms] by simp
  consider (again) "\<not> cnCloseRequested d" "enat n < coMaxAttempts (cnOptions d)" | (closed) "cnCloseRequested d"
    | (exhausted) "\<not> cnCloseRequested d" "\<not> enat n < coMaxAttempts (cnOptions d)" by blast
  then show ?thesis
  proof cases
    case again
    then show ?thesis using assms close
      by (intro fine_setState_view [of "d\<lparr>cnLoop := Some (LoopSleeping (n + 1))\<rparr>" _ _ Reconnecting])
        (simp_all add: reconnectHead_def)
  next
    case closed
    then show ?thesis using assms
      by (intro fine_setState_view [of "d\<lparr>cnLoop := None\<rparr>" _ _ Closed]) (simp_all add: reconnectHead_def)
  next
    case exhausted
    then show ?thesis using assms close
      by (intro fine_setState_view [of "d\<lparr>cnLoop := None\<rparr>" _ _ Disconnected]) (simp_all add: reconnectHead_def)
  qed
qed

lemma fine_sleepOver: "fine c (sleepOver n c)"
proof (cases "cnCloseRequested c")
  case False
  then have "fine (c\<lparr>cnLoop := Some (LoopOpening n)\<rparr>) (sleepOver n c)"
    by (simp add: sleepOver_def fine_openStart)
  then show ?thesis by (rule fine_trans [OF fine_view, rotated]) simp
qed (simp add: sleepOver_def fine_view)

lemma fine_reconnectFailed:
  assumes "view d = view c" shows "fine c (reconnectFailed n e d)"
proof -
  have close: "cnCloseRequested d = cnCloseRequested c" using view_parts [OF assms] by simp
  consider (over) "cnCloseRequested d \<or> isAbortError e"
    | (auth) "\<not> cnCloseRequested d" "\<not> isAbortError e" "ekind e = AuthenticationErrorK"
    | (version) "\<not> cnCloseRequested d" "\<not> isAbortError e" "ekind e = ProtocolErrorK" "eDomain e = Some 50"
    | (again) "\<not> cnCloseRequested d" "\<not> isAbortError e" "ekind e \<noteq> AuthenticationErrorK"
        "\<not> (ekind e = ProtocolErrorK \<and> eDomain e = Some 50)"
    by blast
  then show ?thesis
  proof cases
    case over
    then show ?thesis using assms by (auto simp: reconnectFailed_def intro: fine_view)
  next
    case auth
    then show ?thesis using assms close
      by (intro fine_setState_view [of "d\<lparr>cnLoop := None\<rparr>" _ _ Closed]) (simp_all add: reconnectFailed_def)
  next
    case version
    then show ?thesis using assms close
      by (intro fine_setState_view [of "d\<lparr>cnLoop := None\<rparr>" _ _ Disconnected]) (simp_all add: reconnectFailed_def)
  next
    case again
    then have "reconnectFailed n e d = reconnectHead n d" by (auto simp: reconnectFailed_def)
    then show ?thesis using fine_reconnectHead [OF assms] by simp
  qed
qed

lemma fine_openTeardown: "fine c (openTeardown p e c)"
proof -
  let ?t = "opTransport p" and ?rejected = "ekind e = AuthenticationErrorK"
  let ?c = "c\<lparr>cnOpenTransports := removeAll ?t (cnOpenTransports c),
      cnTransport := (if cnTransport c = Some ?t then None else cnTransport c),
      cnAuthRejected := (?rejected \<or> cnAuthRejected c)\<rparr>"
  consider (already) "cnState c = Closed" | (closing) "cnState c \<noteq> Closed" "cnCloseRequested c"
    | (failed) "cnState c \<noteq> Closed" "\<not> cnCloseRequested c" by blast
  then show ?thesis
  proof cases
    case already
    then show ?thesis by (intro fine_view) (simp add: openTeardown_def Let_def)
  next
    case closing
    then show ?thesis
      by (intro fine_setState_view [of ?c _ _ Closed]) (simp_all add: openTeardown_def Let_def)
  next
    case failed
    then show ?thesis
      by (intro fine_setState_view [of "emitDisconnect (?c\<lparr>cnMux := muxDisconnected (cnMux ?c)\<rparr>)" _ _
            "if ?rejected then Closed else Disconnected"]) (simp_all add: openTeardown_def Let_def)
  qed
qed

lemma fine_openTornDown: "fine c (openTornDown p e u c)"
  unfolding openTornDown_def Let_def
  by (auto intro: fine_openTeardown fine_trans [OF fine_openTeardown fine_reconnectFailed [OF refl]]
      split: option.split reconnectPhase.split)

section \<open>Losing and closing\<close>

lemma fine_loss: "fine c (handleConnectionLoss e t c)"
proof (cases "t \<noteq> None \<and> cnTransport c \<noteq> t")
  case False
  define d where "d = emitDisconnect (c\<lparr>cnHeartbeat := None, cnPartialTimer := None,
      cnAuthRejected := (isUnconfirmedSessionLoss c \<or> cnAuthRejected c),
      cnMux := muxDisconnected (cnMux c), cnGate := closeGate (cnGate c)\<rparr>)"
  define f where "f = (if cnState d = Authenticating
      then settleAuth (Rejected (if isUnconfirmedSessionLoss c then AuthenticationError else ConnectionError)) d else d)"
  define h where "h = emitLifecycleEvent ''connection_lost'' (Some e) (setState Disconnected (f\<lparr>cnReconnectExhausted := False\<rparr>))"
  have eq: "handleConnectionLoss e t c =
      (if cnCloseRequested f then setState Closed f
       else if cnAuthRejected f then emitLifecycleEvent ''auth_rejected'' (Some e) (setState Closed f)
       else if coReconnect (cnOptions h) \<and> cnLoop h = None then reconnectHead 0 h else h)"
    using False unfolding handleConnectionLoss_def Let_def d_def f_def h_def by (subst if_not_P) auto
  have f: "view f = view c" by (simp add: f_def d_def)
  have h: "fine c h" if "\<not> cnCloseRequested f"
    using that f view_parts [OF f] unfolding h_def
    by (intro fine_setState_view [of "f\<lparr>cnReconnectExhausted := False\<rparr>" _ _ Disconnected]) simp_all
  consider (closing) "cnCloseRequested f" | (rejected) "\<not> cnCloseRequested f" "cnAuthRejected f"
    | (lost) "\<not> cnCloseRequested f" "\<not> cnAuthRejected f" by blast
  then show ?thesis
  proof cases
    case closing
    then show ?thesis using f by (simp add: eq fine_set)
  next
    case rejected
    then show ?thesis using f by (simp add: eq fine_set fine_after [OF view_helpers(1)])
  next
    case lost
    then show ?thesis using h fine_trans [OF h fine_reconnectHead [OF refl]] by (simp add: eq)
  qed
qed (simp add: handleConnectionLoss_def)

lemma fine_loss_of: "view d = view c \<Longrightarrow> fine c (handleConnectionLoss e t d)"
  using fine_trans [OF fine_view fine_loss] by blast

lemma fine_possibleFailure: "view d = view c \<Longrightarrow> fine c (handlePossibleTransportFailure e t d)"
  by (simp add: handlePossibleTransportFailure_def fine_loss_of fine_view)

lemma fine_receiveFailed: "view d = view c \<Longrightarrow> fine c (receiveFailed t e d)"
  by (simp add: receiveFailed_def fine_loss_of fine_view)

lemma fine_received: "fine c (received t data c)"
proof -
  let ?c = "c\<lparr>cnReading := remove1 t (cnReading c)\<rparr>"
  obtain v d where d: "receiveData t data ?c = (v, d)" by (cases "receiveData t data ?c")
  then have "view d = view c" using view_data [OF d] by simp
  then show ?thesis
    by (auto simp: received_def Let_def d intro: fine_view fine_receiveFailed split: sum.split)
qed

lemma fine_timers:
  "fine c (partialFrameTimedOut t c)" "fine c (partialFrameClosed t c)" "fine c (heartbeatLost t c)"
  by (simp_all add: partialFrameTimedOut_def partialFrameClosed_def heartbeatLost_def Let_def fine_loss_of fine_view)

lemma fine_ready:
  assumes "readyInv (cnReady c) \<Longrightarrow> readyInv r"
    and "cnState c = Authenticated \<or> cnState c = Closed \<Longrightarrow> readyInv (cnReady c) \<Longrightarrow> rdListeners (cnReady c) = [] \<Longrightarrow> rdListeners r = []"
  shows "fine c (c\<lparr>cnReady := r\<rparr>)"
  using assms by (auto simp: fine_def good_def session_def)

lemma waiting_listens: "s = Authenticated \<or> f \<noteq> None \<Longrightarrow> rdListeners (waitForReady s f a r) = rdListeners r"
  by (auto simp: waitForReady_def Let_def split: option.split)

lemma readyFailure_settled: "cnState c = Closed \<Longrightarrow> readyFailure c \<noteq> None"
  by (simp add: readyFailure_def)

lemma fine_wait: "fine c (c\<lparr>cnReady := waitForReady (cnState c) (readyFailure c) a (cnReady c)\<rparr>)"
  by (rule fine_ready) (auto simp: wait_inv waiting_listens readyFailure_settled)

lemma fine_readyOutside: "readyOutside c e \<Longrightarrow> readyStep (cnReady c) e r \<Longrightarrow> fine c (c\<lparr>cnReady := r\<rparr>)"
proof (rule fine_ready)
  show "readyInv r" if "readyInv (cnReady c)" "readyStep (cnReady c) e r"
    using readyStep_inv that by blast
  show "rdListeners r = []" if "readyOutside c e" "readyStep (cnReady c) e r" "rdListeners (cnReady c) = []"
    using that by (cases e)
      (auto elim!: readyStep.cases simp: acquireWaitSlot_def releaseWaitSlot_def)
qed

lemma fine_connectCall: "fine c (snd (connectCall a c))"
proof -
  have "fine c (openStart False (c\<lparr>cnAuthRejected := False, cnReconnectExhausted := False\<rparr>))" if "\<not> cnCloseRequested c"
    using that by (intro fine_trans [OF fine_view fine_openStart]) simp_all
  then show ?thesis by (auto simp: connectCall_def fine_wait)
qed

lemma fine_closeCall: "fine c (closeCall c)"
proof -
  let ?c = "c\<lparr>cnCloseCalled := True, cnPermanentlyClosed := True, cnCloseRequested := True, cnReceiveLoopAbort := True,
      cnHeartbeat := None, cnPartialTimer := None, cnHandlers := closeDispatcher (cnHandlers c)\<rparr>"
  have closed: "good (setState Closed ?c)" if "good c"
  proof -
    let ?r = "notifyReady Closed (readyFailure (?c\<lparr>cnState := Closed\<rparr>)) (cnReady c)"
    have inv: "readyInv (cnReady c)" using that by (simp add: good_def)
    have "rdListeners ?r = []" by (rule notify_settles(1) [OF inv]) (simp add: readyFailure_def)
    then show ?thesis using notify_inv [OF inv] by (simp add: setState_def good_def Let_def)
  qed
  have "fine c d" if d: "view d = view (setState Closed ?c)" for d
    using closed d fine_view [OF d] by (auto simp: fine_def view_def session_def good_def setState_def Let_def)
  moreover have "view (closeCall c) = view c \<or> view (closeCall c) = view (setState Closed ?c)"
    by (simp add: closeCall_def runClose_def Let_def split: option.split)
  ultimately show ?thesis using fine_view by blast
qed

lemma fine_requests:
  "fine c (snd (requestInternal mt pl fl now ab c))" "fine c (snd (sendFrame m pl corr c))"
  "fine c (requestFailed b t e c)" "fine c (snd (takeCorrelation c))"
  by (auto simp: requestInternal_def sendFrame_def requestFailed_def takeCorrelation_def
      intro: fine_view fine_possibleFailure split: sum.split prod.split)

lemma connStep_fine: "connStep c e c' \<Longrightarrow> fine c c'"
  by (erule connStep.cases)
    (simp_all add: fine_connectCall fine_openConnected fine_openHello fine_openRestored fine_openTornDown fine_sleepOver
      fine_received fine_receiveFailed fine_timers fine_closeCall fine_requests fine_wait fine_readyOutside fine_view)

section \<open>The machine\<close>

lemma create_good: "good (createConnection opts handlers)"
  using create_ready_inv [of "coMaxQueue opts"]
  by (simp add: good_def createConnection_def)

interpretation connection: machine "createConnection opts handlers" connStep good for opts handlers
  using connStep_fine by unfold_locales (auto simp: create_good fine_def)

lemma run_closing: "run connStep c es c' \<Longrightarrow> good c \<Longrightarrow> cnCloseRequested c \<Longrightarrow> good c' \<and> session c' = session c"
proof (induction rule: run.induct)
  case (run_more c es d e d')
  then have "good d" "session d = session c" by simp_all
  moreover from this run_more.prems have "cnCloseRequested d" by (simp add: session_def)
  ultimately show ?case using connStep_fine [OF run_more.hyps(2)] by (simp add: fine_def)
qed simp

lemma closeCall_requests:
  assumes "\<not> cnCloseCalled c" and "\<not> (cnState c = Closed \<and> cnTransport c = None)"
  shows "cnCloseRequested (closeCall c)" and "cnNextTransport (closeCall c) = cnNextTransport c"
  using assms
  by (auto simp: closeCall_def runClose_def settleAuth_def Let_def emitLifecycleEvent_def emitDisconnect_def setState_def updateOp_def
      split: option.splits)

text \<open>
  C6: closing is final. From the first call of \<^verbatim>\<open>close\<close> on, whatever was under way (a connection attempt, a
  reconnect, a restore, frames that still arrive) and whatever is called after it, the connection stays
  closed, never creates a transport again, lets nobody wait and refuses every \<^verbatim>\<open>connect\<close>. The exception is a connection that had
  already ended by itself, with state CLOSED and no transport, as after a refused authentication: there \<^verbatim>\<open>close\<close>
  leaves the state as it is, and because its promise is kept, a second call does nothing either.
\<close>

theorem closed_is_final:
  assumes "reachable connStep (createConnection opts handlers) c" and "\<not> cnCloseCalled c"
    and "run connStep (closeCall c) es d"
  shows "if cnState c = Closed \<and> cnTransport c = None
    then closeCall c = c\<lparr>cnCloseCalled := True\<rparr> \<and> closeCall (closeCall c) = closeCall c
    else cnState d = Closed \<and> cnNextTransport d = cnNextTransport c \<and> rdListeners (cnReady d) = [] \<and>
      fst (connectCall a d) = ConnectThrows connectionClosedError"
proof (cases "cnState c = Closed \<and> cnTransport c = None")
  case True
  then show ?thesis using assms(2) by (simp add: closeCall_def runClose_def)
next
  case False
  note close = closeCall_requests [OF assms(2) False]
  have "good (closeCall c)"
    by (rule connection.reachable_inv [OF reachable_step [where step = connStep, OF assms(1) cn_close]])
  then have "good d \<and> session d = session (closeCall c)" using run_closing assms(3) close(1) by blast
  then show ?thesis using False close by (auto simp: good_def session_def connectCall_def)
qed

definition plainOptions :: "bool \<Rightarrow> connOptions" where
  "plainOptions reconnect = \<lparr>coTimeoutMs = 30000, coReconnect = reconnect, coMaxAttempts = 1, coHeartbeat = True,
     coMaxInFlight = 256, coMaxQueue = 1024, coServiceName = []\<rparr>"

definition fresh :: "bool \<Rightarrow> conn" where
  "fresh reconnect = createConnection (plainOptions reconnect) (createAsyncHandlerDispatcher NotFinite None)"

theorem closed_is_final_witness:
  "let c = closeCall (fresh True); d = snd (connectCall False c) in cnState d = Closed \<and> cnNextTransport d = 0 \<and>
     fst (connectCall False d) = ConnectThrows connectionClosedError"
proof -
  let ?c = "closeCall (fresh True)"
  have f: "\<not> cnCloseCalled (fresh True)" "cnState (fresh True) = Disconnected" "cnNextTransport (fresh True) = 0"
    by (simp_all add: fresh_def createConnection_def)
  have "run connStep ?c [ConnectCalled False] (snd (connectCall False ?c))"
    by (rule run_one [of connStep, OF cn_connect])
  from closed_is_final [OF reachable_start f(1) [unfolded fresh_def] this [unfolded fresh_def]]
  show ?thesis using f by (simp add: fresh_def Let_def)
qed

text \<open>
  C7: nobody waits in vain for a connection that has made up its mind. In every reachable state a
  caller whose wait for readiness is not settled waits for a connection that is neither authenticated nor closed,
  and the number of wait slots keeps to its bound.
\<close>

theorem waiters_are_answered:
  assumes "reachable connStep (createConnection opts handlers) c"
    and "w < rdNext (cnReady c)" and "rdOutcome (cnReady c) w = None"
  shows "cnState c \<noteq> Authenticated \<and> cnState c \<noteq> Closed \<and> enat (card (rdSlots (cnReady c))) \<le> rdMaxWaiters (cnReady c)"
proof -
  have good: "good c" by (rule connection.reachable_inv [OF assms(1)])
  then have "w \<in> set (rdListeners (cnReady c))" using assms(2,3) by (simp add: good_def readyInv_def readyWaiting_def)
  then show ?thesis using good by (auto simp: good_def readyInv_def)
qed

theorem waiters_are_answered_witness:
  "let b = snd (connectCall False (fresh True));
       c = b\<lparr>cnReady := waitForReady (cnState b) (readyFailure b) False (cnReady b)\<rparr>
   in rdOutcome (cnReady c) 0 = None \<and> cnState c \<noteq> Authenticated"
proof -
  let ?b = "snd (connectCall False (fresh True))"
  let ?c = "?b\<lparr>cnReady := waitForReady (cnState ?b) (readyFailure ?b) False (cnReady ?b)\<rparr>"
  have "reachable connStep (fresh True) ?c"
    by (rule reachable_step [where step = connStep, OF reachable_step [where step = connStep, OF reachable_start cn_connect] cn_wait])
  note main = waiters_are_answered [OF this [unfolded fresh_def], of 0]
  have b: "cnState ?b = Connecting" "cnReady ?b = createReadinessWaiter 1024" "cnCloseRequested ?b = False"
      "cnPermanentlyClosed ?b = False" "cnAuthRejected ?b = False"
    by (simp_all add: connectCall_def fresh_def createConnection_def plainOptions_def openStart_def Let_def setState_def
        emitLifecycleEvent_def canWaitForReconnect_def notifyReady_def createReadinessWaiter_def)
  have "rdOutcome (cnReady ?c) 0 = None" "0 < rdNext (cnReady ?c)"
    by (simp_all add: b readyFailure_def waitForReady_def onStateChange_def createReadinessWaiter_def Let_def)
  then show ?thesis using main by (simp add: fresh_def)
qed

end
