(* ===== verification/ConnFaults.thy ===== *)
theory ConnFaults
  imports ConnInv
begin

text \<open>
  Runs of a connection in which something is lost: a rejected first CONNECT after which no transport is ever
  opened again, a session that is authenticated although nobody reads it, waiters that are not told
  that reconnecting has ended, and a transport that stays open.
\<close>

section \<open>Messages of a broker\<close>

text \<open>CONNECT_REJECTED with code 50, and a HELLO with its capability extension.\<close>

definition versionRejection :: bytes where
  "versionRejection = [0,3, 0, 0,0,0,0,0,0,0,0, 0,0,0,6, 0,50, 0,0,0,0]"

definition rejectFrame :: frame where
  "rejectFrame = \<lparr>frameType = 3, frameFlags = 0, frameCorrelation = 0, framePayload = [0,50,0,0,0,0]\<rparr>"

abbreviation freshParser :: frameParser where
  "freshParser \<equiv> createFrameParser DEFAULT_MAX_MESSAGE_BYTES"

lemma parse_reject: "parseFrames versionRejection freshParser = (Inr [rejectFrame], freshParser)"
  by (simp add: parseFrames_def versionRejection_def rejectFrame_def createFrameParser_def DEFAULT_MAX_MESSAGE_BYTES_def
      getUint_def unbe_def decodeFrame_def Let_def)

lemma decode_reject: "decodeConnectRejected [0,50,0,0,0,0] = Inr \<lparr>rejectCode = 50, rejectMessage = []\<rparr>"
  by code_simp

lemma handle_reject:
  "handleFrame rejectFrame c = (Inr (), settleAuth (Rejected (ProtocolError (Some 50))) c)"
  by (simp add: handleFrame_def frameExtensions_def rejectFrame_def handleRejected_def decode_reject FLAG_EXTENSIONS_PRESENT_def)

section \<open>The first steps of every run\<close>

definition connecting :: "bool \<Rightarrow> conn" where
  "connecting r = snd (connectCall False (fresh r))"

definition firstOp :: openOp where
  "firstOp = \<lparr>opReconnect = False, opTransport = 0, opPhase = TransportWait, opSent = None, opAuth = Pending, opAborted = False\<rparr>"

definition awaitingHello :: "bool \<Rightarrow> conn" where
  "awaitingHello r = openConnected firstOp (Inr ()) (connecting r)"

lemmas conn_eval = Let_def setState_def emitLifecycleEvent_def emitDisconnect_def updateOp_def dropOp_def findOp_def
  settleAuth_def canWaitForReconnect_def readyFailure_def notify_quiet

lemma connecting_facts:
  "cnState (connecting r) = Connecting" "cnTransport (connecting r) = Some 0" "cnNextTransport (connecting r) = 1"
  "cnOpens (connecting r) = [firstOp]" "cnParser (connecting r) = freshParser" "cnReading (connecting r) = []"
  "cnCloseRequested (connecting r) = False" "cnReceiveLoopAbort (connecting r) = False" "cnLoop (connecting r) = None"
  "cnAuthRejected (connecting r) = False" "cnOptions (connecting r) = plainOptions r" "cnSessionConfirmed (connecting r) = False"
  "cnReconnectExhausted (connecting r) = False" "cnMux (connecting r) = createMultiplexer" "cnPartialFailing (connecting r) = []"
  "cnOpenTransports (connecting r) = [0]" "cnReady (connecting r) = createReadinessWaiter 1024"
  "cnPermanentlyClosed (connecting r) = False"
  by (simp_all add: connecting_def connectCall_def fresh_def createConnection_def plainOptions_def openStart_def conn_eval
      firstOp_def resetParser_def createFrameParser_def notifyReady_def createReadinessWaiter_def)

lemma hello_facts:
  "cnState (awaitingHello r) = Authenticating" "cnTransport (awaitingHello r) = Some 0" "cnNextTransport (awaitingHello r) = 1"
  "cnOpens (awaitingHello r) = [firstOp\<lparr>opPhase := HelloWait\<rparr>]" "cnParser (awaitingHello r) = freshParser"
  "cnReading (awaitingHello r) = [0]" "cnCloseRequested (awaitingHello r) = False" "cnReceiveLoopAbort (awaitingHello r) = False"
  "cnLoop (awaitingHello r) = None" "cnAuthRejected (awaitingHello r) = False" "cnOptions (awaitingHello r) = plainOptions r"
  "cnSessionConfirmed (awaitingHello r) = False" "cnReconnectExhausted (awaitingHello r) = False"
  "cnMux (awaitingHello r) = createMultiplexer" "cnAuthOutcome (awaitingHello r) = Some 0" "cnPartialFailing (awaitingHello r) = []"
  "cnOpenTransports (awaitingHello r) = [0]" "cnReady (awaitingHello r) = createReadinessWaiter 1024"
  "cnPermanentlyClosed (awaitingHello r) = False"
  by (simp_all add: awaitingHello_def openConnected_def receiveNext_def conn_eval connecting_facts notifyReady_def createReadinessWaiter_def)
    (simp_all add: firstOp_def)

lemma run_hello:
  "run connStep (awaitingHello r) es c \<Longrightarrow> run connStep (fresh r) (ConnectCalled False # TransportConnected 0 (Inr ()) # es) c"
proof -
  assume run: "run connStep (awaitingHello r) es c"
  have "connStep (fresh r) (ConnectCalled False) (connecting r)" unfolding connecting_def by (rule cn_connect)
  moreover have "connStep (connecting r) (TransportConnected 0 (Inr ())) (awaitingHello r)"
    unfolding awaitingHello_def by (rule cn_connected) (simp_all add: findOp_def connecting_facts firstOp_def)
  ultimately show ?thesis using run run_cons [of connStep] by blast
qed

section \<open>A rejected first CONNECT\<close>

text \<open>
  Nothing is under way, the state is DISCONNECTED, and the flags say that a reconnect is on its way. Only \<^verbatim>\<open>close\<close>
  leads out of such a state.
\<close>

definition stuck :: "nat \<Rightarrow> conn \<Rightarrow> bool" where
  "stuck n c \<longleftrightarrow> cnNextTransport c = n \<and> cnOpens c = [] \<and> cnLoop c = None \<and> cnTransport c = None \<and>
     cnHeartbeat c = None \<and> cnPartialFailing c = [] \<and>
     (cnCloseRequested c \<or> cnState c = Disconnected \<and> canWaitForReconnect c \<and> cnReceiveLoopAbort c)"

lemma stuck_update [simp]:
  "stuck n (c\<lparr>cnReady := x1\<rparr>) = stuck n c" "stuck n (c\<lparr>cnReading := x2\<rparr>) = stuck n c" "stuck n (c\<lparr>cnMux := x3\<rparr>) = stuck n c"
  "stuck n (c\<lparr>cnGate := x4\<rparr>) = stuck n c" "stuck n (c\<lparr>cnHandlers := x5\<rparr>) = stuck n c" "stuck n (c\<lparr>cnPartialTimer := x6\<rparr>) = stuck n c"
  by (simp_all add: stuck_def canWaitForReconnect_def)

lemma stuck_step: "stuck n c \<Longrightarrow> connStep c e c' \<Longrightarrow> stuck n c'"
proof -
  assume stuck: "stuck n c" and step: "connStep c e c'"
  have idle: "findOp t c = None" for t using stuck by (simp add: stuck_def findOp_def)
  have failed: "requestFailed b t x c = c" for b t x
    using stuck by (auto simp: stuck_def requestFailed_def handlePossibleTransportFailure_def)
  have "\<not> requestAllowed r c" for r using stuck by (auto simp: stuck_def requestAllowed_def)
  with step stuck idle show ?thesis
  proof cases
    case (cn_connect a)
    then show ?thesis using stuck by (auto simp: connectCall_def stuck_def canWaitForReconnect_def)
  next
    case (cn_data t data)
    then show ?thesis using stuck by (simp add: received_def Let_def) (simp add: stuck_def)
  next
    case (cn_receive t x)
    then show ?thesis using stuck by (simp add: receiveFailed_def) (auto simp: stuck_def)
  next
    case (cn_partial t)
    then show ?thesis using stuck by (auto simp: partialFrameTimedOut_def Let_def stuck_def canWaitForReconnect_def)
  next
    case cn_close
    have "stuck n (runClose (c\<lparr>cnCloseCalled := True\<rparr>))"
      using stuck by (cases "cnState c = Closed")
        (simp_all add: runClose_def stuck_def setState_def settleAuth_def updateOp_def emitDisconnect_def
          emitLifecycleEvent_def Let_def canWaitForReconnect_def split: option.split)
    then show ?thesis using cn_close stuck by (simp add: closeCall_def)
  next
    case cn_correlation
    then show ?thesis using stuck by (simp add: takeCorrelation_def split: prod.split)
  qed (use stuck in \<open>auto simp: stuck_def failed canWaitForReconnect_def\<close>)
qed

lemma stuck_reachable: "reachable connStep c d \<Longrightarrow> stuck n c \<Longrightarrow> stuck n d"
proof -
  have "run connStep c es d \<Longrightarrow> stuck n c \<Longrightarrow> stuck n d" for es
    by (induction rule: run.induct) (auto intro: stuck_step)
  then show "reachable connStep c d \<Longrightarrow> stuck n c \<Longrightarrow> stuck n d" by (auto simp: reachable_def)
qed

definition rejected :: conn where
  "rejected = received 0 versionRejection (awaitingHello True)"

abbreviation versionError :: jserror where
  "versionError \<equiv> ProtocolError (Some 50)"

lemma updateOp_single: "cnOpens c = [p] \<Longrightarrow> updateOp (opTransport p) f c = c\<lparr>cnOpens := [f p]\<rparr>"
  by (simp add: updateOp_def)

lemma quiet_parser: "cnParser c = freshParser \<Longrightarrow> updatePartialFrameTimeout t c = (Inr (), c\<lparr>cnPartialTimer := None\<rparr>)"
  by (simp add: updatePartialFrameTimeout_def getPendingFrameInfo_def createFrameParser_def Let_def)

lemma received_frame:
  assumes "parseFrames data freshParser = (Inr [f], freshParser)" and "cnParser c = freshParser" and "cnTransport c = Some t"
    and "handleFrame f (confirmSession (c\<lparr>cnReading := remove1 t (cnReading c), cnParser := freshParser, cnPartialTimer := None\<rparr>)) = (Inr (), d)"
  shows "received t data c = receiveNext t d"
  using assms by (simp add: received_def receiveData_def Let_def quiet_parser)

lemma rejected_facts:
  "cnState rejected = Authenticating" "cnTransport rejected = Some 0" "cnNextTransport rejected = 1"
  "cnOpens rejected = [firstOp\<lparr>opPhase := HelloWait, opAuth := Rejected versionError\<rparr>]"
  "cnCloseRequested rejected = False" "cnLoop rejected = None" "cnAuthRejected rejected = False"
  "cnOptions rejected = plainOptions True" "cnSessionConfirmed rejected = True" "cnHasEstablished rejected = True"
  "cnReconnectExhausted rejected = False" "cnPartialFailing rejected = []" "cnReady rejected = createReadinessWaiter 1024"
  "cnPermanentlyClosed rejected = False"
proof -
  let ?c = "awaitingHello True"
  let ?d = "settleAuth (Rejected versionError)
      (confirmSession (?c\<lparr>cnReading := remove1 0 (cnReading ?c), cnParser := freshParser, cnPartialTimer := None\<rparr>))"
  have "rejected = receiveNext 0 ?d"
    unfolding rejected_def by (rule received_frame [OF parse_reject]) (simp_all add: hello_facts handle_reject)
  moreover have "receiveNext 0 ?d = ?d\<lparr>cnReading := [0]\<rparr>"
    by (simp add: receiveNext_def settleAuth_def confirmSession_def updateOp_def hello_facts)
  ultimately have eq: "rejected = ?d\<lparr>cnReading := [0]\<rparr>" by simp
  show "cnState rejected = Authenticating" "cnTransport rejected = Some 0" "cnNextTransport rejected = 1"
    "cnOpens rejected = [firstOp\<lparr>opPhase := HelloWait, opAuth := Rejected versionError\<rparr>]"
    "cnCloseRequested rejected = False" "cnLoop rejected = None" "cnAuthRejected rejected = False"
    "cnOptions rejected = plainOptions True" "cnSessionConfirmed rejected = True" "cnHasEstablished rejected = True"
    "cnReconnectExhausted rejected = False" "cnPartialFailing rejected = []" "cnReady rejected = createReadinessWaiter 1024"
  "cnPermanentlyClosed rejected = False"
    unfolding eq by (simp_all add: settleAuth_def confirmSession_def updateOp_def hello_facts) (simp_all add: firstOp_def)
qed

lemma firstOp_fields [simp]: "opTransport firstOp = 0" "opReconnect firstOp = False" "opAborted firstOp = False"
  by (simp_all add: firstOp_def)

text \<open>
  A first CONNECT that the broker rejects for any reason but authentication, here with code 50, leaves a client
  with reconnecting enabled unusable: the connection is DISCONNECTED, nothing will ever
  reconnect it, and yet every later \<^verbatim>\<open>connect\<close> only waits for that. Whatever happens from there on, no transport is created any more.
\<close>

theorem rejected_connect_is_never_retried:
  "\<exists>c. run connStep (fresh True) [ConnectCalled False, TransportConnected 0 (Inr ()), DataReceived 0 versionRejection,
         HelloEnded 0 (Inl versionError), TornDown 0] c \<and>
     cnState c = Disconnected \<and> fst (connectCall False c) = ConnectWaits \<and>
     Collect (reachable connStep c) \<subseteq> {d. cnNextTransport d = 1 \<and> cnLoop d = None}"
proof -
  let ?p = "firstOp\<lparr>opPhase := HelloWait, opAuth := Rejected versionError\<rparr>"
  let ?q = "?p\<lparr>opPhase := Teardown versionError False\<rparr>"
  define c3 where "c3 = openHello ?p (Inl versionError) rejected"
  define c4 where "c4 = openTornDown ?q versionError False c3"
  have c3: "cnOpens c3 = [?q]" "cnState c3 = Authenticating" "cnTransport c3 = Some 0" "cnNextTransport c3 = 1"
      "cnCloseRequested c3 = False" "cnLoop c3 = None" "cnAuthRejected c3 = False" "cnOptions c3 = plainOptions True"
      "cnHasEstablished c3 = True" "cnReconnectExhausted c3 = False" "cnPartialFailing c3 = []" "cnHeartbeat c3 = None"
      "cnReceiveLoopAbort c3 = True" "cnPermanentlyClosed c3 = False"
    by (simp_all add: c3_def openHello_def openFail_def updateOp_def isUnconfirmedSessionLoss_def rejected_facts Let_def)
  have kind: "ekind versionError = ProtocolErrorK" "\<not> isAbortError versionError"
    by (simp_all add: error_defs isAbortError_def)
  have c4: "cnState c4 = Disconnected" "stuck 1 c4" "cnPermanentlyClosed c4 = False" "cnCloseRequested c4 = False" "canWaitForReconnect c4"
    by (simp_all add: c4_def openTornDown_def openTeardown_def openFailure_def setState_def emitLifecycleEvent_def
        emitDisconnect_def dropOp_def c3 kind stuck_def canWaitForReconnect_def plainOptions_def Let_def)
  have steps: "connStep (awaitingHello True) (DataReceived 0 versionRejection) rejected"
      "connStep rejected (HelloEnded 0 (Inl versionError)) c3" "connStep c3 (TornDown 0) c4"
  proof -
    show "connStep (awaitingHello True) (DataReceived 0 versionRejection) rejected"
      unfolding rejected_def by (rule cn_data) (simp add: hello_facts)
    show "connStep rejected (HelloEnded 0 (Inl versionError)) c3"
      unfolding c3_def by (rule cn_hello) (simp_all add: findOp_def rejected_facts helloEnds_def)
    show "connStep c3 (TornDown 0) c4"
      unfolding c4_def by (rule cn_torndown) (simp_all add: findOp_def c3)
  qed
  note run = run_cons [of connStep, OF steps(1) run_cons [of connStep, OF steps(2) run_one [of connStep, OF steps(3)]]]
  have "Collect (reachable connStep c4) \<subseteq> {d. cnNextTransport d = 1 \<and> cnLoop d = None}"
    using stuck_reachable [OF _ c4(2)] by (auto simp: stuck_def)
  moreover have "fst (connectCall False c4) = ConnectWaits"
    using c4 by (simp add: connectCall_def stuck_def)
  ultimately show ?thesis using run_hello [OF run] c4(1) by blast
qed

section \<open>A connection that closed by itself\<close>

text \<open>
  A first CONNECT that is not answered in time is taken for a refused authentication and leaves the connection CLOSED. A \<^verbatim>\<open>close\<close> of it does
  not mark it as closed: a later \<^verbatim>\<open>connect\<close> opens a second transport, and because the promise of the first
  \<^verbatim>\<open>close\<close> is kept, no further \<^verbatim>\<open>close\<close> ever closes that one.
\<close>

theorem closed_by_itself_reopens:
  "\<exists>c. run connStep (fresh False) [ConnectCalled False, TransportConnected 0 (Inr ()), HelloEnded 0 (Inl ConnectionError), TornDown 0,
         CloseCalled, ConnectCalled False] c \<and>
     cnState c = Connecting \<and> cnTransport c = Some 1 \<and> closeCall c = c"
proof -
  let ?p = "firstOp\<lparr>opPhase := HelloWait\<rparr>"
  let ?q = "?p\<lparr>opPhase := Teardown ConnectionError True\<rparr>"
  define c3 where "c3 = openHello ?p (Inl ConnectionError) (awaitingHello False)"
  define c4 where "c4 = openTornDown ?q ConnectionError True c3"
  define c5 where "c5 = closeCall c4"
  define c6 where "c6 = snd (connectCall False c5)"
  have called: "cnCloseCalled (awaitingHello False) = False" "cnRestoreActive (awaitingHello False) = False"
    by (simp_all add: awaitingHello_def openConnected_def receiveNext_def conn_eval connecting_facts connecting_def connectCall_def fresh_def
        createConnection_def plainOptions_def openStart_def notifyReady_def createReadinessWaiter_def)
  have c3: "cnOpens c3 = [?q]" "cnState c3 = Authenticating" "cnTransport c3 = Some 0" "cnNextTransport c3 = 1"
      "cnCloseRequested c3 = False" "cnLoop c3 = None" "cnPermanentlyClosed c3 = False" "cnCloseCalled c3 = False"
    using called by (simp_all add: c3_def openHello_def openFail_def updateOp_def isUnconfirmedSessionLoss_def hello_facts Let_def)
  have kind: "\<not> isAbortError ConnectionError" "ekind AuthenticationError = AuthenticationErrorK"
    by (simp_all add: error_defs isAbortError_def)
  have c4: "cnState c4 = Closed" "cnTransport c4 = None" "cnOpens c4 = []" "cnNextTransport c4 = 1" "cnLoop c4 = None"
      "cnCloseRequested c4 = False" "cnPermanentlyClosed c4 = False" "cnCloseCalled c4 = False"
    by (simp_all add: c4_def openTornDown_def openTeardown_def openFailure_def setState_def emitLifecycleEvent_def
        emitDisconnect_def dropOp_def c3 kind Let_def)
  have c5: "c5 = c4\<lparr>cnCloseCalled := True\<rparr>" using c4 by (simp add: c5_def closeCall_def runClose_def)
  have c6: "cnState c6 = Connecting" "cnTransport c6 = Some 1" "cnCloseCalled c6"
    using c4 by (simp_all add: c6_def c5 connectCall_def openStart_def setState_def emitLifecycleEvent_def Let_def)
  have steps: "connStep (awaitingHello False) (HelloEnded 0 (Inl ConnectionError)) c3" "connStep c3 (TornDown 0) c4"
      "connStep c4 CloseCalled c5" "connStep c5 (ConnectCalled False) c6"
  proof -
    show "connStep (awaitingHello False) (HelloEnded 0 (Inl ConnectionError)) c3"
      unfolding c3_def by (rule cn_hello) (simp_all add: findOp_def hello_facts helloEnds_def)
    show "connStep c3 (TornDown 0) c4"
      unfolding c4_def by (rule cn_torndown) (simp_all add: findOp_def c3)
    show "connStep c4 CloseCalled c5" unfolding c5_def by (rule cn_close)
    show "connStep c5 (ConnectCalled False) c6" unfolding c6_def by (rule cn_connect)
  qed
  have "run connStep (awaitingHello False) [HelloEnded 0 (Inl ConnectionError), TornDown 0, CloseCalled, ConnectCalled False] c6"
    by (rule run_cons [of connStep, OF steps(1) run_cons [of connStep, OF steps(2)
          run_cons [of connStep, OF steps(3) run_one [of connStep, OF steps(4)]]]])
  moreover have "closeCall c6 = c6" using c6(3) by (simp add: closeCall_def)
  ultimately show ?thesis using run_hello [of False] c6 by blast
qed

end
