(* ===== verification/Handshake.thy ===== *)
theory Handshake
  imports Connection
begin

text \<open>
  The CONNECT message a connection sends: its layout, and that the fields of the wire protocol read it back.
\<close>

definition connectCore :: "jsstr \<Rightarrow> jsstr \<Rightarrow> bytes" where
  "connectCore token serviceName =
    be 2 (int 3) @ be 2 (int 3) @ be 4 (int 0) @ strField token @ strField serviceName @ strField (js ''fitz-ts/4.0.0'')"

definition connectPayload :: "jsstr \<Rightarrow> jsstr \<Rightarrow> bytes" where
  "connectPayload token serviceName = extensionBytes (connectCore token serviceName) [capsField [1, 2]]"

lemma encodeConnect_eq: "encodeConnect token serviceName (js ''fitz-ts/4.0.0'') = Inr (connectCore token serviceName)"
proof -
  have "appends (\<lambda>w. andThen (writeU16BE 3 w) (\<lambda>w. andThen (writeU16BE 3 w) (\<lambda>w. andThen (writeU32BE 0 w)
      (\<lambda>w. andThen (writeString token w) (\<lambda>w. andThen (writeString serviceName w) (writeString (js ''fitz-ts/4.0.0'')))))))
      (connectCore token serviceName)"
    unfolding connectCore_def of_nat_numeral of_nat_0
    by (intro appends_seq appends_U16BE appends_U32BE appends_String) (simp_all add: appends_U32BE)
  from appends_run [OF this, of 4096] show ?thesis by (simp add: encodeConnect_def)
qed

lemma encodeFrame_plain: "encodeFrame t pl fl None = encodeFrame t pl fl (Some 0)"
  by (simp add: encodeFrame_def)

lemma connectFrame_eq:
  assumes "length (connectPayload token serviceName) + 15 \<le> 1024 * 1024"
  shows "connectFrame token serviceName = Inr (frameBytes 1 4 0 (connectPayload token serviceName))"
proof -
  have caps: "encodeCapabilities (map (\<lambda>i. JInt (int i)) CLIENT_CAPABILITY_IDS) = Inr (snd (capsField [1, 2]))"
    using encodeCapabilities_layout [of "[1, 2]"] by (simp add: CLIENT_CAPABILITY_IDS_def capsField_def)
  have "encodeExtensions (connectCore token serviceName) (jsFields [capsField [1, 2]]) = Inr (connectPayload token serviceName)"
    unfolding connectPayload_def
    by (rule encodeExtensions_layout) (use assms in \<open>simp_all add: connectPayload_def, simp add: capsField_def\<close>)
  then have ext: "encodeExtensions (connectCore token serviceName) [(JInt 1, snd (capsField [1, 2]))] =
      Inr (connectPayload token serviceName)"
    by (simp add: jsFields_def capsField_def)
  have "encodeFrame (JInt 1) (connectPayload token serviceName) (Some (JInt 4)) None =
      Inr (frameBytes 1 4 0 (connectPayload token serviceName))"
    using encodeFrame_int [of 1 "connectPayload token serviceName" 4 0] assms
    by (simp only: encodeFrame_plain) (simp add: frameArgs_def DEFAULT_MAX_MESSAGE_BYTES_def MAX_U64_def)
  with caps ext show ?thesis
    by (simp add: connectFrame_def encodeConnect_eq FLAG_EXTENSIONS_PRESENT_def del: One_nat_def)
qed

text \<open>The fields of a CONNECT in the order of the wire protocol.\<close>

definition readConnect :: "bytes \<Rightarrow> (nat \<times> nat \<times> nat \<times> jsstr \<times> jsstr \<times> jsstr) result" where
  "readConnect pl =
    andThen (readU16BE (createBufferReader pl)) (\<lambda>(low, r).
    andThen (readU16BE r) (\<lambda>(high, r).
    andThen (readU32BE r) (\<lambda>(caps, r).
    andThen (readString r) (\<lambda>(token, r).
    andThen (readString r) (\<lambda>(name, r).
    andThen (readString r) (\<lambda>(build, r).
    if isEOF r then Inr (low, high, caps, token, name, build) else Inl CodecError))))))"

lemma wireString_build: "wireString (js ''fitz-ts/4.0.0'')"
  using length_utf8Encode [of "js ''fitz-ts/4.0.0''"]
  by (simp add: js_def wireString_def wireText_def bomFree_def isHigh_def isLow_def)

lemma readConnect_core:
  assumes "wireString token" and "wireString serviceName"
  shows "readConnect (connectCore token serviceName) = Inr (3, 3, 0, token, serviceName, js ''fitz-ts/4.0.0'')"
  using assms wireString_build
  using readU32BE_be [of 0]
  by (simp add: readConnect_def connectCore_def reader_simps del: of_nat_numeral)

text \<open>
  C34: the CONNECT a connection sends arrives as it was meant. Its frame decodes to type 1 with the
  extension flag and no correlation, the extensions split off again, and the fields of the
  core read back as the version range 3 to 3, no capability bits, the token, the service name and the build. Version 3 is the one that
  \<^verbatim>\<open>docs/OPERATIONS.md\<close> and the changelog name and \<^verbatim>\<open>tests/unit/client/connection.test.ts\<close> expects; the file comment of
  \<^verbatim>\<open>connection.ts\<close> and entry CS-020 of the cross-language conformance suite still say
  version 2, and a client that sends this message does not meet CS-020 as written.
\<close>

theorem connect_message_reads_back:
  assumes "wireString token" and "wireString serviceName"
    and "length (connectPayload token serviceName) + 15 \<le> 1024 * 1024"
  shows "\<exists>fr f core. connectFrame token serviceName = Inr fr \<and> decodeFrame fr DEFAULT_MAX_MESSAGE_BYTES = Inr f \<and>
    frameType f = 1 \<and> frameFlags f = FLAG_EXTENSIONS_PRESENT \<and> frameCorrelation f = 0 \<and>
    decodeExtensions (framePayload f) 1 4 = Inr (core, []) \<and>
    readConnect core = Inr (3, 3, 0, token, serviceName, js ''fitz-ts/4.0.0'')"
proof -
  let ?core = "connectCore token serviceName"
  let ?pl = "connectPayload token serviceName"
  have "wireHeader 1 4 0 ?pl" using assms(3) by (simp add: wireHeader_def)
  from decodeFrame_frameBytes [OF this, of DEFAULT_MAX_MESSAGE_BYTES] assms(3)
  have dec: "decodeFrame (frameBytes 1 4 0 ?pl) DEFAULT_MAX_MESSAGE_BYTES =
      Inr \<lparr>frameType = 1, frameFlags = 4, frameCorrelation = 0, framePayload = ?pl\<rparr>"
    by (simp add: DEFAULT_MAX_MESSAGE_BYTES_def)
  have "length ?core < 4294967296" using assms(3) by (simp add: connectPayload_def extensionBytes_def)
  moreover have "extensionLoop ((be 4 (int (length ?core)) @ ?core) @ concat (map extField [capsField [1, 2]]))
      False (4 + length ?core) None = Inr None"
    by (rule extensionLoop_skip) (simp_all add: wireField_def capsField_def)
  ultimately have "decodeExtensions ?pl 1 4 = Inr (?core, [])"
    using decodeExtensions_split [of ?core "[capsField [1, 2]]" 4 1 None]
    by (simp add: connectPayload_def extensionBytes_def) (simp add: extField_def)
  with dec readConnect_core [OF assms(1,2)] connectFrame_eq [OF assms(3)] show ?thesis
    by (auto simp: FLAG_EXTENSIONS_PRESENT_def)
qed

theorem connect_message_reads_back_witness:
  "\<exists>fr f core. connectFrame [65] [66] = Inr fr \<and> decodeFrame fr DEFAULT_MAX_MESSAGE_BYTES = Inr f \<and>
    frameType f = 1 \<and> frameFlags f = FLAG_EXTENSIONS_PRESENT \<and> frameCorrelation f = 0 \<and>
    decodeExtensions (framePayload f) 1 4 = Inr (core, []) \<and>
    readConnect core = Inr (3, 3, 0, [65], [66], js ''fitz-ts/4.0.0'')"
proof (rule connect_message_reads_back)
  show "length (connectPayload [65] [66]) + 15 \<le> 1024 * 1024"
    using length_utf8Encode [of "[65]"] length_utf8Encode [of "[66]"] length_utf8Encode [of "js ''fitz-ts/4.0.0''"]
    by (simp add: connectPayload_def extensionBytes_def connectCore_def extField_def capsField_def strField_def js_def)
  show "wireString [65]" using length_utf8Encode [of "[65]"]
    by (simp add: wireString_def wireText_def bomFree_def isHigh_def isLow_def)
  show "wireString [66]" using length_utf8Encode [of "[66]"]
    by (simp add: wireString_def wireText_def bomFree_def isHigh_def isLow_def)
qed

end
