(* ===== verification/LeaseHandle.thy ===== *)
theory LeaseHandle
  imports LeaseCodec Machines
begin

text \<open>
  The handle of an acquired lease, \<^verbatim>\<open>createLease\<close> of \<^verbatim>\<open>domains/lease/types.ts\<close>: its fencing token, its local
  expiry, and the chain that runs its operations one after the other. An operation is called, starts
  when those before it are settled, sends at most one request and is settled by the answer. The clock
  is an argument, in milliseconds.
\<close>

section \<open>State\<close>

datatype leaseOp = Extend jsnum | Release

record leaseHandle =
  lhRoute :: jsstr
  lhToken :: nat
  lhExpiry :: int
  lhClosed :: bool
  lhListening :: bool
  lhNext :: nat
  lhChain :: "(nat \<times> leaseOp) list"
  lhInFlight :: "(nat \<times> leaseOp) option"
  lhSent :: "(leaseOp \<times> bytes) list"
  lhResult :: "nat \<Rightarrow> int option result option"

definition createLease :: "nat \<Rightarrow> int \<Rightarrow> jsstr \<Rightarrow> leaseHandle" where
  "createLease token expiresAt route =
    \<lparr>lhRoute = route, lhToken = token, lhExpiry = expiresAt, lhClosed = False, lhListening = True,
     lhNext = 0, lhChain = [], lhInFlight = None, lhSent = [], lhResult = (\<lambda>_. None)\<rparr>"

definition ensureOpen :: "leaseHandle \<Rightarrow> unit result" where
  "ensureOpen h = (if lhClosed h then Inl (LeaseError ''CLOSED'' None) else Inr ())"

section \<open>Operations\<close>

definition closeLease :: "leaseHandle \<Rightarrow> leaseHandle" where
  "closeLease h = h\<lparr>lhClosed := True, lhListening := False\<rparr>"

definition leaseDisconnected :: "leaseHandle \<Rightarrow> leaseHandle" where
  "leaseDisconnected h = (if lhListening h then closeLease h else h)"

definition serialize :: "leaseOp \<Rightarrow> leaseHandle \<Rightarrow> leaseHandle" where
  "serialize p h = h\<lparr>lhChain := lhChain h @ [(lhNext h, p)], lhNext := lhNext h + 1\<rparr>"

definition settleOp :: "nat \<Rightarrow> int option result \<Rightarrow> leaseHandle \<Rightarrow> leaseHandle" where
  "settleOp i v h = h\<lparr>lhInFlight := None, lhResult := (lhResult h)(i := Some v)\<rparr>"

text \<open>The body of \<^verbatim>\<open>extend\<close> up to its request, and from the answer on.\<close>

definition extendStarts :: "nat \<Rightarrow> jsnum \<Rightarrow> leaseHandle \<Rightarrow> leaseHandle" where
  "extendStarts i ttl h =
    (case ensureOpen h of
       Inl e \<Rightarrow> settleOp i (Inl e) h
     | Inr _ \<Rightarrow>
        (case leaseEncodeExtend (lhRoute h) (int (lhToken h)) ttl of
           Inl e \<Rightarrow> settleOp i (Inl e) (closeLease h)
         | Inr payload \<Rightarrow> h\<lparr>lhInFlight := Some (i, Extend ttl), lhSent := lhSent h @ [(Extend ttl, payload)]\<rparr>))"

definition extendedToken :: "bytes \<Rightarrow> nat result" where
  "extendedToken response =
    andThen (leaseDecodeSuccessResponse response ''EXTEND'') (\<lambda>data.
      if length data < 8 then Inl (LeaseError ''EXTEND_INVALID_RESPONSE'' None)
      else andThen (readU64BE (createBufferReader data)) (\<lambda>(token, _). Inr token))"

definition extendAnswered :: "nat \<Rightarrow> nat \<Rightarrow> jsnum \<Rightarrow> bytes result \<Rightarrow> leaseHandle \<Rightarrow> leaseHandle" where
  "extendAnswered now i ttl answer h =
    (case andThen answer extendedToken of
       Inl e \<Rightarrow> settleOp i (Inl e) (closeLease h)
     | Inr token \<Rightarrow>
        (let expiry = int (now div 1000) + jsInt ttl
         in settleOp i (Inr (Some expiry)) (h\<lparr>lhToken := token, lhExpiry := expiry\<rparr>)))"

text \<open>The body of \<^verbatim>\<open>release\<close>.\<close>

definition releaseStarts :: "nat \<Rightarrow> leaseHandle \<Rightarrow> leaseHandle" where
  "releaseStarts i h =
    (case ensureOpen h of
       Inl e \<Rightarrow> settleOp i (Inl e) h
     | Inr _ \<Rightarrow>
        (let h = closeLease h in
         case leaseEncodeRelease (lhRoute h) (int (lhToken h)) of
           Inl e \<Rightarrow> settleOp i (Inl e) h
         | Inr payload \<Rightarrow> h\<lparr>lhInFlight := Some (i, Release), lhSent := lhSent h @ [(Release, payload)]\<rparr>))"

definition releaseAnswered :: "nat \<Rightarrow> bytes result \<Rightarrow> leaseHandle \<Rightarrow> leaseHandle" where
  "releaseAnswered i answer h =
    settleOp i (andThen answer (\<lambda>response. andThen (leaseDecodeSuccessResponse response ''RELEASE'') (\<lambda>_. Inr None))) h"

definition opStarts :: "leaseHandle \<Rightarrow> leaseHandle" where
  "opStarts h =
    (case lhChain h of
       [] \<Rightarrow> h
     | (i, p) # rest \<Rightarrow>
        (let h = h\<lparr>lhChain := rest\<rparr> in
         case p of Extend ttl \<Rightarrow> extendStarts i ttl h | Release \<Rightarrow> releaseStarts i h))"

definition opAnswered :: "nat \<Rightarrow> bytes result \<Rightarrow> leaseHandle \<Rightarrow> leaseHandle" where
  "opAnswered now answer h =
    (case lhInFlight h of
       None \<Rightarrow> h
     | Some (i, Extend ttl) \<Rightarrow> extendAnswered now i ttl answer h
     | Some (i, Release) \<Rightarrow> releaseAnswered i answer h)"

lemmas lease_op_defs = createLease_def ensureOpen_def closeLease_def leaseDisconnected_def serialize_def settleOp_def
  extendStarts_def extendAnswered_def releaseStarts_def releaseAnswered_def opStarts_def opAnswered_def

section \<open>Runs of a handle\<close>

datatype leaseEvent = OpCalled leaseOp | OpStarted | OpAnswered nat "bytes result" | LeaseDisconnected

inductive leaseStep :: "leaseHandle \<Rightarrow> leaseEvent \<Rightarrow> leaseHandle \<Rightarrow> bool" where
  lease_called: "leaseStep h (OpCalled p) (serialize p h)"
| lease_started: "lhInFlight h = None \<Longrightarrow> lhChain h \<noteq> [] \<Longrightarrow> leaseStep h OpStarted (opStarts h)"
| lease_answered: "lhInFlight h \<noteq> None \<Longrightarrow> leaseStep h (OpAnswered now answer) (opAnswered now answer h)"
| lease_disconnected: "leaseStep h LeaseDisconnected (leaseDisconnected h)"

inductive_cases leaseStepE: "leaseStep h e h'"

text \<open>The operations of a handle in the order of their calls: settled, in flight, waiting.\<close>

definition openOps :: "leaseHandle \<Rightarrow> nat list" where
  "openOps h = (case lhInFlight h of None \<Rightarrow> [] | Some (i, _) \<Rightarrow> [i]) @ map fst (lhChain h)"

definition fencedRequest :: "leaseHandle \<Rightarrow> bool" where
  "fencedRequest h \<longleftrightarrow>
    (case lhInFlight h of
       None \<Rightarrow> True
     | Some (i, p) \<Rightarrow>
        lhSent h \<noteq> [] \<and> fst (last (lhSent h)) = p \<and>
        Inr (snd (last (lhSent h))) =
          (case p of Extend ttl \<Rightarrow> leaseEncodeExtend (lhRoute h) (int (lhToken h)) ttl
                   | Release \<Rightarrow> leaseEncodeRelease (lhRoute h) (int (lhToken h))))"

definition inOrder :: "leaseHandle \<Rightarrow> bool" where
  "inOrder h \<longleftrightarrow>
    (\<exists>n. openOps h = [n ..< lhNext h] \<and> n \<le> lhNext h \<and> {i. lhResult h i \<noteq> None} = {..<n})"

definition leaseInv :: "leaseHandle \<Rightarrow> bool" where
  "leaseInv h \<longleftrightarrow>
    lhListening h = (\<not> lhClosed h) \<and>
    inOrder h \<and>
    fencedRequest h \<and>
    length (filter (\<lambda>p. fst p = Release) (lhSent h)) \<le> (if lhClosed h then 1 else 0)"

lemma upt_Cons_D: "i # is = [n ..< m] \<Longrightarrow> i = n \<and> is = [Suc n ..< m] \<and> n < m"
  by (cases "n < m") (simp_all add: upt_conv_Cons)

lemma createLease_inv: "leaseInv (createLease token e route)"
  by (simp add: leaseInv_def inOrder_def fencedRequest_def openOps_def createLease_def)

lemma serialize_inOrder: "inOrder h \<Longrightarrow> inOrder (serialize p h)"
  by (auto simp: inOrder_def openOps_def serialize_def split: option.splits)

lemma inOrder_fields:
  "inOrder h \<longleftrightarrow> inOrder (h\<lparr>lhClosed := a, lhListening := b, lhToken := c, lhExpiry := d, lhSent := e\<rparr>)"
  by (simp add: inOrder_def openOps_def)

lemma settle_inOrder:
  assumes "inOrder h" and "openOps h = i # is" and "map fst (lhChain g) = is"
    and "lhResult g = lhResult h" and "lhNext g = lhNext h"
  shows "inOrder (settleOp i v g)"
proof -
  obtain n where n: "openOps h = [n ..< lhNext h]" "{i. lhResult h i \<noteq> None} = {..<n}"
    using assms(1) by (auto simp: inOrder_def)
  with assms(2) have i: "i = n" "is = [Suc n ..< lhNext h]" "n < lhNext h" by (metis upt_Cons_D)+
  have "{k. ((lhResult h)(n := Some v)) k \<noteq> None} = insert n {k. lhResult h k \<noteq> None}" by auto
  with n i assms(3-5) show ?thesis
    by (auto simp: inOrder_def openOps_def settleOp_def lessThan_Suc intro!: exI [of _ "Suc n"])
qed

lemma flight_inOrder:
  assumes "inOrder h" and "lhInFlight h = None" and "lhChain h = (i, p) # rest"
    and "lhInFlight g = Some (i, q)" and "lhChain g = rest" and "lhResult g = lhResult h" and "lhNext g = lhNext h"
  shows "inOrder g"
  using assms by (simp add: inOrder_def openOps_def)

lemma extendStarts_inv:
  assumes inv: "leaseInv h" and idle: "lhInFlight h = None" "lhChain h = (i, Extend ttl) # rest"
  shows "leaseInv (extendStarts i ttl (h\<lparr>lhChain := rest\<rparr>))"
proof -
  have ops: "openOps h = i # map fst rest" using idle by (simp add: openOps_def)
  have order: "inOrder h" using inv by (simp add: leaseInv_def)
  note settled = settle_inOrder [OF order ops]
  note flying = flight_inOrder [OF order idle]
  show ?thesis
    using inv idle settled flying
    by (auto simp: leaseInv_def fencedRequest_def extendStarts_def ensureOpen_def closeLease_def settleOp_def split: sum.splits if_splits)
qed

lemma releaseStarts_inv:
  assumes inv: "leaseInv h" and idle: "lhInFlight h = None" "lhChain h = (i, Release) # rest"
  shows "leaseInv (releaseStarts i (h\<lparr>lhChain := rest\<rparr>))"
proof -
  have ops: "openOps h = i # map fst rest" using idle by (simp add: openOps_def)
  have order: "inOrder h" using inv by (simp add: leaseInv_def)
  note settled = settle_inOrder [OF order ops]
  note flying = flight_inOrder [OF order idle]
  show ?thesis
    using inv idle settled flying
    by (auto simp: leaseInv_def fencedRequest_def releaseStarts_def ensureOpen_def closeLease_def settleOp_def Let_def
        split: sum.splits if_splits)
qed

lemma answered_inv:
  assumes inv: "leaseInv h" and flight: "lhInFlight h = Some (i, p)"
  shows "leaseInv (opAnswered now answer h)"
proof -
  have ops: "openOps h = i # map fst (lhChain h)" using flight by (simp add: openOps_def)
  have order: "inOrder h" using inv by (simp add: leaseInv_def)
  note settled = settle_inOrder [OF order ops]
  show ?thesis
    using inv flight settled
    by (cases p) (auto simp: leaseInv_def fencedRequest_def opAnswered_def extendAnswered_def releaseAnswered_def closeLease_def
        settleOp_def Let_def split: sum.splits if_splits)
qed

lemma fencedRequest_cong:
  "lhInFlight g = lhInFlight h \<Longrightarrow> lhSent g = lhSent h \<Longrightarrow> lhRoute g = lhRoute h \<Longrightarrow> lhToken g = lhToken h \<Longrightarrow>
    fencedRequest g = fencedRequest h"
  by (cases "lhInFlight h") (auto simp: fencedRequest_def split: leaseOp.split)

lemma leaseStep_inv: "leaseStep h e h' \<Longrightarrow> leaseInv h \<Longrightarrow> leaseInv h'"
proof (induction rule: leaseStep.induct)
  case (lease_called h p)
  then show ?case
    using serialize_inOrder [of h p] fencedRequest_cong [of "serialize p h" h]
    by (auto simp: leaseInv_def serialize_def)
next
  case (lease_started h)
  then show ?case
    by (auto simp: opStarts_def Let_def neq_Nil_conv extendStarts_inv releaseStarts_inv split: leaseOp.split)
next
  case (lease_answered h now answer)
  then show ?case by (auto simp: answered_inv)
next
  case (lease_disconnected h)
  then show ?case
    using fencedRequest_cong [of "leaseDisconnected h" h]
    by (auto simp: leaseInv_def leaseDisconnected_def closeLease_def inOrder_def openOps_def)
qed

interpretation lease: machine "createLease token e route" leaseStep leaseInv for token e route
  by unfold_locales (auto intro: createLease_inv leaseStep_inv)

text \<open>A closed handle stays closed and sends nothing.\<close>

lemma closed_step: "leaseStep h e h' \<Longrightarrow> lhClosed h \<Longrightarrow> lhClosed h' \<and> lhSent h' = lhSent h"
  by (erule leaseStepE) (auto simp: lease_op_defs Let_def split: option.splits list.splits leaseOp.splits sum.splits)

lemma closed_run: "run leaseStep h es h' \<Longrightarrow> lhClosed h \<Longrightarrow> lhClosed h' \<and> lhSent h' = lhSent h"
  by (induction rule: run.induct) (auto dest: closed_step)

text \<open>The token an event brings: that of a successful answer to the extension in flight.\<close>

definition grantedToken :: "leaseHandle \<Rightarrow> leaseEvent \<Rightarrow> nat option" where
  "grantedToken h e =
    (case (e, lhInFlight h) of
       (OpAnswered now answer, Some (i, Extend ttl)) \<Rightarrow> (case andThen answer extendedToken of Inl x \<Rightarrow> None | Inr t \<Rightarrow> Some t)
     | _ \<Rightarrow> None)"

lemma token_step: "leaseStep h e h' \<Longrightarrow> lhToken h' = (case grantedToken h e of None \<Rightarrow> lhToken h | Some t \<Rightarrow> t)"
  by (erule leaseStepE) (auto simp: lease_op_defs grantedToken_def Let_def split: option.splits list.splits leaseOp.splits sum.splits)

lemma extendedToken_bytes:
  assumes "t < 18446744073709551616"
  shows "extendedToken (0 # be 8 (int t) @ rest) = Inr t"
proof -
  have "readU64BE (createBufferReader (be 8 (int t) @ rest)) = Inr (t, In (be 8 (int t)) rest)"
    using readU64BE_be [OF assms, of "[]" rest] by (simp add: createBufferReader_In)
  then show ?thesis
    by (simp add: extendedToken_def leaseDecodeSuccessResponse_def parseStandardResponse_def createBufferReader_In reader_simps)
qed

text \<open>
  C13: a lease handle runs its operations one at a time in the order of their calls, so the settled ones are always
  the first ones. Its credential is the fencing token of the acquisition until an extension succeeds and from
  then on the token that answer carries, whatever else happens; the request in flight carries the
  credential; a release is sent at most once, and a handle that was
  released, failed or lost its connection never sends anything again.
\<close>

theorem lease_requests_are_fenced:
  assumes "reachable leaseStep (createLease token e route) h"
  shows "(\<exists>n. openOps h = [n ..< lhNext h] \<and> {i. lhResult h i \<noteq> None} = {..<n}) \<and>
    lhToken (createLease token e route) = token \<and>
    (\<forall>ev h'. leaseStep h ev h' \<longrightarrow> lhToken h' = (case grantedToken h ev of None \<Rightarrow> lhToken h | Some t \<Rightarrow> t)) \<and>
    (\<forall>i ttl t now rest. lhInFlight h = Some (i, Extend ttl) \<and> t < 18446744073709551616 \<longrightarrow>
       lhToken (opAnswered now (Inr (0 # be 8 (int t) @ rest)) h) = t) \<and>
    fencedRequest h \<and> length (filter (\<lambda>p. fst p = Release) (lhSent h)) \<le> 1 \<and>
    (\<forall>es h'. lhClosed h \<and> run leaseStep h es h' \<longrightarrow> lhSent h' = lhSent h)"
proof (intro conjI allI impI)
  have inv: "leaseInv h" by (rule lease.reachable_inv [OF assms])
  then show "\<exists>n. openOps h = [n ..< lhNext h] \<and> {i. lhResult h i \<noteq> None} = {..<n}"
    by (auto simp: leaseInv_def inOrder_def)
  show "fencedRequest h" using inv by (simp add: leaseInv_def)
  show "length (filter (\<lambda>p. fst p = Release) (lhSent h)) \<le> 1" using inv by (auto simp: leaseInv_def split: if_splits)
  show "lhSent h' = lhSent h" if "lhClosed h \<and> run leaseStep h es h'" for es h'
    using closed_run [of h es h'] that by simp
  show "lhToken (createLease token e route) = token" by (simp add: createLease_def)
  show "lhToken h' = (case grantedToken h ev of None \<Rightarrow> lhToken h | Some t \<Rightarrow> t)" if "leaseStep h ev h'" for ev h'
    using that by (rule token_step)
  show "lhToken (opAnswered now (Inr (0 # be 8 (int t) @ rest)) h) = t"
    if "lhInFlight h = Some (i, Extend ttl) \<and> t < 18446744073709551616" for i ttl t now rest
    using that by (simp add: opAnswered_def extendAnswered_def extendedToken_bytes settleOp_def Let_def)
qed

text \<open>A lease with token 7 is extended, the answer brings token 9, and the release that follows carries token 9.\<close>

theorem lease_requests_are_fenced_witness:
  "let h1 = opStarts (serialize (Extend (JInt 5)) (createLease 7 100 []));
       h2 = opAnswered 0 (Inr (0 # be 8 (int 9))) h1;
       h3 = opStarts (serialize Release h2)
   in fencedRequest h1 \<and> fencedRequest h3 \<and> lhToken h2 = 9 \<and>
     map snd (lhSent h3) = [strField [] @ strField [] @ be 8 (int 7) @ be 8 5, strField [] @ strField [] @ be 8 (int 9)]"
proof -
  let ?h = "createLease 7 100 []"
  define h1 where "h1 = opStarts (serialize (Extend (JInt 5)) ?h)"
  define h2 where "h2 = opAnswered 0 (Inr (0 # be 8 (int 9))) h1"
  define h3 where "h3 = opStarts (serialize Release h2)"
  have enc: "leaseEncodeExtend [] 7 (JInt 5) = Inr (strField [] @ strField [] @ be 8 7 @ be 8 5)"
    by (simp add: leaseEncodeExtend_layout secondsOk_def isSafeInteger_def maxSafeInteger_def jsInt_def)
  have h1: "lhInFlight h1 = Some (0, Extend (JInt 5))" "lhChain h1 = []" "lhClosed h1 = False" "lhRoute h1 = []"
      "map snd (lhSent h1) = [strField [] @ strField [] @ be 8 7 @ be 8 5]"
    by (simp_all add: h1_def lease_op_defs enc)
  have r1: "reachable leaseStep ?h h1"
    unfolding h1_def
    by (rule reachable_step [where step = leaseStep, OF reachable_step [where step = leaseStep, OF reachable_start lease_called] lease_started])
      (simp_all add: lease_op_defs)
  have r2: "reachable leaseStep ?h h2"
    unfolding h2_def by (rule reachable_step [where step = leaseStep, OF r1 lease_answered]) (simp add: h1)
  have "(9 :: nat) < 18446744073709551616" by simp
  with lease_requests_are_fenced [OF r1] h1(1) have "lhToken (opAnswered 0 (Inr (0 # be 8 (int 9) @ [])) h1) = 9" by blast
  then have t2: "lhToken h2 = 9" by (simp only: h2_def append_Nil2)
  have "extendedToken (0 # be 8 (int 9)) = Inr 9" using extendedToken_bytes [of 9 "[]"] by simp
  then have h2: "lhInFlight h2 = None" "lhChain h2 = []" "lhClosed h2 = False" "lhRoute h2 = []" "lhSent h2 = lhSent h1"
    using h1 by (simp_all only: h2_def opAnswered_def) (simp_all add: extendAnswered_def settleOp_def Let_def)
  have r3: "reachable leaseStep ?h h3"
    unfolding h3_def
    by (rule reachable_step [where step = leaseStep, OF reachable_step [where step = leaseStep, OF r2 lease_called] lease_started])
      (simp_all add: serialize_def h2)
  have "map snd (lhSent h3) = [strField [] @ strField [] @ be 8 7 @ be 8 5, strField [] @ strField [] @ be 8 9]"
    using h1(5) h2 t2
    by (simp add: h3_def opStarts_def serialize_def releaseStarts_def ensureOpen_def closeLease_def leaseEncodeRelease_layout Let_def)
  moreover have "fencedRequest h1" "fencedRequest h3"
    using lease_requests_are_fenced [OF r1] lease_requests_are_fenced [OF r3] by blast+
  ultimately show ?thesis using t2 by (simp add: Let_def h1_def h2_def h3_def)
qed

text \<open>
  Any failed extension closes the handle, also one that its caller aborted: the broker may still hold the lease
  for the client, but the handle refuses to release it.
\<close>

theorem aborted_extend_strands_lease:
  "\<exists>h. run leaseStep (createLease 7 100 [])
      [OpCalled (Extend (JInt 5)), OpStarted, OpAnswered 0 (Inl abortError), OpCalled Release, OpStarted] h \<and>
    lhResult h 1 = Some (Inl (LeaseError ''CLOSED'' None)) \<and>
    filter (\<lambda>p. fst p = Release) (lhSent h) = []"
proof -
  let ?h = "createLease 7 100 []"
  obtain b where b: "leaseEncodeExtend [] 7 (JInt 5) = Inr b"
    by (simp add: leaseEncodeExtend_layout secondsOk_def isSafeInteger_def maxSafeInteger_def jsInt_def)
  define h1 where "h1 = opStarts (serialize (Extend (JInt 5)) ?h)"
  define h2 where "h2 = opAnswered 0 (Inl abortError) h1"
  have h1: "lhInFlight h1 = Some (0, Extend (JInt 5))" "lhChain h1 = []" "lhNext h1 = 1" "lhSent h1 = [(Extend (JInt 5), b)]"
    by (simp_all add: h1_def lease_op_defs b)
  have h2: "lhInFlight h2 = None" "lhChain h2 = []" "lhNext h2 = 1" "lhClosed h2" "lhSent h2 = [(Extend (JInt 5), b)]"
    using h1 by (simp_all add: h2_def opAnswered_def extendAnswered_def settleOp_def closeLease_def)
  let ?h3 = "opStarts (serialize Release h2)"
  have "leaseStep (serialize (Extend (JInt 5)) ?h) OpStarted h1"
    unfolding h1_def by (rule lease_started) (simp_all add: lease_op_defs)
  moreover have "leaseStep h1 (OpAnswered 0 (Inl abortError)) h2"
    unfolding h2_def by (rule lease_answered) (simp add: h1)
  moreover have "leaseStep (serialize Release h2) OpStarted ?h3"
    by (rule lease_started) (simp_all add: serialize_def h2)
  ultimately have "run leaseStep ?h [OpCalled (Extend (JInt 5)), OpStarted, OpAnswered 0 (Inl abortError), OpCalled Release, OpStarted] ?h3"
    using run_cons [of leaseStep] run_one [of leaseStep] lease_called by meson
  moreover have "lhResult ?h3 1 = Some (Inl (LeaseError ''CLOSED'' None))" "filter (\<lambda>p. fst p = Release) (lhSent ?h3) = []"
    using h2 by (simp_all add: opStarts_def serialize_def releaseStarts_def ensureOpen_def settleOp_def)
  ultimately show ?thesis by blast
qed

end
