(* ===== verification/LeaseAcquire.thy ===== *)
theory LeaseAcquire
  imports LeaseHandle Routes
begin

text \<open>
  Acquiring a lease, \<^verbatim>\<open>acquire\<close> of \<^verbatim>\<open>domains/lease/client.ts\<close>. Acquisitions of one client run one after the other; one
  that waits puts an entry into the queue of deferred completions, which the broker's ACQUIRE notifications
  serve in their order of arrival.
\<close>

section \<open>Guards\<close>

definition assertExactLeaseRoute :: "jsstr \<Rightarrow> unit result" where
  "assertExactLeaseRoute route =
    (if isRouteShape route (js ''lease'') 3 False then Inr () else Inl (LeaseError ''INVALID_ROUTE'' None))"

definition assertLeaseSubscriptionPattern :: "jsstr \<Rightarrow> unit result" where
  "assertLeaseSubscriptionPattern pat =
    (if isRegistrationPatternShape pat (js ''lease'') 3 then Inr () else Inl (LeaseError ''INVALID_ROUTE'' None))"

definition assertLeaseTtl :: "jsnum \<Rightarrow> unit result" where
  "assertLeaseTtl ttlSecs =
    (if \<not> isSafeInteger ttlSecs \<or> jsInt ttlSecs \<le> 0 \<or> jsInt ttlSecs * 1000 > 2147483647
     then Inl (LeaseError ''INVALID_TTL'' None) else Inr ())"

definition assertWaitSeconds :: "jsnum \<Rightarrow> unit result" where
  "assertWaitSeconds waitSeconds =
    (if \<not> isSafeInteger waitSeconds \<or> jsInt waitSeconds < 0 \<or> jsInt waitSeconds > 0xffffffff
     then Inl (LeaseError ''INVALID_WAIT'' None) else Inr ())"

section \<open>State\<close>

record acquiredLease =
  alToken :: nat
  alExpiresAt :: int
  alRoute :: jsstr

datatype acquirePhase = AqTurn | AqRequest | AqDeferred | AqDone "acquiredLease result"

text \<open>
  \<open>aqEntry\<close> is the deferred promise of a queued acquisition: None when it does not wait, otherwise its
  outcome, if it has one. \<open>aqAborted\<close> is the reason of the caller's signal.
\<close>

record acquisition =
  aqRoute :: jsstr
  aqTtl :: jsnum
  aqWait :: "jsnum option"
  aqAborted :: "jserror option"
  aqDisconnected :: bool
  aqEntry :: "bytes result option option"
  aqSettled :: bool
  aqPhase :: acquirePhase

record leaseAcquirer =
  lqAcquisitions :: "acquisition list"
  lqQueue :: "nat list"
  lqHandler :: bool

definition newAcquirer :: leaseAcquirer where
  "newAcquirer = \<lparr>lqAcquisitions = [], lqQueue = [], lqHandler = False\<rparr>"

definition waitSecondsOf :: "acquisition \<Rightarrow> jsnum" where
  "waitSecondsOf a = (case aqWait a of None \<Rightarrow> JInt 0 | Some w \<Rightarrow> w)"

definition updateAcquisition :: "nat \<Rightarrow> (acquisition \<Rightarrow> acquisition) \<Rightarrow> leaseAcquirer \<Rightarrow> leaseAcquirer" where
  "updateAcquisition i f q = q\<lparr>lqAcquisitions := (lqAcquisitions q)[i := f (lqAcquisitions q ! i)]\<rparr>"

definition disconnectedError :: jserror where
  "disconnectedError = LeaseError ''DISCONNECTED'' None"

section \<open>Operations\<close>

text \<open>\<^verbatim>\<open>acquireWithAuthority\<close>: the call joins the chain of \<^verbatim>\<open>acquisitionTail\<close>.\<close>

definition acquireWithAuthority :: "jsstr \<Rightarrow> jsnum \<Rightarrow> jsnum option \<Rightarrow> jserror option \<Rightarrow> leaseAcquirer \<Rightarrow> leaseAcquirer" where
  "acquireWithAuthority route ttlSecs waitSeconds aborted q =
    q\<lparr>lqAcquisitions := lqAcquisitions q @
       [\<lparr>aqRoute = route, aqTtl = ttlSecs, aqWait = waitSeconds, aqAborted = aborted, aqDisconnected = False,
         aqEntry = None, aqSettled = False, aqPhase = AqTurn\<rparr>]\<rparr>"

text \<open>The \<^verbatim>\<open>finally\<close> of \<^verbatim>\<open>runAcquire\<close>.\<close>

definition finishAcquire :: "nat \<Rightarrow> acquiredLease result \<Rightarrow> leaseAcquirer \<Rightarrow> leaseAcquirer" where
  "finishAcquire i v q =
    (let q = updateAcquisition i (\<lambda>a. a\<lparr>aqSettled := (aqEntry a \<noteq> None), aqPhase := AqDone v\<rparr>) q
     in q\<lparr>lqQueue := remove1 i (lqQueue q)\<rparr>)"

text \<open>\<^verbatim>\<open>runAcquire\<close> up to the request: its guards and the queue entry.\<close>

definition acquirePayload :: "acquisition \<Rightarrow> bytes result" where
  "acquirePayload a =
    andThen (assertExactLeaseRoute (aqRoute a)) (\<lambda>_.
    andThen (assertLeaseTtl (aqTtl a)) (\<lambda>_.
    andThen (assertWaitSeconds (waitSecondsOf a)) (\<lambda>_.
    case aqAborted a of
      Some reason \<Rightarrow> Inl reason
    | None \<Rightarrow> leaseEncodeAcquire (aqRoute a) (aqTtl a) (jsInt (waitSecondsOf a)))))"

definition acquireStarts :: "nat \<Rightarrow> leaseAcquirer \<Rightarrow> leaseAcquirer" where
  "acquireStarts i q =
    (let a = lqAcquisitions q ! i in
     case acquirePayload a of
       Inl e \<Rightarrow> updateAcquisition i (\<lambda>a. a\<lparr>aqPhase := AqDone (Inl e)\<rparr>) q
     | Inr _ \<Rightarrow>
        if 0 < jsInt (waitSecondsOf a)
        then updateAcquisition i (\<lambda>a. a\<lparr>aqEntry := Some None, aqPhase := AqRequest\<rparr>)
               (q\<lparr>lqHandler := True, lqQueue := lqQueue q @ [i]\<rparr>)
        else updateAcquisition i (\<lambda>a. a\<lparr>aqPhase := AqRequest\<rparr>) q)"

definition settleEntry :: "bytes result \<Rightarrow> acquisition \<Rightarrow> acquisition" where
  "settleEntry v a = (if aqEntry a = Some None then a\<lparr>aqEntry := Some (Some v)\<rparr> else a)"

text \<open>The notification handler: it serves the first entry that is not settled.\<close>

fun serveQueue :: "acquisition list \<Rightarrow> nat list \<Rightarrow> nat option \<times> nat list" where
  "serveQueue as [] = (None, [])"
| "serveQueue as (i # is) = (if aqSettled (as ! i) then serveQueue as is else (Some i, is))"

definition acquireNotified :: "bytes \<Rightarrow> leaseAcquirer \<Rightarrow> leaseAcquirer" where
  "acquireNotified payload q =
    (case serveQueue (lqAcquisitions q) (lqQueue q) of
       (None, rest) \<Rightarrow> q\<lparr>lqQueue := rest\<rparr>
     | (Some i, rest) \<Rightarrow> updateAcquisition i (settleEntry (Inr payload)) (q\<lparr>lqQueue := rest\<rparr>))"

text \<open>\<^verbatim>\<open>onAbort\<close>, a listener while the acquisition with an entry runs.\<close>

definition acquireAborted :: "nat \<Rightarrow> jserror \<Rightarrow> leaseAcquirer \<Rightarrow> leaseAcquirer" where
  "acquireAborted i reason q =
    (let q = updateAcquisition i (\<lambda>a. a\<lparr>aqAborted := Some reason\<rparr>) q; a = lqAcquisitions q ! i in
     if aqEntry a = None \<or> aqSettled a then q
     else updateAcquisition i (\<lambda>a. settleEntry (Inl reason) (a\<lparr>aqSettled := True\<rparr>)) (q\<lparr>lqQueue := remove1 i (lqQueue q)\<rparr>))"

text \<open>The disconnect listeners: the one of the client, which empties the queue, then that of each running acquisition.\<close>

definition interruptEntry :: "acquisition \<Rightarrow> acquisition" where
  "interruptEntry a = (if aqSettled a then a else settleEntry (Inl disconnectedError) (a\<lparr>aqSettled := True\<rparr>))"

fun running :: "acquirePhase \<Rightarrow> bool" where
  "running AqTurn = False"
| "running AqRequest = True"
| "running AqDeferred = True"
| "running (AqDone v) = False"

definition acquiresDisconnected :: "leaseAcquirer \<Rightarrow> leaseAcquirer" where
  "acquiresDisconnected q =
    (let q = fold (\<lambda>i. updateAcquisition i interruptEntry) (lqQueue q) q\<lparr>lqQueue := []\<rparr>
     in q\<lparr>lqAcquisitions := map (\<lambda>a. if running (aqPhase a) then a\<lparr>aqDisconnected := True\<rparr> else a) (lqAcquisitions q)\<rparr>)"

definition acquired :: "nat \<Rightarrow> acquisition \<Rightarrow> acquireResponse \<Rightarrow> acquiredLease result" where
  "acquired now a decoded =
    Inr \<lparr>alToken = acqToken decoded, alExpiresAt = int (now div 1000) + jsInt (aqTtl a), alRoute = aqRoute a\<rparr>"

text \<open>The answer to the request, and what was deferred.\<close>

definition acquireAnswered :: "nat \<Rightarrow> nat \<Rightarrow> bytes result \<Rightarrow> leaseAcquirer \<Rightarrow> leaseAcquirer" where
  "acquireAnswered now i answer q =
    (let a = lqAcquisitions q ! i in
     case andThen answer leaseDecodeAcquireResponse of
       Inl e \<Rightarrow>
         finishAcquire i (Inl (case aqAborted a of
             Some reason \<Rightarrow> reason
           | None \<Rightarrow> if aqDisconnected a then disconnectedError else e)) q
     | Inr decoded \<Rightarrow>
         if acqResponseType decoded = 3 then finishAcquire i (Inl (LeaseError ''ALREADY_QUEUED'' None)) q
         else if acqResponseType decoded = 2 then
           if aqEntry a = None then finishAcquire i (Inl (LeaseError ''INVALID_RESPONSE'' None)) q
           else updateAcquisition i (\<lambda>a. a\<lparr>aqPhase := AqDeferred\<rparr>) q
         else finishAcquire i (acquired now a decoded) q)"

definition acquireCompleted :: "nat \<Rightarrow> nat \<Rightarrow> bytes result \<Rightarrow> leaseAcquirer \<Rightarrow> leaseAcquirer" where
  "acquireCompleted now i outcome q =
    (let a = lqAcquisitions q ! i in
     finishAcquire i (andThen outcome (\<lambda>payload. andThen (leaseDecodeAcquireResponse payload) (\<lambda>decoded.
       if acqResponseType decoded \<noteq> 0 \<and> acqResponseType decoded \<noteq> 1 then Inl (LeaseError ''INVALID_RESPONSE'' None)
       else acquired now a decoded))) q)"

lemmas acquire_defs = acquireWithAuthority_def acquireStarts_def acquireNotified_def acquireAborted_def acquiresDisconnected_def
  acquireAnswered_def acquireCompleted_def finishAcquire_def updateAcquisition_def settleEntry_def interruptEntry_def

section \<open>Runs\<close>

datatype acquireEvent =
    AcquireCalled jsstr jsnum "jsnum option" "jserror option" | AcquireStarted nat
  | AcquireAnswered nat nat "bytes result" | AcquireNotified bytes | AcquireCompleted nat nat "bytes result"
  | AcquireAborted nat jserror | AcquiresDisconnected

definition phaseOf :: "leaseAcquirer \<Rightarrow> nat \<Rightarrow> acquirePhase" where
  "phaseOf q i = aqPhase (lqAcquisitions q ! i)"

fun settledPhase :: "acquirePhase \<Rightarrow> bool" where
  "settledPhase (AqDone v) = True"
| "settledPhase p = False"

inductive acquireStep :: "leaseAcquirer \<Rightarrow> acquireEvent \<Rightarrow> leaseAcquirer \<Rightarrow> bool" where
  aq_called: "acquireStep q (AcquireCalled r t w s) (acquireWithAuthority r t w s q)"
| aq_started: "i < length (lqAcquisitions q) \<Longrightarrow> phaseOf q i = AqTurn \<Longrightarrow> \<forall>j < i. settledPhase (phaseOf q j) \<Longrightarrow>
    acquireStep q (AcquireStarted i) (acquireStarts i q)"
| aq_answered: "i < length (lqAcquisitions q) \<Longrightarrow> phaseOf q i = AqRequest \<Longrightarrow>
    acquireStep q (AcquireAnswered now i a) (acquireAnswered now i a q)"
| aq_notified: "lqHandler q \<Longrightarrow> acquireStep q (AcquireNotified p) (acquireNotified p q)"
| aq_completed: "i < length (lqAcquisitions q) \<Longrightarrow> phaseOf q i = AqDeferred \<Longrightarrow>
    aqEntry (lqAcquisitions q ! i) = Some (Some v) \<Longrightarrow>
    acquireStep q (AcquireCompleted now i v) (acquireCompleted now i v q)"
| aq_aborted: "i < length (lqAcquisitions q) \<Longrightarrow> aqAborted (lqAcquisitions q ! i) = None \<Longrightarrow>
    acquireStep q (AcquireAborted i reason) (acquireAborted i reason q)"
| aq_disconnected: "acquireStep q AcquiresDisconnected (acquiresDisconnected q)"

section \<open>Invariant\<close>

definition waits :: "acquisition \<Rightarrow> bool" where
  "waits a \<longleftrightarrow> running (aqPhase a) \<and> aqEntry a = Some None"

definition acquireInv :: "leaseAcquirer \<Rightarrow> bool" where
  "acquireInv q \<longleftrightarrow>
    (\<forall>j < length (lqAcquisitions q). phaseOf q j \<noteq> AqTurn \<longrightarrow> (\<forall>i < j. settledPhase (phaseOf q i))) \<and>
    (\<forall>j < length (lqAcquisitions q). phaseOf q j = AqTurn \<longrightarrow>
       aqEntry (lqAcquisitions q ! j) = None \<and> \<not> aqSettled (lqAcquisitions q ! j)) \<and>
    distinct (lqQueue q) \<and> set (lqQueue q) = {i. i < length (lqAcquisitions q) \<and> waits (lqAcquisitions q ! i)} \<and>
    (\<forall>i < length (lqAcquisitions q). waits (lqAcquisitions q ! i) \<longrightarrow> \<not> aqSettled (lqAcquisitions q ! i)) \<and>
    (\<forall>i < length (lqAcquisitions q). aqEntry (lqAcquisitions q ! i) \<noteq> None \<longrightarrow> lqHandler q)"

lemma update_fields [simp]:
  "lqAcquisitions (updateAcquisition i f q) = (lqAcquisitions q)[i := f (lqAcquisitions q ! i)]"
  "lqQueue (updateAcquisition i f q) = lqQueue q" "lqHandler (updateAcquisition i f q) = lqHandler q"
  by (simp_all add: updateAcquisition_def)

lemma update_inv:
  assumes inv: "acquireInv q" and i: "i < length (lqAcquisitions q)" and a: "lqAcquisitions q ! i = a"
    and g: "lqAcquisitions g = (lqAcquisitions q)[i := b]"
    and turn: "aqPhase b = AqTurn \<Longrightarrow> aqEntry b = None \<and> \<not> aqSettled b"
    and first: "aqPhase b \<noteq> AqTurn \<Longrightarrow> \<forall>j < i. settledPhase (phaseOf q j)"
    and settled: "settledPhase (aqPhase a) \<Longrightarrow> settledPhase (aqPhase b)"
    and flag: "waits b \<Longrightarrow> \<not> aqSettled b" and handler: "lqHandler q \<Longrightarrow> lqHandler g" "aqEntry b \<noteq> None \<Longrightarrow> lqHandler g"
    and queue: "distinct (lqQueue g)" "set (lqQueue g) = set (lqQueue q) - {i} \<union> (if waits b then {i} else {})"
  shows "acquireInv g"
proof -
  have nth: "lqAcquisitions g ! j = (if j = i then b else lqAcquisitions q ! j)" "phaseOf g j = (if j = i then aqPhase b else phaseOf q j)"
    and len: "length (lqAcquisitions g) = length (lqAcquisitions q)" if "j < length (lqAcquisitions q)" for j
    using that by (simp_all add: g phaseOf_def nth_list_update)
  have turns: "\<forall>k < j. settledPhase (phaseOf g k)"
    if j: "j < length (lqAcquisitions q)" "phaseOf g j \<noteq> AqTurn" for j
  proof (intro allI impI)
    fix k assume k: "k < j"
    then show "settledPhase (phaseOf g k)"
      using j nth [of j] nth [of k] first settled inv a
      by (cases "j = i"; cases "k = i") (auto simp: acquireInv_def phaseOf_def)
  qed
  have set: "set (lqQueue g) = {j. j < length (lqAcquisitions g) \<and> waits (lqAcquisitions g ! j)}"
    using inv i nth len queue(2) by (auto simp: acquireInv_def split: if_splits)
  show ?thesis
    unfolding acquireInv_def set
    using turns inv turn flag handler queue(1) nth len i by (auto simp: acquireInv_def split: if_splits)
qed

lemma acquireInv_at:
  assumes "acquireInv q" and "i < length (lqAcquisitions q)"
  shows "phaseOf q i \<noteq> AqTurn \<Longrightarrow> \<forall>j < i. settledPhase (phaseOf q j)"
    and "aqPhase (lqAcquisitions q ! i) = AqTurn \<Longrightarrow> aqEntry (lqAcquisitions q ! i) = None \<and> \<not> aqSettled (lqAcquisitions q ! i)"
    and "distinct (lqQueue q)" and "i \<in> set (lqQueue q) \<longleftrightarrow> waits (lqAcquisitions q ! i)"
    and "waits (lqAcquisitions q ! i) \<Longrightarrow> \<not> aqSettled (lqAcquisitions q ! i)"
    and "aqEntry (lqAcquisitions q ! i) \<noteq> None \<Longrightarrow> lqHandler q"
  using assms by (simp_all add: acquireInv_def phaseOf_def)

lemma finish_inv:
  assumes inv: "acquireInv q" and i: "i < length (lqAcquisitions q)" and "running (phaseOf q i)"
  shows "acquireInv (finishAcquire i v q)"
proof (rule update_inv [OF inv i refl, where b = "(lqAcquisitions q ! i)\<lparr>aqSettled := aqEntry (lqAcquisitions q ! i) \<noteq> None,
    aqPhase := AqDone v\<rparr>"])
  note at = acquireInv_at [OF inv i]
  show "\<forall>j < i. settledPhase (phaseOf q j)" using at(1) assms(3) by (cases "phaseOf q i") auto
  show "distinct (lqQueue (finishAcquire i v q))" using at(3) by (simp add: finishAcquire_def)
  show "aqEntry ((lqAcquisitions q ! i)\<lparr>aqSettled := aqEntry (lqAcquisitions q ! i) \<noteq> None, aqPhase := AqDone v\<rparr>) \<noteq> None \<Longrightarrow>
      lqHandler (finishAcquire i v q)"
    using at(6) by (simp add: finishAcquire_def)
qed (use acquireInv_at(3) [OF inv i] in \<open>auto simp: finishAcquire_def waits_def\<close>)

lemma done_inv:
  assumes inv: "acquireInv q" and i: "i < length (lqAcquisitions q)" and "phaseOf q i = AqTurn"
    and before: "\<forall>j < i. settledPhase (phaseOf q j)"
  shows "acquireInv (updateAcquisition i (\<lambda>a. a\<lparr>aqPhase := AqDone v\<rparr>) q)"
proof (rule update_inv [OF inv i refl, where b = "(lqAcquisitions q ! i)\<lparr>aqPhase := AqDone v\<rparr>"])
  note at = acquireInv_at [OF inv i]
  show "distinct (lqQueue (updateAcquisition i (\<lambda>a. a\<lparr>aqPhase := AqDone v\<rparr>) q))" using at(3) by simp
qed (use before acquireInv_at(2,4,6) [OF inv i] assms(3) in \<open>auto simp: waits_def phaseOf_def\<close>)

lemma acquireStarts_inv:
  assumes inv: "acquireInv q" and i: "i < length (lqAcquisitions q)" and turn: "phaseOf q i = AqTurn"
    and before: "\<forall>j < i. settledPhase (phaseOf q j)"
  shows "acquireInv (acquireStarts i q)"
proof -
  note at = acquireInv_at [OF inv i]
  have none: "aqEntry (lqAcquisitions q ! i) = None" "\<not> aqSettled (lqAcquisitions q ! i)" "i \<notin> set (lqQueue q)"
    using at(2,4) turn by (auto simp: phaseOf_def waits_def)
  have "acquireInv (updateAcquisition i (\<lambda>a. a\<lparr>aqPhase := AqRequest\<rparr>) q)"
    by (rule update_inv [OF inv i refl, where b = "(lqAcquisitions q ! i)\<lparr>aqPhase := AqRequest\<rparr>"]) (use before none at(3) in \<open>auto simp: waits_def turn phaseOf_def [symmetric]\<close>)
  moreover have "acquireInv (updateAcquisition i (\<lambda>a. a\<lparr>aqEntry := Some None, aqPhase := AqRequest\<rparr>)
      (q\<lparr>lqHandler := True, lqQueue := lqQueue q @ [i]\<rparr>))"
    by (rule update_inv [OF inv i refl, where b = "(lqAcquisitions q ! i)\<lparr>aqEntry := Some None, aqPhase := AqRequest\<rparr>"]) (use before none at(3) in \<open>auto simp: waits_def turn phaseOf_def [symmetric]\<close>)
  ultimately show ?thesis
    using done_inv [OF assms] by (auto simp: acquireStarts_def Let_def split: sum.splits)
qed

lemma running_not_settled: "running p \<Longrightarrow> \<not> settledPhase p" "running p \<Longrightarrow> p \<noteq> AqTurn"
  by (cases p; simp)+

lemma queue_single:
  assumes "acquireInv q"
  shows "lqQueue q = [] \<or> (\<exists>i < length (lqAcquisitions q). lqQueue q = [i] \<and> waits (lqAcquisitions q ! i))"
proof (cases "lqQueue q")
  case (Cons i rest)
  have waiting: "j < length (lqAcquisitions q) \<and> waits (lqAcquisitions q ! j)" if "j \<in> set (lqQueue q)" for j
    using assms that by (simp add: acquireInv_def)
  have "j = i" if "j \<in> set (lqQueue q)" for j
  proof (rule ccontr)
    assume "j \<noteq> i"
    have "settledPhase (phaseOf q a)" if "a < b" "b < length (lqAcquisitions q)" "waits (lqAcquisitions q ! b)" for a b
      using assms that running_not_settled(2) by (auto simp: acquireInv_def waits_def phaseOf_def)
    moreover have "\<not> settledPhase (phaseOf q a)" if "waits (lqAcquisitions q ! a)" for a
      using that running_not_settled(1) by (simp add: waits_def phaseOf_def)
    ultimately show False using \<open>j \<noteq> i\<close> waiting [OF that] waiting [of i] Cons by (metis linorder_neqE_nat list.set_intros(1))
  qed
  moreover have "distinct (lqQueue q)" using assms by (simp add: acquireInv_def)
  ultimately have "rest = []" using Cons by (cases rest) auto
  then show ?thesis using Cons waiting [of i] by auto
qed simp

lemma acquireAnswered_inv:
  assumes inv: "acquireInv q" and i: "i < length (lqAcquisitions q)" and phase: "phaseOf q i = AqRequest"
  shows "acquireInv (acquireAnswered now i a q)"
proof -
  note at = acquireInv_at [OF inv i]
  have "acquireInv (updateAcquisition i (\<lambda>a. a\<lparr>aqPhase := AqDeferred\<rparr>) q)"
    by (rule update_inv [OF inv i refl, where b = "(lqAcquisitions q ! i)\<lparr>aqPhase := AqDeferred\<rparr>"])
      (use at(1,3,4,5,6) phase in \<open>auto simp: waits_def phaseOf_def\<close>)
  then show ?thesis
    using finish_inv [OF inv i] phase by (auto simp: acquireAnswered_def Let_def split: sum.splits)
qed

lemma settleEntry_fields [simp]:
  "aqPhase (settleEntry v a) = aqPhase a" "aqSettled (settleEntry v a) = aqSettled a" "\<not> waits (settleEntry v a)"
  "aqEntry (settleEntry v a) = None \<longleftrightarrow> aqEntry a = None" "aqEntry (settleEntry v a) \<noteq> Some None"
  by (auto simp: settleEntry_def waits_def)

lemma serve_inv:
  assumes inv: "acquireInv q" and i: "i < length (lqAcquisitions q)" and entry: "aqEntry (lqAcquisitions q ! i) \<noteq> None"
    and b: "aqPhase b = aqPhase (lqAcquisitions q ! i)" "\<not> waits b" "aqEntry b \<noteq> None"
    and g: "lqAcquisitions g = (lqAcquisitions q)[i := b]" "lqHandler g = lqHandler q" "lqQueue g = remove1 i (lqQueue q)"
  shows "acquireInv g"
proof (rule update_inv [OF inv i refl g(1)])
  note at = acquireInv_at [OF inv i]
  show "\<forall>j < i. settledPhase (phaseOf q j)" using at(1,2) entry by (auto simp: phaseOf_def)
  show "aqEntry b = None \<and> \<not> aqSettled b" if "aqPhase b = AqTurn" using at(2) that entry b by simp
  show "lqHandler g" using at(6) entry g(2) by simp
qed (use b g entry acquireInv_at(3,6) [OF inv i] in simp_all)

lemma no_queue [simp]: "lqQueue q = [] \<Longrightarrow> q\<lparr>lqQueue := []\<rparr> = q"
  by (cases q) simp

lemma acquireNotified_inv:
  assumes inv: "acquireInv q"
  shows "acquireInv (acquireNotified p q)"
proof (cases "lqQueue q")
  case Nil
  then show ?thesis using inv by (simp add: acquireNotified_def)
next
  case (Cons i rest)
  with queue_single [OF inv] have i: "i < length (lqAcquisitions q)" "lqQueue q = [i]" "waits (lqAcquisitions q ! i)" by auto
  have "acquireInv (updateAcquisition i (settleEntry (Inr p)) (q\<lparr>lqQueue := []\<rparr>))"
    by (rule serve_inv [OF inv i(1), where b = "settleEntry (Inr p) (lqAcquisitions q ! i)"]) (use i in \<open>simp_all add: waits_def\<close>)
  then show ?thesis using acquireInv_at(5) [OF inv i(1)] i by (simp add: acquireNotified_def)
qed

lemma inv_map:
  assumes "acquireInv q" and "\<And>a. aqPhase (f a) = aqPhase a \<and> aqEntry (f a) = aqEntry a \<and> aqSettled (f a) = aqSettled a"
  shows "acquireInv (q\<lparr>lqAcquisitions := map f (lqAcquisitions q)\<rparr>)"
  using assms by (auto simp: acquireInv_def phaseOf_def waits_def)

lemma acquiresDisconnected_inv:
  assumes inv: "acquireInv q"
  shows "acquireInv (acquiresDisconnected q)"
proof -
  let ?mark = "\<lambda>a. if running (aqPhase a) then a\<lparr>aqDisconnected := True\<rparr> else a"
  have "acquireInv (fold (\<lambda>i. updateAcquisition i interruptEntry) (lqQueue q) q\<lparr>lqQueue := []\<rparr>)"
    using queue_single [OF inv]
  proof (elim disjE exE conjE)
    fix i assume i: "i < length (lqAcquisitions q)" "lqQueue q = [i]" "waits (lqAcquisitions q ! i)"
    have "acquireInv (updateAcquisition i interruptEntry q\<lparr>lqQueue := []\<rparr>)"
      by (rule serve_inv [OF inv i(1), where b = "interruptEntry (lqAcquisitions q ! i)"])
        (use i acquireInv_at(5) [OF inv i(1)] in \<open>simp_all add: waits_def interruptEntry_def\<close>)
    with i show ?thesis by simp
  qed (use inv in simp)
  from inv_map [OF this, of ?mark] show ?thesis by (simp add: acquiresDisconnected_def Let_def)
qed

lemma acquireAborted_inv:
  assumes inv: "acquireInv q" and i: "i < length (lqAcquisitions q)"
  shows "acquireInv (acquireAborted i reason q)"
proof -
  let ?a = "(lqAcquisitions q ! i)\<lparr>aqAborted := Some reason\<rparr>"
  have set: "acquireInv (updateAcquisition i (\<lambda>a. a\<lparr>aqAborted := Some reason\<rparr>) q)" (is "acquireInv ?q")
    by (rule update_inv [OF inv i refl, where b = ?a])
      (use acquireInv_at [OF inv i] in \<open>auto simp: waits_def phaseOf_def\<close>)
  show ?thesis
  proof (cases "aqEntry ?a = None \<or> aqSettled ?a")
    case False
    have "acquireInv (updateAcquisition i (\<lambda>a. settleEntry (Inl reason) (a\<lparr>aqSettled := True\<rparr>)) (?q\<lparr>lqQueue := remove1 i (lqQueue ?q)\<rparr>))"
      (is "acquireInv ?g")
      by (rule serve_inv [OF inv i, where b = "settleEntry (Inl reason) (?a\<lparr>aqSettled := True\<rparr>)"]) (use False i in simp_all)
    with False i show ?thesis by (auto simp: acquireAborted_def Let_def)
  qed (use set i in \<open>simp add: acquireAborted_def Let_def\<close>)
qed

lemma acquireCompleted_inv:
  assumes inv: "acquireInv q" and i: "i < length (lqAcquisitions q)" and "phaseOf q i = AqDeferred"
  shows "acquireInv (acquireCompleted now i v q)"
  using finish_inv [OF inv i] assms(3) by (simp add: acquireCompleted_def Let_def)

lemma acquireCalled_inv:
  assumes "acquireInv q"
  shows "acquireInv (acquireWithAuthority r t w s q)"
proof -
  have "phaseOf (acquireWithAuthority r t w s q) j = (if j < length (lqAcquisitions q) then phaseOf q j else AqTurn)"
    "lqAcquisitions (acquireWithAuthority r t w s q) ! j =
      (if j < length (lqAcquisitions q) then lqAcquisitions q ! j
       else \<lparr>aqRoute = r, aqTtl = t, aqWait = w, aqAborted = s, aqDisconnected = False, aqEntry = None, aqSettled = False,
             aqPhase = AqTurn\<rparr>)"
    if "j < length (lqAcquisitions (acquireWithAuthority r t w s q))" for j
    using that by (auto simp: acquireWithAuthority_def phaseOf_def nth_append)
  then show ?thesis
    using assms by (auto simp: acquireInv_def acquireWithAuthority_def waits_def phaseOf_def nth_append)
qed

lemma acquireStep_inv: "acquireStep q e q' \<Longrightarrow> acquireInv q \<Longrightarrow> acquireInv q'"
  by (induction rule: acquireStep.induct)
    (simp_all add: acquireCalled_inv acquireStarts_inv acquireAnswered_inv acquireNotified_inv acquireCompleted_inv
      acquireAborted_inv acquiresDisconnected_inv)

interpretation acquirer: machine newAcquirer acquireStep acquireInv
  by unfold_locales (simp add: acquireInv_def newAcquirer_def, rule acquireStep_inv)

section \<open>Properties\<close>

text \<open>
  C14: acquisitions of a client run one at a time, in the order of their calls, and the queue of deferred
  completions holds at most the one acquisition that waits in it. A waiting acquisition is never lost: a disconnect ends its wait with an error.
\<close>

theorem acquisitions_one_at_a_time:
  assumes "reachable acquireStep newAcquirer q"
  shows "(\<forall>i j. i < j \<and> j < length (lqAcquisitions q) \<and> running (phaseOf q j) \<longrightarrow> settledPhase (phaseOf q i)) \<and>
    length (lqQueue q) \<le> 1 \<and> set (lqQueue q) = {i. i < length (lqAcquisitions q) \<and> waits (lqAcquisitions q ! i)} \<and>
    (\<forall>i \<in> set (lqQueue q). aqEntry (lqAcquisitions (acquiresDisconnected q) ! i) = Some (Some (Inl disconnectedError)))"
proof (intro conjI allI impI ballI)
  have inv: "acquireInv q" by (rule acquirer.reachable_inv [OF assms])
  show "settledPhase (phaseOf q i)" if "i < j \<and> j < length (lqAcquisitions q) \<and> running (phaseOf q j)" for i j
    using acquireInv_at(1) [OF inv, of j] that running_not_settled(2) by auto
  show "length (lqQueue q) \<le> 1" using queue_single [OF inv] by auto
  show "set (lqQueue q) = {i. i < length (lqAcquisitions q) \<and> waits (lqAcquisitions q ! i)}" using inv by (simp add: acquireInv_def)
  fix i assume "i \<in> set (lqQueue q)"
  with queue_single [OF inv] have "lqQueue q = [i]" "i < length (lqAcquisitions q)" "waits (lqAcquisitions q ! i)" by auto
  then show "aqEntry (lqAcquisitions (acquiresDisconnected q) ! i) = Some (Some (Inl disconnectedError))"
    using acquireInv_at(5) [OF inv, of i]
    by (simp add: acquiresDisconnected_def Let_def interruptEntry_def settleEntry_def waits_def)
qed

text \<open>What the broker answers: a response type and a fencing token.\<close>

definition acquireBytes :: "nat \<Rightarrow> nat \<Rightarrow> bytes" where
  "acquireBytes kind token = 0 # of_nat kind # be 8 (int token)"

abbreviation acq :: "jsstr \<Rightarrow> jserror option \<Rightarrow> bytes result option option \<Rightarrow> bool \<Rightarrow> acquirePhase \<Rightarrow> acquisition" where
  "acq r aborted entry settled phase \<equiv>
    \<lparr>aqRoute = r, aqTtl = JInt 30, aqWait = Some (JInt 60), aqAborted = aborted, aqDisconnected = False,
     aqEntry = entry, aqSettled = settled, aqPhase = phase\<rparr>"

abbreviation acqs :: "acquisition list \<Rightarrow> nat list \<Rightarrow> bool \<Rightarrow> leaseAcquirer" where
  "acqs as queue handler \<equiv> \<lparr>lqAcquisitions = as, lqQueue = queue, lqHandler = handler\<rparr>"

lemma exact_routes: "assertExactLeaseRoute (js ''lease://a/b/c'') = Inr ()" "assertExactLeaseRoute (js ''lease://a/b/d'') = Inr ()"
  by (simp_all add: assertExactLeaseRoute_def isRouteShape_segments route_eval)

lemma payload_ok:
  assumes "assertExactLeaseRoute r = Inr ()"
  obtains p where "acquirePayload (acq r None None False AqTurn) = Inr p"
  using assms
  by (simp add: acquirePayload_def assertLeaseTtl_def assertWaitSeconds_def waitSecondsOf_def leaseEncodeAcquire_layout secondsOk_def
      isSafeInteger_def maxSafeInteger_def jsInt_def)

lemma acquireBytes_decode:
  "kind \<le> 3 \<Longrightarrow> token < 18446744073709551616 \<Longrightarrow>
    leaseDecodeAcquireResponse (acquireBytes kind token) = Inr \<lparr>acqToken = token, acqResponseType = kind\<rparr>"
  by (simp add: leaseDecodeAcquire_iff acquireBytes_def)

lemma second_wait_run:
  assumes routes: "assertExactLeaseRoute r0 = Inr ()" "assertExactLeaseRoute r1 = Inr ()"
  shows "run acquireStep newAcquirer
      [AcquireCalled r0 (JInt 30) (Some (JInt 60)) None,
       AcquireStarted 0,
       AcquireAnswered 0 0 (Inr (acquireBytes 2 0)),
       AcquireAborted 0 abortError,
       AcquireCompleted 0 0 (Inl abortError),
       AcquireCalled r1 (JInt 30) (Some (JInt 60)) None,
       AcquireStarted 1,
       AcquireAnswered 0 1 (Inr (acquireBytes 2 0))]
      (acqs [acq r0 (Some abortError) (Some (Some (Inl abortError))) True (AqDone (Inl abortError)), acq r1 None (Some None) False AqDeferred] [1] True)"
proof -
  obtain p0 p1 where p: "acquirePayload (acq r0 None None False AqTurn) = Inr p0" "acquirePayload (acq r1 None None False AqTurn) = Inr p1"
    using payload_ok routes by metis
  let ?A = "acq r0" and ?B = "acq r1"
  let ?over = "?A (Some abortError) (Some (Some (Inl abortError))) True (AqDone (Inl abortError))"
  note eval = acquire_defs phaseOf_def Let_def waitSecondsOf_def jsInt_def acquireBytes_decode acquired_def
  have s0: "acquireStep newAcquirer (AcquireCalled r0 (JInt 30) (Some (JInt 60)) None) (acqs [?A None None False AqTurn] [] False)"
    using aq_called [of newAcquirer r0 "JInt 30" "Some (JInt 60)" None] by (simp add: eval p newAcquirer_def)
  have s1: "acquireStep (acqs [?A None None False AqTurn] [] False) (AcquireStarted 0) (acqs [?A None (Some None) False AqRequest] [0] True)"
    using aq_started [of 0 "acqs [?A None None False AqTurn] [] False"] by (simp add: eval p newAcquirer_def)
  have s2: "acquireStep (acqs [?A None (Some None) False AqRequest] [0] True) (AcquireAnswered 0 0 (Inr (acquireBytes 2 0))) (acqs [?A None (Some None) False AqDeferred] [0] True)"
    using aq_answered [of 0 "acqs [?A None (Some None) False AqRequest] [0] True" 0 "Inr (acquireBytes 2 0)"] by (simp add: eval p newAcquirer_def)
  have s3: "acquireStep (acqs [?A None (Some None) False AqDeferred] [0] True) (AcquireAborted 0 abortError) (acqs [?A (Some abortError) (Some (Some (Inl abortError))) True AqDeferred] [] True)"
    using aq_aborted [of 0 "acqs [?A None (Some None) False AqDeferred] [0] True" abortError] by (simp add: eval p newAcquirer_def)
  have s4: "acquireStep (acqs [?A (Some abortError) (Some (Some (Inl abortError))) True AqDeferred] [] True) (AcquireCompleted 0 0 (Inl abortError)) (acqs [?over] [] True)"
    using aq_completed [of 0 "acqs [?A (Some abortError) (Some (Some (Inl abortError))) True AqDeferred] [] True" "Inl abortError" 0] by (simp add: eval p newAcquirer_def)
  have s5: "acquireStep (acqs [?over] [] True) (AcquireCalled r1 (JInt 30) (Some (JInt 60)) None) (acqs [?over, ?B None None False AqTurn] [] True)"
    using aq_called [of "acqs [?over] [] True" r1 "JInt 30" "Some (JInt 60)" None] by (simp add: eval p newAcquirer_def)
  have s6: "acquireStep (acqs [?over, ?B None None False AqTurn] [] True) (AcquireStarted 1) (acqs [?over, ?B None (Some None) False AqRequest] [1] True)"
    using aq_started [of 1 "acqs [?over, ?B None None False AqTurn] [] True"] by (simp add: eval p newAcquirer_def)
  have s7: "acquireStep (acqs [?over, ?B None (Some None) False AqRequest] [1] True) (AcquireAnswered 0 1 (Inr (acquireBytes 2 0))) (acqs [?over, ?B None (Some None) False AqDeferred] [1] True)"
    using aq_answered [of 1 "acqs [?over, ?B None (Some None) False AqRequest] [1] True" 0 "Inr (acquireBytes 2 0)"] by (simp add: eval p newAcquirer_def)
  show ?thesis
    by (rule run_cons [of acquireStep, OF s0 run_cons [of acquireStep, OF s1 run_cons [of acquireStep, OF s2 run_cons [of acquireStep, OF s3
          run_cons [of acquireStep, OF s4 run_cons [of acquireStep, OF s5 run_cons [of acquireStep, OF s6 run_one [of acquireStep, OF s7]]]]]]]])
qed

text \<open>
  The second acquisition waits while the first one, which its caller gave up, is over; a disconnect ends the wait.
\<close>

theorem acquisitions_one_at_a_time_witness:
  "\<exists>q. reachable acquireStep newAcquirer q \<and> running (phaseOf q 1) \<and> settledPhase (phaseOf q 0) \<and> lqQueue q = [1] \<and>
    {i. i < length (lqAcquisitions q) \<and> waits (lqAcquisitions q ! i)} = {1} \<and>
    aqEntry (lqAcquisitions (acquiresDisconnected q) ! 1) = Some (Some (Inl disconnectedError))"
proof -
  let ?q = "acqs [acq (js ''lease://a/b/c'') (Some abortError) (Some (Some (Inl abortError))) True (AqDone (Inl abortError)),
    acq (js ''lease://a/b/d'') None (Some None) False AqDeferred] [1] True"
  have r: "reachable acquireStep newAcquirer ?q" using second_wait_run [OF exact_routes] unfolding reachable_def by blast
  note main = acquisitions_one_at_a_time [OF r]
  have q: "running (phaseOf ?q 1)" "length (lqAcquisitions ?q) = 2" "lqQueue ?q = [1]" by (simp_all add: phaseOf_def)
  have "settledPhase (phaseOf ?q 0)"
    by (rule main [THEN conjunct1, rule_format, of 0 1]) (intro conjI q(1), simp_all)
  moreover have "{i. i < length (lqAcquisitions ?q) \<and> waits (lqAcquisitions ?q ! i)} = {1}"
    using main unfolding q(3) by simp
  moreover have "aqEntry (lqAcquisitions (acquiresDisconnected ?q) ! 1) = Some (Some (Inl disconnectedError))"
    using main unfolding q(3) by simp
  ultimately show ?thesis using r q by (intro exI [of _ ?q] conjI)
qed

lemma stale_grant_run:
  assumes routes: "assertExactLeaseRoute r0 = Inr ()" "assertExactLeaseRoute r1 = Inr ()"
  shows "\<exists>q. run acquireStep newAcquirer
      [AcquireCalled r0 (JInt 30) (Some (JInt 60)) None,
       AcquireStarted 0,
       AcquireAnswered 0 0 (Inr (acquireBytes 2 0)),
       AcquireAborted 0 abortError,
       AcquireCompleted 0 0 (Inl abortError),
       AcquireCalled r1 (JInt 30) (Some (JInt 60)) None,
       AcquireStarted 1,
       AcquireAnswered 0 1 (Inr (acquireBytes 2 0)),
       AcquireNotified (acquireBytes 0 7),
       AcquireCompleted 0 1 (Inr (acquireBytes 0 7))] q \<and>
     phaseOf q 0 = AqDone (Inl abortError) \<and>
     phaseOf q 1 = AqDone (Inr \<lparr>alToken = 7, alExpiresAt = 30, alRoute = r1\<rparr>)"
proof -
  let ?A = "acq r0" and ?B = "acq r1"
  let ?lease = "\<lparr>alToken = 7, alExpiresAt = 30, alRoute = r1\<rparr>"
  let ?over = "?A (Some abortError) (Some (Some (Inl abortError))) True (AqDone (Inl abortError))"
  note eval = acquire_defs phaseOf_def Let_def waitSecondsOf_def jsInt_def acquireBytes_decode acquired_def
  have s8: "acquireStep (acqs [?over, ?B None (Some None) False AqDeferred] [1] True) (AcquireNotified (acquireBytes 0 7)) (acqs [?over, ?B None (Some (Some (Inr (acquireBytes 0 7)))) False AqDeferred] [] True)"
    using aq_notified [of "acqs [?over, ?B None (Some None) False AqDeferred] [1] True" "acquireBytes 0 7"] by (simp add: eval newAcquirer_def)
  have s9: "acquireStep (acqs [?over, ?B None (Some (Some (Inr (acquireBytes 0 7)))) False AqDeferred] [] True) (AcquireCompleted 0 1 (Inr (acquireBytes 0 7))) (acqs [?over, ?B None (Some (Some (Inr (acquireBytes 0 7)))) True (AqDone (Inr ?lease))] [] True)"
    using aq_completed [of 1 "acqs [?over, ?B None (Some (Some (Inr (acquireBytes 0 7)))) False AqDeferred] [] True" "Inr (acquireBytes 0 7)" 0] by (simp add: eval newAcquirer_def)
  note run = run_append [of acquireStep, OF second_wait_run [OF routes] run_two [of acquireStep, OF s8 s9]]
  show ?thesis by (rule exI, rule conjI, rule run [unfolded append.simps]) (simp add: phaseOf_def)
qed

text \<open>
  An abandoned wait misdirects its grant. The first acquisition is queued by the broker and given up by its
  caller, which the broker does not learn; the next one is queued as well. The deferred
  completion that arrives then, which is the answer to the oldest wait of the broker, goes
  to the second acquisition, which returns a lease of its own route with the token that was
  granted for the other one.
\<close>

theorem stale_grant_misdirected:
  "\<exists>q. run acquireStep newAcquirer
      [AcquireCalled (js ''lease://a/b/c'') (JInt 30) (Some (JInt 60)) None,
       AcquireStarted 0,
       AcquireAnswered 0 0 (Inr (acquireBytes 2 0)),
       AcquireAborted 0 abortError,
       AcquireCompleted 0 0 (Inl abortError),
       AcquireCalled (js ''lease://a/b/d'') (JInt 30) (Some (JInt 60)) None,
       AcquireStarted 1,
       AcquireAnswered 0 1 (Inr (acquireBytes 2 0)),
       AcquireNotified (acquireBytes 0 7),
       AcquireCompleted 0 1 (Inr (acquireBytes 0 7))] q \<and>
     phaseOf q 0 = AqDone (Inl abortError) \<and>
     phaseOf q 1 = AqDone (Inr \<lparr>alToken = 7, alExpiresAt = 30, alRoute = js ''lease://a/b/d''\<rparr>)"
  by (rule stale_grant_run [OF exact_routes])

end
