(* ===== verification/LeaseManaged.thy ===== *)
theory LeaseManaged
  imports LeaseAcquire
begin

text \<open>
  The managed critical section \<^verbatim>\<open>withLease\<close> of \<^verbatim>\<open>domains/lease/client.ts\<close> from the acquired lease on: the callback, the
  renewal beside it, the loss of the lease, the release and what is thrown in the end. What the callback, the
  extensions and the release do are arguments of the steps.
\<close>

section \<open>State\<close>

text \<open>A callback may rethrow the very reason its signal was aborted with.\<close>

datatype 'v callbackOutcome = Returns 'v | Throws jserror | ThrowsSignalReason

datatype renewPhase = RenewDelay | RenewExtending | RenewEnded

datatype 'v managedResult = ManagedValue 'v | ManagedThrows jserror | ManagedMultiple "jserror list"

datatype 'v managedPhase = CallbackRunning | AwaitingRenewal | Releasing | ManagedDone "'v managedResult"

record 'v managedLease =
  mgAborted :: "jserror option"
  mgLifecycle :: "jserror option"
  mgLeaseLoss :: "jserror option"
  mgCallback :: "'v callbackOutcome option"
  mgStopRenewal :: bool
  mgRenewal :: renewPhase
  mgPhase :: "'v managedPhase"
  mgExtends :: nat
  mgReleases :: nat

definition mgCallbackDone :: "'v managedLease \<Rightarrow> bool" where
  "mgCallbackDone m \<longleftrightarrow> mgCallback m \<noteq> None"

definition leaseLostError :: jserror where
  "leaseLostError = LeaseError ''LOST'' None"

definition abortLifecycle :: "jserror \<Rightarrow> 'v managedLease \<Rightarrow> 'v managedLease" where
  "abortLifecycle reason m = (if mgLifecycle m = None then m\<lparr>mgLifecycle := Some reason\<rparr> else m)"

text \<open>The state once the lease is acquired: the renewal waits for its first delay and the callback runs.\<close>

definition managedStart :: "'v managedLease" where
  "managedStart = \<lparr>mgAborted = None, mgLifecycle = None, mgLeaseLoss = None, mgCallback = None, mgStopRenewal = False,
     mgRenewal = RenewDelay, mgPhase = CallbackRunning, mgExtends = 0, mgReleases = 0\<rparr>"

section \<open>Operations\<close>

text \<open>The guards of \<^verbatim>\<open>withLease\<close> before it acquires.\<close>

definition withLeaseGuard :: "jsstr \<Rightarrow> jsnum \<Rightarrow> jserror option \<Rightarrow> unit result" where
  "withLeaseGuard route ttlSecs aborted =
    andThen (assertExactLeaseRoute route) (\<lambda>_. andThen (assertLeaseTtl ttlSecs) (\<lambda>_.
      case aborted of Some reason \<Rightarrow> Inl reason | None \<Rightarrow> Inr ()))"

definition onLeaseConnectionLost :: "'v managedLease \<Rightarrow> 'v managedLease" where
  "onLeaseConnectionLost m =
    (if mgCallbackDone m \<or> mgLeaseLoss m \<noteq> None then m
     else abortLifecycle leaseLostError (m\<lparr>mgLeaseLoss := Some leaseLostError\<rparr>))"

definition onParentAbort :: "jserror \<Rightarrow> 'v managedLease \<Rightarrow> 'v managedLease" where
  "onParentAbort reason m = abortLifecycle reason (m\<lparr>mgAborted := Some reason\<rparr>)"

text \<open>The loop of \<^verbatim>\<open>renew\<close>: its condition, the end of a delay, the end of an extension.\<close>

definition renewContinues :: "'v managedLease \<Rightarrow> 'v managedLease" where
  "renewContinues m = m\<lparr>mgRenewal := (if \<not> mgCallbackDone m \<and> mgLeaseLoss m = None then RenewDelay else RenewEnded)\<rparr>"

definition renewDelayOver :: "'v managedLease \<Rightarrow> 'v managedLease" where
  "renewDelayOver m =
    (if mgCallbackDone m \<or> mgStopRenewal m then m\<lparr>mgRenewal := RenewEnded\<rparr>
     else m\<lparr>mgRenewal := RenewExtending, mgExtends := mgExtends m + 1\<rparr>)"

definition extendSettled :: "unit result \<Rightarrow> 'v managedLease \<Rightarrow> 'v managedLease" where
  "extendSettled r m =
    renewContinues (case r of Inr _ \<Rightarrow> m | Inl e \<Rightarrow> abortLifecycle leaseLostError (m\<lparr>mgLeaseLoss := Some e\<rparr>))"

definition callbackSettled :: "'v callbackOutcome \<Rightarrow> 'v managedLease \<Rightarrow> 'v managedLease" where
  "callbackSettled out m =
    abortLifecycle abortError (m\<lparr>mgCallback := Some out, mgStopRenewal := True, mgPhase := AwaitingRenewal\<rparr>)"

text \<open>What remains of the failure of the callback once managed cancellations are taken out.\<close>

definition isManagedCancellation :: "'v callbackOutcome \<Rightarrow> bool \<Rightarrow> bool \<Rightarrow> bool" where
  "isManagedCancellation out signalAborted wasRealAbort \<longleftrightarrow> wasRealAbort \<and> signalAborted \<and>
    (case out of Returns _ \<Rightarrow> False | ThrowsSignalReason \<Rightarrow> True | Throws e \<Rightarrow> isAbortError e)"

definition callbackFailure :: "'v managedLease \<Rightarrow> jserror option" where
  "callbackFailure m =
    (case mgCallback m of
       Some (Throws e) \<Rightarrow> Some e
     | Some ThrowsSignalReason \<Rightarrow> mgLifecycle m
     | _ \<Rightarrow> None)"

definition managedFailures :: "jserror option \<Rightarrow> 'v managedLease \<Rightarrow> jserror list" where
  "managedFailures releaseFailure m =
    (let wasRealAbort = (mgLeaseLoss m \<noteq> None \<or> mgAborted m \<noteq> None);
         managed = isManagedCancellation (the (mgCallback m)) (mgLifecycle m \<noteq> None) wasRealAbort
     in List.map_filter id [mgLeaseLoss m, if managed then None else callbackFailure m, releaseFailure])"

definition managedEnd :: "jserror option \<Rightarrow> 'v managedLease \<Rightarrow> 'v managedLease" where
  "managedEnd releaseFailure m =
    m\<lparr>mgPhase := ManagedDone
       (case managedFailures releaseFailure m of
          [] \<Rightarrow> (case mgAborted m of
                  Some reason \<Rightarrow> ManagedThrows reason
                | None \<Rightarrow> (case mgCallback m of Some (Returns v) \<Rightarrow> ManagedValue v | _ \<Rightarrow> ManagedMultiple []))
        | [e] \<Rightarrow> ManagedThrows e
        | es \<Rightarrow> ManagedMultiple es)\<rparr>"

text \<open>The renewal is over: a lease that is not lost is released.\<close>

definition renewalAwaited :: "'v managedLease \<Rightarrow> 'v managedLease" where
  "renewalAwaited m =
    (if mgLeaseLoss m = None then m\<lparr>mgPhase := Releasing, mgReleases := mgReleases m + 1\<rparr> else managedEnd None m)"

definition releaseSettled :: "unit result \<Rightarrow> 'v managedLease \<Rightarrow> 'v managedLease" where
  "releaseSettled r m = managedEnd (case r of Inl e \<Rightarrow> Some e | Inr _ \<Rightarrow> None) m"

section \<open>Runs\<close>

datatype 'v managedEvent =
    LeaseConnectionLost | ParentAborted jserror | RenewDelayOver | ExtendSettled "unit result"
  | CallbackSettled "'v callbackOutcome" | RenewalAwaited | ReleaseSettled "unit result"

fun managedOpen :: "'v managedPhase \<Rightarrow> bool" where
  "managedOpen (ManagedDone r) = False"
| "managedOpen p = True"

inductive managedStep :: "'v managedLease \<Rightarrow> 'v managedEvent \<Rightarrow> 'v managedLease \<Rightarrow> bool" where
  mg_lost: "managedOpen (mgPhase m) \<Longrightarrow> managedStep m LeaseConnectionLost (onLeaseConnectionLost m)"
| mg_abort: "managedOpen (mgPhase m) \<Longrightarrow> mgAborted m = None \<Longrightarrow> managedStep m (ParentAborted r) (onParentAbort r m)"
| mg_delay: "mgRenewal m = RenewDelay \<Longrightarrow> managedStep m RenewDelayOver (renewDelayOver m)"
| mg_extend: "mgRenewal m = RenewExtending \<Longrightarrow> managedStep m (ExtendSettled r) (extendSettled r m)"
| mg_callback: "mgPhase m = CallbackRunning \<Longrightarrow> out = ThrowsSignalReason \<longrightarrow> mgLifecycle m \<noteq> None \<Longrightarrow>
    managedStep m (CallbackSettled out) (callbackSettled out m)"
| mg_renewed: "mgPhase m = AwaitingRenewal \<Longrightarrow> mgRenewal m = RenewEnded \<Longrightarrow> managedStep m RenewalAwaited (renewalAwaited m)"
| mg_released: "mgPhase m = Releasing \<Longrightarrow> managedStep m (ReleaseSettled r) (releaseSettled r m)"

definition managedInv :: "'v managedLease \<Rightarrow> bool" where
  "managedInv m \<longleftrightarrow>
    (mgLeaseLoss m \<noteq> None \<longrightarrow> mgLifecycle m \<noteq> None) \<and>
    (mgCallback m = None \<longleftrightarrow> mgPhase m = CallbackRunning) \<and>
    (mgStopRenewal m \<longleftrightarrow> mgCallback m \<noteq> None) \<and>
    (mgCallback m \<noteq> None \<longrightarrow> mgLifecycle m \<noteq> None) \<and>
    (mgCallback m = None \<and> mgLeaseLoss m = None \<longrightarrow> mgRenewal m \<noteq> RenewEnded) \<and>
    (case mgPhase m of
       CallbackRunning \<Rightarrow> mgReleases m = 0
     | AwaitingRenewal \<Rightarrow> mgReleases m = 0
     | Releasing \<Rightarrow> mgReleases m = 1 \<and> mgLeaseLoss m = None \<and> mgRenewal m = RenewEnded
     | ManagedDone r \<Rightarrow> mgReleases m = (if mgLeaseLoss m = None then 1 else 0) \<and> mgRenewal m = RenewEnded \<and>
         (\<forall>v. r = ManagedValue v \<longrightarrow> mgCallback m = Some (Returns v) \<and> mgLeaseLoss m = None \<and> mgAborted m = None))"

lemma abortLifecycle_fields [simp]:
  "mgLeaseLoss (abortLifecycle r m) = mgLeaseLoss m" "mgCallback (abortLifecycle r m) = mgCallback m"
  "mgStopRenewal (abortLifecycle r m) = mgStopRenewal m" "mgRenewal (abortLifecycle r m) = mgRenewal m"
  "mgPhase (abortLifecycle r m) = mgPhase m" "mgReleases (abortLifecycle r m) = mgReleases m"
  "mgAborted (abortLifecycle r m) = mgAborted m" "mgLifecycle (abortLifecycle r m) \<noteq> None"
  by (simp_all add: abortLifecycle_def)

lemma failures_none:
  "managedFailures f m = [] \<Longrightarrow> mgLeaseLoss m = None \<and> f = None"
  "managedFailures f m = [] \<Longrightarrow> mgAborted m = None \<Longrightarrow> callbackFailure m = None"
  by (auto simp: managedFailures_def Let_def List.map_filter_def isManagedCancellation_def split: if_splits option.splits)

lemma managedEnd_fields [simp]:
  "mgLeaseLoss (managedEnd f m) = mgLeaseLoss m" "mgCallback (managedEnd f m) = mgCallback m" "mgStopRenewal (managedEnd f m) = mgStopRenewal m"
  "mgRenewal (managedEnd f m) = mgRenewal m" "mgReleases (managedEnd f m) = mgReleases m" "mgAborted (managedEnd f m) = mgAborted m"
  "mgLifecycle (managedEnd f m) = mgLifecycle m"
  by (simp_all add: managedEnd_def)

lemma managedEnd_value:
  "mgPhase (managedEnd f m) = ManagedDone r \<Longrightarrow> r = ManagedValue v \<Longrightarrow>
    mgCallback m = Some (Returns v) \<and> mgLeaseLoss m = None \<and> mgAborted m = None \<and> f = None"
  using failures_none(1) [of f m]
  by (auto simp: managedEnd_def split: list.splits option.splits callbackOutcome.splits)

lemma managedEnd_done: "\<exists>r. mgPhase (managedEnd f m) = ManagedDone r"
  by (simp add: managedEnd_def)

lemma managedEnd_inv:
  assumes "managedInv m" and "mgCallback m \<noteq> None" and "mgRenewal m = RenewEnded"
    and "mgReleases m = (if mgLeaseLoss m = None then 1 else 0)"
  shows "managedInv (managedEnd f m)"
proof -
  obtain r where r: "mgPhase (managedEnd f m) = ManagedDone r" using managedEnd_done by blast
  with managedEnd_value [OF r] assms show ?thesis by (auto simp: managedInv_def)
qed

lemma managedStep_inv: "managedStep m e m' \<Longrightarrow> managedInv m \<Longrightarrow> managedInv m'"
proof (induction rule: managedStep.induct)
  case (mg_lost m)
  then show ?case
    by (cases "mgPhase m") (auto simp: managedInv_def onLeaseConnectionLost_def mgCallbackDone_def)
next
  case (mg_abort m r)
  then show ?case by (cases "mgPhase m") (auto simp: managedInv_def onParentAbort_def)
next
  case (mg_delay m)
  then show ?case by (cases "mgPhase m") (auto simp: managedInv_def renewDelayOver_def mgCallbackDone_def)
next
  case (mg_extend m r)
  then show ?case
    by (cases "mgPhase m"; cases r) (auto simp: managedInv_def extendSettled_def renewContinues_def mgCallbackDone_def)
next
  case (mg_callback m out)
  then show ?case by (auto simp: managedInv_def callbackSettled_def)
next
  case (mg_renewed m)
  then show ?case using managedEnd_inv [of m None] by (auto simp: renewalAwaited_def managedInv_def)
next
  case (mg_released m r)
  then show ?case unfolding releaseSettled_def by (intro managedEnd_inv) (auto simp: managedInv_def)
qed

interpretation managed: machine managedStart managedStep managedInv
  by unfold_locales (simp add: managedInv_def managedStart_def, rule managedStep_inv)

text \<open>
  C15: a managed critical section hides nothing. Its callback is told through its signal as soon as the lease is
  lost, the lease is renewed for as long as the callback runs, and it is released exactly once unless it was lost.
  The value of the callback is returned only if the callback returned it, the lease
  was never lost, the caller did not abort and the release was confirmed.
\<close>

theorem managed_section_hides_nothing:
  assumes "reachable managedStep managedStart m"
  shows "(mgLeaseLoss m \<noteq> None \<longrightarrow> mgLifecycle m \<noteq> None) \<and>
    (mgPhase m = CallbackRunning \<and> mgLeaseLoss m = None \<longrightarrow> mgRenewal m \<noteq> RenewEnded) \<and>
    (\<forall>r. mgPhase m = ManagedDone r \<longrightarrow> mgReleases m = (if mgLeaseLoss m = None then 1 else 0)) \<and>
    (\<forall>v. mgPhase m = ManagedDone (ManagedValue v) \<longrightarrow>
       mgCallback m = Some (Returns v) \<and> mgLeaseLoss m = None \<and> mgAborted m = None) \<and>
    (\<forall>e v. mgPhase (releaseSettled (Inl e) m) \<noteq> ManagedDone (ManagedValue v))"
proof -
  have inv: "managedInv m" by (rule managed.reachable_inv [OF assms])
  have "mgPhase (releaseSettled (Inl e) m) \<noteq> ManagedDone (ManagedValue v)" for e v
    using managedEnd_value [of "Some e" m] by (fastforce simp: releaseSettled_def)
  with inv show ?thesis by (auto simp: managedInv_def)
qed

theorem managed_section_hides_nothing_witness:
  "let m = releaseSettled (Inr ()) (renewalAwaited (renewDelayOver (callbackSettled (Returns (5 :: nat)) managedStart))) in
    mgPhase m = ManagedDone (ManagedValue 5) \<and> mgReleases m = 1 \<and> mgLeaseLoss m = None"
proof -
  let ?m1 = "callbackSettled (Returns (5 :: nat)) managedStart"
  let ?m2 = "renewDelayOver ?m1"
  let ?m3 = "renewalAwaited ?m2"
  note defs = callbackSettled_def renewDelayOver_def renewalAwaited_def releaseSettled_def managedStart_def abortLifecycle_def
    mgCallbackDone_def managedEnd_def managedFailures_def List.map_filter_def isManagedCancellation_def callbackFailure_def Let_def
  have s1: "managedStep managedStart (CallbackSettled (Returns 5)) ?m1" by (rule mg_callback) (simp_all add: defs)
  have s2: "managedStep ?m1 RenewDelayOver ?m2" by (rule mg_delay) (simp add: defs)
  have s3: "managedStep ?m2 RenewalAwaited ?m3" by (rule mg_renewed) (simp_all add: defs)
  have s4: "managedStep ?m3 (ReleaseSettled (Inr ())) (releaseSettled (Inr ()) ?m3)" by (rule mg_released) (simp add: defs)
  have "reachable managedStep managedStart (releaseSettled (Inr ()) ?m3)"
    by (rule reachable_step [where step = managedStep, OF reachable_step [where step = managedStep, OF reachable_step [where step = managedStep,
        OF reachable_step [where step = managedStep, OF reachable_start s1] s2] s3] s4])
  from managed_section_hides_nothing [OF this] show ?thesis by (simp add: defs)
qed

end
