(* ===== verification/LeaseObserver.thy ===== *)
theory LeaseObserver
  imports LeaseAcquire JsMap
begin

text \<open>
  The inventory observer \<^verbatim>\<open>observeInventory\<close> of \<^verbatim>\<open>domains/lease/client.ts\<close>: it subscribes to a pattern, lists the matching leases,
  and keeps its view current by listing again after each notification, after a reconnect and
  when its subscription failed and was replaced. Notifications, pages, failures, timers, aborts and close
  requests are the events of a run. Three fields only serve the statements: the number of
  notifications so far, what the installed view was listed under, and whether a failed pass was
  reported since.
\<close>

section \<open>State\<close>

type_synonym inventory = "(jsstr \<times> leaseListItem) list"

text \<open>Who waits for a reconciliation pass.\<close>

datatype reconcileWaiter = WaitBootstrap | WaitRecovery | WaitReconnect | WaitTimer | WaitNobody

text \<open>
  A pass lists (its attempt, the generation of the subscription and the number of notifications when it
  started, the entries so far) or sleeps between two attempts.
\<close>

datatype reconcilePass = PassListing nat nat nat inventory | PassSleeping nat

datatype recoveryPhase = RecSubscribing nat | RecReconciling nat | RecSleeping nat

datatype bootstrapPhase = BootSubscribing | BootReconciling | BootDone | BootFailed

record leaseObserver =
  obView :: inventory
  obReady :: bool
  obSubscriptionReady :: bool
  obGeneration :: nat
  obReconcileRequested :: bool
  obPass :: "reconcilePass option"
  obAwaiting :: "reconcileWaiter list"
  obResumed :: "(reconcileWaiter \<times> unit result) list"
  obRecovery :: "recoveryPhase option"
  obBoot :: bootstrapPhase
  obClosed :: bool
  obAborted :: bool
  obTimer :: bool
  obSubscription :: nat
  obNextSubscription :: nat
  obLive :: "nat list"
  obHandlers :: "nat list"
  obUpdates :: "(nat \<times> inventory) list"
  obNotes :: nat
  obInstalled :: "(nat \<times> nat \<times> nat) option"
  obDropped :: bool

definition newObserver :: leaseObserver where
  "newObserver = \<lparr>obView = [], obReady = False, obSubscriptionReady = False, obGeneration = 0, obReconcileRequested = True,
     obPass = None, obAwaiting = [], obResumed = [], obRecovery = None, obBoot = BootSubscribing, obClosed = False,
     obAborted = False, obTimer = False, obSubscription = 0, obNextSubscription = 0, obLive = [], obHandlers = [],
     obUpdates = [], obNotes = 0, obInstalled = None, obDropped = False\<rparr>"

section \<open>Reconciliation\<close>

definition emitUpdate :: "leaseObserver \<Rightarrow> leaseObserver" where
  "emitUpdate ob = ob\<lparr>obUpdates := obUpdates ob @ map (\<lambda>h. (h, obView ob)) (obHandlers ob)\<rparr>"

definition startPass :: "nat \<Rightarrow> leaseObserver \<Rightarrow> leaseObserver" where
  "startPass attempt ob =
    ob\<lparr>obReconcileRequested := False, obPass := Some (PassListing attempt (obGeneration ob) (obNotes ob) [])\<rparr>"

definition requestReconcile :: "bool \<Rightarrow> reconcileWaiter \<Rightarrow> leaseObserver \<Rightarrow> leaseObserver" where
  "requestReconcile suspectGap who ob0 =
    (let ob = ob0\<lparr>obReconcileRequested := True, obReady := (obReady ob0 \<and> \<not> suspectGap)\<rparr> in
     if obAborted ob then ob\<lparr>obReady := False, obResumed := obResumed ob @ [(who, Inr ())]\<rparr>
     else if \<not> obSubscriptionReady ob \<or> obClosed ob then ob\<lparr>obResumed := obResumed ob @ [(who, Inr ())]\<rparr>
     else if obPass ob \<noteq> None then ob\<lparr>obAwaiting := obAwaiting ob @ [who]\<rparr>
     else startPass 1 (ob\<lparr>obAwaiting := [who]\<rparr>))"

text \<open>The end of a pass with its \<^verbatim>\<open>finally\<close>.\<close>

definition passEnds :: "unit result \<Rightarrow> leaseObserver \<Rightarrow> leaseObserver" where
  "passEnds r ob0 =
    (let ob = ob0\<lparr>obPass := None, obResumed := obResumed ob0 @ map (\<lambda>w. (w, r)) (obAwaiting ob0), obAwaiting := []\<rparr> in
     if obReconcileRequested ob \<and> obSubscriptionReady ob \<and> \<not> obClosed ob then requestReconcile False WaitNobody ob else ob)"

text \<open>What follows a complete listing.\<close>

definition relisted :: "nat \<Rightarrow> nat \<Rightarrow> nat \<Rightarrow> inventory \<Rightarrow> leaseObserver \<Rightarrow> leaseObserver" where
  "relisted attempt gen notes candidate ob =
    (if obClosed ob then passEnds (Inr ()) ob
     else if \<not> obSubscriptionReady ob \<or> obGeneration ob \<noteq> gen
       then passEnds (Inr ()) (ob\<lparr>obReconcileRequested := True\<rparr>)
     else if obReconcileRequested ob then
       (if obAborted ob then passEnds (Inr ()) ob else ob\<lparr>obPass := Some (PassSleeping attempt)\<rparr>)
     else passEnds (Inr ()) (emitUpdate (ob\<lparr>obView := candidate, obReady := True,
       obInstalled := Some (gen, notes, obNotes ob), obDropped := False\<rparr>)))"

definition pageListed :: "leaseListPage \<Rightarrow> leaseObserver \<Rightarrow> leaseObserver" where
  "pageListed page ob =
    (case obPass ob of
       Some (PassListing attempt gen notes entries) \<Rightarrow>
         (let entries = fold (\<lambda>item. mapSet (lliRoute item) item) (llpItems page) entries in
          if llpNextCursor page = None then relisted attempt gen notes entries ob
          else ob\<lparr>obPass := Some (PassListing attempt gen notes entries)\<rparr>)
     | _ \<Rightarrow> ob)"

definition pageFailed :: "jserror \<Rightarrow> leaseObserver \<Rightarrow> leaseObserver" where
  "pageFailed e ob = passEnds (Inl e) (ob\<lparr>obDropped := True\<rparr>)"

text \<open>The pause of a raced pass is over, or was aborted.\<close>

definition passSlept :: "leaseObserver \<Rightarrow> leaseObserver" where
  "passSlept ob =
    (case obPass ob of
       Some (PassSleeping attempt) \<Rightarrow>
         if \<not> obReconcileRequested ob \<or> obClosed ob \<or> \<not> obSubscriptionReady ob \<or> obAborted ob then passEnds (Inr ()) ob
         else startPass (attempt + 1) ob
     | _ \<Rightarrow> ob)"

definition retryDelayMs :: "nat \<Rightarrow> nat" where
  "retryDelayMs attempt = min (10 * 2 ^ min (attempt - 1) 5) 250"

definition invalidate :: "leaseObserver \<Rightarrow> leaseObserver" where
  "invalidate ob = requestReconcile False WaitNobody (ob\<lparr>obNotes := obNotes ob + 1\<rparr>)"

section \<open>Recovery of the subscription\<close>

definition recoveryLoop :: "nat \<Rightarrow> leaseObserver \<Rightarrow> leaseObserver" where
  "recoveryLoop attempt ob =
    (if obClosed ob \<or> obAborted ob then ob\<lparr>obRecovery := None\<rparr>
     else if \<not> obSubscriptionReady ob then ob\<lparr>obRecovery := Some (RecSubscribing attempt)\<rparr>
     else requestReconcile True WaitRecovery (ob\<lparr>obRecovery := Some (RecReconciling attempt)\<rparr>))"

definition recoverSubscription :: "bool \<Rightarrow> leaseObserver \<Rightarrow> leaseObserver" where
  "recoverSubscription replaceSubscription ob =
    (if obClosed ob \<or> obRecovery ob \<noteq> None then ob
     else recoveryLoop 0 (ob\<lparr>obReady := False, obSubscriptionReady := (obSubscriptionReady ob \<and> \<not> replaceSubscription)\<rparr>))"

text \<open>The completion of the current subscription was rejected.\<close>

definition subscriptionFailed :: "leaseObserver \<Rightarrow> leaseObserver" where
  "subscriptionFailed ob0 =
    (let ob = ob0\<lparr>obLive := removeAll (obSubscription ob0) (obLive ob0)\<rparr> in
     if obClosed ob then ob
     else recoverSubscription True (ob\<lparr>obReady := False, obSubscriptionReady := False, obGeneration := obGeneration ob + 1,
       obReconcileRequested := True\<rparr>))"

definition recoverySubscribed :: "unit result \<Rightarrow> leaseObserver \<Rightarrow> leaseObserver" where
  "recoverySubscribed r ob =
    (case obRecovery ob of
       Some (RecSubscribing attempt) \<Rightarrow>
        (case r of
           Inl e \<Rightarrow> ob\<lparr>obRecovery := Some (RecSleeping (attempt + 1))\<rparr>
         | Inr _ \<Rightarrow>
            if obClosed ob \<or> obAborted ob then ob\<lparr>obRecovery := None, obNextSubscription := obNextSubscription ob + 1\<rparr>
            else requestReconcile True WaitRecovery
              (ob\<lparr>obSubscription := obNextSubscription ob, obNextSubscription := obNextSubscription ob + 1,
                  obLive := obNextSubscription ob # obLive ob, obSubscriptionReady := True, obGeneration := obGeneration ob + 1,
                  obRecovery := Some (RecReconciling attempt)\<rparr>))
     | _ \<Rightarrow> ob)"

definition recoveryReconciled :: "unit result \<Rightarrow> leaseObserver \<Rightarrow> leaseObserver" where
  "recoveryReconciled r ob =
    (case obRecovery ob of
       Some (RecReconciling attempt) \<Rightarrow>
         if \<not> isl r \<and> obSubscriptionReady ob \<and> obReady ob then ob\<lparr>obRecovery := None\<rparr>
         else ob\<lparr>obRecovery := Some (RecSleeping (attempt + 1))\<rparr>
     | _ \<Rightarrow> ob)"

definition recoverySlept :: "leaseObserver \<Rightarrow> leaseObserver" where
  "recoverySlept ob = (case obRecovery ob of Some (RecSleeping attempt) \<Rightarrow> recoveryLoop attempt ob | _ \<Rightarrow> ob)"

section \<open>Bootstrap, timer, reconnect, abort and close\<close>

definition bootSubscribed :: "unit result \<Rightarrow> leaseObserver \<Rightarrow> leaseObserver" where
  "bootSubscribed r ob =
    (case r of
       Inl e \<Rightarrow> ob\<lparr>obBoot := BootFailed\<rparr>
     | Inr _ \<Rightarrow>
        requestReconcile True WaitBootstrap
          (ob\<lparr>obSubscription := obNextSubscription ob, obNextSubscription := obNextSubscription ob + 1,
              obLive := obNextSubscription ob # obLive ob, obSubscriptionReady := True, obGeneration := obGeneration ob + 1,
              obBoot := BootReconciling\<rparr>))"

definition scheduleReconcile :: "leaseObserver \<Rightarrow> leaseObserver" where
  "scheduleReconcile ob = (if obClosed ob then ob else ob\<lparr>obTimer := True\<rparr>)"

definition unsubscribeObserver :: "leaseObserver \<Rightarrow> leaseObserver" where
  "unsubscribeObserver ob = ob\<lparr>obLive := removeAll (obSubscription ob) (obLive ob)\<rparr>"

definition bootReconciled :: "unit result \<Rightarrow> leaseObserver \<Rightarrow> leaseObserver" where
  "bootReconciled r ob =
    (case r of
       Inl e \<Rightarrow> unsubscribeObserver (ob\<lparr>obBoot := BootFailed\<rparr>)
     | Inr _ \<Rightarrow> scheduleReconcile (ob\<lparr>obBoot := BootDone\<rparr>))"

definition observerReconnected :: "leaseObserver \<Rightarrow> leaseObserver" where
  "observerReconnected ob = (if obClosed ob then ob else requestReconcile True WaitReconnect ob)"

definition reconcileTimerFired :: "leaseObserver \<Rightarrow> leaseObserver" where
  "reconcileTimerFired ob0 =
    (let ob = ob0\<lparr>obTimer := False\<rparr> in
     if obClosed ob \<or> obAborted ob then ob else requestReconcile False WaitTimer ob)"

text \<open>The continuation of whoever waited for a pass.\<close>

fun resumeWaiter :: "reconcileWaiter \<Rightarrow> unit result \<Rightarrow> leaseObserver \<Rightarrow> leaseObserver" where
  "resumeWaiter WaitBootstrap r ob = bootReconciled r ob"
| "resumeWaiter WaitRecovery r ob = recoveryReconciled r ob"
| "resumeWaiter WaitReconnect r ob = (if \<not> isl r then ob else recoverSubscription False ob)"
| "resumeWaiter WaitTimer r ob = scheduleReconcile ob"
| "resumeWaiter WaitNobody r ob = ob"

definition observerAborted :: "leaseObserver \<Rightarrow> leaseObserver" where
  "observerAborted ob =
    (if obBoot ob = BootDone \<and> \<not> obClosed ob then ob\<lparr>obAborted := True, obReady := False, obTimer := False\<rparr>
     else ob\<lparr>obAborted := True\<rparr>)"

definition closeObserver :: "leaseObserver \<Rightarrow> leaseObserver" where
  "closeObserver ob = (if obClosed ob then ob else ob\<lparr>obClosed := True, obTimer := False, obHandlers := []\<rparr>)"

definition onUpdate :: "nat \<Rightarrow> leaseObserver \<Rightarrow> leaseObserver" where
  "onUpdate h ob = ob\<lparr>obHandlers := (if h \<in> set (obHandlers ob) then obHandlers ob else obHandlers ob @ [h])\<rparr>"

definition offUpdate :: "nat \<Rightarrow> leaseObserver \<Rightarrow> leaseObserver" where
  "offUpdate h ob = ob\<lparr>obHandlers := removeAll h (obHandlers ob)\<rparr>"

section \<open>Runs\<close>

datatype observerEvent =
    ObBootSubscribed "unit result" | ObNotified | ObPage leaseListPage | ObPageFailed jserror | ObPassSlept | ObResumed
  | ObSubscriptionFailed | ObRecoverySubscribed "unit result" | ObRecoverySlept | ObReconnected | ObTimerFired
  | ObAborted | ObClose | ObCloseFinished | ObOnUpdate nat | ObOffUpdate nat

fun listing :: "reconcilePass option \<Rightarrow> bool" where
  "listing (Some (PassListing a g n es)) = True"
| "listing _ = False"

inductive observerStep :: "leaseObserver \<Rightarrow> observerEvent \<Rightarrow> leaseObserver \<Rightarrow> bool" where
  ob_subscribed: "obBoot ob = BootSubscribing \<Longrightarrow> observerStep ob (ObBootSubscribed r) (bootSubscribed r ob)"
| ob_notified: "observerStep ob ObNotified (invalidate ob)"
| ob_page: "listing (obPass ob) \<Longrightarrow> observerStep ob (ObPage p) (pageListed p ob)"
| ob_page_failed: "listing (obPass ob) \<Longrightarrow> observerStep ob (ObPageFailed e) (pageFailed e ob)"
| ob_slept: "obPass ob = Some (PassSleeping a) \<Longrightarrow> observerStep ob ObPassSlept (passSlept ob)"
| ob_resumed: "obResumed ob = (w, r) # rest \<Longrightarrow> observerStep ob ObResumed (resumeWaiter w r (ob\<lparr>obResumed := rest\<rparr>))"
| ob_failed: "obSubscriptionReady ob \<Longrightarrow> obSubscription ob \<in> set (obLive ob) \<Longrightarrow>
    observerStep ob ObSubscriptionFailed (subscriptionFailed ob)"
| ob_resubscribed: "obRecovery ob = Some (RecSubscribing a) \<Longrightarrow> observerStep ob (ObRecoverySubscribed r) (recoverySubscribed r ob)"
| ob_rec_slept: "obRecovery ob = Some (RecSleeping a) \<Longrightarrow> observerStep ob ObRecoverySlept (recoverySlept ob)"
| ob_reconnected: "obBoot ob = BootDone \<Longrightarrow> observerStep ob ObReconnected (observerReconnected ob)"
| ob_timer: "obTimer ob \<Longrightarrow> observerStep ob ObTimerFired (reconcileTimerFired ob)"
| ob_aborted: "\<not> obAborted ob \<Longrightarrow> observerStep ob ObAborted (observerAborted ob)"
| ob_close: "obBoot ob = BootDone \<Longrightarrow> observerStep ob ObClose (closeObserver ob)"
| ob_close_finished: "obClosed ob \<Longrightarrow> obPass ob = None \<Longrightarrow> obRecovery ob = None \<Longrightarrow>
    observerStep ob ObCloseFinished (unsubscribeObserver ob)"
| ob_on: "obBoot ob = BootDone \<Longrightarrow> observerStep ob (ObOnUpdate h) (onUpdate h ob)"
| ob_off: "obBoot ob = BootDone \<Longrightarrow> observerStep ob (ObOffUpdate h) (offUpdate h ob)"

section \<open>Invariant\<close>

text \<open>
  A view was listed under one generation and no notification; a ready view under the present one. A
  listing that nothing invalidated has seen all notifications, and when nothing is requested, running
  or reported the installed view has seen all of them.
\<close>

definition viewInv :: "leaseObserver \<Rightarrow> bool" where
  "viewInv ob \<longleftrightarrow>
    (case obInstalled ob of
       None \<Rightarrow> \<not> obReady ob
     | Some (g, n, k) \<Rightarrow> n = k \<and> n \<le> obNotes ob \<and> (obReady ob \<longrightarrow> obSubscriptionReady ob \<and> g = obGeneration ob))"

lemma viewInv_mono:
  assumes "viewInv ob" and "obInstalled g = obInstalled ob" and "obNotes ob \<le> obNotes g"
    and "obReady g \<longrightarrow> obReady ob \<and> obSubscriptionReady g = obSubscriptionReady ob \<and> obGeneration g = obGeneration ob"
  shows "viewInv g"
  using assms by (auto simp: viewInv_def split: option.splits)

definition current :: "leaseObserver \<Rightarrow> bool" where
  "current ob \<longleftrightarrow> obInstalled ob = Some (obGeneration ob, obNotes ob, obNotes ob)"

definition settledInv :: "leaseObserver \<Rightarrow> bool" where
  "settledInv ob \<longleftrightarrow> (\<not> obClosed ob \<and> \<not> obReconcileRequested ob \<and> \<not> obDropped ob \<longrightarrow> current ob)"

definition passInv :: "leaseObserver \<Rightarrow> bool" where
  "passInv ob \<longleftrightarrow>
    (case obPass ob of
       None \<Rightarrow> settledInv ob \<and> obAwaiting ob = []
     | Some (PassListing a g n es) \<Rightarrow> n \<le> obNotes ob \<and> (\<not> obReconcileRequested ob \<longrightarrow> n = obNotes ob)
     | Some (PassSleeping a) \<Rightarrow> obReconcileRequested ob)"

definition observerInv :: "leaseObserver \<Rightarrow> bool" where
  "observerInv ob \<longleftrightarrow> viewInv ob \<and> passInv ob"

lemma startPass_inv: "viewInv ob \<Longrightarrow> observerInv (startPass a ob)"
  by (auto simp: observerInv_def passInv_def startPass_def elim!: viewInv_mono)

text \<open>A request leaves the view alone and either starts a pass or keeps the one there is.\<close>

lemma requestReconcile_cases:
  fixes ob :: leaseObserver
  defines "ob' \<equiv> ob\<lparr>obReconcileRequested := True\<rparr>"
  obtains (refused) rdy res where "requestReconcile s w ob = ob'\<lparr>obReady := rdy, obResumed := res\<rparr>" "rdy \<longrightarrow> obReady ob"
  | (joined) rdy p where "requestReconcile s w ob = ob'\<lparr>obReady := rdy, obAwaiting := obAwaiting ob @ [w]\<rparr>" "rdy \<longrightarrow> obReady ob"
      "obPass ob = Some p"
  | (started) rdy where "requestReconcile s w ob = startPass 1 (ob'\<lparr>obReady := rdy, obAwaiting := [w]\<rparr>)" "rdy \<longrightarrow> obReady ob"
proof -
  let ?res = "obResumed ob @ [(w, Inr ())]"
  note defs = requestReconcile_def Let_def ob'_def
  consider "obAborted ob" | "\<not> obAborted ob" "\<not> obSubscriptionReady ob \<or> obClosed ob"
    | p where "\<not> obAborted ob" "\<not> (\<not> obSubscriptionReady ob \<or> obClosed ob)" "obPass ob = Some p"
    | "\<not> obAborted ob" "\<not> (\<not> obSubscriptionReady ob \<or> obClosed ob)" "obPass ob = None" by fastforce
  then show thesis
  proof cases
    case 1
    show thesis by (rule refused [where rdy = False and res = ?res]) (use 1 in \<open>simp_all add: defs\<close>)
  next
    case 2
    show thesis by (rule refused [where rdy = "obReady ob \<and> \<not> s" and res = ?res]) (use 2 in \<open>simp_all add: defs\<close>)
  next
    case (3 p)
    show thesis by (rule joined [where rdy = "obReady ob \<and> \<not> s" and p = p]) (use 3 in \<open>simp_all add: defs\<close>)
  next
    case 4
    show thesis by (rule started [where rdy = "obReady ob \<and> \<not> s"]) (use 4 in \<open>simp_all add: defs\<close>)
  qed
qed

lemma requestReconcile_inv:
  assumes "observerInv ob"
  shows "observerInv (requestReconcile s w ob)"
proof -
  have view: "viewInv ob" and pass: "passInv ob" using assms by (simp_all add: observerInv_def)
  show ?thesis
  proof (cases s w ob rule: requestReconcile_cases)
    case (refused rdy res)
    then show ?thesis using viewInv_mono [OF view] pass
      by (auto simp: observerInv_def passInv_def settledInv_def split: option.splits reconcilePass.splits)
  next
    case (joined rdy p)
    then show ?thesis using viewInv_mono [OF view] pass
      by (auto simp: observerInv_def passInv_def settledInv_def split: option.splits reconcilePass.splits)
  next
    case (started rdy)
    then show ?thesis using viewInv_mono [OF view] startPass_inv by simp
  qed
qed

lemma passEnds_inv:
  assumes "viewInv ob" and "settledInv ob"
  shows "observerInv (passEnds r ob)"
proof -
  let ?ob = "ob\<lparr>obPass := None, obResumed := obResumed ob @ map (\<lambda>w. (w, r)) (obAwaiting ob), obAwaiting := []\<rparr>"
  have "viewInv ?ob" by (rule viewInv_mono [OF assms(1)]) simp_all
  then have "observerInv ?ob" using assms(2) by (simp add: observerInv_def passInv_def settledInv_def current_def)
  then show ?thesis using requestReconcile_inv [of ?ob] by (simp add: passEnds_def Let_def)
qed

lemma observerInv_pass:
  assumes "observerInv ob" and "viewInv g" and "obPass g = obPass ob" and "obAwaiting g = obAwaiting ob"
    and "obReconcileRequested g = obReconcileRequested ob" and "obNotes g = obNotes ob"
    and "settledInv ob \<longrightarrow> settledInv g"
  shows "observerInv g"
  using assms by (auto simp: observerInv_def passInv_def split: option.splits reconcilePass.splits)

text \<open>A step that requests a pass keeps the invariant whatever else it does to the fields outside it.\<close>

lemma requested_inv:
  assumes "observerInv ob" and "viewInv g" and "obPass g = obPass ob" and "obAwaiting g = obAwaiting ob" and "obReconcileRequested g"
    and "obNotes ob \<le> obNotes g"
  shows "observerInv g"
  using assms by (auto simp: observerInv_def passInv_def settledInv_def split: option.splits reconcilePass.splits)

lemma relisted_inv:
  assumes inv: "viewInv ob" and seen: "n \<le> obNotes ob" "\<not> obReconcileRequested ob \<longrightarrow> n = obNotes ob"
  shows "observerInv (relisted a g n es ob)"
proof -
  let ?new = "emitUpdate (ob\<lparr>obView := es, obReady := True, obInstalled := Some (g, n, obNotes ob), obDropped := False\<rparr>)"
  consider "obClosed ob" | "\<not> obClosed ob" "\<not> obSubscriptionReady ob \<or> obGeneration ob \<noteq> g"
    | "\<not> obClosed ob" "obSubscriptionReady ob" "obGeneration ob = g" "obReconcileRequested ob"
    | "\<not> obClosed ob" "obSubscriptionReady ob" "obGeneration ob = g" "\<not> obReconcileRequested ob" by blast
  then show ?thesis
  proof cases
    case 1
    then show ?thesis using inv by (simp add: relisted_def) (rule passEnds_inv, simp_all add: settledInv_def)
  next
    case 2
    then show ?thesis using viewInv_mono [OF inv]
      by (simp add: relisted_def) (rule passEnds_inv, simp_all add: settledInv_def)
  next
    case 3
    then have "observerInv (passEnds (Inr ()) ob)" using inv by (intro passEnds_inv) (simp_all add: settledInv_def)
    moreover have "observerInv (ob\<lparr>obPass := Some (PassSleeping a)\<rparr>)"
      using 3 viewInv_mono [OF inv] by (simp add: observerInv_def passInv_def)
    ultimately show ?thesis using 3 by (simp add: relisted_def)
  next
    case 4
    then have "viewInv ?new" "settledInv ?new" using seen by (simp_all add: viewInv_def settledInv_def current_def emitUpdate_def)
    then show ?thesis using 4 by (simp add: relisted_def passEnds_inv)
  qed
qed

lemma pageListed_inv:
  assumes "observerInv ob" and "listing (obPass ob)"
  shows "observerInv (pageListed p ob)"
proof -
  obtain a g n es where pass: "obPass ob = Some (PassListing a g n es)"
    using assms(2) by (cases "obPass ob" rule: listing.cases) auto
  let ?es = "fold (\<lambda>item. mapSet (lliRoute item) item) (llpItems p) es"
  have view: "viewInv ob" and seen: "n \<le> obNotes ob" "\<not> obReconcileRequested ob \<longrightarrow> n = obNotes ob"
    using assms(1) pass by (simp_all add: observerInv_def passInv_def)
  have "observerInv (ob\<lparr>obPass := Some (PassListing a g n ?es)\<rparr>)"
    using viewInv_mono [OF view] seen by (simp add: observerInv_def passInv_def)
  then show ?thesis using relisted_inv [OF view seen] pass by (simp add: pageListed_def Let_def)
qed

lemma passEnds_requested:
  assumes "viewInv ob" and "obReconcileRequested ob \<or> obDropped ob"
  shows "observerInv (passEnds r ob)"
  using assms by (intro passEnds_inv) (auto simp: settledInv_def)

lemma pageFailed_inv:
  assumes "observerInv ob"
  shows "observerInv (pageFailed e ob)"
proof -
  have "viewInv ob" using assms by (simp add: observerInv_def)
  then have "viewInv (ob\<lparr>obDropped := True\<rparr>)" by (rule viewInv_mono) simp_all
  then show ?thesis unfolding pageFailed_def by (rule passEnds_requested) simp
qed

lemma passSlept_inv:
  assumes "observerInv ob" and pass: "obPass ob = Some (PassSleeping a)"
  shows "observerInv (passSlept ob)"
proof -
  have view: "viewInv ob" and "obReconcileRequested ob" using assms by (simp_all add: observerInv_def passInv_def)
  then show ?thesis using startPass_inv [OF view] passEnds_requested [OF view] pass by (simp add: passSlept_def)
qed

lemma invalidate_inv:
  assumes "observerInv ob"
  shows "observerInv (invalidate ob)"
proof -
  let ?g = "ob\<lparr>obNotes := obNotes ob + 1, obReconcileRequested := True\<rparr>"
  have view: "viewInv ob" using assms by (simp add: observerInv_def)
  have "observerInv ?g" by (rule requested_inv [OF assms viewInv_mono [OF view]]) simp_all
  moreover have "invalidate ob = requestReconcile False WaitNobody ?g"
    by (simp add: invalidate_def requestReconcile_def)
  ultimately show ?thesis by (simp add: requestReconcile_inv)
qed

lemma recoveryLoop_inv:
  assumes "observerInv ob"
  shows "observerInv (recoveryLoop a ob)"
proof -
  have view: "viewInv ob" using assms by (simp add: observerInv_def)
  have "observerInv (ob\<lparr>obRecovery := r\<rparr>)" for r
    by (rule observerInv_pass [OF assms viewInv_mono [OF view]]) (simp_all add: settledInv_def current_def)
  then show ?thesis by (simp add: recoveryLoop_def requestReconcile_inv)
qed

lemma unready_inv:
  assumes inv: "observerInv ob" and "obNotes g = obNotes ob" and "\<not> obReady g" and "obInstalled g = obInstalled ob"
    and "obPass g = obPass ob" and "obAwaiting g = obAwaiting ob" and "obReconcileRequested g = obReconcileRequested ob"
    and "settledInv ob \<longrightarrow> settledInv g"
  shows "observerInv g"
proof -
  have view: "viewInv ob" using inv by (simp add: observerInv_def)
  show ?thesis by (rule observerInv_pass [OF inv viewInv_mono [OF view]]) (use assms in simp_all)
qed

lemma recoverSubscription_inv:
  assumes "observerInv ob"
  shows "observerInv (recoverSubscription s ob)"
proof -
  have "observerInv (ob\<lparr>obReady := False, obSubscriptionReady := x\<rparr>)" for x
    by (rule unready_inv [OF assms]) (simp_all add: settledInv_def current_def)
  then show ?thesis using assms by (simp add: recoverSubscription_def recoveryLoop_inv)
qed

lemma subscriptionFailed_inv:
  assumes "observerInv ob"
  shows "observerInv (subscriptionFailed ob)"
proof -
  let ?l = "ob\<lparr>obLive := removeAll (obSubscription ob) (obLive ob)\<rparr>"
  have view: "viewInv ob" using assms by (simp add: observerInv_def)
  have "observerInv (ob\<lparr>obLive := removeAll (obSubscription ob) (obLive ob)\<rparr>)"
    by (rule observerInv_pass [OF assms viewInv_mono [OF view]]) (simp_all add: settledInv_def current_def)
  moreover have "observerInv (?l\<lparr>obReady := False, obSubscriptionReady := False, obGeneration := obGeneration ob + 1,
      obReconcileRequested := True\<rparr>)"
    by (rule requested_inv [OF assms viewInv_mono [OF view]]) simp_all
  ultimately show ?thesis by (simp add: subscriptionFailed_def Let_def recoverSubscription_inv)
qed

lemma frame_inv:
  assumes inv: "observerInv ob" and "obInstalled g = obInstalled ob" "obNotes g = obNotes ob" "obPass g = obPass ob"
    "obAwaiting g = obAwaiting ob" "obReconcileRequested g = obReconcileRequested ob" "obGeneration g = obGeneration ob"
    "obDropped g = obDropped ob" and "obReady g \<longrightarrow> obReady ob \<and> obSubscriptionReady g = obSubscriptionReady ob"
    and "obClosed ob \<longrightarrow> obClosed g"
  shows "observerInv g"
proof -
  have view: "viewInv ob" using inv by (simp add: observerInv_def)
  show ?thesis
    by (rule observerInv_pass [OF inv viewInv_mono [OF view]]) (use assms in \<open>auto simp: settledInv_def current_def\<close>)
qed

text \<open>A new subscription starts a new generation, and the request that follows it gives up readiness.\<close>

lemma subscribed_inv:
  assumes inv: "observerInv ob" and "obInstalled g = obInstalled ob" "obNotes g = obNotes ob" "obPass g = obPass ob"
    "obAwaiting g = obAwaiting ob"
  shows "observerInv (requestReconcile True w g)"
proof -
  have view: "viewInv ob" using inv by (simp add: observerInv_def)
  have "observerInv (g\<lparr>obReady := False, obReconcileRequested := True\<rparr>)"
    by (rule requested_inv [OF inv viewInv_mono [OF view]]) (use assms in simp_all)
  moreover have "requestReconcile True w g = requestReconcile True w (g\<lparr>obReady := False, obReconcileRequested := True\<rparr>)"
    by (simp add: requestReconcile_def)
  ultimately show ?thesis by (simp add: requestReconcile_inv)
qed

lemma recoverySubscribed_inv:
  assumes "observerInv ob"
  shows "observerInv (recoverySubscribed r ob)"
  using frame_inv [OF assms] subscribed_inv [OF assms] assms
  by (auto simp: recoverySubscribed_def split: option.split recoveryPhase.split sum.split)

lemma recoveryReconciled_inv: "observerInv ob \<Longrightarrow> observerInv (recoveryReconciled r ob)"
  using frame_inv [of ob] by (auto simp: recoveryReconciled_def split: option.split recoveryPhase.split)

lemma recoverySlept_inv: "observerInv ob \<Longrightarrow> observerInv (recoverySlept ob)"
  by (auto simp: recoverySlept_def recoveryLoop_inv split: option.split recoveryPhase.split)

lemma bootSubscribed_inv: "observerInv ob \<Longrightarrow> observerInv (bootSubscribed r ob)"
  using frame_inv [of ob] subscribed_inv [of ob] by (auto simp: bootSubscribed_def split: sum.split)

lemma scheduleReconcile_inv: "observerInv ob \<Longrightarrow> observerInv (scheduleReconcile ob)"
  using frame_inv [of ob] by (auto simp: scheduleReconcile_def)

lemma bootReconciled_inv: "observerInv ob \<Longrightarrow> observerInv (bootReconciled r ob)"
  using frame_inv [of ob] by (auto simp: bootReconciled_def unsubscribeObserver_def scheduleReconcile_def split: sum.split)

lemma resumeWaiter_inv: "observerInv ob \<Longrightarrow> observerInv (resumeWaiter w r ob)"
  by (cases w) (auto simp: bootReconciled_inv recoveryReconciled_inv recoverSubscription_inv scheduleReconcile_inv)

lemma timer_inv: "observerInv ob \<Longrightarrow> observerInv (reconcileTimerFired ob)"
  using frame_inv [of ob "ob\<lparr>obTimer := False\<rparr>"] by (auto simp: reconcileTimerFired_def Let_def requestReconcile_inv)

lemma observerStep_inv: "observerStep ob e ob' \<Longrightarrow> observerInv ob \<Longrightarrow> observerInv ob'"
proof (induction rule: observerStep.induct)
  case (ob_resumed ob w r rest)
  then have "observerInv (ob\<lparr>obResumed := rest\<rparr>)" using frame_inv [of ob] by simp
  then show ?case by (rule resumeWaiter_inv)
next
  case (ob_reconnected ob)
  then show ?case by (simp add: observerReconnected_def requestReconcile_inv)
next
  case (ob_aborted ob)
  then show ?case using frame_inv [of ob] by (auto simp: observerAborted_def)
next
  case (ob_close ob)
  then show ?case using frame_inv [of ob] by (auto simp: closeObserver_def)
next
  case (ob_close_finished ob)
  then show ?case using frame_inv [of ob] by (auto simp: unsubscribeObserver_def)
next
  case (ob_on ob h)
  then show ?case using frame_inv [of ob] by (auto simp: onUpdate_def)
next
  case (ob_off ob h)
  then show ?case using frame_inv [of ob] by (auto simp: offUpdate_def)
qed (simp_all add: bootSubscribed_inv invalidate_inv pageListed_inv pageFailed_inv passSlept_inv subscriptionFailed_inv
    recoverySubscribed_inv recoverySlept_inv timer_inv)

interpretation observer: machine newObserver observerStep observerInv
  by unfold_locales (simp add: observerInv_def viewInv_def passInv_def settledInv_def newObserver_def, rule observerStep_inv)

section \<open>Properties\<close>

text \<open>
  C16: the observer is free of races. In every reachable state a view that is called ready was listed completely under the
  present subscription without a notification in between, and once nothing is requested,
  running or reported as failed, the installed view has seen every notification: none is lost
  between a listing and its installation.
\<close>

theorem inventory_is_race_free:
  assumes "reachable observerStep newObserver ob"
  shows "(obReady ob \<longrightarrow> obSubscriptionReady ob \<and> (\<exists>n. obInstalled ob = Some (obGeneration ob, n, n))) \<and>
    (\<not> obClosed ob \<and> \<not> obReconcileRequested ob \<and> obPass ob = None \<and> \<not> obDropped ob \<longrightarrow>
       obInstalled ob = Some (obGeneration ob, obNotes ob, obNotes ob))"
proof -
  have "observerInv ob" by (rule observer.reachable_inv [OF assms])
  then show ?thesis
    by (auto simp: observerInv_def viewInv_def passInv_def settledInv_def current_def split: option.splits)
qed

definition lastPage :: "leaseListItem list \<Rightarrow> leaseListPage" where
  "lastPage items = \<lparr>llpItems = items, llpNextCursor = None\<rparr>"

lemmas observer_eval = newObserver_def bootSubscribed_def requestReconcile_def startPass_def subscriptionFailed_def recoverSubscription_def
  recoveryLoop_def pageListed_def pageFailed_def relisted_def passEnds_def emitUpdate_def bootReconciled_def unsubscribeObserver_def
  scheduleReconcile_def recoverySubscribed_def invalidate_def lastPage_def Let_def

definition boot1 :: leaseObserver where "boot1 = bootSubscribed (Inr ()) newObserver"

lemma boot1_step: "observerStep newObserver (ObBootSubscribed (Inr ())) boot1"
  unfolding boot1_def by (rule ob_subscribed) (simp add: newObserver_def)

theorem inventory_is_race_free_witness:
  "let ob = pageListed (lastPage []) boot1 in obReady ob \<and> obInstalled ob = Some (obGeneration ob, obNotes ob, obNotes ob)"
proof -
  have "observerStep boot1 (ObPage (lastPage [])) (pageListed (lastPage []) boot1)"
    by (rule ob_page) (simp add: boot1_def observer_eval)
  then have "reachable observerStep newObserver (pageListed (lastPage []) boot1)"
    by (rule reachable_step [where step = observerStep, OF reachable_step [where step = observerStep, OF reachable_start boot1_step]])
  from inventory_is_race_free [OF this] show ?thesis by (simp add: boot1_def observer_eval)
qed

definition boot2 :: leaseObserver where "boot2 = subscriptionFailed boot1"

lemma boot2_run: "run observerStep newObserver [ObBootSubscribed (Inr ()), ObSubscriptionFailed] boot2"
proof (rule run_two [of observerStep, OF boot1_step])
  show "observerStep boot1 ObSubscriptionFailed boot2"
    unfolding boot2_def by (rule ob_failed) (simp_all add: boot1_def observer_eval)
qed

text \<open>
  The bootstrap can resolve without a view. When the subscription fails while the first listing runs, the pass
  ends without an error and \<^verbatim>\<open>observeInventory\<close> returns an observer that is not ready.
\<close>

theorem bootstrap_resolves_unready:
  "\<exists>ob. run observerStep newObserver
      [ObBootSubscribed (Inr ()), ObSubscriptionFailed, ObPage (lastPage items), ObResumed] ob \<and>
    obBoot ob = BootDone \<and> \<not> obReady ob \<and> obView ob = []"
proof -
  let ?a = "pageListed (lastPage items) boot2"
  have s: "observerStep boot2 (ObPage (lastPage items)) ?a"
    by (rule ob_page) (simp add: boot2_def boot1_def observer_eval)
  have a: "obResumed ?a = [(WaitBootstrap, Inr ())]" "\<not> obReady ?a" "obView ?a = []"
    by (simp_all add: boot2_def boot1_def observer_eval)
  let ?b = "resumeWaiter WaitBootstrap (Inr ()) (?a\<lparr>obResumed := []\<rparr>)"
  have "observerStep ?a ObResumed ?b" by (rule ob_resumed) (rule a)
  from run_append [OF boot2_run run_two [of observerStep, OF s this]] show ?thesis
    using a by (intro exI [of _ ?b]) (simp add: bootReconciled_def scheduleReconcile_def)
qed

text \<open>
  A failed bootstrap can leave a subscription behind. When the subscription fails while the first listing runs and
  the listing fails too, \<^verbatim>\<open>observeInventory\<close> throws, but the recovery it started
  subscribes again, and nobody holds a handle that could close it.
\<close>

theorem failed_bootstrap_leaks:
  "\<exists>ob. run observerStep newObserver
      [ObBootSubscribed (Inr ()), ObSubscriptionFailed, ObPageFailed e, ObResumed, ObRecoverySubscribed (Inr ())] ob \<and>
    obBoot ob = BootFailed \<and> obLive ob = [1] \<and> obSubscriptionReady ob"
proof -
  let ?a = "pageFailed e boot2"
  let ?b = "resumeWaiter WaitBootstrap (Inl e) (?a\<lparr>obResumed := []\<rparr>)"
  let ?c = "recoverySubscribed (Inr ()) ?b"
  have s1: "observerStep boot2 (ObPageFailed e) ?a" by (rule ob_page_failed) (simp add: boot2_def boot1_def observer_eval)
  have a: "obResumed ?a = [(WaitBootstrap, Inl e)]" by (simp add: boot2_def boot1_def observer_eval)
  have s2: "observerStep ?a ObResumed ?b" by (rule ob_resumed) (rule a)
  have s3: "observerStep ?b (ObRecoverySubscribed (Inr ())) ?c"
    by (rule ob_resubscribed) (simp add: boot2_def boot1_def observer_eval)
  have "obBoot ?c = BootFailed \<and> obLive ?c = [1] \<and> obSubscriptionReady ?c" by (simp add: boot2_def boot1_def observer_eval)
  with run_append [OF boot2_run run_cons [of observerStep, OF s1 run_two [of observerStep, OF s2 s3]]]
  show ?thesis by (intro exI [of _ ?c]) simp
qed

end
