(* ===== verification/KvTransaction.thy ===== *)
theory KvTransaction
  imports KvCodec Routes Machines "HOL-Library.List_Lexorder"
begin

text \<open>
  The key-value transaction, \<^verbatim>\<open>domains/kv/transaction.ts\<close>. The first part are its operations: what each
  sends and what it makes of the answer. The second part is the handle: it closes on commit, rollback and disconnect,
  and reads may be retried. The last part is \<^verbatim>\<open>scanAll\<close>, which pages through a range; it is compared with the range
  of a store.
\<close>

section \<open>Operations\<close>

fun compareKeys :: "bytes \<Rightarrow> bytes \<Rightarrow> int" where
  "compareKeys (a # as) (b # bs) = (if a \<noteq> b then int (unat a) - int (unat b) else compareKeys as bs)"
| "compareKeys as bs = int (length as) - int (length bs)"

definition assertValidRange :: "bytes \<Rightarrow> bytes \<Rightarrow> unit result" where
  "assertValidRange startKey endKey =
    (if compareKeys startKey endKey \<ge> 0 then Inl (KvError ''INVALID_RANGE'' None) else Inr ())"

text \<open>
  A status of zero counts as success, also when it is the code of a refusal; the answer of the operation is
  then what the decoder left in the response.
\<close>

definition kvCheckStatus :: "string \<Rightarrow> 'a \<Rightarrow> 'a reply \<Rightarrow> 'a result" where
  "kvCheckStatus operation whenOk reply =
    (case reply of
       Accepted v \<Rightarrow> Inr v
     | Refused r \<Rightarrow>
         if rfStatus r = 0 then Inr whenOk
         else Inl (attachErrorDisposition (KvError operation (Some (rfStatus r))) (rfClass r) (rfEffect r)))"

record kvTransaction =
  kxRoute :: jsstr
  kxId :: nat
  kxClosed :: bool
  kxListening :: bool

definition createKvTransaction :: "jsstr \<Rightarrow> nat \<Rightarrow> kvTransaction" where
  "createKvTransaction route txId = \<lparr>kxRoute = route, kxId = txId, kxClosed = False, kxListening = True\<rparr>"

definition kvEnsureOpen :: "kvTransaction \<Rightarrow> unit result" where
  "kvEnsureOpen tx = (if kxClosed tx then Inl (KvError ''TX_CLOSED'' None) else Inr ())"

definition kvDisconnected :: "kvTransaction \<Rightarrow> kvTransaction" where
  "kvDisconnected tx = (if kxListening tx then tx\<lparr>kxClosed := True, kxListening := False\<rparr> else tx)"

definition kvPut :: "bytes \<Rightarrow> bytes \<Rightarrow> kvTransaction \<Rightarrow> bytes result" where
  "kvPut key val tx = andThen (kvEnsureOpen tx) (\<lambda>_. kvEncodePut (int (kxId tx)) (kxRoute tx) key val)"

definition kvInsert :: "bytes \<Rightarrow> bytes \<Rightarrow> kvTransaction \<Rightarrow> bytes result" where
  "kvInsert key val tx = andThen (kvEnsureOpen tx) (\<lambda>_. kvEncodeInsert (int (kxId tx)) (kxRoute tx) key val)"

definition kvDeleteItem :: "bytes \<Rightarrow> kvTransaction \<Rightarrow> bytes result" where
  "kvDeleteItem key tx = andThen (kvEnsureOpen tx) (\<lambda>_. kvEncodeDelete (int (kxId tx)) (kxRoute tx) key)"

definition kvDeleteRange :: "bytes \<Rightarrow> bytes \<Rightarrow> kvTransaction \<Rightarrow> bytes result" where
  "kvDeleteRange startKey endKey tx =
    andThen (kvEnsureOpen tx) (\<lambda>_. andThen (assertValidRange startKey endKey) (\<lambda>_.
      kvEncodeDeleteRange (int (kxId tx)) (kxRoute tx) startKey endKey))"

definition kvMutationAnswered :: "string \<Rightarrow> bytes \<Rightarrow> unit result" where
  "kvMutationAnswered operation response =
    andThen (kvDecodeStatusResponse response) (\<lambda>reply. kvCheckStatus operation () reply)"

text \<open>The reads run inside \<^verbatim>\<open>runWithRetry\<close>; the payload of an attempt does not look at the handle again.\<close>

definition kvGetPayload :: "bytes \<Rightarrow> kvTransaction \<Rightarrow> bytes result" where
  "kvGetPayload key tx = kvEncodeGet (int (kxId tx)) (kxRoute tx) key"

definition kvGetAnswered :: "bytes \<Rightarrow> bytes option result" where
  "kvGetAnswered response = andThen (kvDecodeGetResponse response) (\<lambda>reply. kvCheckStatus ''GET'' None reply)"

definition kvScanPayload :: "kvScanOptions \<Rightarrow> kvTransaction \<Rightarrow> bytes result" where
  "kvScanPayload opts tx = kvEncodeScan (int (kxId tx)) (kxRoute tx) opts"

definition kvScanAnswered :: "bytes \<Rightarrow> kvScanPage result" where
  "kvScanAnswered response =
    andThen (kvDecodeScanResponse response) (\<lambda>reply. kvCheckStatus ''SCAN'' \<lparr>pageEntries = [], pageHasMore = False\<rparr> reply)"

definition kvCommit :: "string option \<Rightarrow> kvTransaction \<Rightarrow> bytes result \<times> kvTransaction" where
  "kvCommit durability tx =
    (case kvEnsureOpen tx of
       Inl e \<Rightarrow> (Inl e, tx)
     | Inr _ \<Rightarrow>
        (case durability of
           None \<Rightarrow> (Inl (KvError ''MISSING_DURABILITY'' None), tx)
         | Some d \<Rightarrow>
            (case kvEncodeCommit (int (kxId tx)) (kxRoute tx) d of
               Inl e \<Rightarrow> (Inl e, tx)
             | Inr payload \<Rightarrow> (Inr payload, tx\<lparr>kxClosed := True, kxListening := False\<rparr>))))"

text \<open>A rollback of a closed transaction sends nothing.\<close>

definition kvRollback :: "kvTransaction \<Rightarrow> bytes option result \<times> kvTransaction" where
  "kvRollback tx =
    (if kxClosed tx then (Inr None, tx)
     else (andThen (kvEncodeRollback (int (kxId tx)) (kxRoute tx)) (\<lambda>payload. Inr (Some payload)),
           tx\<lparr>kxClosed := True, kxListening := False\<rparr>))"

section \<open>The client\<close>

definition kvBegin :: "jsstr \<Rightarrow> string option \<Rightarrow> bytes result" where
  "kvBegin route mode =
    (if \<not> isRouteShape route (js ''kv'') 3 True then Inl (KvError ''INVALID_ROUTE'' None)
     else kvEncodeBegin route (case mode of None \<Rightarrow> ''ReadWrite'' | Some m \<Rightarrow> m))"

definition kvBeginAnswered :: "jsstr \<Rightarrow> bytes \<Rightarrow> kvTransaction result" where
  "kvBeginAnswered route response =
    andThen (kvDecodeBeginResponse response) (\<lambda>reply.
      case reply of
        Accepted (Some txId) \<Rightarrow> Inr (createKvTransaction route txId)
      | Accepted None \<Rightarrow> Inl (KvError ''BEGIN_FAILED'' (Some 0))
      | Refused r \<Rightarrow> Inl (attachErrorDisposition (KvError ''BEGIN_FAILED'' (Some (rfStatus r))) (rfClass r) (rfEffect r)))"

section \<open>A handle in use\<close>

text \<open>
  What a handle sends over its life. A read stays outstanding until it is answered or its retries end;
  a retry sends its payload again, if the error allows it.
\<close>

datatype kvCall =
    CallPut bytes bytes | CallInsert bytes bytes | CallDelete bytes | CallDeleteRange bytes bytes
  | CallGet bytes | CallScan kvScanOptions | CallCommit "string option" | CallRollback

record kvHandle =
  khTx :: kvTransaction
  khReads :: "(kvCall \<times> bytes) list"
  khSent :: "(bool \<times> kvCall) list"

definition newHandle :: "jsstr \<Rightarrow> nat \<Rightarrow> kvHandle" where
  "newHandle route txId = \<lparr>khTx = createKvTransaction route txId, khReads = [], khSent = []\<rparr>"

definition noteSent :: "kvCall \<Rightarrow> bytes result \<Rightarrow> kvHandle \<Rightarrow> kvHandle" where
  "noteSent call payload h =
    (case payload of Inl e \<Rightarrow> h | Inr _ \<Rightarrow> h\<lparr>khSent := khSent h @ [(kxClosed (khTx h), call)]\<rparr>)"

definition startRead :: "kvCall \<Rightarrow> bytes result \<Rightarrow> kvHandle \<Rightarrow> kvHandle" where
  "startRead call payload h =
    (case kvEnsureOpen (khTx h) of
       Inl e \<Rightarrow> h
     | Inr _ \<Rightarrow>
        (case payload of
           Inl e \<Rightarrow> h
         | Inr b \<Rightarrow> (noteSent call payload h)\<lparr>khReads := khReads h @ [(call, b)]\<rparr>))"

fun kvCalled :: "kvCall \<Rightarrow> kvHandle \<Rightarrow> kvHandle" where
  "kvCalled (CallPut k v) h = noteSent (CallPut k v) (kvPut k v (khTx h)) h"
| "kvCalled (CallInsert k v) h = noteSent (CallInsert k v) (kvInsert k v (khTx h)) h"
| "kvCalled (CallDelete k) h = noteSent (CallDelete k) (kvDeleteItem k (khTx h)) h"
| "kvCalled (CallDeleteRange a b) h = noteSent (CallDeleteRange a b) (kvDeleteRange a b (khTx h)) h"
| "kvCalled (CallGet k) h = startRead (CallGet k) (kvGetPayload k (khTx h)) h"
| "kvCalled (CallScan opts) h = startRead (CallScan opts) (kvScanPayload opts (khTx h)) h"
| "kvCalled (CallCommit d) h =
    (let (payload, tx) = kvCommit d (khTx h) in (noteSent (CallCommit d) payload h)\<lparr>khTx := tx\<rparr>)"
| "kvCalled CallRollback h =
    (let (payload, tx) = kvRollback (khTx h) in
     (case payload of Inr (Some b) \<Rightarrow> noteSent CallRollback (Inr b) h | _ \<Rightarrow> h)\<lparr>khTx := tx\<rparr>)"

datatype kvEvent = KvCalled kvCall | KvRetried kvCall jserror | KvDisconnected

inductive kvStep :: "kvHandle \<Rightarrow> kvEvent \<Rightarrow> kvHandle \<Rightarrow> bool" where
  kv_called: "kvStep h (KvCalled call) (kvCalled call h)"
| kv_retried: "(call, b) \<in> set (khReads h) \<Longrightarrow> shouldRetryOperation ReplayableRead e \<Longrightarrow>
    kvStep h (KvRetried call e) (noteSent call (Inr b) h)"
| kv_disconnected: "kvStep h KvDisconnected (h\<lparr>khTx := kvDisconnected (khTx h)\<rparr>)"

fun mutates :: "kvCall \<Rightarrow> bool" where
  "mutates (CallGet k) = False"
| "mutates (CallScan opts) = False"
| "mutates c = True"

fun ends :: "kvCall \<Rightarrow> bool" where
  "ends (CallCommit d) = True"
| "ends CallRollback = True"
| "ends c = False"

definition handleInv :: "kvHandle \<Rightarrow> bool" where
  "handleInv h \<longleftrightarrow>
    kxListening (khTx h) = (\<not> kxClosed (khTx h)) \<and>
    (\<forall>p \<in> set (khSent h). mutates (snd p) \<longrightarrow> \<not> fst p) \<and>
    length (filter (ends \<circ> snd) (khSent h)) \<le> (if kxClosed (khTx h) then 1 else 0) \<and>
    (\<forall>p \<in> set (khReads h). \<not> mutates (fst p))"

lemma noteSent_tx [simp]: "khTx (noteSent c p h) = khTx h"
  by (simp add: noteSent_def split: sum.split)

lemma kvStep_inv: "kvStep h e h' \<Longrightarrow> handleInv h \<Longrightarrow> handleInv h'"
proof (induction rule: kvStep.induct)
  case (kv_called h call)
  then show ?case
    by (cases call)
      (auto simp: handleInv_def noteSent_def startRead_def kvPut_def kvInsert_def kvDeleteItem_def kvDeleteRange_def kvEnsureOpen_def
        kvCommit_def kvRollback_def Let_def andThen_def split: sum.splits option.splits if_splits)
next
  case (kv_retried call b h e)
  then have "\<not> mutates call" by (auto simp: handleInv_def)
  then have "\<not> ends call" by (cases call) simp_all
  then show ?case using kv_retried by (auto simp: handleInv_def noteSent_def)
next
  case (kv_disconnected h)
  then show ?case by (auto simp: handleInv_def kvDisconnected_def)
qed

interpretation kv: machine "newHandle route txId" kvStep handleInv for route txId
  by unfold_locales (simp add: handleInv_def newHandle_def createKvTransaction_def, rule kvStep_inv)

lemma kvClosed_step:
  assumes "kvStep h e h'" and "kxClosed (khTx h)" and "handleInv h"
  shows "kxClosed (khTx h') \<and> filter (mutates \<circ> snd) (khSent h') = filter (mutates \<circ> snd) (khSent h)"
  using assms
proof (induction rule: kvStep.induct)
  case (kv_called h call)
  then show ?case
    by (cases call)
      (auto simp: noteSent_def startRead_def kvPut_def kvInsert_def kvDeleteItem_def kvDeleteRange_def kvEnsureOpen_def
        kvCommit_def kvRollback_def Let_def)
next
  case (kv_retried call b h e)
  then show ?case by (auto simp: noteSent_def handleInv_def)
qed (simp add: kvDisconnected_def)

lemma kvClosed_run:
  "run kvStep h es h' \<Longrightarrow> kxClosed (khTx h) \<Longrightarrow> handleInv h \<Longrightarrow>
    handleInv h' \<and> kxClosed (khTx h') \<and> filter (mutates \<circ> snd) (khSent h') = filter (mutates \<circ> snd) (khSent h)"
proof (induction rule: run.induct)
  case (run_more h es h1 e h2)
  then show ?case using kvClosed_step [OF run_more.hyps(2)] kvStep_inv [OF run_more.hyps(2)] by (simp add: comp_def)
qed simp

text \<open>
  C31: a transaction handle ends once. Whatever is called in whatever order, no mutation is sent through a closed handle, commit and
  rollback together are sent at most once, and after a commit, a rollback or a disconnect no
  mutation is ever sent again.
\<close>

theorem transaction_ends_once:
  assumes "reachable kvStep (newHandle route txId) h"
  shows "(\<forall>p \<in> set (khSent h). mutates (snd p) \<longrightarrow> \<not> fst p) \<and> length (filter (ends \<circ> snd) (khSent h)) \<le> 1 \<and>
    (\<forall>es h'. kxClosed (khTx h) \<and> run kvStep h es h' \<longrightarrow>
       filter (mutates \<circ> snd) (khSent h') = filter (mutates \<circ> snd) (khSent h))"
proof -
  have "handleInv h" by (rule kv.reachable_inv [OF assms])
  then show ?thesis using kvClosed_run [of h] by (auto simp: handleInv_def split: if_splits)
qed

theorem transaction_ends_once_witness:
  "let h = kvCalled CallRollback (newHandle [] 7) in kxClosed (khTx h) \<and>
    filter (mutates \<circ> snd) (khSent (kvCalled (CallPut [1] [2]) h)) = filter (mutates \<circ> snd) (khSent h)"
proof -
  let ?h = "kvCalled CallRollback (newHandle [] 7)"
  have r: "reachable kvStep (newHandle [] 7) ?h"
    by (rule reachable_step [where step = kvStep, OF reachable_start kv_called])
  have c: "kxClosed (khTx ?h)" by (simp add: kvRollback_def newHandle_def createKvTransaction_def)
  have "run kvStep ?h [KvCalled (CallPut [1] [2])] (kvCalled (CallPut [1] [2]) ?h)" by (rule run_one [of kvStep, OF kv_called])
  with transaction_ends_once [OF r] c show ?thesis unfolding Let_def by blast
qed

text \<open>
  Reads escape this. A read that fails when the connection is lost is retried on the next session with the number of the lost
  transaction, although the handle is closed.
\<close>

theorem read_retried_on_closed_transaction:
  "\<exists>h. run kvStep (newHandle [] 7) [KvCalled (CallGet [1]), KvDisconnected, KvRetried (CallGet [1]) ConnectionError] h \<and>
    kxClosed (khTx h) \<and> last (khSent h) = (True, CallGet [1])"
proof -
  obtain b where b: "kvEncodeGet 7 [] [1] = Inr b" using kvEncodeGet_layout [of 7 "[]" "[1]"] by blast
  let ?h1 = "kvCalled (CallGet [1]) (newHandle [] 7)"
  have h1: "khReads ?h1 = [(CallGet [1], b)]" "kxListening (khTx ?h1)"
    by (simp_all add: startRead_def kvGetPayload_def kvEnsureOpen_def newHandle_def createKvTransaction_def b noteSent_def)
  let ?h2 = "?h1\<lparr>khTx := kvDisconnected (khTx ?h1)\<rparr>"
  have h2: "khReads ?h2 = [(CallGet [1], b)]" "kxClosed (khTx ?h2)" using h1 by (simp_all add: kvDisconnected_def)
  have s1: "kvStep (newHandle [] 7) (KvCalled (CallGet [1])) ?h1" by (rule kv_called)
  have s2: "kvStep ?h1 KvDisconnected ?h2" by (rule kv_disconnected)
  have "shouldRetryOperation ReplayableRead ConnectionError" by (simp add: isTransientRetryError_def ConnectionError_def mkError_def)
  then have s3: "kvStep ?h2 (KvRetried (CallGet [1]) ConnectionError) (noteSent (CallGet [1]) (Inr b) ?h2)"
    using h2 by (intro kv_retried) simp_all
  have "kxClosed (khTx (noteSent (CallGet [1]) (Inr b) ?h2)) \<and> last (khSent (noteSent (CallGet [1]) (Inr b) ?h2)) = (True, CallGet [1])"
    using h2 by (simp add: noteSent_def)
  with run_cons [of kvStep, OF s1 run_two [of kvStep, OF s2 s3]] show ?thesis by blast
qed

section \<open>Paging through a range\<close>

text \<open>
  \<^verbatim>\<open>scanAll\<close>: \<open>scan\<close> is the call of \<^verbatim>\<open>scan\<close>. The result is what was yielded and how the generator ended; it may page for ever.
\<close>

partial_function (option) scanAllLoop ::
  "(kvScanOptions \<Rightarrow> kvScanPage result) \<Rightarrow> kvScanOptions \<Rightarrow> kvScanOptions \<Rightarrow> (bytes \<times> bytes) list \<Rightarrow>
    ((bytes \<times> bytes) list \<times> unit result) option" where
  "scanAllLoop scan opts nextOptions yielded =
    (case scan nextOptions of
       Inl e \<Rightarrow> Some (yielded, Inl e)
     | Inr page \<Rightarrow>
         if pageHasMore page \<and> pageEntries page = [] then Some (yielded, Inl (KvError ''SCAN_TRUNCATED'' None))
         else (let yielded = yielded @ pageEntries page in
           if \<not> pageHasMore page then Some (yielded, Inr ())
           else scanAllLoop scan opts
             (opts\<lparr>scanStartKey := Some (fst (last (pageEntries page))), scanStartExclusive := True\<rparr>) yielded))"

definition scanAll :: "(kvScanOptions \<Rightarrow> kvScanPage result) \<Rightarrow> kvScanOptions \<Rightarrow> ((bytes \<times> bytes) list \<times> unit result) option" where
  "scanAll scan opts = scanAllLoop scan opts opts []"

subsection \<open>The order of keys\<close>

lemma Nil_less_iff: "[] < bs \<longleftrightarrow> (bs :: bytes) \<noteq> []"
  by (cases bs) simp_all

lemma compareKeys_less: "compareKeys a b < 0 \<longleftrightarrow> a < b"
  by (induction a b rule: compareKeys.induct) (auto simp: word_less_def Nil_less_iff)

lemma compareKeys_eq: "compareKeys a b = 0 \<longleftrightarrow> a = b"
  by (induction a b rule: compareKeys.induct) (auto simp: word_uint_eq_iff)

lemma assertValidRange_iff: "assertValidRange a b = Inr () \<longleftrightarrow> a < b"
  using compareKeys_less [of a b] by (auto simp: assertValidRange_def)

subsection \<open>A store and its pages\<close>

text \<open>
  What the options select of a store: the directional bounds as \<^verbatim>\<open>KvScanOptions\<close> documents them. A page is any first part
  of it, not empty while there is something left, with the flag that says whether something is left.
\<close>

definition directed :: "bool \<Rightarrow> bytes \<Rightarrow> bytes \<Rightarrow> bool" where
  "directed reverse a b \<longleftrightarrow> (if reverse then b < a else a < b)"

definition afterStart :: "kvScanOptions \<Rightarrow> bytes \<Rightarrow> bool" where
  "afterStart opts k \<longleftrightarrow>
    (case scanStartKey opts of
       None \<Rightarrow> True
     | Some s \<Rightarrow> directed (scanReverse opts) s k \<or> (k = s \<and> \<not> scanStartExclusive opts))"

definition beforeEnd :: "kvScanOptions \<Rightarrow> bytes \<Rightarrow> bool" where
  "beforeEnd opts k \<longleftrightarrow> (case scanEndKey opts of None \<Rightarrow> True | Some e \<Rightarrow> directed (scanReverse opts) k e)"

definition selected :: "(bytes \<times> bytes) list \<Rightarrow> kvScanOptions \<Rightarrow> (bytes \<times> bytes) list" where
  "selected pairs opts =
    filter (\<lambda>e. afterStart opts (fst e) \<and> beforeEnd opts (fst e)) (if scanReverse opts then rev pairs else pairs)"

definition storePage :: "(kvScanOptions \<Rightarrow> nat) \<Rightarrow> (bytes \<times> bytes) list \<Rightarrow> kvScanOptions \<Rightarrow> kvScanPage result" where
  "storePage pageSize pairs opts =
    (let es = selected pairs opts; n = max 1 (pageSize opts)
     in Inr \<lparr>pageEntries = take n es, pageHasMore = (n < length es)\<rparr>)"

lemma directed_trans: "directed r a b \<Longrightarrow> directed r b c \<Longrightarrow> directed r a c"
  by (auto simp: directed_def split: if_splits)

lemma directed_irrefl: "\<not> directed r a a"
  by (simp add: directed_def)

text \<open>Of an ordered list, what comes after its \<open>n\<close>th element is its rest.\<close>

lemma after_nth:
  assumes "sorted_wrt (\<lambda>a b. directed r (fst a) (fst b)) es" and "n < length es"
  shows "filter (\<lambda>e. directed r (fst (es ! n)) (fst e)) es = drop (n + 1) es"
proof -
  have split: "es = take (n + 1) es @ drop (n + 1) es" by simp
  have head: "\<not> directed r (fst (es ! n)) (fst e)" if e: "e \<in> set (take (n + 1) es)" for e
  proof -
    from e obtain i where "i < length (take (n + 1) es)" "take (n + 1) es ! i = e" unfolding in_set_conv_nth by blast
    then have i: "i \<le> n" "e = es ! i" by simp_all
    show ?thesis
    proof (cases "i = n")
      case False
      then have "directed r (fst e) (fst (es ! n))" using sorted_wrt_nth_less [OF assms(1), of i n] i assms(2) by simp
      then show ?thesis using directed_trans directed_irrefl by blast
    qed (simp add: i directed_irrefl)
  qed
  have tail: "directed r (fst (es ! n)) (fst e)" if e: "e \<in> set (drop (n + 1) es)" for e
  proof -
    from e obtain i where "i < length (drop (n + 1) es)" "drop (n + 1) es ! i = e" unfolding in_set_conv_nth by blast
    then show ?thesis using sorted_wrt_nth_less [OF assms(1), of n "n + 1 + i"] by simp
  qed
  have "filter (\<lambda>e. directed r (fst (es ! n)) (fst e)) (take (n + 1) es @ drop (n + 1) es) = drop (n + 1) es"
    unfolding filter_append using head tail
    by (subst filter_False, blast) (subst filter_True, blast, rule append_Nil)
  then show ?thesis by (simp only: append_take_drop_id)
qed

lemma selected_sorted:
  assumes "sorted_wrt (\<lambda>a b. fst a < fst b) pairs"
  shows "sorted_wrt (\<lambda>a b. directed (scanReverse opts) (fst a) (fst b)) (selected pairs opts)"
  using assms by (cases "scanReverse opts")
    (auto simp: selected_def directed_def sorted_wrt_rev intro!: sorted_wrt_filter)

text \<open>Continuing after the last key of a page selects what the page left over.\<close>

lemma selected_continue:
  assumes sorted: "sorted_wrt (\<lambda>a b. fst a < fst b) pairs" and n: "n < length (selected pairs nxt)"
    and same: "scanReverse opts = scanReverse nxt" "scanEndKey opts = scanEndKey nxt"
  shows "selected pairs (opts\<lparr>scanStartKey := Some (fst (selected pairs nxt ! n)), scanStartExclusive := True\<rparr>) =
    drop (n + 1) (selected pairs nxt)"
proof -
  let ?k = "fst (selected pairs nxt ! n)" and ?r = "scanReverse nxt"
  have k: "afterStart nxt ?k" using nth_mem [OF n] by (auto simp: selected_def)
  have start: "afterStart nxt x" if "directed ?r ?k x" for x
    using k that directed_trans by (auto simp: afterStart_def split: option.splits)
  have "selected pairs (opts\<lparr>scanStartKey := Some ?k, scanStartExclusive := True\<rparr>) =
      filter (\<lambda>e. directed ?r ?k (fst e)) (selected pairs nxt)"
  proof -
    have "(directed ?r ?k x \<and> beforeEnd nxt x) = ((afterStart nxt x \<and> beforeEnd nxt x) \<and> directed ?r ?k x)" for x
      using start by blast
    moreover have "afterStart (opts\<lparr>scanStartKey := Some ?k, scanStartExclusive := True\<rparr>) x = directed ?r ?k x" for x
      by (simp add: afterStart_def same)
    moreover have "beforeEnd (opts\<lparr>scanStartKey := Some ?k, scanStartExclusive := True\<rparr>) = beforeEnd nxt"
      by (simp add: beforeEnd_def same fun_eq_iff split: option.split)
    ultimately show ?thesis by (simp add: selected_def same conj_commute)
  qed
  then show ?thesis using after_nth [OF selected_sorted [OF sorted] n] by simp
qed

lemma scanAllLoop_pages:
  assumes sorted: "sorted_wrt (\<lambda>a b. fst a < fst b) pairs"
    and same: "scanReverse opts = scanReverse nxt" "scanEndKey opts = scanEndKey nxt"
  shows "scanAllLoop (storePage pageSize pairs) opts nxt yielded = Some (yielded @ selected pairs nxt, Inr ())"
  using same
proof (induction "length (selected pairs nxt)" arbitrary: nxt yielded rule: less_induct)
  case less
  define es where "es = selected pairs nxt"
  obtain n where n: "max 1 (pageSize nxt) = n" "0 < n" by simp
  have page: "storePage pageSize pairs nxt = Inr \<lparr>pageEntries = take n es, pageHasMore = (n < length es)\<rparr>"
    by (simp add: storePage_def Let_def es_def flip: n(1))
  show ?case
  proof (cases "n < length es")
    case False
    then show ?thesis by (subst scanAllLoop.simps) (simp add: page es_def [symmetric])
  next
    case True
    let ?next = "opts\<lparr>scanStartKey := Some (fst (last (take n es))), scanStartExclusive := True\<rparr>"
    have ne: "take n es \<noteq> []" using True n(2) by (cases es) auto
    have "last (take n es) = es ! (n - 1)" using True n(2) ne by (simp add: last_conv_nth)
    moreover have "n - 1 < length es" using True by linarith
    ultimately have rest: "selected pairs ?next = drop n es"
      using selected_continue [OF sorted, of "n - 1" nxt opts] less.prems n(2) by (simp add: es_def)
    then have "length (selected pairs ?next) < length (selected pairs nxt)" using True n(2) by (simp add: es_def)
    from less.hyps [OF this, of "yielded @ take n es"] less.prems rest
    have "scanAllLoop (storePage pageSize pairs) opts ?next (yielded @ take n es) = Some (yielded @ es, Inr ())"
      by simp
    then show ?thesis using True ne by (subst scanAllLoop.simps) (simp add: page es_def [symmetric])
  qed
qed

text \<open>
  C32: paging is invisible. Whatever the sizes of the pages the broker chooses, \<^verbatim>\<open>scanAll\<close> ends and yields exactly the entries the
  options select, once each and in the direction of the scan, for a store that keeps its keys in
  order.
\<close>

theorem scan_all_is_complete:
  assumes "sorted_wrt (\<lambda>a b. fst a < fst b) pairs"
  shows "scanAll (storePage pageSize pairs) opts = Some (selected pairs opts, Inr ())"
  using scanAllLoop_pages [OF assms refl refl, of pageSize opts "[]"] by (simp add: scanAll_def)

theorem scan_all_is_complete_witness:
  "scanAll (storePage (\<lambda>_. 1) [([1], [10]), ([2], [20]), ([3], [30])])
     \<lparr>scanStartKey = Some [3], scanEndKey = None, scanLimit = None, scanReverse = True, scanStartExclusive = False\<rparr> =
   Some ([([3], [30]), ([2], [20]), ([1], [10])], Inr ())"
  by (subst scan_all_is_complete) (simp_all add: selected_def afterStart_def beforeEnd_def directed_def)

text \<open>
  A refusal whose error code is zero passes for success: the status of the response is the code, and zero is OK.
\<close>

theorem refused_with_code_zero_succeeds:
  "parseStandardResponse pl = Inr \<lparr>prSuccess = False, prData = [], prError = e, prErrorCode = Some 0, prErrorClass = c, prEffect = f\<rparr> \<Longrightarrow>
    kvMutationAnswered ''PUT'' pl = Inr ()"
  by (simp add: kvMutationAnswered_def kvDecodeStatusResponse_def readReply_def codeRefusal_def kvCheckStatus_def)

end
