(* ===== verification/StreamClient.thy ===== *)
theory StreamClient
  imports StreamCodec Machines
begin

text \<open>
  The stream client and its sessions, \<^verbatim>\<open>domains/stream/client.ts\<close> and \<^verbatim>\<open>domains/stream/session.ts\<close>: the requests and answers of
  the operations, the handle of a session, and the loop of \<^verbatim>\<open>read\<close> that pages through a stream and, in follow mode,
  waits for more. The pages of the broker and the outcomes of the waits are arguments of the loop.
\<close>

section \<open>Requests and answers\<close>

definition assertStreamRoute :: "jsstr \<Rightarrow> unit result" where
  "assertStreamRoute route =
    (if isRouteShape route (js ''stream'') 3 False then Inr () else Inl (StreamError ''INVALID_ROUTE'' None))"

definition assertStreamPattern :: "jsstr \<Rightarrow> unit result" where
  "assertStreamPattern pat =
    (if isStreamSelectorShape pat then Inr () else Inl (StreamError ''INVALID_ROUTE'' None))"

text \<open>\<^verbatim>\<open>checkStatus\<close>: the code of a refusal, or its status when it has none.\<close>

definition refusalCode :: "refusal \<Rightarrow> nat" where
  "refusalCode r = (case rfCode r of Some c \<Rightarrow> c | None \<Rightarrow> rfStatus r)"

definition streamCheckStatus :: "string \<Rightarrow> 'a reply \<Rightarrow> 'a result" where
  "streamCheckStatus operation reply =
    (case reply of
       Accepted v \<Rightarrow> Inr v
     | Refused r \<Rightarrow> Inl (attachErrorDisposition (StreamError operation (Some (refusalCode r))) (rfClass r) (rfEffect r)))"

definition assertStreamResponseSuccess :: "string \<Rightarrow> 'a reply \<Rightarrow> 'a result" where
  "assertStreamResponseSuccess operation reply =
    (case reply of
       Accepted v \<Rightarrow> Inr v
     | Refused r \<Rightarrow> Inl (attachErrorDisposition (StreamError (operation @ ''_FAILED'') (rfCode r)) (rfClass r) (rfEffect r)))"

definition streamBegin :: "jsstr \<Rightarrow> bytes option \<Rightarrow> bytes result" where
  "streamBegin route ingestMetadata = andThen (assertStreamRoute route) (\<lambda>_. streamEncodeBegin route ingestMetadata)"

definition streamBeginAnswered :: "bytes \<Rightarrow> nat result" where
  "streamBeginAnswered response =
    andThen (streamDecodeBeginResponse response) (\<lambda>decoded.
    andThen (streamCheckStatus ''BEGIN'' decoded) (\<lambda>sessionId.
      case sessionId of None \<Rightarrow> Inl (StreamError ''MISSING_SESSION_ID'' None) | Some i \<Rightarrow> Inr i))"

record streamReadPage =
  spItems :: "streamReadItem list"
  spCursor :: streamReadCursor

definition streamReadPayload :: "jsstr \<Rightarrow> nat \<Rightarrow> jsnum option \<Rightarrow> streamWireReadOptions \<Rightarrow> bytes result" where
  "streamReadPayload route startOffset limit opts =
    andThen (assertStreamPattern route) (\<lambda>_.
      streamEncodeRead route (int startOffset) (case limit of None \<Rightarrow> JInt 100 | Some n \<Rightarrow> n) opts)"

definition readPageAnswered :: "jsstr \<Rightarrow> nat \<Rightarrow> bytes \<Rightarrow> streamReadPage result" where
  "readPageAnswered route startOffset response =
    andThen (streamDecodeReadResponse route response) (\<lambda>decoded.
    andThen (streamCheckStatus ''READ'' decoded) (\<lambda>(items, cursor).
      Inr \<lparr>spItems = items, spCursor =
        (case cursor of
           Some c \<Rightarrow> c
         | None \<Rightarrow> \<lparr>rcLastResource = startOffset, rcLastArea = None, rcLastRealm = None, rcLastGlobal = None,
             rcHasMore = False, rcFingerprint = None, rcWatermark = None\<rparr>)\<rparr>))"

definition streamPeek :: "jsstr \<Rightarrow> bytes result" where
  "streamPeek route = andThen (assertStreamRoute route) (\<lambda>_. streamEncodeLast route)"

definition streamPeekAnswered :: "jsstr \<Rightarrow> bytes \<Rightarrow> streamRecord option result" where
  "streamPeekAnswered route response = andThen (streamDecodeLastResponse route response) (streamCheckStatus ''LAST'')"

definition streamMetadataRequest :: "jsstr \<Rightarrow> bytes result" where
  "streamMetadataRequest route = andThen (assertStreamRoute route) (\<lambda>_. streamEncodeMetadata route)"

definition streamMetadataAnswered :: "bytes \<Rightarrow> streamMetadata option result" where
  "streamMetadataAnswered response =
    andThen (streamDecodeMetadataResponse response) (streamCheckStatus ''GET_METADATA'')"

definition streamSubscribeAnswered :: "bytes \<Rightarrow> nat result" where
  "streamSubscribeAnswered response =
    andThen (streamDecodeResponse 607 Inr response) (\<lambda>parsed.
    andThen (assertStreamResponseSuccess ''SUBSCRIBE'' parsed) (\<lambda>d.
    andThen (readU8 (createBufferReader d)) (\<lambda>(flag, reader).
    if flag \<noteq> 1 \<or> remainingBytes reader < 8 then Inl (StreamError ''MISSING_SESSION_ID'' None)
    else andThen (readU64BE reader) (\<lambda>(subId, reader).
      if isEOF reader then Inr subId
      else andThen (readU32BE reader) (\<lambda>(dataLength, reader).
        if dataLength \<noteq> 0 \<or> \<not> isEOF reader then Inl (StreamError ''INVALID_RESPONSE'' None) else Inr subId)))))"

definition streamUnsubscribeAnswered :: "bytes \<Rightarrow> unit result" where
  "streamUnsubscribeAnswered response =
    andThen (streamDecodeResponse 608 (\<lambda>_. Inr ()) response) (assertStreamResponseSuccess ''UNSUBSCRIBE'')"

section \<open>Sessions\<close>

record streamSession =
  ssnId :: nat
  ssnClosed :: bool
  ssnListening :: bool

definition createStreamSession :: "nat \<Rightarrow> streamSession" where
  "createStreamSession sessionId = \<lparr>ssnId = sessionId, ssnClosed = False, ssnListening = True\<rparr>"

definition sessionDisconnected :: "streamSession \<Rightarrow> streamSession" where
  "sessionDisconnected s = (if ssnListening s then s\<lparr>ssnClosed := True, ssnListening := False\<rparr> else s)"

definition sessionEnsureOpen :: "streamSession \<Rightarrow> unit result" where
  "sessionEnsureOpen s = (if ssnClosed s then Inl (StreamError ''SESSION_CLOSED'' None) else Inr ())"

definition sessionAppend :: "int \<Rightarrow> bytes \<Rightarrow> bytes option \<Rightarrow> jsstr option \<Rightarrow> streamSession \<Rightarrow> bytes result" where
  "sessionAppend expectedOffset body metadata discriminator s =
    andThen (sessionEnsureOpen s) (\<lambda>_. streamEncodeAppend (int (ssnId s)) expectedOffset body metadata discriminator)"

definition sessionAppendAnswered :: "bytes \<Rightarrow> nat result" where
  "sessionAppendAnswered response =
    andThen (streamDecodeAppendResponse response) (\<lambda>decoded.
    andThen (streamCheckStatus ''APPEND'' decoded) (\<lambda>off. Inr (case off of None \<Rightarrow> 0 | Some n \<Rightarrow> n)))"

definition sessionCommit :: "string \<Rightarrow> streamSession \<Rightarrow> bytes result" where
  "sessionCommit mode s = andThen (sessionEnsureOpen s) (\<lambda>_. Inr (streamEncodeCommit (int (ssnId s)) mode))"

definition sessionCommitAnswered :: "bytes \<Rightarrow> streamSession \<Rightarrow> unit result \<times> streamSession" where
  "sessionCommitAnswered response s =
    (case andThen (streamDecodeCommitResponse response) (streamCheckStatus ''COMMIT'') of
       Inl e \<Rightarrow> (Inl e, s)
     | Inr _ \<Rightarrow> (Inr (), s\<lparr>ssnClosed := True, ssnListening := False\<rparr>))"

definition sessionRollback :: "streamSession \<Rightarrow> bytes option \<times> streamSession" where
  "sessionRollback s =
    (if ssnClosed s then (None, s)
     else (Some (streamEncodeRollback (int (ssnId s))), s\<lparr>ssnClosed := True, ssnListening := False\<rparr>))"

definition sessionRollbackAnswered :: "bytes \<Rightarrow> unit result" where
  "sessionRollbackAnswered response = andThen (streamDecodeRollbackResponse response) (streamCheckStatus ''ROLLBACK'')"

section \<open>Reading\<close>

definition streamNextOffset :: "jsstr \<Rightarrow> nat \<Rightarrow> streamReadCursor \<Rightarrow> nat" where
  "streamNextOffset route currentOffset cursor =
    (let after = (\<lambda>v. case v of None \<Rightarrow> currentOffset | Some n \<Rightarrow> n + 1) in
     case classifyStreamSelectorScope route of
       Some ScopeGlobal \<Rightarrow> after (rcLastGlobal cursor)
     | Some ScopeRealm \<Rightarrow> after (rcLastRealm cursor)
     | Some ScopeArea \<Rightarrow> after (rcLastArea cursor)
     | _ \<Rightarrow> rcLastResource cursor + 1)"

record streamReadBatch =
  sbItems :: "streamReadItem list"
  sbRecords :: "streamRecord list"
  sbFromOffset :: nat
  sbNextOffset :: nat
  sbCaughtUp :: bool

text \<open>
  The world of one read: the page a request gets (how many requests went before, its offset, fingerprint and
  watermark), and how the wait after a request ends.
\<close>

record readWorld =
  rwPage :: "nat \<Rightarrow> nat \<Rightarrow> nat option \<Rightarrow> nat option \<Rightarrow> streamReadPage result"
  rwWait :: "nat \<Rightarrow> unit result"

text \<open>How a request goes on: again, or not, or with the error of the wait.\<close>

definition readGoesOn :: "bool \<Rightarrow> readWorld \<Rightarrow> nat \<Rightarrow> bool \<Rightarrow> bool result" where
  "readGoesOn follow w k pending =
    (if pending then Inr True
     else if \<not> follow then Inr False
     else andThen (rwWait w k) (\<lambda>_. Inr True))"

definition readBatch :: "nat \<Rightarrow> nat \<Rightarrow> streamReadPage \<Rightarrow> streamReadBatch" where
  "readBatch fromOffset nextOffset page =
    \<lparr>sbItems = spItems page, sbRecords = flattenStreamReadItems (spItems page), sbFromOffset = fromOffset,
     sbNextOffset = nextOffset, sbCaughtUp = (\<not> rcHasMore (spCursor page))\<rparr>"

partial_function (option) readLoop ::
  "jsstr \<Rightarrow> bool \<Rightarrow> readWorld \<Rightarrow> nat \<Rightarrow> nat \<Rightarrow> nat option \<Rightarrow> nat option \<Rightarrow> nat \<Rightarrow> streamReadBatch list \<Rightarrow>
    (streamReadBatch list \<times> unit result) option" where
  "readLoop route follow w k off fingerprint watermark stalledPages batches =
    (case rwPage w k off fingerprint watermark of
       Inl e \<Rightarrow> Some (batches, Inl e)
     | Inr page \<Rightarrow>
        (let nextOffset = streamNextOffset route off (spCursor page);
             stalled = (if rcHasMore (spCursor page) \<and> nextOffset \<le> off then stalledPages + 1 else 0);
             batches' = batches @ [readBatch off nextOffset page]
         in if stalled \<ge> 2 then Some (batches, Inl StreamReadStalledError)
            else (case readGoesOn follow w k (rcHasMore (spCursor page)) of
                    Inl e \<Rightarrow> Some (batches', Inl e)
                  | Inr again \<Rightarrow>
                      if again then readLoop route follow w (k + 1) nextOffset (rcFingerprint (spCursor page))
                        (rcWatermark (spCursor page)) stalled batches'
                      else Some (batches', Inr ()))))"

definition readStream :: "jsstr \<Rightarrow> bool \<Rightarrow> nat \<Rightarrow> readWorld \<Rightarrow> (streamReadBatch list \<times> unit result) option" where
  "readStream route follow fromOffset w =
    (case assertStreamPattern route of
       Inl e \<Rightarrow> Some ([], Inl e)
     | Inr _ \<Rightarrow> readLoop route follow w 0 fromOffset None None 0 [])"

section \<open>A stream and its pages\<close>

text \<open>
  A broker that serves a concrete stream: the item of each offset, in pages of any size, with the offset of the
  last item and whether there is more.
\<close>

definition servedPage :: "(nat \<Rightarrow> nat) \<Rightarrow> streamReadItem list \<Rightarrow> nat \<Rightarrow> nat \<Rightarrow> streamReadPage" where
  "servedPage pageSize items k off =
    (let n = min (off + max 1 (pageSize k)) (length items)
     in \<lparr>spItems = take (n - off) (drop off items), spCursor =
          \<lparr>rcLastResource = n - 1, rcLastArea = None, rcLastRealm = None, rcLastGlobal = None, rcHasMore = (n < length items),
           rcFingerprint = None, rcWatermark = None\<rparr>\<rparr>)"

definition servedWorld :: "(nat \<Rightarrow> nat) \<Rightarrow> streamReadItem list \<Rightarrow> readWorld" where
  "servedWorld pageSize items =
    \<lparr>rwPage = (\<lambda>k off fingerprint watermark. Inr (servedPage pageSize items k off)), rwWait = (\<lambda>_. Inl abortError)\<rparr>"

lemma next_resource:
  "classifyStreamSelectorScope route = Some ScopeResource \<Longrightarrow> streamNextOffset route off c = rcLastResource c + 1"
  by (simp add: streamNextOffset_def Let_def)

lemma replay_served:
  assumes scope: "classifyStreamSelectorScope route = Some ScopeResource" and "off < length items"
  shows "\<exists>bs. readLoop route False (servedWorld pageSize items) k off f c 0 batches = Some (batches @ bs, Inr ()) \<and>
    concat (map sbItems bs) = drop off items \<and> concat (map sbRecords bs) = flattenStreamReadItems (drop off items) \<and>
    bs \<noteq> [] \<and> sbNextOffset (last bs) = length items \<and> sbCaughtUp (last bs)"
  using assms(2)
proof (induction "length items - off" arbitrary: off k f c batches rule: less_induct)
  case less
  define n where "n = min (off + max 1 (pageSize k)) (length items)"
  have n: "off < n" "n \<le> length items" using less.prems by (auto simp: n_def)
  let ?page = "servedPage pageSize items k off"
  have page: "rwPage (servedWorld pageSize items) k off f c = Inr ?page" by (simp add: servedWorld_def)
  have nxt: "streamNextOffset route off (spCursor ?page) = n"
    using n by (simp add: next_resource [OF scope] servedPage_def Let_def del: One_nat_def flip: n_def)
  have cursor: "rcHasMore (spCursor ?page) = (n < length items)" "rcFingerprint (spCursor ?page) = None" "rcWatermark (spCursor ?page) = None"
    and items: "spItems ?page = take (n - off) (drop off items)"
    by (simp_all add: servedPage_def Let_def del: One_nat_def flip: n_def)
  have split: "take (n - off) (drop off items) @ drop n items = drop off items"
    using append_take_drop_id [of "n - off" "drop off items"] n(1) by simp
  have flat: "flattenStreamReadItems (xs @ ys) = flattenStreamReadItems xs @ flattenStreamReadItems ys" for xs ys
    by (simp add: flattenStreamReadItems_def)
  let ?b = "readBatch off n ?page"
  have stalled: "\<not> n \<le> off" using n by simp
  show ?case
  proof (cases "n < length items")
    case False
    then have "n = length items" using n by simp
    moreover have "readLoop route False (servedWorld pageSize items) k off f c 0 batches = Some (batches @ [?b], Inr ())"
      using False by (subst readLoop.simps) (simp add: page nxt stalled cursor readGoesOn_def Let_def)
    ultimately show ?thesis by (intro exI [of _ "[?b]"]) (simp add: readBatch_def items cursor)
  next
    case True
    have "length items - n < length items - off" using True n by linarith
    from less.hyps [OF this True, of "k + 1" None None "batches @ [?b]"]
    obtain bs where bs: "readLoop route False (servedWorld pageSize items) (k + 1) n None None 0 (batches @ [?b]) =
        Some ((batches @ [?b]) @ bs, Inr ())" "concat (map sbItems bs) = drop n items"
      "concat (map sbRecords bs) = flattenStreamReadItems (drop n items)" "bs \<noteq> []"
      "sbNextOffset (last bs) = length items" "sbCaughtUp (last bs)"
      by blast
    then have "readLoop route False (servedWorld pageSize items) k off f c 0 batches = Some (batches @ ?b # bs, Inr ())"
      using True by (subst readLoop.simps) (simp add: page nxt stalled cursor readGoesOn_def Let_def)
    with bs split show ?thesis by (intro exI [of _ "?b # bs"]) (simp add: readBatch_def items flip: flat)
  qed
qed

section \<open>Properties\<close>

text \<open>
  C33: a replay is complete. For a concrete stream whose broker serves its items in order, in pages of any sizes, a replay from
  an existing offset ends without an error, yields exactly the items from there on, each
  once and in order, and only its last batch says that it caught up.
\<close>

theorem replay_is_complete:
  assumes "classifyStreamSelectorScope route = Some ScopeResource" and "fromOffset < length items"
  shows "\<exists>bs. readStream route False fromOffset (servedWorld pageSize items) = Some (bs, Inr ()) \<and>
    concat (map sbItems bs) = drop fromOffset items \<and>
    concat (map sbRecords bs) = flattenStreamReadItems (drop fromOffset items) \<and>
    bs \<noteq> [] \<and> sbNextOffset (last bs) = length items \<and> sbCaughtUp (last bs)"
proof -
  have "assertStreamPattern route = Inr ()" using assms(1) by (simp add: assertStreamPattern_def isStreamSelectorShape_def)
  then show ?thesis using replay_served [OF assms, of pageSize 0 None None "[]"] by (simp add: readStream_def)
qed

lemma resource_route: "classifyStreamSelectorScope (js ''stream://a/b/c'') = Some ScopeResource"
  using length_utf8Encode [of "js ''stream://a/b/c''"]
  by (simp add: classifyStreamSelectorScope_def route_eval)

theorem replay_is_complete_witness:
  "\<exists>bs. readStream (js ''stream://a/b/c'') False 1 (servedWorld (\<lambda>_. 1) [FilteredItem [] 0 None, FilteredItem [] 1 None, FilteredItem [] 2 None]) =
      Some (bs, Inr ()) \<and> concat (map sbItems bs) = [FilteredItem [] 1 None, FilteredItem [] 2 None]"
  using replay_is_complete [OF resource_route, of 1 "[FilteredItem [] 0 None, FilteredItem [] 1 None, FilteredItem [] 2 None]" "\<lambda>_. 1"]
  by auto

text \<open>
  A reader makes progress or stops. A page that reports more but does not advance is tolerated once; if the next one does not
  advance either, the reading ends with \<^verbatim>\<open>StreamReadStalledError\<close>, whatever the broker sends.
\<close>

theorem stalled_reader_stops:
  assumes "rwPage w k off f c = Inr p" "rcHasMore (spCursor p)" "streamNextOffset route off (spCursor p) \<le> off"
    and "rwPage w (k + 1) (streamNextOffset route off (spCursor p)) (rcFingerprint (spCursor p)) (rcWatermark (spCursor p)) = Inr q"
    and "rcHasMore (spCursor q)"
    and "streamNextOffset route (streamNextOffset route off (spCursor p)) (spCursor q) \<le> streamNextOffset route off (spCursor p)"
  shows "\<exists>bs. readLoop route follow w k off f c 0 batches = Some (bs, Inl StreamReadStalledError)"
  using assms by (subst readLoop.simps) (subst readLoop.simps, simp add: readGoesOn_def Let_def)

text \<open>
  Following an empty stream loses its first record. Offsets start at zero, but on the axis of a concrete stream every answer moves
  the reader to the last offset plus one, also an answer without items: a reader that follows from
  offset zero and finds nothing asks for offset one or later the next time, whatever
  cursor the broker returned.
\<close>

theorem follow_skips_first_record:
  "\<exists>n p. 1 \<le> n \<and> spItems p = [] \<and>
    readStream (js ''stream://a/b/c'') True 0
      \<lparr>rwPage = (\<lambda>k off f c. if k = 0 then Inr \<lparr>spItems = [], spCursor = cur\<lparr>rcHasMore := False\<rparr>\<rparr> else later k off f c),
       rwWait = (\<lambda>_. Inr ())\<rparr> =
    readLoop (js ''stream://a/b/c'') True
      \<lparr>rwPage = (\<lambda>k off f c. if k = 0 then Inr \<lparr>spItems = [], spCursor = cur\<lparr>rcHasMore := False\<rparr>\<rparr> else later k off f c),
       rwWait = (\<lambda>_. Inr ())\<rparr> 1 n (rcFingerprint cur) (rcWatermark cur) 0 [readBatch 0 n p]"
  (is "\<exists>n p. 1 \<le> n \<and> spItems p = [] \<and> readStream ?route True 0 ?w = _ n p")
proof -
  let ?p = "\<lparr>spItems = [], spCursor = cur\<lparr>rcHasMore := False\<rparr>\<rparr>"
  let ?n = "rcLastResource cur + 1"
  have "assertStreamPattern ?route = Inr ()" using resource_route by (simp add: assertStreamPattern_def isStreamSelectorShape_def)
  then have "readStream ?route True 0 ?w = readLoop ?route True ?w 0 0 None None 0 []" by (simp add: readStream_def)
  also have "\<dots> = readLoop ?route True ?w 1 ?n (rcFingerprint cur) (rcWatermark cur) 0 [readBatch 0 ?n ?p]"
    by (subst readLoop.simps) (simp add: next_resource [OF resource_route] readGoesOn_def Let_def)
  finally show ?thesis by (intro exI [of _ ?n] exI [of _ ?p]) simp
qed

text \<open>
  The stall check has a gap: a page that moves the reader back and one that moves it forward again count as progress, so
  a broker that alternates between two offsets keeps a replay going for ever.
\<close>

definition swaying :: readWorld where
  "swaying = \<lparr>rwPage = (\<lambda>k off f c. Inr \<lparr>spItems = [], spCursor =
       \<lparr>rcLastResource = (if off = 5 then 2 else 4), rcLastArea = None, rcLastRealm = None, rcLastGlobal = None, rcHasMore = True,
        rcFingerprint = None, rcWatermark = None\<rparr>\<rparr>), rwWait = (\<lambda>_. Inr ())\<rparr>"

lemma swaying_page:
  "rwPage swaying k off f c = Inr \<lparr>spItems = [], spCursor =
     \<lparr>rcLastResource = (if off = 5 then 2 else 4), rcLastArea = None, rcLastRealm = None, rcLastGlobal = None, rcHasMore = True,
      rcFingerprint = None, rcWatermark = None\<rparr>\<rparr>"
  by (simp add: swaying_def)

lemma swaying_never_ends:
  assumes "readLoop route follow w k off f c stalled batches = Some r"
  shows "\<not> (classifyStreamSelectorScope route = Some ScopeResource \<and> \<not> follow \<and> w = swaying \<and>
    (off = 5 \<and> stalled = 0 \<or> off = 3 \<and> stalled = 1))"
proof (rule readLoop.raw_induct [where P = "\<lambda>route follow w k off f c stalled batches r.
    \<not> (classifyStreamSelectorScope route = Some ScopeResource \<and> \<not> follow \<and> w = swaying \<and>
      (off = 5 \<and> stalled = 0 \<or> off = 3 \<and> stalled = 1))", OF _ assms], goal_cases)
  case (1 loop route follow w k off f c stalled batches r)
  show ?case
  proof
    assume at: "classifyStreamSelectorScope route = Some ScopeResource \<and> \<not> follow \<and> w = swaying \<and>
      (off = 5 \<and> stalled = 0 \<or> off = 3 \<and> stalled = 1)"
    then have "\<exists>k' f' c' b'. loop route False swaying k' 3 f' c' 1 b' = Some r \<or> loop route False swaying k' 5 f' c' 0 b' = Some r"
      using 1(2) by (auto simp: swaying_page next_resource readGoesOn_def Let_def not_less_eq_eq split: if_splits sum.splits)
    then show False using 1(1) at by blast
  qed
qed

theorem replay_can_sway_forever:
  "readStream (js ''stream://a/b/c'') False 5 swaying = None"
proof -
  have "assertStreamPattern (js ''stream://a/b/c'') = Inr ()"
    using resource_route by (simp add: assertStreamPattern_def isStreamSelectorShape_def)
  then have "readStream (js ''stream://a/b/c'') False 5 swaying = readLoop (js ''stream://a/b/c'') False swaying 0 5 None None 0 []"
    by (simp add: readStream_def)
  then show ?thesis
    using resource_route swaying_never_ends [of "js ''stream://a/b/c''" False swaying 0 5 None None 0 "[]"]
    by (cases "readLoop (js ''stream://a/b/c'') False swaying 0 5 None None 0 []") auto
qed

end
