(* ===== verification/RpcIterator.thy ===== *)
theory RpcIterator
  imports RpcCodec Machines
begin

text \<open>
  The response stream of one RPC call, \<^verbatim>\<open>domains/rpc/iterator.ts\<close>: the buffer of frames, the consumer that waits
  for the next one, the end, a failure, the deadline and the cancellation. The call of the owner's
  \<^verbatim>\<open>abandon\<close> and of its \<^verbatim>\<open>finish\<close> are recorded; a rejection that \<^verbatim>\<open>fail\<close> defers to a later turn is an
  event of its own. The field \<open>riAccepted\<close> only observes: the frames that were not turned away.
\<close>

section \<open>State\<close>

datatype rpcCancellationOutcome = NotRequested | RequestNotSent | Unsupported | QueuedRemoved | Forwarded | WorkerUnsupported
  | AlreadyTerminal | UnknownOrUnauthorized | ForwardingFailed | Unconfirmed | ConnectionClosed

record responseFrame =
  rfBody :: bytes
  rfSequence :: nat

text \<open>What became of a call of \<^verbatim>\<open>next\<close>.\<close>

datatype 'f nextResult = NextWaits | NextRejecting jserror | NextValue 'f | NextEnds | NextThrows jserror

datatype abandonReason = CallerCancelled | CallTimedOut

record 'f rpcIterator =
  riBuffer :: "'f list"
  riDone :: bool
  riFailure :: "jserror option"
  riWaiting :: "nat option"
  riCancellationRequested :: bool
  riTimer :: bool
  riListening :: bool
  riAborted :: bool
  riCancellation :: "rpcCancellationOutcome option"
  riNexts :: "'f nextResult list"
  riAbandoned :: "abandonReason option"
  riFinished :: nat
  riAccepted :: "'f list"

definition callTimeoutError :: jserror where
  "callTimeoutError = RpcError ''TIMEOUT'' (Some 6007)"

section \<open>Operations\<close>

definition settleCancellation :: "rpcCancellationOutcome \<Rightarrow> 'f rpcIterator \<Rightarrow> 'f rpcIterator" where
  "settleCancellation outcome it =
    (if riCancellation it \<noteq> None then it else it\<lparr>riCancellation := Some outcome\<rparr>)"

text \<open>Settling the consumer that waits, if there is one, and forgetting it.\<close>

definition answerWaiting :: "'f nextResult \<Rightarrow> 'f rpcIterator \<Rightarrow> 'f rpcIterator" where
  "answerWaiting r it =
    (case riWaiting it of
       None \<Rightarrow> it
     | Some i \<Rightarrow> it\<lparr>riWaiting := None, riNexts := (riNexts it)[i := r]\<rparr>)"

definition cancelCall :: "abandonReason \<Rightarrow> jserror \<Rightarrow> 'f rpcIterator \<Rightarrow> 'f rpcIterator" where
  "cancelCall reason e it =
    (if riDone it \<or> riCancellationRequested it then it
     else answerWaiting (NextThrows e)
       (it\<lparr>riCancellationRequested := True, riDone := True, riBuffer := [], riFailure := Some e, riTimer := False,
         riListening := False, riAbandoned := Some reason\<rparr>))"

definition abandonSettled :: "rpcCancellationOutcome result \<Rightarrow> 'f rpcIterator \<Rightarrow> 'f rpcIterator" where
  "abandonSettled r it = settleCancellation (case r of Inl _ \<Rightarrow> Unconfirmed | Inr outcome \<Rightarrow> outcome) it"

definition pushFrame :: "'f \<Rightarrow> 'f rpcIterator \<Rightarrow> 'f rpcIterator" where
  "pushFrame f it =
    (if riDone it then it
     else (let it = it\<lparr>riAccepted := riAccepted it @ [f]\<rparr>
       in if riWaiting it \<noteq> None then answerWaiting (NextValue f) it
          else it\<lparr>riBuffer := riBuffer it @ [f]\<rparr>))"

definition endCall :: "'f rpcIterator \<Rightarrow> 'f rpcIterator" where
  "endCall it =
    (let it = if riCancellationRequested it then it else settleCancellation NotRequested it
     in answerWaiting NextEnds (it\<lparr>riTimer := False, riListening := False, riDone := True\<rparr>))"

definition failCall :: "jserror \<Rightarrow> 'f rpcIterator \<Rightarrow> 'f rpcIterator" where
  "failCall reason it =
    (if riDone it then it
     else answerWaiting (NextRejecting reason)
       ((settleCancellation NotRequested
          (it\<lparr>riDone := True, riFailure := Some reason, riTimer := False, riFinished := riFinished it + 1\<rparr>))
        \<lparr>riListening := False\<rparr>))"

text \<open>The turn in which a deferred rejection reaches its consumer.\<close>

definition rejectDeferred :: "nat \<Rightarrow> 'f rpcIterator \<Rightarrow> 'f rpcIterator" where
  "rejectDeferred i it =
    (case riNexts it ! i of
       NextRejecting reason \<Rightarrow>
         it\<lparr>riNexts := (riNexts it)[i := NextThrows (if riAborted it then abortError else reason)]\<rparr>
     | _ \<Rightarrow> it)"

text \<open>Every call of \<^verbatim>\<open>next\<close> is appended to \<open>riNexts\<close> with its result, or as one that waits.\<close>

definition nextAnswer :: "'f nextResult \<Rightarrow> 'f rpcIterator \<Rightarrow> 'f rpcIterator" where
  "nextAnswer r it = it\<lparr>riNexts := riNexts it @ [r]\<rparr>"

definition nextFrame :: "'f rpcIterator \<Rightarrow> 'f rpcIterator" where
  "nextFrame it =
    (if \<not> riDone it \<and> riAborted it
     then nextAnswer (NextThrows abortError) (cancelCall CallerCancelled abortError it)
     else (case riFailure it of
         Some e \<Rightarrow>
           if isAbortError e then nextAnswer (NextThrows e) it
           else (case riBuffer it of
               f # fs \<Rightarrow> nextAnswer (NextValue f) (it\<lparr>riBuffer := fs\<rparr>)
             | [] \<Rightarrow> nextAnswer (NextThrows e) it)
       | None \<Rightarrow>
           (case riBuffer it of
              f # fs \<Rightarrow> nextAnswer (NextValue f) (it\<lparr>riBuffer := fs\<rparr>)
            | [] \<Rightarrow>
               if riDone it then nextAnswer NextEnds it
               else nextAnswer NextWaits (it\<lparr>riWaiting := Some (length (riNexts it))\<rparr>))))"

definition returnCall :: "'f rpcIterator \<Rightarrow> 'f rpcIterator" where
  "returnCall it = cancelCall CallerCancelled abortError it"

definition callAborted :: "'f rpcIterator \<Rightarrow> 'f rpcIterator" where
  "callAborted it =
    (let it = it\<lparr>riAborted := True\<rparr>
     in if riListening it then cancelCall CallerCancelled abortError it else it)"

definition callDeadline :: "'f rpcIterator \<Rightarrow> 'f rpcIterator" where
  "callDeadline it = cancelCall CallTimedOut callTimeoutError (it\<lparr>riTimer := False\<rparr>)"

text \<open>The signal of the caller: none, or whether it has aborted already.\<close>

definition createRpcIterator :: "bool option \<Rightarrow> 'f rpcIterator" where
  "createRpcIterator signal =
    (let it = \<lparr>riBuffer = [], riDone = False, riFailure = None, riWaiting = None, riCancellationRequested = False,
               riTimer = False, riListening = (signal \<noteq> None), riAborted = (signal = Some True), riCancellation = None, riNexts = [],
               riAbandoned = None, riFinished = 0, riAccepted = []\<rparr>;
         it = (if signal = Some True then cancelCall CallerCancelled abortError it else it)
     in if riDone it then it else it\<lparr>riTimer := True\<rparr>)"

section \<open>Runs\<close>

datatype 'f rpcIterEvent = ItPush 'f | ItEnd | ItFail jserror | ItRejected nat | ItNext | ItReturn | ItAborted | ItDeadline
  | ItAbandonSettled "rpcCancellationOutcome result"

inductive rpcIterStep :: "'f rpcIterator \<Rightarrow> 'f rpcIterEvent \<Rightarrow> 'f rpcIterator \<Rightarrow> bool" where
  it_push: "rpcIterStep it (ItPush f) (pushFrame f it)"
| it_end: "rpcIterStep it ItEnd (endCall it)"
| it_fail: "rpcIterStep it (ItFail e) (failCall e it)"
| it_rejected: "i < length (riNexts it) \<Longrightarrow> rpcIterStep it (ItRejected i) (rejectDeferred i it)"
| it_next: "rpcIterStep it ItNext (nextFrame it)"
| it_return: "rpcIterStep it ItReturn (returnCall it)"
| it_aborted: "rpcIterStep it ItAborted (callAborted it)"
| it_deadline: "riTimer it \<Longrightarrow> rpcIterStep it ItDeadline (callDeadline it)"
| it_abandoned: "riAbandoned it \<noteq> None \<Longrightarrow> rpcIterStep it (ItAbandonSettled r) (abandonSettled r it)"

text \<open>The frames the consumer received, in the order of its calls, and whether it was told that there are no more.\<close>

fun valuesOf :: "'f nextResult list \<Rightarrow> 'f list" where
  "valuesOf [] = []"
| "valuesOf (NextValue f # rs) = f # valuesOf rs"
| "valuesOf (_ # rs) = valuesOf rs"

fun concludes :: "'f nextResult \<Rightarrow> bool" where
  "concludes NextEnds = True"
| "concludes (NextThrows _) = True"
| "concludes (NextRejecting _) = True"
| "concludes _ = False"

section \<open>Invariant\<close>

lemma valuesOf_append [simp]: "valuesOf (rs @ ss) = valuesOf rs @ valuesOf ss"
  by (induction rs rule: valuesOf.induct) simp_all

lemma valuesOf_same: "valuesOf [r] = valuesOf [rs ! i] \<Longrightarrow> valuesOf (rs[i := r]) = valuesOf rs"
proof (induction rs arbitrary: i)
  case (Cons s rs)
  show ?case
  proof (cases i)
    case 0
    with Cons.prems show ?thesis by (cases r; cases s) simp_all
  next
    case (Suc j)
    with Cons have "valuesOf (rs[j := r]) = valuesOf rs" by simp
    with Suc show ?thesis by (cases s) simp_all
  qed
qed simp

definition concluded :: "'f rpcIterator \<Rightarrow> bool" where
  "concluded it \<longleftrightarrow> list_ex concludes (riNexts it)"

definition abortFailure :: "'f rpcIterator \<Rightarrow> bool" where
  "abortFailure it \<longleftrightarrow> (case riFailure it of None \<Rightarrow> False | Some e \<Rightarrow> isAbortError e)"

definition openInv :: "'f rpcIterator \<Rightarrow> bool" where
  "openInv it \<longleftrightarrow> (\<not> riDone it \<longrightarrow> riFailure it = None \<and> \<not> riCancellationRequested it \<and> riCancellation it = None \<and>
     riFinished it = 0 \<and> \<not> concluded it)"

definition cancelInv :: "'f rpcIterator \<Rightarrow> bool" where
  "cancelInv it \<longleftrightarrow> (riAbandoned it = None) = (\<not> riCancellationRequested it) \<and>
     (riCancellationRequested it \<longrightarrow> riDone it \<and> riBuffer it = [] \<and> riFinished it = 0 \<and> riFailure it \<noteq> None) \<and>
     (riDone it \<longrightarrow> \<not> riTimer it \<and> \<not> riListening it) \<and>
     (riDone it \<and> \<not> riCancellationRequested it \<longrightarrow> riCancellation it = Some NotRequested) \<and>
     riFinished it \<le> 1"

definition framesInv :: "'f rpcIterator \<Rightarrow> bool" where
  "framesInv it \<longleftrightarrow>
     (if riCancellationRequested it then take (length (valuesOf (riNexts it))) (riAccepted it) = valuesOf (riNexts it)
      else riAccepted it = valuesOf (riNexts it) @ riBuffer it) \<and>
     (concluded it \<longrightarrow> riCancellationRequested it \<or> riBuffer it = [] \<or> abortFailure it)"

definition waitInv :: "'f rpcIterator \<Rightarrow> bool" where
  "waitInv it \<longleftrightarrow> riWaiting it = None \<or>
     riWaiting it = Some (length (riNexts it) - 1) \<and> riNexts it \<noteq> [] \<and> last (riNexts it) = NextWaits \<and> riBuffer it = [] \<and> \<not> riDone it"

definition iterInv :: "'f rpcIterator \<Rightarrow> bool" where
  "iterInv it \<longleftrightarrow> openInv it \<and> cancelInv it \<and> framesInv it \<and> waitInv it"

lemmas iterInv_defs = iterInv_def openInv_def cancelInv_def framesInv_def waitInv_def concluded_def abortFailure_def




text \<open>A consumer waits only at the end of the calls, with nothing in the buffer.\<close>

lemma waiting_cases [consumes 1, case_names idle waiting]:
  assumes "iterInv it"
  obtains "riWaiting it = None"
  | rs where "riWaiting it = Some (length rs)" and "riNexts it = rs @ [NextWaits]" and "riBuffer it = []" and "\<not> riDone it"
proof (cases "riWaiting it")
  case (Some i)
  with assms have i: "riNexts it \<noteq> []" "i = length (riNexts it) - 1" "last (riNexts it) = NextWaits" "riBuffer it = []" "\<not> riDone it"
    by (simp_all add: iterInv_def waitInv_def)
  then have "riNexts it = butlast (riNexts it) @ [NextWaits]"
    using append_butlast_last_id [of "riNexts it"] by simp
  with i Some that(2) [of "butlast (riNexts it)"] show ?thesis by simp
qed (rule that(1))

lemma iter_create_inv: "iterInv (createRpcIterator signal)"
  by (auto simp: createRpcIterator_def cancelCall_def answerWaiting_def iterInv_defs Let_def)

lemma push_inv:
  assumes "iterInv it"
  shows "iterInv (pushFrame f it)"
  using assms
proof (cases rule: waiting_cases)
  case idle
  with assms show ?thesis by (cases "riDone it") (simp_all add: pushFrame_def iterInv_defs)
next
  case (waiting rs)
  with assms show ?thesis by (simp add: pushFrame_def answerWaiting_def iterInv_defs)
qed

lemma cancel_inv:
  assumes "iterInv it"
  shows "iterInv (cancelCall reason e it)"
  using assms
proof (cases rule: waiting_cases)
  case idle
  with assms show ?thesis by (cases "riDone it") (simp_all add: cancelCall_def answerWaiting_def iterInv_defs)
next
  case (waiting rs)
  with assms show ?thesis by (simp add: cancelCall_def answerWaiting_def iterInv_defs)
qed

lemma end_inv:
  assumes "iterInv it"
  shows "iterInv (endCall it)"
  using assms
proof (cases rule: waiting_cases)
  case idle
  with assms show ?thesis
    by (cases "riDone it"; cases "riCancellationRequested it")
      (simp_all add: endCall_def settleCancellation_def answerWaiting_def iterInv_defs)
next
  case (waiting rs)
  with assms show ?thesis by (simp add: endCall_def settleCancellation_def answerWaiting_def iterInv_defs)
qed

lemma fail_inv:
  assumes "iterInv it"
  shows "iterInv (failCall e it)"
  using assms
proof (cases rule: waiting_cases)
  case idle
  with assms show ?thesis
    by (cases "riDone it") (simp_all add: failCall_def settleCancellation_def answerWaiting_def iterInv_defs)
next
  case (waiting rs)
  with assms show ?thesis by (simp add: failCall_def settleCancellation_def answerWaiting_def iterInv_defs)
qed

lemma touch_inv:
  assumes "iterInv it"
  shows "\<not> riDone it \<Longrightarrow> iterInv (it\<lparr>riTimer := t\<rparr>)" and "iterInv (it\<lparr>riAborted := a\<rparr>)"
  using assms by (simp_all add: iterInv_defs)

lemma deadline_inv:
  assumes "iterInv it" and "riTimer it"
  shows "iterInv (callDeadline it)"
proof -
  from assms have "\<not> riDone it" by (auto simp: iterInv_def cancelInv_def)
  then show ?thesis using cancel_inv [OF touch_inv(1)] assms(1) by (simp add: callDeadline_def)
qed

lemma aborted_inv: "iterInv it \<Longrightarrow> iterInv (callAborted it)"
  by (simp add: callAborted_def Let_def cancel_inv touch_inv)

lemma abandoned_inv:
  assumes "iterInv it" and "riAbandoned it \<noteq> None"
  shows "iterInv (abandonSettled r it)"
proof -
  from assms have "riCancellationRequested it" by (simp add: iterInv_def cancelInv_def)
  with assms(1) show ?thesis
    by (cases "riCancellation it") (auto simp: abandonSettled_def settleCancellation_def iterInv_defs)
qed

lemma rejected_inv:
  assumes "iterInv it" and "i < length (riNexts it)"
  shows "iterInv (rejectDeferred i it)"
proof (cases "riNexts it ! i")
  case (NextRejecting reason)
  let ?r = "NextThrows (if riAborted it then abortError else reason)"
  have "valuesOf ((riNexts it)[i := ?r]) = valuesOf (riNexts it)"
    by (rule valuesOf_same) (simp add: NextRejecting)
  moreover have c: "concluded it" using NextRejecting nth_mem [OF assms(2)] by (force simp: concluded_def list_ex_iff)
  moreover have "riWaiting it = None" using c assms(1) by (auto simp: iterInv_def openInv_def waitInv_def)
  ultimately show ?thesis using assms NextRejecting by (simp add: rejectDeferred_def iterInv_defs)
qed (use assms in \<open>simp_all add: rejectDeferred_def\<close>)

lemma next_inv:
  assumes "iterInv it"
  shows "iterInv (nextFrame it)"
  using assms
proof (cases rule: waiting_cases)
  case idle
  show ?thesis
  proof (cases "\<not> riDone it \<and> riAborted it")
    case True
    then have "iterInv (cancelCall CallerCancelled abortError it)" by (simp add: cancel_inv assms)
    with True idle assms show ?thesis by (simp add: nextFrame_def nextAnswer_def cancelCall_def answerWaiting_def iterInv_defs)
  next
    case False
    with idle assms show ?thesis
      by (cases "riFailure it"; cases "riBuffer it"; cases "riDone it")
        (auto simp: nextFrame_def nextAnswer_def iterInv_defs)
  qed
next
  case (waiting rs)
  with assms show ?thesis
    by (simp add: nextFrame_def nextAnswer_def cancelCall_def answerWaiting_def iterInv_defs)
qed

lemma iterStep_inv: "rpcIterStep it e it' \<Longrightarrow> iterInv it \<Longrightarrow> iterInv it'"
  by (induction rule: rpcIterStep.induct)
    (simp_all add: push_inv end_inv fail_inv rejected_inv next_inv returnCall_def cancel_inv aborted_inv deadline_inv abandoned_inv)

text \<open>How a call of \<^verbatim>\<open>next\<close> was answered is final; what a cancellation came to is, too.\<close>

fun answered :: "'f nextResult \<Rightarrow> 'f nextResult option" where
  "answered NextWaits = None"
| "answered (NextRejecting _) = None"
| "answered r = Some r"

definition nextOf :: "'f rpcIterator \<Rightarrow> nat \<Rightarrow> 'f nextResult option" where
  "nextOf it i = (if i < length (riNexts it) then answered (riNexts it ! i) else None)"

lemma iterStep_keeps_next:
  assumes "iterInv it" and "rpcIterStep it e it'" and "nextOf it i = Some r"
  shows "nextOf it' i = Some r"
  using assms(2,1,3)
proof (induction rule: rpcIterStep.induct)
  case (it_rejected j it)
  then show ?case
    by (cases "riNexts it ! j"; cases "i = j") (auto simp: nextOf_def rejectDeferred_def split: if_splits)
next
  case (it_next it)
  from it_next.prems(1) show ?case
  proof (cases rule: waiting_cases)
    case idle
    with it_next.prems(2) show ?thesis
      by (auto simp: nextOf_def nextFrame_def nextAnswer_def cancelCall_def answerWaiting_def nth_append split: if_splits option.splits list.splits)
  next
    case (waiting rs)
    with it_next.prems show ?thesis
      by (auto simp: nextOf_def nextFrame_def nextAnswer_def cancelCall_def answerWaiting_def nth_append iterInv_defs split: if_splits)
  qed
qed (auto elim!: waiting_cases simp: nextOf_def pushFrame_def endCall_def failCall_def returnCall_def callAborted_def callDeadline_def
       abandonSettled_def cancelCall_def answerWaiting_def settleCancellation_def nth_append Let_def split: if_splits)

lemma iterStep_keeps_outcome:
  assumes "rpcIterStep it e it'" and "riCancellation it = Some o'"
  shows "riCancellation it' = Some o'"
  using assms
  by (induction rule: rpcIterStep.induct)
    (auto simp: pushFrame_def endCall_def failCall_def returnCall_def callAborted_def callDeadline_def rejectDeferred_def nextFrame_def nextAnswer_def
       abandonSettled_def cancelCall_def answerWaiting_def settleCancellation_def Let_def split: if_splits option.splits list.splits nextResult.splits)

interpretation rpcIter: settling "createRpcIterator signal" rpcIterStep iterInv nextOf
  by unfold_locales (auto intro: iter_create_inv iterStep_inv iterStep_keeps_next)

definition outcomeOf :: "'f rpcIterator \<Rightarrow> unit \<Rightarrow> rpcCancellationOutcome option" where
  "outcomeOf it u = riCancellation it"

interpretation rpcCancel: settling "createRpcIterator signal" rpcIterStep iterInv outcomeOf
  by unfold_locales (auto intro: iter_create_inv iterStep_inv iterStep_keeps_outcome simp: outcomeOf_def)

section \<open>Properties\<close>

text \<open>
  C26: frames arrive in order, once each. What the consumer received is a prefix of the frames that were accepted, all of the rest is
  buffered unless the call was cancelled, and nobody is told that the call ended or failed
  before every frame was delivered. How a call of \<^verbatim>\<open>next\<close> was answered never changes.
\<close>

theorem frames_arrive_in_order:
  assumes "reachable rpcIterStep (createRpcIterator signal) it"
  shows "take (length (valuesOf (riNexts it))) (riAccepted it) = valuesOf (riNexts it) \<and>
    (riCancellationRequested it \<or> riAccepted it = valuesOf (riNexts it) @ riBuffer it) \<and>
    (list_ex concludes (riNexts it) \<longrightarrow>
      riCancellationRequested it \<or> abortFailure it \<or> valuesOf (riNexts it) = riAccepted it) \<and>
    (\<forall>es it' i r. run rpcIterStep it es it' \<and> nextOf it i = Some r \<longrightarrow> nextOf it' i = Some r)"
proof -
  have "framesInv it" using rpcIter.reachable_inv [OF assms] by (simp add: iterInv_def)
  then have "take (length (valuesOf (riNexts it))) (riAccepted it) = valuesOf (riNexts it)"
      "riCancellationRequested it \<or> riAccepted it = valuesOf (riNexts it) @ riBuffer it"
      "list_ex concludes (riNexts it) \<longrightarrow> riCancellationRequested it \<or> abortFailure it \<or> valuesOf (riNexts it) = riAccepted it"
    by (auto simp: framesInv_def concluded_def split: if_splits)
  moreover have "\<forall>es it' i r. run rpcIterStep it es it' \<and> nextOf it i = Some r \<longrightarrow> nextOf it' i = Some r"
    by (intro allI impI) (erule conjE, rule rpcIter.settled_once [OF assms], assumption+)
  ultimately show ?thesis by (intro conjI)
qed

lemma reach_ops:
  assumes "reachable rpcIterStep s it"
  shows "reachable rpcIterStep s (pushFrame f it)" and "reachable rpcIterStep s (endCall it)" and "reachable rpcIterStep s (nextFrame it)"
  by (rule reachable_step [where step = rpcIterStep, OF assms], rule it_push,
      rule reachable_step [where step = rpcIterStep, OF assms], rule it_end,
      rule reachable_step [where step = rpcIterStep, OF assms], rule it_next)

theorem frames_arrive_in_order_witness:
  "\<exists>it :: nat rpcIterator. reachable rpcIterStep (createRpcIterator None) it \<and> riNexts it = [NextValue 7, NextValue 8, NextEnds] \<and>
    valuesOf (riNexts it) = riAccepted it"
proof -
  let ?it = "foldl (\<lambda>it f. f it) (createRpcIterator None) [pushFrame (7 :: nat), pushFrame 8, endCall, nextFrame, nextFrame, nextFrame]"
  have r: "reachable rpcIterStep (createRpcIterator None) ?it"
    by (simp add: reach_ops)
  have n: "riNexts ?it = [NextValue 7, NextValue 8, NextEnds]" "\<not> riCancellationRequested ?it" "\<not> abortFailure ?it"
    by (simp_all add: createRpcIterator_def pushFrame_def endCall_def settleCancellation_def answerWaiting_def nextFrame_def
        nextAnswer_def abortFailure_def)
  with frames_arrive_in_order [OF r] have "valuesOf (riNexts ?it) = riAccepted ?it" by simp
  with r n show ?thesis by blast
qed

text \<open>
  The cancellation of a call is always settled: with \<open>NotRequested\<close> by the end or the failure of a call that nobody
  cancelled, and by its owner's \<^verbatim>\<open>abandon\<close>, which is called exactly then and once, otherwise;
  \<^verbatim>\<open>finish\<close> is called at most once and never for a cancelled call, and the outcome is final.
\<close>

theorem cancellation_is_settled:
  assumes "reachable rpcIterStep (createRpcIterator signal) it"
  shows "(riDone it \<and> \<not> riCancellationRequested it \<longrightarrow> riCancellation it = Some NotRequested) \<and>
    (riCancellationRequested it \<longleftrightarrow> riAbandoned it \<noteq> None) \<and>
    (riCancellationRequested it \<longrightarrow> riDone it \<and> riFinished it = 0 \<and> riCancellation (abandonSettled r it) \<noteq> None) \<and>
    riFinished it \<le> 1 \<and> (riDone it \<longrightarrow> \<not> riTimer it \<and> \<not> riListening it) \<and>
    (\<forall>es it' o'. run rpcIterStep it es it' \<and> riCancellation it = Some o' \<longrightarrow> riCancellation it' = Some o')"
proof -
  have "cancelInv it" using rpcIter.reachable_inv [OF assms] by (simp add: iterInv_def)
  moreover have "riCancellation (abandonSettled r it) \<noteq> None" by (simp add: abandonSettled_def settleCancellation_def)
  ultimately have "riDone it \<and> \<not> riCancellationRequested it \<longrightarrow> riCancellation it = Some NotRequested"
      "riCancellationRequested it \<longleftrightarrow> riAbandoned it \<noteq> None"
      "riCancellationRequested it \<longrightarrow> riDone it \<and> riFinished it = 0 \<and> riCancellation (abandonSettled r it) \<noteq> None"
      "riFinished it \<le> 1" "riDone it \<longrightarrow> \<not> riTimer it \<and> \<not> riListening it"
    by (auto simp: cancelInv_def)
  moreover have "\<forall>es it' o'. run rpcIterStep it es it' \<and> outcomeOf it () = Some o' \<longrightarrow> outcomeOf it' () = Some o'"
    by (intro allI impI) (erule conjE, rule rpcCancel.settled_once [OF assms], assumption+)
  ultimately show ?thesis unfolding outcomeOf_def by (intro conjI)
qed

text \<open>
  A second call of \<^verbatim>\<open>next\<close> loses the first. The iterator keeps only one waiting consumer; when \<^verbatim>\<open>next\<close> is called again
  before the first call was answered, the first promise is never settled, whatever happens
  afterwards, the end of the call included.
\<close>

definition lostFirst :: "'f rpcIterator \<Rightarrow> bool" where
  "lostFirst it \<longleftrightarrow> riNexts it \<noteq> [] \<and> riNexts it ! 0 = NextWaits \<and> riWaiting it \<noteq> Some 0"

lemma lostFirst_step: "rpcIterStep it e it' \<Longrightarrow> lostFirst it \<Longrightarrow> lostFirst it'"
  by (induction rule: rpcIterStep.induct)
    (auto simp: lostFirst_def pushFrame_def endCall_def failCall_def returnCall_def callAborted_def callDeadline_def rejectDeferred_def
       nextFrame_def nextAnswer_def abandonSettled_def cancelCall_def answerWaiting_def settleCancellation_def Let_def nth_append nth_list_update
       split: if_splits option.splits list.splits nextResult.splits)

lemma lostFirst_run: "run rpcIterStep it es it' \<Longrightarrow> lostFirst it \<Longrightarrow> lostFirst it'"
  by (induction rule: run.induct) (auto dest: lostFirst_step)

theorem overlapping_next_is_lost:
  "let it = nextFrame (nextFrame (createRpcIterator None)) in
     run rpcIterStep (createRpcIterator None) [ItNext, ItNext] it \<and>
     (\<forall>es it'. run rpcIterStep it es it' \<longrightarrow> riNexts it' \<noteq> [] \<and> riNexts it' ! 0 = NextWaits)"
proof -
  have "lostFirst (nextFrame (nextFrame (createRpcIterator None)))"
    by (simp add: lostFirst_def nextFrame_def nextAnswer_def createRpcIterator_def)
  then show ?thesis
    using run_two [of rpcIterStep, OF it_next it_next] lostFirst_run by (fastforce simp: lostFirst_def Let_def)
qed

end
