(* ===== verification/RpcCalls.thy ===== *)
theory RpcCalls
  imports RpcIterator Routes JsMap
begin

text \<open>
  The calling side of \<^verbatim>\<open>domains/rpc/client.ts\<close>: the pending calls by their correlation key, the cancellations that wait for
  the broker, the keys that were given up and the pool of identifiers. A continuation that the
  code runs in a later turn (the result of a send, the resumption of \<^verbatim>\<open>abandon\<close>, a
  timer) is an event of its own. \<open>rcReleased\<close> only observes: the keys whose identifiers went
  back to the pool.
\<close>

section \<open>Guards and tables\<close>

definition assertRpcRoute :: "jsstr \<Rightarrow> unit result" where
  "assertRpcRoute route =
    (if isConcreteRouteShape route (js ''rpc'') then Inr () else Inl (RpcError ''INVALID_ROUTE'' None))"

definition validateCallTimeout :: "jsnum \<Rightarrow> unit result" where
  "validateCallTimeout timeoutMs =
    (if \<not> isInteger timeoutMs \<or> jsInt timeoutMs < 0 \<or> jsInt timeoutMs > int MAX_RPC_BUDGET_MS
     then Inl (RpcError ''INVALID_OPTIONS'' None) else Inr ())"

definition hasRpcCancellationCapability :: "nat option \<Rightarrow> bool" where
  "hasRpcCancellationCapability protocolVersion \<longleftrightarrow> 2 \<le> (case protocolVersion of None \<Rightarrow> 0 | Some v \<Rightarrow> v)"

definition rpcErrorCodeName :: "nat \<Rightarrow> string" where
  "rpcErrorCodeName domainCode =
    (if domainCode = 6007 then ''TIMEOUT'' else if domainCode = 6050 then ''WORKER_NOT_FOUND''
     else if domainCode = 6005 then ''BACKPRESSURE'' else if domainCode = 6051 then ''ROUTE_NOT_REGISTERED''
     else if domainCode = 6052 then ''CORRELATION_NOT_FOUND'' else if domainCode = 6054 then ''DUPLICATE_CORRELATION''
     else if domainCode = 6053 then ''INVALID_SEQUENCE'' else if domainCode = 6055 then ''WRONG_WORKER''
     else if domainCode = 6001 then ''UNAUTHORIZED'' else if domainCode = 6006 then ''BACKEND_ERROR''
     else ''DOMAIN_ERROR'')"

definition correlationIdToKey :: "bytes \<Rightarrow> nat result" where
  "correlationIdToKey correlationId = readU128BEAt correlationId 0"

fun cancellationOutcome :: "nat \<Rightarrow> rpcCancellationOutcome" where
  "cancellationOutcome status =
    (if status = 1 then QueuedRemoved else if status = 2 then Forwarded else if status = 3 then WorkerUnsupported
     else if status = 4 then AlreadyTerminal else if status = 5 then UnknownOrUnauthorized else ForwardingFailed)"

fun reasonCode :: "abandonReason \<Rightarrow> byte" where
  "reasonCode CallerCancelled = 1"
| "reasonCode CallTimedOut = 2"

section \<open>State\<close>

text \<open>Where the continuation of a call's \<^verbatim>\<open>abandon\<close> is.\<close>

datatype abandonPhase = AbandonIdle | AwaitsRequestSent | AwaitsOutcome | AbandonReturned

record rpcCall =
  ckKey :: nat
  ckId :: bytes
  ckIter :: "responseFrame rpcIterator"
  ckSent :: "bool option"
  ckAbandon :: abandonPhase

record rpcCaller =
  rcCalls :: "rpcCall list"
  rcPending :: "(nat \<times> nat) list"
  rcCancellations :: "(nat \<times> nat) list"
  rcAbandoned :: "nat set"
  rcPool :: "bytes list"
  rcReleased :: "nat list"
  rcCancelFrames :: "bytes list"

definition newCaller :: rpcCaller where
  "newCaller = \<lparr>rcCalls = [], rcPending = [], rcCancellations = [], rcAbandoned = {}, rcPool = [], rcReleased = [], rcCancelFrames = []\<rparr>"

definition updateCall :: "nat \<Rightarrow> (rpcCall \<Rightarrow> rpcCall) \<Rightarrow> rpcCaller \<Rightarrow> rpcCaller" where
  "updateCall i f c = c\<lparr>rcCalls := (rcCalls c)[i := f (rcCalls c ! i)]\<rparr>"

section \<open>Operations\<close>

definition cleanupPendingRpc :: "nat \<Rightarrow> bytes \<Rightarrow> rpcCaller \<Rightarrow> rpcCaller" where
  "cleanupPendingRpc key correlationId c =
    (if map_of (rcPending c) key = None then c
     else (let c = c\<lparr>rcPending := mapDelete key (rcPending c)\<rparr> in
       if key \<in> rcAbandoned c then c\<lparr>rcAbandoned := rcAbandoned c - {key}\<rparr>
       else c\<lparr>rcPool := releasePooledCorrelationId correlationId (rcPool c), rcReleased := rcReleased c @ [key]\<rparr>))"

text \<open>\<^verbatim>\<open>fail\<close> of a call's iterator, with its callback \<^verbatim>\<open>finish\<close>.\<close>

definition failPending :: "jserror \<Rightarrow> nat \<Rightarrow> rpcCaller \<Rightarrow> rpcCaller" where
  "failPending e i c =
    (let a = rcCalls c ! i in
     if riDone (ckIter a) then c
     else cleanupPendingRpc (ckKey a) (ckId a) (updateCall i (\<lambda>a. a\<lparr>ckIter := failCall e (ckIter a)\<rparr>) c))"

text \<open>
  An operation of the consumer, the signal or the deadline on a call's iterator. When it cancels, \<^verbatim>\<open>abandon\<close> runs up to
  its first \<^verbatim>\<open>await\<close>.
\<close>

definition touchCall :: "nat \<Rightarrow> (responseFrame rpcIterator \<Rightarrow> responseFrame rpcIterator) \<Rightarrow> rpcCaller \<Rightarrow> rpcCaller" where
  "touchCall i f c =
    (let a = rcCalls c ! i; it = f (ckIter a) in
     if riAbandoned (ckIter a) = None \<and> riAbandoned it \<noteq> None
     then (updateCall i (\<lambda>a. a\<lparr>ckIter := it, ckAbandon := AwaitsRequestSent\<rparr>) c)\<lparr>rcAbandoned := insert (ckKey a) (rcAbandoned c)\<rparr>
     else updateCall i (\<lambda>a. a\<lparr>ckIter := it\<rparr>) c)"

text \<open>
  A call. The random bytes come from the provider; \<open>elapsed\<close> is the time that passed before the budget is computed. The call
  itself throws when its arguments are refused or its request cannot be encoded.
\<close>

definition startCall :: "nat \<Rightarrow> bytes \<Rightarrow> bool option \<Rightarrow> rpcCaller \<Rightarrow> rpcCaller" where
  "startCall key correlationId signal c =
    (let it = createRpcIterator signal; cancelled = riAbandoned it \<noteq> None in
     c\<lparr>rcCalls := rcCalls c @ [\<lparr>ckKey = key, ckId = correlationId, ckIter = it,
          ckSent = (if signal = Some True then Some False else None), ckAbandon = (if cancelled then AwaitsRequestSent else AbandonIdle)\<rparr>],
       rcAbandoned := (if cancelled then insert key (rcAbandoned c) else rcAbandoned c),
       rcPending := mapSet key (length (rcCalls c)) (rcPending c)\<rparr>)"

definition callRpc ::
  "bool \<Rightarrow> bytes option \<Rightarrow> jsstr \<Rightarrow> bytes \<Rightarrow> jsnum option \<Rightarrow> nat \<Rightarrow> bool option \<Rightarrow> rpcCaller \<Rightarrow> bytes result \<times> rpcCaller" where
  "callRpc supportsCancellation random route body timeout elapsed signal c =
    (let timeoutMs = (case timeout of None \<Rightarrow> JInt 30000 | Some t \<Rightarrow> t) in
     case andThen (assertRpcRoute route) (\<lambda>_. validateCallTimeout timeoutMs) of
       Inl e \<Rightarrow> (Inl e, c)
     | Inr _ \<Rightarrow>
        (case acquirePooledCorrelationId random (rcPool c) of
           (Inl e, pool) \<Rightarrow> (Inl e, c\<lparr>rcPool := pool\<rparr>)
         | (Inr correlationId, pool) \<Rightarrow>
            (case correlationIdToKey correlationId of
               Inl e \<Rightarrow> (Inl e, c\<lparr>rcPool := pool\<rparr>)
             | Inr key \<Rightarrow>
                (let c = startCall key correlationId signal (c\<lparr>rcPool := pool\<rparr>);
                     budget = (if signal = Some True \<or> \<not> supportsCancellation then None
                               else Some (JInt (max 0 (jsInt timeoutMs - int elapsed))))
                 in (rpcEncodeCallRequest correlationId route body budget, c)))))"

text \<open>The send of the request has settled.\<close>

definition rpcRequestSettled :: "nat \<Rightarrow> unit result \<Rightarrow> rpcCaller \<Rightarrow> rpcCaller" where
  "rpcRequestSettled i r c =
    (case r of
       Inr _ \<Rightarrow> updateCall i (\<lambda>a. a\<lparr>ckSent := Some True\<rparr>) c
     | Inl e \<Rightarrow> failPending e i (updateCall i (\<lambda>a. a\<lparr>ckSent := Some False\<rparr>) c))"

text \<open>\<^verbatim>\<open>abandon\<close> returns an outcome, with which the iterator settles the cancellation.\<close>

definition abandonReturns :: "nat \<Rightarrow> rpcCancellationOutcome \<Rightarrow> rpcCaller \<Rightarrow> rpcCaller" where
  "abandonReturns i outcome c =
    updateCall i (\<lambda>a. a\<lparr>ckIter := abandonSettled (Inr outcome) (ckIter a), ckAbandon := AbandonReturned\<rparr>) c"

definition settleCancellationResult :: "nat \<Rightarrow> rpcCancellationOutcome \<Rightarrow> rpcCaller \<Rightarrow> rpcCaller" where
  "settleCancellationResult key result c =
    (case map_of (rcCancellations c) key of
       None \<Rightarrow> c
     | Some i \<Rightarrow>
        cleanupPendingRpc key (ckId (rcCalls c ! i))
          (abandonReturns i result (c\<lparr>rcCancellations := mapDelete key (rcCancellations c)\<rparr>)))"

text \<open>The send of a cancellation failed; the connection may be closed by then.\<close>

definition cancellationSendFailed :: "bool \<Rightarrow> nat \<Rightarrow> rpcCaller \<Rightarrow> rpcCaller" where
  "cancellationSendFailed closed key c = settleCancellationResult key (if closed then ConnectionClosed else Unconfirmed) c"

definition sendCancellationRequest :: "bool \<Rightarrow> nat \<Rightarrow> abandonReason \<Rightarrow> rpcCaller \<Rightarrow> rpcCaller" where
  "sendCancellationRequest closed i reason c =
    (let key = ckKey (rcCalls c ! i);
         c = updateCall i (\<lambda>a. a\<lparr>ckAbandon := AwaitsOutcome\<rparr>) (c\<lparr>rcCancellations := mapSet key i (rcCancellations c)\<rparr>)
     in case encodeCallerCancellation (ckId (rcCalls c ! i)) (reasonCode reason) of
          Inl e \<Rightarrow> cancellationSendFailed closed key c
        | Inr frame \<Rightarrow> c\<lparr>rcCancelFrames := rcCancelFrames c @ [frame]\<rparr>)"

definition abandonResumes :: "bool \<Rightarrow> bool \<Rightarrow> nat \<Rightarrow> rpcCaller \<Rightarrow> rpcCaller" where
  "abandonResumes supportsCancellation closed i c =
    (let a = rcCalls c ! i in
     case ckSent a of
       None \<Rightarrow> c
     | Some sent \<Rightarrow>
        if \<not> sent then abandonReturns i RequestNotSent (cleanupPendingRpc (ckKey a) (ckId a) c)
        else if \<not> supportsCancellation then abandonReturns i Unsupported (cleanupPendingRpc (ckKey a) (ckId a) c)
        else (case riAbandoned (ckIter a) of
            None \<Rightarrow> c
          | Some reason \<Rightarrow> sendCancellationRequest closed i reason c))"

definition cancellationTimedOut :: "nat \<Rightarrow> rpcCaller \<Rightarrow> rpcCaller" where
  "cancellationTimedOut key c = settleCancellationResult key Unconfirmed c"

definition cancellationAnswered :: "bytes \<Rightarrow> nat \<Rightarrow> rpcCaller \<Rightarrow> rpcCaller" where
  "cancellationAnswered correlationId status c =
    (case correlationIdToKey correlationId of Inl _ \<Rightarrow> c | Inr key \<Rightarrow> settleCancellationResult key (cancellationOutcome status) c)"

definition handleRpcResponse :: "nat \<Rightarrow> nat \<Rightarrow> bytes \<Rightarrow> bool \<Rightarrow> rpcCaller \<Rightarrow> rpcCaller" where
  "handleRpcResponse key seq body streamEnd c =
    (case map_of (rcPending c) key of
       None \<Rightarrow> c
     | Some i \<Rightarrow>
        (case if streamEnd then tryDecodeTerminalErrorBody body else None of
           Some e \<Rightarrow>
             failPending (attachErrorDisposition (RpcError (rpcErrorCodeName (rebCode e)) (Some (rebCode e))) (Some (rebClass e)) (Some (rebEffect e))) i c
         | None \<Rightarrow>
            (let frame = \<lparr>rfBody = body, rfSequence = seq\<rparr> in
             if streamEnd
             then (let c = (if 0 < length body then updateCall i (\<lambda>a. a\<lparr>ckIter := pushFrame frame (ckIter a)\<rparr>) c else c);
                       c = cleanupPendingRpc key (ckId (rcCalls c ! i)) c
                   in updateCall i (\<lambda>a. a\<lparr>ckIter := endCall (ckIter a)\<rparr>) c)
             else updateCall i (\<lambda>a. a\<lparr>ckIter := pushFrame frame (ckIter a)\<rparr>) c)))"

definition responseReceived :: "bytes \<Rightarrow> rpcCaller \<Rightarrow> rpcCaller" where
  "responseReceived payload c =
    (case rpcDecodeResponseKey payload of
       Inl _ \<Rightarrow> c
     | Inr r \<Rightarrow> handleRpcResponse (rkCorrelationKey r) (rkSequence r) (rkBody r) (rkStreamEnd r) c)"

definition callsDisconnected :: "rpcCaller \<Rightarrow> rpcCaller" where
  "callsDisconnected c =
    (let c = (fold (failPending ConnectionError) (map snd (rcPending c)) c)\<lparr>rcPending := [], rcAbandoned := {}\<rparr>
     in (fold (\<lambda>i. abandonReturns i ConnectionClosed) (map snd (rcCancellations c)) c)\<lparr>rcCancellations := []\<rparr>)"

section \<open>Runs\<close>

datatype callEvent = CallStarted | CallSendSettled nat "unit result" | CallTouched nat | CallAbandonResumes nat | CallCancelSendFailed nat
  | CallCancelTimer nat | CallCancelAnswered bytes nat | CallResponse bytes | CallsDisconnected

text \<open>What the consumer of a call, its signal and its deadline may do to the iterator.\<close>

inductive consumerOp :: "(responseFrame rpcIterator \<Rightarrow> responseFrame rpcIterator) \<Rightarrow> responseFrame rpcIterator \<Rightarrow> bool" where
  op_next: "consumerOp nextFrame it"
| op_return: "consumerOp returnCall it"
| op_aborted: "consumerOp callAborted it"
| op_deadline: "riTimer it \<Longrightarrow> consumerOp callDeadline it"
| op_rejected: "j < length (riNexts it) \<Longrightarrow> consumerOp (rejectDeferred j) it"

text \<open>The random provider never repeats a key: a new identifier differs from every earlier one.\<close>

definition freshRandom :: "bytes option \<Rightarrow> rpcCaller \<Rightarrow> bool" where
  "freshRandom random c \<longleftrightarrow>
    (case random of None \<Rightarrow> True
     | Some r \<Rightarrow> (case correlationIdToKey r of Inl _ \<Rightarrow> True | Inr k \<Rightarrow> k \<notin> ckKey ` set (rcCalls c)))"

inductive callStep :: "rpcCaller \<Rightarrow> callEvent \<Rightarrow> rpcCaller \<Rightarrow> bool" where
  call_started: "freshRandom random c \<Longrightarrow>
    callStep c CallStarted (snd (callRpc supports random route body timeout elapsed signal c))"
| call_sent: "i < length (rcCalls c) \<Longrightarrow> ckSent (rcCalls c ! i) = None \<Longrightarrow>
    callStep c (CallSendSettled i r) (rpcRequestSettled i r c)"
| call_touched: "i < length (rcCalls c) \<Longrightarrow> consumerOp f (ckIter (rcCalls c ! i)) \<Longrightarrow> callStep c (CallTouched i) (touchCall i f c)"
| call_resumes: "i < length (rcCalls c) \<Longrightarrow> ckAbandon (rcCalls c ! i) = AwaitsRequestSent \<Longrightarrow>
    callStep c (CallAbandonResumes i) (abandonResumes supports closed i c)"
| call_cancel_failed: "callStep c (CallCancelSendFailed key) (cancellationSendFailed closed key c)"
| call_cancel_timer: "callStep c (CallCancelTimer key) (cancellationTimedOut key c)"
| call_cancel_answered: "callStep c (CallCancelAnswered cid status) (cancellationAnswered cid status c)"
| call_response: "callStep c (CallResponse pl) (responseReceived pl c)"
| calls_disconnected: "callStep c CallsDisconnected (callsDisconnected c)"

section \<open>Invariant\<close>

text \<open>What holds of one call, given what the tables hold under its key.\<close>

definition callOk :: "nat \<Rightarrow> rpcCall \<Rightarrow> nat option \<Rightarrow> nat option \<Rightarrow> bool \<Rightarrow> bool \<Rightarrow> bool" where
  "callOk i a pending cancellation abandoned released \<longleftrightarrow>
     iterInv (ckIter a) \<and>
     (pending = None \<or> pending = Some i) \<and> (cancellation = None \<or> cancellation = Some i) \<and>
     (riDone (ckIter a) \<or> pending = Some i) \<and>
     (riCancellationRequested (ckIter a) \<longleftrightarrow> ckAbandon a \<noteq> AbandonIdle) \<and>
     (ckAbandon a = AwaitsOutcome \<longleftrightarrow> cancellation = Some i) \<and>
     (ckAbandon a = AbandonReturned \<longrightarrow> riCancellation (ckIter a) \<noteq> None) \<and>
     (pending = Some i \<and> riCancellationRequested (ckIter a) \<longrightarrow> abandoned) \<and>
     (abandoned \<longrightarrow> riCancellationRequested (ckIter a)) \<and>
     (pending = Some i \<longrightarrow> \<not> riDone (ckIter a) \<or> riCancellationRequested (ckIter a)) \<and>
     (released \<longrightarrow> pending = None \<and> riDone (ckIter a) \<and> \<not> riCancellationRequested (ckIter a))"

definition callOkAt :: "rpcCaller \<Rightarrow> nat \<Rightarrow> bool" where
  "callOkAt c i \<longleftrightarrow>
    (let a = rcCalls c ! i; k = ckKey a in
     callOk i a (map_of (rcPending c) k) (map_of (rcCancellations c) k) (k \<in> rcAbandoned c) (k \<in> set (rcReleased c)))"

definition keysOf :: "rpcCaller \<Rightarrow> nat list" where
  "keysOf c = map ckKey (rcCalls c)"

definition distinctTables :: "rpcCaller \<Rightarrow> bool" where
  "distinctTables c \<longleftrightarrow> distinct (rcReleased c) \<and> distinct (map fst (rcPending c)) \<and> distinct (map fst (rcCancellations c))"

definition callerInv :: "rpcCaller \<Rightarrow> bool" where
  "callerInv c \<longleftrightarrow> distinct (keysOf c) \<and> distinctTables c \<and>
     fst ` set (rcPending c) \<union> fst ` set (rcCancellations c) \<union> rcAbandoned c \<union> set (rcReleased c) \<subseteq> set (keysOf c) \<and>
     (\<forall>i < length (rcCalls c). callOkAt c i)"

text \<open>Two states agree on all calls but one.\<close>

definition sameBut :: "nat \<Rightarrow> rpcCaller \<Rightarrow> rpcCaller \<Rightarrow> bool" where
  "sameBut i c c' \<longleftrightarrow> keysOf c' = keysOf c \<and>
     (\<forall>j. j < length (rcCalls c) \<and> j \<noteq> i \<longrightarrow> rcCalls c' ! j = rcCalls c ! j) \<and>
     (\<forall>k. k \<noteq> ckKey (rcCalls c ! i) \<longrightarrow>
        map_of (rcPending c') k = map_of (rcPending c) k \<and> map_of (rcCancellations c') k = map_of (rcCancellations c) k \<and>
        (k \<in> rcAbandoned c' \<longleftrightarrow> k \<in> rcAbandoned c) \<and> (k \<in> set (rcReleased c') \<longleftrightarrow> k \<in> set (rcReleased c)))"

lemma keysOf_nth: "i < length (rcCalls c) \<Longrightarrow> keysOf c ! i = ckKey (rcCalls c ! i)"
  by (simp add: keysOf_def)

lemma length_keysOf [simp]: "length (keysOf c) = length (rcCalls c)"
  by (simp add: keysOf_def)

lemma keysOf_same: "keysOf c' = keysOf c \<Longrightarrow> length (rcCalls c') = length (rcCalls c)"
  by (metis length_keysOf)

lemma local_inv:
  assumes inv: "callerInv c" and i: "i < length (rcCalls c)" and same: "sameBut i c c'"
    and ok: "callOkAt c' i" and rel: "distinctTables c'"
  shows "callerInv c'"
proof -
  from same have k: "keysOf c' = keysOf c" and len: "length (rcCalls c') = length (rcCalls c)"
    by (auto simp: sameBut_def intro: keysOf_same)
  from inv have d: "distinct (keysOf c)" and ok0: "\<forall>i < length (rcCalls c). callOkAt c i" by (simp_all add: callerInv_def)
  have mem: "ckKey (rcCalls c ! i) \<in> set (keysOf c)" using i by (simp add: keysOf_def)
  have sub: "x \<in> set (keysOf c)"
    if "x \<in> fst ` set (rcPending c') \<union> fst ` set (rcCancellations c') \<union> rcAbandoned c' \<union> set (rcReleased c')" for x
  proof (cases "x = ckKey (rcCalls c ! i)")
    case False
    with same have "map_of (rcPending c') x = map_of (rcPending c) x" "map_of (rcCancellations c') x = map_of (rcCancellations c) x"
        "x \<in> rcAbandoned c' \<longleftrightarrow> x \<in> rcAbandoned c" "x \<in> set (rcReleased c') \<longleftrightarrow> x \<in> set (rcReleased c)"
      by (auto simp: sameBut_def)
    with that have "x \<in> fst ` set (rcPending c) \<union> fst ` set (rcCancellations c) \<union> rcAbandoned c \<union> set (rcReleased c)"
      by (auto simp flip: dom_map_of_conv_image_fst simp: dom_def)
    with inv show ?thesis by (auto simp: callerInv_def)
  qed (use mem in simp)
  have "callOkAt c' j" if j: "j < length (rcCalls c)" for j
  proof (cases "j = i")
    case False
    have "ckKey (rcCalls c ! j) \<noteq> ckKey (rcCalls c ! i)"
      using d nth_eq_iff_index_eq [OF d, of j i] i j False by (simp add: keysOf_nth)
    with same False j have "rcCalls c' ! j = rcCalls c ! j"
        "map_of (rcPending c') (ckKey (rcCalls c ! j)) = map_of (rcPending c) (ckKey (rcCalls c ! j))"
        "map_of (rcCancellations c') (ckKey (rcCalls c ! j)) = map_of (rcCancellations c) (ckKey (rcCalls c ! j))"
        "ckKey (rcCalls c ! j) \<in> rcAbandoned c' \<longleftrightarrow> ckKey (rcCalls c ! j) \<in> rcAbandoned c"
        "ckKey (rcCalls c ! j) \<in> set (rcReleased c') \<longleftrightarrow> ckKey (rcCalls c ! j) \<in> set (rcReleased c)"
      by (auto simp: sameBut_def)
    with ok0 j show ?thesis by (simp add: callOkAt_def)
  qed (use ok in simp)
  then show ?thesis using d k len sub rel by (auto simp: callerInv_def)
qed

section \<open>Preservation\<close>

text \<open>How a step of the iterator changes what the invariant looks at.\<close>

definition iterMoves :: "'f rpcIterator \<Rightarrow> 'f rpcIterator \<Rightarrow> bool" where
  "iterMoves it it' \<longleftrightarrow> iterInv it' \<and> (riDone it \<longrightarrow> riDone it' \<and> riCancellationRequested it' = riCancellationRequested it) \<and>
     (riCancellation it \<noteq> None \<longrightarrow> riCancellation it' \<noteq> None)"

lemma step_done:
  assumes "rpcIterStep it e it'" and "riDone it"
  shows "riDone it' \<and> riCancellationRequested it' = riCancellationRequested it"
  using assms
  by (induction rule: rpcIterStep.induct)
    (auto simp: pushFrame_def endCall_def failCall_def returnCall_def callAborted_def callDeadline_def rejectDeferred_def nextFrame_def nextAnswer_def
       abandonSettled_def cancelCall_def answerWaiting_def settleCancellation_def Let_def split: option.splits list.splits nextResult.splits)

lemma step_moves: "rpcIterStep it e it' \<Longrightarrow> iterInv it \<Longrightarrow> iterMoves it it'"
  using iterStep_inv [of it e it'] step_done [of it e it'] iterStep_keeps_outcome [of it e it'] by (auto simp: iterMoves_def)

lemma op_moves:
  assumes "consumerOp f it" and "iterInv it"
  shows "iterMoves it (f it)"
  using assms
  by (induction rule: consumerOp.induct)
    (rule step_moves, rule it_next it_return it_aborted it_deadline it_rejected, assumption+)+

lemma requested_abandoned: "iterInv it \<Longrightarrow> riCancellationRequested it \<longleftrightarrow> riAbandoned it \<noteq> None"
  by (auto simp: iterInv_def cancelInv_def)

lemma okD:
  assumes "callerInv c" and "i < length (rcCalls c)"
  shows "callOkAt c i" and "distinct (rcReleased c)" and "distinct (map fst (rcPending c))" and "distinct (map fst (rcCancellations c))"
  using assms by (simp_all add: callerInv_def distinctTables_def)

lemma updateCall_fields [simp]:
  "rcPending (updateCall i f c) = rcPending c" "rcCancellations (updateCall i f c) = rcCancellations c"
  "rcAbandoned (updateCall i f c) = rcAbandoned c" "rcReleased (updateCall i f c) = rcReleased c" "rcPool (updateCall i f c) = rcPool c"
  "length (rcCalls (updateCall i f c)) = length (rcCalls c)"
  "i < length (rcCalls c) \<Longrightarrow> rcCalls (updateCall i f c) ! i = f (rcCalls c ! i)"
  "j \<noteq> i \<Longrightarrow> rcCalls (updateCall i f c) ! j = rcCalls c ! j"
  by (simp_all add: updateCall_def)

lemma keysOf_updateCall [simp]: "(\<And>a. ckKey (f a) = ckKey a) \<Longrightarrow> keysOf (updateCall i f c) = keysOf c"
  by (simp add: keysOf_def updateCall_def map_update list_update_same_conv) (metis length_map list_update_beyond list_update_id not_le nth_map)

lemma keysOf_fields [simp]:
  "keysOf (c\<lparr>rcPending := p\<rparr>) = keysOf c" "keysOf (c\<lparr>rcCancellations := q\<rparr>) = keysOf c" "keysOf (c\<lparr>rcAbandoned := ab\<rparr>) = keysOf c"
  "keysOf (c\<lparr>rcPool := pl\<rparr>) = keysOf c" "keysOf (c\<lparr>rcCancelFrames := fs\<rparr>) = keysOf c"
  by (simp_all add: keysOf_def)

lemma cleanup_fields [simp]:
  "rcCalls (cleanupPendingRpc k cid c) = rcCalls c" "rcCancellations (cleanupPendingRpc k cid c) = rcCancellations c"
  "map_of (rcPending (cleanupPendingRpc k cid c)) = (map_of (rcPending c))(k := None)"
  by (auto simp: cleanupPendingRpc_def Let_def)

lemma cleanup_abandoned:
  "rcAbandoned (cleanupPendingRpc k cid c) = (if map_of (rcPending c) k = None then rcAbandoned c else rcAbandoned c - {k})"
  by (auto simp: cleanupPendingRpc_def Let_def)

lemma cleanup_released:
  "rcReleased (cleanupPendingRpc k cid c) =
     (if map_of (rcPending c) k = None \<or> k \<in> rcAbandoned c then rcReleased c else rcReleased c @ [k])"
  by (auto simp: cleanupPendingRpc_def Let_def)

lemma keysOf_cleanup [simp]: "keysOf (cleanupPendingRpc k cid c) = keysOf c"
  by (simp add: keysOf_def)

lemma distinct_cleanup [simp]: "distinct (map fst (rcPending c)) \<Longrightarrow> distinct (map fst (rcPending (cleanupPendingRpc k cid c)))"
  by (auto simp: cleanupPendingRpc_def Let_def)

lemmas okAt_defs = callOkAt_def callOk_def Let_def distinctTables_def

text \<open>An operation on the iterator of one call that cancels nothing and leaves the tables alone.\<close>

lemma moves_inv:
  assumes inv: "callerInv c" and i: "i < length (rcCalls c)"
    and g: "\<And>a. ckKey (g a) = ckKey a" "\<And>a. ckAbandon (g a) = ckAbandon a" "ckIter (g (rcCalls c ! i)) = it"
    and "iterMoves (ckIter (rcCalls c ! i)) it" and "riCancellationRequested it = riCancellationRequested (ckIter (rcCalls c ! i))"
    and "riDone it \<longrightarrow> riDone (ckIter (rcCalls c ! i))"
  shows "callerInv (updateCall i g c)"
  by (rule local_inv [OF inv i])
    (use okD [OF inv i] i assms(3-) in \<open>auto simp: sameBut_def okAt_defs iterMoves_def\<close>)

lemma push_moves: "iterInv it \<Longrightarrow> iterMoves it (pushFrame f it)"
  by (rule step_moves, rule it_push)

lemma fail_moves: "iterInv it \<Longrightarrow> iterMoves it (failCall e it)"
  by (rule step_moves, rule it_fail)

lemma end_moves: "iterInv it \<Longrightarrow> iterMoves it (endCall it)"
  by (rule step_moves, rule it_end)

lemma answerWaiting_fields [simp]:
  "riDone (answerWaiting r it) = riDone it" "riCancellationRequested (answerWaiting r it) = riCancellationRequested it"
  "riAbandoned (answerWaiting r it) = riAbandoned it" "riCancellation (answerWaiting r it) = riCancellation it"
  "riFailure (answerWaiting r it) = riFailure it"
  by (auto simp: answerWaiting_def split: option.splits)

lemma settleCancellation_fields [simp]:
  "riDone (settleCancellation r it) = riDone it" "riCancellationRequested (settleCancellation r it) = riCancellationRequested it"
  "riAbandoned (settleCancellation r it) = riAbandoned it" "riCancellation (settleCancellation r it) \<noteq> None"
  by (auto simp: settleCancellation_def)

lemma push_fields [simp]: "riDone (pushFrame f it) = riDone it" "riCancellationRequested (pushFrame f it) = riCancellationRequested it"
  by (simp_all add: pushFrame_def Let_def)

lemma fail_fields [simp]: "riDone (failCall e it)" "riCancellationRequested (failCall e it) = riCancellationRequested it"
  by (simp_all add: failCall_def)

lemma end_fields [simp]: "riDone (endCall it)" "riCancellationRequested (endCall it) = riCancellationRequested it"
  by (simp_all add: endCall_def Let_def)

lemma okAt_iter: "callOkAt c i \<Longrightarrow> iterInv (ckIter (rcCalls c ! i))"
  by (simp add: okAt_defs)

lemma push_call_inv:
  assumes "callerInv c" and "i < length (rcCalls c)"
  shows "callerInv (updateCall i (\<lambda>a. a\<lparr>ckIter := pushFrame f (ckIter a)\<rparr>) c)"
  by (rule moves_inv [OF assms, where it = "pushFrame f (ckIter (rcCalls c ! i))"]) (simp_all add: push_moves okAt_iter okD [OF assms])

lemma fail_inv_call:
  assumes inv: "callerInv c" and i: "i < length (rcCalls c)"
  shows "callerInv (failPending e i c)"
proof (cases "riDone (ckIter (rcCalls c ! i))")
  case False
  let ?c = "failPending e i c"
  have m: "iterMoves (ckIter (rcCalls c ! i)) (failCall e (ckIter (rcCalls c ! i)))"
    using okD [OF inv i] by (simp add: fail_moves okAt_iter)
  show ?thesis
    by (rule local_inv [OF inv i])
      (use False okD [OF inv i] m i in \<open>auto simp: failPending_def sameBut_def okAt_defs iterMoves_def cleanup_abandoned cleanup_released\<close>)
qed (simp add: failPending_def inv)

lemma op_done: "consumerOp f it \<Longrightarrow> riDone (f it) \<Longrightarrow> riDone it \<or> riCancellationRequested (f it)"
  by (induction rule: consumerOp.induct)
    (auto simp: returnCall_def callAborted_def callDeadline_def rejectDeferred_def nextFrame_def nextAnswer_def cancelCall_def Let_def
       split: if_splits option.splits list.splits nextResult.splits)

lemma touch_call_inv:
  assumes inv: "callerInv c" and i: "i < length (rcCalls c)" and f: "consumerOp f (ckIter (rcCalls c ! i))"
  shows "callerInv (touchCall i f c)"
proof -
  let ?it = "ckIter (rcCalls c ! i)"
  have it: "iterInv ?it" using okD [OF inv i] by (simp add: okAt_iter)
  have m: "iterMoves ?it (f ?it)" by (rule op_moves [OF f it])
  have r: "riCancellationRequested ?it \<longleftrightarrow> riAbandoned ?it \<noteq> None" "riCancellationRequested (f ?it) \<longleftrightarrow> riAbandoned (f ?it) \<noteq> None"
    using requested_abandoned it m by (auto simp: iterMoves_def)
  show ?thesis
  proof (cases "riAbandoned ?it = None \<and> riAbandoned (f ?it) \<noteq> None")
    case True
    with r m have "\<not> riDone ?it" "riCancellationRequested (f ?it)" "\<not> riCancellationRequested ?it" "iterInv (f ?it)" "riDone (f ?it)"
      by (auto simp: iterMoves_def iterInv_def cancelInv_def)
    with True okD [OF inv i] i show ?thesis
      by (intro local_inv [OF inv i]) (auto simp: touchCall_def sameBut_def okAt_defs)
  next
    case False
    then have same: "riCancellationRequested (f ?it) = riCancellationRequested ?it"
      using r m it by (auto simp: iterMoves_def iterInv_def cancelInv_def)
    moreover have "riDone (f ?it) \<longrightarrow> riDone ?it"
      using op_done [OF f] same it by (auto simp: iterInv_def cancelInv_def)
    ultimately have "callerInv (updateCall i (\<lambda>a. a\<lparr>ckIter := f ?it\<rparr>) c)"
      using m by (intro moves_inv [OF inv i, where it = "f ?it"]) simp_all
    with False show ?thesis by (simp only: touchCall_def Let_def if_False)
  qed
qed

lemma call_sent_inv:
  assumes inv: "callerInv c" and i: "i < length (rcCalls c)"
  shows "callerInv (updateCall i (\<lambda>a. a\<lparr>ckSent := s\<rparr>) c)"
  using okD [OF inv i] by (intro moves_inv [OF inv i, where it = "ckIter (rcCalls c ! i)"]) (simp_all add: iterMoves_def okAt_iter)

lemma rpcRequestSettled_inv:
  assumes "callerInv c" and "i < length (rcCalls c)"
  shows "callerInv (rpcRequestSettled i r c)"
  using assms by (cases r) (simp_all add: rpcRequestSettled_def call_sent_inv fail_inv_call)

lemma abandonSettled_fields [simp]:
  "riDone (abandonSettled r it) = riDone it" "riCancellationRequested (abandonSettled r it) = riCancellationRequested it"
  "riCancellation (abandonSettled r it) \<noteq> None" "\<exists>y. riCancellation (abandonSettled r it) = Some y"
  by (auto simp: abandonSettled_def settleCancellation_def)

lemma requested_done: "iterInv it \<Longrightarrow> riCancellationRequested it \<Longrightarrow> riDone it"
  by (simp add: iterInv_def cancelInv_def)

lemma abandoned_iter: "iterInv it \<Longrightarrow> riCancellationRequested it \<Longrightarrow> iterInv (abandonSettled r it)"
  by (rule abandoned_inv) (auto simp: requested_abandoned)

text \<open>Every entry of a table names the call that has its key.\<close>

lemma key_call:
  assumes "callerInv c" and "key \<in> set (keysOf c)"
  obtains j where "j < length (rcCalls c)" and "key = ckKey (rcCalls c ! j)" and "callOkAt c j"
proof -
  from assms(2) obtain j where j: "j < length (rcCalls c)" "key = ckKey (rcCalls c ! j)" by (auto simp: keysOf_def in_set_conv_nth)
  with okD(1) [OF assms(1) j(1)] that show thesis by blast
qed

lemma in_keys:
  assumes "callerInv c"
  shows "map_of (rcPending c) key = Some i \<Longrightarrow> key \<in> set (keysOf c)"
    and "map_of (rcCancellations c) key = Some i \<Longrightarrow> key \<in> set (keysOf c)"
proof -
  from assms have "fst ` set (rcPending c) \<subseteq> set (keysOf c)" "fst ` set (rcCancellations c) \<subseteq> set (keysOf c)"
    by (simp_all add: callerInv_def)
  then show "map_of (rcPending c) key = Some i \<Longrightarrow> key \<in> set (keysOf c)"
    and "map_of (rcCancellations c) key = Some i \<Longrightarrow> key \<in> set (keysOf c)"
    by (auto dest!: map_of_SomeD)
qed

lemma pending_call:
  assumes "callerInv c" and "map_of (rcPending c) key = Some i"
  shows "i < length (rcCalls c)" and "key = ckKey (rcCalls c ! i)"
proof -
  obtain j where j: "j < length (rcCalls c)" "key = ckKey (rcCalls c ! j)" "callOkAt c j"
    using key_call [OF assms(1) in_keys(1) [OF assms]] by blast
  moreover from j(3) assms(2) j(2) have "i = j" by (auto simp: okAt_defs)
  ultimately show "i < length (rcCalls c)" and "key = ckKey (rcCalls c ! i)" by simp_all
qed

lemma cancellation_call:
  assumes "callerInv c" and "map_of (rcCancellations c) key = Some i"
  shows "i < length (rcCalls c)" and "key = ckKey (rcCalls c ! i)"
proof -
  obtain j where j: "j < length (rcCalls c)" "key = ckKey (rcCalls c ! j)" "callOkAt c j"
    using key_call [OF assms(1) in_keys(2) [OF assms]] by blast
  moreover from j(3) assms(2) j(2) have "i = j" by (auto simp: okAt_defs)
  ultimately show "i < length (rcCalls c)" and "key = ckKey (rcCalls c ! i)" by simp_all
qed

lemma settle_cancellation_inv:
  assumes inv: "callerInv c"
  shows "callerInv (settleCancellationResult key result c)"
proof (cases "map_of (rcCancellations c) key")
  case (Some j)
  note j = cancellation_call [OF inv Some]
  let ?it = "ckIter (rcCalls c ! j)"
  from okD [OF inv j(1)] Some j have req: "riCancellationRequested ?it" "iterInv ?it" by (auto simp: okAt_defs)
  then have it: "riDone ?it" "iterInv (abandonSettled (Inr result) ?it)" by (auto intro: abandoned_iter requested_done)
  show ?thesis
    by (rule local_inv [OF inv j(1)])
      (use okD [OF inv j(1)] Some j(1) req it in
        \<open>auto simp: settleCancellationResult_def abandonReturns_def sameBut_def okAt_defs cleanup_abandoned cleanup_released j(2)\<close>)
qed (simp add: settleCancellationResult_def inv)

lemma resumes_inv:
  assumes inv: "callerInv c" and i: "i < length (rcCalls c)" and ph: "ckAbandon (rcCalls c ! i) = AwaitsRequestSent"
  shows "callerInv (abandonResumes supports closed i c)"
proof -
  have req: "riCancellationRequested (ckIter (rcCalls c ! i))" using okD [OF inv i] ph by (auto simp: okAt_defs)
  have it: "iterInv (abandonSettled (Inr o') (ckIter (rcCalls c ! i)))" for o'
    using okD [OF inv i] req by (auto simp: okAt_iter intro: abandoned_iter)
  have dn: "riDone (ckIter (rcCalls c ! i))" using okD [OF inv i] req by (auto simp: okAt_iter intro: requested_done)
  have ret: "callerInv (abandonReturns i o' (cleanupPendingRpc (ckKey (rcCalls c ! i)) (ckId (rcCalls c ! i)) c))" for o'
    by (rule local_inv [OF inv i])
      (use okD [OF inv i] i it req ph dn in \<open>auto simp: abandonReturns_def sameBut_def okAt_defs cleanup_abandoned cleanup_released\<close>)
  let ?c = "updateCall i (\<lambda>a. a\<lparr>ckAbandon := AwaitsOutcome\<rparr>) (c\<lparr>rcCancellations := mapSet (ckKey (rcCalls c ! i)) i (rcCancellations c)\<rparr>)"
  have send: "callerInv ?c"
    by (rule local_inv [OF inv i]) (use okD [OF inv i] i req ph dn in \<open>auto simp: sameBut_def okAt_defs\<close>)
  have frames: "callerInv (d\<lparr>rcCancelFrames := fs\<rparr>)" if "callerInv d" for d fs
    using that by (simp add: callerInv_def callOkAt_def distinctTables_def)
  show ?thesis using inv ret send frames [OF send]
    by (auto simp: abandonResumes_def sendCancellationRequest_def cancellationSendFailed_def settle_cancellation_inv Let_def
        split: option.splits sum.splits)
qed

lemma response_inv:
  assumes inv: "callerInv c"
  shows "callerInv (handleRpcResponse key seq body streamEnd c)"
proof (cases "map_of (rcPending c) key")
  case (Some i)
  note i = pending_call [OF inv Some]
  let ?it = "ckIter (rcCalls c ! i)" and ?f = "\<lparr>rfBody = body, rfSequence = seq\<rparr>"
  have ok: "iterInv ?it" using okD [OF inv i(1)] by (simp add: okAt_iter)
  have ended: "callerInv (updateCall i (\<lambda>a. a\<lparr>ckIter := endCall (ckIter a)\<rparr>) (cleanupPendingRpc key cid d))"
    if d: "callerInv d" "map_of (rcPending d) key = Some i" for cid d
  proof -
    note i' = pending_call [OF d]
    have e: "iterMoves (ckIter (rcCalls d ! i)) (endCall (ckIter (rcCalls d ! i)))"
      using okD [OF d(1) i'(1)] by (simp add: end_moves okAt_iter)
    show ?thesis
      by (rule local_inv [OF d(1) i'(1)])
        (use okD [OF d(1) i'(1)] i' d(2) e in \<open>auto simp: sameBut_def okAt_defs iterMoves_def cleanup_abandoned cleanup_released\<close>)
  qed
  have push: "callerInv (updateCall i (\<lambda>a. a\<lparr>ckIter := pushFrame ?f (ckIter a)\<rparr>) c)" by (rule push_call_inv [OF inv i(1)])
  show ?thesis using ended [OF inv Some] ended [OF push] push fail_inv_call [OF inv i(1)] Some
    by (auto simp: handleRpcResponse_def Let_def split: option.splits)
qed (simp add: handleRpcResponse_def inv)

lemma create_fields [simp]:
  "riCancellationRequested (createRpcIterator signal) = (signal = Some True)" "riDone (createRpcIterator signal) = (signal = Some True)"
  "(riAbandoned (createRpcIterator signal) = None) = (signal \<noteq> Some True)"
  "(\<exists>y. riAbandoned (createRpcIterator signal) = Some y) = (signal = Some True)"
  by (auto simp: createRpcIterator_def cancelCall_def Let_def)

lemma call_start_inv:
  assumes inv: "callerInv c" and fresh: "key \<notin> set (keysOf c)"
  shows "callerInv (startCall key cid signal c)"
proof -
  let ?c = "startCall key cid signal c" and ?n = "length (rcCalls c)"
  have keys: "keysOf ?c = keysOf c @ [key]" by (simp add: startCall_def keysOf_def Let_def)
  have new: "map_of (rcPending c) key = None" "map_of (rcCancellations c) key = None" "key \<notin> rcAbandoned c" "key \<notin> set (rcReleased c)"
    using inv fresh in_keys [OF inv] by (auto simp: callerInv_def) (meson not_None_eq)+
  have it: "iterInv (createRpcIterator signal)" by (rule iter_create_inv)
  have "callOkAt ?c j" if "j < length (rcCalls ?c)" for j
  proof (cases "j = ?n")
    case True
    with new it show ?thesis by (auto simp: okAt_defs startCall_def)
  next
    case False
    with that have j: "j < ?n" by (simp add: startCall_def Let_def)
    then have "ckKey (rcCalls c ! j) \<in> set (keysOf c)" by (simp add: keysOf_def)
    with fresh have "ckKey (rcCalls c ! j) \<noteq> key" by auto
    with okD(1) [OF inv j] j show ?thesis by (simp add: callOkAt_def startCall_def nth_append Let_def)
  qed
  then show ?thesis using inv keys fresh by (auto simp: callerInv_def distinctTables_def startCall_def Let_def)
qed

lemma call_inv:
  assumes inv: "callerInv c" and "freshRandom random c"
  shows "callerInv (snd (callRpc supports random route body timeout elapsed signal c))"
proof -
  have pool: "callerInv (c\<lparr>rcPool := p\<rparr>)" "keysOf (c\<lparr>rcPool := p\<rparr>) = keysOf c" for p
    using inv by (simp_all add: callerInv_def callOkAt_def distinctTables_def)
  have "callerInv (startCall key cid signal (c\<lparr>rcPool := p\<rparr>))" if "random = Some cid" "correlationIdToKey cid = Inr key" for key cid p
    using call_start_inv [OF pool(1)] assms(2) that by (simp add: freshRandom_def keysOf_def)
  with inv pool show ?thesis
    by (auto simp: callRpc_def acquirePooledCorrelationId_def secureRandomValues_def Let_def split: sum.splits option.splits prod.splits)
qed

lemma failPending_facts:
  "length (rcCalls (failPending e i c)) = length (rcCalls c)" "rcCancellations (failPending e i c) = rcCancellations c"
  "i < length (rcCalls c) \<Longrightarrow> riDone (ckIter (rcCalls (failPending e i c) ! i))"
  "riDone (ckIter (rcCalls c ! j)) \<Longrightarrow> riDone (ckIter (rcCalls (failPending e i c) ! j))"
proof -
  show "riDone (ckIter (rcCalls c ! j)) \<Longrightarrow> riDone (ckIter (rcCalls (failPending e i c) ! j))"
    by (cases "i < length (rcCalls c)"; cases "i = j") (auto simp: failPending_def Let_def updateCall_def)
qed (simp_all add: failPending_def Let_def)

lemma fail_all:
  assumes "callerInv c" and "\<forall>i \<in> set is. i < length (rcCalls c)"
  shows "callerInv (fold (failPending e) is c) \<and> length (rcCalls (fold (failPending e) is c)) = length (rcCalls c) \<and>
    rcCancellations (fold (failPending e) is c) = rcCancellations c \<and>
    (\<forall>j < length (rcCalls c). riDone (ckIter (rcCalls c ! j)) \<or> j \<in> set is \<longrightarrow> riDone (ckIter (rcCalls (fold (failPending e) is c) ! j)))"
  using assms
proof (induction "is" arbitrary: c)
  case (Cons i "is")
  then have i: "i < length (rcCalls c)" "\<forall>i \<in> set is. i < length (rcCalls (failPending e i c))" "callerInv (failPending e i c)"
    by (simp_all add: failPending_facts fail_inv_call)
  have "riDone (ckIter (rcCalls (failPending e i c) ! j))" if "riDone (ckIter (rcCalls c ! j)) \<or> j = i" for j
    using that failPending_facts(3,4) i(1) by blast
  with Cons.IH [OF i(3)] i(2) failPending_facts(1,2) show ?case by (auto simp: failPending_facts)
qed simp

lemma table_entries:
  assumes "callerInv c"
  shows "i \<in> snd ` set (rcPending c) \<longleftrightarrow> i < length (rcCalls c) \<and> map_of (rcPending c) (ckKey (rcCalls c ! i)) = Some i"
    and "i \<in> snd ` set (rcCancellations c) \<longleftrightarrow> i < length (rcCalls c) \<and> map_of (rcCancellations c) (ckKey (rcCalls c ! i)) = Some i"
proof -
  from assms have d: "distinct (map fst (rcPending c))" "distinct (map fst (rcCancellations c))"
    by (simp_all add: callerInv_def distinctTables_def)
  have entry: "i \<in> snd ` set m \<longleftrightarrow> (\<exists>k. map_of m k = Some i)" if "distinct (map fst m)" for m :: "(nat \<times> nat) list"
    using that by (force simp: image_iff)
  show "i \<in> snd ` set (rcPending c) \<longleftrightarrow> i < length (rcCalls c) \<and> map_of (rcPending c) (ckKey (rcCalls c ! i)) = Some i"
    unfolding entry [OF d(1)] using pending_call [OF assms] by blast
  show "i \<in> snd ` set (rcCancellations c) \<longleftrightarrow> i < length (rcCalls c) \<and> map_of (rcCancellations c) (ckKey (rcCalls c ! i)) = Some i"
    unfolding entry [OF d(2)] using cancellation_call [OF assms] by blast
qed

lemma return_all:
  assumes "\<forall>i \<in> set is. i < length (rcCalls c)"
  shows "length (rcCalls (fold (\<lambda>i. abandonReturns i o') is c)) = length (rcCalls c)"
    and "j < length (rcCalls c) \<Longrightarrow> rcCalls (fold (\<lambda>i. abandonReturns i o') is c) ! j =
      (if j \<in> set is then (rcCalls c ! j)\<lparr>ckIter := abandonSettled (Inr o') (ckIter (rcCalls c ! j)), ckAbandon := AbandonReturned\<rparr>
       else rcCalls c ! j)"
    and "rcPending (fold (\<lambda>i. abandonReturns i o') is c) = rcPending c" "rcAbandoned (fold (\<lambda>i. abandonReturns i o') is c) = rcAbandoned c"
    and "rcReleased (fold (\<lambda>i. abandonReturns i o') is c) = rcReleased c"
proof -
  have idem: "abandonSettled (Inr o') (abandonSettled (Inr o') it) = abandonSettled (Inr o') it" for it :: "responseFrame rpcIterator"
    by (simp add: abandonSettled_def settleCancellation_def)
  have "length (rcCalls (fold (\<lambda>i. abandonReturns i o') is c)) = length (rcCalls c) \<and>
    (\<forall>j < length (rcCalls c). rcCalls (fold (\<lambda>i. abandonReturns i o') is c) ! j =
      (if j \<in> set is then (rcCalls c ! j)\<lparr>ckIter := abandonSettled (Inr o') (ckIter (rcCalls c ! j)), ckAbandon := AbandonReturned\<rparr>
       else rcCalls c ! j)) \<and>
    rcPending (fold (\<lambda>i. abandonReturns i o') is c) = rcPending c \<and> rcAbandoned (fold (\<lambda>i. abandonReturns i o') is c) = rcAbandoned c \<and>
    rcReleased (fold (\<lambda>i. abandonReturns i o') is c) = rcReleased c"
    using assms
  proof (induction "is" arbitrary: c)
    case (Cons i "is")
    then have "\<forall>j \<in> set is. j < length (rcCalls (abandonReturns i o' c))" by (simp add: abandonReturns_def)
    note IH = Cons.IH [OF this]
    have "rcCalls (abandonReturns i o' c) ! j = (if j = i then (rcCalls c ! i)\<lparr>ckIter := abandonSettled (Inr o') (ckIter (rcCalls c ! i)), ckAbandon := AbandonReturned\<rparr> else rcCalls c ! j)" for j
      using Cons.prems by (auto simp: abandonReturns_def)
    with IH show ?case by (auto simp: idem abandonReturns_def)
  qed simp
  then show "length (rcCalls (fold (\<lambda>i. abandonReturns i o') is c)) = length (rcCalls c)"
    and "j < length (rcCalls c) \<Longrightarrow> rcCalls (fold (\<lambda>i. abandonReturns i o') is c) ! j =
      (if j \<in> set is then (rcCalls c ! j)\<lparr>ckIter := abandonSettled (Inr o') (ckIter (rcCalls c ! j)), ckAbandon := AbandonReturned\<rparr>
       else rcCalls c ! j)"
    and "rcPending (fold (\<lambda>i. abandonReturns i o') is c) = rcPending c" "rcAbandoned (fold (\<lambda>i. abandonReturns i o') is c) = rcAbandoned c"
    and "rcReleased (fold (\<lambda>i. abandonReturns i o') is c) = rcReleased c"
    by blast+
qed

text \<open>After a disconnect no table has an entry, every call is over and every cancellation that waited has its outcome.\<close>

lemma disconnected_facts:
  assumes inv: "callerInv c"
  shows "callerInv (callsDisconnected c)"
    and "rcPending (callsDisconnected c) = []" and "rcCancellations (callsDisconnected c) = []"
    and "length (rcCalls (callsDisconnected c)) = length (rcCalls c)"
    and "\<forall>i < length (rcCalls c). riDone (ckIter (rcCalls (callsDisconnected c) ! i)) \<and> ckAbandon (rcCalls (callsDisconnected c) ! i) \<noteq> AwaitsOutcome"
proof -
  let ?is = "map snd (rcPending c)" and ?qs = "map snd (rcCancellations c)"
  let ?c1 = "fold (failPending ConnectionError) ?is c"
  let ?c2 = "?c1\<lparr>rcPending := [], rcAbandoned := {}\<rparr>"
  have "\<forall>i \<in> set ?is. i < length (rcCalls c)" using table_entries(1) [OF inv] by auto
  note F = fail_all [OF inv this, of ConnectionError]
  have pend: "j \<in> set ?is" if "j < length (rcCalls c)" "\<not> riDone (ckIter (rcCalls c ! j))" for j
    using that okD(1) [OF inv that(1)] table_entries(1) [OF inv, of j] by (auto simp: okAt_defs)
  then have all_done: "riDone (ckIter (rcCalls ?c1 ! j))" if "j < length (rcCalls c)" for j using F that by blast
  have q: "rcCancellations ?c1 = rcCancellations c" and len: "length (rcCalls ?c1) = length (rcCalls c)" and inv1: "callerInv ?c1"
    using F by blast+
  have inv2: "callerInv ?c2"
    using inv1 all_done len by (auto simp: callerInv_def okAt_defs)
  have qs: "\<forall>i \<in> set ?qs. i < length (rcCalls ?c2)" using table_entries(2) [OF inv2] q by auto
  note R = return_all [OF qs, where o' = ConnectionClosed]
  let ?c3 = "fold (\<lambda>i. abandonReturns i ConnectionClosed) ?qs ?c2"
  have c3: "callsDisconnected c = ?c3\<lparr>rcCancellations := []\<rparr>" by (simp add: callsDisconnected_def Let_def q)
  have waits: "j \<in> set ?qs \<longleftrightarrow> ckAbandon (rcCalls ?c2 ! j) = AwaitsOutcome" if "j < length (rcCalls c)" for j
    using okD(1) [OF inv2, of j] table_entries(2) [OF inv2, of j] that len q by (auto simp: okAt_defs)
  have keys: "keysOf ?c3 = keysOf ?c2"
    by (rule nth_equalityI) (use R(1) R(2) in \<open>simp_all add: keysOf_nth\<close>)
  have ok3: "callOkAt (?c3\<lparr>rcCancellations := []\<rparr>) j" if "j < length (rcCalls c)" for j
  proof -
    from okD(1) [OF inv2, of j] that len have ok: "callOkAt ?c2 j" by simp
    show ?thesis
    proof (cases "j \<in> set ?qs")
      case True
      with waits [OF that] ok have "riCancellationRequested (ckIter (rcCalls ?c2 ! j))" by (simp add: okAt_defs)
      moreover have "iterInv (abandonSettled (Inr ConnectionClosed) (ckIter (rcCalls ?c2 ! j)))"
        using ok calculation by (auto simp: okAt_defs intro: abandoned_iter)
      ultimately show ?thesis using ok True R(2) [of j] R(3,4,5) that len by (auto simp: okAt_defs)
    next
      case False
      with waits [OF that] ok R(2) [of j] R(3,4,5) that len show ?thesis by (auto simp: okAt_defs)
    qed
  qed
  show "callerInv (callsDisconnected c)"
    using inv2 keys ok3 R(1,3,4,5) len by (simp add: c3 callerInv_def distinctTables_def)
  show "rcPending (callsDisconnected c) = []" "rcCancellations (callsDisconnected c) = []" "length (rcCalls (callsDisconnected c)) = length (rcCalls c)"
    using R(1,3) len by (simp_all add: c3)
  show "\<forall>i < length (rcCalls c). riDone (ckIter (rcCalls (callsDisconnected c) ! i)) \<and> ckAbandon (rcCalls (callsDisconnected c) ! i) \<noteq> AwaitsOutcome"
    using R(2) waits all_done len by (auto simp: c3)
qed

lemma callStep_inv: "callStep c e c' \<Longrightarrow> callerInv c \<Longrightarrow> callerInv c'"
  by (induction rule: callStep.induct)
    (auto simp: cancellationSendFailed_def cancellationTimedOut_def cancellationAnswered_def responseReceived_def
       intro: call_inv rpcRequestSettled_inv touch_call_inv resumes_inv settle_cancellation_inv response_inv disconnected_facts(1) split: sum.split)

interpretation rpcCalls: machine newCaller callStep callerInv
  by unfold_locales (simp add: newCaller_def callerInv_def distinctTables_def keysOf_def, rule callStep_inv)

section \<open>Properties\<close>

text \<open>
  C27: every call is accounted for. A call that is not over is registered under its key, so that its responses and a disconnect reach it; its
  identifier goes back to the pool at most once, only after it is over and never when it was
  cancelled; and a cancellation that has no outcome yet waits for the send of its
  request or has an entry with an armed timer. A disconnect ends every call, empties the tables and settles
  every cancellation that waited for the broker.
\<close>

theorem calls_are_accounted_for:
  assumes "reachable callStep newCaller c" and "i < length (rcCalls c)"
  shows "let a = rcCalls c ! i; it = ckIter a; c' = callsDisconnected c in
    (\<not> riDone it \<longrightarrow> map_of (rcPending c) (ckKey a) = Some i) \<and>
    (ckKey a \<in> set (rcReleased c) \<longrightarrow> riDone it \<and> \<not> riCancellationRequested it \<and> map_of (rcPending c) (ckKey a) = None) \<and>
    distinct (rcReleased c) \<and>
    (riCancellationRequested it \<and> riCancellation it = None \<longrightarrow>
       ckAbandon a = AwaitsRequestSent \<or> map_of (rcCancellations c) (ckKey a) = Some i) \<and>
    riDone (ckIter (rcCalls c' ! i)) \<and> ckAbandon (rcCalls c' ! i) \<noteq> AwaitsOutcome \<and> rcPending c' = [] \<and> rcCancellations c' = []"
proof -
  have inv: "callerInv c" by (rule rpcCalls.reachable_inv [OF assms(1)])
  have "distinct (rcReleased c)" using inv by (simp add: callerInv_def distinctTables_def)
  moreover note okD(1) [OF inv assms(2)]
  ultimately show ?thesis
    using disconnected_facts(2,3,5) [OF inv] assms(2)
    by (cases "ckAbandon (rcCalls c ! i)") (auto simp: okAt_defs)
qed

lemma rpc_route: "assertRpcRoute (js ''rpc://a'') = Inr ()"
  by (simp add: assertRpcRoute_def isConcreteRouteShape_eq isRouteShape_segments route_eval)

lemma zero_key: "correlationIdToKey (replicate 16 0) = Inr 0"
proof -
  have "unbe (replicate n 0) = 0" for n by (induction n) (simp_all add: unbe_def)
  then show ?thesis by (simp add: correlationIdToKey_def readU128BEAt_def readU32BEAt_def)
qed

theorem calls_are_accounted_for_witness:
  "\<exists>c. reachable callStep newCaller c \<and> length (rcCalls c) = 1 \<and> map_of (rcPending c) 0 = Some 0 \<and>
     riDone (ckIter (rcCalls (callsDisconnected c) ! 0))"
proof -
  let ?c = "snd (callRpc True (Some (replicate 16 0)) (js ''rpc://a'') [] None 0 None newCaller)"
  have r: "reachable callStep newCaller ?c"
    by (rule reachable_step [where step = callStep, OF reachable_start call_started]) (simp add: freshRandom_def newCaller_def split: sum.split)
  have "validateCallTimeout (JInt 30000) = Inr ()" by (simp add: validateCallTimeout_def MAX_RPC_BUDGET_MS_def jsInt_def)
  then have "?c = startCall 0 (replicate 16 0) None newCaller"
    by (simp only: callRpc_def rpc_route acquirePooledCorrelationId_def secureRandomValues_def zero_key Let_def
        option.case sum.case prod.case andThen_Inr snd_conv) (simp add: newCaller_def)
  then have l: "length (rcCalls ?c) = 1" "ckKey (rcCalls ?c ! 0) = 0" "\<not> riDone (ckIter (rcCalls ?c ! 0))"
    by (simp_all add: startCall_def newCaller_def)
  with calls_are_accounted_for [OF r, of 0] have "map_of (rcPending ?c) 0 = Some 0" "riDone (ckIter (rcCalls (callsDisconnected ?c) ! 0))"
    by (simp_all add: Let_def)
  with r l show ?thesis by blast
qed

end
