(* ===== verification/RpcWorker.thy ===== *)
theory RpcWorker
  imports RpcCalls Writer
begin

text \<open>
  The serving side of \<^verbatim>\<open>domains/rpc/client.ts\<close>: which worker handles an inbound request, the writer a handler answers with, and
  the life of an invocation from its dispatch to the acknowledgement of its cleanup. The decision of
  the async dispatcher, the settlement of a send and of a handler, and the timer are events.
\<close>

section \<open>Choosing the worker\<close>

text \<open>The comparison of two JavaScript strings by their code units.\<close>

fun jsLess :: "jsstr \<Rightarrow> jsstr \<Rightarrow> bool" where
  "jsLess s [] = False"
| "jsLess [] (c # t) = True"
| "jsLess (b # s) (c # t) = (b < c \<or> (b = c \<and> jsLess s t))"

definition rpcPatternSpecificity :: "jsstr \<Rightarrow> nat \<times> nat \<times> nat \<times> nat" where
  "rpcPatternSpecificity pat =
    (let start = (case indexOf pat (js ''://'') of None \<Rightarrow> 2 | Some i \<Rightarrow> i + 3);
         segments = splitSlash (drop start pat);
         single = length (filter (\<lambda>s. s = [asterisk]) segments);
         double = length (filter (\<lambda>s. s = [asterisk, asterisk]) segments)
     in (length segments - single - double, single, double, length segments))"

fun moreSpecificScore :: "nat \<times> nat \<times> nat \<times> nat \<Rightarrow> nat \<times> nat \<times> nat \<times> nat \<Rightarrow> bool option" where
  "moreSpecificScore (l, s, d, n) (l', s', d', n') =
    (if l \<noteq> l' then Some (l > l') else if s \<noteq> s' then Some (s > s') else if d \<noteq> d' then Some (d < d')
     else if n \<noteq> n' then Some (n > n') else None)"

definition isMoreSpecificRpcPattern :: "jsstr \<Rightarrow> jsstr \<Rightarrow> bool" where
  "isMoreSpecificRpcPattern candidate current =
    (case moreSpecificScore (rpcPatternSpecificity candidate) (rpcPatternSpecificity current) of
       Some r \<Rightarrow> r
     | None \<Rightarrow> jsLess candidate current)"

text \<open>The loop over the registered patterns, in the order of the map, with the pattern selected so far.\<close>

definition selectStep :: "jsstr \<Rightarrow> jsstr \<times> 'w \<Rightarrow> (jsstr \<times> 'w) option \<Rightarrow> (jsstr \<times> 'w) option" where
  "selectStep route entry selected =
    (if routeMatchesPattern route (fst entry) \<and>
        (case selected of None \<Rightarrow> True | Some (p, _) \<Rightarrow> isMoreSpecificRpcPattern (fst entry) p)
     then Some entry else selected)"

definition selectWorker :: "jsstr \<Rightarrow> (jsstr \<times> 'w) list \<Rightarrow> 'w option" where
  "selectWorker route workers =
    (case map_of workers route of
       Some w \<Rightarrow> Some w
     | None \<Rightarrow> map_option snd (fold (selectStep route) workers None))"

lemma jsLess_irrefl: "\<not> jsLess s s"
  by (induction s) simp_all

lemma jsLess_trans: "jsLess s t \<Longrightarrow> jsLess t u \<Longrightarrow> jsLess s u"
proof (induction s t arbitrary: u rule: jsLess.induct)
  case (2 c t)
  then show ?case by (cases u) simp_all
next
  case (3 b s c t)
  then show ?case by (cases u) (auto dest: less_trans)
qed simp

lemma jsLess_total: "s \<noteq> t \<Longrightarrow> jsLess s t \<or> jsLess t s"
  by (induction s t rule: jsLess.induct) (auto elim: jsLess.elims(2) simp: neq_Nil_conv)

lemma moreSpecific_total: "p \<noteq> q \<Longrightarrow> isMoreSpecificRpcPattern p q \<or> isMoreSpecificRpcPattern q p"
  using jsLess_total
  by (cases "rpcPatternSpecificity p"; cases "rpcPatternSpecificity q") (auto simp: isMoreSpecificRpcPattern_def)

lemma moreSpecific_irrefl: "\<not> isMoreSpecificRpcPattern p p"
  by (cases "rpcPatternSpecificity p") (simp add: isMoreSpecificRpcPattern_def jsLess_irrefl)

lemma moreSpecific_trans:
  assumes "isMoreSpecificRpcPattern p q" and "isMoreSpecificRpcPattern q r"
  shows "isMoreSpecificRpcPattern p r"
  using assms jsLess_trans
  by (cases "rpcPatternSpecificity p"; cases "rpcPatternSpecificity q"; cases "rpcPatternSpecificity r")
    (auto simp: isMoreSpecificRpcPattern_def split: if_splits)

lemma moreSpecific_asym: "isMoreSpecificRpcPattern p q \<Longrightarrow> \<not> isMoreSpecificRpcPattern q p"
  using moreSpecific_trans moreSpecific_irrefl by blast

text \<open>The selected entry matches, and no matching entry of another pattern is more specific.\<close>

definition bestOf :: "jsstr \<Rightarrow> (jsstr \<times> 'w) set \<Rightarrow> (jsstr \<times> 'w) option \<Rightarrow> bool" where
  "bestOf route es selected \<longleftrightarrow>
    (case selected of
       None \<Rightarrow> \<not> (\<exists>e \<in> es. routeMatchesPattern route (fst e))
     | Some b \<Rightarrow> b \<in> es \<and> routeMatchesPattern route (fst b) \<and>
         (\<forall>e \<in> es. routeMatchesPattern route (fst e) \<longrightarrow> fst e = fst b \<or> isMoreSpecificRpcPattern (fst b) (fst e)))"

lemma bestOf_step:
  assumes "bestOf route es selected"
  shows "bestOf route (insert e es) (selectStep route e selected)"
proof (cases "routeMatchesPattern route (fst e)")
  case True
  then show ?thesis
  proof (cases selected)
    case None
    with True assms show ?thesis by (auto simp: bestOf_def selectStep_def)
  next
    case (Some b)
    show ?thesis
    proof (cases "isMoreSpecificRpcPattern (fst e) (fst b)")
      case True': True
      have "fst e' = fst e \<or> isMoreSpecificRpcPattern (fst e) (fst e')" if "e' \<in> es" "routeMatchesPattern route (fst e')" for e'
        using that assms Some True' moreSpecific_trans [OF True'] by (auto simp: bestOf_def)
      with True True' Some show ?thesis by (auto simp: bestOf_def selectStep_def split: prod.splits)
    next
      case False
      then have "fst e = fst b \<or> isMoreSpecificRpcPattern (fst b) (fst e)" using moreSpecific_total by blast
      with False Some assms show ?thesis by (auto simp: bestOf_def selectStep_def split: prod.splits)
    qed
  qed
qed (use assms in \<open>auto simp: bestOf_def selectStep_def split: option.splits\<close>)

lemma bestOf_fold: "bestOf route es selected \<Longrightarrow> bestOf route (es \<union> set ws) (fold (selectStep route) ws selected)"
proof (induction ws arbitrary: es selected)
  case (Cons w ws)
  from Cons.IH [OF bestOf_step [OF Cons.prems, of w]] show ?case by simp
qed simp

lemma bestOf_unique:
  assumes "bestOf route es a" and "bestOf route es b" and "inj_on fst es"
  shows "a = b"
proof (cases a)
  case None
  with assms(1,2) show ?thesis by (cases b) (auto simp: bestOf_def)
next
  case (Some x)
  with assms(1,2) obtain y where y: "b = Some y" by (cases b) (auto simp: bestOf_def)
  from assms(1,2) Some y have "x \<in> es" "y \<in> es" "fst y = fst x \<or> isMoreSpecificRpcPattern (fst x) (fst y)"
      "fst x = fst y \<or> isMoreSpecificRpcPattern (fst y) (fst x)"
    by (auto simp: bestOf_def)
  with moreSpecific_asym have "fst x = fst y" by metis
  with \<open>x \<in> es\<close> \<open>y \<in> es\<close> assms(3) Some y show ?thesis by (auto dest: inj_onD)
qed

section \<open>Error bodies\<close>

definition rpcErrorMetadata :: "nat \<Rightarrow> nat \<times> nat" where
  "rpcErrorMetadata code =
    (if code = 6005 then (5, 0) else if code = 6007 then (7, 1) else if code = 6006 then (6, 1)
     else if code = 6001 \<or> code = 6055 then (1, 0) else if code = 6050 then (9, 1)
     else if code = 6051 \<or> code = 6052 then (9, 0) else (8, 0))"

definition encodeRpcErrorBody :: "nat \<Rightarrow> jsstr \<Rightarrow> bytes result" where
  "encodeRpcErrorBody code msg =
    (let (errorClass, effect) = rpcErrorMetadata code in
     andThen (writeU8 1 (createBufferWriter 64)) (\<lambda>w.
     andThen (writeU16BE (int code) w) (\<lambda>w.
     andThen (writeU8 (int errorClass) w) (\<lambda>w.
     andThen (writeU8 (int effect) w) (\<lambda>w.
     andThen (writeString msg w) (\<lambda>w. Inr (getBuffer w)))))))"

lemma rpcErrorMetadata_bounds: "fst (rpcErrorMetadata code) \<le> 10" "snd (rpcErrorMetadata code) \<le> 2"
  by (simp_all add: rpcErrorMetadata_def)

lemma encodeRpcErrorBody_layout:
  "encodeRpcErrorBody code msg =
     Inr (be 1 1 @ be 2 (int code) @ be 1 (int (fst (rpcErrorMetadata code))) @ be 1 (int (snd (rpcErrorMetadata code))) @ strField msg)"
proof -
  have "appends (\<lambda>w. andThen (writeU8 1 w) (\<lambda>w. andThen (writeU16BE (int code) w) (\<lambda>w.
      andThen (writeU8 (int (fst (rpcErrorMetadata code))) w) (\<lambda>w.
      andThen (writeU8 (int (snd (rpcErrorMetadata code))) w) (\<lambda>w. writeString msg w)))))
    (be 1 1 @ be 2 (int code) @ be 1 (int (fst (rpcErrorMetadata code))) @ be 1 (int (snd (rpcErrorMetadata code))) @ strField msg)"
    by (intro appends_seq appends_rules)
  from appends_run [OF this, of 64] show ?thesis
    by (cases "rpcErrorMetadata code") (simp add: encodeRpcErrorBody_def andThen_assoc)
qed

section \<open>The response writer\<close>

text \<open>
  The frames handed to the connection are kept with their sequence number and end flag, those whose send
  has not settled yet in \<open>rwInFlight\<close> by their position.
\<close>

record rpcWriter =
  rwId :: bytes
  rwSequence :: nat
  rwStale :: bool
  rwEnded :: bool
  rwBenign :: bool
  rwListening :: bool
  rwFrames :: "(nat \<times> bool \<times> bytes) list"
  rwInFlight :: "nat list"

definition createRpcResponseWriter :: "bytes \<Rightarrow> rpcWriter" where
  "createRpcResponseWriter correlationId =
    \<lparr>rwId = correlationId, rwSequence = 0, rwStale = False, rwEnded = False, rwBenign = False, rwListening = True,
     rwFrames = [], rwInFlight = []\<rparr>"

definition disposeWriter :: "rpcWriter \<Rightarrow> rpcWriter" where
  "disposeWriter w = (if rwStale w then w else w\<lparr>rwStale := True, rwListening := False\<rparr>)"

definition writerDisconnected :: "rpcWriter \<Rightarrow> rpcWriter" where
  "writerDisconnected w = (if rwListening w then disposeWriter (w\<lparr>rwBenign := True\<rparr>) else w)"

definition writerSend :: "bytes \<Rightarrow> bool \<Rightarrow> rpcWriter \<Rightarrow> unit result \<times> rpcWriter" where
  "writerSend body isEnd w =
    (if rwStale w then (Inl ConnectionError, w)
     else (let n = rwSequence w; w = w\<lparr>rwSequence := n + 1\<rparr> in
       case rpcEncodeResponse (rwId w) (int n) body isEnd of
         Inl e \<Rightarrow> (Inl e, w)
       | Inr payload \<Rightarrow>
           (Inr (), w\<lparr>rwFrames := rwFrames w @ [(n, isEnd, payload)], rwInFlight := rwInFlight w @ [length (rwFrames w)]\<rparr>)))"

text \<open>
  Whether an error only says that the connection is going away. The state of the connection and the test of the message of
  a transport error against \<^verbatim>\<open>/closed|not connected|reset/i\<close> are arguments.
\<close>

definition isBenignShutdownError :: "connectionState \<Rightarrow> (jserror \<Rightarrow> bool) \<Rightarrow> jserror \<Rightarrow> bool" where
  "isBenignShutdownError st closedMessage e \<longleftrightarrow>
    st \<noteq> Authenticated \<or> ekind e = ConnectionErrorK \<or> (ekind e = TransportErrorK \<and> closedMessage e)"

text \<open>The send of frame \<open>k\<close> has settled; the result is what the caller of \<^verbatim>\<open>write\<close> or \<^verbatim>\<open>end\<close> sees.\<close>

definition writerSettled :: "(jserror \<Rightarrow> bool) \<Rightarrow> nat \<Rightarrow> unit result \<Rightarrow> rpcWriter \<Rightarrow> unit result \<times> rpcWriter" where
  "writerSettled benign k r w =
    (let w = w\<lparr>rwInFlight := removeAll k (rwInFlight w)\<rparr> in
     case r of
       Inr _ \<Rightarrow> (Inr (), if fst (snd (rwFrames w ! k)) then disposeWriter (w\<lparr>rwEnded := True\<rparr>) else w)
     | Inl e \<Rightarrow> if benign e then (Inr (), disposeWriter (w\<lparr>rwBenign := True\<rparr>)) else (Inl e, w))"

definition needsTerminalWarning :: "rpcWriter \<Rightarrow> bool" where
  "needsTerminalWarning w \<longleftrightarrow> \<not> rwEnded w \<and> \<not> rwBenign w"

datatype writerEvent = WrSend bytes bool | WrSettled nat "unit result" | WrDispose | WrDisconnected

inductive writerStep :: "rpcWriter \<Rightarrow> writerEvent \<Rightarrow> rpcWriter \<Rightarrow> bool" where
  wr_send: "writerStep w (WrSend body isEnd) (snd (writerSend body isEnd w))"
| wr_settled: "k \<in> set (rwInFlight w) \<Longrightarrow> writerStep w (WrSettled k r) (snd (writerSettled benign k r w))"
| wr_dispose: "writerStep w WrDispose (disposeWriter w)"
| wr_disconnected: "writerStep w WrDisconnected (writerDisconnected w)"

definition writerInv :: "rpcWriter \<Rightarrow> bool" where
  "writerInv w \<longleftrightarrow> rwListening w = (\<not> rwStale w) \<and> (rwEnded w \<or> rwBenign w \<longrightarrow> rwStale w) \<and>
     (\<forall>k \<in> set (rwInFlight w). k < length (rwFrames w)) \<and>
     sorted_wrt (<) (map fst (rwFrames w)) \<and> (\<forall>f \<in> set (rwFrames w). fst f < rwSequence w) \<and>
     (length (rwId w) = 16 \<longrightarrow> map fst (rwFrames w) = [0 ..< rwSequence w])"

lemma rpcEncodeResponse_ok: "length cid = 16 \<Longrightarrow> rpcEncodeResponse cid n body m \<noteq> Inl e"
  by (simp add: rpcEncodeResponse_layout)

lemma writerStep_inv: "writerStep w e w' \<Longrightarrow> writerInv w \<Longrightarrow> writerInv w'"
  by (induction rule: writerStep.induct)
    (auto simp: writerInv_def writerSend_def writerSettled_def disposeWriter_def writerDisconnected_def sorted_wrt_append rpcEncodeResponse_ok Let_def
      split: sum.splits)

section \<open>Properties of choice and writer\<close>

text \<open>
  C28: the worker of a request does not depend on the order in which the workers registered: the worker registered under the route itself is
  chosen, and otherwise the one with the most specific pattern that matches.
\<close>

theorem worker_choice_ignores_order:
  assumes "set ws' = set ws" and "distinct (map fst ws)" and "distinct (map fst ws')"
  shows "selectWorker route ws' = selectWorker route ws \<and>
    (\<forall>h. (route, h) \<in> set ws \<longrightarrow> selectWorker route ws = Some h) \<and>
    (map_of ws route = None \<longrightarrow>
      (case selectWorker route ws of
         None \<Rightarrow> \<not> (\<exists>e \<in> set ws. routeMatchesPattern route (fst e))
       | Some h \<Rightarrow> \<exists>p. (p, h) \<in> set ws \<and> routeMatchesPattern route p \<and>
           (\<forall>e \<in> set ws. routeMatchesPattern route (fst e) \<longrightarrow> fst e = p \<or> isMoreSpecificRpcPattern p (fst e))))"
proof -
  have "bestOf route {} None" by (simp add: bestOf_def)
  then have b: "bestOf route (set us) (fold (selectStep route) us None)" for us :: "(jsstr \<times> 'w) list"
    using bestOf_fold [of route "{}" None us] by simp
  have "fold (selectStep route) ws' None = fold (selectStep route) ws None"
    using bestOf_unique [OF b [of ws', unfolded assms(1)] b [of ws]] assms(2) by (simp add: distinct_map)
  moreover have "map_of ws' route = map_of ws route"
    using assms by (metis map_of_eqI map_of_inject_set dom_map_of_conv_image_fst)
  moreover have "selectWorker route ws = Some h" if "(route, h) \<in> set ws" for h
    using that assms(2) by (simp add: selectWorker_def)
  ultimately show ?thesis using b [of ws]
    by (auto simp: selectWorker_def bestOf_def split: option.splits)
qed

theorem worker_choice_ignores_order_witness:
  "selectWorker (js ''rpc://a/b'') [(js ''rpc://a/*'', 1), (js ''rpc://**'', 2 :: nat), (js ''rpc://a/b'', 3)] = Some 3 \<and>
   selectWorker (js ''rpc://a/b'') [(js ''rpc://a/*'', 1), (js ''rpc://**'', 2 :: nat)] =
     selectWorker (js ''rpc://a/b'') [(js ''rpc://**'', 2), (js ''rpc://a/*'', 1)]"
  using worker_choice_ignores_order [of "[(js ''rpc://a/*'', 1), (js ''rpc://**'', 2 :: nat)]" "[(js ''rpc://**'', 2), (js ''rpc://a/*'', 1)]"]
    worker_choice_ignores_order [of _ "[(js ''rpc://a/*'', 1), (js ''rpc://**'', 2 :: nat), (js ''rpc://a/b'', 3)]", OF refl]
  by (auto simp: js_def)

text \<open>
  An error of a worker reaches its caller as it is: the body the worker ends its response with is taken by the caller for that error,
  with the same code, class, effect and message.
\<close>

theorem worker_errors_reach_the_caller:
  assumes "6001 \<le> code" and "code \<le> 6055" and "wireString msg"
  shows "\<exists>body. encodeRpcErrorBody code msg = Inr body \<and>
    tryDecodeTerminalErrorBody body = Some \<lparr>rebCode = code, rebClass = fst (rpcErrorMetadata code),
      rebEffect = snd (rpcErrorMetadata code), rebMessage = msg\<rparr>"
proof -
  let ?m = "rpcErrorMetadata code"
  have "length (be 1 1 @ be 2 (int code) @ be 1 (int (fst ?m)) @ be 1 (int (snd ?m)) @ strField msg) \<ge> 9"
    by (simp add: strField_def)
  moreover have "readU16BE (In p (be 2 (int code) @ t)) = Inr (code, In (p @ be 2 (int code)) t)" for p t
    using assms(2) by (subst readU16BE_be) simp_all
  moreover have "unat (word_of_nat (fst ?m) :: byte) = fst ?m" "unat (word_of_nat (snd ?m) :: byte) = snd ?m"
    using rpcErrorMetadata_bounds [of code] by (simp_all add: unat_of_nat take_bit_nat_eq_self)
  ultimately show ?thesis
    using assms rpcErrorMetadata_bounds [of code]
    by (simp add: encodeRpcErrorBody_layout tryDecodeTerminalErrorBody_def reader_simps del: of_nat_numeral)
qed

theorem worker_errors_reach_the_caller_witness:
  "\<exists>body. encodeRpcErrorBody 6006 [] = Inr body \<and>
    tryDecodeTerminalErrorBody body = Some \<lparr>rebCode = 6006, rebClass = 6, rebEffect = 1, rebMessage = []\<rparr>"
  using worker_errors_reach_the_caller [of 6006 "[]"] by (simp add: rpcErrorMetadata_def)

end
