(* ===== verification/RpcInvocation.thy ===== *)
theory RpcInvocation
  imports RpcWorker
begin

text \<open>
  The invocations of a worker: \<^verbatim>\<open>handleRpcRequest\<close>, the worker half of the lifecycle notifications and the disconnect of
  \<^verbatim>\<open>domains/rpc/client.ts\<close>. The dispatcher's decision, the start of a dispatched task, the settlement of a handler and of
  a send, and the deadline timer are events. Acknowledgements of cleanup are counted in \<open>ivAcks\<close>.
\<close>

section \<open>State\<close>

text \<open>What the task awaits while it ends a response itself.\<close>

datatype endReason = EndsLate | EndsFailed | EndsRejected

datatype invocationPhase = InvQueued | InvHandling | InvEnding endReason nat | InvOver

record 'h invocation =
  ivKey :: nat
  ivId :: bytes
  ivHandler :: 'h
  ivAbort :: "jserror option"
  ivDeadline :: "nat option"
  ivTimer :: bool
  ivCancellationRequested :: bool
  ivStarted :: bool
  ivWriter :: rpcWriter
  ivPhase :: invocationPhase
  ivAcks :: nat

record 'h rpcWorkerState =
  wsWorkers :: "(jsstr \<times> 'h) list"
  wsInvocations :: "'h invocation list"
  wsActive :: "(nat \<times> nat) list"
  wsCancellation :: bool

definition updateInvocation :: "nat \<Rightarrow> ('h invocation \<Rightarrow> 'h invocation) \<Rightarrow> 'h rpcWorkerState \<Rightarrow> 'h rpcWorkerState" where
  "updateInvocation i f s = s\<lparr>wsInvocations := (wsInvocations s)[i := f (wsInvocations s ! i)]\<rparr>"

definition isActive :: "nat \<Rightarrow> 'h rpcWorkerState \<Rightarrow> bool" where
  "isActive i s \<longleftrightarrow> map_of (wsActive s) (ivKey (wsInvocations s ! i)) = Some i"

definition deadlineError :: jserror where
  "deadlineError = RpcError ''TIMEOUT'' (Some 6007)"

section \<open>Operations\<close>

text \<open>\<^verbatim>\<open>abort\<close> of a controller: the first reason stays.\<close>

definition abortInvocation :: "jserror \<Rightarrow> 'h invocation \<Rightarrow> 'h invocation" where
  "abortInvocation e v = (if ivAbort v = None then v\<lparr>ivAbort := Some e\<rparr> else v)"

definition ackCleanup :: "'h invocation \<Rightarrow> 'h invocation" where
  "ackCleanup v = v\<lparr>ivAcks := ivAcks v + 1\<rparr>"

definition dropActive :: "nat \<Rightarrow> 'h rpcWorkerState \<Rightarrow> 'h rpcWorkerState" where
  "dropActive i s =
    (if isActive i s then s\<lparr>wsActive := mapDelete (ivKey (wsInvocations s ! i)) (wsActive s)\<rparr> else s)"

text \<open>The \<^verbatim>\<open>finally\<close> block of the task.\<close>

definition finishInvocation :: "nat \<Rightarrow> 'h rpcWorkerState \<Rightarrow> 'h rpcWorkerState" where
  "finishInvocation i s =
    (let cap = wsCancellation s in
     updateInvocation i (\<lambda>v. (if cap then ackCleanup else id)
        (v\<lparr>ivTimer := False, ivWriter := disposeWriter (ivWriter v), ivPhase := InvOver\<rparr>)) (dropActive i s))"

text \<open>
  The task ends the response with an error body and awaits the send; \<open>k\<close> is the position of the frame. The alternative is what
  happens when \<^verbatim>\<open>end\<close> throws at once.
\<close>

definition endWith ::
  "endReason \<Rightarrow> nat \<Rightarrow> jsstr \<Rightarrow> (jserror \<Rightarrow> 'h rpcWorkerState \<Rightarrow> 'h rpcWorkerState) \<Rightarrow> nat \<Rightarrow> 'h rpcWorkerState \<Rightarrow> 'h rpcWorkerState"
where
  "endWith why code msg onThrow i s =
    (case encodeRpcErrorBody code msg of
       Inl e \<Rightarrow> onThrow e s
     | Inr body \<Rightarrow>
        (let w = ivWriter (wsInvocations s ! i) in
         case writerSend body True w of
           (Inl e, w') \<Rightarrow> onThrow e (updateInvocation i (\<lambda>v. v\<lparr>ivWriter := w'\<rparr>) s)
         | (Inr _, w') \<Rightarrow> updateInvocation i (\<lambda>v. v\<lparr>ivWriter := w', ivPhase := InvEnding why (length (rwFrames w))\<rparr>) s))"

text \<open>The \<^verbatim>\<open>catch\<close> block: the handler, or the answer to a late request, failed.\<close>

definition invocationFailed ::
  "(jserror \<Rightarrow> bool) \<Rightarrow> jserror \<Rightarrow> jsstr \<Rightarrow> nat \<Rightarrow> 'h rpcWorkerState \<Rightarrow> 'h rpcWorkerState" where
  "invocationFailed benign e msg i s =
    (if benign e then finishInvocation i s
     else endWith EndsFailed 6006 (take 512 msg) (\<lambda>_. finishInvocation i) i s)"

definition handleRpcRequest :: "nat \<Rightarrow> bool \<Rightarrow> nat \<Rightarrow> rpcInboundRequest \<Rightarrow> 'h rpcWorkerState \<Rightarrow> 'h rpcWorkerState" where
  "handleRpcRequest now accepted key req s =
    (case selectWorker (riRoute req) (wsWorkers s) of
       None \<Rightarrow> s
     | Some h \<Rightarrow>
        (let i = length (wsInvocations s);
             deadline = map_option (\<lambda>b. now + b) (riRemainingBudgetMs req);
             v = \<lparr>ivKey = key, ivId = riCorrelationId req, ivHandler = h, ivAbort = None, ivDeadline = deadline,
                   ivTimer = (deadline \<noteq> None), ivCancellationRequested = False, ivStarted = False,
                   ivWriter = createRpcResponseWriter (riCorrelationId req), ivPhase = InvQueued, ivAcks = 0\<rparr>;
             s = s\<lparr>wsInvocations := wsInvocations s @ [v], wsActive := mapSet key i (wsActive s)\<rparr>
         in if accepted then s
            else endWith EndsRejected 6005 (js ''Local RPC worker is overloaded'') (\<lambda>_. finishInvocation i) i
              (updateInvocation i (\<lambda>v. v\<lparr>ivTimer := False\<rparr>) (s\<lparr>wsActive := mapDelete key (wsActive s)\<rparr>))))"

definition requestReceived :: "nat \<Rightarrow> bool \<Rightarrow> bytes \<Rightarrow> 'h rpcWorkerState \<Rightarrow> 'h rpcWorkerState" where
  "requestReceived now accepted payload s =
    (case andThen (rpcDecodeInboundRequest payload) (\<lambda>req. andThen (correlationIdToKey (riCorrelationId req)) (\<lambda>key. Inr (key, req))) of
       Inl _ \<Rightarrow> s
     | Inr (key, req) \<Rightarrow> handleRpcRequest now accepted key req s)"

text \<open>The dispatcher starts the task.\<close>

definition runInvocation :: "nat \<Rightarrow> (jserror \<Rightarrow> bool) \<Rightarrow> nat \<Rightarrow> 'h rpcWorkerState \<Rightarrow> 'h rpcWorkerState" where
  "runInvocation now benign i s =
    (let v = wsInvocations s ! i in
     if \<not> isActive i s then updateInvocation i (\<lambda>v. v\<lparr>ivWriter := disposeWriter (ivWriter v), ivPhase := InvOver\<rparr>) s
     else if ivCancellationRequested v then finishInvocation i s
     else (case ivDeadline v of
         Some d \<Rightarrow>
           if d \<le> now then
             (let s = updateInvocation i (abortInvocation deadlineError) s
              in endWith EndsLate 6007 (js ''RPC request deadline elapsed'') (\<lambda>e. invocationFailed benign e (js ''RPC response writer is no longer valid'') i) i s)
           else if ivAbort v \<noteq> None then finishInvocation i s
           else updateInvocation i (\<lambda>v. v\<lparr>ivStarted := True, ivPhase := InvHandling\<rparr>) s
       | None \<Rightarrow>
           if ivAbort v \<noteq> None then finishInvocation i s
           else updateInvocation i (\<lambda>v. v\<lparr>ivStarted := True, ivPhase := InvHandling\<rparr>) s))"

definition handlerSettles :: "(jserror \<Rightarrow> bool) \<Rightarrow> unit result \<Rightarrow> jsstr \<Rightarrow> nat \<Rightarrow> 'h rpcWorkerState \<Rightarrow> 'h rpcWorkerState" where
  "handlerSettles benign r msg i s =
    (case r of Inr _ \<Rightarrow> finishInvocation i s | Inl e \<Rightarrow> invocationFailed benign e msg i s)"

text \<open>The send that the task awaits has settled.\<close>

definition endSettles :: "(jserror \<Rightarrow> bool) \<Rightarrow> unit result \<Rightarrow> jsstr \<Rightarrow> nat \<Rightarrow> 'h rpcWorkerState \<Rightarrow> 'h rpcWorkerState" where
  "endSettles benign r msg i s =
    (case ivPhase (wsInvocations s ! i) of
       InvEnding why k \<Rightarrow>
        (let (r', w) = writerSettled benign k r (ivWriter (wsInvocations s ! i));
             s = updateInvocation i (\<lambda>v. v\<lparr>ivWriter := w\<rparr>) s
         in case r' of
              Inr _ \<Rightarrow> finishInvocation i s
            | Inl e \<Rightarrow> if why = EndsLate then invocationFailed benign e msg i s else finishInvocation i s)
     | _ \<Rightarrow> s)"

definition workerCancelled :: "nat \<Rightarrow> 'h rpcWorkerState \<Rightarrow> 'h rpcWorkerState" where
  "workerCancelled key s =
    (case map_of (wsActive s) key of
       None \<Rightarrow> s
     | Some i \<Rightarrow>
        (let s = updateInvocation i (\<lambda>v. abortInvocation (RpcError ''CANCELLED'' None)
                    (v\<lparr>ivCancellationRequested := True, ivTimer := False\<rparr>)) s
         in if ivStarted (wsInvocations s ! i) then s
            else updateInvocation i ackCleanup (s\<lparr>wsActive := mapDelete key (wsActive s)\<rparr>)))"

definition deadlineFires :: "nat \<Rightarrow> 'h rpcWorkerState \<Rightarrow> 'h rpcWorkerState" where
  "deadlineFires i s = updateInvocation i (\<lambda>v. abortInvocation deadlineError (v\<lparr>ivTimer := False\<rparr>)) s"

text \<open>The disconnect reaches the writers of all invocations and aborts the active ones; the capabilities of the session are gone with it.\<close>

definition invocationsDisconnected :: "'h rpcWorkerState \<Rightarrow> 'h rpcWorkerState" where
  "invocationsDisconnected s =
    (let active = map snd (wsActive s) in
     s\<lparr>wsInvocations :=
         map (\<lambda>(i, v). (if i \<in> set active then abortInvocation ConnectionError (v\<lparr>ivTimer := False\<rparr>) else v)
              \<lparr>ivWriter := writerDisconnected (ivWriter v)\<rparr>) (enumerate 0 (wsInvocations s)),
       wsActive := [], wsCancellation := False\<rparr>)"

text \<open>The handshake of a session has agreed on the capabilities, among them whether cleanup is acknowledged.\<close>

definition sessionAgreed :: "bool \<Rightarrow> 'h rpcWorkerState \<Rightarrow> 'h rpcWorkerState" where
  "sessionAgreed cap s = s\<lparr>wsCancellation := cap\<rparr>"

text \<open>A use of the writer by a handler, which may go on after the handler has settled.\<close>

definition handlerWrites :: "bytes \<Rightarrow> bool \<Rightarrow> nat \<Rightarrow> 'h rpcWorkerState \<Rightarrow> 'h rpcWorkerState" where
  "handlerWrites body isEnd i s = updateInvocation i (\<lambda>v. v\<lparr>ivWriter := snd (writerSend body isEnd (ivWriter v))\<rparr>) s"

definition handlerSendSettles :: "(jserror \<Rightarrow> bool) \<Rightarrow> nat \<Rightarrow> unit result \<Rightarrow> nat \<Rightarrow> 'h rpcWorkerState \<Rightarrow> 'h rpcWorkerState" where
  "handlerSendSettles benign k r i s = updateInvocation i (\<lambda>v. v\<lparr>ivWriter := snd (writerSettled benign k r (ivWriter v))\<rparr>) s"

section \<open>Runs\<close>

datatype invocationEvent = RequestArrives bytes | TaskStarts nat | HandlerSettles nat "unit result" | EndSettles nat "unit result" | WorkerCancelled nat
  | DeadlineFires nat | WorkerDisconnected | SessionAgreed bool | HandlerWrites nat | HandlerSendSettles nat

inductive invocationStep :: "'h rpcWorkerState \<Rightarrow> invocationEvent \<Rightarrow> 'h rpcWorkerState \<Rightarrow> bool" where
  iv_request: "invocationStep s (RequestArrives pl) (requestReceived now accepted pl s)"
| iv_starts: "i < length (wsInvocations s) \<Longrightarrow> ivPhase (wsInvocations s ! i) = InvQueued \<Longrightarrow>
    invocationStep s (TaskStarts i) (runInvocation now benign i s)"
| iv_handler: "i < length (wsInvocations s) \<Longrightarrow> ivPhase (wsInvocations s ! i) = InvHandling \<Longrightarrow>
    invocationStep s (HandlerSettles i r) (handlerSettles benign r msg i s)"
| iv_ended: "i < length (wsInvocations s) \<Longrightarrow> ivPhase (wsInvocations s ! i) = InvEnding why k \<Longrightarrow>
    k \<in> set (rwInFlight (ivWriter (wsInvocations s ! i))) \<Longrightarrow> invocationStep s (EndSettles i r) (endSettles benign r msg i s)"
| iv_cancelled: "invocationStep s (WorkerCancelled key) (workerCancelled key s)"
| iv_deadline: "i < length (wsInvocations s) \<Longrightarrow> ivTimer (wsInvocations s ! i) \<Longrightarrow> invocationStep s (DeadlineFires i) (deadlineFires i s)"
| iv_disconnected: "invocationStep s WorkerDisconnected (invocationsDisconnected s)"
| iv_agreed: "invocationStep s (SessionAgreed cap) (sessionAgreed cap s)"
| iv_writes: "i < length (wsInvocations s) \<Longrightarrow> ivStarted (wsInvocations s ! i) \<Longrightarrow>
    invocationStep s (HandlerWrites i) (handlerWrites body isEnd i s)"
| iv_sent: "i < length (wsInvocations s) \<Longrightarrow> ivStarted (wsInvocations s ! i) \<Longrightarrow> k \<in> set (rwInFlight (ivWriter (wsInvocations s ! i))) \<Longrightarrow>
    invocationStep s (HandlerSendSettles i) (handlerSendSettles benign k r i s)"

definition newWorkerState :: "(jsstr \<times> 'h) list \<Rightarrow> bool \<Rightarrow> 'h rpcWorkerState" where
  "newWorkerState workers cap = \<lparr>wsWorkers = workers, wsInvocations = [], wsActive = [], wsCancellation = cap\<rparr>"

section \<open>Invariant\<close>

definition phaseOk :: "'h invocation \<Rightarrow> bool" where
  "phaseOk v \<longleftrightarrow>
    (case ivPhase v of
       InvQueued \<Rightarrow> \<not> ivStarted v \<and> ivAcks v \<le> 1 \<and> rwFrames (ivWriter v) = []
     | InvHandling \<Rightarrow> ivStarted v \<and> ivAcks v = 0
     | InvEnding why k \<Rightarrow> (ivStarted v \<longrightarrow> ivAcks v = 0) \<and> ivAcks v \<le> 1 \<and> rwFrames (ivWriter v) \<noteq> []
     | InvOver \<Rightarrow> (ivStarted v \<longrightarrow> ivAcks v \<le> 1) \<and> (rwFrames (ivWriter v) = [] \<longrightarrow> ivAcks v \<le> 1) \<and> ivAcks v \<le> 2)"

definition invocationOk :: "'h invocation \<Rightarrow> bool \<Rightarrow> bool" where
  "invocationOk v act \<longleftrightarrow> writerInv (ivWriter v) \<and> phaseOk v \<and> (act \<longrightarrow> ivAcks v = 0 \<and> ivPhase v \<noteq> InvOver)"

definition workerInv :: "'h rpcWorkerState \<Rightarrow> bool" where
  "workerInv s \<longleftrightarrow> (\<forall>k i. map_of (wsActive s) k = Some i \<longrightarrow> i < length (wsInvocations s) \<and> ivKey (wsInvocations s ! i) = k) \<and>
     (\<forall>i < length (wsInvocations s). invocationOk (wsInvocations s ! i) (isActive i s))"

lemma invocationOk_mono: "invocationOk v act \<Longrightarrow> (act' \<Longrightarrow> act) \<Longrightarrow> invocationOk v act'"
  by (auto simp: invocationOk_def)

lemma workerD:
  assumes "workerInv s" and "i < length (wsInvocations s)"
  shows "invocationOk (wsInvocations s ! i) (isActive i s)"
  using assms by (simp add: workerInv_def)

text \<open>An operation on one invocation that removes at most entries of the active ones.\<close>

lemma one_invocation:
  assumes inv: "workerInv s" and i: "i < length (wsInvocations s)"
    and "length (wsInvocations s') = length (wsInvocations s)"
    and other: "\<And>j. j \<noteq> i \<Longrightarrow> wsInvocations s' ! j = wsInvocations s ! j"
    and key: "ivKey (wsInvocations s' ! i) = ivKey (wsInvocations s ! i)"
    and act: "\<And>k j. map_of (wsActive s') k = Some j \<Longrightarrow> map_of (wsActive s) k = Some j"
    and ok: "invocationOk (wsInvocations s' ! i) (isActive i s')"
  shows "workerInv s'"
proof -
  have "ivKey (wsInvocations s' ! j) = ivKey (wsInvocations s ! j)" for j using other key by (cases "j = i") simp_all
  moreover have "isActive j s' \<Longrightarrow> isActive j s" for j using act calculation by (simp add: isActive_def)
  moreover have "invocationOk (wsInvocations s' ! j) (isActive j s')" if "j < length (wsInvocations s')" for j
  proof (cases "j = i")
    case False
    have "invocationOk (wsInvocations s ! j) (isActive j s)" using workerD [OF inv, of j] that assms(3) by simp
    then show ?thesis using False other calculation(2) by (auto intro: invocationOk_mono)
  qed (use ok in simp)
  moreover have "j < length (wsInvocations s') \<and> ivKey (wsInvocations s' ! j) = k" if "map_of (wsActive s') k = Some j" for k j
    using inv act [OF that] assms(3) calculation(1) by (simp add: workerInv_def)
  ultimately show ?thesis by (simp add: workerInv_def)
qed

lemma updateInvocation_fields [simp]:
  "wsActive (updateInvocation i f s) = wsActive s" "wsCancellation (updateInvocation i f s) = wsCancellation s"
  "wsWorkers (updateInvocation i f s) = wsWorkers s" "length (wsInvocations (updateInvocation i f s)) = length (wsInvocations s)"
  "i < length (wsInvocations s) \<Longrightarrow> wsInvocations (updateInvocation i f s) ! i = f (wsInvocations s ! i)"
  "j \<noteq> i \<Longrightarrow> wsInvocations (updateInvocation i f s) ! j = wsInvocations s ! j"
  by (simp_all add: updateInvocation_def)

lemma dropActive_fields [simp]:
  "wsInvocations (dropActive i s) = wsInvocations s" "wsCancellation (dropActive i s) = wsCancellation s" "wsWorkers (dropActive i s) = wsWorkers s"
  by (simp_all add: dropActive_def)

lemma dropActive_sub: "map_of (wsActive (dropActive i s)) k = Some j \<Longrightarrow> map_of (wsActive s) k = Some j"
  by (auto simp: dropActive_def split: if_splits)

lemma not_active_dropped: "\<not> isActive i (dropActive i s)"
  by (auto simp: isActive_def dropActive_def)

lemma active_update [simp]:
  "i < length (wsInvocations s) \<Longrightarrow> ivKey (f (wsInvocations s ! i)) = ivKey (wsInvocations s ! i) \<Longrightarrow>
    isActive i (updateInvocation i f s) = isActive i s"
  by (simp add: isActive_def)

text \<open>The writer's operations keep its invariant and, but for a send, its frames.\<close>

lemma dispose_writer: "writerInv w \<Longrightarrow> writerInv (disposeWriter w)" "rwFrames (disposeWriter w) = rwFrames w"
  by (auto simp: writerInv_def disposeWriter_def)

lemma settled_writer:
  assumes "writerInv w" and "k \<in> set (rwInFlight w)"
  shows "writerInv (snd (writerSettled benign k r w))" and "rwFrames (snd (writerSettled benign k r w)) = rwFrames w"
  using writerStep_inv [OF wr_settled, OF assms(2) assms(1)]
  by (auto simp: writerSettled_def disposeWriter_def Let_def split: sum.splits)

lemma sent_writer:
  assumes "writerInv w"
  shows "writerInv (snd (writerSend body isEnd w))"
    and "fst (writerSend body isEnd w) = Inl e \<Longrightarrow> rwFrames (snd (writerSend body isEnd w)) = rwFrames w"
    and "fst (writerSend body isEnd w) = Inr u \<Longrightarrow> rwFrames (snd (writerSend body isEnd w)) \<noteq> []"
    and "rwFrames w \<noteq> [] \<Longrightarrow> rwFrames (snd (writerSend body isEnd w)) \<noteq> []"
  using writerStep_inv [OF wr_send assms]
  by (auto simp: writerSend_def Let_def split: sum.splits if_splits)

definition mayFinish :: "'h invocation \<Rightarrow> bool" where
  "mayFinish v \<longleftrightarrow> ivPhase v \<noteq> InvOver \<and> (ivStarted v \<longrightarrow> ivAcks v = 0) \<and> ivAcks v \<le> 1 \<and> (rwFrames (ivWriter v) = [] \<longrightarrow> ivAcks v = 0)"

lemma finish_invocation_inv:
  assumes inv: "workerInv s" and i: "i < length (wsInvocations s)" and may: "mayFinish (wsInvocations s ! i)"
  shows "workerInv (finishInvocation i s)"
proof (rule one_invocation [OF inv i])
  have "\<not> isActive i (finishInvocation i s)"
    using not_active_dropped [of i s] i by (simp add: finishInvocation_def isActive_def ackCleanup_def)
  moreover have "writerInv (ivWriter (wsInvocations s ! i))" using workerD [OF inv i] by (simp add: invocationOk_def)
  ultimately show "invocationOk (wsInvocations (finishInvocation i s) ! i) (isActive i (finishInvocation i s))"
    using may i by (auto simp: finishInvocation_def invocationOk_def phaseOk_def ackCleanup_def mayFinish_def dispose_writer)
qed (use i in \<open>auto simp: finishInvocation_def ackCleanup_def dest: dropActive_sub\<close>)

text \<open>An update of one invocation that leaves the active ones alone.\<close>

lemma update_invocation_inv:
  assumes inv: "workerInv s" and i: "i < length (wsInvocations s)"
    and "ivKey (f (wsInvocations s ! i)) = ivKey (wsInvocations s ! i)"
    and "invocationOk (f (wsInvocations s ! i)) (isActive i s)"
  shows "workerInv (updateInvocation i f s)"
  by (rule one_invocation [OF inv i]) (use i assms(3,4) in simp_all)

lemma swap_writer:
  assumes "invocationOk v act" and "writerInv w" and "rwFrames w = rwFrames (ivWriter v)"
  shows "invocationOk (v\<lparr>ivWriter := w\<rparr>) act"
  using assms by (cases "ivPhase v") (simp_all add: invocationOk_def phaseOk_def)

lemma endWith_inv:
  assumes inv: "workerInv s" and i: "i < length (wsInvocations s)" and may: "mayFinish (wsInvocations s ! i)"
    and throws: "\<And>e w. workerInv (updateInvocation i (\<lambda>v. v\<lparr>ivWriter := w\<rparr>) s) \<Longrightarrow> rwFrames w = rwFrames (ivWriter (wsInvocations s ! i)) \<Longrightarrow>
        workerInv (onThrow e (updateInvocation i (\<lambda>v. v\<lparr>ivWriter := w\<rparr>) s))"
  shows "workerInv (endWith why code msg onThrow i s)"
proof -
  let ?w = "ivWriter (wsInvocations s ! i)"
  obtain body where body: "encodeRpcErrorBody code msg = Inr body" by (simp add: encodeRpcErrorBody_layout)
  have ok: "invocationOk (wsInvocations s ! i) (isActive i s)" by (rule workerD [OF inv i])
  then have w: "writerInv ?w" by (simp add: invocationOk_def)
  obtain r w' where send: "writerSend body True ?w = (r, w')" by (cases "writerSend body True ?w")
  show ?thesis
  proof (cases r)
    case (Inl e)
    then have same: "rwFrames w' = rwFrames ?w" and "writerInv w'" using sent_writer [OF w, of body True] send by auto
    then have "workerInv (updateInvocation i (\<lambda>v. v\<lparr>ivWriter := w'\<rparr>) s)"
      using swap_writer [OF ok] same by (intro update_invocation_inv [OF inv i]) simp_all
    from throws [OF this same] Inl body send show ?thesis by (simp add: endWith_def)
  next
    case (Inr u)
    then have "rwFrames w' \<noteq> []" and "writerInv w'" using sent_writer [OF w, of body True] send by auto
    then have "workerInv (updateInvocation i (\<lambda>v. v\<lparr>ivWriter := w', ivPhase := InvEnding why (length (rwFrames ?w))\<rparr>) s)"
      using ok may by (intro update_invocation_inv [OF inv i]) (auto simp: invocationOk_def phaseOk_def mayFinish_def)
    with Inr body send show ?thesis by (simp add: endWith_def)
  qed
qed

lemma mayFinish_active:
  assumes "workerInv s" and "i < length (wsInvocations s)" and "isActive i s"
  shows "mayFinish (wsInvocations s ! i)"
  using workerD [OF assms(1,2)] assms(3) by (simp add: mayFinish_def invocationOk_def)

lemma mayFinish_running:
  assumes "workerInv s" and "i < length (wsInvocations s)"
    and "ivPhase (wsInvocations s ! i) = InvHandling \<or> (\<exists>why k. ivPhase (wsInvocations s ! i) = InvEnding why k)"
  shows "mayFinish (wsInvocations s ! i)"
  using workerD [OF assms(1,2)] assms(3) by (auto simp: mayFinish_def invocationOk_def phaseOk_def)

lemma mayFinish_swap: "mayFinish v \<Longrightarrow> rwFrames w = rwFrames (ivWriter v) \<Longrightarrow> mayFinish (v\<lparr>ivWriter := w\<rparr>)"
  by (simp add: mayFinish_def)

lemma endWith_finish_inv:
  assumes inv: "workerInv s" and i: "i < length (wsInvocations s)" and may: "mayFinish (wsInvocations s ! i)"
  shows "workerInv (endWith why code msg (\<lambda>_. finishInvocation i) i s)"
proof (rule endWith_inv [OF assms])
  fix w assume "workerInv (updateInvocation i (\<lambda>v. v\<lparr>ivWriter := w\<rparr>) s)" "rwFrames w = rwFrames (ivWriter (wsInvocations s ! i))"
  then show "workerInv (finishInvocation i (updateInvocation i (\<lambda>v. v\<lparr>ivWriter := w\<rparr>) s))"
    using i may by (intro finish_invocation_inv) (simp_all add: mayFinish_swap)
qed

lemma failed_inv:
  assumes "workerInv s" and "i < length (wsInvocations s)" and "mayFinish (wsInvocations s ! i)"
  shows "workerInv (invocationFailed benign e msg i s)"
  using assms by (simp add: invocationFailed_def finish_invocation_inv endWith_finish_inv)

lemma endWith_failed_inv:
  assumes inv: "workerInv s" and i: "i < length (wsInvocations s)" and may: "mayFinish (wsInvocations s ! i)"
  shows "workerInv (endWith why code msg (\<lambda>e. invocationFailed benign e msg' i) i s)"
proof (rule endWith_inv [OF assms])
  fix w e assume "workerInv (updateInvocation i (\<lambda>v. v\<lparr>ivWriter := w\<rparr>) s)" "rwFrames w = rwFrames (ivWriter (wsInvocations s ! i))"
  then show "workerInv (invocationFailed benign e msg' i (updateInvocation i (\<lambda>v. v\<lparr>ivWriter := w\<rparr>) s))"
    using i may by (intro failed_inv) (simp_all add: mayFinish_swap)
qed

text \<open>Fields the invariant does not read may change freely.\<close>

lemma abort_fields [simp]:
  "ivKey (abortInvocation e v) = ivKey v" "ivWriter (abortInvocation e v) = ivWriter v" "ivPhase (abortInvocation e v) = ivPhase v"
  "ivAcks (abortInvocation e v) = ivAcks v" "ivStarted (abortInvocation e v) = ivStarted v"
  by (simp_all add: abortInvocation_def)

lemma sameOk:
  assumes "invocationOk v act" and "ivWriter v' = ivWriter v" and "ivPhase v' = ivPhase v" and "ivAcks v' = ivAcks v" and "ivStarted v' = ivStarted v"
  shows "invocationOk v' act"
  using assms by (cases "ivPhase v") (simp_all add: invocationOk_def phaseOk_def)

lemma quiet_inv:
  assumes inv: "workerInv s" and i: "i < length (wsInvocations s)" and "ivKey (f (wsInvocations s ! i)) = ivKey (wsInvocations s ! i)"
    and "ivWriter (f (wsInvocations s ! i)) = ivWriter (wsInvocations s ! i)" and "ivPhase (f (wsInvocations s ! i)) = ivPhase (wsInvocations s ! i)"
    and "ivAcks (f (wsInvocations s ! i)) = ivAcks (wsInvocations s ! i)" and "ivStarted (f (wsInvocations s ! i)) = ivStarted (wsInvocations s ! i)"
  shows "workerInv (updateInvocation i f s)"
  by (rule update_invocation_inv [where f = f, OF inv i assms(3)]) (rule sameOk [OF workerD [OF inv i] assms(4-7)])

lemma run_invocation_inv:
  assumes inv: "workerInv s" and i: "i < length (wsInvocations s)" and q: "ivPhase (wsInvocations s ! i) = InvQueued"
  shows "workerInv (runInvocation now benign i s)"
proof (cases "isActive i s")
  case False
  have "workerInv (updateInvocation i (\<lambda>v. v\<lparr>ivWriter := disposeWriter (ivWriter v), ivPhase := InvOver\<rparr>) s)"
    using workerD [OF inv i] q False
    by (intro update_invocation_inv [OF inv i]) (auto simp: invocationOk_def phaseOk_def dispose_writer)
  with False show ?thesis by (simp add: runInvocation_def)
next
  case True
  note may = mayFinish_active [OF inv i True]
  have fin: "workerInv (finishInvocation i s)" by (rule finish_invocation_inv [OF inv i may])
  let ?s = "updateInvocation i (abortInvocation deadlineError) s"
  have "workerInv ?s" by (rule quiet_inv [OF inv i]) simp_all
  then have late: "workerInv (endWith EndsLate code msg (\<lambda>e. invocationFailed benign e msg' i) i ?s)" for code msg msg'
    using may i by (intro endWith_failed_inv) (simp_all add: mayFinish_def)
  have start: "workerInv (updateInvocation i (\<lambda>v. v\<lparr>ivStarted := True, ivPhase := InvHandling\<rparr>) s)"
    using workerD [OF inv i] True by (intro update_invocation_inv [OF inv i]) (auto simp: invocationOk_def phaseOk_def)
  from True fin late start show ?thesis by (auto simp: runInvocation_def Let_def split: option.split)
qed

lemma ended_inv:
  assumes inv: "workerInv s" and i: "i < length (wsInvocations s)" and e: "ivPhase (wsInvocations s ! i) = InvEnding why k"
    and k: "k \<in> set (rwInFlight (ivWriter (wsInvocations s ! i)))"
  shows "workerInv (endSettles benign r msg i s)"
proof -
  obtain r' w where rw: "writerSettled benign k r (ivWriter (wsInvocations s ! i)) = (r', w)" by force
  have ok: "invocationOk (wsInvocations s ! i) (isActive i s)" by (rule workerD [OF inv i])
  then have "writerInv (ivWriter (wsInvocations s ! i))" by (simp add: invocationOk_def)
  then have w: "writerInv w" "rwFrames w = rwFrames (ivWriter (wsInvocations s ! i))"
    using settled_writer [OF _ k, of benign r] rw by simp_all
  let ?s = "updateInvocation i (\<lambda>v. v\<lparr>ivWriter := w\<rparr>) s"
  have "workerInv ?s" using swap_writer [OF ok w] by (intro update_invocation_inv [OF inv i]) simp_all
  moreover have "mayFinish (wsInvocations ?s ! i)"
    using mayFinish_running [OF inv i] e i w(2) by (simp add: mayFinish_swap)
  ultimately show ?thesis using i
    by (simp add: endSettles_def e rw finish_invocation_inv failed_inv Let_def split: sum.split)
qed

lemma cancelled_inv:
  assumes inv: "workerInv s"
  shows "workerInv (workerCancelled key s)"
proof (cases "map_of (wsActive s) key")
  case (Some i)
  then have i: "i < length (wsInvocations s)" "ivKey (wsInvocations s ! i) = key" using inv by (simp_all add: workerInv_def)
  then have act: "isActive i s" using Some by (simp add: isActive_def)
  let ?f = "\<lambda>v. abortInvocation (RpcError ''CANCELLED'' None) (v\<lparr>ivCancellationRequested := True, ivTimer := False\<rparr>)"
  have s: "workerInv (updateInvocation i ?f s)" by (rule quiet_inv [OF inv i(1)]) simp_all
  let ?s = "updateInvocation i ?f s"
  let ?t = "updateInvocation i ackCleanup (?s\<lparr>wsActive := mapDelete key (wsActive ?s)\<rparr>)"
  have "workerInv ?t" if "\<not> ivStarted (wsInvocations s ! i)"
  proof (rule one_invocation [OF inv i(1)])
    show "invocationOk (wsInvocations ?t ! i) (isActive i ?t)"
      using workerD [OF inv i(1)] act that i
      by (cases "ivPhase (wsInvocations s ! i)") (simp_all add: invocationOk_def phaseOk_def ackCleanup_def isActive_def)
  qed (use i in \<open>auto simp: ackCleanup_def updateInvocation_def split: if_splits\<close>)
  with s i Some show ?thesis by (auto simp: workerCancelled_def Let_def)
qed (simp add: workerCancelled_def inv)

lemma new_writer_inv: "writerInv (createRpcResponseWriter cid)"
  by (simp add: writerInv_def createRpcResponseWriter_def)

lemma append_invocation_inv:
  assumes inv: "workerInv s" and v: "ivKey v = key" "ivWriter v = createRpcResponseWriter cid" "ivPhase v = InvQueued" "ivAcks v = 0" "\<not> ivStarted v"
    and act: "active = mapSet key (length (wsInvocations s)) (wsActive s) \<or>
      active = mapDelete key (mapSet key (length (wsInvocations s)) (wsActive s))"
  shows "workerInv (s\<lparr>wsInvocations := wsInvocations s @ [v], wsActive := active\<rparr>)"
proof -
  let ?s = "s\<lparr>wsInvocations := wsInvocations s @ [v], wsActive := active\<rparr>" and ?n = "length (wsInvocations s)"
  have new: "invocationOk v act'" for act'
    using v by (simp add: invocationOk_def phaseOk_def new_writer_inv) (simp add: createRpcResponseWriter_def)
  have old: "invocationOk (wsInvocations s ! j) (isActive j ?s)" if "j < ?n" for j
    by (rule invocationOk_mono [OF workerD [OF inv that]])
      (use act that in \<open>auto simp: isActive_def nth_append split: if_splits\<close>)
  have "invocationOk (wsInvocations ?s ! j) (isActive j ?s)" if "j < length (wsInvocations ?s)" for j
    using that new old by (cases "j = ?n") (auto simp: nth_append)
  moreover have "j < length (wsInvocations ?s) \<and> ivKey (wsInvocations ?s ! j) = k" if "map_of (wsActive ?s) k = Some j" for k j
    using that act inv v(1) by (auto simp: workerInv_def nth_append split: if_splits)
  ultimately show ?thesis by (simp add: workerInv_def)
qed

lemma request_inv:
  assumes inv: "workerInv s"
  shows "workerInv (handleRpcRequest now accepted key req s)"
proof (cases "selectWorker (riRoute req) (wsWorkers s)")
  case (Some h)
  let ?d = "map_option (\<lambda>b. now + b) (riRemainingBudgetMs req)"
  let ?v = "\<lparr>ivKey = key, ivId = riCorrelationId req, ivHandler = h, ivAbort = None, ivDeadline = ?d, ivTimer = (?d \<noteq> None),
      ivCancellationRequested = False, ivStarted = False, ivWriter = createRpcResponseWriter (riCorrelationId req), ivPhase = InvQueued, ivAcks = 0\<rparr>"
  let ?n = "length (wsInvocations s)"
  let ?s = "\<lambda>active. s\<lparr>wsInvocations := wsInvocations s @ [?v], wsActive := active\<rparr>"
  have acc: "workerInv (?s (mapSet key ?n (wsActive s)))"
    by (rule append_invocation_inv [OF inv, where key = key and cid = "riCorrelationId req"]) simp_all
  have rej: "workerInv (?s (mapDelete key (mapSet key ?n (wsActive s))))"
    by (rule append_invocation_inv [OF inv, where key = key and cid = "riCorrelationId req"]) simp_all
  let ?t = "updateInvocation ?n (\<lambda>v. v\<lparr>ivTimer := False\<rparr>) (?s (mapDelete key (mapSet key ?n (wsActive s))))"
  have t: "workerInv ?t" by (rule quiet_inv [OF rej]) simp_all
  have "workerInv (endWith EndsRejected code msg (\<lambda>_. finishInvocation ?n) ?n ?t)" for code msg
    by (rule endWith_finish_inv [OF t]) (simp_all add: mayFinish_def)
  with acc Some show ?thesis by (simp add: handleRpcRequest_def Let_def)
qed (simp add: handleRpcRequest_def inv)

lemma writer_disconnected: "writerInv w \<Longrightarrow> writerInv (writerDisconnected w)" "rwFrames (writerDisconnected w) = rwFrames w"
  by (auto simp: writerInv_def writerDisconnected_def disposeWriter_def)

lemma invocations_disconnected_inv:
  assumes "workerInv s"
  shows "workerInv (invocationsDisconnected s)"
proof -
  let ?w = "\<lambda>v :: 'a invocation. v\<lparr>ivWriter := writerDisconnected (ivWriter v)\<rparr>"
  have plain: "invocationOk (?w v) False" if "invocationOk v act" for v act
  proof (rule swap_writer)
    show "invocationOk v False" by (rule invocationOk_mono [OF that]) simp
  qed (use that in \<open>simp_all add: invocationOk_def writer_disconnected\<close>)
  have aborted: "invocationOk (?w (abortInvocation ConnectionError (v\<lparr>ivTimer := False\<rparr>))) False"
    if "invocationOk v act" for v act
    by (rule plain [OF sameOk [OF that]]) simp_all
  have "invocationOk (wsInvocations (invocationsDisconnected s) ! i) False" if "i < length (wsInvocations s)" for i
    using plain [OF workerD [OF assms that]] aborted [OF workerD [OF assms that]] that
    by (simp add: invocationsDisconnected_def Let_def nth_enumerate_eq)
  then show ?thesis
    by (simp add: workerInv_def isActive_def) (simp add: invocationsDisconnected_def Let_def)
qed

lemma handler_write_inv:
  assumes inv: "workerInv s" and i: "i < length (wsInvocations s)" and st: "ivStarted (wsInvocations s ! i)"
    and w: "writerInv w" "rwFrames (ivWriter (wsInvocations s ! i)) \<noteq> [] \<longrightarrow> rwFrames w \<noteq> []"
  shows "workerInv (updateInvocation i (\<lambda>v. v\<lparr>ivWriter := w\<rparr>) s)"
  using workerD [OF inv i] st w
  by (intro update_invocation_inv [OF inv i])
    (auto simp: invocationOk_def phaseOk_def split: invocationPhase.splits)

lemma invocationStep_inv: "invocationStep s e s' \<Longrightarrow> workerInv s \<Longrightarrow> workerInv s'"
proof (induction rule: invocationStep.induct)
  case (iv_request s pl now accepted)
  then show ?case by (simp add: requestReceived_def request_inv split: sum.split prod.split)
next
  case (iv_handler i s r benign msg)
  then show ?case
    by (simp add: handlerSettles_def finish_invocation_inv failed_inv mayFinish_running split: sum.split)
next
  case (iv_deadline i s)
  then show ?case unfolding deadlineFires_def by (intro quiet_inv) simp_all
next
  case (iv_writes i s body isEnd)
  then have "writerInv (ivWriter (wsInvocations s ! i))" using workerD by (auto simp: invocationOk_def)
  from handler_write_inv [OF iv_writes(3,1,2), OF sent_writer(1) [OF this]] sent_writer(4) [OF this] iv_writes(1)
  show ?case by (simp add: handlerWrites_def updateInvocation_def)
next
  case (iv_sent i s k benign r)
  then have "writerInv (ivWriter (wsInvocations s ! i))" using workerD by (auto simp: invocationOk_def)
  from handler_write_inv [OF iv_sent(4,1,2), OF settled_writer(1) [OF this iv_sent(3)]] settled_writer(2) [OF this iv_sent(3)] iv_sent(1)
  show ?case by (simp add: handlerSendSettles_def updateInvocation_def)
next
  case (iv_agreed s cap)
  then show ?case by (simp add: sessionAgreed_def workerInv_def isActive_def)
qed (auto intro: run_invocation_inv ended_inv cancelled_inv invocations_disconnected_inv)

interpretation rpcWorker: machine "newWorkerState ws cap" invocationStep workerInv
  by unfold_locales (simp add: newWorkerState_def workerInv_def, rule invocationStep_inv)

section \<open>Acknowledgements of one step\<close>

text \<open>The acknowledgements an invocation sends while it goes from \<open>v\<close> to \<open>v'\<close>: one when it becomes over in a session with cancellation.\<close>

definition acksBy :: "bool \<Rightarrow> 'h invocation \<Rightarrow> 'h invocation \<Rightarrow> bool" where
  "acksBy cap v v' \<longleftrightarrow> ivAcks v' = ivAcks v + (if ivPhase v \<noteq> InvOver \<and> ivPhase v' = InvOver \<and> cap then 1 else 0) \<and>
     (ivPhase v = InvOver \<longrightarrow> ivPhase v' = InvOver)"

lemma acksBy_same: "ivAcks v' = ivAcks v \<Longrightarrow> ivPhase v' = ivPhase v \<Longrightarrow> acksBy cap v v'"
  by (simp add: acksBy_def)

lemma finish_acks:
  assumes "i < length (wsInvocations s)" and "ivPhase (wsInvocations s ! i) \<noteq> InvOver"
  shows "acksBy (wsCancellation s) (wsInvocations s ! i) (wsInvocations (finishInvocation i s) ! i)"
  using assms by (simp add: acksBy_def finishInvocation_def ackCleanup_def Let_def)

lemma finish_others [simp]: "j \<noteq> i \<Longrightarrow> wsInvocations (finishInvocation i s) ! j = wsInvocations s ! j"
  by (simp add: finishInvocation_def Let_def)

lemma endWith_others:
  assumes "j \<noteq> i" and "\<And>e t. wsInvocations (onThrow e t) ! j = wsInvocations t ! j"
  shows "wsInvocations (endWith why code msg onThrow i s) ! j = wsInvocations s ! j"
  using assms by (simp add: endWith_def Let_def split: sum.split prod.split)

lemma endWith_acks:
  assumes i: "i < length (wsInvocations s)" and live: "ivPhase (wsInvocations s ! i) \<noteq> InvOver"
  shows "acksBy (wsCancellation s) (wsInvocations s ! i) (wsInvocations (endWith why code msg (\<lambda>_. finishInvocation i) i s) ! i)"
proof -
  have "acksBy (wsCancellation s) (wsInvocations s ! i) (wsInvocations (finishInvocation i (updateInvocation i (\<lambda>v. v\<lparr>ivWriter := w\<rparr>) s)) ! i)" for w
    using finish_acks [of i "updateInvocation i (\<lambda>v. v\<lparr>ivWriter := w\<rparr>) s"] i live by (simp add: acksBy_def)
  then show ?thesis
    using i live by (simp add: endWith_def encodeRpcErrorBody_layout Let_def split: sum.split prod.split) (simp add: acksBy_def)
qed

lemma failed_acks:
  assumes "i < length (wsInvocations s)" and "ivPhase (wsInvocations s ! i) \<noteq> InvOver"
  shows "acksBy (wsCancellation s) (wsInvocations s ! i) (wsInvocations (invocationFailed benign e msg i s) ! i)"
  using assms by (simp add: invocationFailed_def finish_acks endWith_acks)

lemma failed_others: "j \<noteq> i \<Longrightarrow> wsInvocations (invocationFailed benign e msg i s) ! j = wsInvocations s ! j"
  by (simp add: invocationFailed_def endWith_others)

lemma settles_acks:
  assumes i: "i < length (wsInvocations s)" and e: "ivPhase (wsInvocations s ! i) = InvEnding why k"
  shows "acksBy (wsCancellation s) (wsInvocations s ! i) (wsInvocations (endSettles benign r msg i s) ! i)"
proof -
  obtain r' w where rw: "writerSettled benign k r (ivWriter (wsInvocations s ! i)) = (r', w)" by force
  let ?s = "updateInvocation i (\<lambda>v. v\<lparr>ivWriter := w\<rparr>) s"
  have "acksBy (wsCancellation ?s) (wsInvocations ?s ! i) (wsInvocations (finishInvocation i ?s) ! i)"
    "acksBy (wsCancellation ?s) (wsInvocations ?s ! i) (wsInvocations (invocationFailed benign e msg i ?s) ! i)" for e
    by (rule finish_acks failed_acks; use i e in simp)+
  then show ?thesis using i e by (simp add: endSettles_def rw Let_def acksBy_def split: sum.split)
qed

lemma settles_others: "j \<noteq> i \<Longrightarrow> wsInvocations (endSettles benign r msg i s) ! j = wsInvocations s ! j"
  by (simp add: endSettles_def failed_others Let_def split: invocationPhase.split prod.split sum.split)

lemma request_others:
  assumes "j < length (wsInvocations s)"
  shows "wsInvocations (requestReceived now accepted payload s) ! j = wsInvocations s ! j"
  using assms by (simp add: requestReceived_def handleRpcRequest_def endWith_others nth_append Let_def split: sum.split prod.split option.split)

lemma run_others: "j \<noteq> i \<Longrightarrow> wsInvocations (runInvocation now benign i s) ! j = wsInvocations s ! j"
  by (simp add: runInvocation_def endWith_others failed_others Let_def split: option.split)

lemma cancelled_started:
  assumes "j < length (wsInvocations s)" and "ivStarted (wsInvocations s ! j)" and "workerInv s"
  shows "acksBy cap (wsInvocations s ! j) (wsInvocations (workerCancelled key s) ! j)"
proof (cases "map_of (wsActive s) key")
  case (Some i)
  then have "i < length (wsInvocations s)" using assms(3) by (simp add: workerInv_def)
  then show ?thesis using Some assms(1,2)
    by (cases "j = i") (simp_all add: workerCancelled_def acksBy_same Let_def)
qed (simp add: workerCancelled_def acksBy_same)

lemma disconnected_acks:
  "i < length (wsInvocations s) \<Longrightarrow> acksBy cap (wsInvocations s ! i) (wsInvocations (invocationsDisconnected s) ! i)"
  by (simp add: invocationsDisconnected_def nth_enumerate_eq acksBy_same Let_def)

lemma step_acks:
  assumes "invocationStep s e s'" and "workerInv s" and "j < length (wsInvocations s)" and "ivStarted (wsInvocations s ! j)"
  shows "acksBy (wsCancellation s) (wsInvocations s ! j) (wsInvocations s' ! j)"
  using assms
proof (induction rule: invocationStep.induct)
  case (iv_starts i s now benign)
  then have "j \<noteq> i" using workerD [OF iv_starts(3), of i] by (auto simp: invocationOk_def phaseOk_def)
  then show ?case by (simp add: run_others acksBy_same)
next
  case (iv_handler i s r benign msg)
  then show ?case
    by (cases "j = i") (auto simp: handlerSettles_def finish_acks failed_acks failed_others acksBy_same split: sum.split)
next
  case (iv_ended i s why k r benign msg)
  then show ?case by (cases "j = i") (simp_all add: settles_acks settles_others acksBy_same)
next
  case (iv_deadline i s)
  then show ?case by (cases "j = i") (simp_all add: deadlineFires_def acksBy_same)
next
  case (iv_writes i s body isEnd)
  then show ?case by (cases "j = i") (simp_all add: handlerWrites_def acksBy_same)
next
  case (iv_sent i s k benign r)
  then show ?case by (cases "j = i") (simp_all add: handlerSendSettles_def acksBy_same)
qed (simp_all add: request_others cancelled_started disconnected_acks sessionAgreed_def acksBy_same)

section \<open>Properties\<close>

text \<open>
  C29: cleanup is acknowledged once, in the session in which it happens. An invocation whose handler was started has sent no acknowledgement while it
  runs; the step with which it becomes over sends one exactly if the session of that moment has negotiated cancellation, which after a disconnect is
  not the case until the next handshake; and no later step sends another. An invocation the worker sent no frame for is acknowledged at most once in
  any case. The numbers of the frames a handler sends have no gap, and a confirmed end makes its
  writer unusable.
\<close>

theorem cleanup_is_acknowledged_once:
  assumes "reachable invocationStep (newWorkerState ws cap) s" and "invocationStep s e s'" and "i < length (wsInvocations s)"
  shows "let v = wsInvocations s ! i; v' = wsInvocations s' ! i; w = ivWriter v in
    (ivStarted v \<and> ivPhase v \<noteq> InvOver \<longrightarrow> ivAcks v = 0 \<and> ivAcks v' = (if ivPhase v' = InvOver \<and> wsCancellation s then 1 else 0)) \<and>
    (ivStarted v \<and> ivPhase v = InvOver \<longrightarrow> ivPhase v' = InvOver \<and> ivAcks v' = ivAcks v) \<and>
    (e = WorkerDisconnected \<longrightarrow> \<not> wsCancellation s') \<and>
    (rwFrames w = [] \<longrightarrow> ivAcks v \<le> 1) \<and> ivAcks v \<le> 2 \<and>
    (length (rwId w) = 16 \<longrightarrow> map fst (rwFrames w) = [0 ..< rwSequence w]) \<and>
    (rwEnded w \<longrightarrow> (\<forall>body isEnd. writerSend body isEnd w = (Inl ConnectionError, w)))"
proof -
  let ?v = "wsInvocations s ! i"
  have inv: "workerInv s" by (rule rpcWorker.reachable_inv [OF assms(1)])
  have ok: "writerInv (ivWriter ?v)" "phaseOk ?v" using workerD [OF inv assms(3)] by (simp_all add: invocationOk_def)
  have none: "ivAcks ?v = 0" if "ivStarted ?v" "ivPhase ?v \<noteq> InvOver"
    using ok(2) that by (cases "ivPhase ?v") (simp_all add: phaseOk_def)
  have "acksBy (wsCancellation s) ?v (wsInvocations s' ! i)" if "ivStarted ?v" by (rule step_acks [OF assms(2) inv assms(3) that])
  moreover have "(rwFrames (ivWriter ?v) = [] \<longrightarrow> ivAcks ?v \<le> 1) \<and> ivAcks ?v \<le> 2"
    using ok(2) by (cases "ivPhase ?v") (auto simp: phaseOk_def)
  moreover have "e = WorkerDisconnected \<longrightarrow> \<not> wsCancellation s'"
    using assms(2) by (cases rule: invocationStep.cases) (simp_all add: invocationsDisconnected_def Let_def)
  moreover have "length (rwId (ivWriter ?v)) = 16 \<longrightarrow> map fst (rwFrames (ivWriter ?v)) = [0 ..< rwSequence (ivWriter ?v)]"
    using ok(1) by (simp add: writerInv_def)
  moreover have "rwEnded (ivWriter ?v) \<longrightarrow> (\<forall>body isEnd. writerSend body isEnd (ivWriter ?v) = (Inl ConnectionError, ivWriter ?v))"
    using ok(1) by (simp add: writerInv_def writerSend_def)
  ultimately show ?thesis using none by (auto simp: acksBy_def Let_def)
qed

definition plainRequest :: bytes where
  "plainRequest = replicate 16 0 @ strField (js ''rpc://a'') @ blob [] @ budgetField None"

lemma plainRequest_decodes:
  "rpcDecodeInboundRequest plainRequest =
     Inr \<lparr>riCorrelationId = replicate 16 0, riRoute = js ''rpc://a'', riBody = [], riRemainingBudgetMs = None\<rparr>"
proof -
  have "wireString (js ''rpc://a'')"
    using length_utf8Encode [of "js ''rpc://a''"]
    by (simp add: wireString_def wireText_def bomFree_def isHigh_def isLow_def js_def)
  then show ?thesis
    using rpcDecode_encoded [of "replicate 16 0" None "js ''rpc://a''" "[]"]
    by (simp add: plainRequest_def budgetOk_def natBudget_def wireBlob_def)
qed

definition startedInvocation :: "nat rpcWorkerState" where
  "startedInvocation = runInvocation 0 (\<lambda>_. False) 0 (requestReceived 0 True plainRequest (newWorkerState [(js ''rpc://a'', 7)] True))"

lemma startedInvocation_state:
  "length (wsInvocations startedInvocation) = 1" "ivPhase (wsInvocations startedInvocation ! 0) = InvHandling"
  "ivStarted (wsInvocations startedInvocation ! 0)" "wsCancellation startedInvocation"
  by (simp_all add: startedInvocation_def requestReceived_def plainRequest_decodes zero_key handleRpcRequest_def selectWorker_def newWorkerState_def
      runInvocation_def isActive_def updateInvocation_def Let_def)

lemma startedInvocation_reachable: "reachable invocationStep (newWorkerState [(js ''rpc://a'', 7)] True) startedInvocation"
proof -
  let ?s0 = "newWorkerState [(js ''rpc://a'', 7 :: nat)] True"
  let ?s1 = "requestReceived 0 True plainRequest ?s0"
  have s1: "length (wsInvocations ?s1) = 1" "ivPhase (wsInvocations ?s1 ! 0) = InvQueued"
    by (simp_all add: requestReceived_def plainRequest_decodes zero_key handleRpcRequest_def selectWorker_def newWorkerState_def Let_def)
  have "reachable invocationStep ?s0 ?s1" by (rule reachable_step [where step = invocationStep, OF reachable_start iv_request])
  then show ?thesis unfolding startedInvocation_def by (rule reachable_step [where step = invocationStep, OF _ iv_starts]) (simp_all add: s1)
qed

text \<open>The handler of a request ends in the session of the request, which is acknowledged, or after that session was lost, which is not.\<close>

theorem cleanup_is_acknowledged_once_witness:
  "ivAcks (wsInvocations (handlerSettles (\<lambda>_. False) (Inr ()) [] 0 startedInvocation) ! 0) = 1 \<and>
   ivAcks (wsInvocations (handlerSettles (\<lambda>_. False) (Inr ()) [] 0 (invocationsDisconnected startedInvocation)) ! 0) = 0"
proof -
  let ?d = "invocationsDisconnected startedInvocation"
  have d: "length (wsInvocations ?d) = 1" "ivPhase (wsInvocations ?d ! 0) = InvHandling" "ivStarted (wsInvocations ?d ! 0)" "\<not> wsCancellation ?d"
    by (simp_all add: invocationsDisconnected_def startedInvocation_state nth_enumerate_eq Let_def)
  have over: "ivPhase (wsInvocations (handlerSettles (\<lambda>_. False) (Inr ()) [] 0 s) ! 0) = InvOver" if "length (wsInvocations s) = 1" for s :: "nat rpcWorkerState"
    using that by (simp add: handlerSettles_def finishInvocation_def ackCleanup_def Let_def)
  have step: "invocationStep s (HandlerSettles 0 (Inr ())) (handlerSettles (\<lambda>_. False) (Inr ()) [] 0 s)"
    if "length (wsInvocations s) = 1" "ivPhase (wsInvocations s ! 0) = InvHandling" for s :: "nat rpcWorkerState"
    by (rule iv_handler) (simp_all add: that)
  have r: "reachable invocationStep (newWorkerState [(js ''rpc://a'', 7)] True) ?d"
    by (rule reachable_step [where step = invocationStep, OF startedInvocation_reachable iv_disconnected])
  from cleanup_is_acknowledged_once [OF startedInvocation_reachable step, of 0] cleanup_is_acknowledged_once [OF r step, of 0]
  show ?thesis using over d by (simp add: startedInvocation_state Let_def)
qed

text \<open>
  A late request that is cancelled is acknowledged twice. The deadline of a queued request passes before its task starts, the task
  sends the timeout; a cancellation that arrives before that send has settled finds an invocation
  that was never started and acknowledges it, and the task acknowledges it again when the send has settled.
\<close>

definition lateRequest :: rpcInboundRequest where
  "lateRequest = \<lparr>riCorrelationId = replicate 16 0, riRoute = js ''rpc://a'', riBody = [], riRemainingBudgetMs = Some 5\<rparr>"

definition lateInvocation :: "nat rpcWorkerState" where
  "lateInvocation = endSettles (\<lambda>_. False) (Inr ()) [] 0 (workerCancelled 0
     (runInvocation 10 (\<lambda>_. False) 0 (handleRpcRequest 0 True 0 lateRequest (newWorkerState [(js ''rpc://a'', 7)] True))))"

theorem late_cancellation_acknowledged_twice:
  "ivAcks (wsInvocations lateInvocation ! 0) = 2 \<and> \<not> ivStarted (wsInvocations lateInvocation ! 0)"
  by (simp add: lateInvocation_def lateRequest_def newWorkerState_def handleRpcRequest_def selectWorker_def runInvocation_def isActive_def
      updateInvocation_def endWith_def encodeRpcErrorBody_layout createRpcResponseWriter_def writerSend_def rpcEncodeResponse_layout
      workerCancelled_def abortInvocation_def endSettles_def writerSettled_def disposeWriter_def finishInvocation_def dropActive_def ackCleanup_def
      mapDelete_def Let_def)

text \<open>
  A response can end twice. The writer becomes unusable only when the send of its end has settled, so a second \<^verbatim>\<open>end\<close> that
  does not await the first one sends a second terminal frame; and a send that fails for a
  reason other than a shutdown has used its number, so the next frame leaves a gap.
\<close>

theorem response_can_end_twice:
  assumes "length cid = 16"
  shows "map (\<lambda>f. (fst f, fst (snd f))) (rwFrames (snd (writerSend b True (snd (writerSend a True (createRpcResponseWriter cid)))))) = [(0, True), (1, True)]"
  using assms by (simp add: createRpcResponseWriter_def writerSend_def rpcEncodeResponse_layout)

end
