(* ===== verification/RpcRegistration.thy ===== *)
theory RpcRegistration
  imports RpcWorker
begin

text \<open>
  The registration of workers in \<^verbatim>\<open>domains/rpc/client.ts\<close>: \<^verbatim>\<open>registerWorker\<close>, \<^verbatim>\<open>unregisterWorker\<close>, their serialisation per route and the
  restoration after a reconnect. A registration is an object, so a handle recognises its own by identity: registrations
  are numbered in the order of their creation.
\<close>

section \<open>Guards\<close>

definition assertRpcRegistrationPattern :: "jsstr \<Rightarrow> unit result" where
  "assertRpcRegistrationPattern pat =
    (if isRegistrationPatternShape pat (js ''rpc'') 0 then Inr () else Inl (RpcError ''INVALID_ROUTE'' None))"

definition normalizeRegisterWorkerOptions :: "jsnum option \<Rightarrow> int result" where
  "normalizeRegisterWorkerOptions maxConcurrency =
    (let m = (case maxConcurrency of None \<Rightarrow> JInt 1 | Some n \<Rightarrow> n) in
     if \<not> isInteger m \<or> jsInt m < 1 \<or> jsInt m > 1024 then Inl (RpcError ''INVALID_OPTIONS'' None) else Inr (jsInt m))"

section \<open>State\<close>

record 'h workerTable =
  wtWorkers :: "(jsstr \<times> nat) list"
  wtRegistrations :: "('h \<times> int) list"
  wtMutations :: "(jsstr \<times> nat list) list"
  wtNextTask :: nat

definition newWorkerTable :: "'h workerTable" where
  "newWorkerTable = \<lparr>wtWorkers = [], wtRegistrations = [], wtMutations = [], wtNextTask = 0\<rparr>"

section \<open>One mutation per route at a time\<close>

text \<open>The tasks queued for a route, the running one first.\<close>

definition mutationsOf :: "jsstr \<Rightarrow> 'h workerTable \<Rightarrow> nat list" where
  "mutationsOf route t = (case map_of (wtMutations t) route of None \<Rightarrow> [] | Some q \<Rightarrow> q)"

definition withWorkerMutation :: "jsstr \<Rightarrow> 'h workerTable \<Rightarrow> nat \<times> 'h workerTable" where
  "withWorkerMutation route t =
    (wtNextTask t, t\<lparr>wtMutations := mapSet route (mutationsOf route t @ [wtNextTask t]) (wtMutations t), wtNextTask := wtNextTask t + 1\<rparr>)"

definition mutationRuns :: "jsstr \<Rightarrow> nat \<Rightarrow> 'h workerTable \<Rightarrow> bool" where
  "mutationRuns route task t \<longleftrightarrow> mutationsOf route t \<noteq> [] \<and> hd (mutationsOf route t) = task"

definition mutationEnds :: "jsstr \<Rightarrow> 'h workerTable \<Rightarrow> 'h workerTable" where
  "mutationEnds route t =
    (case mutationsOf route t of
       [] \<Rightarrow> t
     | [_] \<Rightarrow> t\<lparr>wtMutations := mapDelete route (wtMutations t)\<rparr>
     | _ # q \<Rightarrow> t\<lparr>wtMutations := mapSet route q (wtMutations t)\<rparr>)"

section \<open>Registering and unregistering\<close>

text \<open>The request that is sent, and the registration object that a confirmed one creates.\<close>

definition workerRequest :: "jsstr \<Rightarrow> int \<Rightarrow> nat option \<Rightarrow> bytes result" where
  "workerRequest route maxConcurrency protocolVersion =
    rpcEncodeSubscribeWorker route maxConcurrency (hasRpcCancellationCapability protocolVersion)"

definition workerAnswer :: "string \<Rightarrow> bytes result \<Rightarrow> unit result" where
  "workerAnswer code response =
    andThen (andThen response parseStandardResponse) (\<lambda>p.
      if prSuccess p then Inr () else Inl (attachErrorDisposition (RpcError code (prErrorCode p)) (prErrorClass p) (prEffect p)))"

definition registerAnswered :: "jsstr \<Rightarrow> 'h \<Rightarrow> int \<Rightarrow> bytes result \<Rightarrow> 'h workerTable \<Rightarrow> nat result \<times> 'h workerTable" where
  "registerAnswered route handler maxConcurrency response t =
    (case workerAnswer ''SUBSCRIBE_FAILED'' response of
       Inl e \<Rightarrow> (Inl e, t)
     | Inr _ \<Rightarrow>
        (let r = length (wtRegistrations t)
         in (Inr r, t\<lparr>wtRegistrations := wtRegistrations t @ [(handler, maxConcurrency)], wtWorkers := mapSet route r (wtWorkers t)\<rparr>)))"

text \<open>The call of a worker: its guards, and the task that waits for its turn.\<close>

definition registerWorker :: "jsstr \<Rightarrow> jsnum option \<Rightarrow> 'h workerTable \<Rightarrow> (nat \<times> int) result \<times> 'h workerTable" where
  "registerWorker route maxConcurrency t =
    (case andThen (assertRpcRegistrationPattern route) (\<lambda>_. normalizeRegisterWorkerOptions maxConcurrency) of
       Inl e \<Rightarrow> (Inl e, t)
     | Inr m \<Rightarrow> (let (task, t) = withWorkerMutation route t in (Inr (task, m), t)))"

text \<open>\<open>None\<close>: the handle does not own the route any more and the call returns without a request.\<close>

definition unregisterWorker :: "jsstr \<Rightarrow> nat \<Rightarrow> 'h workerTable \<Rightarrow> bytes result option" where
  "unregisterWorker route registration t =
    (if map_of (wtWorkers t) route \<noteq> Some registration then None else Some (rpcEncodeUnsubscribeWorker route))"

definition unregisterAnswered :: "jsstr \<Rightarrow> bytes result \<Rightarrow> 'h workerTable \<Rightarrow> unit result \<times> 'h workerTable" where
  "unregisterAnswered route response t =
    (case workerAnswer ''UNSUBSCRIBE_FAILED'' response of
       Inl e \<Rightarrow> (Inl e, t)
     | Inr _ \<Rightarrow> (Inr (), t\<lparr>wtWorkers := mapDelete route (wtWorkers t)\<rparr>))"

section \<open>Restoration\<close>

text \<open>
  The restoration after a reconnect, answer by answer: the entries still to restore and those restored. Registering an entry again creates
  a new registration object; the entry to install is the old one.
\<close>

record workerRestore =
  wrTodo :: "(jsstr \<times> nat) list"
  wrRestored :: "(jsstr \<times> nat) list"

definition restoreStarts :: "'h workerTable \<Rightarrow> workerRestore" where
  "restoreStarts t = \<lparr>wrTodo = wtWorkers t, wrRestored = []\<rparr>"

definition restoreAnswered :: "bytes result \<Rightarrow> workerRestore \<times> 'h workerTable \<Rightarrow> unit result \<times> workerRestore \<times> 'h workerTable" where
  "restoreAnswered response rt =
    (case rt of (r, t) \<Rightarrow>
       (case wrTodo r of
          [] \<Rightarrow> (Inr (), r, t)
        | (route, reg) # todo \<Rightarrow>
           (case registerAnswered route (fst (wtRegistrations t ! reg)) (snd (wtRegistrations t ! reg)) response t of
              (Inl e, t') \<Rightarrow> (Inl e, r, t')
            | (Inr _, t') \<Rightarrow> (Inr (), \<lparr>wrTodo = todo, wrRestored = wrRestored r @ [(route, reg)]\<rparr>, t'))))"

definition restoreInstalls :: "workerRestore \<times> 'h workerTable \<Rightarrow> 'h workerTable" where
  "restoreInstalls rt = (case rt of (r, t) \<Rightarrow> t\<lparr>wtWorkers := fold (\<lambda>(k, v). mapSet k v) (wrRestored r) []\<rparr>)"

text \<open>A failed restoration gives back what it had registered at the broker, the last first.\<close>

definition restoreRollback :: "workerRestore \<Rightarrow> bytes result list" where
  "restoreRollback r = map (\<lambda>(route, _). rpcEncodeUnsubscribeWorker route) (rev (wrRestored r))"

fun restoreAll :: "bytes result list \<Rightarrow> workerRestore \<times> 'h workerTable \<Rightarrow> unit result \<times> 'h workerTable" where
  "restoreAll [] rt = (Inr (), restoreInstalls rt)"
| "restoreAll (response # responses) rt =
    (case restoreAnswered response rt of
       (Inl e, _, t) \<Rightarrow> (Inl e, t)
     | (Inr _, rt') \<Rightarrow> restoreAll responses rt')"

definition restoreWorkers :: "bytes result list \<Rightarrow> 'h workerTable \<Rightarrow> unit result \<times> 'h workerTable" where
  "restoreWorkers responses t = (if wtWorkers t = [] then (Inr (), t) else restoreAll responses (restoreStarts t, t))"

section \<open>Properties\<close>

lemma mutations_queue:
  "mutationsOf r (snd (withWorkerMutation route t)) = (if r = route then mutationsOf r t @ [wtNextTask t] else mutationsOf r t)"
  "mutationsOf r (mutationEnds route t) = (if r = route then tl (mutationsOf r t) else mutationsOf r t)"
  by (auto simp: withWorkerMutation_def mutationEnds_def mutationsOf_def split: list.split option.split)

definition okAnswer :: "bytes result" where
  "okAnswer = Inr [0]"

lemma okAnswer_accepted [simp]: "workerAnswer code okAnswer = Inr ()"
  by (simp add: workerAnswer_def okAnswer_def parseStandardResponse_def reader_simps)

lemma restoreAll_ok:
  assumes "length as = length (wrTodo r)" and "\<forall>a \<in> set as. workerAnswer ''SUBSCRIBE_FAILED'' a = Inr ()"
  shows "\<exists>t'. restoreAll as (r, t) = (Inr (), t') \<and> wtWorkers t' = fold (\<lambda>(k, v). mapSet k v) (wrRestored r @ wrTodo r) [] \<and>
    length (wtRegistrations t') = length (wtRegistrations t) + length as"
  using assms
proof (induction as arbitrary: r t)
  case (Cons a as)
  then obtain route reg todo where todo: "wrTodo r = (route, reg) # todo" by (cases "wrTodo r") auto
  let ?t = "snd (registerAnswered route (fst (wtRegistrations t ! reg)) (snd (wtRegistrations t ! reg)) a t)"
  let ?r = "\<lparr>wrTodo = todo, wrRestored = wrRestored r @ [(route, reg)]\<rparr>"
  have "restoreAll (a # as) (r, t) = restoreAll as (?r, ?t)"
    using Cons.prems by (simp add: restoreAnswered_def todo registerAnswered_def Let_def)
  moreover have "length (wtRegistrations ?t) = length (wtRegistrations t) + 1"
    using Cons.prems by (simp add: registerAnswered_def Let_def)
  moreover have "length as = length (wrTodo ?r)" "\<forall>a \<in> set as. workerAnswer ''SUBSCRIBE_FAILED'' a = Inr ()"
    using Cons.prems todo by simp_all
  ultimately show ?case using Cons.IH [of ?r ?t] todo by auto
qed (simp add: restoreInstalls_def)

text \<open>
  C30: workers survive a reconnect. A restoration whose requests are all confirmed leaves the same registrations under the same routes, so
  every handle still owns its worker; and a handle that was superseded sends nothing.
\<close>

theorem restored_workers_keep_their_handles:
  assumes "distinct (map fst (wtWorkers t))" and "length as = length (wtWorkers t)"
    and "\<forall>a \<in> set as. workerAnswer ''SUBSCRIBE_FAILED'' a = Inr ()"
  shows "\<exists>t'. restoreWorkers as t = (Inr (), t') \<and> wtWorkers t' = wtWorkers t \<and>
    (\<forall>route reg. unregisterWorker route reg t' = unregisterWorker route reg t) \<and>
    (\<forall>route reg. map_of (wtWorkers t') route \<noteq> Some reg \<longrightarrow> unregisterWorker route reg t' = None)"
proof (cases "wtWorkers t = []")
  case False
  then show ?thesis
    using restoreAll_ok [of as "restoreStarts t" t] assms
    by (auto simp: restoreWorkers_def restoreStarts_def fold_mapSet_empty unregisterWorker_def)
qed (simp add: restoreWorkers_def unregisterWorker_def)

definition twoWorkers :: "nat workerTable" where
  "twoWorkers = newWorkerTable\<lparr>wtWorkers := [([1], 0), ([2], 1)], wtRegistrations := [(7, 1), (8, 1)]\<rparr>"

theorem restored_workers_keep_their_handles_witness:
  "\<exists>t'. restoreWorkers [okAnswer, okAnswer] twoWorkers = (Inr (), t') \<and> wtWorkers t' = [([1], 0), ([2], 1)]"
  using restored_workers_keep_their_handles [of twoWorkers "[okAnswer, okAnswer]"] by (auto simp: twoWorkers_def)

text \<open>
  A failed restoration orphans a worker. The first entry is registered again before the second one fails; the attempt leaves the new
  registration object behind, the next attempt installs it, and the handle of the worker does not recognise it:
  its \<^verbatim>\<open>unsubscribe\<close> returns without a request while the worker stays registered.
\<close>

theorem failed_restore_orphans_worker:
  assumes "workerAnswer ''SUBSCRIBE_FAILED'' bad = Inl e"
  shows "let t1 = snd (restoreWorkers [okAnswer, bad] twoWorkers); (r, t2) = restoreWorkers [okAnswer, okAnswer] t1 in
    fst (restoreWorkers [okAnswer, bad] twoWorkers) = Inl e \<and> r = Inr () \<and>
    map_of (wtWorkers t2) [1] = Some 2 \<and> unregisterWorker [1] 0 t2 = None"
  by (simp add: restoreWorkers_def twoWorkers_def newWorkerTable_def restoreStarts_def restoreAnswered_def registerAnswered_def
      restoreInstalls_def unregisterWorker_def assms Let_def)

theorem failed_restore_orphans_worker_witness:
  "fst (restoreWorkers [okAnswer, Inl TimeoutError] twoWorkers) = Inl TimeoutError"
  using failed_restore_orphans_worker [of "Inl TimeoutError" TimeoutError] by (simp add: workerAnswer_def Let_def split: prod.splits)

text \<open>
  An unsubscribe during a restoration is lost. While other workers are still being restored, a worker that was registered again has a new
  object, so its handle sends nothing; then the restoration installs the old object, and the worker stays registered.
\<close>

theorem unregister_lost_in_restore:
  "let (res, r, t) = restoreAnswered okAnswer (restoreStarts twoWorkers, twoWorkers);
       t' = snd (restoreAll [okAnswer] (r, t))
   in unregisterWorker [1] 0 t = None \<and> map_of (wtWorkers t') [1] = Some 0"
  by (simp add: twoWorkers_def newWorkerTable_def restoreStarts_def restoreAnswered_def registerAnswered_def
      restoreInstalls_def unregisterWorker_def Let_def)

end
