(* ===== verification/NoticeClient.thy ===== *)
theory NoticeClient
  imports Registry Routes LeaseCodec
begin

text \<open>
  The Notice client, \<^verbatim>\<open>domains/notice/client.ts\<close>. Its subscriptions live in a registry of the form of the other clients; what is
  its own is modelled here: subscribes and bulk unsubscribes run one after the other, the last handler of a pattern is kept
  until the broker has confirmed, and a reconnect during a bulk unsubscribe skips the
  restoration. The turn of a queued operation, the answer of a request and the reconnect are events.
\<close>

section \<open>Guards and single requests\<close>

definition assertNoticeRoute :: "jsstr \<Rightarrow> unit result" where
  "assertNoticeRoute route =
    (if isRouteShape route (js ''notice'') 3 False then Inr () else Inl (NoticeError ''INVALID_ROUTE'' None))"

definition assertNoticePattern :: "jsstr \<Rightarrow> unit result" where
  "assertNoticePattern pat =
    (if isRegistrationPatternShape pat (js ''notice'') 0 then Inr () else Inl (NoticeError ''INVALID_ROUTE'' None))"

datatype noticePublishing = PublishAcknowledged bytes | PublishAndForget bytes

definition noticePublish :: "jsstr \<Rightarrow> bytes \<Rightarrow> bool \<Rightarrow> bool \<Rightarrow> noticePublishing result" where
  "noticePublish route body ackRequested hasFlags =
    andThen (assertNoticeRoute route) (\<lambda>_.
    andThen (noticeEncodePublish route body) (\<lambda>payload.
      if ackRequested
      then (if \<not> hasFlags then Inl (NoticeError ''UNSUPPORTED'' None) else Inr (PublishAcknowledged payload))
      else Inr (PublishAndForget payload)))"

definition noticePublishAnswered :: "bytes \<Rightarrow> unit result" where
  "noticePublishAnswered response =
    andThen (parseStandardResponse response) (\<lambda>p.
      if \<not> prSuccess p
      then Inl (attachErrorDisposition
        (NoticeError (case prErrorCode p of None \<Rightarrow> ''PUBLISH_FAILED'' | Some c \<Rightarrow> decimal c) (prErrorCode p)) (prErrorClass p) (prEffect p))
      else Inr ())"

definition noticeSubscribeAnswered :: "bytes \<Rightarrow> nat result" where
  "noticeSubscribeAnswered response =
    andThen (parseStandardResponse response) (\<lambda>p.
      if \<not> prSuccess p
      then Inl (attachErrorDisposition (NoticeError ''SUBSCRIBE_FAILED'' (prErrorCode p)) (prErrorClass p) (prEffect p))
      else andThen (readU8 (createBufferReader (prData p))) (\<lambda>(flag, reader).
        if flag \<noteq> 1 \<or> remainingBytes reader \<noteq> 8 then Inl (NoticeError ''MISSING_SUB_ID'' None)
        else andThen (readU64BE reader) (\<lambda>(subId, _). Inr subId)))"

definition noticeUnsubscribeAnswered :: "bytes \<Rightarrow> unit result" where
  "noticeUnsubscribeAnswered response =
    andThen (parseStandardResponse response) (\<lambda>p.
      if \<not> prSuccess p
      then Inl (attachErrorDisposition (NoticeError ''UNSUBSCRIBE_FAILED'' (prErrorCode p)) (prErrorClass p) (prEffect p))
      else Inr ())"

definition unsubscribeAllAnswered :: "bytes result \<Rightarrow> unit result" where
  "unsubscribeAllAnswered answer =
    andThen (andThen answer parseStandardResponse) (\<lambda>p.
      if \<not> prSuccess p
      then Inl (attachErrorDisposition (NoticeError ''UNSUBSCRIBE_ALL_FAILED'' (prErrorCode p)) (prErrorClass p) (prEffect p))
      else if length (prData p) \<noteq> 0 then Inl (NoticeError ''INVALID_RESPONSE'' None) else Inr ())"

definition restoreSkippedError :: jserror where
  "restoreSkippedError = NoticeError ''UNSUBSCRIBE_ALL_RESTORE_FAILED'' None"

section \<open>State\<close>

datatype noticeMutation = MutSubscribe jsstr | MutUnsubscribeAll

text \<open>The serialised operations, the first one running; whether the running one awaits its request.\<close>

record 'n noticeClient =
  ncRegistry :: "'n registry"
  ncMutations :: "noticeMutation list"
  ncAwaiting :: bool
  ncBulk :: nat
  ncSkipped :: bool
  ncHandles :: "(nat \<times> subController) list"
  ncUnsubscribing :: "(nat \<times> nat) list"

definition newNoticeClient :: "'n noticeClient" where
  "newNoticeClient = \<lparr>ncRegistry = newRegistry, ncMutations = [], ncAwaiting = False, ncBulk = 0, ncSkipped = False, ncHandles = [],
     ncUnsubscribing = []\<rparr>"

definition handleOf :: "nat \<Rightarrow> 'n noticeClient \<Rightarrow> subController" where
  "handleOf h c = (case map_of (ncHandles c) h of None \<Rightarrow> createSubscriptionController None | Some sc \<Rightarrow> sc)"

definition updateHandle :: "nat \<Rightarrow> (subController \<Rightarrow> subController) \<Rightarrow> 'n noticeClient \<Rightarrow> 'n noticeClient" where
  "updateHandle h f c = c\<lparr>ncHandles := mapSet h (f (handleOf h c)) (ncHandles c)\<rparr>"

section \<open>Unsubscribing one handler\<close>

text \<open>
  A handler that is not the last one is removed at once. The last one stays until the broker has confirmed; the request carries the
  identifier the subscription has now.
\<close>

definition noticeUnsubscribe :: "jsstr \<Rightarrow> nat \<Rightarrow> 'n noticeClient \<Rightarrow> 'n noticeClient" where
  "noticeUnsubscribe pattern h c =
    (let g = ncRegistry c in
     case map_of (rgByPattern g) pattern of
       None \<Rightarrow> updateHandle h (roundTripSettled (Inr ())) c
     | Some i \<Rightarrow>
        (let handlers = ssHandlers (rgObjects g ! i) in
         if h \<notin> set handlers then updateHandle h (roundTripSettled (Inr ())) c
         else if length handlers > 1 then updateHandle h (roundTripSettled (Inr ())) (c\<lparr>ncRegistry := dropHandler i h g\<rparr>)
         else c\<lparr>ncRegistry := (setPendingUnsubscribe i (Some (rgTokens g)) g)
                  \<lparr>rgOps := rgOps g @ [(WireUnsubscribe (rgTokens g) i pattern, None)], rgTokens := rgTokens g + 1\<rparr>,
                ncUnsubscribing := mapSet (rgTokens g) h (ncUnsubscribing c)\<rparr>))"

definition handleUnsubscribes :: "jsstr \<Rightarrow> nat \<Rightarrow> 'n noticeClient \<Rightarrow> 'n noticeClient" where
  "handleUnsubscribes pattern h c =
    (if scActive (handleOf h c) then noticeUnsubscribe pattern h (updateHandle h unsubscribeHandle c) else c)"

text \<open>\<^verbatim>\<open>fail\<close> of a handle rejects its completion and unsubscribes.\<close>

definition handleFails :: "jserror \<Rightarrow> jsstr \<Rightarrow> nat \<Rightarrow> 'n noticeClient \<Rightarrow> 'n noticeClient" where
  "handleFails e pattern h c =
    (if scActive (handleOf h c) then noticeUnsubscribe pattern h (updateHandle h (failHandle e) c) else c)"

text \<open>The abort of a signal disposes of its handle.\<close>

definition handleAborts :: "jsstr \<Rightarrow> nat \<Rightarrow> 'n noticeClient \<Rightarrow> 'n noticeClient" where
  "handleAborts pattern h c =
    (if scListening (handleOf h c)
     then handleUnsubscribes pattern h (updateHandle h (\<lambda>sc. sc\<lparr>scListening := False\<rparr>) c)
     else c)"

definition noticeUnsubscribeSettled :: "nat \<Rightarrow> nat \<Rightarrow> jsstr \<Rightarrow> unit result \<Rightarrow> 'n noticeClient \<Rightarrow> 'n noticeClient" where
  "noticeUnsubscribeSettled t i pattern r c =
    (let g = ncRegistry c;
         g = (if ssPendingUnsubscribe (rgObjects g ! i) = Some t then setPendingUnsubscribe i None g else g)
     in case map_of (ncUnsubscribing c) t of
          None \<Rightarrow> c\<lparr>ncRegistry := g\<rparr>
        | Some h \<Rightarrow>
           updateHandle h (roundTripSettled r)
            (case r of
               Inl e \<Rightarrow> c\<lparr>ncRegistry := g\<rparr>
             | Inr _ \<Rightarrow>
                (let g = dropHandler i h g in
                 c\<lparr>ncRegistry :=
                   (if isCurrentEmptyState (rgByPattern g) pattern i (ssHandlers (rgObjects g ! i))
                    then g\<lparr>rgByPattern := mapDelete pattern (rgByPattern g), rgBySubId := mapDelete (ssSubId (rgObjects g ! i)) (rgBySubId g),
                           rgPending := removeNotifications (ssSubId (rgObjects g ! i)) (rgPending g)\<rparr>
                    else g)\<rparr>)))"

section \<open>The serialised operations\<close>

definition mutationDone :: "'n noticeClient \<Rightarrow> 'n noticeClient" where
  "mutationDone c = c\<lparr>ncMutations := tl (ncMutations c), ncAwaiting := False\<rparr>"

definition noticeSubscribe :: "jsstr \<Rightarrow> 'n noticeClient \<Rightarrow> 'n noticeClient" where
  "noticeSubscribe pattern c = c\<lparr>ncMutations := ncMutations c @ [MutSubscribe pattern]\<rparr>"

definition unsubscribeAll :: "'n noticeClient \<Rightarrow> 'n noticeClient" where
  "unsubscribeAll c = c\<lparr>ncBulk := ncBulk c + 1, ncMutations := ncMutations c @ [MutUnsubscribeAll]\<rparr>"

text \<open>
  The handle of a subscribe that has returned. Its signal is none, or whether it has aborted by then: in that case the handle
  unsubscribes while it is created, before its handler is stored, and finds nothing to do, because this client checks for the handler
  first. So the signal is not given to the registry.
\<close>

definition handleCreated :: "bool option \<Rightarrow> nat \<Rightarrow> 'n noticeClient \<Rightarrow> 'n noticeClient" where
  "handleCreated signal h c = updateHandle h (\<lambda>_. roundTripSettled (Inr ()) (createSubscriptionController signal)) c"

text \<open>A turn of the running operation: it runs on to its next \<^verbatim>\<open>await\<close>, or returns.\<close>

definition mutationTurn :: "bool option \<Rightarrow> 'n noticeClient \<Rightarrow> 'n noticeClient" where
  "mutationTurn signal c =
    (case ncMutations c of
       [] \<Rightarrow> c
     | MutSubscribe pattern # _ \<Rightarrow>
        (case assertNoticePattern pattern of
           Inl e \<Rightarrow> mutationDone c
         | Inr _ \<Rightarrow>
            (case Registry.subscribe pattern None (ncRegistry c) of
               (Subscribed h, g) \<Rightarrow> mutationDone (handleCreated signal h (c\<lparr>ncRegistry := g\<rparr>))
             | (WaitsForUnsubscribe, g) \<Rightarrow> c
             | (WaitsForFlight, g) \<Rightarrow> c\<lparr>ncRegistry := g, ncAwaiting := True\<rparr>))
     | MutUnsubscribeAll # _ \<Rightarrow> if rgRestoring (ncRegistry c) \<noteq> None then c else c\<lparr>ncAwaiting := True\<rparr>)"

definition noticeSubscribeSettled :: "bool option \<Rightarrow> jsstr \<Rightarrow> wireAnswer \<Rightarrow> 'n noticeClient \<Rightarrow> 'n noticeClient" where
  "noticeSubscribeSettled signal pattern a c =
    (let h = rgNextHandlerId (ncRegistry c); c = c\<lparr>ncRegistry := subscribeSettled pattern a (ncRegistry c)\<rparr>
     in mutationDone (case a of WireOk _ \<Rightarrow> handleCreated signal h c | WireError _ \<Rightarrow> c))"

text \<open>The handlers of all subscriptions, with their patterns, in the order of the maps.\<close>

definition allHandlers :: "'n registry \<Rightarrow> (jsstr \<times> nat) list" where
  "allHandlers g = concat (map (\<lambda>(p, i). map (\<lambda>h. (p, h)) (ssHandlers (rgObjects g ! i))) (rgByPattern g))"

definition clearSubscriptions :: "'n registry \<Rightarrow> 'n registry" where
  "clearSubscriptions g =
    g\<lparr>rgPending := fold (\<lambda>(p, i). removeNotifications (ssSubId (rgObjects g ! i))) (rgByPattern g) (rgPending g),
      rgByPattern := [], rgBySubId := []\<rparr>"

definition unsubscribeAllSettled :: "bytes result \<Rightarrow> 'n noticeClient \<Rightarrow> 'n noticeClient" where
  "unsubscribeAllSettled answer c =
    (let handlers = allHandlers (ncRegistry c);
         c = (case unsubscribeAllAnswered answer of
                Inr _ \<Rightarrow>
                  fold (\<lambda>(p, h). updateHandle h completeLocal) handlers (c\<lparr>ncRegistry := clearSubscriptions (ncRegistry c)\<rparr>)
              | Inl e \<Rightarrow>
                  if ncSkipped c
                  then (let c = fold (\<lambda>(p, h). handleFails restoreSkippedError p h) handlers c
                        in c\<lparr>ncRegistry := clearSubscriptions (ncRegistry c)\<rparr>)
                  else c)
     in mutationDone (c\<lparr>ncSkipped := False, ncBulk := ncBulk c - 1\<rparr>))"

definition noticeReconnected :: "'n noticeClient \<Rightarrow> 'n noticeClient" where
  "noticeReconnected c =
    (if ncBulk c > 0 then c\<lparr>ncSkipped := True\<rparr> else c\<lparr>ncRegistry := restoreBegin (ncRegistry c)\<rparr>)"

text \<open>A NOTIFY frame. One that cannot be decoded is only reported.\<close>

definition noticeReceived :: "bytes \<Rightarrow> (jsstr \<times> bytes) noticeClient \<Rightarrow> (jsstr \<times> bytes) noticeClient" where
  "noticeReceived payload c =
    (case noticeDecodeNotification payload of
       Inl e \<Rightarrow> c
     | Inr n \<Rightarrow> c\<lparr>ncRegistry := notified (nnSubId n) (nnRoute n, nnBody n) (ncRegistry c)\<rparr>)"

text \<open>The answer to the SUBSCRIBE of an entry that is being restored; after the last one the new entries are installed.\<close>

definition noticeRestored :: "wireAnswer \<Rightarrow> 'n noticeClient \<Rightarrow> 'n noticeClient" where
  "noticeRestored a c = c\<lparr>ncRegistry := restoreEntry a (ncRegistry c)\<rparr>"

text \<open>The answer of a request of the registry.\<close>

fun noticeRequestSettled :: "bool option \<Rightarrow> wireRequest \<Rightarrow> wireAnswer \<Rightarrow> 'n noticeClient \<Rightarrow> 'n noticeClient" where
  "noticeRequestSettled signal (WireSubscribe p) a c = noticeSubscribeSettled signal p a c"
| "noticeRequestSettled signal (WireUnsubscribe t i p) a c =
     noticeUnsubscribeSettled t i p (case a of WireOk _ \<Rightarrow> Inr () | WireError e \<Rightarrow> Inl e) c"

datatype 'n noticeEvent =
    NcSubscribe jsstr | NcUnsubscribeAll | NcTurn | NcUnsubscribe nat | NcFail nat | NcAbort nat | NcNotified 'n | NcSent
  | NcAnswered | NcBulkAnswered "bytes result" | NcLost | NcReconnected | NcRestored | NcReady

inductive noticeStep :: "'n noticeClient \<Rightarrow> 'n noticeEvent \<Rightarrow> 'n noticeClient \<Rightarrow> bool" where
  nc_subscribe: "noticeStep c (NcSubscribe p) (noticeSubscribe p c)"
| nc_bulk: "noticeStep c NcUnsubscribeAll (unsubscribeAll c)"
| nc_turn: "ncMutations c \<noteq> [] \<Longrightarrow> \<not> ncAwaiting c \<Longrightarrow> noticeStep c NcTurn (mutationTurn signal c)"
| nc_unsubscribe: "noticeStep c (NcUnsubscribe h) (handleUnsubscribes p h c)"
| nc_fail: "noticeStep c (NcFail h) (handleFails e p h c)"
| nc_abort: "noticeStep c (NcAbort h) (handleAborts p h c)"
| nc_notified: "noticeStep c (NcNotified n) (c\<lparr>ncRegistry := notified i n (ncRegistry c)\<rparr>)"
| nc_sent: "registryStep (ncRegistry c) (RequestSent k a) g \<Longrightarrow> noticeStep c NcSent (c\<lparr>ncRegistry := g\<rparr>)"
| nc_answer: "rgOps (ncRegistry c) = pre @ (r, Some a) # post \<Longrightarrow>
    noticeStep c NcAnswered (noticeRequestSettled signal r a (c\<lparr>ncRegistry := (ncRegistry c)\<lparr>rgOps := pre @ post\<rparr>\<rparr>))"
| nc_bulk_answered: "ncAwaiting c \<Longrightarrow> ncMutations c = MutUnsubscribeAll # ms \<Longrightarrow>
    noticeStep c (NcBulkAnswered answer) (unsubscribeAllSettled answer c)"
| nc_lost: "noticeStep c NcLost (c\<lparr>ncRegistry := sessionLost (ncRegistry c)\<rparr>)"
| nc_reconnected: "\<not> rgOnline (ncRegistry c) \<Longrightarrow> rgRestoring (ncRegistry c) = None \<Longrightarrow> noticeStep c NcReconnected (noticeReconnected c)"
| nc_restored: "rgRestoring (ncRegistry c) \<noteq> None \<Longrightarrow> noticeStep c NcRestored (noticeRestored a c)"
| nc_ready: "\<not> rgOnline (ncRegistry c) \<Longrightarrow> rgRestoring (ncRegistry c) = None \<Longrightarrow> noticeStep c NcReady (c\<lparr>ncRegistry := sessionReady (ncRegistry c)\<rparr>)"

section \<open>The invariant\<close>

definition wireSubs :: "'n registry \<Rightarrow> jsstr list" where
  "wireSubs g = concat (map (\<lambda>x. case fst x of WireSubscribe p \<Rightarrow> [p] | WireUnsubscribe t i p \<Rightarrow> []) (rgOps g))"

text \<open>The patterns that are being subscribed, by the requests and by the single flights.\<close>

definition wireOf :: "'n registry \<Rightarrow> jsstr list \<times> jsstr list" where
  "wireOf g = (wireSubs g, map fst (rgFlights g))"

fun flightOf :: "bool \<Rightarrow> noticeMutation list \<Rightarrow> jsstr list" where
  "flightOf True (MutSubscribe p # ms) = [p]"
| "flightOf _ _ = []"

text \<open>
  Every bulk unsubscribe that is queued is counted, a skipped restoration has one, every controller is sound, and the one
  SUBSCRIBE in flight is the running operation's.
\<close>

definition noticeInv :: "'n noticeClient \<Rightarrow> bool" where
  "noticeInv c \<longleftrightarrow>
     ncBulk c = length (filter ((=) MutUnsubscribeAll) (ncMutations c)) \<and> (ncSkipped c \<longrightarrow> ncBulk c > 0) \<and>
     list_all (\<lambda>(h, sc). controllerInv sc) (ncHandles c) \<and>
     wireOf (ncRegistry c) = (let f = flightOf (ncAwaiting c) (ncMutations c) in (f, f)) \<and>
     (ncAwaiting c \<longrightarrow> ncMutations c \<noteq> [])"

lemma wireOf_update [simp]:
  "wireOf (g\<lparr>rgByPattern := a\<rparr>) = wireOf g" "wireOf (g\<lparr>rgBySubId := b\<rparr>) = wireOf g" "wireOf (g\<lparr>rgObjects := ob\<rparr>) = wireOf g"
  "wireOf (g\<lparr>rgGeneration := n\<rparr>) = wireOf g" "wireOf (g\<lparr>rgNextHandlerId := n\<rparr>) = wireOf g" "wireOf (g\<lparr>rgPending := q\<rparr>) = wireOf g"
  "wireOf (g\<lparr>rgDelivered := d\<rparr>) = wireOf g" "wireOf (g\<lparr>rgTokens := n\<rparr>) = wireOf g" "wireOf (g\<lparr>rgOnline := bb\<rparr>) = wireOf g"
  "wireOf (g\<lparr>rgRestoring := r\<rparr>) = wireOf g" "wireOf (g\<lparr>rgBroker := br\<rparr>) = wireOf g"
  by (simp_all add: wireOf_def wireSubs_def)

lemma wireOf_small [simp]:
  "wireOf (flushPending s g) = wireOf g" "wireOf (notified s n g) = wireOf g" "wireOf (addHandler i h g) = wireOf g"
  "wireOf (setPendingUnsubscribe i t g) = wireOf g" "wireOf (dropHandler i h g) = wireOf g" "wireOf (sessionReady g) = wireOf g"
  "wireOf (restoreBegin g) = wireOf g" "wireOf (installState e g) = wireOf g" "wireOf (snd (stateFor p s g)) = wireOf g"
  "wireOf (clearSubscriptions g) = wireOf g"
  by (simp_all add: flushPending_def notified_def addHandler_def setPendingUnsubscribe_def dropHandler_def sessionReady_def restoreBegin_def
      installState_def stateFor_def clearSubscriptions_def Let_def split: prod.split option.split)

lemma wireOf_unsubscribe [simp]: "wireOf (unsubscribe p h g) = wireOf g"
  by (simp add: unsubscribe_def setPendingUnsubscribe_def dropHandler_def Let_def wireOf_def wireSubs_def split: option.split)

lemma wireOf_add [simp]: "wireOf (snd (addLocalSubscription p s sig g)) = wireOf g"
proof -
  obtain i k where k: "stateFor p s (g\<lparr>rgNextHandlerId := rgNextHandlerId g + 1\<rparr>) = (i, k)" by fastforce
  have "wireOf k = wireOf (g\<lparr>rgNextHandlerId := rgNextHandlerId g + 1\<rparr>)"
    using wireOf_small(9) [of p s "g\<lparr>rgNextHandlerId := rgNextHandlerId g + 1\<rparr>"] unfolding k by simp
  then have "wireOf k = wireOf g" by simp
  with k show ?thesis by (simp add: addLocalSubscription_def Let_def)
qed

lemma wireOf_fold: "(\<And>x g. wireOf (f x g) = wireOf g) \<Longrightarrow> wireOf (fold f xs g) = wireOf g"
  by (induction xs arbitrary: g) simp_all

lemma wireOf_restored [simp]: "wireOf (restoreEntry a g) = wireOf g"
proof -
  have "wireOf (reindex g) = wireOf g" for g :: "'a registry"
    unfolding reindex_def by (subst wireOf_fold) (auto split: prod.split)
  moreover have "wireOf (installAll r g) = wireOf g" for r and g :: "'a registry"
    unfolding installAll_def by (subst wireOf_fold) auto
  ultimately show ?thesis
    by (auto simp: restoreEntry_def Let_def split: option.split list.split wireAnswer.split prod.split)
qed

lemma wireOf_lost [simp]: "wireOf (sessionLost g) = wireOf g"
  by (simp add: sessionLost_def wireOf_def wireSubs_def comp_def split_beta)

lemma flightOf_idle [simp]: "flightOf False ms = []"
  by (cases ms) simp_all

lemma flightOf_append [simp]: "ms \<noteq> [] \<Longrightarrow> flightOf b (ms @ ns) = flightOf b ms"
  by (cases ms; cases b; cases "hd ms") simp_all

text \<open>What touches only the registry, in a way that keeps its requests and flights, and the controllers.\<close>

definition noticeQuiet :: "'n noticeClient \<Rightarrow> 'n noticeClient \<Rightarrow> bool" where
  "noticeQuiet c c' \<longleftrightarrow> ncBulk c' = ncBulk c \<and> ncMutations c' = ncMutations c \<and> ncAwaiting c' = ncAwaiting c \<and> ncSkipped c' = ncSkipped c \<and>
     wireOf (ncRegistry c') = wireOf (ncRegistry c) \<and>
     (list_all (\<lambda>(h, sc). controllerInv sc) (ncHandles c) \<longrightarrow> list_all (\<lambda>(h, sc). controllerInv sc) (ncHandles c'))"

lemma notice_quiet_inv: "noticeQuiet c c' \<Longrightarrow> noticeInv c \<Longrightarrow> noticeInv c'"
  by (auto simp: noticeQuiet_def noticeInv_def)

lemma quiet_refl [simp]: "noticeQuiet c c"
  by (simp add: noticeQuiet_def)

lemma quiet_trans: "noticeQuiet c c1 \<Longrightarrow> noticeQuiet c1 c2 \<Longrightarrow> noticeQuiet c c2"
  by (simp add: noticeQuiet_def)

lemma quiet_registry: "wireOf g = wireOf (ncRegistry c) \<Longrightarrow> noticeQuiet c (c\<lparr>ncRegistry := g\<rparr>)"
  by (simp add: noticeQuiet_def)

lemma quiet_fold: "(\<And>x c. noticeQuiet c (f x c)) \<Longrightarrow> noticeQuiet c (fold f xs c)"
  by (induction xs arbitrary: c) (auto intro: quiet_trans)

lemma handle_controller: "list_all (\<lambda>(h, sc). controllerInv sc) (ncHandles c) \<Longrightarrow> controllerInv (handleOf h c)"
  using map_of_SomeD [of "ncHandles c" h] create_controller_inv
  by (auto simp: handleOf_def list_all_iff split: option.split)

lemma all_mapSet: "list_all (\<lambda>(h, sc). P sc) m \<Longrightarrow> P v \<Longrightarrow> list_all (\<lambda>(h, sc). P sc) (mapSet k v m)"
  by (induction m) auto

lemma quiet_handle:
  assumes "\<And>sc. controllerInv sc \<Longrightarrow> controllerInv (f sc)"
  shows "noticeQuiet c (updateHandle h f c)"
  using all_mapSet handle_controller assms by (fastforce simp: noticeQuiet_def updateHandle_def)

lemma controller_steps:
  assumes "controllerInv sc"
  shows "controllerInv (unsubscribeHandle sc)" "controllerInv (failHandle e sc)" "controllerInv (completeLocal sc)"
    "controllerInv (roundTripSettled v sc)" "controllerInv (sc\<lparr>scListening := False\<rparr>)"
proof -
  note step = controllerStep_inv [OF assms]
  show "controllerInv (unsubscribeHandle sc)" by (rule step [OF ctl_unsubscribe])
  show "controllerInv (failHandle e sc)" by (rule step [OF ctl_fail])
  show "controllerInv (completeLocal sc)" by (rule step [OF ctl_complete])
  show "controllerInv (roundTripSettled v sc)"
    using step [OF ctl_settled] assms by (cases "scUnsubscribing sc = None") (simp_all add: roundTripSettled_def)
  show "controllerInv (sc\<lparr>scListening := False\<rparr>)" using assms by (cases "scCompletion sc") (auto simp: controllerInv_def)
qed

lemma quiet_unsubscribe: "noticeQuiet c (noticeUnsubscribe p h c)"
proof -
  have r: "noticeQuiet c (updateHandle h (roundTripSettled v) c)" for v and c :: "'a noticeClient"
    by (rule quiet_handle) (rule controller_steps)
  have "noticeQuiet c (updateHandle h (roundTripSettled v) (c\<lparr>ncRegistry := dropHandler i h (ncRegistry c)\<rparr>))" for v i
    by (rule quiet_trans [OF quiet_registry r]) simp
  then show ?thesis
    using r by (auto simp: noticeUnsubscribe_def Let_def noticeQuiet_def wireOf_def wireSubs_def setPendingUnsubscribe_def split: option.split)
qed

lemma quiet_handles:
  "noticeQuiet c (handleUnsubscribes p h c)" "noticeQuiet c (handleFails e p h c)" "noticeQuiet c (handleAborts p h c)"
proof -
  show u: "noticeQuiet c (handleUnsubscribes p h c)" for c :: "'a noticeClient"
    by (simp add: handleUnsubscribes_def quiet_trans [OF quiet_handle quiet_unsubscribe] controller_steps)
  show "noticeQuiet c (handleFails e p h c)"
    by (simp add: handleFails_def quiet_trans [OF quiet_handle quiet_unsubscribe] controller_steps)
  show "noticeQuiet c (handleAborts p h c)"
    by (simp add: handleAborts_def quiet_trans [OF quiet_handle u] controller_steps)
qed

lemma create_inv_handle: "noticeQuiet c (handleCreated signal h c)"
  by (simp add: handleCreated_def quiet_handle controller_steps create_controller_inv)

lemma notice_subscribe_inv: "noticeInv c \<Longrightarrow> noticeInv (noticeSubscribe p c)"
  by (cases "ncMutations c = []") (auto simp: noticeInv_def noticeSubscribe_def)

lemma bulk_inv: "noticeInv c \<Longrightarrow> noticeInv (unsubscribeAll c)"
  by (cases "ncMutations c = []") (auto simp: noticeInv_def unsubscribeAll_def)

lemma mutation_done_inv:
  assumes "noticeQuiet c c'" and "noticeInv c" and "ncMutations c = MutSubscribe p # ms" and "flightOf (ncAwaiting c) (ncMutations c) = []"
  shows "noticeInv (mutationDone c')"
  using notice_quiet_inv [OF assms(1,2)] assms(1,3,4) by (auto simp: noticeInv_def mutationDone_def noticeQuiet_def)

lemma registry_subscribe:
  assumes "Registry.subscribe p None g = (r, g')" and "wireOf g = ([], [])"
  shows "(\<forall>h. r = Subscribed h \<longrightarrow> wireOf g' = ([], [])) \<and> (r = WaitsForFlight \<longrightarrow> wireOf g' = ([p], [p]))"
proof -
  have "wireOf k = wireOf g" if "addLocalSubscription p s sig g = (h, k)" for s h k sig
    using that wireOf_add snd_conv by metis
  moreover have "wireOf (g\<lparr>rgFlights := mapSet p ws (rgFlights g), rgOps := rgOps g @ [(WireSubscribe p, None)]\<rparr>) = ([p], [p])"
      "map_of (rgFlights g) p = None" for ws
    using assms(2) by (simp_all add: wireOf_def wireSubs_def)
  ultimately show ?thesis
    using assms by (auto simp: subscribe_def split: option.splits if_splits prod.splits)
qed

lemma turn_inv:
  assumes inv: "noticeInv c" and idle: "\<not> ncAwaiting c"
  shows "noticeInv (mutationTurn signal c)"
proof (cases "ncMutations c")
  case (Cons m ms)
  have w: "wireOf (ncRegistry c) = ([], [])" using inv idle by (simp add: noticeInv_def)
  show ?thesis
  proof (cases m)
    case (MutSubscribe p)
    obtain r g where s: "Registry.subscribe p None (ncRegistry c) = (r, g)" by (cases "Registry.subscribe p None (ncRegistry c)")
    have q: "noticeQuiet c (handleCreated signal h (c\<lparr>ncRegistry := g\<rparr>))" if "r = Subscribed h" for h
      using registry_subscribe [OF s w] that w by (intro quiet_trans [OF quiet_registry create_inv_handle]) simp
    show ?thesis
    proof (cases "assertNoticePattern p")
      case (Inl e)
      then show ?thesis using Cons MutSubscribe idle mutation_done_inv [OF quiet_refl inv, of p ms] by (simp add: mutationTurn_def)
    next
      case (Inr u)
      show ?thesis
      proof (cases r)
        case (Subscribed h)
        then show ?thesis
          using Cons MutSubscribe Inr s idle mutation_done_inv [OF q inv, of h p ms] by (simp add: mutationTurn_def)
      next
        case WaitsForFlight
        then show ?thesis
          using Cons MutSubscribe Inr s inv registry_subscribe [OF s w] by (auto simp: mutationTurn_def noticeInv_def Let_def)
      qed (use Cons MutSubscribe Inr s inv in \<open>simp add: mutationTurn_def\<close>)
    qed
  qed (use Cons inv idle in \<open>auto simp: mutationTurn_def noticeInv_def\<close>)
qed (use inv in \<open>simp add: mutationTurn_def\<close>)

lemma bulk_settled_quiet:
  "noticeQuiet c (fold (\<lambda>(p, h). updateHandle h completeLocal) hs c)"
  "noticeQuiet c (fold (\<lambda>(p, h). handleFails e p h) hs c)"
  by (rule quiet_fold, clarsimp simp: quiet_handle controller_steps, rule quiet_fold, clarsimp simp: quiet_handles)

lemma bulk_settled_inv:
  assumes inv: "noticeInv c" and "ncAwaiting c" and m: "ncMutations c = MutUnsubscribeAll # ms"
  shows "noticeInv (unsubscribeAllSettled answer c)"
proof -
  have fin: "noticeInv (mutationDone (c'\<lparr>ncSkipped := False, ncBulk := ncBulk c' - 1\<rparr>))" if "noticeQuiet c c'" for c'
    using notice_quiet_inv [OF that inv] that m assms(2) by (auto simp: noticeInv_def mutationDone_def noticeQuiet_def)
  have "noticeQuiet c (fold (\<lambda>(p, h). updateHandle h completeLocal) hs (c\<lparr>ncRegistry := clearSubscriptions (ncRegistry c)\<rparr>))"
    for hs :: "(jsstr \<times> nat) list"
    by (rule quiet_trans [OF _ bulk_settled_quiet(1)]) (rule quiet_registry, simp)
  moreover have "noticeQuiet c (c'\<lparr>ncRegistry := clearSubscriptions (ncRegistry c')\<rparr>)"
    if "c' = fold (\<lambda>(p, h). handleFails restoreSkippedError p h) hs c" for c' hs
    using that bulk_settled_quiet(2) by (intro quiet_trans [OF _ quiet_registry]) simp_all
  ultimately show ?thesis
    using fin quiet_refl by (auto simp: unsubscribeAllSettled_def Let_def split: sum.split)
qed

lemma wireOf_settled:
  assumes "rgOps g = pre @ (r, a) # post" and "wireOf g = (f, f)" and "length f \<le> 1"
  shows "case r of WireSubscribe p \<Rightarrow> f = [p] \<and> wireOf (subscribeSettled p b (g\<lparr>rgOps := pre @ post\<rparr>)) = ([], [])
    | WireUnsubscribe t i p \<Rightarrow> wireOf (g\<lparr>rgOps := pre @ post\<rparr>) = (f, f)"
proof (cases r)
  case (WireSubscribe p)
  let ?s = "\<lambda>ops. wireSubs (g\<lparr>rgOps := ops\<rparr>)"
  have "f = ?s pre @ p # ?s post" "?s (pre @ post) = ?s pre @ ?s post" "map fst (rgFlights g) = f"
    using assms WireSubscribe by (simp_all add: wireOf_def wireSubs_def)
  then have f: "f = [p]" "?s (pre @ post) = []" "map fst (rgFlights g) = [p]" using assms(3) by simp_all
  then have "mapDelete p (rgFlights g) = []" by (auto simp: mapDelete_def)
  then have w: "wireOf (g\<lparr>rgOps := pre @ post, rgFlights := mapDelete p (rgFlights g)\<rparr>) = ([], [])"
    using f by (simp add: wireOf_def wireSubs_def)
  have "wireOf (fold (\<lambda>sig g. snd (addLocalSubscription p s sig g)) ws k) = wireOf k" for s ws and k :: "'a registry"
    by (induction ws arbitrary: k) simp_all
  with w f WireSubscribe show ?thesis by (simp add: subscribeSettled_def Let_def split: wireAnswer.split)
next
  case (WireUnsubscribe t i p)
  then show ?thesis using assms by (simp add: wireOf_def wireSubs_def)
qed

lemma unsubscribe_settled_quiet: "noticeQuiet c (noticeUnsubscribeSettled t i p v c)"
proof -
  have u: "noticeQuiet c (updateHandle h (roundTripSettled w) (c\<lparr>ncRegistry := g\<rparr>))" if "wireOf g = wireOf (ncRegistry c)" for h g w
    by (rule quiet_trans [OF quiet_registry [OF that] quiet_handle]) (rule controller_steps)
  define g0 where "g0 = (if ssPendingUnsubscribe (rgObjects (ncRegistry c) ! i) = Some t then setPendingUnsubscribe i None (ncRegistry c) else ncRegistry c)"
  have g0: "wireOf g0 = wireOf (ncRegistry c)" by (simp add: g0_def)
  show ?thesis
    unfolding noticeUnsubscribeSettled_def Let_def g0_def [symmetric]
    by (cases "map_of (ncUnsubscribing c) t"; cases v) (simp_all add: g0 u quiet_registry)
qed

lemma flight_short: "length (flightOf b ms) \<le> 1"
  by (induction b ms rule: flightOf.induct) simp_all

lemma flightOf_single: "flightOf b ms = [p] \<Longrightarrow> b \<and> (\<exists>ns. ms = MutSubscribe p # ns)"
  by (induction b ms rule: flightOf.induct) simp_all

lemma created_wire [simp]: "ncRegistry (handleCreated signal h c) = ncRegistry c"
  by (simp add: handleCreated_def updateHandle_def)

lemma answer_inv:
  assumes inv: "noticeInv c" and ops: "rgOps (ncRegistry c) = pre @ (r, Some a) # post"
  shows "noticeInv (noticeRequestSettled signal r b (c\<lparr>ncRegistry := (ncRegistry c)\<lparr>rgOps := pre @ post\<rparr>\<rparr>))"
proof -
  let ?f = "flightOf (ncAwaiting c) (ncMutations c)"
  have w: "wireOf (ncRegistry c) = (?f, ?f)" using inv by (simp add: noticeInv_def Let_def)
  note s = wireOf_settled [OF ops w flight_short]
  show ?thesis
  proof (cases r)
    case (WireSubscribe p)
    let ?g = "subscribeSettled p b ((ncRegistry c)\<lparr>rgOps := pre @ post\<rparr>)"
    obtain ms where m: "ncAwaiting c" "ncMutations c = MutSubscribe p # ms"
      using s [of b] WireSubscribe flightOf_single [of "ncAwaiting c" "ncMutations c" p] by auto
    have "noticeInv (mutationDone c')" if "noticeQuiet (c\<lparr>ncRegistry := ?g\<rparr>) c'" for c'
      using that inv m s [of b] WireSubscribe by (auto simp: noticeInv_def noticeQuiet_def mutationDone_def)
    then show ?thesis
      using WireSubscribe by (auto simp: noticeSubscribeSettled_def Let_def create_inv_handle split: wireAnswer.split)
  next
    case (WireUnsubscribe t i p)
    then have "noticeQuiet c (c\<lparr>ncRegistry := (ncRegistry c)\<lparr>rgOps := pre @ post\<rparr>\<rparr>)"
      using s w by (intro quiet_registry) simp
    then show ?thesis
      using WireUnsubscribe inv by (simp add: notice_quiet_inv [OF quiet_trans [OF _ unsubscribe_settled_quiet]])
  qed
qed

lemma notice_sent_inv:
  assumes "registryStep g (RequestSent k a) g'"
  shows "wireOf g' = wireOf g"
  using assms by (cases rule: registryStep.cases) (simp_all add: wireOf_def wireSubs_def)

lemma reconnected_inv: "noticeInv c \<Longrightarrow> noticeInv (noticeReconnected c)"
  by (auto simp: noticeInv_def noticeReconnected_def)

lemma noticeStep_inv:
  assumes "noticeInv c" and "noticeStep c e c'"
  shows "noticeInv c'"
  using assms(2,1)
  by cases (simp_all add: notice_subscribe_inv bulk_inv turn_inv answer_inv bulk_settled_inv reconnected_inv
      notice_quiet_inv [OF quiet_handles(1)] notice_quiet_inv [OF quiet_handles(2)] notice_quiet_inv [OF quiet_handles(3)] notice_quiet_inv [OF quiet_registry] notice_sent_inv noticeRestored_def)

lemma notice_create_inv: "noticeInv newNoticeClient"
  by (simp add: newNoticeClient_def noticeInv_def newRegistry_def wireOf_def wireSubs_def)

interpretation notice: machine newNoticeClient noticeStep noticeInv
  by unfold_locales (fact notice_create_inv, rule noticeStep_inv)

section \<open>Theorems\<close>

lemma handleOf_update [simp]: "handleOf h' (updateHandle h f c) = (if h' = h then f (handleOf h c) else handleOf h' c)"
  by (simp add: updateHandle_def handleOf_def)

lemma handleOf_fields [simp]:
  "handleOf h (c\<lparr>ncRegistry := g\<rparr>) = handleOf h c" "handleOf h (c\<lparr>ncSkipped := b, ncBulk := n\<rparr>) = handleOf h c"
  "handleOf h (c\<lparr>ncUnsubscribing := u\<rparr>) = handleOf h c" "handleOf h (mutationDone c) = handleOf h c"
  by (simp_all add: handleOf_def mutationDone_def)

lemma active_settled [simp]: "scActive (roundTripSettled (Inr ()) sc) = scActive sc"
  by (simp add: roundTripSettled_def resolveCompletion_def split: option.split roundTrip.split)

lemma failed_inactive [simp]: "\<not> scActive (failHandle e sc)"
  by (simp add: failHandle_def resolveCompletion_def)

lemma handle_unsubscribe_keeps [simp]: "scActive (handleOf h' (noticeUnsubscribe p h c)) = scActive (handleOf h' c)"
proof -
  have "scActive (handleOf h' (updateHandle h (roundTripSettled (Inr ())) k)) = scActive (handleOf h' k)" for k :: "'a noticeClient"
    by simp
  then show ?thesis by (simp only: noticeUnsubscribe_def Let_def handleOf_fields split: option.split if_split) (simp add: handleOf_def)
qed

lemma handle_fails: "scActive (handleOf h' (handleFails e p h c)) \<longleftrightarrow> scActive (handleOf h' c) \<and> h' \<noteq> h"
  by (auto simp: handleFails_def)

lemma all_fail:
  "scActive (handleOf h' (fold (\<lambda>(p, h). handleFails e p h) hs c)) \<longleftrightarrow> scActive (handleOf h' c) \<and> h' \<notin> snd ` set hs"
  by (induction hs arbitrary: c) (auto simp: handle_fails)

lemma complete_open:
  "controllerInv sc \<Longrightarrow> scCompletion (completeLocal sc) \<noteq> Open \<and> \<not> scActive (completeLocal sc)"
  by (auto simp: completeLocal_def resolveCompletion_def controllerInv_def)

definition settledHandle :: "nat \<Rightarrow> 'n noticeClient \<Rightarrow> bool" where
  "settledHandle h c \<longleftrightarrow> scCompletion (handleOf h c) \<noteq> Open \<and> \<not> scActive (handleOf h c)"

lemma complete_keeps: "settledHandle h' c \<Longrightarrow> settledHandle h' (updateHandle h completeLocal c)"
  by (auto simp: settledHandle_def completeLocal_def resolveCompletion_def)

lemma all_complete:
  assumes "list_all (\<lambda>(h, sc). controllerInv sc) (ncHandles c)" and "h' \<in> snd ` set hs \<or> settledHandle h' c"
  shows "settledHandle h' (fold (\<lambda>(p, h). updateHandle h completeLocal) hs c)"
  using assms
proof (induction hs arbitrary: c)
  case (Cons x hs)
  let ?c = "updateHandle (snd x) completeLocal c"
  have "list_all (\<lambda>(h, sc). controllerInv sc) (ncHandles ?c)"
    using Cons.prems quiet_handle [of completeLocal c "snd x"] controller_steps(3) by (simp add: noticeQuiet_def)
  moreover have "settledHandle (snd x) ?c"
    using complete_open [OF handle_controller [OF Cons.prems(1)]] by (simp add: settledHandle_def)
  moreover have "settledHandle h' ?c" if "settledHandle h' c" using that by (rule complete_keeps)
  ultimately show ?case using Cons.IH [of ?c] Cons.prems(2) by (cases x) auto
qed simp

lemma registry_of_complete: "ncRegistry (fold (\<lambda>(p, h). updateHandle h completeLocal) hs c) = ncRegistry c"
  by (induction hs arbitrary: c) (auto simp: updateHandle_def)

lemma mutationDone_fields [simp]: "ncRegistry (mutationDone c) = ncRegistry c" "ncSkipped (mutationDone c) = ncSkipped c"
  by (simp_all add: mutationDone_def)

lemma cleared_fields [simp]: "rgByPattern (clearSubscriptions g) = []" "rgBySubId (clearSubscriptions g) = []"
  by (simp_all add: clearSubscriptions_def)

text \<open>
  C17: a restoration that a bulk unsubscribe has put off is not forgotten. In every reachable state the bulk
  unsubscribes that wait or run are counted, and a restoration is only skipped while there is one; when it ends, whether the broker
  accepted it or it failed after a skipped restoration, no subscription is left behind and no handle is still
  active, and after a success the completion of each of them is settled.
\<close>

theorem skipped_restore_is_resolved:
  assumes "reachable noticeStep newNoticeClient c"
  shows "ncBulk c = length (filter ((=) MutUnsubscribeAll) (ncMutations c)) \<and> (ncSkipped c \<longrightarrow> ncBulk c > 0) \<and>
    (\<forall>answer. let c' = unsubscribeAllSettled answer c in
       \<not> ncSkipped c' \<and>
       (ncSkipped c \<or> unsubscribeAllAnswered answer = Inr () \<longrightarrow>
          rgByPattern (ncRegistry c') = [] \<and> rgBySubId (ncRegistry c') = [] \<and>
          (\<forall>h \<in> snd ` set (allHandlers (ncRegistry c)). \<not> scActive (handleOf h c'))) \<and>
       (unsubscribeAllAnswered answer = Inr () \<longrightarrow>
          (\<forall>h \<in> snd ` set (allHandlers (ncRegistry c)). scCompletion (handleOf h c') \<noteq> Open)))"
proof -
  have inv: "noticeInv c" by (rule notice.reachable_inv [OF assms])
  then have h: "list_all (\<lambda>(h, sc). controllerInv sc) (ncHandles (c\<lparr>ncRegistry := clearSubscriptions (ncRegistry c)\<rparr>))"
    by (simp add: noticeInv_def)
  show ?thesis
  proof (intro conjI allI)
    fix answer
    let ?hs = "allHandlers (ncRegistry c)"
    show "let c' = unsubscribeAllSettled answer c in
       \<not> ncSkipped c' \<and>
       (ncSkipped c \<or> unsubscribeAllAnswered answer = Inr () \<longrightarrow>
          rgByPattern (ncRegistry c') = [] \<and> rgBySubId (ncRegistry c') = [] \<and>
          (\<forall>h \<in> snd ` set ?hs. \<not> scActive (handleOf h c'))) \<and>
       (unsubscribeAllAnswered answer = Inr () \<longrightarrow> (\<forall>h \<in> snd ` set ?hs. scCompletion (handleOf h c') \<noteq> Open))"
      using all_complete [OF h, of _ ?hs]
      by (cases "unsubscribeAllAnswered answer")
        (auto simp: unsubscribeAllSettled_def Let_def all_fail registry_of_complete settledHandle_def)
  qed (use inv in \<open>auto simp: noticeInv_def\<close>)
qed

text \<open>A client with one subscription, and the signal its handle was created with.\<close>

definition aPattern :: jsstr where
  "aPattern = js ''notice://a''"

definition oneNotice :: "bool option \<Rightarrow> nat noticeClient" where
  "oneNotice signal =
    (let c = mutationTurn signal (noticeSubscribe aPattern newNoticeClient)
     in noticeRequestSettled signal (WireSubscribe aPattern) (WireOk 5) (c\<lparr>ncRegistry := (ncRegistry c)\<lparr>rgOps := [], rgBroker := [aPattern]\<rparr>\<rparr>))"

lemma aPattern_ok [simp]: "assertNoticePattern aPattern = Inr ()"
  by (simp add: aPattern_def assertNoticePattern_def isRegistrationPatternShape_segments route_eval)

lemmas notice_eval = registry_eval noticeSubscribe_def mutationTurn_def newNoticeClient_def noticeSubscribeSettled_def
  handleCreated_def updateHandle_def handleOf_def mutationDone_def subscribeSettled_def

lemma oneNotice_eq:
  "oneNotice signal = \<lparr>ncRegistry = newRegistry\<lparr>rgByPattern := [(aPattern, 0)], rgBySubId := [(5, aPattern)],
       rgObjects := [\<lparr>ssSubId = 5, ssHandlers = [1], ssGeneration = 1, ssPendingUnsubscribe = None\<rparr>], rgGeneration := 1,
       rgNextHandlerId := 2, rgBroker := [aPattern]\<rparr>,
     ncMutations = [], ncAwaiting = False, ncBulk = 0, ncSkipped = False,
     ncHandles = [(1, roundTripSettled (Inr ()) (createSubscriptionController signal))], ncUnsubscribing = []\<rparr>"
  by (simp add: oneNotice_def notice_eval)

lemma oneNotice_reachable:
  "reachable noticeStep newNoticeClient (oneNotice signal)"
proof -
  let ?c = "mutationTurn signal (noticeSubscribe aPattern newNoticeClient) :: nat noticeClient"
  let ?g = "(ncRegistry ?c)\<lparr>rgOps := [(WireSubscribe aPattern, Some (WireOk 5))], rgBroker := [aPattern]\<rparr>"
  have "reachable noticeStep newNoticeClient (noticeSubscribe aPattern newNoticeClient :: nat noticeClient)"
    by (rule reachable_step [where step = noticeStep, OF reachable_start nc_subscribe])
  then have "reachable noticeStep newNoticeClient ?c"
    by (rule reachable_step [where step = noticeStep, OF _ nc_turn]) (simp_all add: noticeSubscribe_def newNoticeClient_def)
  moreover have "registryStep (ncRegistry ?c) (RequestSent 0 (WireOk 5)) ?g"
    using rg_sent [where g = "ncRegistry ?c" and pre = "[]" and r = "WireSubscribe aPattern" and post = "[]" and a = "WireOk 5"]
    by (simp add: notice_eval)
  ultimately have "reachable noticeStep newNoticeClient (?c\<lparr>ncRegistry := ?g\<rparr>)"
    by (blast intro: reachable_step [where step = noticeStep] nc_sent)
  from reachable_step [where step = noticeStep, OF this nc_answer [where pre = "[]" and r = "WireSubscribe aPattern" and post = "[]" and a = "WireOk 5" and signal = signal]]
  show ?thesis by (simp add: oneNotice_def Let_def notice_eval)
qed

theorem skipped_restore_is_resolved_witness:
  "\<exists>c :: nat noticeClient. reachable noticeStep newNoticeClient c \<and> ncSkipped c \<and> rgByPattern (ncRegistry c) \<noteq> [] \<and>
     rgByPattern (ncRegistry (unsubscribeAllSettled (Inl ConnectionError) c)) = []"
proof -
  let ?l = "(unsubscribeAll (oneNotice None))\<lparr>ncRegistry := sessionLost (ncRegistry (oneNotice None))\<rparr>"
  have "reachable noticeStep newNoticeClient (unsubscribeAll (oneNotice None))"
    by (rule reachable_step [where step = noticeStep, OF oneNotice_reachable nc_bulk])
  from reachable_step [where step = noticeStep, OF this nc_lost]
  have "reachable noticeStep newNoticeClient ?l" by (simp add: unsubscribeAll_def)
  from reachable_step [where step = noticeStep, OF this nc_reconnected]
  have r: "reachable noticeStep newNoticeClient (noticeReconnected ?l)" by (simp add: sessionLost_def)
  have s: "ncSkipped (noticeReconnected ?l)" "rgByPattern (ncRegistry (noticeReconnected ?l)) \<noteq> []"
    by (simp_all add: noticeReconnected_def unsubscribeAll_def oneNotice_eq sessionLost_def)
  from skipped_restore_is_resolved [OF r] r s show ?thesis by (auto simp: Let_def)
qed

text \<open>
  C18: the last handler of a pattern stays until the broker has confirmed. Unsubscribing it sends one UNSUBSCRIBE and leaves the subscription
  and its handler in place; when the request fails they stay, and the handle is active again, and when it succeeds both are gone, later
  notifications find no subscription, and the completion of the handle is settled.
\<close>

theorem last_handler_waits_for_broker:
  assumes "map_of (rgByPattern (ncRegistry c)) p = Some i" and "i < length (rgObjects (ncRegistry c))"
    and "ssHandlers (rgObjects (ncRegistry c) ! i) = [h]" and "scActive (handleOf h c)" and "scCompletion (handleOf h c) = Open"
    and "\<not> scTerminalFailure (handleOf h c)" and "\<not> scLocallyCompleted (handleOf h c)"
  shows "let t = rgTokens (ncRegistry c); c1 = handleUnsubscribes p h c;
             failed = noticeUnsubscribeSettled t i p (Inl e) c1; confirmed = noticeUnsubscribeSettled t i p (Inr ()) c1
    in rgOps (ncRegistry c1) = rgOps (ncRegistry c) @ [(WireUnsubscribe t i p, None)] \<and>
      rgByPattern (ncRegistry failed) = rgByPattern (ncRegistry c) \<and> ssHandlers (rgObjects (ncRegistry failed) ! i) = [h] \<and>
      ssPendingUnsubscribe (rgObjects (ncRegistry failed) ! i) = None \<and> scActive (handleOf h failed) \<and>
      map_of (rgByPattern (ncRegistry confirmed)) p = None \<and>
      resolveSubscription (ncRegistry confirmed) (ssSubId (rgObjects (ncRegistry c) ! i)) = None \<and>
      scCompletion (handleOf h confirmed) = Completed"
proof -
  let ?sc = "unsubscribeHandle (handleOf h c)"
  have sc: "?sc = (handleOf h c)\<lparr>scActive := False, scListening := False, scUnsubscribing := Some ExplicitUnsubscribe,
            scRoundTrips := scRoundTrips (handleOf h c) + 1\<rparr>"
    using assms(4) by (simp add: unsubscribeHandle_def)
  have upd: "ncRegistry (updateHandle h f k) = ncRegistry k" "ncUnsubscribing (updateHandle h f k) = ncUnsubscribing k"
    for f and k :: "'a noticeClient" by (simp_all add: updateHandle_def)
  have "\<forall>h. handleOf h (k\<lparr>ncRegistry := g, ncUnsubscribing := u\<rparr>) = handleOf h k" for g u and k :: "'a noticeClient"
    by (simp add: handleOf_def)
  then show ?thesis
    using assms
    by (simp add: handleUnsubscribes_def noticeUnsubscribe_def noticeUnsubscribeSettled_def setPendingUnsubscribe_def dropHandler_def
        isCurrentEmptyState_def resolveSubscription_def upd sc roundTripSettled_def resolveCompletion_def Let_def)
qed

theorem last_handler_waits_for_broker_witness:
  "scActive (handleOf 1 (noticeUnsubscribeSettled 0 0 aPattern (Inl TimeoutError) (handleUnsubscribes aPattern 1 (oneNotice None)))) \<and>
   scCompletion (handleOf 1 (noticeUnsubscribeSettled 0 0 aPattern (Inr ()) (handleUnsubscribes aPattern 1 (oneNotice None)))) = Completed"
  using last_handler_waits_for_broker [of "oneNotice None" aPattern 0 1 TimeoutError]
  by (simp add: oneNotice_eq newRegistry_def handleOf_def createSubscriptionController_def roundTripSettled_def Let_def)

text \<open>
  A subscribe whose signal has aborted leaves its handler behind. The controller disposes of the handle while it is created, before the
  handler is stored; the unsubscribe finds nothing to do, the completion is settled, and then the handler is
  stored and receives every later notification.
\<close>

theorem aborted_subscribe_keeps_handler:
  "let c = oneNotice (Some True) in
     scCompletion (handleOf 1 c) = Completed \<and> \<not> scActive (handleOf 1 c) \<and> handleUnsubscribes aPattern 1 c = c \<and>
     rgDelivered (notified 5 (7 :: nat) (ncRegistry c)) = [(1, 7)]"
  by (simp add: oneNotice_eq newRegistry_def handleOf_def createSubscriptionController_def roundTripSettled_def unsubscribeHandle_def
      resolveCompletion_def handleUnsubscribes_def notified_def dispatchOrQueue_def dispatchNotification_def resolveSubscription_def Let_def)

text \<open>
  An unsubscribe during a restoration is lost. It keeps the state object it found, whose identifier is the one of the lost session;
  the restoration replaces the object, so after the broker has accepted the request, the handle is completed and the handler stays in the
  restored subscription.
\<close>

theorem unsubscribe_lost_in_notice_restore:
  "let c0 = oneNotice None;
       c1 = noticeReconnected (c0\<lparr>ncRegistry := sessionLost (ncRegistry c0)\<rparr>);
       c2 = handleUnsubscribes aPattern 1 c1;
       c3 = noticeRestored (WireOk 6) c2;
       c4 = noticeUnsubscribeSettled 0 0 aPattern (Inr ()) c3
   in rgOps (ncRegistry c2) = [(WireUnsubscribe 0 0 aPattern, None)] \<and> ssSubId (rgObjects (ncRegistry c2) ! 0) = 5 \<and>
     scCompletion (handleOf 1 c4) = Completed \<and> rgDelivered (notified 6 (7 :: nat) (ncRegistry c4)) = [(1, 7)]"
proof -
  let ?c0 = "oneNotice None"
  let ?c1 = "noticeReconnected (?c0\<lparr>ncRegistry := sessionLost (ncRegistry ?c0)\<rparr>)"
  let ?c2 = "handleUnsubscribes aPattern 1 ?c1"
  let ?c3 = "noticeRestored (WireOk 6) ?c2"
  let ?c4 = "noticeUnsubscribeSettled 0 0 aPattern (Inr ()) ?c3"
  let ?sc = "roundTripSettled (Inr ()) (createSubscriptionController None)"
  have sc: "?sc = createSubscriptionController None" "scActive ?sc"
    by (simp_all add: roundTripSettled_def createSubscriptionController_def)
  have c1: "?c1 = \<lparr>ncRegistry = \<lparr>rgByPattern = [(aPattern, 0)], rgBySubId = [(5, aPattern)],
       rgObjects = [\<lparr>ssSubId = 5, ssHandlers = [1], ssGeneration = 1, ssPendingUnsubscribe = None\<rparr>], rgGeneration = 1,
       rgNextHandlerId = 2, rgFlights = [], rgAborted = [], rgPending = [], rgDelivered = [], rgOps = [], rgTokens = 0,
       rgOnline = False, rgRestoring = Some ([(aPattern, 0)], []), rgBroker = []\<rparr>,
     ncMutations = [], ncAwaiting = False, ncBulk = 0, ncSkipped = False,
     ncHandles = [(1, ?sc)], ncUnsubscribing = []\<rparr>"
    by (simp add: oneNotice_eq newRegistry_def noticeReconnected_def sessionLost_def restoreBegin_def)
  have c2: "?c2 = \<lparr>ncRegistry = \<lparr>rgByPattern = [(aPattern, 0)], rgBySubId = [(5, aPattern)],
       rgObjects = [\<lparr>ssSubId = 5, ssHandlers = [1], ssGeneration = 1, ssPendingUnsubscribe = Some 0\<rparr>], rgGeneration = 1,
       rgNextHandlerId = 2, rgFlights = [], rgAborted = [], rgPending = [], rgDelivered = [], rgOps = [(WireUnsubscribe 0 0 aPattern, None)], rgTokens = 1,
       rgOnline = False, rgRestoring = Some ([(aPattern, 0)], []), rgBroker = []\<rparr>,
     ncMutations = [], ncAwaiting = False, ncBulk = 0, ncSkipped = False,
     ncHandles = [(1, unsubscribeHandle ?sc)], ncUnsubscribing = [(0, 1)]\<rparr>"
    using sc(2) by (simp add: c1 handleUnsubscribes_def noticeUnsubscribe_def setPendingUnsubscribe_def handleOf_def updateHandle_def)
  have c3: "?c3 = \<lparr>ncRegistry = \<lparr>rgByPattern = [(aPattern, 1)], rgBySubId = [(6, aPattern)],
       rgObjects = [\<lparr>ssSubId = 5, ssHandlers = [1], ssGeneration = 1, ssPendingUnsubscribe = Some 0\<rparr>,
         \<lparr>ssSubId = 6, ssHandlers = [1], ssGeneration = 1, ssPendingUnsubscribe = None\<rparr>], rgGeneration = 1,
       rgNextHandlerId = 2, rgFlights = [], rgAborted = [], rgPending = [], rgDelivered = [], rgOps = [(WireUnsubscribe 0 0 aPattern, None)], rgTokens = 1,
       rgOnline = False, rgRestoring = None, rgBroker = [aPattern]\<rparr>,
     ncMutations = [], ncAwaiting = False, ncBulk = 0, ncSkipped = False,
     ncHandles = [(1, unsubscribeHandle ?sc)], ncUnsubscribing = [(0, 1)]\<rparr>"
    unfolding c2 by (simp add: noticeRestored_def restoreEntry_def installAll_def installState_def reindex_def flushPending_def flushNotifications_def)
  moreover have "rgOps (ncRegistry ?c2) = [(WireUnsubscribe 0 0 aPattern, None)]" "ssSubId (rgObjects (ncRegistry ?c2) ! 0) = 5"
    unfolding c2 by simp_all
  moreover have "scCompletion (handleOf 1 ?c4) = Completed \<and> rgDelivered (notified 6 7 (ncRegistry ?c4)) = [(1, 7)]"
    unfolding c3
    by (simp add: sc noticeUnsubscribeSettled_def setPendingUnsubscribe_def dropHandler_def isCurrentEmptyState_def handleOf_def updateHandle_def
        notified_def dispatchOrQueue_def dispatchNotification_def resolveSubscription_def)
      (simp add: createSubscriptionController_def unsubscribeHandle_def roundTripSettled_def resolveCompletion_def)
  ultimately show ?thesis unfolding Let_def by blast
qed

end
