(* ===== verification/QueueClient.thy ===== *)
theory QueueClient
  imports QueueCodec Registry WakeGate Extensions
begin

text \<open>
  The Queue client, \<^verbatim>\<open>domains/queue/client.ts\<close>, and the reserved item of \<^verbatim>\<open>domains/queue/types.ts\<close>: its requests and their answers,
  the life of an item, and the generator \<^verbatim>\<open>reserveWhenAvailable\<close> as a state machine around the wake
  gate. Its subscriptions live in the registry. A request is the payload that is sent, or the
  error that is thrown before; the answer of the broker is the argument of the second half.
\<close>

section \<open>Guards and answers\<close>

definition assertQueueRoute :: "jsstr \<Rightarrow> unit result" where
  "assertQueueRoute route =
    (if isRouteShape route (js ''queue'') 3 False then Inr () else Inl (QueueError ''INVALID_ROUTE'' None))"

definition assertQueueReserveRoute :: "jsstr \<Rightarrow> unit result" where
  "assertQueueReserveRoute route =
    (if isRegistrationPatternShape route (js ''queue'') 3 then Inr () else Inl (QueueError ''INVALID_ROUTE'' None))"

definition assertQueueSubscriptionPattern :: "jsstr \<Rightarrow> unit result" where
  "assertQueueSubscriptionPattern pat =
    (if isRegistrationPatternShape pat (js ''queue'') 3 then Inr () else Inl (QueueError ''INVALID_ROUTE'' None))"

definition queueStatusName :: "nat \<Rightarrow> string" where
  "queueStatusName status =
    (if status = 1 \<or> status = 4004 then ''QueueNotFound''
     else if status = 2 \<or> status = 4003 then ''MessageNotFound''
     else if status = 3 \<or> status = 4001 then ''InvalidToken''
     else if status = 4 \<or> status = 4005 then ''QueueFull''
     else if status = 5 then ''InvalidDelay''
     else if status = 4002 then ''LeaseExpired''
     else if status = 4009 then ''Unauthorized''
     else ''Unknown('' @ decimal status @ '')'')"

text \<open>An accepted reply has the status OK; the status of a refused one is 1, whatever its code.\<close>

definition queueCheckStatus :: "'a reply \<Rightarrow> 'a result" where
  "queueCheckStatus reply =
    (case reply of
       Accepted v \<Rightarrow> Inr v
     | Refused r \<Rightarrow>
         (let errorCode = (case rfCode r of Some c \<Rightarrow> c | None \<Rightarrow> rfStatus r) in
          Inl (attachResilienceMeta
            (attachErrorDisposition (QueueError (queueStatusName errorCode) (Some errorCode)) (rfClass r) (rfEffect r))
            \<lparr>rmBoundary = PostSend, rmFailure = FDomain, rmExplicitNegative = True\<rparr>)))"

section \<open>Requests\<close>

datatype queueSending = PlainFrame bytes | ExtendedFrame bytes

definition CAP_QUEUE_MESSAGE_TTL :: nat where "CAP_QUEUE_MESSAGE_TTL = 1"
definition CAP_QUEUE_NACK :: nat where "CAP_QUEUE_NACK = 2"

definition hasCapability :: "nat \<Rightarrow> nat list option \<Rightarrow> bool" where
  "hasCapability cap ids = (case ids of None \<Rightarrow> False | Some l \<Rightarrow> cap \<in> set l)"

text \<open>
  One attempt of \<^verbatim>\<open>enqueue\<close>; the retry loop around it is modelled on its own. \<open>ids\<close> are the negotiated capabilities, if there are any.
\<close>

definition enqueueAttempt ::
  "jsstr \<Rightarrow> bytes \<Rightarrow> jsnum option \<Rightarrow> jsnum option \<Rightarrow> nat list option \<Rightarrow> bool \<Rightarrow> queueSending result" where
  "enqueueAttempt route body delaySeconds ttlHours ids requestWithFlags =
    andThen (queueEncodeEnqueue route body delaySeconds) (\<lambda>payload.
      case ttlHours of
        None \<Rightarrow> Inr (PlainFrame payload)
      | Some ttl \<Rightarrow>
          if \<not> isInteger ttl \<or> jsInt ttl \<le> 0 \<or> jsInt ttl > 0xffffffff then Inl (QueueError ''INVALID_TTL'' None)
          else if \<not> hasCapability CAP_QUEUE_MESSAGE_TTL ids \<or> \<not> requestWithFlags
          then Inl (QueueError ''UNSUPPORTED_CAPABILITY'' None)
          else andThen (encodeExtensions payload [(JInt 1, be 4 (jsInt ttl))]) (\<lambda>payload. Inr (ExtendedFrame payload)))"

definition enqueue ::
  "jsstr \<Rightarrow> bool \<Rightarrow> bytes \<Rightarrow> jsnum option \<Rightarrow> jsnum option \<Rightarrow> nat list option \<Rightarrow> bool \<Rightarrow> queueSending result" where
  "enqueue route hasLegacyOption body delaySeconds ttlHours ids requestWithFlags =
    andThen (assertQueueRoute route) (\<lambda>_.
      if hasLegacyOption then Inl (QueueError ''UNSUPPORTED_OPTION'' None)
      else enqueueAttempt route body delaySeconds ttlHours ids requestWithFlags)"

definition enqueueAnswered :: "bytes \<Rightarrow> unit result" where
  "enqueueAnswered response =
    andThen (queueDecodeEnqueueResponse response) (\<lambda>reply. andThen (queueCheckStatus reply) (\<lambda>_. Inr ()))"

definition reserveOnce :: "jsstr \<Rightarrow> jsnum \<Rightarrow> int \<Rightarrow> jsnum option \<Rightarrow> bytes result" where
  "reserveOnce route leaseSeconds batchSize waitSeconds = queueEncodeReserve route leaseSeconds (Some batchSize) waitSeconds"

definition reserveAnswered :: "jsstr \<Rightarrow> bytes \<Rightarrow> leasedItem list result" where
  "reserveAnswered route response = andThen (queueDecodeReserveResponse (Some route) response) queueCheckStatus"

definition reserve :: "jsstr \<Rightarrow> jsnum \<Rightarrow> jsnum option \<Rightarrow> jsnum option \<Rightarrow> bytes result" where
  "reserve route leaseSeconds batchSize waitSeconds =
    andThen (assertQueueReserveRoute route) (\<lambda>_.
      let batch = (case batchSize of None \<Rightarrow> JInt 1 | Some n \<Rightarrow> n) in
      if \<not> isInteger batch \<or> jsInt batch < 0 \<or> jsInt batch > 1024 then Inl (QueueError ''INVALID_BATCH_SIZE'' None)
      else reserveOnce route leaseSeconds (jsInt batch) (Some (case waitSeconds of None \<Rightarrow> JInt 0 | Some n \<Rightarrow> n)))"

definition queueSubscribe :: "jsstr \<Rightarrow> nat option \<Rightarrow> 'n registry \<Rightarrow> (subscribeStep \<times> 'n registry) result" where
  "queueSubscribe pat sig g = andThen (assertQueueSubscriptionPattern pat) (\<lambda>_. Inr (Registry.subscribe pat sig g))"

definition queueSubscribeAnswered :: "bytes \<Rightarrow> wireAnswer" where
  "queueSubscribeAnswered response =
    (case andThen (queueDecodeSubscribeResponse response) queueCheckStatus of Inl e \<Rightarrow> WireError e | Inr subId \<Rightarrow> WireOk subId)"

definition queueUnsubscribeAnswered :: "bytes \<Rightarrow> wireAnswer" where
  "queueUnsubscribeAnswered response =
    (case andThen (queueDecodeUnsubscribeResponse response) queueCheckStatus of Inl e \<Rightarrow> WireError e | Inr _ \<Rightarrow> WireOk 0)"

definition queueReceived :: "bytes \<Rightarrow> (jsstr \<times> nat \<times> nat \<times> nat) registry \<Rightarrow> (jsstr \<times> nat \<times> nat \<times> nat) registry" where
  "queueReceived payload g =
    (case queueDecodeNotification payload of
       Inl e \<Rightarrow> g
     | Inr n \<Rightarrow> notified (qnSubId n) (qnRoute n, qnReady n, qnDelayed n, qnInflight n) g)"

section \<open>A reserved item\<close>

record queueItem =
  qiRoute :: jsstr
  qiId :: nat
  qiToken :: nat
  qiClosed :: bool
  qiListening :: bool

definition createQueueItem :: "leasedItem \<Rightarrow> queueItem" where
  "createQueueItem i = \<lparr>qiRoute = itemRoute i, qiId = itemId i, qiToken = itemToken i, qiClosed = False, qiListening = True\<rparr>"

definition itemDisconnected :: "queueItem \<Rightarrow> queueItem" where
  "itemDisconnected q = (if qiListening q then q\<lparr>qiClosed := True, qiListening := False\<rparr> else q)"

definition itemEnsureOpen :: "queueItem \<Rightarrow> unit result" where
  "itemEnsureOpen q = (if qiClosed q then Inl (QueueError ''ITEM_CLOSED'' None) else Inr ())"

definition itemExtend :: "jsnum \<Rightarrow> queueItem \<Rightarrow> bytes result" where
  "itemExtend leaseSeconds q =
    andThen (itemEnsureOpen q) (\<lambda>_. queueEncodeExtend (qiRoute q) (int (qiId q)) (int (qiToken q)) leaseSeconds)"

definition itemRefused :: "string \<Rightarrow> unit reply \<Rightarrow> unit result" where
  "itemRefused code reply =
    (case reply of
       Accepted v \<Rightarrow> Inr ()
     | Refused r \<Rightarrow> Inl (attachErrorDisposition (QueueError code (rfCode r)) (rfClass r) (rfEffect r)))"

definition itemExtendAnswered :: "bytes \<Rightarrow> unit result" where
  "itemExtendAnswered response = andThen (queueDecodeExtendResponse response) (itemRefused ''EXTEND_FAILED'')"

definition itemComplete :: "queueItem \<Rightarrow> bytes result" where
  "itemComplete q = andThen (itemEnsureOpen q) (\<lambda>_. queueEncodeComplete (qiRoute q) (int (qiId q)) (int (qiToken q)))"

definition itemEnds :: "unit result \<Rightarrow> queueItem \<Rightarrow> unit result \<times> queueItem" where
  "itemEnds r q = (r, if r = Inr () then q\<lparr>qiClosed := True, qiListening := False\<rparr> else q)"

definition itemCompleteAnswered :: "bytes result \<Rightarrow> queueItem \<Rightarrow> unit result \<times> queueItem" where
  "itemCompleteAnswered response q =
    itemEnds (andThen response (\<lambda>b. andThen (queueDecodeCompleteResponse b) (itemRefused ''COMPLETE_FAILED''))) q"

definition itemNack :: "jsnum option \<Rightarrow> nat list option \<Rightarrow> queueItem \<Rightarrow> bytes result" where
  "itemNack visibilitySeconds ids q =
    andThen (itemEnsureOpen q) (\<lambda>_.
      let seconds = (case visibilitySeconds of None \<Rightarrow> JInt 0 | Some n \<Rightarrow> n) in
      if \<not> isSafeInteger seconds \<or> jsInt seconds < 0 then Inl (QueueError ''INVALID_DELAY'' None)
      else if \<not> hasCapability CAP_QUEUE_NACK ids then Inl (QueueError ''UNSUPPORTED_CAPABILITY'' None)
      else queueEncodeExtend (qiRoute q) (int (qiId q)) (int (qiToken q)) seconds)"

definition itemNackAnswered :: "bytes result \<Rightarrow> queueItem \<Rightarrow> unit result \<times> queueItem" where
  "itemNackAnswered response q =
    itemEnds (andThen response (\<lambda>b. andThen (queueDecodeCompleteResponse b) (itemRefused ''NACK_FAILED''))) q"

section \<open>\<^verbatim>\<open>reserveWhenAvailable\<close>\<close>

text \<open>
  The generator between its awaits. \<open>RvReserving v\<close> has observed the version \<open>v\<close> of the gate and awaits the answer of its RESERVE;
  \<open>RvWaiting v i\<close> awaits the call \<open>i\<close> of \<^verbatim>\<open>waitAfter\<close>. \<open>rvAnswers\<close> collects the batches the broker gave out, as a specification.
\<close>

datatype reservePhase =
    RvSubscribing | RvReserving nat | RvYielding | RvWaiting nat nat
  | RvUnsubscribing "unit result" | RvOver "unit result"

record 'i reserver =
  rvGate :: wakeGate
  rvPhase :: reservePhase
  rvSignal :: "nat option"
  rvListening :: bool
  rvSubscribed :: bool
  rvSent :: nat
  rvYielded :: "'i list list"
  rvAnswers :: "'i list list"

definition reserveWhenAvailable :: "nat option \<Rightarrow> 'i reserver" where
  "reserveWhenAvailable signal = \<lparr>rvGate = createWakeGate, rvPhase = RvSubscribing, rvSignal = signal, rvListening = False,
     rvSubscribed = False, rvSent = 0, rvYielded = [], rvAnswers = []\<rparr>"

definition reserveTurn :: "'i reserver \<Rightarrow> 'i reserver" where
  "reserveTurn s = s\<lparr>rvPhase := RvReserving (wkVersion (rvGate s)), rvSent := rvSent s + 1\<rparr>"

definition reserveFinally :: "unit result \<Rightarrow> 'i reserver \<Rightarrow> 'i reserver" where
  "reserveFinally r s = s\<lparr>rvListening := False, rvPhase := RvUnsubscribing r\<rparr>"

definition reserverSubscribed :: "unit result \<Rightarrow> 'i reserver \<Rightarrow> 'i reserver" where
  "reserverSubscribed r s =
    (case r of
       Inl e \<Rightarrow> s\<lparr>rvPhase := RvOver (Inl e)\<rparr>
     | Inr _ \<Rightarrow> reserveTurn (s\<lparr>rvSubscribed := True, rvListening := True\<rparr>))"

definition reserverAnswered :: "nat \<Rightarrow> 'i list result \<Rightarrow> 'i reserver \<Rightarrow> 'i reserver" where
  "reserverAnswered observed r s =
    (case r of
       Inl e \<Rightarrow> reserveFinally (Inl e) s
     | Inr items \<Rightarrow>
         (let s = s\<lparr>rvAnswers := rvAnswers s @ [items]\<rparr> in
          if length items > 0 then s\<lparr>rvYielded := rvYielded s @ [items], rvPhase := RvYielding\<rparr>
          else s\<lparr>rvGate := waitAfter observed (rvSignal s) (rvGate s), rvPhase := RvWaiting observed (wkCalls (rvGate s))\<rparr>))"

definition reserverResumes :: "wakeOutcome \<Rightarrow> 'i reserver \<Rightarrow> 'i reserver" where
  "reserverResumes o' s =
    (case o' of Woken _ \<Rightarrow> reserveTurn s | WaitAborted e \<Rightarrow> reserveFinally (Inl e) s)"

text \<open>The unsubscribe of the \<^verbatim>\<open>finally\<close> block has settled, either way.\<close>

definition reserverUnsubscribed :: "unit result \<Rightarrow> 'i reserver \<Rightarrow> 'i reserver" where
  "reserverUnsubscribed r s = s\<lparr>rvSubscribed := False, rvPhase := RvOver r\<rparr>"

definition reserverWakes :: "'i reserver \<Rightarrow> 'i reserver" where
  "reserverWakes s = s\<lparr>rvGate := snd (wake (rvGate s))\<rparr>"

datatype 'i reserverEvent =
    RvSubscribed "unit result" | RvAnswered "'i list result" | RvNext | RvReturn | RvNotified | RvReconnected | RvDisconnected
  | RvResumes | RvAborted nat | RvListener | RvUnsubscribed

inductive reserverStep :: "'i reserver \<Rightarrow> 'i reserverEvent \<Rightarrow> 'i reserver \<Rightarrow> bool" where
  rv_subscribed: "rvPhase s = RvSubscribing \<Longrightarrow> reserverStep s (RvSubscribed r) (reserverSubscribed r s)"
| rv_answered: "rvPhase s = RvReserving v \<Longrightarrow> reserverStep s (RvAnswered r) (reserverAnswered v r s)"
| rv_next: "rvPhase s = RvYielding \<Longrightarrow> reserverStep s RvNext (reserveTurn s)"
| rv_return: "rvPhase s = RvYielding \<Longrightarrow> reserverStep s RvReturn (reserveFinally (Inr ()) s)"
| rv_notified: "rvSubscribed s \<Longrightarrow> reserverStep s RvNotified (reserverWakes s)"
| rv_reconnected: "rvListening s \<Longrightarrow> reserverStep s RvReconnected (reserverWakes s)"
| rv_disconnected: "rvListening s \<Longrightarrow> reserverStep s RvDisconnected (reserverWakes s)"
| rv_resumes: "rvPhase s = RvWaiting v i \<Longrightarrow> wkOutcome (rvGate s) i = Some o' \<Longrightarrow> reserverStep s RvResumes (reserverResumes o' s)"
| rv_aborted: "reserverStep s (RvAborted k) (s\<lparr>rvGate := wakeAbort k (rvGate s)\<rparr>)"
| rv_listener: "w \<in> set (wkWaiters (rvGate s)) \<Longrightarrow> wakeSignalAborted (wkSignal w) (rvGate s) \<Longrightarrow>
    reserverStep s RvListener (s\<lparr>rvGate := wakeOnAbort w (rvGate s)\<rparr>)"
| rv_unsubscribed: "rvPhase s = RvUnsubscribing r \<Longrightarrow> reserverStep s RvUnsubscribed (reserverUnsubscribed r s)"

section \<open>Properties of an item\<close>

datatype itemEvent = ItemDisconnected | ItemCompleted "bytes result" | ItemNacked "bytes result"

inductive itemStep :: "queueItem \<Rightarrow> itemEvent \<Rightarrow> queueItem \<Rightarrow> bool" where
  item_disconnected: "itemStep q ItemDisconnected (itemDisconnected q)"
| item_completed: "itemStep q (ItemCompleted r) (snd (itemCompleteAnswered r q))"
| item_nacked: "itemStep q (ItemNacked r) (snd (itemNackAnswered r q))"

definition itemInv :: "queueItem \<Rightarrow> bool" where
  "itemInv q \<longleftrightarrow> qiListening q = (\<not> qiClosed q)"

lemma itemStep_inv: "itemInv q \<Longrightarrow> itemStep q e q' \<Longrightarrow> itemInv q'"
  by (auto elim!: itemStep.cases simp: itemInv_def itemDisconnected_def itemCompleteAnswered_def itemNackAnswered_def itemEnds_def split: if_splits)

interpretation queueItem: machine "createQueueItem i" itemStep itemInv for i
  by unfold_locales (simp add: itemInv_def createQueueItem_def, rule itemStep_inv)

lemma item_closed_step: "itemStep q e q' \<Longrightarrow> qiClosed q \<Longrightarrow> qiClosed q'"
  by (auto elim!: itemStep.cases simp: itemDisconnected_def itemCompleteAnswered_def itemNackAnswered_def itemEnds_def split: if_splits)

lemma item_closed_run: "run itemStep q es q' \<Longrightarrow> qiClosed q \<Longrightarrow> qiClosed q'"
  by (induction rule: run.induct) (auto intro: item_closed_step)

text \<open>
  C20: a settled reservation is never used again. An item is closed by a disconnect or by an accepted COMPLETE or NACK,
  and only by these; then it has given up its disconnect listener, every operation throws without a request, and no later event opens it
  again. A refused COMPLETE or NACK leaves it open.
\<close>

theorem closed_item_sends_nothing:
  assumes "reachable itemStep (createQueueItem i) q"
  shows "qiListening q = (\<not> qiClosed q) \<and>
    qiClosed (itemDisconnected q) \<and>
    (\<forall>r. qiClosed (snd (itemCompleteAnswered r q)) \<longleftrightarrow> qiClosed q \<or> fst (itemCompleteAnswered r q) = Inr ()) \<and>
    (\<forall>r. qiClosed (snd (itemNackAnswered r q)) \<longleftrightarrow> qiClosed q \<or> fst (itemNackAnswered r q) = Inr ()) \<and>
    (qiClosed q \<longrightarrow> (\<forall>es q'. run itemStep q es q' \<longrightarrow>
       (\<forall>n ids. itemExtend n q' = Inl (QueueError ''ITEM_CLOSED'' None) \<and> itemComplete q' = Inl (QueueError ''ITEM_CLOSED'' None) \<and>
          itemNack (Some n) ids q' = Inl (QueueError ''ITEM_CLOSED'' None))))"
proof -
  have "itemInv q" by (rule queueItem.reachable_inv [OF assms])
  moreover have "qiClosed q'" if "run itemStep q es q'" "qiClosed q" for es q' using item_closed_run that .
  then have "\<forall>es q'. run itemStep q es q' \<and> qiClosed q \<longrightarrow>
       (\<forall>n ids. itemExtend n q' = Inl (QueueError ''ITEM_CLOSED'' None) \<and> itemComplete q' = Inl (QueueError ''ITEM_CLOSED'' None) \<and>
          itemNack (Some n) ids q' = Inl (QueueError ''ITEM_CLOSED'' None))"
    by (auto simp: itemExtend_def itemComplete_def itemNack_def itemEnsureOpen_def)
  ultimately show ?thesis
    by (auto simp: itemInv_def itemDisconnected_def itemCompleteAnswered_def itemNackAnswered_def itemEnds_def split: if_splits)
qed

theorem closed_item_sends_nothing_witness:
  "itemExtend (JInt 5) (itemDisconnected (createQueueItem \<lparr>itemRoute = js ''queue://a/b/c'', itemId = 1, itemToken = 2, itemBody = []\<rparr>)) = Inl (QueueError ''ITEM_CLOSED'' None)"
proof -
  have r: "reachable itemStep (createQueueItem \<lparr>itemRoute = js ''queue://a/b/c'', itemId = 1, itemToken = 2, itemBody = []\<rparr>) (itemDisconnected (createQueueItem \<lparr>itemRoute = js ''queue://a/b/c'', itemId = 1, itemToken = 2, itemBody = []\<rparr>))"
    by (rule reachable_step [where step = itemStep, OF reachable_start item_disconnected])
  have "qiClosed (itemDisconnected (createQueueItem \<lparr>itemRoute = js ''queue://a/b/c'', itemId = 1, itemToken = 2, itemBody = []\<rparr>))" by (simp add: itemDisconnected_def createQueueItem_def)
  with closed_item_sends_nothing [OF r] show ?thesis using run_none [of itemStep] by blast
qed

section \<open>Properties of the generator\<close>

text \<open>
  The broker has answered everything that was asked but the request in flight; what was yielded are the batches that were not
  empty. While the generator is parked no wake has come since it observed the gate, before it asked.
\<close>

definition reserverInv :: "'i reserver \<Rightarrow> bool" where
  "reserverInv s \<longleftrightarrow> wakeInv (rvGate s) \<and> rvYielded s = filter (\<lambda>b. b \<noteq> []) (rvAnswers s) \<and>
     (case rvPhase s of
        RvSubscribing \<Rightarrow> \<not> rvListening s \<and> \<not> rvSubscribed s \<and> rvSent s = 0 \<and> rvAnswers s = []
      | RvReserving v \<Rightarrow> rvListening s \<and> rvSubscribed s \<and> v \<le> wkVersion (rvGate s) \<and> rvSent s = length (rvAnswers s) + 1
      | RvYielding \<Rightarrow> rvListening s \<and> rvSubscribed s \<and> rvSent s = length (rvAnswers s) \<and> rvAnswers s \<noteq> []
      | RvWaiting v i \<Rightarrow> rvListening s \<and> rvSubscribed s \<and> rvSent s = length (rvAnswers s) \<and> rvAnswers s \<noteq> [] \<and>
          last (rvAnswers s) = [] \<and> i < wkCalls (rvGate s) \<and> (wkOutcome (rvGate s) i = None \<longrightarrow> wkVersion (rvGate s) = v)
      | RvUnsubscribing r \<Rightarrow> \<not> rvListening s \<and> rvSubscribed s
      | RvOver r \<Rightarrow> \<not> rvListening s \<and> \<not> rvSubscribed s)"

lemma gate_inv:
  assumes "reserverInv s" and "wakeStep (rvGate s) e g"
    and "\<And>v i. rvPhase s = RvWaiting v i \<Longrightarrow> wkOutcome g i = None \<Longrightarrow> wkVersion g = wkVersion (rvGate s)"
  shows "reserverInv (s\<lparr>rvGate := g\<rparr>)"
proof -
  have w: "wakeInv g" "wakeInv (rvGate s)" using assms(1,2) wakeStep_inv by (auto simp: reserverInv_def)
  have "wkVersion (rvGate s) \<le> wkVersion g" if "i < wkCalls (rvGate s)" for i
    using wakeStep_effect(2) [OF w(2) assms(2) that] .
  have mono: "wkVersion (rvGate s) \<le> wkVersion g"
    using assms(2) by (auto elim!: wakeStep.cases simp: wake_facts waitNext_def waitAfter_def wakeAbort_def wakeOnAbort_def Let_def)
  show ?thesis
  proof (cases "rvPhase s")
    case (RvWaiting v i)
    then have i: "i < wkCalls (rvGate s)" "wkOutcome (rvGate s) i = None \<longrightarrow> wkVersion (rvGate s) = v"
      using assms(1) by (simp_all add: reserverInv_def)
    have "wkOutcome (rvGate s) i = None" if "wkOutcome g i = None"
      using wakeStep_effect(3) [OF w(2) assms(2) i(1)] that by (cases "wkOutcome (rvGate s) i") auto
    then show ?thesis
      using assms(1) RvWaiting i assms(3) [OF RvWaiting] wakeStep_effect(1) [OF w(2) assms(2) i(1)] w by (auto simp: reserverInv_def)
  qed (use assms(1) w mono in \<open>auto simp: reserverInv_def\<close>)
qed

lemma wakes_inv:
  assumes "reserverInv s"
  shows "reserverInv (reserverWakes s)"
  unfolding reserverWakes_def
proof (rule gate_inv [OF assms wake_wake])
  fix v i assume p: "rvPhase s = RvWaiting v i" and n: "wkOutcome (snd (wake (rvGate s))) i = None"
  have "wakeInv (rvGate s)" "i < wkCalls (rvGate s)" using assms p by (simp_all add: reserverInv_def)
  then show "wkVersion (snd (wake (rvGate s))) = wkVersion (rvGate s)"
    using wakeStep_effect(5) [OF _ wake_wake] n by blast
qed

lemma reserveTurn_inv:
  assumes "reserverInv s" and "rvListening s" and "rvSubscribed s" and "rvSent s = length (rvAnswers s)"
  shows "reserverInv (reserveTurn s)"
  using assms by (auto simp: reserverInv_def reserveTurn_def)

lemma reserveFinally_inv: "reserverInv s \<Longrightarrow> rvSubscribed s \<Longrightarrow> reserverInv (reserveFinally r s)"
  by (auto simp: reserverInv_def reserveFinally_def)

lemma reserve_answered_inv:
  assumes inv: "reserverInv s" and p: "rvPhase s = RvReserving v"
  shows "reserverInv (reserverAnswered v r s)"
proof (cases r)
  case (Inl e)
  then show ?thesis using inv p by (auto simp: reserverAnswered_def reserverInv_def reserveFinally_def)
next
  case (Inr items)
  show ?thesis
  proof (cases "items = []")
    case False
    then show ?thesis using Inr inv p by (auto simp: reserverAnswered_def reserverInv_def)
  next
    case True
    have f: "wakeInv (rvGate s)" "v \<le> wkVersion (rvGate s)" using inv p by (simp_all add: reserverInv_def)
    have "wkCalls (rvGate s) < wkCalls (waitAfter v sig (rvGate s))"
      "wkOutcome (waitAfter v sig (rvGate s)) (wkCalls (rvGate s)) = None \<longrightarrow> wkVersion (waitAfter v sig (rvGate s)) = v" for sig
      using f(2) by (auto simp: waitAfter_def Let_def)
    then show ?thesis using True Inr inv p wakeInv_wait [OF f(1)] by (simp add: reserverAnswered_def reserverInv_def)
  qed
qed

lemma parkedD:
  assumes "reserverInv s" and "rvPhase s = RvYielding \<or> rvPhase s = RvWaiting v i"
  shows "rvListening s" "rvSubscribed s" "rvSent s = length (rvAnswers s)"
  using assms by (auto simp: reserverInv_def)

lemma reserverStep_inv: "reserverInv s \<Longrightarrow> reserverStep s e s' \<Longrightarrow> reserverInv s'"
proof (erule reserverStep.cases, goal_cases)
  case (1 t r)
  then show ?case by (auto simp: reserverSubscribed_def reserverInv_def reserveTurn_def split: sum.split)
next
  case (2 t v r)
  then show ?case using reserve_answered_inv by simp
next
  case (3 t)
  then show ?case using reserveTurn_inv [of t] parkedD [of t] by blast
next
  case (4 t)
  then show ?case using reserveFinally_inv [of t] parkedD [of t] by blast
next
  case (8 t v i o')
  then show ?case
    using reserveTurn_inv [of t] reserveFinally_inv [of t] parkedD [of t v i]
    by (cases o') (simp_all add: reserverResumes_def)
next
  case (9 t k)
  then show ?case using gate_inv [OF _ wake_abort] by (auto simp: wakeAbort_def)
next
  case (10 w t)
  then show ?case using gate_inv [OF _ wake_listener] by (auto simp: wakeOnAbort_def)
next
  case (11 t r)
  then show ?case by (auto simp: reserverInv_def reserverUnsubscribed_def)
qed (simp_all add: wakes_inv)

interpretation reserver: machine "reserveWhenAvailable signal" reserverStep reserverInv for signal
  by unfold_locales
    (simp add: reserverInv_def reserveWhenAvailable_def wakeInv_def createWakeGate_def wakeWaiting_def, rule reserverStep_inv)

text \<open>
  What can have happened since a RESERVE was sent, as long as no further one is: the version that was observed before it is still the
  one the generator goes by, and every notification, reconnect and disconnect has raised the version of the gate.
\<close>

fun wakes :: "'i reserverEvent \<Rightarrow> bool" where
  "wakes RvNotified = True"
| "wakes RvReconnected = True"
| "wakes RvDisconnected = True"
| "wakes _ = False"

fun sameRequest :: "nat \<Rightarrow> reservePhase \<Rightarrow> bool" where
  "sameRequest v RvSubscribing = False"
| "sameRequest v (RvReserving u) = (u = v)"
| "sameRequest v (RvWaiting u i) = (u = v)"
| "sameRequest v _ = True"

lemma gate_version: "wakeStep g e g' \<Longrightarrow> wkVersion g \<le> wkVersion g'"
  by (auto elim!: wakeStep.cases simp: wake_facts waitNext_def waitAfter_def wakeAbort_def wakeOnAbort_def Let_def)

lemma reserver_step_watch:
  assumes "reserverStep s e s'"
  shows "rvSent s \<le> rvSent s' \<and> wkVersion (rvGate s) + (if wakes e then 1 else 0) \<le> wkVersion (rvGate s') \<and>
    (rvSent s' = rvSent s \<longrightarrow> sameRequest v (rvPhase s) \<longrightarrow> sameRequest v (rvPhase s'))"
  using assms
proof cases
  case (rv_answered u r)
  then show ?thesis
    by (auto simp: reserverAnswered_def reserveFinally_def waitAfter_def Let_def split: sum.split)
next
  case (rv_resumes u i o')
  then show ?thesis by (auto simp: reserverResumes_def reserveTurn_def reserveFinally_def split: wakeOutcome.split)
next
  case (rv_aborted k)
  then show ?thesis by (simp add: wakeAbort_def)
next
  case (rv_listener w)
  then show ?thesis using gate_version [OF wake_listener] by simp
qed (auto simp: reserverSubscribed_def reserveTurn_def reserveFinally_def reserverUnsubscribed_def reserverWakes_def wake_facts
    split: sum.split)

lemma reserver_run_watch:
  assumes "run reserverStep s es s'" and "sameRequest v (rvPhase s)"
  shows "rvSent s \<le> rvSent s' \<and> wkVersion (rvGate s) + (if \<exists>e \<in> set es. wakes e then 1 else 0) \<le> wkVersion (rvGate s') \<and>
    (rvSent s' = rvSent s \<longrightarrow> sameRequest v (rvPhase s'))"
  using assms
proof (induction rule: run.induct)
  case (run_more s es s1 e s2)
  then show ?case using reserver_step_watch [OF run_more.hyps(2), of v] by (auto split: if_splits)
qed simp

text \<open>
  C19: an availability is never missed. In every reachable state of the generator, what was yielded are the non-empty batches the broker gave
  out, in order. Once a RESERVE has been sent, any notification, reconnect or disconnect that comes
  after it, before or after its answer, settles the wait that follows the empty answer: while the
  generator is parked and unsettled, no such event has come since the RESERVE. The next one settles the wait,
  after which it sends another RESERVE. When it is over, its subscription and its listeners are gone.
\<close>

theorem availability_never_missed:
  assumes "reachable reserverStep (reserveWhenAvailable signal) s"
  shows "rvYielded s = filter (\<lambda>b. b \<noteq> []) (rvAnswers s) \<and>
    (\<forall>v es s' u i. rvPhase s = RvReserving v \<and> run reserverStep s es s' \<and> rvSent s' = rvSent s \<and>
       rvPhase s' = RvWaiting u i \<and> (\<exists>e \<in> set es. wakes e) \<longrightarrow> wkOutcome (rvGate s') i \<noteq> None) \<and>
    (\<forall>v i. rvPhase s = RvWaiting v i \<longrightarrow>
       (wkOutcome (rvGate s) i = None \<longrightarrow> wkVersion (rvGate s) = v \<and>
          (\<exists>n. wkOutcome (rvGate (reserverWakes s)) i = Some (Woken n))) \<and>
       (\<forall>n. rvSent (reserverResumes (Woken n) s) = rvSent s + 1)) \<and>
    (\<forall>r. rvPhase s = RvOver r \<longrightarrow> \<not> rvSubscribed s \<and> \<not> rvListening s)"
proof -
  have inv: "reserverInv s" by (rule reserver.reachable_inv [OF assms])
  have woken: "\<exists>n. wkOutcome (rvGate (reserverWakes s)) i = Some (Woken n)" if p: "rvPhase s = RvWaiting v i" "wkOutcome (rvGate s) i = None" for v i
  proof -
    have "i \<in> wakeWaiting (rvGate s)" using inv p by (simp add: reserverInv_def wakeInv_def)
    then show ?thesis by (simp add: reserverWakes_def wake_facts)
  qed
  have kept: "wkOutcome (rvGate s') i \<noteq> None"
    if p: "rvPhase s = RvReserving v" and r: "run reserverStep s es s'" and n: "rvSent s' = rvSent s" "rvPhase s' = RvWaiting u i"
      and e: "\<exists>e \<in> set es. wakes e" for v es s' u i
  proof -
    have "v \<le> wkVersion (rvGate s)" using inv p by (simp add: reserverInv_def)
    moreover have "sameRequest v (rvPhase s)" using p by simp
    note watch = reserver_run_watch [OF r this]
    moreover have "reserverInv s'" using reserver.run_inv [OF r inv] .
    ultimately show ?thesis using n e by (auto simp: reserverInv_def)
  qed
  have "\<forall>v es s' u i. rvPhase s = RvReserving v \<and> run reserverStep s es s' \<and> rvSent s' = rvSent s \<and>
       rvPhase s' = RvWaiting u i \<and> (\<exists>e \<in> set es. wakes e) \<longrightarrow> wkOutcome (rvGate s') i \<noteq> None"
    using kept by blast
  then show ?thesis using inv woken by (auto simp: reserverInv_def reserverResumes_def reserveTurn_def)
qed

text \<open>
  The generator has sent a RESERVE; a notification comes before the empty answer; the wait after it is settled at once. And one that is
  parked is woken by the next notification.
\<close>

theorem availability_never_missed_witness:
  "\<exists>(s :: nat reserver) t (u :: nat reserver). reachable reserverStep (reserveWhenAvailable None) s \<and> rvPhase s = RvReserving 0 \<and>
     run reserverStep s [RvNotified, RvAnswered (Inr [])] t \<and> rvPhase t = RvWaiting 0 0 \<and> wkOutcome (rvGate t) 0 \<noteq> None \<and>
     reachable reserverStep (reserveWhenAvailable None) u \<and> rvPhase u = RvWaiting 0 0 \<and>
     (\<exists>n. wkOutcome (rvGate (reserverWakes u)) 0 = Some (Woken n))"
proof -
  let ?s1 = "reserverSubscribed (Inr ()) (reserveWhenAvailable None) :: nat reserver"
  let ?u = "reserverAnswered 0 (Inr []) ?s1" and ?t = "reserverAnswered 0 (Inr []) (reserverWakes ?s1)"
  note ev = reserverSubscribed_def reserveWhenAvailable_def reserveTurn_def createWakeGate_def reserverAnswered_def waitAfter_def Let_def
    wakeSignalAborted_def
  have s1: "rvPhase ?s1 = RvReserving 0" "rvSubscribed ?s1" by (simp_all add: ev)
  have r1: "reachable reserverStep (reserveWhenAvailable None) ?s1"
    by (rule reachable_step [where step = reserverStep, OF reachable_start rv_subscribed]) (simp add: reserveWhenAvailable_def)
  then have r: "reachable reserverStep (reserveWhenAvailable None) ?u"
    by (rule reachable_step [where step = reserverStep, OF _ rv_answered]) (rule s1)
  have u: "rvPhase ?u = RvWaiting 0 0" "wkOutcome (rvGate ?u) 0 = None" by (simp_all add: ev)
  have w: "rvPhase (reserverWakes ?s1) = RvReserving 0" using s1 by (simp add: reserverWakes_def)
  have run: "run reserverStep ?s1 [RvNotified, RvAnswered (Inr [])] ?t"
    by (rule run_two [of reserverStep, OF rv_notified [OF s1(2)] rv_answered [OF w]])
  have t: "rvPhase ?t = RvWaiting 0 0" "rvSent ?t = rvSent ?s1" by (simp_all add: ev reserverWakes_def wake_def)
  have "\<exists>e \<in> set [RvNotified, RvAnswered (Inr [] :: nat list result)]. wakes e" by simp
  then have "wkOutcome (rvGate ?t) 0 \<noteq> None"
    using availability_never_missed [OF r1] s1(1) run t by blast
  moreover have "\<exists>n. wkOutcome (rvGate (reserverWakes ?u)) 0 = Some (Woken n)"
    using availability_never_missed [OF r] u by blast
  ultimately have "reachable reserverStep (reserveWhenAvailable None) ?s1 \<and> rvPhase ?s1 = RvReserving 0 \<and>
     run reserverStep ?s1 [RvNotified, RvAnswered (Inr [])] ?t \<and> rvPhase ?t = RvWaiting 0 0 \<and> wkOutcome (rvGate ?t) 0 \<noteq> None \<and>
     reachable reserverStep (reserveWhenAvailable None) ?u \<and> rvPhase ?u = RvWaiting 0 0 \<and>
     (\<exists>n. wkOutcome (rvGate (reserverWakes ?u)) 0 = Some (Woken n))"
    using r1 s1(1) run t(1) r u(1) by blast
  then show ?thesis by blast
qed

end
