(* ===== verification/ScheduleClient.thy ===== *)
theory ScheduleClient
  imports ScheduleCodec Routes Registry
begin

text \<open>
  The Schedule client, \<^verbatim>\<open>domains/schedule/client.ts\<close>: its requests and their answers, the selectors of a listing and the pages of
  \<^verbatim>\<open>entries\<close>. Its subscriptions live in the registry. A request is the payload that is sent, or
  the error that is thrown before; the answer of the broker is the argument of the second half.
\<close>

section \<open>Answers\<close>

definition scheduleStatusName :: "nat \<Rightarrow> string" where
  "scheduleStatusName status =
    (if status = 1 \<or> status = 2 then ''NOT_FOUND''
     else if status = 3 then ''INVALID_CRON''
     else if status = 4 then ''INVALID_DELAY''
     else if status = 5 then ''INVALID_TIMESTAMP''
     else if status = 7003 then ''INVALID_SUBSCRIPTION''
     else if status = 7004 then ''SUBSCRIPTION_LIMIT''
     else if status = 7054 then ''INVALID_DELIVERY_MODE''
     else if status = 7006 then ''BACKEND_ERROR''
     else ''Unknown('' @ decimal status @ '')'')"

text \<open>The words are ASCII, and no other character is lowered to one of their letters at a place where they could match.\<close>

definition lowerCase :: "jsstr \<Rightarrow> jsstr" where
  "lowerCase = map (\<lambda>c. if 65 \<le> unat c \<and> unat c \<le> 90 then c + 32 else c)"

definition mapErrorCode :: "jsstr option \<Rightarrow> string" where
  "mapErrorCode message =
    (let normalized = (case message of None \<Rightarrow> [] | Some m \<Rightarrow> lowerCase m) in
     if includesStr normalized (js ''not found'') then ''NOT_FOUND''
     else if includesStr normalized (js ''invalid route'') then ''INVALID_ROUTE''
     else if includesStr normalized (js ''cron'') then ''INVALID_CRON''
     else ''REQUEST_FAILED'')"

definition scheduleAssertSuccess :: "bytes \<Rightarrow> bytes result" where
  "scheduleAssertSuccess response =
    andThen (parseStandardResponse response) (\<lambda>r.
      if prSuccess r then Inr (prData r)
      else Inl (attachErrorDisposition
        (ScheduleError (case prErrorCode r of Some c \<Rightarrow> scheduleStatusName c | None \<Rightarrow> mapErrorCode (prError r)) (prErrorCode r))
        (prErrorClass r) (prEffect r)))"

definition scheduleAssertPlain :: "string \<Rightarrow> bytes \<Rightarrow> bytes result" where
  "scheduleAssertPlain operation response =
    andThen (parseStandardResponse response) (\<lambda>r.
      if \<not> prSuccess r
      then Inl (attachErrorDisposition (ScheduleError (operation @ ''_FAILED'') (prErrorCode r)) (prErrorClass r) (prEffect r))
      else Inr (prData r))"

section \<open>Guards and requests\<close>

definition assertConcreteScheduleRoute :: "jsstr \<Rightarrow> unit result" where
  "assertConcreteScheduleRoute route =
    (if isRouteShape route (js ''schedule'') 4 False then Inr () else Inl (ScheduleError ''INVALID_ROUTE'' None))"

definition assertSchedulePattern :: "jsstr \<Rightarrow> unit result" where
  "assertSchedulePattern pat =
    (if isRegistrationPatternShape pat (js ''schedule'') 4 then Inr () else Inl (ScheduleError ''INVALID_ROUTE'' None))"

definition scheduleCreate :: "jsstr \<Rightarrow> jsstr \<Rightarrow> string \<Rightarrow> bytes option \<Rightarrow> bytes result" where
  "scheduleCreate route cron deliveryMode payload =
    andThen (assertConcreteScheduleRoute route) (\<lambda>_.
      scheduleEncodeCreate route cron deliveryMode (case payload of None \<Rightarrow> [] | Some p \<Rightarrow> p))"

definition scheduleCreateAnswered :: "bytes \<Rightarrow> unit result" where
  "scheduleCreateAnswered response =
    andThen (scheduleAssertPlain ''CREATE'' response) (\<lambda>d.
    andThen (scheduleDecodeCreateResponse d) (\<lambda>_. Inr ()))"

fun assertEntryRoutes :: "scheduleEntry list \<Rightarrow> unit result" where
  "assertEntryRoutes [] = Inr ()"
| "assertEntryRoutes (entry # entries) = andThen (assertConcreteScheduleRoute (seRoute entry)) (\<lambda>_. assertEntryRoutes entries)"

definition scheduleCreateBatch :: "scheduleEntry list \<Rightarrow> bytes result" where
  "scheduleCreateBatch entries = andThen (assertEntryRoutes entries) (\<lambda>_. scheduleEncodeCreateBatch entries)"

definition scheduleCreateBatchAnswered :: "bytes \<Rightarrow> unit result" where
  "scheduleCreateBatchAnswered response =
    andThen (scheduleAssertPlain ''CREATE_BATCH'' response) (\<lambda>d.
      if length d \<noteq> 0 then Inl (ScheduleError ''INVALID_RESPONSE'' None) else Inr ())"

definition scheduleListV2 :: "jsstr option \<Rightarrow> int option \<Rightarrow> bytes result" where
  "scheduleListV2 cursor limit = scheduleEncodeListV2 cursor limit"

definition scheduleListAnswered :: "bytes \<Rightarrow> scheduleCursorPage result" where
  "scheduleListAnswered response = andThen (scheduleAssertSuccess response) scheduleDecodeListV2"

definition scheduleCancel :: "jsstr \<Rightarrow> bytes result" where
  "scheduleCancel route = andThen (assertConcreteScheduleRoute route) (\<lambda>_. scheduleEncodeCancel route)"

definition scheduleCancelAnswered :: "bytes \<Rightarrow> unit result" where
  "scheduleCancelAnswered response = andThen (scheduleAssertPlain ''CANCEL'' response) scheduleDecodeCancelResponse"

definition scheduleSubscribe :: "jsstr \<Rightarrow> nat option \<Rightarrow> 'n registry \<Rightarrow> (subscribeStep \<times> 'n registry) result" where
  "scheduleSubscribe pat sig g = andThen (assertSchedulePattern pat) (\<lambda>_. Inr (Registry.subscribe pat sig g))"

definition scheduleSubscribeAnswered :: "bytes \<Rightarrow> wireAnswer" where
  "scheduleSubscribeAnswered response =
    (case andThen (scheduleAssertPlain ''SUBSCRIBE'' response) scheduleDecodeSubscribeResponse of
       Inl e \<Rightarrow> WireError e | Inr subId \<Rightarrow> WireOk subId)"

definition scheduleUnsubscribeAnswered :: "bytes \<Rightarrow> wireAnswer" where
  "scheduleUnsubscribeAnswered response =
    (case andThen (scheduleAssertPlain ''UNSUBSCRIBE'' response) scheduleDecodeUnsubscribeResponse of
       Inl e \<Rightarrow> WireError e | Inr _ \<Rightarrow> WireOk 0)"

definition scheduleReceived :: "bytes \<Rightarrow> (jsstr \<times> bytes) registry \<Rightarrow> (jsstr \<times> bytes) registry" where
  "scheduleReceived payload g =
    (case scheduleDecodeNotification payload of
       Inl e \<Rightarrow> g
     | Inr n \<Rightarrow> notified (snSubId n) (snRoute n, snPayload n) g)"

section \<open>Selectors of a listing\<close>

text \<open>\<^verbatim>\<open>route.split("://")[1]?.split("/") ?? []\<close>: what stands between the first separator and the next one.\<close>

definition schemeSeparator :: jsstr where
  "schemeSeparator = [58, slash, slash]"

definition afterScheme :: "jsstr \<Rightarrow> jsstr list" where
  "afterScheme route =
    (case indexOf route schemeSeparator of
       None \<Rightarrow> []
     | Some i \<Rightarrow>
         (let rest = drop (i + 3) route in
          splitSlash (case indexOf rest schemeSeparator of None \<Rightarrow> rest | Some j \<Rightarrow> take j rest)))"

text \<open>\<^verbatim>\<open>selectorParts.every((part, i) => part === "*" || part === routeParts[i])\<close>\<close>

definition everyPart :: "jsstr list \<Rightarrow> jsstr list \<Rightarrow> bool" where
  "everyPart selectorParts routeParts =
    list_all (\<lambda>(i, part). part = singleStar \<or> segmentAt routeParts i = Some part) (enumerate 0 selectorParts)"

definition routeMatchesSchedule :: "jsstr \<Rightarrow> jsstr \<Rightarrow> bool" where
  "routeMatchesSchedule route selector =
    (let routeParts = afterScheme route; selectorParts = afterScheme selector in
     if length selectorParts = 2 \<and> segmentAt selectorParts 1 = Some doubleStar
     then length routeParts = 4 \<and> segmentAt routeParts 0 = segmentAt selectorParts 0
     else if length selectorParts = 3 then length routeParts = 4 \<and> everyPart selectorParts routeParts
     else length routeParts = length selectorParts \<and> everyPart selectorParts routeParts)"

definition literalPart :: "jsstr \<Rightarrow> bool" where
  "literalPart part = (\<not> includesStr part singleStar)"

definition isScheduleSelector :: "jsstr \<Rightarrow> bool" where
  "isScheduleSelector selector =
    (if \<not> startsWith selector (js ''schedule://'') then False
     else (let parts = splitSlash (drop 11 selector) in
       case parts of
         [realm, rest] \<Rightarrow> rest = doubleStar \<and> realm \<noteq> [] \<and> literalPart realm
       | [realm, area, resource] \<Rightarrow>
           (\<forall>p \<in> set parts. length p > 0) \<and> literalPart realm \<and> (area = singleStar \<or> literalPart area) \<and>
           (resource = singleStar \<or> literalPart resource)
       | [realm, area, resource, operation] \<Rightarrow>
           \<not> (\<exists>p \<in> set parts. length p = 0) \<and>
           (literalPart realm \<and> literalPart area \<and> literalPart resource \<and> literalPart operation \<or>
            literalPart realm \<and> literalPart area \<and> literalPart resource \<and> operation = singleStar \<or>
            literalPart realm \<and> area = singleStar \<and> resource = singleStar \<and> operation = singleStar)
       | _ \<Rightarrow> False))"

section \<open>The pages of a listing\<close>

text \<open>
  \<^verbatim>\<open>entries\<close>: the pages it has yielded and how it ended. \<open>list\<close> is what a request for the page at a cursor returns.
\<close>

partial_function (option) entriesLoop ::
  "(jsstr option \<Rightarrow> scheduleCursorPage result) \<Rightarrow> jsstr \<Rightarrow> jsstr option \<Rightarrow> scheduleEntry list list \<Rightarrow>
    (scheduleEntry list list \<times> unit result) option" where
  "entriesLoop list selector cursor yielded =
    (case list cursor of
       Inl e \<Rightarrow> Some (yielded, Inl e)
     | Inr page \<Rightarrow>
         (let yielded = yielded @ [filter (\<lambda>e. routeMatchesSchedule (seRoute e) selector) (scpEntries page)] in
          if \<not> scpHasMore page then Some (yielded, Inr ())
          else (case scpContinuation page of
              None \<Rightarrow> Some (yielded, Inl (ScheduleError ''INVALID_RESPONSE'' None))
            | Some continuation \<Rightarrow> entriesLoop list selector (Some continuation) yielded)))"

definition scheduleEntries ::
  "(jsstr option \<Rightarrow> scheduleCursorPage result) \<Rightarrow> jsstr \<Rightarrow> (scheduleEntry list list \<times> unit result) option" where
  "scheduleEntries list selector =
    (if \<not> isScheduleSelector selector then Some ([], Inl (ScheduleError ''INVALID_ROUTE'' None))
     else entriesLoop list selector None [])"

section \<open>Properties\<close>

subsection \<open>Selectors\<close>

lemma everyPart_iff:
  "length ps \<le> length rs \<Longrightarrow> everyPart ps rs \<longleftrightarrow> list_all2 (\<lambda>p r. p = singleStar \<or> p = r) ps (take (length ps) rs)"
  by (auto simp: everyPart_def segmentAt_def list_all_length list_all2_conv_all_nth nth_enumerate_eq)

lemma glob_plain: "doubleStar \<notin> set ps \<Longrightarrow> globMatch ps rs \<longleftrightarrow> list_all2 (\<lambda>p r. p = singleStar \<or> p = r) ps rs"
proof (induction ps arbitrary: rs)
  case (Cons p ps)
  then show ?case by (cases rs) auto
qed simp

lemma empty_segment: "[] \<in> set (tl (splitSlash (u @ slash # slash # v)))"
proof (induction u)
  case (Cons c u)
  then show ?case by (cases "splitSlash (u @ slash # slash # v)") auto
qed simp

lemma indexOf_found: "indexOf s sub = Some i \<Longrightarrow> \<exists>v. s = take i s @ sub @ v"
proof (induction s sub arbitrary: i rule: indexOf.induct)
  case (2 c s sub)
  show ?case
  proof (cases "startsWith (c # s) sub")
    case True
    then show ?thesis
      using 2(2) append_take_drop_id [of "length sub" "c # s"] by (intro exI [of _ "drop (length sub) (c # s)"]) (simp add: startsWith_def)
  qed (use 2 in \<open>auto split: option.splits\<close>)
qed (simp split: if_splits)

lemma no_separator:
  assumes "[] \<notin> set (splitSlash t)"
  shows "indexOf t schemeSeparator = None"
proof (rule ccontr)
  assume "\<not> ?thesis"
  then obtain i v where "t = take i t @ [58, slash, slash] @ v" using indexOf_found [of t schemeSeparator] by (auto simp: schemeSeparator_def)
  then have "[] \<in> set (tl (splitSlash t))" using empty_segment [of "take i t @ [58]" v] by (metis append.assoc append_Cons append_Nil)
  then show False using assms by (cases "splitSlash t") auto
qed

lemma afterScheme_segments:
  assumes "startsWith s (js ''schedule://'')" and "[] \<notin> set (splitSlash (drop 11 s))"
  shows "afterScheme s = splitSlash (drop 11 s)"
proof -
  have "length (js ''schedule://'') = 11" by (simp add: js_def)
  then have s: "s = js ''schedule://'' @ drop 11 s"
    using assms(1) append_take_drop_id [of 11 s] by (simp add: startsWith_def)
  have "indexOf (js ''schedule://'' @ t) schemeSeparator = Some 8" for t
    by (simp add: js_def schemeSeparator_def startsWith_def slash_def)
  with s have "indexOf s schemeSeparator = Some 8" by metis
  then show ?thesis using no_separator [OF assms(2)] by (simp add: afterScheme_def Let_def)
qed

lemma literal_plain: "literalPart p \<Longrightarrow> p \<noteq> doubleStar" "literalPart p \<Longrightarrow> doubleStar \<noteq> p"
  by (auto simp: literalPart_def includesStr_def doubleStar_def singleStar_def startsWith_def)

lemma star_not_literal [simp]: "\<not> literalPart singleStar"
  by (simp add: literalPart_def includesStr_def singleStar_def startsWith_def)

definition selectorSegments :: "jsstr \<Rightarrow> jsstr list" where
  "selectorSegments selector =
    (let parts = splitSlash (drop 11 selector) in if length parts = 3 then parts @ [singleStar] else parts)"

lemma schedule_route:
  assumes "assertConcreteScheduleRoute route = Inr ()"
  shows "startsWith route (js ''schedule://'') \<and> length (splitSlash (drop 11 route)) = 4 \<and> list_all concreteSegment (splitSlash (drop 11 route))"
proof -
  have "isRouteShape route (js ''schedule'') 4 False" using assms by (simp add: assertConcreteScheduleRoute_def split: if_splits)
  then obtain start where p: "pathStart route (js ''schedule'') False = Some start" "list_all concreteSegment (splitSlash (drop start route))"
      "length (splitSlash (drop start route)) = 4"
    by (auto simp: isRouteShape_segments segmentsFrom_def)
  then have "start = 11" "startsWith route (js ''schedule'')" "codeIs route 8 58" "codeIs route 9 47" "codeIs route 10 47" "11 < length route"
    by (auto simp: pathStart_def Let_def js_def eval_nat_numeral split: if_splits)
  moreover from this have "route ! 8 = 58" "route ! 9 = 47" "route ! 10 = 47" by (simp_all add: codeIs_def word_unat_eq_iff)
  moreover have "take 11 route = take 8 route @ [route ! 8, route ! 9, route ! 10]" if "11 < length route"
    using that by (simp add: take_Suc_conv_app_nth eval_nat_numeral)
  moreover have "js ''schedule://'' = js ''schedule'' @ [58, 47, 47]" "length (js ''schedule'') = 8" by (simp_all add: js_def)
  ultimately show ?thesis
    using p by (simp add: startsWith_def)
qed

text \<open>
  C21: the selectors of a listing are globs. For a selector the client accepts and a concrete schedule route, the hand-written
  comparison answers what the reference glob matcher answers on the segments, where a selector of three segments stands for all
  operations of its resource and a realm followed by a double star for everything in the realm.
\<close>

theorem selectors_are_globs:
  assumes "isScheduleSelector selector" and "assertConcreteScheduleRoute route = Inr ()"
  shows "routeMatchesSchedule route selector \<longleftrightarrow> globMatch (selectorSegments selector) (splitSlash (drop 11 route))"
proof -
  note r = schedule_route [OF assms(2)]
  obtain a b c d where rs: "splitSlash (drop 11 route) = [a, b, c, d]" using r by (auto simp: numeral_eq_Suc length_Suc_conv)
  have "afterScheme route = [a, b, c, d]"
    using afterScheme_segments [of route] r rs by (auto simp: list_all_iff concreteSegment_def)
  moreover have "[] \<notin> set (splitSlash (drop 11 selector))" "startsWith selector (js ''schedule://'')"
    using assms(1) by (auto simp: isScheduleSelector_def Let_def doubleStar_def split: if_splits list.splits)
  then have "afterScheme selector = splitSlash (drop 11 selector)" using afterScheme_segments by blast
  ultimately have segs: "afterScheme route = [a, b, c, d]" "afterScheme selector = splitSlash (drop 11 selector)" by simp_all
  consider realm where "splitSlash (drop 11 selector) = [realm, doubleStar]" "literalPart realm"
    | ps where "splitSlash (drop 11 selector) = ps" "length ps = 3 \<or> length ps = 4" "doubleStar \<notin> set ps"
    using assms(1) by (auto simp: isScheduleSelector_def Let_def literal_plain split: if_splits list.splits)
  then show ?thesis
  proof cases
    case 1
    then have "realm \<noteq> doubleStar" "realm \<noteq> singleStar" using literal_plain by auto
    with 1 show ?thesis by (simp add: routeMatchesSchedule_def selectorSegments_def segs rs segmentAt_def eq_commute [of a realm])
  next
    case 2
    show ?thesis
    proof (cases "length ps = 3")
      case True
      then obtain x y z where ps: "ps = [x, y, z]" by (auto simp: length_Suc_conv numeral_eq_Suc)
      then have "x \<noteq> doubleStar" "y \<noteq> doubleStar" "z \<noteq> doubleStar" using 2(3) by auto
      with ps 2 show ?thesis by (simp add: routeMatchesSchedule_def selectorSegments_def segs rs everyPart_iff glob_plain)
    next
      case False
      then have "length ps = 4" using 2 by simp
      then obtain x y z w where ps: "ps = [x, y, z, w]" by (auto simp: length_Suc_conv numeral_eq_Suc)
      then have "x \<noteq> doubleStar" "y \<noteq> doubleStar" "z \<noteq> doubleStar" "w \<noteq> doubleStar" using 2(3) by auto
      with ps 2 show ?thesis by (simp add: routeMatchesSchedule_def selectorSegments_def segs rs everyPart_iff glob_plain)
    qed
  qed
qed

theorem selectors_are_globs_witness:
  "routeMatchesSchedule (js ''schedule://a/b/c/d'') (js ''schedule://a/*/c'') =
   globMatch (selectorSegments (js ''schedule://a/*/c'')) (splitSlash (drop 11 (js ''schedule://a/b/c/d'')))"
proof -
  have "assertConcreteScheduleRoute (js ''schedule://a/b/c/d'') = Inr ()"
    by (simp add: assertConcreteScheduleRoute_def isRouteShape_segments route_eval)
  moreover have "isScheduleSelector (js ''schedule://a/*/c'')"
    by (simp add: isScheduleSelector_def literalPart_def singleStar_def route_eval)
  ultimately show ?thesis using selectors_are_globs by blast
qed

subsection \<open>Pages\<close>

text \<open>
  A broker that keeps the entries in order and hands out pages of any size, at least one entry each, with cursors that stand for
  positions.
\<close>

definition pageAt ::
  "(nat \<Rightarrow> nat) \<Rightarrow> (nat \<Rightarrow> jsstr) \<Rightarrow> (jsstr \<Rightarrow> nat) \<Rightarrow> scheduleEntry list \<Rightarrow> jsstr option \<Rightarrow> scheduleCursorPage result" where
  "pageAt pageSize cursorOf positionOf stored cursor =
    (let k = (case cursor of None \<Rightarrow> 0 | Some c \<Rightarrow> positionOf c); m = max 1 (pageSize k) in
     Inr \<lparr>scpEntries = take m (drop k stored), scpHasMore = (k + m < length stored), scpContinuation = Some (cursorOf (k + m))\<rparr>)"

lemma entriesLoop_pages:
  assumes cursors: "\<And>k. positionOf (cursorOf k) = k" and "case cursor of None \<Rightarrow> k = 0 | Some c \<Rightarrow> positionOf c = k"
  shows "\<exists>pages. entriesLoop (pageAt pageSize cursorOf positionOf stored) selector cursor yielded = Some (yielded @ pages, Inr ()) \<and>
    concat pages = filter (\<lambda>e. routeMatchesSchedule (seRoute e) selector) (drop k stored)"
  using assms(2)
proof (induction "length stored - k" arbitrary: k cursor yielded rule: less_induct)
  case less
  define m where "m = max 1 (pageSize k)"
  then have m: "0 < m" by simp
  let ?f = "filter (\<lambda>e. routeMatchesSchedule (seRoute e) selector)"
  have pos: "(case cursor of None \<Rightarrow> 0 | Some c \<Rightarrow> positionOf c) = k" using less.prems by (simp split: option.splits)
  have page: "pageAt pageSize cursorOf positionOf stored cursor =
      Inr \<lparr>scpEntries = take m (drop k stored), scpHasMore = (k + m < length stored), scpContinuation = Some (cursorOf (k + m))\<rparr>"
    by (simp only: pageAt_def pos Let_def m_def)
  show ?case
  proof (cases "k + m < length stored")
    case True
    have "length stored - (k + m) < length stored - k" using True m by linarith
    from less.hyps [OF this, of "Some (cursorOf (k + m))" "yielded @ [?f (take m (drop k stored))]"]
    obtain pages where p: "entriesLoop (pageAt pageSize cursorOf positionOf stored) selector (Some (cursorOf (k + m)))
          (yielded @ [?f (take m (drop k stored))]) = Some (yielded @ ?f (take m (drop k stored)) # pages, Inr ())"
        "concat pages = ?f (drop (k + m) stored)"
      by (auto simp: cursors)
    have "take m (drop k stored) @ drop (k + m) stored = drop k stored"
      using append_take_drop_id [of m "drop k stored"] by (simp only: drop_drop add.commute)
    then have "?f (drop k stored) = ?f (take m (drop k stored)) @ ?f (drop (k + m) stored)"
      using filter_append [of "\<lambda>e. routeMatchesSchedule (seRoute e) selector" "take m (drop k stored)" "drop (k + m) stored"] by metis
    moreover have "entriesLoop (pageAt pageSize cursorOf positionOf stored) selector cursor yielded =
        entriesLoop (pageAt pageSize cursorOf positionOf stored) selector (Some (cursorOf (k + m))) (yielded @ [?f (take m (drop k stored))])"
      by (subst entriesLoop.simps) (simp add: page True Let_def)
    ultimately show ?thesis
      using p by (intro exI [of _ "?f (take m (drop k stored)) # pages"]) simp
  next
    case False
    then have "take m (drop k stored) = drop k stored" by simp
    moreover have "entriesLoop (pageAt pageSize cursorOf positionOf stored) selector cursor yielded =
        Some (yielded @ [?f (take m (drop k stored))], Inr ())"
      by (subst entriesLoop.simps) (use False in \<open>simp add: page Let_def\<close>)
    ultimately show ?thesis by (intro exI [of _ "[?f (drop k stored)]"]) simp
  qed
qed

text \<open>
  C22: a listing is complete. Whatever page sizes the broker chooses, as long as its cursors stand for positions, \<^verbatim>\<open>entries\<close> ends without an
  error, and its pages together are exactly the stored entries the selector matches, each once and in order.
\<close>

theorem entries_are_complete:
  assumes "isScheduleSelector selector" and "\<And>k. positionOf (cursorOf k) = k"
  shows "\<exists>pages. scheduleEntries (pageAt pageSize cursorOf positionOf stored) selector = Some (pages, Inr ()) \<and>
    concat pages = filter (\<lambda>e. routeMatchesSchedule (seRoute e) selector) stored"
  using entriesLoop_pages [of positionOf cursorOf 0 None pageSize stored selector "[]"] assms by (simp add: scheduleEntries_def)

theorem entries_are_complete_witness:
  "\<exists>pages. scheduleEntries (pageAt (\<lambda>k. 2) (\<lambda>k. replicate k 0) length
       [\<lparr>seRoute = js ''schedule://a/b/c/d'', seCron = [], seDeliveryMode = ''Single'', sePayload = []\<rparr>]) (js ''schedule://a/*/c'') = Some (pages, Inr ())"
proof -
  have "isScheduleSelector (js ''schedule://a/*/c'')"
    by (simp add: isScheduleSelector_def literalPart_def singleStar_def route_eval)
  from entries_are_complete [OF this, of length "\<lambda>k. replicate k 0"] show ?thesis by simp blast
qed

text \<open>Unlike the reader of a stream, a listing does not notice a broker that does not advance: with the same cursor for ever it never ends.\<close>

definition stuckPage :: "jsstr \<Rightarrow> jsstr option \<Rightarrow> scheduleCursorPage result" where
  "stuckPage cursor c = Inr \<lparr>scpEntries = [], scpHasMore = True, scpContinuation = Some cursor\<rparr>"

theorem stuck_listing_never_ends: "entriesLoop (stuckPage cursor) selector c yielded = None"
proof -
  have "\<not> list = stuckPage cursor" if "entriesLoop list selector c yielded = Some r" for list and r :: "scheduleEntry list list \<times> unit result"
  proof (rule entriesLoop.raw_induct [where P = "\<lambda>list selector c yielded r. \<not> list = stuckPage cursor", OF _ that], goal_cases)
    case (1 loop list selector c yielded r)
    show ?case
    proof
      assume "list = stuckPage cursor"
      then have "loop (stuckPage cursor) selector (Some cursor) (yielded @ [[]]) = Some r" using 1(2) by (auto simp: stuckPage_def)
      then show False using 1(1) by blast
    qed
  qed
  then show ?thesis by (cases "entriesLoop (stuckPage cursor) selector c yielded") auto
qed

end
