(* ===== verification/ClientCore.thy ===== *)
theory ClientCore
  imports Retry Machines JsMap
begin

text \<open>
  The client facade, \<^verbatim>\<open>client/client-core.ts\<close>, with \<^verbatim>\<open>waitForSharedPromise\<close> of \<^verbatim>\<open>client/internal/async.ts\<close>: the options and their defaults, the
  sharing of connection attempts, the domain clients, closing, and the loop of \<^verbatim>\<open>connectWhenReady\<close>. The connection is modelled on its
  own; what the facade asks it is an argument here, and the results of the operations it starts are events.
\<close>

section \<open>Options\<close>

text \<open>A JavaScript number that need not be finite.\<close>

datatype jsreal = Finite rat | PosInfinity | NegInfinity | NotANumber

fun resolveWaitOption :: "jsreal option \<Rightarrow> rat \<Rightarrow> rat" where
  "resolveWaitOption (Some (Finite v)) fallback = max 0 v"
| "resolveWaitOption _ fallback = fallback"

definition resolveBackoffOption :: "jsreal option \<Rightarrow> rat \<Rightarrow> rat" where
  "resolveBackoffOption v fallback = max 1 (resolveWaitOption v fallback)"

text \<open>\<^verbatim>\<open>None\<close> is \<^verbatim>\<open>Infinity\<close>.\<close>

fun resolveConnectWhenReadyTimeout :: "jsreal option \<Rightarrow> rat option \<Rightarrow> rat option" where
  "resolveConnectWhenReadyTimeout None fallback = fallback"
| "resolveConnectWhenReadyTimeout (Some PosInfinity) fallback = None"
| "resolveConnectWhenReadyTimeout (Some (Finite v)) fallback = Some (max 0 v)"
| "resolveConnectWhenReadyTimeout (Some _) fallback = fallback"

text \<open>
  A property of an option object: absent, or given with a value that may be \<^verbatim>\<open>undefined\<close>. A property of a nested option object that
  is given replaces the default even when it is undefined; at the top level \<^verbatim>\<open>??\<close> takes the default then.
\<close>

datatype 'a optField = Absent | Given "'a option"

fun orDefault :: "'a optField \<Rightarrow> 'a \<Rightarrow> 'a" where
  "orDefault (Given (Some v)) d = v"
| "orDefault _ d = d"

fun spreadOver :: "'a optField \<Rightarrow> 'a \<Rightarrow> 'a option" where
  "spreadOver Absent d = Some d"
| "spreadOver (Given v) d = v"

record backoffConfig =
  bcEnabled :: "bool optField"
  bcMaxAttempts :: "enat optField"
  bcBackoffMs :: "rat optField"
  bcMaxBackoffMs :: "rat optField"

record resolvedBackoff =
  rbEnabled :: "bool option"
  rbMaxAttempts :: "enat option"
  rbBackoffMs :: "rat option"
  rbMaxBackoffMs :: "rat option"

definition resolveBackoff :: "enat \<Rightarrow> rat \<Rightarrow> rat \<Rightarrow> backoffConfig \<Rightarrow> resolvedBackoff" where
  "resolveBackoff attempts backoff maxBackoff c =
    \<lparr>rbEnabled = spreadOver (bcEnabled c) True, rbMaxAttempts = spreadOver (bcMaxAttempts c) attempts,
     rbBackoffMs = spreadOver (bcBackoffMs c) backoff, rbMaxBackoffMs = spreadOver (bcMaxBackoffMs c) maxBackoff\<rparr>"

record clientConfig =
  cfUrl :: string
  cfTimeout :: "rat optField"
  cfTransport :: "string optField"
  cfMaxFrameSize :: "nat optField"
  cfAuthSettleDelayMs :: "rat optField"
  cfMaxInFlightRequests :: "nat optField"
  cfMaxRequestQueueSize :: "nat optField"
  cfReconnect :: backoffConfig
  cfRetry :: backoffConfig
  cfHeartbeatEnabled :: "bool optField"
  cfHeartbeatIntervalMs :: "rat optField"
  cfHeartbeatTimeoutMs :: "rat optField"
  cfHandlerConcurrency :: "enat optField"
  cfHandlerQueueCapacity :: "nat optField"
  cfHandlerTimeoutMs :: "rat optField"

record resolvedConfig =
  rcUrl :: string
  rcTimeout :: rat
  rcTransport :: string
  rcMaxFrameSize :: nat
  rcAuthSettleDelayMs :: rat
  rcMaxInFlightRequests :: nat
  rcMaxRequestQueueSize :: nat
  rcReconnect :: resolvedBackoff
  rcRetry :: resolvedBackoff
  rcHeartbeat :: "bool option \<times> rat option \<times> rat option"
  rcHandlers :: "enat option \<times> nat option \<times> rat option"

definition resolveConfig :: "clientConfig \<Rightarrow> resolvedConfig result" where
  "resolveConfig c =
    (if cfUrl c = [] then Inl PlainError
     else Inr
      \<lparr>rcUrl = cfUrl c,
       rcTimeout = orDefault (cfTimeout c) 30000,
       rcTransport = orDefault (cfTransport c) ''auto'',
       rcMaxFrameSize = orDefault (cfMaxFrameSize c) (1024 * 1024),
       rcAuthSettleDelayMs = orDefault (cfAuthSettleDelayMs c) 1000,
       rcMaxInFlightRequests = orDefault (cfMaxInFlightRequests c) 256,
       rcMaxRequestQueueSize = orDefault (cfMaxRequestQueueSize c) 1024,
       rcReconnect = resolveBackoff \<infinity> 250 5000 (cfReconnect c),
       rcRetry = resolveBackoff 3 100 1000 (cfRetry c),
       rcHeartbeat = (spreadOver (cfHeartbeatEnabled c) True, spreadOver (cfHeartbeatIntervalMs c) 10000,
         spreadOver (cfHeartbeatTimeoutMs c) 30000),
       rcHandlers = (spreadOver (cfHandlerConcurrency c) \<infinity>, spreadOver (cfHandlerQueueCapacity c) 1024,
         spreadOver (cfHandlerTimeoutMs c) 30000)\<rparr>)"

section \<open>Connecting, closing and the domain clients\<close>

text \<open>What the facade sees of its connection at one moment.\<close>

record connectionView =
  cvConnected :: bool
  cvState :: connectionState
  cvShouldWait :: bool

text \<open>
  The shared attempts: \<open>StartedConnect j\<close> was started by the call \<open>j\<close>, with the signal of that call; \<open>WaitsUntilReady\<close> has no
  signal. A call of \<^verbatim>\<open>connect\<close> waits for an attempt, has returned or has thrown.
\<close>

datatype sharedAttempt = StartedConnect nat | WaitsUntilReady

datatype connectOutcome = AwaitsAttempt nat | ConnectReturned | ConnectThrew jserror

datatype closePhase = NotClosing | ClosesConnection | CloseSettled "unit result"

record clientCore =
  ccCreated :: bool
  ccConnections :: nat
  ccClosed :: bool
  ccPending :: "nat option"
  ccAttempts :: "(sharedAttempt \<times> unit result option) list"
  ccCalls :: "connectOutcome list"
  ccClosing :: closePhase
  ccDomains :: "(string \<times> nat) list"
  ccMade :: nat

definition createClientCore :: clientCore where
  "createClientCore = \<lparr>ccCreated = False, ccConnections = 0, ccClosed = False, ccPending = None, ccAttempts = [], ccCalls = [],
     ccClosing = NotClosing, ccDomains = [], ccMade = 0\<rparr>"

definition createOwnedConnection :: "clientCore \<Rightarrow> clientCore" where
  "createOwnedConnection c = (if ccCreated c then c else c\<lparr>ccCreated := True, ccConnections := ccConnections c + 1\<rparr>)"

definition waitsForReady :: "connectionView \<Rightarrow> bool" where
  "waitsForReady v \<longleftrightarrow> cvState v \<in> {Connecting, Connected, Authenticating, Reconnecting} \<or> cvState v = Disconnected \<and> cvShouldWait v"

definition connectClient :: "connectionView \<Rightarrow> bool \<Rightarrow> clientCore \<Rightarrow> clientCore" where
  "connectClient v aborted c =
    (let j = length (ccCalls c); call = (\<lambda>r c. c\<lparr>ccCalls := ccCalls c @ [r]\<rparr>) in
     if ccClosed c then call (ConnectThrew connectionClosedError) c
     else if aborted then call (ConnectThrew abortError) c
     else (let c = createOwnedConnection c in
       if cvConnected v then call ConnectReturned c
       else (case ccPending c of
           Some k \<Rightarrow> call (AwaitsAttempt k) c
         | None \<Rightarrow>
             (let k = length (ccAttempts c) in
              call (AwaitsAttempt k)
                (c\<lparr>ccAttempts := ccAttempts c @ [(if waitsForReady v then WaitsUntilReady else StartedConnect j, None)], ccPending := Some k\<rparr>)))))"

text \<open>An attempt settles: its \<^verbatim>\<open>finally\<close>, then the continuations of the calls that wait for it.\<close>

definition attemptOutcome :: "clientCore \<Rightarrow> unit result \<Rightarrow> connectOutcome" where
  "attemptOutcome c r =
    (case r of Inl e \<Rightarrow> ConnectThrew e | Inr _ \<Rightarrow> if ccClosed c then ConnectThrew connectionClosedError else ConnectReturned)"

definition attemptSettled :: "nat \<Rightarrow> unit result \<Rightarrow> clientCore \<Rightarrow> clientCore" where
  "attemptSettled k r c =
    c\<lparr>ccAttempts := (ccAttempts c)[k := (fst (ccAttempts c ! k), Some r)],
      ccPending := (if ccPending c = Some k then None else ccPending c),
      ccCalls := map (\<lambda>o'. if o' = AwaitsAttempt k then attemptOutcome c r else o') (ccCalls c)\<rparr>"

definition callerAborted :: "nat \<Rightarrow> clientCore \<Rightarrow> clientCore" where
  "callerAborted j c =
    (case ccCalls c ! j of
       AwaitsAttempt k \<Rightarrow> c\<lparr>ccCalls := (ccCalls c)[j := ConnectThrew abortError]\<rparr>
     | _ \<Rightarrow> c)"

definition closeClient :: "clientCore \<Rightarrow> clientCore" where
  "closeClient c =
    (if ccClosing c \<noteq> NotClosing then c
     else if ccClosed c \<and> \<not> ccCreated c then c\<lparr>ccDomains := [], ccClosing := CloseSettled (Inr ())\<rparr>
     else (let c = c\<lparr>ccClosed := True, ccPending := None\<rparr> in
       if ccCreated c then c\<lparr>ccClosing := ClosesConnection\<rparr>
       else c\<lparr>ccDomains := [], ccClosing := CloseSettled (Inr ())\<rparr>))"

definition connectionCloseSettled :: "unit result \<Rightarrow> clientCore \<Rightarrow> clientCore" where
  "connectionCloseSettled r c =
    (let c = c\<lparr>ccCreated := False, ccClosing := CloseSettled r\<rparr> in
     case r of Inl e \<Rightarrow> c | Inr _ \<Rightarrow> c\<lparr>ccDomains := []\<rparr>)"

definition ensureConnection :: "clientCore \<Rightarrow> unit result" where
  "ensureConnection c =
    (if ccClosed c then Inl connectionClosedError else if \<not> ccCreated c then Inl ConnectionError else Inr ())"

definition getDomain :: "string \<Rightarrow> clientCore \<Rightarrow> nat result \<times> clientCore" where
  "getDomain key c =
    (case ensureConnection c of
       Inl e \<Rightarrow> (Inl e, c)
     | Inr _ \<Rightarrow>
        (case map_of (ccDomains c) key of
           Some d \<Rightarrow> (Inr d, c)
         | None \<Rightarrow> (Inr (ccMade c), c\<lparr>ccDomains := mapSet key (ccMade c) (ccDomains c), ccMade := ccMade c + 1\<rparr>)))"

definition clientIsConnected :: "connectionView \<Rightarrow> clientCore \<Rightarrow> bool" where
  "clientIsConnected v c \<longleftrightarrow> \<not> ccClosed c \<and> ccCreated c \<and> cvConnected v"

definition clientState :: "connectionView \<Rightarrow> clientCore \<Rightarrow> connectionState" where
  "clientState v c =
    (if ccClosed c then Closed else if \<not> ccCreated c then Disconnected
     else if cvState v = Closed then Disconnected else cvState v)"

datatype clientEvent =
    ConnectCalled | AttemptSettled nat "unit result" | CallerAborted nat | CloseCalled | ConnectionCloseSettled "unit result" | DomainAsked string

inductive clientStep :: "clientCore \<Rightarrow> clientEvent \<Rightarrow> clientCore \<Rightarrow> bool" where
  cl_connect: "clientStep c ConnectCalled (connectClient v aborted c)"
| cl_settled: "k < length (ccAttempts c) \<Longrightarrow> snd (ccAttempts c ! k) = None \<Longrightarrow> clientStep c (AttemptSettled k r) (attemptSettled k r c)"
| cl_aborted: "j < length (ccCalls c) \<Longrightarrow> clientStep c (CallerAborted j) (callerAborted j c)"
| cl_close: "clientStep c CloseCalled (closeClient c)"
| cl_closed: "ccClosing c = ClosesConnection \<Longrightarrow> clientStep c (ConnectionCloseSettled r) (connectionCloseSettled r c)"
| cl_domain: "clientStep c (DomainAsked key) (snd (getDomain key c))"

section \<open>\<^verbatim>\<open>connectWhenReady\<close>\<close>

definition closedConnectionError :: "jserror \<Rightarrow> bool" where
  "closedConnectionError e \<longleftrightarrow> ekind e = ConnectionErrorK \<and> eClosed e"

definition startupReadinessError :: "jserror \<Rightarrow> bool" where
  "startupReadinessError e \<longleftrightarrow> ekind e \<in> {TransportErrorK, ConnectionErrorK, TimeoutErrorK}"

text \<open>
  The world of one call, with times in milliseconds since it started: what the \<open>n\<close>th \<^verbatim>\<open>connect\<close> would settle with and how long it
  would take, the random numbers of the backoff, and when the caller's signal aborts and the client is closed, if they do.
\<close>

record readyWorld =
  rwResult :: "nat \<Rightarrow> unit result"
  rwTakes :: "nat \<Rightarrow> rat"
  rwRandom :: "nat \<Rightarrow> rat"
  rwAborts :: "rat option"
  rwCloses :: "rat option"

definition reachedBy :: "rat option \<Rightarrow> rat \<Rightarrow> bool" where
  "reachedBy event t \<longleftrightarrow> (case event of None \<Rightarrow> False | Some a \<Rightarrow> a \<le> t)"

definition remainingMs :: "rat \<Rightarrow> rat \<Rightarrow> rat" where
  "remainingMs deadline t = max 0 (deadline - t)"

text \<open>
  When \<^verbatim>\<open>setTimeout\<close> of Node fires: after the delay rounded down, but after one millisecond if the delay is less than
  one or more than 2147483647.
\<close>

definition timerDelay :: "rat \<Rightarrow> rat" where
  "timerDelay ms = (if 1 \<le> ms \<and> ms \<le> 2147483647 then of_int \<lfloor>ms\<rfloor> else 1)"

text \<open>When the signal of the deadline aborts: with the caller's or when the timer of the deadline fires.\<close>

definition deadlineAborts :: "rat option \<Rightarrow> rat option \<Rightarrow> rat option" where
  "deadlineAborts deadline callerAborts =
    (case (deadline, callerAborts) of
       (Some d, Some a) \<Rightarrow> Some (min (timerDelay d) a) | (None, a) \<Rightarrow> a | (Some d, None) \<Rightarrow> Some (timerDelay d))"

text \<open>\<^verbatim>\<open>hasExpired\<close>: the timer has fired, or the clock has passed the deadline.\<close>

definition hasExpired :: "rat option \<Rightarrow> rat \<Rightarrow> bool" where
  "hasExpired deadline t = (case deadline of None \<Rightarrow> False | Some d \<Rightarrow> timerDelay d \<le> t \<or> d \<le> t)"

text \<open>How long \<^verbatim>\<open>sleepWithAbort\<close> sleeps.\<close>

definition sleepMs :: "rat \<Rightarrow> rat" where
  "sleepMs ms = (if ms \<le> 0 then 0 else timerDelay ms)"

text \<open>Something that takes \<open>dur\<close> and gives way to the signal: what it settles with, and when.\<close>

definition underSignal :: "rat option \<Rightarrow> rat \<Rightarrow> rat \<Rightarrow> unit result \<Rightarrow> unit result \<times> rat" where
  "underSignal aborts t dur r =
    (case aborts of
       None \<Rightarrow> (r, t + dur)
     | Some a \<Rightarrow> if a \<le> t then (Inl abortError, t) else if a \<le> t + dur then (Inl abortError, a) else (r, t + dur))"

partial_function (option) readyLoop ::
  "rat option \<Rightarrow> rat \<Rightarrow> readyWorld \<Rightarrow> nat \<Rightarrow> rat \<Rightarrow> rat \<Rightarrow> (unit result \<times> rat) option" where
  "readyLoop deadline maxBackoffMs w n t backoffMs =
    (let signal = deadlineAborts deadline (rwAborts w);
         timedOut = (\<lambda>t. \<not> reachedBy (rwAborts w) t \<and> hasExpired deadline t) in
     if reachedBy (rwCloses w) t then Some (Inl connectionClosedError, t)
     else if reachedBy (rwAborts w) t then Some (Inl abortError, t)
     else (let (r, t) = underSignal signal t (rwTakes w n) (rwResult w n) in
       case r of
         Inr _ \<Rightarrow> Some (Inr (), t)
       | Inl e \<Rightarrow>
           if isAbortError e then Some (Inl (if timedOut t then TimeoutError else e), t)
           else if reachedBy (rwCloses w) t \<or> closedConnectionError e then Some (Inl e, t)
           else if \<not> startupReadinessError e then Some (Inl e, t)
           else if hasExpired deadline t then Some (Inl TimeoutError, t)
           else (let backoff = jitteredBackoffMs (rwRandom w n) backoffMs maxBackoffMs;
                     delayMs = (case deadline of None \<Rightarrow> backoff | Some d \<Rightarrow> min backoff (remainingMs d t));
                     (s, t) = underSignal signal t (sleepMs delayMs) (Inr ()) in
             case s of
               Inl e \<Rightarrow> Some (Inl (if timedOut t then TimeoutError else e), t)
             | Inr _ \<Rightarrow> readyLoop deadline maxBackoffMs w (n + 1) t (min (backoffMs * 2) maxBackoffMs))))"

definition connectWhenReady ::
  "jsreal option \<Rightarrow> jsreal option \<Rightarrow> jsreal option \<Rightarrow> rat \<Rightarrow> readyWorld \<Rightarrow> (unit result \<times> rat) option" where
  "connectWhenReady timeoutMs backoffMs maxBackoffMs defaultTimeout w =
    (let timeout = resolveConnectWhenReadyTimeout timeoutMs (Some defaultTimeout);
         maxBackoff = resolveBackoffOption maxBackoffMs 2000
     in readyLoop timeout maxBackoff w 0 0 (resolveBackoffOption backoffMs 250))"

section \<open>The invariant of the facade\<close>

text \<open>
  The pending attempt is unsettled, and while the client is open it is the only one; a call waits for an unsettled attempt; one
  connection is made at most; the domain clients are kept apart.
\<close>

definition openAttempts :: "clientCore \<Rightarrow> nat set" where
  "openAttempts c = {k. k < length (ccAttempts c) \<and> snd (ccAttempts c ! k) = None}"

definition awaitedAttempts :: "clientCore \<Rightarrow> nat set" where
  "awaitedAttempts c = {k. AwaitsAttempt k \<in> set (ccCalls c)}"

definition attemptsInv :: "clientCore \<Rightarrow> bool" where
  "attemptsInv c \<longleftrightarrow> (if ccClosed c then ccPending c = None else openAttempts c = set_option (ccPending c)) \<and>
     awaitedAttempts c \<subseteq> openAttempts c"

definition lifeInv :: "clientCore \<Rightarrow> bool" where
  "lifeInv c \<longleftrightarrow>
     (ccClosing c = NotClosing \<longleftrightarrow> \<not> ccClosed c) \<and> (ccClosing c = ClosesConnection \<longrightarrow> ccCreated c) \<and>
     (\<forall>r. ccClosing c = CloseSettled r \<longrightarrow> \<not> ccCreated c) \<and>
     ccConnections c \<le> 1 \<and> (ccCreated c \<longrightarrow> ccConnections c = 1) \<and> (\<not> ccCreated c \<and> \<not> ccClosed c \<longrightarrow> ccConnections c = 0) \<and>
     distinct (map snd (ccDomains c)) \<and> (\<forall>x \<in> set (ccDomains c). snd x < ccMade c) \<and>
     (ccDomains c = [] \<or> ccCreated c \<or> ccClosed c)"

definition clientInv :: "clientCore \<Rightarrow> bool" where
  "clientInv c \<longleftrightarrow> attemptsInv c \<and> lifeInv c"

lemma owned_fields [simp]:
  "ccAttempts (createOwnedConnection c) = ccAttempts c" "ccCalls (createOwnedConnection c) = ccCalls c"
  "ccPending (createOwnedConnection c) = ccPending c" "ccClosed (createOwnedConnection c) = ccClosed c"
  by (simp_all add: createOwnedConnection_def)

lemma owned_life: "lifeInv c \<Longrightarrow> \<not> ccClosed c \<Longrightarrow> lifeInv (createOwnedConnection c)"
  by (auto simp: lifeInv_def createOwnedConnection_def)

lemma lifeInv_update [simp]:
  "lifeInv (c\<lparr>ccCalls := cs\<rparr>) = lifeInv c" "lifeInv (c\<lparr>ccAttempts := as\<rparr>) = lifeInv c" "lifeInv (c\<lparr>ccPending := p\<rparr>) = lifeInv c"
  by (simp_all add: lifeInv_def)

lemma attemptsInv_same:
  "ccAttempts c' = ccAttempts c \<Longrightarrow> ccCalls c' = ccCalls c \<Longrightarrow> ccPending c' = ccPending c \<Longrightarrow> ccClosed c' = ccClosed c \<Longrightarrow>
    attemptsInv c' = attemptsInv c"
  by (simp add: attemptsInv_def openAttempts_def awaitedAttempts_def)

lemma open_update [simp]: "openAttempts (c\<lparr>ccCalls := cs\<rparr>) = openAttempts c" "openAttempts (c\<lparr>ccPending := p\<rparr>) = openAttempts c"
  "openAttempts (c\<lparr>ccClosed := b\<rparr>) = openAttempts c" "awaitedAttempts (c\<lparr>ccAttempts := as\<rparr>) = awaitedAttempts c"
  "awaitedAttempts (c\<lparr>ccPending := p\<rparr>) = awaitedAttempts c" "awaitedAttempts (c\<lparr>ccClosed := b\<rparr>) = awaitedAttempts c"
  by (simp_all add: openAttempts_def awaitedAttempts_def)

lemma open_append: "openAttempts (c\<lparr>ccAttempts := ccAttempts c @ [(a, None)]\<rparr>) = insert (length (ccAttempts c)) (openAttempts c)"
  by (auto simp: openAttempts_def nth_append)

lemma awaited_append: "awaitedAttempts (c\<lparr>ccCalls := ccCalls c @ [r]\<rparr>) = awaitedAttempts c \<union> {k. r = AwaitsAttempt k}"
  by (auto simp: awaitedAttempts_def)

lemma call_recorded:
  assumes "attemptsInv c" and "{k. r = AwaitsAttempt k} \<subseteq> openAttempts c"
  shows "attemptsInv (c\<lparr>ccCalls := ccCalls c @ [r]\<rparr>)"
  using assms by (simp add: attemptsInv_def awaited_append)

lemma attempt_started:
  assumes "attemptsInv c" and "ccPending c = None" and "\<not> ccClosed c"
  shows "attemptsInv (c\<lparr>ccAttempts := ccAttempts c @ [(a, None)], ccPending := Some (length (ccAttempts c))\<rparr>)"
  using assms open_append [of c a] by (auto simp: attemptsInv_def)

lemma pending_unsettled: "attemptsInv c \<Longrightarrow> ccPending c = Some k \<Longrightarrow> k \<in> openAttempts c"
  by (simp add: attemptsInv_def split: if_splits)

lemma open_owned [simp]: "openAttempts (createOwnedConnection c) = openAttempts c"
  by (simp add: openAttempts_def)

lemma connect_inv:
  assumes "clientInv c"
  shows "clientInv (connectClient v aborted c)"
proof -
  have a: "attemptsInv c" "lifeInv c" using assms by (simp_all add: clientInv_def)
  have threw: "clientInv (c\<lparr>ccCalls := ccCalls c @ [ConnectThrew e]\<rparr>)" for e
    using a call_recorded [OF a(1)] by (simp add: clientInv_def)
  let ?c = "createOwnedConnection c"
  have o: "attemptsInv ?c" using a(1) attemptsInv_same [of ?c c] by simp
  have life: "lifeInv ?c" if "\<not> ccClosed c" using owned_life [OF a(2) that] .
  show ?thesis
  proof (cases "ccClosed c \<or> aborted")
    case True
    then show ?thesis using threw by (auto simp: connectClient_def Let_def)
  next
    case False
    show ?thesis
    proof (cases "cvConnected v")
      case True
      then show ?thesis using False call_recorded [OF o] life by (simp add: connectClient_def Let_def clientInv_def)
    next
      case nc: False
      show ?thesis
      proof (cases "ccPending c")
        case None
        let ?d = "\<lambda>a. ?c\<lparr>ccAttempts := ccAttempts ?c @ [(a, None)], ccPending := Some (length (ccAttempts ?c))\<rparr>"
        have d: "attemptsInv (?d a)" for a by (rule attempt_started [OF o]) (use None False in simp_all)
        have "attemptsInv ((?d a)\<lparr>ccCalls := ccCalls (?d a) @ [AwaitsAttempt (length (ccAttempts c))]\<rparr>)" for a
          by (rule call_recorded [OF d]) (simp add: openAttempts_def)
        then show ?thesis using False nc None life by (simp add: connectClient_def Let_def clientInv_def)
      next
        case (Some k)
        have "attemptsInv (?c\<lparr>ccCalls := ccCalls ?c @ [AwaitsAttempt k]\<rparr>)"
          by (rule call_recorded [OF o]) (use pending_unsettled [OF a(1) Some] in simp)
        then show ?thesis using False nc Some life by (simp add: connectClient_def Let_def clientInv_def)
      qed
    qed
  qed
qed

lemma settled_attempt_inv:
  assumes inv: "clientInv c" and k: "k < length (ccAttempts c)" "snd (ccAttempts c ! k) = None"
  shows "clientInv (attemptSettled k r c)"
proof -
  have "attemptOutcome c r \<noteq> AwaitsAttempt l" for l by (simp add: attemptOutcome_def split: sum.split)
  then have aw: "awaitedAttempts (attemptSettled k r c) \<subseteq> awaitedAttempts c - {k}"
    by (auto simp: awaitedAttempts_def attemptSettled_def split: if_splits) metis+
  have op: "openAttempts (attemptSettled k r c) = openAttempts c - {k}"
    using k(1) by (auto simp: openAttempts_def attemptSettled_def nth_list_update split: if_splits)
  have "k \<in> openAttempts c" using k by (simp add: openAttempts_def)
  then have p: "ccPending (attemptSettled k r c) = None"
    using inv by (cases "ccPending c") (simp_all add: clientInv_def attemptsInv_def attemptSettled_def split: if_splits)
  have "awaitedAttempts c \<subseteq> openAttempts c" "\<not> ccClosed c \<longrightarrow> openAttempts c \<subseteq> {k}"
    using inv \<open>k \<in> openAttempts c\<close> by (cases "ccPending c", auto simp: clientInv_def attemptsInv_def split: if_splits)
  then have "attemptsInv (attemptSettled k r c)"
    using aw p by (auto simp: attemptsInv_def op) (simp add: attemptSettled_def)
  moreover have "lifeInv (attemptSettled k r c)" using inv by (simp add: clientInv_def attemptSettled_def)
  ultimately show ?thesis by (simp add: clientInv_def)
qed

lemma caller_aborted_inv:
  assumes "clientInv c"
  shows "clientInv (callerAborted j c)"
proof -
  have "awaitedAttempts (c\<lparr>ccCalls := (ccCalls c)[j := ConnectThrew abortError]\<rparr>) \<subseteq> awaitedAttempts c"
    using set_update_subset_insert [of "ccCalls c" j "ConnectThrew abortError"] by (auto simp: awaitedAttempts_def)
  then show ?thesis using assms by (cases "ccCalls c ! j") (auto simp: clientInv_def callerAborted_def attemptsInv_def)
qed

lemma close_client_inv:
  assumes "clientInv c"
  shows "clientInv (closeClient c)"
proof -
  have "attemptsInv (c\<lparr>ccClosed := True, ccPending := None\<rparr>)" using assms by (simp add: clientInv_def attemptsInv_def)
  then have "attemptsInv (closeClient c)"
    using assms attemptsInv_same [of "closeClient c" "c\<lparr>ccClosed := True, ccPending := None\<rparr>"] attemptsInv_same [of "closeClient c" c]
    by (cases "ccClosing c = NotClosing") (simp_all add: closeClient_def Let_def clientInv_def lifeInv_def)
  moreover have "lifeInv (closeClient c)"
    using assms by (cases "ccClosing c = NotClosing") (simp_all add: closeClient_def Let_def clientInv_def lifeInv_def)
  ultimately show ?thesis by (simp add: clientInv_def)
qed

lemma close_settled_inv:
  assumes "clientInv c" and "ccClosing c = ClosesConnection"
  shows "clientInv (connectionCloseSettled r c)"
proof -
  have "attemptsInv (connectionCloseSettled r c)"
    using assms(1) attemptsInv_same [of "connectionCloseSettled r c" c]
    by (cases r) (simp_all add: connectionCloseSettled_def Let_def clientInv_def)
  moreover have "lifeInv (connectionCloseSettled r c)"
    using assms by (cases r) (simp_all add: connectionCloseSettled_def Let_def clientInv_def lifeInv_def)
  ultimately show ?thesis by (simp add: clientInv_def)
qed

lemma domain_inv:
  assumes "clientInv c"
  shows "clientInv (snd (getDomain key c))"
proof (cases "ensureConnection c = Inr () \<and> map_of (ccDomains c) key = None")
  case True
  then have n: "key \<notin> fst ` set (ccDomains c)" "ccCreated c" by (auto simp: map_of_eq_None_iff ensureConnection_def split: if_splits)
  have "ccMade c \<notin> snd ` set (ccDomains c)" using assms by (auto simp: clientInv_def lifeInv_def)
  then have "lifeInv (snd (getDomain key c))"
    using True n assms by (simp add: getDomain_def clientInv_def lifeInv_def mapSet_fresh) (auto simp: less_Suc_eq)
  then show ?thesis
    using True assms attemptsInv_same [of "snd (getDomain key c)" c] by (simp add: getDomain_def clientInv_def)
next
  case False
  then have "snd (getDomain key c) = c" by (cases "ensureConnection c"; cases "map_of (ccDomains c) key") (auto simp: getDomain_def)
  then show ?thesis using assms by simp
qed

lemma clientStep_inv: "clientInv c \<Longrightarrow> clientStep c e c' \<Longrightarrow> clientInv c'"
  by (erule clientStep.cases)
    (simp_all add: connect_inv settled_attempt_inv caller_aborted_inv close_client_inv close_settled_inv domain_inv)

definition connectOutcomeOf :: "clientCore \<Rightarrow> nat \<Rightarrow> connectOutcome option" where
  "connectOutcomeOf c j =
    (if j < length (ccCalls c) then (case ccCalls c ! j of AwaitsAttempt k \<Rightarrow> None | o' \<Rightarrow> Some o') else None)"

lemma clientStep_keeps: "clientStep c e c' \<Longrightarrow> connectOutcomeOf c j = Some o' \<Longrightarrow> connectOutcomeOf c' j = Some o'"
proof (erule clientStep.cases, goal_cases)
  case (1 d v aborted)
  have "\<exists>x. ccCalls (connectClient v aborted d) = ccCalls d @ [x]"
    by (simp add: connectClient_def Let_def split: option.split)
  then show ?case using 1 by (auto simp: connectOutcomeOf_def nth_append split: if_splits)
next
  case (2 k d r)
  then show ?case by (auto simp: connectOutcomeOf_def attemptSettled_def split: if_splits connectOutcome.splits)
next
  case (3 j' d)
  then show ?case
    by (cases "j = j'"; cases "ccCalls d ! j'") (auto simp: connectOutcomeOf_def callerAborted_def split: if_splits)
next
  case (4 d)
  have "ccCalls (closeClient d) = ccCalls d" by (simp add: closeClient_def Let_def)
  then show ?case using 4 by (simp add: connectOutcomeOf_def split: if_splits)
next
  case (5 d r)
  have "ccCalls (connectionCloseSettled r d) = ccCalls d" by (simp add: connectionCloseSettled_def Let_def split: sum.split)
  then show ?case using 5 by (simp add: connectOutcomeOf_def split: if_splits)
next
  case (6 d key)
  have "ccCalls (snd (getDomain key d)) = ccCalls d" by (simp add: getDomain_def split: sum.split option.split)
  then show ?case using 6 by (simp add: connectOutcomeOf_def split: if_splits)
qed

lemma client_create_inv: "clientInv createClientCore"
  by (simp add: clientInv_def attemptsInv_def lifeInv_def createClientCore_def openAttempts_def awaitedAttempts_def)

interpretation clientCore: settling createClientCore clientStep clientInv connectOutcomeOf
  by unfold_locales (fact client_create_inv, rule clientStep_inv, assumption+, rule clientStep_keeps)

section \<open>Properties of the facade\<close>

text \<open>
  C23: concurrent connects share one attempt. In every reachable state a call that waits waits for an attempt that has not settled; while the
  client is open there is at most one of these, and a connect that comes then joins it instead of starting another;
  one connection is made in the life of a client; and how a call ended never changes.
\<close>

theorem connects_share_one_attempt:
  assumes "reachable clientStep createClientCore c"
  shows "(\<forall>k. AwaitsAttempt k \<in> set (ccCalls c) \<longrightarrow> k < length (ccAttempts c) \<and> snd (ccAttempts c ! k) = None) \<and>
    (\<not> ccClosed c \<longrightarrow> (\<forall>k l. k < length (ccAttempts c) \<and> l < length (ccAttempts c) \<and>
       snd (ccAttempts c ! k) = None \<and> snd (ccAttempts c ! l) = None \<longrightarrow> k = l)) \<and>
    (\<forall>k v. \<not> ccClosed c \<and> k < length (ccAttempts c) \<and> snd (ccAttempts c ! k) = None \<and> \<not> cvConnected v \<longrightarrow>
       ccCalls (connectClient v False c) = ccCalls c @ [AwaitsAttempt k] \<and> ccAttempts (connectClient v False c) = ccAttempts c) \<and>
    ccConnections c \<le> 1 \<and>
    (\<forall>es c' j o'. run clientStep c es c' \<and> connectOutcomeOf c j = Some o' \<longrightarrow> connectOutcomeOf c' j = Some o')"
proof -
  have "clientInv c" by (rule clientCore.reachable_inv [OF assms])
  then have inv: "awaitedAttempts c \<subseteq> openAttempts c" "\<not> ccClosed c \<Longrightarrow> openAttempts c = set_option (ccPending c)" "ccConnections c \<le> 1"
    by (simp_all add: clientInv_def attemptsInv_def lifeInv_def)
  have pending: "ccPending c = Some k" if "\<not> ccClosed c" "k < length (ccAttempts c)" "snd (ccAttempts c ! k) = None" for k
  proof -
    have "k \<in> openAttempts c" using that by (simp add: openAttempts_def)
    then show ?thesis using inv(2) [OF that(1)] by (cases "ccPending c") auto
  qed
  have joins: "ccCalls (connectClient v False c) = ccCalls c @ [AwaitsAttempt k] \<and> ccAttempts (connectClient v False c) = ccAttempts c"
    if "ccPending c = Some k" "\<not> ccClosed c" "\<not> cvConnected v" for k v
    using that by (simp add: connectClient_def Let_def)
  show ?thesis
  proof (intro conjI)
    show "\<forall>k. AwaitsAttempt k \<in> set (ccCalls c) \<longrightarrow> k < length (ccAttempts c) \<and> snd (ccAttempts c ! k) = None"
      using inv(1) by (auto simp: awaitedAttempts_def openAttempts_def)
    show "\<not> ccClosed c \<longrightarrow> (\<forall>k l. k < length (ccAttempts c) \<and> l < length (ccAttempts c) \<and>
       snd (ccAttempts c ! k) = None \<and> snd (ccAttempts c ! l) = None \<longrightarrow> k = l)"
      using pending by (metis option.inject)
    show "\<forall>k v. \<not> ccClosed c \<and> k < length (ccAttempts c) \<and> snd (ccAttempts c ! k) = None \<and> \<not> cvConnected v \<longrightarrow>
       ccCalls (connectClient v False c) = ccCalls c @ [AwaitsAttempt k] \<and> ccAttempts (connectClient v False c) = ccAttempts c"
      using pending by (intro allI impI) (elim conjE, rule joins, blast+)
    show "\<forall>es c' j o'. run clientStep c es c' \<and> connectOutcomeOf c j = Some o' \<longrightarrow> connectOutcomeOf c' j = Some o'"
      by (intro allI impI) (erule conjE, rule clientCore.settled_once [OF assms], assumption+)
  qed (rule inv(3))
qed

text \<open>
  C24: a closed client stays closed. After \<^verbatim>\<open>close\<close> has been called, whatever follows, every connect throws, no connection and no domain client
  is made, the state is reported as closed; and once the close has settled the connection is given up.
\<close>

theorem closed_client_is_final:
  assumes "reachable clientStep createClientCore c" and "run clientStep (closeClient c) es d"
  shows "ccClosed d \<and> clientState v d = Closed \<and> \<not> clientIsConnected v d \<and>
    ccCalls (connectClient v aborted d) = ccCalls d @ [ConnectThrew connectionClosedError] \<and>
    getDomain key d = (Inl connectionClosedError, d) \<and> ccConnections d = ccConnections c \<and> ccMade d = ccMade c \<and>
    (\<forall>r. ccClosing d = CloseSettled r \<longrightarrow> \<not> ccCreated d)"
proof -
  have inv: "clientInv (closeClient c)" using close_client_inv clientCore.reachable_inv [OF assms(1)] by blast
  then have closed: "ccClosed (closeClient c)"
    using clientCore.reachable_inv [OF assms(1)] by (auto simp: closeClient_def Let_def clientInv_def lifeInv_def)
  have step: "ccClosed a' \<and> ccConnections a' = ccConnections a \<and> ccMade a' = ccMade a" if "clientStep a e a'" "ccClosed a" for a e a'
    using that
    by (cases rule: clientStep.cases)
      (auto simp: connectClient_def attemptSettled_def callerAborted_def closeClient_def connectionCloseSettled_def getDomain_def
        ensureConnection_def Let_def split: connectOutcome.split sum.split option.split)
  have d: "ccClosed d \<and> ccConnections d = ccConnections (closeClient c) \<and> ccMade d = ccMade (closeClient c)"
    using assms(2) closed by (induction rule: run.induct) (auto dest: step)
  have "clientInv d" using clientCore.run_inv [OF assms(2) inv] .
  then show ?thesis
    using d by (auto simp: clientState_def clientIsConnected_def connectClient_def getDomain_def ensureConnection_def clientInv_def lifeInv_def
        closeClient_def Let_def)
qed

text \<open>
  The signal of the caller that started an attempt governs it for everybody. When the first of two concurrent connects is aborted, the
  attempt it started rejects with the abort, and the second connect, whose own signal did not abort, throws it too.
\<close>

theorem aborted_initiator_fails_others:
  "let v = \<lparr>cvConnected = False, cvState = Disconnected, cvShouldWait = False\<rparr>;
       c = attemptSettled 0 (Inl abortError) (callerAborted 0 (connectClient v False (connectClient v False createClientCore)))
   in ccAttempts c = [(StartedConnect 0, Some (Inl abortError))] \<and> ccCalls c = [ConnectThrew abortError, ConnectThrew abortError]"
  by (simp add: createClientCore_def connectClient_def createOwnedConnection_def waitsForReady_def callerAborted_def attemptSettled_def
      attemptOutcome_def Let_def)

theorem connects_share_one_attempt_witness:
  "\<exists>c. reachable clientStep createClientCore c \<and> ccAttempts c = [(StartedConnect 0, None)] \<and>
     ccCalls (connectClient \<lparr>cvConnected = False, cvState = Connecting, cvShouldWait = False\<rparr> False c) = [AwaitsAttempt 0, AwaitsAttempt 0]"
proof -
  let ?c = "connectClient \<lparr>cvConnected = False, cvState = Disconnected, cvShouldWait = False\<rparr> False createClientCore"
  have r: "reachable clientStep createClientCore ?c"
    by (rule reachable_step [where step = clientStep, OF reachable_start cl_connect])
  have c: "ccAttempts ?c = [(StartedConnect 0, None)]" "ccCalls ?c = [AwaitsAttempt 0]" "\<not> ccClosed ?c"
    by (simp_all add: connectClient_def createClientCore_def waitsForReady_def Let_def)
  have "ccCalls (connectClient \<lparr>cvConnected = False, cvState = Connecting, cvShouldWait = False\<rparr> False ?c) = ccCalls ?c @ [AwaitsAttempt 0]"
    using connects_share_one_attempt [OF r] c by simp
  with r c show ?thesis by (intro exI [of _ ?c]) simp
qed

theorem closed_client_is_final_witness:
  "clientState \<lparr>cvConnected = True, cvState = Authenticated, cvShouldWait = False\<rparr> (closeClient createClientCore) = Closed \<and>
   fst (getDomain ''kv'' (closeClient createClientCore)) = Inl connectionClosedError"
  using closed_client_is_final [OF reachable_start run_none, of "\<lparr>cvConnected = True, cvState = Authenticated, cvShouldWait = False\<rparr>" False "''kv''"] by simp

section \<open>Properties of the readiness loop\<close>

lemma reached_at [simp]: "reachedBy (Some d) t \<longleftrightarrow> d \<le> t"
  by (simp add: reachedBy_def)

lemma backoff_progress: "1 \<le> b \<Longrightarrow> 1 \<le> m \<Longrightarrow> 1 \<le> jitteredBackoffMs r b m"
  by (simp add: jitteredBackoffMs_def Let_def min_def max_def)

lemma timer_positive: "1 \<le> timerDelay ms"
  by (simp add: timerDelay_def le_floor_iff)

lemma timer_in_range: "1 \<le> ms \<Longrightarrow> ms \<le> 2147483647 \<Longrightarrow> timerDelay ms \<le> ms \<and> ms < timerDelay ms + 1"
  by (simp add: timerDelay_def) linarith

lemma sleep_positive: "0 < ms \<Longrightarrow> 1 \<le> sleepMs ms"
  using timer_positive by (simp add: sleepMs_def)

lemma sleep_nonneg: "0 \<le> sleepMs ms"
  using timer_positive [of ms] by (simp add: sleepMs_def)

lemma underSignal_time:
  assumes "underSignal (deadlineAborts (Some d) a) t dur r = (s, t')" and "0 \<le> dur" and "t \<le> timerDelay d"
  shows "t \<le> t'" "t' \<le> timerDelay d" "s = r \<and> t' = t + dur \<or> s = Inl abortError"
  using assms by (auto simp: underSignal_def deadlineAborts_def split: option.splits if_splits)

text \<open>How a wait may end: as one of its attempts, at its deadline, with the caller's abort, or with the client.\<close>

definition readyEnd :: "readyWorld \<Rightarrow> rat \<Rightarrow> unit result \<Rightarrow> rat \<Rightarrow> bool" where
  "readyEnd w d r t \<longleftrightarrow> (\<exists>n. r = rwResult w n) \<or> (r = Inl TimeoutError \<and> hasExpired (Some d) t) \<or>
     (r = Inl abortError \<and> reachedBy (rwAborts w) t) \<or> (r = Inl connectionClosedError \<and> reachedBy (rwCloses w) t)"

lemma underSignal_end:
  assumes "underSignal (deadlineAborts (Some d) (rwAborts w)) t dur r = (s, t')" and "0 \<le> dur" and "t \<le> timerDelay d" and "s \<noteq> r"
  shows "s = Inl abortError" "hasExpired (Some d) t' \<or> reachedBy (rwAborts w) t'"
  using assms by (auto simp: underSignal_def deadlineAborts_def reachedBy_def hasExpired_def min_def split: option.splits if_splits)

lemma readyLoop_returns:
  assumes d: "t \<le> timerDelay d" "timerDelay d - t < of_nat m" and b: "1 \<le> b" "1 \<le> maxB" and w: "\<And>n. 0 \<le> rwTakes w n"
  shows "\<exists>r t'. readyLoop (Some d) maxB w n t b = Some (r, t') \<and> t \<le> t' \<and> t' \<le> timerDelay d \<and> readyEnd w d r t'"
  using d b(1)
proof (induction m arbitrary: n t b)
  case 0
  then show ?case by simp
next
  case (Suc m)
  let ?sig = "deadlineAborts (Some d) (rwAborts w)"
  obtain r1 t1 where a: "underSignal ?sig t (rwTakes w n) (rwResult w n) = (r1, t1)" by (cases "underSignal ?sig t (rwTakes w n) (rwResult w n)")
  note t1 = underSignal_time [OF a w Suc.prems(1)]
  let ?backoff = "jitteredBackoffMs (rwRandom w n) b maxB"
  define delay where "delay = min ?backoff (remainingMs d t1)"
  have backoff: "1 \<le> ?backoff" using Suc.prems(3) assms(4) by (rule backoff_progress)
  obtain s t2 where sl: "underSignal ?sig t1 (sleepMs delay) (Inr ()) = (s, t2)" by (cases "underSignal ?sig t1 (sleepMs delay) (Inr ())")
  note t2 = underSignal_time [OF sl sleep_nonneg t1(2)]
  have further: "\<exists>r t'. readyLoop (Some d) maxB w (n + 1) t2 (min (b * 2) maxB) = Some (r, t') \<and> t2 \<le> t' \<and> t' \<le> timerDelay d \<and> readyEnd w d r t'"
    if "s = Inr ()" "t1 < d"
  proof (rule Suc.IH)
    show "t2 \<le> timerDelay d" by (rule t2(2))
    have "t2 = t1 + sleepMs delay" using t2(3) that(1) by auto
    moreover have "0 < delay" using that(2) backoff by (simp add: delay_def remainingMs_def)
    ultimately have "t1 + 1 \<le> t2" using sleep_positive by simp
    then show "timerDelay d - t2 < of_nat m" using Suc.prems(2) t1(1) by simp
    show "1 \<le> min (b * 2) maxB" using Suc.prems(3) assms(4) by simp
  qed
  show ?case
  proof (cases "reachedBy (rwCloses w) t \<or> reachedBy (rwAborts w) t \<or> (\<exists>v. r1 = Inr v)")
    case True
    moreover have "readyEnd w d r1 t1" if "r1 = Inr ()"
      using underSignal_end [OF a w Suc.prems(1)] that by (cases "r1 = rwResult w n") (auto simp: readyEnd_def intro: exI [of _ n])
    ultimately show ?thesis
      using t1 Suc.prems(1) by (subst readyLoop.simps) (auto simp: a Let_def readyEnd_def)
  next
    case False
    then obtain e where e: "r1 = Inl e" by (cases r1) auto
    show ?thesis
    proof (cases "isAbortError e \<or> reachedBy (rwCloses w) t1 \<or> closedConnectionError e \<or> \<not> startupReadinessError e \<or> hasExpired (Some d) t1 \<or> s \<noteq> Inr ()")
      case True
      let ?timedOut = "\<lambda>t. \<not> reachedBy (rwAborts w) t \<and> hasExpired (Some d) t"
      have r1: "r1 = rwResult w n \<or> e = abortError \<and> (hasExpired (Some d) t1 \<or> reachedBy (rwAborts w) t1)"
        using underSignal_end [OF a w Suc.prems(1)] e by (cases "r1 = rwResult w n") auto
      have s: "s = Inr () \<or> s = Inl abortError \<and> (hasExpired (Some d) t2 \<or> reachedBy (rwAborts w) t2)"
        using underSignal_end [OF sl sleep_nonneg t1(2)] by blast
      have own: "readyEnd w d (Inl e) t1" if "r1 = rwResult w n" using that e by (auto simp: readyEnd_def)
      have late: "readyEnd w d (Inl TimeoutError) t" if "hasExpired (Some d) t" for t using that by (simp add: readyEnd_def)
      have end1: "readyEnd w d (Inl (if ?timedOut t1 then TimeoutError else e)) t1"
        using r1 own late [of t1] by (auto simp: readyEnd_def)
      have end2: "readyEnd w d (Inl (if ?timedOut t2 then TimeoutError else abortError)) t2" if "s \<noteq> Inr ()"
        using s that late [of t2] by (auto simp: readyEnd_def)
      note unfold = readyLoop.simps [of "Some d" maxB w n t b]
      have quiet: "\<not> reachedBy (rwCloses w) t" "\<not> reachedBy (rwAborts w) t" using False by simp_all
      consider "isAbortError e" | "\<not> isAbortError e" "reachedBy (rwCloses w) t1 \<or> closedConnectionError e \<or> \<not> startupReadinessError e"
        | "\<not> isAbortError e" "\<not> (reachedBy (rwCloses w) t1 \<or> closedConnectionError e \<or> \<not> startupReadinessError e)" "hasExpired (Some d) t1"
        | "\<not> isAbortError e" "\<not> (reachedBy (rwCloses w) t1 \<or> closedConnectionError e \<or> \<not> startupReadinessError e)" "\<not> hasExpired (Some d) t1" "s = Inl abortError"
        using True s by blast
      then show ?thesis
      proof cases
        case 1
        then show ?thesis using end1 t1 quiet by (simp add: unfold a e Let_def)
      next
        case 2
        have "e \<noteq> abortError" using 2(1) by (auto simp: isAbortError_def error_defs)
        then have "readyEnd w d (Inl e) t1" using own r1 by blast
        then show ?thesis using 2 t1 quiet by (auto simp: unfold a e Let_def)
      next
        case 3
        then have "readyLoop (Some d) maxB w n t b = Some (Inl TimeoutError, t1)" using quiet by (simp add: unfold a e Let_def)
        then show ?thesis using late [OF 3(3)] t1 by auto
      next
        case 4
        then show ?thesis using end2 t1 t2 quiet by (simp add: unfold a e Let_def delay_def [symmetric] sl)
      qed
    next
      case go: False
      then have "readyLoop (Some d) maxB w n t b = readyLoop (Some d) maxB w (n + 1) t2 (min (b * 2) maxB)"
        using False e by (subst readyLoop.simps) (simp add: a Let_def delay_def [symmetric] sl)
      moreover have "t1 < d" using go by (simp add: hasExpired_def)
      ultimately show ?thesis using further go t1(1) t2(1) by fastforce
    qed
  qed
qed

text \<open>
  C25: a wait for readiness ends by its deadline. With a finite timeout \<^verbatim>\<open>connectWhenReady\<close> returns, whatever the attempts do and however
  long they take, no later than the timer of its deadline fires: at the timeout rounded down to
  milliseconds for timeouts from 1 to 2147483647 ms, and after one millisecond for all others, so also for the longer ones, which the platform
  does not accept. It returns what one of its attempts settled with, a timeout when the deadline has expired,
  the abort of its caller or the closing of the client.
\<close>

theorem readiness_wait_is_bounded:
  assumes "resolveConnectWhenReadyTimeout timeoutMs (Some defaultTimeout) = Some d" and "0 \<le> defaultTimeout" and "\<And>n. 0 \<le> rwTakes w n"
  shows "\<exists>r t. connectWhenReady timeoutMs backoffMs maxBackoffMs defaultTimeout w = Some (r, t) \<and> 0 \<le> t \<and>
    (1 \<le> d \<and> d \<le> 2147483647 \<longrightarrow> t \<le> of_int \<lfloor>d\<rfloor>) \<and> (\<not> (1 \<le> d \<and> d \<le> 2147483647) \<longrightarrow> t \<le> 1) \<and>
    ((\<exists>n. r = rwResult w n) \<or> (r = Inl TimeoutError \<and> (t = timerDelay d \<or> d \<le> t)) \<or> (r = Inl abortError \<and> reachedBy (rwAborts w) t) \<or>
     (r = Inl connectionClosedError \<and> reachedBy (rwCloses w) t))"
proof -
  have T: "0 \<le> timerDelay d" using timer_positive [of d] by simp
  obtain m where m: "timerDelay d - 0 < of_nat m" using reals_Archimedean2 [of "timerDelay d - 0"] by blast
  have b: "1 \<le> resolveBackoffOption backoffMs 250" and mb: "1 \<le> resolveBackoffOption maxBackoffMs 2000" by (simp_all add: resolveBackoffOption_def)
  from readyLoop_returns [OF T m b mb assms(3), of 0] obtain r t where
    rt: "readyLoop (Some d) (resolveBackoffOption maxBackoffMs 2000) w 0 0 (resolveBackoffOption backoffMs 250) = Some (r, t)"
      "0 \<le> t" "t \<le> timerDelay d" "readyEnd w d r t"
    by blast
  then have "connectWhenReady timeoutMs backoffMs maxBackoffMs defaultTimeout w = Some (r, t)"
    by (simp add: connectWhenReady_def assms(1) Let_def)
  moreover have "(1 \<le> d \<and> d \<le> 2147483647 \<longrightarrow> t \<le> of_int \<lfloor>d\<rfloor>) \<and> (\<not> (1 \<le> d \<and> d \<le> 2147483647) \<longrightarrow> t \<le> 1)"
    using rt(3) by (cases "1 \<le> d \<and> d \<le> 2147483647") (auto simp: timerDelay_def)
  moreover have "(\<exists>n. r = rwResult w n) \<or> (r = Inl TimeoutError \<and> (t = timerDelay d \<or> d \<le> t)) \<or> (r = Inl abortError \<and> reachedBy (rwAborts w) t) \<or>
     (r = Inl connectionClosedError \<and> reachedBy (rwCloses w) t)"
    using rt(3,4) by (auto simp: readyEnd_def hasExpired_def)
  ultimately show ?thesis using rt(2) by blast
qed

theorem readiness_wait_is_bounded_witness:
  "\<exists>r t. connectWhenReady (Some (Finite 1000)) None None 30000
       \<lparr>rwResult = (\<lambda>n. Inl TransportError), rwTakes = (\<lambda>n. 10), rwRandom = (\<lambda>n. 0), rwAborts = None, rwCloses = None\<rparr> = Some (r, t) \<and> t \<le> 1000"
proof -
  have t: "resolveConnectWhenReadyTimeout (Some (Finite 1000)) (Some 30000) = Some 1000" by simp
  show ?thesis
    using readiness_wait_is_bounded [OF t, of "\<lparr>rwResult = (\<lambda>n. Inl TransportError), rwTakes = (\<lambda>n. 10), rwRandom = (\<lambda>n. 0), rwAborts = None, rwCloses = None\<rparr>" None None]
    by auto
qed

text \<open>
  A timeout of more than 2147483647 ms, like the 30 days here, is over after one millisecond: an attempt that takes 10 ms is not waited for.
\<close>

theorem long_timeout_expires_at_once:
  "connectWhenReady (Some (Finite 2592000000)) None None 30000
     \<lparr>rwResult = (\<lambda>n. Inr ()), rwTakes = (\<lambda>n. 10), rwRandom = (\<lambda>n. 0), rwAborts = None, rwCloses = None\<rparr> = Some (Inl TimeoutError, 1)"
  unfolding connectWhenReady_def
  by (subst readyLoop.simps)
    (simp add: Let_def deadlineAborts_def timerDelay_def hasExpired_def underSignal_def reachedBy_def isAbortError_def error_defs)

end
