(* ===== verification/Spec2Isabelle.thy ===== *)
theory Spec2Isabelle
  imports MuxProperties KvCodec QueueCodec LeaseCodec ScheduleCodec StreamCodec RpcCodec Extensions
    RequestGate Dispatcher WakeGate Reconnect TaskGroup RegistryRestore Heartbeat ConnFaults Handshake LeaseManaged LeaseObserver KvTransaction StreamClient RpcInvocation RpcRegistration NoticeClient QueueClient ScheduleClient ClientCore
begin

text \<open>
  Verification library for the TypeScript client of Fitz, the code under \<^verbatim>\<open>src/src/\<close> of the
  repository. Paths below are relative to that directory.

  \<^bold>\<open>The program.\<close> A client (\<^verbatim>\<open>client/client-core.ts\<close>) owns one connection
  (\<^verbatim>\<open>client/connection.ts\<close>) and one object per domain (\<^verbatim>\<open>domains/*/client.ts\<close>). The connection opens
  a transport, sends CONNECT, reads frames in a receive loop, watches the link with a heartbeat and reconnects
  after a loss. Requests pass an admission gate and a multiplexer, which matches answers to requests by their
  correlation identifier, or by position for messages that have none. Domain clients encode requests and decode
  answers with their codecs (\<^verbatim>\<open>domains/*/codec.ts\<close>) over the shared wire buffers (\<^verbatim>\<open>core/buffer.ts\<close>), keep
  subscriptions alive over reconnects, and hand out handles: transactions, leases, queue items, iterators.

  \<^bold>\<open>How the code is modelled.\<close> Classes and closures are records, operations functions on them, errors
  are values of a sum type, machine integers are naturals or integers with the wrap-around written out, bytes are
  words of eight bits, strings are lists of UTF-16 code units. Code between two awaits is one atomic function on the record; an
  asynchronous function is split at its awaits, and the steps of a component are collected in an event datatype
  and a step function or relation, so that every interleaving the event loop allows is a run. What is not code
  of the repository is an argument: answers of the broker, results of a transport or token provider, outcomes of
  user handlers, random numbers, the clock, JSON parsing. Where the code relies on it, it is a named hypothesis:
  \<open>freshRandom\<close> of \<open>RpcCalls\<close> (no correlation identifier is drawn twice among live calls) and the honest
  brokers of the paged readers. The session guarantee of the registry assumes in addition that the broker keeps the order of the requests for
  one pattern.

  \<^bold>\<open>The theories, in the order of the layers.\<close>

  \<^item> \<open>Prelude\<close>, \<open>JsMap\<close>, \<open>Machines\<close>: shared vocabulary (bytes, strings, numbers a caller may pass, results), the
    insertion-ordered map of the language, and runs of a step relation. The locale \<open>machine\<close> states that an
    invariant holds at the start and is kept by every step; \<open>settling\<close> extends it by promises that settle at
    most once. Every component with interleaving operations interprets one of them.
  \<^item> \<open>Buffer\<close>, \<open>Utf8\<close>, \<open>Writer\<close>, \<open>Reader\<close> (\<^verbatim>\<open>core/buffer.ts\<close>): big-endian stores and loads, the text codecs,
    the growing writer and the bounds-checked reader. The locales \<open>reader_op\<close> and \<open>wire_field\<close> say that a read
    stays in bounds and undoes the write of its field; they are interpreted for every field of the wire format
    and for the composite fields of the codecs, whose round trips rest on them.
  \<^item> \<open>Errors\<close>, \<open>Retry\<close> (\<^verbatim>\<open>core/errors.ts\<close>, \<^verbatim>\<open>client/resilience.ts\<close>, \<^verbatim>\<open>client/internal/backoff.ts\<close>, the retry loop
    of \<^verbatim>\<open>client/connection.ts\<close>): error classes, dispositions, the retry decision and the loop of attempts.
  \<^item> \<open>Frame\<close>, \<open>Extensions\<close>, \<open>Response\<close>, \<open>Routes\<close> (\<^verbatim>\<open>frame/\<close>, \<^verbatim>\<open>protocol/response.ts\<close>, \<^verbatim>\<open>domains/_routes.ts\<close>):
    frames and their incremental parser, extension fields, the response envelope, the validators of routes
    and the wildcard matcher.
  \<^item> \<open>KvCodec\<close>, \<open>QueueCodec\<close>, \<open>LeaseCodec\<close> (with the notice codec), \<open>ScheduleCodec\<close>, \<open>StreamCodec\<close>, \<open>RpcCodec\<close>
    (\<^verbatim>\<open>domains/*/codec.ts\<close>): each encoder and decoder, its round trips and its errors.
  \<^item> \<open>TimeoutHeap\<close>, \<open>PendingRing\<close>, \<open>Multiplexer\<close>, \<open>MuxInvariant\<close>, \<open>MuxDispatch\<close>, \<open>MuxSteps\<close>, \<open>MuxMachine\<close>,
    \<open>MuxProperties\<close> (\<^verbatim>\<open>client/multiplexer.ts\<close>): the index-tracking heap of deadlines, the ring of uncorrelated
    requests, the multiplexer over both, its invariant, its steps, and what it promises its callers. The heap
    and the ring are interpretations of the locales \<open>deadline_queue\<close> and \<open>fifo\<close>, under which the
    multiplexer uses them.
  \<^item> \<open>Readiness\<close>, \<open>Heartbeat\<close>, \<open>RequestGate\<close>, \<open>Dispatcher\<close>, \<open>Reconnect\<close>, \<open>WakeGate\<close>, \<open>TaskGroup\<close>
    (\<^verbatim>\<open>client/internal/\<close>, \<^verbatim>\<open>core/wake-gate.ts\<close>, \<^verbatim>\<open>core/task-group.ts\<close>): the building blocks of the connection
    and the public concurrency helpers, each a machine with its invariant.
  \<^item> \<open>Connection\<close>, \<open>ConnMachine\<close>, \<open>ConnInv\<close>, \<open>ConnFaults\<close>, \<open>Handshake\<close> (\<^verbatim>\<open>client/connection.ts\<close>): the connection
    composed of them, its events, that closing is final and nobody waits in vain, the runs in which
    something is lost, and the CONNECT message.
  \<^item> \<open>SubscriptionHandle\<close>, \<open>Registry\<close>, \<open>RegistryInv\<close>, \<open>RegistryRestore\<close> (\<^verbatim>\<open>domains/internal/\<close> and the subscription
    parts of the Queue, Stream and Schedule clients, which have one form): handles, the registry, what it
    guarantees while the session lasts and what a reconnect does to it.
  \<^item> \<open>LeaseHandle\<close>, \<open>LeaseAcquire\<close>, \<open>LeaseManaged\<close>, \<open>LeaseObserver\<close> (\<^verbatim>\<open>domains/lease/\<close>): the fenced handle, the
    acquisitions, the managed critical section and the inventory observer.
  \<^item> \<open>KvTransaction\<close>, \<open>StreamClient\<close>, \<open>NoticeClient\<close>, \<open>QueueClient\<close>, \<open>ScheduleClient\<close> (\<^verbatim>\<open>domains/*/client.ts\<close>,
    \<^verbatim>\<open>kv/transaction.ts\<close>, \<^verbatim>\<open>stream/session.ts\<close>): requests, answers, handles, paged reads and generators.
  \<^item> \<open>RpcIterator\<close>, \<open>RpcCalls\<close>, \<open>RpcWorker\<close>, \<open>RpcInvocation\<close>, \<open>RpcRegistration\<close> (\<^verbatim>\<open>domains/rpc/\<close>): the response
    stream of a call, the calling side, the choice of a worker and its response writer, the invocations with
    deadline, cancellation and acknowledgement, and the registrations with their restore.
  \<^item> \<open>ClientCore\<close> (\<^verbatim>\<open>client/client-core.ts\<close>, \<^verbatim>\<open>client/internal/async.ts\<close>): options, the shared connection
    attempt, \<^verbatim>\<open>connectWhenReady\<close> with its deadline, and closing.

  \<^bold>\<open>What the groups of lemmas show.\<close> Codecs: decoding what was encoded returns it, and a decoder
  accepts only such layouts. Data structures: heap order and membership, first-in first-out. Optimised routines:
  agreement with a reference definition (the wildcard matcher, the parser under any chunking, schedule
  selectors, the choice of a worker). Machines: an invariant of every reachable state, promises that settle at
  most once, and the outcome of each step on every branch. Liveness is stated as progress of a step: a
  disconnect settles everything pending, an idle tick sends a probe, a wake-up leads to another request.

  \<^bold>\<open>Loops.\<close> Structural loops are \<^theory_text>\<open>fun\<close>; index loops are \<^theory_text>\<open>function\<close> with a measure. Loops that end only if the
  environment plays along are \<^theory_text>\<open>partial_function (option)\<close>, where not ending is the value \<^term>\<open>None\<close>:
  \<open>dequeuePendingRequest\<close>, \<open>skipHoles\<close> (they end on every ring that satisfies its
  invariant), \<open>retryLoop\<close>, \<open>runLoop\<close> (they take the results of attempts as a function), \<open>readyLoop\<close> (with a finite deadline),
  \<open>scanAllLoop\<close>, \<open>readLoop\<close>, \<open>entriesLoop\<close> (with a broker whose pages advance). That they end is proved as a
  value \<open>Some\<close> under these conditions. No fuel is used.

  \<^bold>\<open>Not modelled.\<close> Telemetry, metrics and logging (\<^verbatim>\<open>client/internal/telemetry.ts\<close> and the calls into it) change no state
  of the client. The transports (\<^verbatim>\<open>transport/\<close>) move bytes between sockets of the platform and the receive loop; here they are the
  events of the connection. The adapters \<^verbatim>\<open>core/iterator.ts\<close>, \<^verbatim>\<open>core/lifecycle.ts\<close>, \<^verbatim>\<open>core/async-dispose.ts\<close>,
  \<^verbatim>\<open>domains/internal/subscription-iterator.ts\<close> and \<^verbatim>\<open>subscription-dispatch.ts\<close> send no requests of their own. Left out of
  components that are modelled otherwise: the watch subscriptions of the KV client, the queries, listings and per-route subscriptions of
  the lease client, and the ports of \<^verbatim>\<open>domains/base.ts\<close>, which forward calls. Texts of error messages
  are not kept, only what the code decides by.
\<close>

end
